(* ===== verification/Prelude.thy ===== *)
theory Prelude
  imports Complex_Main "HOL-Library.Signed_Division" "HOL-Library.Multiset"
begin

text \<open>
  Shared vocabulary of the development: the ways a C++ operation of the simulator can stop
  abnormally, the result type that carries them, the types that stand for the simulator's
  scalar types, and the generic facts on lists, options and sums that the component theories use.

  \<^item> \<open>int\<close> of the source is \<open>int\<close> here. Signed overflow is undefined behaviour in C++ and no
    definition relies on it; where the source uses an unsigned counter that may wrap (the
    secondary key of the event heap) the counter is a \<open>32 word\<close>.
  \<^item> \<open>double\<close> of the source is \<open>real\<close>: comparisons, additions and the like are exact, rounding is
    not modelled. Nothing that is proved about times needs more than their linear order unless the
    statement says so. The random number generator, whose correctness rests on the precision of \<open>double\<close>, is
    modelled with the rounding of theory \<open>Double\<close>.
  \<^item> division of two \<open>int\<close> values truncates towards zero, as in C++: \<open>sdiv\<close> and \<open>smod\<close>.
\<close>

text \<open>Abnormal ends: \<open>abort()\<close>, the two exception classes thrown, and undefined behaviour
  at run time (traps, null and dangling pointers, array indices out of range). \<open>Diverges\<close> is the value of a loop
  of the transport agent that has not ended within the number of rounds its definition allows; that it
  is never reached is proved where the loop is used.\<close>

datatype sim_error =
    Abort
  | LogicError string
  | RuntimeError string
  | DivideByZero
  | NullDeref
  | OutOfBounds
  | UseAfterFree
  | Diverges

type_synonym 'a res = "sim_error + 'a"

type_synonym time = real
type_synonym addr = nat

named_theorems model_defs \<open>unfolding equations of the operations of the model\<close>
named_theorems inv_intros \<open>every operation keeps the invariant of its component\<close>

definition res_bind :: "'a res \<Rightarrow> ('a \<Rightarrow> 'b res) \<Rightarrow> 'b res" where
  "res_bind m f = (case m of Inl e \<Rightarrow> Inl e | Inr x \<Rightarrow> f x)"

lemma res_bind_simps [simp]:
  "res_bind (Inl e) f = Inl e"
  "res_bind (Inr x) f = f x"
  by (simp_all add: res_bind_def)

lemma res_bind_Inr_iff: "res_bind m f = Inr y \<longleftrightarrow> (\<exists>x. m = Inr x \<and> f x = Inr y)"
  by (cases m) auto

lemma res_bind_Inl_iff: "res_bind m f = Inl e \<longleftrightarrow> m = Inl e \<or> (\<exists>x. m = Inr x \<and> f x = Inl e)"
  by (cases m) auto

section \<open>Removing the first element with a property\<close>

text \<open>What unlinking one node from a singly linked list does to the list of its nodes.\<close>

primrec remove_first :: "('a \<Rightarrow> bool) \<Rightarrow> 'a list \<Rightarrow> 'a list" where
  "remove_first P [] = []"
| "remove_first P (x # xs) = (if P x then xs else x # remove_first P xs)"

lemma remove_first_id [simp]: "\<forall>x \<in> set xs. \<not> P x \<Longrightarrow> remove_first P xs = xs"
  by (induction xs) auto

lemma set_remove_first_subset: "set (remove_first P xs) \<subseteq> set xs"
  by (induction xs) auto

lemma length_remove_first:
  "length (remove_first P xs) = (if \<exists>x \<in> set xs. P x then length xs - 1 else length xs)"
  by (induction xs) (auto simp: length_greater_0_conv[symmetric] simp del: length_greater_0_conv
      dest: length_pos_if_in_set)

lemma distinct_map_remove_first:
  "distinct (map f xs) \<Longrightarrow> distinct (map f (remove_first P xs))"
  by (induction xs) (use set_remove_first_subset in fastforce)+

lemma remove_first_append_notin:
  "\<forall>x \<in> set xs. \<not> P x \<Longrightarrow> remove_first P (xs @ ys) = xs @ remove_first P ys"
  by (induction xs) auto

lemma remove_first_split:
  assumes "y \<in> set xs" "P y"
  shows "\<exists>ys z zs. xs = ys @ z # zs \<and> P z \<and> (\<forall>x \<in> set ys. \<not> P x) \<and> remove_first P xs = ys @ zs"
  using assms
proof (induction xs)
  case (Cons x xs)
  show ?case
  proof (cases "P x")
    case True
    then have "x # xs = [] @ x # xs \<and> P x \<and> remove_first P (x # xs) = [] @ xs" by simp
    then show ?thesis by fastforce
  next
    case False
    with Cons obtain ys z zs where
      "xs = ys @ z # zs" "P z" "\<forall>x \<in> set ys. \<not> P x" "remove_first P xs = ys @ zs" by auto
    with False have "x # xs = (x # ys) @ z # zs \<and> P z \<and> (\<forall>u \<in> set (x # ys). \<not> P u) \<and>
        remove_first P (x # xs) = (x # ys) @ zs" by simp
    then show ?thesis by blast
  qed
qed simp

lemma mset_remove_first:
  assumes "y \<in> set xs" "P y" "\<And>z. z \<in> set xs \<Longrightarrow> P z \<Longrightarrow> z = y"
  shows "mset xs = add_mset y (mset (remove_first P xs))"
  using assms
proof (induction xs)
  case (Cons x xs)
  show ?case
  proof (cases "P x")
    case True
    with Cons.prems(3) [of x] show ?thesis by simp
  next
    case False
    with Cons.prems(1,2) have "y \<in> set xs" by auto
    moreover have "\<And>z. z \<in> set xs \<Longrightarrow> P z \<Longrightarrow> z = y"
      by (rule Cons.prems(3)) simp_all
    ultimately have "mset xs = add_mset y (mset (remove_first P xs))"
      using Cons.prems(2) by (blast intro: Cons.IH)
    with False show ?thesis by simp
  qed
qed simp

lemma sum_list_remove_first:
  fixes f :: "'a \<Rightarrow> int"
  assumes "y \<in> set xs" "P y" "\<And>z. z \<in> set xs \<Longrightarrow> P z \<Longrightarrow> z = y"
  shows "sum_list (map f (remove_first P xs)) = sum_list (map f xs) - f y"
proof -
  have "mset xs = add_mset y (mset (remove_first P xs))"
    using assms by (rule mset_remove_first)
  then have "sum_mset (image_mset f (mset xs)) = f y + sum_mset (image_mset f (mset (remove_first P xs)))"
    by simp
  then show ?thesis by (simp flip: sum_mset_sum_list)
qed

lemma sorted_wrt_remove_first: "sorted_wrt R xs \<Longrightarrow> sorted_wrt R (remove_first P xs)"
  by (induction xs) (use set_remove_first_subset in fastforce)+

lemma remove_first_key_filter:
  "distinct (map f xs) \<Longrightarrow> remove_first (\<lambda>x. f x = a) xs = filter (\<lambda>x. f x \<noteq> a) xs"
  by (induction xs) (auto simp: image_iff intro!: filter_True [symmetric])

lemma mset_map_key_filter:
  "distinct (map f xs) \<Longrightarrow> x \<in> set xs \<Longrightarrow>
   mset (map f xs) = add_mset (f x) (mset (map f (filter (\<lambda>y. f y \<noteq> f x) xs)))"
proof (induction xs)
  case (Cons y xs)
  show ?case
  proof (cases "f y = f x")
    case True
    with Cons.prems have "filter (\<lambda>z. f z \<noteq> f x) xs = xs" by (auto simp: filter_id_conv image_iff)
    with True show ?thesis by simp
  next
    case False
    with Cons show ?thesis by auto
  qed
qed simp

lemma sum_list_key_filter:
  fixes g :: "'a \<Rightarrow> int"
  assumes "distinct (map f xs)" "x \<in> set xs"
  shows "sum_list (map g (filter (\<lambda>y. f y \<noteq> f x) xs)) = sum_list (map g xs) - g x"
proof -
  have "sum_list (map g (remove_first (\<lambda>y. f y = f x) xs)) = sum_list (map g xs) - g x"
    using assms by (intro sum_list_remove_first) (auto simp: distinct_map inj_on_def)
  with assms(1) show ?thesis by (simp add: remove_first_key_filter)
qed

lemma filter_key_middle:
  "distinct (map f (ys @ x # zs)) \<Longrightarrow> filter (\<lambda>y. f y \<noteq> f x) (ys @ x # zs) = ys @ zs"
  by (auto simp: image_iff intro!: arg_cong2 [where f = append] filter_True) (metis+)?

lemma distinct_mset_subseteq:
  assumes "mset xs \<subseteq># mset ys" "distinct ys"
  shows "distinct xs"
proof -
  have "count (mset xs) a \<le> 1" for a
  proof -
    have "count (mset xs) a \<le> count (mset ys) a" using assms(1) by (rule mset_subset_eq_count)
    also have "\<dots> \<le> 1" using assms(2) by (simp add: distinct_count_atmost_1)
    finally show ?thesis .
  qed
  then have "count (mset xs) a = (if a \<in> set xs then 1 else 0)" for a
    by (metis count_mset_0_iff le_antisym less_one not_le)
  then show ?thesis by (simp add: distinct_count_atmost_1)
qed

section \<open>Lists indexed like C arrays\<close>

lemma nth_append_last [simp]: "(xs @ [x]) ! length xs = x"
  by simp

lemma inj_key_unique:
  "distinct (map f xs) \<Longrightarrow> x \<in> set xs \<Longrightarrow> y \<in> set xs \<Longrightarrow> f x = f y \<Longrightarrow> x = y"
  by (auto simp: distinct_map inj_on_def)

lemma sum_list_nonneg_member_le:
  fixes f :: "'a \<Rightarrow> int"
  assumes "\<forall>x \<in> set xs. 0 \<le> f x" "x \<in> set xs"
  shows "f x \<le> sum_list (map f xs)"
  using assms
proof (induction xs)
  case (Cons y ys)
  have nn: "0 \<le> sum_list (map f ys)"
    using Cons.prems(1) by (auto intro!: sum_list_nonneg)
  show ?case using Cons nn by fastforce
qed simp

lemma mset_concat_update:
  assumes "i < length qs"
  shows "mset (concat (map f (qs[i := q]))) + mset (f (qs ! i)) = mset (concat (map f qs)) + mset (f q)"
  using assms
proof (induction qs arbitrary: i)
  case (Cons x qs)
  then show ?case by (cases i) (auto simp: ac_simps)
qed simp

lemma sum_list_update_int:
  fixes f :: "'a \<Rightarrow> int"
  shows "i < length bs \<Longrightarrow> sum_list (map f (bs[i := b])) = sum_list (map f bs) + f b - f (bs ! i)"
proof (induction bs arbitrary: i)
  case (Cons a bs)
  then show ?case by (cases i) auto
qed simp

section \<open>Arithmetic of the source\<close>

text \<open>The conversion \<open>int(x)\<close> of a \<open>double\<close> drops the fraction; \<open>fmod\<close> and \<open>pow\<close> of the C library
  (the latter for a base that is not negative).\<close>

definition trunc :: "real \<Rightarrow> int" where
  "trunc x = (if x < 0 then \<lceil>x\<rceil> else \<lfloor>x\<rfloor>)"

definition fmod :: "real \<Rightarrow> real \<Rightarrow> real" where
  "fmod x y = x - y * of_int (trunc (x / y))"

definition c_pow :: "real \<Rightarrow> real \<Rightarrow> real" where
  "c_pow x y = (if y = 0 then 1 else x powr y)"

lemma trunc_of_int [simp]: "trunc (of_int n) = n"
  by (simp add: trunc_def)

lemma trunc_numeral [simp]: "trunc (numeral n) = numeral n" "trunc 0 = 0" "trunc 1 = 1"
  by (simp_all add: trunc_def)

lemma trunc_mono: "x \<le> y \<Longrightarrow> trunc x \<le> trunc y"
  unfolding trunc_def
  by (auto intro: floor_mono ceiling_mono order_trans [of "\<lceil>x\<rceil>" 0 "\<lfloor>y\<rfloor>"])

lemma trunc_nonneg: "0 \<le> x \<Longrightarrow> 0 \<le> trunc x"
  by (simp add: trunc_def)

lemma trunc_le: "0 \<le> x \<Longrightarrow> of_int (trunc x) \<le> x"
  by (simp add: trunc_def)

end
