(* ===== verification/Packet.thy ===== *)
theory Packet
  imports Prelude
begin

text \<open>
  The packet as the queues and the transport agents see it: the header fields that the modelled
  code reads or writes, with the address of the packet object, by which the code compares packets.
  The headers are \<open>hdr_cmn\<close> (\<open>common/packet.h\<close>), \<open>hdr_ip\<close> (\<open>common/ip.h\<close>), \<open>hdr_flags\<close>
  (\<open>common/flags.h\<close>) and \<open>hdr_tcp\<close> (\<open>tcp/tcp_header.h\<close>).
  One-byte flags that the code only uses as truth values are \<open>bool\<close>. The priority of the
  scheme is a number, smaller is more urgent, and \<open>get_lowest_priority\<close> of
  \<open>tcp/tcp-full.cc\<close> is the value that marks a packet whose flow has not ended yet.
\<close>

record hdr_ip =
  ip_saddr :: int
  ip_daddr :: int
  ip_fid :: int
  ip_prio :: int
  ip_gotecnecho :: bool

record hdr_flags =
  fl_ecnecho :: bool
  fl_ecn_low_prio :: bool
  fl_ce :: bool
  fl_ect :: bool
  fl_cong_action :: bool
  fl_no_ts :: bool
  fl_eln :: bool

datatype TcpXmissionReason = NORMAL | TIMEOUT | DUPACK | RBP | PARTIALACK | SACK

record hdr_tcp =
  tcp_ts :: time
  tcp_ts_echo :: time
  tcp_seqno :: int
  tcp_ackno :: int
  tcp_reason :: TcpXmissionReason
  tcp_sack_area :: "(int \<times> int) list"
  tcp_hlen :: int
  tcp_flags :: int

record packet =
  pk_addr :: addr
  pk_size :: int
  pk_ip :: hdr_ip
  pk_flags :: hdr_flags
  pk_tcp :: hdr_tcp

definition hdr_ip0 :: hdr_ip where
  "hdr_ip0 = \<lparr>ip_saddr = 0, ip_daddr = 0, ip_fid = 0, ip_prio = 0, ip_gotecnecho = False\<rparr>"

definition hdr_flags0 :: hdr_flags where
  "hdr_flags0 = \<lparr>fl_ecnecho = False, fl_ecn_low_prio = False, fl_ce = False, fl_ect = False,
     fl_cong_action = False, fl_no_ts = False, fl_eln = False\<rparr>"

definition hdr_tcp0 :: hdr_tcp where
  "hdr_tcp0 = \<lparr>tcp_ts = 0, tcp_ts_echo = 0, tcp_seqno = 0, tcp_ackno = 0, tcp_reason = NORMAL,
     tcp_sack_area = [], tcp_hlen = 0, tcp_flags = 0\<rparr>"

text \<open>\<open>Packet::init\<close>: a fresh packet has all header bytes zero.\<close>

definition packet_init :: "addr \<Rightarrow> packet" where
  "packet_init a = \<lparr>pk_addr = a, pk_size = 0, pk_ip = hdr_ip0, pk_flags = hdr_flags0,
     pk_tcp = hdr_tcp0\<rparr>"

text \<open>A packet of a given size and priority of one flow, for the concrete runs below.\<close>

definition mk_packet :: "addr \<Rightarrow> int \<Rightarrow> int \<Rightarrow> int \<Rightarrow> packet" where
  "mk_packet a sz fid prio = (packet_init a)
     \<lparr>pk_size := sz, pk_ip := hdr_ip0\<lparr>ip_fid := fid, ip_prio := prio\<rparr>\<rparr>"

lemmas packet_init_defs = packet_init_def hdr_ip0_def hdr_flags0_def hdr_tcp0_def mk_packet_def

lemma mk_packet_simps [simp]:
  "pk_addr (mk_packet a sz fid prio) = a"
  "pk_size (mk_packet a sz fid prio) = sz"
  "ip_prio (pk_ip (mk_packet a sz fid prio)) = prio"
  "ip_fid (pk_ip (mk_packet a sz fid prio)) = fid"
  "ip_saddr (pk_ip (mk_packet a sz fid prio)) = 0"
  "ip_daddr (pk_ip (mk_packet a sz fid prio)) = 0"
  by (simp_all add: packet_init_defs)

text \<open>\<open>FullTcpAgent::get_lowest_priority\<close>, and \<open>is_bad_prio\<close> of \<open>queue/drop-tail.cc\<close>.\<close>

definition get_lowest_priority :: int where
  "get_lowest_priority = push_bit 30 1"

lemma get_lowest_priority_eq: "get_lowest_priority = 1073741824"
  by (simp add: get_lowest_priority_def push_bit_eq_mult)

definition is_bad_prio :: "packet \<Rightarrow> bool" where
  "is_bad_prio p = (push_bit 30 1 \<le> ip_prio (pk_ip p))"

lemma is_bad_prio_iff: "is_bad_prio p \<longleftrightarrow> get_lowest_priority \<le> ip_prio (pk_ip p)"
  by (simp add: is_bad_prio_def get_lowest_priority_def)

text \<open>\<open>DropTail::is_same_flow\<close>.\<close>

definition is_same_flow :: "packet \<Rightarrow> packet \<Rightarrow> bool" where
  "is_same_flow p q = (ip_saddr (pk_ip q) = ip_saddr (pk_ip p) \<and>
     ip_daddr (pk_ip q) = ip_daddr (pk_ip p) \<and> ip_fid (pk_ip q) = ip_fid (pk_ip p))"

lemma is_same_flow_equiv: "equivp is_same_flow"
  by (auto simp: equivp_def is_same_flow_def fun_eq_iff)

end
