(* ===== verification/PacketQueue.thy ===== *)
theory PacketQueue
  imports Packet
begin

text \<open>
  The packet queue under every queueing discipline: class \<open>PacketQueue\<close> of \<open>queue/queue.h\<close> and
  \<open>queue/queue.cc\<close>, in two layers.

  The \<^emph>\<open>pointer layer\<close> (prefix \<open>pq\<close>) is the code as written: \<open>head_\<close>, \<open>tail_\<close> and \<open>iter\<close> are
  addresses, the \<open>next_\<close> fields live in the packet objects, that is in a store, and every
  operation follows and rewires these links. Its loops are partial functions: \<open>None\<close> stands for a
  loop that does not end, \<open>Some (Inl Abort)\<close> for \<open>abort()\<close>.

  The \<^emph>\<open>list layer\<close> (prefix \<open>lq\<close>) keeps the packets in a list, with the two counters of the class.
  The disciplines of the other theories are built on it. The relation \<open>pq_repr\<close> and the
  refinement lemmas connect the two, and both implement the interface locale \<open>packet_queue\<close>.
\<close>

section \<open>The pointer layer\<close>

record pkt_store =
  st_next :: "addr \<Rightarrow> addr option"
  st_size :: "addr \<Rightarrow> int"

record pq =
  pq_head :: "addr option"
  pq_tail :: "addr option"
  pq_len :: int
  pq_bytes :: int
  pq_iter :: "addr option"

type_synonym pq_state = "pkt_store \<times> pq"

definition pq_init :: pq where
  "pq_init = \<lparr>pq_head = None, pq_tail = None, pq_len = 0, pq_bytes = 0, pq_iter = None\<rparr>"

definition set_next :: "addr \<Rightarrow> addr option \<Rightarrow> pkt_store \<Rightarrow> pkt_store" where
  "set_next a n m = m\<lparr>st_next := (st_next m)(a := n)\<rparr>"

lemma set_next_simps [simp]:
  "st_next (set_next a n m) = (st_next m)(a := n)"
  "st_size (set_next a n m) = st_size m"
  by (simp_all add: set_next_def)

text \<open>\<open>enque\<close> returns the previous tail.\<close>

definition pq_enque :: "addr \<Rightarrow> pq_state \<Rightarrow> addr option \<times> pq_state" where
  "pq_enque p s = (case s of (m, q) \<Rightarrow>
     let pt = pq_tail q;
         (m1, q1) = (case pq_tail q of
            None \<Rightarrow> (m, q\<lparr>pq_head := Some p, pq_tail := Some p\<rparr>)
          | Some t \<Rightarrow> (set_next t (Some p) m, q\<lparr>pq_tail := Some p\<rparr>));
         m2 = set_next p None m1
     in (pt, (m2, q1\<lparr>pq_len := pq_len q1 + 1, pq_bytes := pq_bytes q1 + st_size m2 p\<rparr>)))"

definition pq_deque :: "pq_state \<Rightarrow> addr option \<times> pq_state" where
  "pq_deque s = (case s of (m, q) \<Rightarrow>
     (case pq_head q of
        None \<Rightarrow> (None, (m, q))
      | Some p \<Rightarrow>
          let q1 = q\<lparr>pq_head := st_next m p\<rparr>;
              q2 = (if Some p = pq_tail q1 then q1\<lparr>pq_head := None, pq_tail := None\<rparr> else q1)
          in (Some p, (m, q2\<lparr>pq_len := pq_len q2 - 1, pq_bytes := pq_bytes q2 - st_size m p\<rparr>))))"

partial_function (option) pq_lookup_loop ::
  "pkt_store \<Rightarrow> addr option \<Rightarrow> int \<Rightarrow> addr option option" where
  "pq_lookup_loop m p n = (case p of
      None \<Rightarrow> Some None
    | Some a \<Rightarrow> if n - 1 < 0 then Some (Some a) else pq_lookup_loop m (st_next m a) (n - 1))"

definition pq_lookup :: "int \<Rightarrow> pq_state \<Rightarrow> addr option option" where
  "pq_lookup n s = pq_lookup_loop (fst s) (pq_head (snd s)) n"

text \<open>
  \<open>remove(target)\<close>: the loop walks with the trailing pointer \<open>pp\<close>; at the head it calls the
  virtual \<open>deque()\<close>, which is therefore an argument.
\<close>

partial_function (option) pq_remove_loop ::
  "(pq_state \<Rightarrow> addr option \<times> pq_state) \<Rightarrow> addr \<Rightarrow> addr option \<Rightarrow> addr option \<Rightarrow> pq_state
    \<Rightarrow> pq_state res option" where
  "pq_remove_loop deq target pp p s = (case p of
      None \<Rightarrow> Some (Inl Abort)
    | Some a \<Rightarrow>
        if a = target then
          (case pp of
             None \<Rightarrow> Some (Inr (snd (deq s)))
           | Some b \<Rightarrow> Some (Inr (case s of (m, q) \<Rightarrow>
               let q1 = (if Some a = pq_tail q then q\<lparr>pq_tail := Some b\<rparr> else q);
                   m1 = set_next b (st_next m a) m
               in (m1, q1\<lparr>pq_len := pq_len q1 - 1, pq_bytes := pq_bytes q1 - st_size m1 a\<rparr>))))
        else pq_remove_loop deq target (Some a) (st_next (fst s) a) s)"

definition pq_remove ::
  "(pq_state \<Rightarrow> addr option \<times> pq_state) \<Rightarrow> addr \<Rightarrow> pq_state \<Rightarrow> pq_state res option" where
  "pq_remove deq target s = pq_remove_loop deq target None (pq_head (snd s)) s"

text \<open>\<open>remove(pkt, prev)\<close>: a null \<open>prev\<close> for a packet that is not the head is dereferenced.\<close>

definition pq_remove_after :: "addr option \<Rightarrow> addr option \<Rightarrow> pq_state \<Rightarrow> pq_state res" where
  "pq_remove_after pkt prev s = (case pkt of
      None \<Rightarrow> Inr s
    | Some p \<Rightarrow> (case s of (m, q) \<Rightarrow>
        if pq_head q = Some p then Inr (snd (pq_deque s))
        else (case prev of
           None \<Rightarrow> Inl NullDeref
         | Some b \<Rightarrow>
             let m1 = set_next b (st_next m p) m;
                 q1 = (if pq_tail q = Some p then q\<lparr>pq_tail := Some b\<rparr> else q)
             in Inr (m1, q1\<lparr>pq_len := pq_len q1 - 1, pq_bytes := pq_bytes q1 - st_size m1 p\<rparr>))))"

definition pq_enqueHead :: "addr \<Rightarrow> pq_state \<Rightarrow> pq_state" where
  "pq_enqueHead p s = (case s of (m, q) \<Rightarrow>
     let q1 = (if pq_head q = None then q\<lparr>pq_tail := Some p\<rparr> else q);
         m1 = set_next p (pq_head q1) m
     in (m1, q1\<lparr>pq_head := Some p, pq_len := pq_len q1 + 1, pq_bytes := pq_bytes q1 + st_size m1 p\<rparr>))"

definition pq_resetIterator :: "pq \<Rightarrow> pq" where
  "pq_resetIterator q = q\<lparr>pq_iter := pq_head q\<rparr>"

definition pq_getNext :: "pkt_store \<Rightarrow> pq \<Rightarrow> addr option \<times> pq" where
  "pq_getNext m q = (case pq_iter q of
      None \<Rightarrow> (None, q)
    | Some a \<Rightarrow> (Some a, q\<lparr>pq_iter := st_next m a\<rparr>))"

section \<open>Chains of \<open>next_\<close> pointers\<close>

primrec chain :: "(addr \<Rightarrow> addr option) \<Rightarrow> addr option \<Rightarrow> addr list \<Rightarrow> bool" where
  "chain nx p [] = (p = None)"
| "chain nx p (x # xs) = (p = Some x \<and> chain nx (nx x) xs)"

definition opt_last :: "'a list \<Rightarrow> 'a option" where
  "opt_last xs = (if xs = [] then None else Some (last xs))"

definition opt_hd :: "'a list \<Rightarrow> 'a option" where
  "opt_hd xs = (case xs of [] \<Rightarrow> None | x # _ \<Rightarrow> Some x)"

definition pq_repr :: "pq_state \<Rightarrow> addr list \<Rightarrow> bool" where
  "pq_repr s xs \<longleftrightarrow> distinct xs \<and> chain (st_next (fst s)) (pq_head (snd s)) xs \<and>
     pq_tail (snd s) = opt_last xs \<and> pq_len (snd s) = int (length xs) \<and>
     pq_bytes (snd s) = sum_list (map (st_size (fst s)) xs)"

lemma opt_last_simps [simp]:
  "opt_last [] = None" "opt_last (xs @ [x]) = Some x" "opt_last xs = None \<longleftrightarrow> xs = []"
  "opt_last (x # y # ys) = opt_last (y # ys)" "opt_last [x] = Some x"
  by (simp_all add: opt_last_def)

lemma opt_last_append_Cons [simp]: "opt_last (xs @ y # ys) = opt_last (y # ys)"
  by (simp add: opt_last_def)

lemma opt_last_Some: "opt_last xs = Some t \<longleftrightarrow> (\<exists>ys. xs = ys @ [t])"
  by (auto simp: opt_last_def intro: exI [of _ "butlast xs"])

lemma chain_upd_notin [simp]: "a \<notin> set xs \<Longrightarrow> chain (nx(a := v)) p xs = chain nx p xs"
  by (induction xs arbitrary: p) auto

lemma chain_head: "chain nx p xs \<Longrightarrow> p = opt_hd xs"
  by (cases xs) (auto simp: opt_hd_def)

lemma chain_snoc:
  assumes "chain nx p xs" "distinct xs" "a \<notin> set xs" "xs \<noteq> []"
  shows "chain (nx(last xs := Some a, a := None)) p (xs @ [a])"
  using assms
proof (induction xs arbitrary: p)
  case (Cons x xs)
  show ?case
  proof (cases "xs = []")
    case False
    with Cons have "chain (nx(last xs := Some a, a := None)) (nx x) (xs @ [a])"
      by (intro Cons.IH) auto
    moreover have "x \<noteq> last xs" using Cons.prems False by auto
    ultimately show ?thesis using Cons.prems False by (simp del: fun_upd_apply) simp
  qed (use Cons.prems in auto)
qed simp

text \<open>Unlinking the node after \<open>b\<close>.\<close>

lemma chain_unlink:
  assumes "chain nx p (xs @ b # a # ys)" "distinct (xs @ b # a # ys)"
  shows "chain (nx(b := nx a)) p (xs @ b # ys)"
  using assms by (induction xs arbitrary: p) auto

lemma chain_tail_in: "chain nx p (xs @ a # ys) \<Longrightarrow> chain nx (Some a) (a # ys)"
  by (induction xs arbitrary: p) auto

section \<open>The list layer\<close>

record lq =
  lq_pkts :: "packet list"
  lq_len :: int
  lq_bytes :: int

definition lq_init :: lq where
  "lq_init = \<lparr>lq_pkts = [], lq_len = 0, lq_bytes = 0\<rparr>"

definition lq_enque :: "packet \<Rightarrow> lq \<Rightarrow> lq" where
  "lq_enque p q = \<lparr>lq_pkts = lq_pkts q @ [p], lq_len = lq_len q + 1, lq_bytes = lq_bytes q + pk_size p\<rparr>"

definition lq_deque :: "lq \<Rightarrow> packet option \<times> lq" where
  "lq_deque q = (case lq_pkts q of
      [] \<Rightarrow> (None, q)
    | p # ps \<Rightarrow> (Some p, \<lparr>lq_pkts = ps, lq_len = lq_len q - 1, lq_bytes = lq_bytes q - pk_size p\<rparr>))"

text \<open>The packet is named by its address; \<open>None\<close> is the call of \<open>abort()\<close>.\<close>

definition lq_unlink :: "addr \<Rightarrow> lq \<Rightarrow> lq option" where
  "lq_unlink a q = (case find (\<lambda>p. pk_addr p = a) (lq_pkts q) of
      None \<Rightarrow> None
    | Some p \<Rightarrow> Some \<lparr>lq_pkts = remove_first (\<lambda>p. pk_addr p = a) (lq_pkts q),
        lq_len = lq_len q - 1, lq_bytes = lq_bytes q - pk_size p\<rparr>)"

definition lq_inv :: "lq \<Rightarrow> bool" where
  "lq_inv q \<longleftrightarrow> distinct (map pk_addr (lq_pkts q)) \<and> lq_len q = int (length (lq_pkts q)) \<and>
     lq_bytes q = sum_list (map pk_size (lq_pkts q))"

definition set_ce :: "packet \<Rightarrow> packet" where
  "set_ce p = p\<lparr>pk_flags := (pk_flags p)\<lparr>fl_ce := True\<rparr>\<rparr>"

text \<open>Writing the header of a queued packet: the packet at the address changes in place.\<close>

definition update_pkt :: "addr \<Rightarrow> (packet \<Rightarrow> packet) \<Rightarrow> lq \<Rightarrow> lq" where
  "update_pkt a f q = q\<lparr>lq_pkts := map (\<lambda>x. if pk_addr x = a then f x else x) (lq_pkts q)\<rparr>"

section \<open>The interface of a packet queue\<close>

text \<open>
  What a discipline may rely on: \<open>repr s xs\<close> says that the queue holds the packets at the
  addresses \<open>xs\<close>, first to be served first; \<open>sz\<close> is the size of a packet.
\<close>

locale packet_queue =
  fixes ident :: "'p \<Rightarrow> addr"
    and repr :: "'s \<Rightarrow> 'p list \<Rightarrow> bool"
    and sz :: "'s \<Rightarrow> 'p \<Rightarrow> int"
    and enq :: "'p \<Rightarrow> 's \<Rightarrow> 's"
    and deq :: "'s \<Rightarrow> 'p option \<times> 's"
    and rem :: "addr \<Rightarrow> 's \<Rightarrow> 's option"
    and len :: "'s \<Rightarrow> int"
    and bytes :: "'s \<Rightarrow> int"
  assumes repr_distinct: "repr s xs \<Longrightarrow> distinct (map ident xs)"
    and repr_enq: "repr s xs \<Longrightarrow> ident a \<notin> ident ` set xs \<Longrightarrow> repr (enq a s) (xs @ [a])"
    and deq_empty: "repr s [] \<Longrightarrow> deq s = (None, s)"
    and deq_Cons: "repr s (a # xs) \<Longrightarrow> fst (deq s) = Some a \<and> repr (snd (deq s)) xs"
    and rem_in: "repr s xs \<Longrightarrow> i \<in> ident ` set xs \<Longrightarrow>
      \<exists>s'. rem i s = Some s' \<and> repr s' (remove_first (\<lambda>x. ident x = i) xs)"
    and rem_notin: "repr s xs \<Longrightarrow> i \<notin> ident ` set xs \<Longrightarrow> rem i s = None"
    and len_repr: "repr s xs \<Longrightarrow> len s = int (length xs)"
    and bytes_repr: "repr s xs \<Longrightarrow> bytes s = sum_list (map (sz s) xs)"
begin

text \<open>Enqueueing a list of packets, and a number of calls of the dequeue operation.\<close>

fun enq_all :: "'p list \<Rightarrow> 's \<Rightarrow> 's" where
  "enq_all [] s = s"
| "enq_all (a # as) s = enq_all as (enq a s)"

fun deq_n :: "nat \<Rightarrow> 's \<Rightarrow> 'p option list \<times> 's" where
  "deq_n 0 s = ([], s)"
| "deq_n (Suc n) s = (let (r, s1) = deq s; (rs, s2) = deq_n n s1 in (r # rs, s2))"

lemma repr_enq_all:
  "repr s xs \<Longrightarrow> distinct (map ident (xs @ as)) \<Longrightarrow> repr (enq_all as s) (xs @ as)"
proof (induction as arbitrary: s xs)
  case (Cons a as)
  then have "repr (enq a s) (xs @ [a])" by (intro repr_enq) auto
  then have "repr (enq_all as (enq a s)) ((xs @ [a]) @ as)"
    using Cons.prems by (intro Cons.IH) auto
  then show ?case by simp
qed simp

lemma repr_deq_n:
  "repr s xs \<Longrightarrow> n \<le> length xs \<Longrightarrow>
     fst (deq_n n s) = map Some (take n xs) \<and> repr (snd (deq_n n s)) (drop n xs)"
proof (induction n arbitrary: s xs)
  case (Suc n)
  then obtain a ys where xs: "xs = a # ys" by (cases xs) auto
  with Suc.prems have "fst (deq s) = Some a" "repr (snd (deq s)) ys"
    using deq_Cons by blast+
  then show ?case using Suc.IH [of "snd (deq s)" ys] Suc.prems xs
    by (auto simp: split_beta)
qed simp

text \<open>First in, first out, for any implementation of the interface.\<close>

lemma fifo:
  assumes "repr s []" "distinct (map ident as)"
  shows "fst (deq_n (length as) (enq_all as s)) = map Some as"
    "repr (snd (deq_n (length as) (enq_all as s))) []"
proof -
  have "repr (enq_all as s) ([] @ as)" using assms by (intro repr_enq_all) auto
  from repr_deq_n [OF this, of "length as"] show
    "fst (deq_n (length as) (enq_all as s)) = map Some as"
    "repr (snd (deq_n (length as) (enq_all as s))) []" by simp_all
qed

end

section \<open>The pointer layer represents a list\<close>

lemma pq_repr_init: "pq_repr (m, pq_init) []"
  by (simp add: pq_repr_def pq_init_def)

lemma pq_repr_enque:
  assumes "pq_repr s xs" "p \<notin> set xs"
  shows "fst (pq_enque p s) = opt_last xs \<and> pq_repr (snd (pq_enque p s)) (xs @ [p])"
proof (cases "xs = []")
  case True
  with assms show ?thesis
    by (cases s) (auto simp: pq_repr_def pq_enque_def)
next
  case False
  obtain m q where s: "s = (m, q)" by (cases s)
  from assms False have t: "pq_tail q = Some (last xs)"
    by (simp add: s pq_repr_def opt_last_def)
  from assms False have "chain ((st_next m)(last xs := Some p, p := None)) (pq_head q) (xs @ [p])"
    by (intro chain_snoc) (auto simp: s pq_repr_def)
  with assms False t show ?thesis
    by (simp add: s pq_repr_def pq_enque_def Let_def opt_last_def)
qed

lemma pq_repr_deque_Nil: "pq_repr s [] \<Longrightarrow> pq_deque s = (None, s)"
  by (auto simp: pq_repr_def pq_deque_def split: prod.splits)

lemma pq_repr_deque_Cons:
  assumes "pq_repr s (a # xs)"
  shows "fst (pq_deque s) = Some a \<and> pq_repr (snd (pq_deque s)) xs"
proof -
  obtain m q where s: "s = (m, q)" by (cases s)
  have "Some a = pq_tail q \<longleftrightarrow> xs = []"
    using assms by (cases xs) (auto simp: s pq_repr_def opt_last_def)
  with assms show ?thesis
    by (cases xs) (auto simp: s pq_repr_def pq_deque_def Let_def)
qed

text \<open>The loop of \<open>remove\<close>, started in the middle of the chain.\<close>

lemma pq_remove_loop_skip:
  assumes "chain (st_next (fst s)) p (ys @ zs)" "target \<notin> set ys"
  shows "pq_remove_loop deq target pp p s =
    pq_remove_loop deq target (if ys = [] then pp else Some (last ys)) (opt_hd zs) s"
  using assms
proof (induction ys arbitrary: p pp)
  case Nil
  then show ?case using chain_head by fastforce
next
  case (Cons y ys)
  from Cons.prems have "p = Some y" "y \<noteq> target"
    "chain (st_next (fst s)) (st_next (fst s) y) (ys @ zs)" "target \<notin> set ys" by auto
  with Cons.IH [of "st_next (fst s) y" "Some y"] show ?case
    by (simp add: pq_remove_loop.simps [of deq target pp "Some y"])
qed

lemma pq_remove_notin:
  assumes "pq_repr s xs" "target \<notin> set xs"
  shows "pq_remove deq target s = Some (Inl Abort)"
  using pq_remove_loop_skip [of s "pq_head (snd s)" xs "[]"] assms
  by (simp add: pq_remove_def pq_repr_def opt_hd_def pq_remove_loop.simps)

lemma pq_remove_head:
  assumes "pq_repr s (target # xs)"
  shows "pq_remove deq target s = Some (Inr (snd (deq s)))"
  using assms by (simp add: pq_remove_def pq_repr_def pq_remove_loop.simps)

lemma pq_remove_middle:
  assumes r: "pq_repr s (ys @ b # target # zs)"
  shows "\<exists>s'. pq_remove deq target s = Some (Inr s') \<and> pq_repr s' (ys @ b # zs)"
proof -
  obtain m q where s: "s = (m, q)" by (cases s)
  let ?q1 = "if Some target = pq_tail q then q\<lparr>pq_tail := Some b\<rparr> else q"
  let ?s' = "(set_next b (st_next m target) m,
     ?q1\<lparr>pq_len := pq_len ?q1 - 1, pq_bytes := pq_bytes ?q1 - st_size m target\<rparr>)"
  from r have d: "distinct (ys @ b # target # zs)"
    and c: "chain (st_next m) (pq_head q) ((ys @ [b]) @ target # zs)"
    by (auto simp: s pq_repr_def)
  have "pq_remove deq target s = pq_remove_loop deq target (Some b) (Some target) s"
    using pq_remove_loop_skip [of s "pq_head q" "ys @ [b]" "target # zs" target deq None] c d
    by (simp add: pq_remove_def s opt_hd_def)
  also have "\<dots> = Some (Inr ?s')"
    by (simp add: pq_remove_loop.simps s Let_def)
  finally have "pq_remove deq target s = Some (Inr ?s')" .
  moreover have "chain ((st_next m)(b := st_next m target)) (pq_head q) (ys @ b # zs)"
    using c d by (intro chain_unlink) auto
  moreover have "Some target = pq_tail q \<longleftrightarrow> zs = []"
    using r d by (cases zs rule: rev_cases) (auto simp: s pq_repr_def opt_last_def)
  ultimately show ?thesis using r d
    by (cases zs) (auto simp: s pq_repr_def opt_last_def)
qed

lemma pq_remove_in:
  assumes r: "pq_repr s xs" and i: "target \<in> set xs"
  shows "\<exists>s'. pq_remove pq_deque target s = Some (Inr s') \<and>
    pq_repr s' (remove_first (\<lambda>x. x = target) xs)"
proof -
  from i obtain ys zs where xs: "xs = ys @ target # zs" "target \<notin> set ys"
    by (meson split_list_first)
  then have rf: "remove_first (\<lambda>x. x = target) xs = ys @ zs"
    by (subst xs(1), subst remove_first_append_notin) auto
  show ?thesis
  proof (cases ys rule: rev_cases)
    case Nil
    then show ?thesis using r xs rf pq_remove_head [of s target zs pq_deque]
        pq_repr_deque_Cons [of s target zs] by simp
  next
    case (snoc ws b)
    then show ?thesis using r xs rf pq_remove_middle [of s ws b target zs pq_deque] by simp
  qed
qed

lemma pq_lookup_repr:
  assumes "chain (st_next m) p xs" "0 \<le> n"
  shows "pq_lookup_loop m p n = Some (if n < int (length xs) then Some (xs ! nat n) else None)"
  using assms
proof (induction xs arbitrary: p n)
  case Nil
  then show ?case by (simp add: pq_lookup_loop.simps)
next
  case (Cons x xs)
  show ?case
  proof (cases "n = 0")
    case True
    with Cons.prems show ?thesis by (simp add: pq_lookup_loop.simps)
  next
    case False
    with Cons.prems have "pq_lookup_loop m (st_next m x) (n - 1) =
        Some (if n - 1 < int (length xs) then Some (xs ! nat (n - 1)) else None)"
      by (intro Cons.IH) auto
    moreover have "(x # xs) ! nat n = xs ! nat (n - 1)"
      using False Cons.prems by (simp add: nth_Cons' nat_diff_distrib)
    ultimately show ?thesis using False Cons.prems
      by (auto simp: pq_lookup_loop.simps [of m "Some x"])
  qed
qed

lemma pq_repr_enqueHead:
  assumes "pq_repr s xs" "p \<notin> set xs"
  shows "pq_repr (pq_enqueHead p s) (p # xs)"
proof -
  obtain m q where s: "s = (m, q)" by (cases s)
  have "pq_head q = None \<longleftrightarrow> xs = []"
    using assms by (cases xs) (auto simp: s pq_repr_def)
  with assms show ?thesis
    by (cases xs) (auto simp: s pq_repr_def pq_enqueHead_def Let_def)
qed

lemma pq_remove_after_repr:
  assumes r: "pq_repr s (ys @ b # a # zs)"
  shows "\<exists>s'. pq_remove_after (Some a) (Some b) s = Inr s' \<and> pq_repr s' (ys @ b # zs)"
proof -
  obtain m q where s: "s = (m, q)" by (cases s)
  from r have d: "distinct (ys @ b # a # zs)"
    and c: "chain (st_next m) (pq_head q) (ys @ b # a # zs)"
    by (auto simp: s pq_repr_def)
  have "pq_head q \<noteq> Some a" using c d by (cases ys) auto
  moreover have "chain ((st_next m)(b := st_next m a)) (pq_head q) (ys @ b # zs)"
    using c d by (rule chain_unlink)
  moreover have "pq_tail q = Some a \<longleftrightarrow> zs = []"
    using r d by (cases zs rule: rev_cases) (auto simp: s pq_repr_def opt_last_def)
  ultimately show ?thesis using r d
    by (cases zs) (auto simp: s pq_repr_def opt_last_def pq_remove_after_def Let_def)
qed

text \<open>Iterating with \<open>getNext\<close> from \<open>resetIterator\<close> visits the packets in order, then yields null.\<close>

fun pq_iterate :: "nat \<Rightarrow> pkt_store \<Rightarrow> pq \<Rightarrow> addr option list" where
  "pq_iterate 0 m q = []"
| "pq_iterate (Suc n) m q = (let (r, q') = pq_getNext m q in r # pq_iterate n m q')"

lemma pq_iterate_chain:
  "chain (st_next m) (pq_iter q) xs \<Longrightarrow> n = length xs \<Longrightarrow>
     pq_iterate (Suc n) m q = map Some xs @ [None]"
proof (induction xs arbitrary: q n)
  case (Cons x xs)
  then have "pq_iterate (Suc (length xs)) m (q\<lparr>pq_iter := st_next m x\<rparr>) = map Some xs @ [None]"
    by (intro Cons.IH) auto
  with Cons.prems show ?case by (simp add: pq_getNext_def)
qed (simp add: pq_getNext_def)

section \<open>The list layer keeps its invariant\<close>

lemma lq_inv_init [inv_intros]: "lq_inv lq_init"
  by (simp add: lq_inv_def lq_init_def)

lemma lq_inv_enque [inv_intros]:
  "lq_inv q \<Longrightarrow> pk_addr p \<notin> pk_addr ` set (lq_pkts q) \<Longrightarrow> lq_inv (lq_enque p q)"
  by (auto simp: lq_inv_def lq_enque_def)

lemma lq_inv_deque [inv_intros]: "lq_inv q \<Longrightarrow> lq_inv (snd (lq_deque q))"
  by (auto simp: lq_inv_def lq_deque_def split: list.splits)

lemma lq_unlink_eq:
  assumes "lq_inv q" "p \<in> set (lq_pkts q)"
  shows "lq_unlink (pk_addr p) q = Some \<lparr>lq_pkts = remove_first (\<lambda>x. pk_addr x = pk_addr p) (lq_pkts q),
    lq_len = lq_len q - 1, lq_bytes = lq_bytes q - pk_size p\<rparr>"
proof -
  from assms(2) have "\<exists>x. find (\<lambda>x. pk_addr x = pk_addr p) (lq_pkts q) = Some x"
    by (metis (mono_tags, lifting) find_None_iff not_None_eq)
  then obtain x where x: "find (\<lambda>x. pk_addr x = pk_addr p) (lq_pkts q) = Some x" ..
  then have "x \<in> set (lq_pkts q)" "pk_addr x = pk_addr p"
    by (auto simp: find_Some_iff)
  with assms have "x = p" by (auto simp: lq_inv_def intro: inj_key_unique)
  with x show ?thesis by (simp add: lq_unlink_def)
qed

lemma lq_unlink_notin:
  "a \<notin> pk_addr ` set (lq_pkts q) \<Longrightarrow> lq_unlink a q = None"
  by (auto simp: lq_unlink_def find_Some_iff split: option.splits)

lemma lq_inv_unlink:
  assumes "lq_inv q" "lq_unlink a q = Some q'"
  shows "lq_inv q' \<and> lq_pkts q' = remove_first (\<lambda>x. pk_addr x = a) (lq_pkts q)"
proof -
  from assms(2) obtain p where p: "p \<in> set (lq_pkts q)" "pk_addr p = a"
    using lq_unlink_notin [of a q] by (cases "a \<in> pk_addr ` set (lq_pkts q)") auto
  have u: "\<And>z. z \<in> set (lq_pkts q) \<Longrightarrow> pk_addr z = a \<Longrightarrow> z = p"
    using assms(1) p by (auto simp: lq_inv_def intro: inj_key_unique)
  have "int (length (lq_pkts q) - Suc 0) = int (length (lq_pkts q)) - 1"
    using length_pos_if_in_set [OF p(1)] by linarith
  moreover have "sum_list (map pk_size (remove_first (\<lambda>x. pk_addr x = a) (lq_pkts q))) =
      sum_list (map pk_size (lq_pkts q)) - pk_size p"
    using p u by (rule sum_list_remove_first)
  moreover have "lq_unlink a q = Some \<lparr>lq_pkts = remove_first (\<lambda>x. pk_addr x = a) (lq_pkts q),
      lq_len = lq_len q - 1, lq_bytes = lq_bytes q - pk_size p\<rparr>"
    using lq_unlink_eq [OF assms(1) p(1)] p(2) by simp
  moreover have "\<exists>x \<in> set (lq_pkts q). pk_addr x = a" using p by blast
  ultimately show ?thesis using assms
    by (auto simp: lq_inv_def distinct_map_remove_first length_remove_first)
qed

lemma set_ce_simps [simp]:
  "pk_addr (set_ce p) = pk_addr p" "pk_size (set_ce p) = pk_size p" "pk_ip (set_ce p) = pk_ip p"
  by (simp_all add: set_ce_def)

lemma update_pkt_ce:
  "map pk_addr (lq_pkts (update_pkt a set_ce q)) = map pk_addr (lq_pkts q)"
  "lq_len (update_pkt a set_ce q) = lq_len q" "lq_bytes (update_pkt a set_ce q) = lq_bytes q"
  "map pk_size (lq_pkts (update_pkt a set_ce q)) = map pk_size (lq_pkts q)"
  by (simp_all add: update_pkt_def)

lemma lq_inv_update_ce: "lq_inv q \<Longrightarrow> lq_inv (update_pkt a set_ce q)"
  by (simp add: lq_inv_def update_pkt_ce) (simp add: update_pkt_def)

lemma lq_pkts_enque [simp]: "lq_pkts (lq_enque p q) = lq_pkts q @ [p]"
  by (simp add: lq_enque_def)

lemma lq_inv_lengths:
  "lq_inv q \<Longrightarrow> lq_len q = int (length (lq_pkts q))"
  "lq_inv q \<Longrightarrow> lq_bytes q = sum_list (map pk_size (lq_pkts q))"
  by (simp_all add: lq_inv_def)

section \<open>Both layers implement the interface\<close>

definition pq_rem :: "addr \<Rightarrow> pq_state \<Rightarrow> pq_state option" where
  "pq_rem a s = (case pq_remove pq_deque a s of Some (Inr s') \<Rightarrow> Some s' | _ \<Rightarrow> None)"

definition lq_repr :: "lq \<Rightarrow> packet list \<Rightarrow> bool" where
  "lq_repr q xs \<longleftrightarrow> lq_inv q \<and> lq_pkts q = xs"

interpretation pql: packet_queue "\<lambda>a. a" pq_repr "\<lambda>s. st_size (fst s)" "\<lambda>a s. snd (pq_enque a s)"
  pq_deque pq_rem "\<lambda>s. pq_len (snd s)" "\<lambda>s. pq_bytes (snd s)"
proof (unfold_locales, goal_cases)
  case (5 s xs a)
  then show ?case using pq_remove_in [of s xs a] by (auto simp: pq_rem_def)
next
  case (6 s xs a)
  then show ?case using pq_remove_notin [of s xs a pq_deque] by (simp add: pq_rem_def)
qed (auto simp: pq_repr_enque pq_repr_deque_Nil pq_repr_deque_Cons, auto simp: pq_repr_def)

interpretation lql: packet_queue pk_addr lq_repr "\<lambda>s. pk_size" lq_enque
  lq_deque lq_unlink lq_len lq_bytes
proof (unfold_locales, goal_cases)
  case (5 s xs a)
  then obtain p where "p \<in> set xs" "pk_addr p = a" by auto
  with 5 lq_unlink_eq [of s p] lq_inv_unlink [of s a] show ?case
    by (auto simp: lq_repr_def)
qed (auto simp: lq_repr_def lq_inv_enque lq_inv_deque lq_unlink_notin,
     auto simp: lq_inv_def lq_enque_def lq_deque_def)

section \<open>Runs of operations: the pointer layer refines the list specification\<close>

datatype pq_op = Enque addr | Deque | Remove addr | EnqueHead addr

text \<open>The specification: what each operation returns and does to the list of queued packets.\<close>

fun spec_step :: "pq_op \<Rightarrow> addr list \<Rightarrow> (addr option \<times> addr list) res" where
  "spec_step (Enque a) xs = Inr (opt_last xs, xs @ [a])"
| "spec_step Deque xs = Inr (opt_hd xs, tl xs)"
| "spec_step (Remove a) xs =
     (if a \<in> set xs then Inr (None, remove_first (\<lambda>x. x = a) xs) else Inl Abort)"
| "spec_step (EnqueHead a) xs = Inr (None, a # xs)"

text \<open>A packet is linked into one queue only, and once.\<close>

fun op_ok :: "pq_op \<Rightarrow> addr list \<Rightarrow> bool" where
  "op_ok (Enque a) xs = (a \<notin> set xs)"
| "op_ok (EnqueHead a) xs = (a \<notin> set xs)"
| "op_ok _ xs = True"

fun spec_run :: "pq_op list \<Rightarrow> addr list \<Rightarrow> (addr option list \<times> addr list) res" where
  "spec_run [] xs = Inr ([], xs)"
| "spec_run (c # cs) xs = res_bind (spec_step c xs) (\<lambda>(r, ys).
     res_bind (spec_run cs ys) (\<lambda>(rs, zs). Inr (r # rs, zs)))"

fun ops_ok :: "pq_op list \<Rightarrow> addr list \<Rightarrow> bool" where
  "ops_ok [] xs = True"
| "ops_ok (c # cs) xs = (op_ok c xs \<and>
     (case spec_step c xs of Inl _ \<Rightarrow> True | Inr (_, ys) \<Rightarrow> ops_ok cs ys))"

fun pq_step :: "pq_op \<Rightarrow> pq_state \<Rightarrow> (addr option \<times> pq_state) res option" where
  "pq_step (Enque a) s = Some (Inr (pq_enque a s))"
| "pq_step Deque s = Some (Inr (pq_deque s))"
| "pq_step (Remove a) s = map_option (map_sum id (Pair None)) (pq_remove pq_deque a s)"
| "pq_step (EnqueHead a) s = Some (Inr (None, pq_enqueHead a s))"

fun pq_run :: "pq_op list \<Rightarrow> pq_state \<Rightarrow> (addr option list \<times> pq_state) res option" where
  "pq_run [] s = Some (Inr ([], s))"
| "pq_run (c # cs) s = Option.bind (pq_step c s) (\<lambda>x. case x of
      Inl e \<Rightarrow> Some (Inl e)
    | Inr (r, s1) \<Rightarrow> map_option (map_sum id (\<lambda>(rs, s2). (r # rs, s2))) (pq_run cs s1))"

definition pq_refines ::
  "('r \<times> pq_state) res option \<Rightarrow> ('r \<times> addr list) res \<Rightarrow> bool" where
  "pq_refines c a = (case a of
      Inl e \<Rightarrow> c = Some (Inl e)
    | Inr (r, xs) \<Rightarrow> (\<exists>s. c = Some (Inr (r, s)) \<and> pq_repr s xs))"

lemma pq_step_refines:
  assumes "pq_repr s xs" "op_ok c xs"
  shows "pq_refines (pq_step c s) (spec_step c xs)"
proof (cases c)
  case (Enque a)
  with assms pq_repr_enque [of s xs a] show ?thesis
    by (cases "pq_enque a s") (auto simp: pq_refines_def)
next
  case Deque
  with assms show ?thesis
    using pq_repr_deque_Nil [of s] pq_repr_deque_Cons [of s]
    by (cases xs; cases "pq_deque s") (auto simp: pq_refines_def opt_hd_def)
next
  case (Remove a)
  show ?thesis
  proof (cases "a \<in> set xs")
    case True
    with pq_remove_in [OF assms(1) True] Remove show ?thesis by (auto simp: pq_refines_def)
  next
    case False
    with pq_remove_notin [OF assms(1)] Remove show ?thesis by (simp add: pq_refines_def)
  qed
next
  case (EnqueHead a)
  with assms pq_repr_enqueHead [of s xs a] show ?thesis by (auto simp: pq_refines_def)
qed

lemma pq_run_refines_from:
  "pq_repr s xs \<Longrightarrow> ops_ok cs xs \<Longrightarrow> pq_refines (pq_run cs s) (spec_run cs xs)"
proof (induction cs arbitrary: s xs)
  case Nil
  then show ?case by (auto simp: pq_refines_def)
next
  case (Cons c cs)
  then have st: "pq_refines (pq_step c s) (spec_step c xs)" by (intro pq_step_refines) auto
  show ?case
  proof (cases "spec_step c xs")
    case (Inl e)
    with st show ?thesis by (simp add: pq_refines_def)
  next
    case (Inr p)
    obtain r ys where p: "p = (r, ys)" by (cases p)
    with st Inr obtain s1 where s1: "pq_step c s = Some (Inr (r, s1))" "pq_repr s1 ys"
      by (auto simp: pq_refines_def)
    have "pq_refines (pq_run cs s1) (spec_run cs ys)"
      using s1 Cons.prems Inr p by (intro Cons.IH) auto
    with s1 Inr p show ?thesis
      by (auto simp: pq_refines_def split: sum.splits)
  qed
qed

section \<open>Properties\<close>

text \<open>C23: any sequence of \<open>enque\<close>, \<open>deque\<close>, \<open>remove\<close> and \<open>enqueHead\<close> calls on the linked
  packet queue, started on an empty queue over any store, returns (its loops end) exactly what the
  list specification returns, aborts exactly when a packet that is not queued is removed, and
  leaves links, \<open>len_\<close> and \<open>bytes_\<close> describing the specification's list, provided a packet is not
  enqueued while it is still linked.\<close>

theorem pq_run_refines:
  assumes "ops_ok cs []"
  shows "pq_refines (pq_run cs (m, pq_init)) (spec_run cs [])"
  using pq_repr_init assms by (rule pq_run_refines_from)

theorem pq_run_refines_witness:
  "ops_ok [Enque 1, Enque 2, EnqueHead 3, Remove 2, Deque, Enque 2, Deque] [] \<and>
   pq_refines (pq_run [Enque 1, Enque 2, EnqueHead 3, Remove 2, Deque, Enque 2, Deque]
     (\<lparr>st_next = \<lambda>_. None, st_size = \<lambda>_. 1500\<rparr>, pq_init))
     (Inr ([None, Some 1, None, None, Some 3, Some 1, Some 1], [2]))"
proof -
  have ok: "ops_ok [Enque 1, Enque 2, EnqueHead 3, Remove 2, Deque, Enque 2, Deque] []"
    by simp
  show ?thesis using ok pq_run_refines [OF ok, of "\<lparr>st_next = \<lambda>_. None, st_size = \<lambda>_. 1500\<rparr>"]
    by (simp add: opt_last_def opt_hd_def)
qed

end
