(* ===== verification/QueueBase.thy ===== *)
theory QueueBase
  imports PacketQueue
begin

text \<open>
  The abstract base class \<open>Queue\<close> of \<open>queue/queue.h\<close> and \<open>queue/queue.cc\<close>: the blocked/unblocked
  handshake with the link below (\<open>recv\<close>, \<open>resume\<close>), the running average of the queue length
  (\<open>updateStats\<close>), the link utilisation bookkeeping (\<open>utilUpdate\<close>, \<open>utilization\<close>,
  \<open>peak_utilization\<close>) and \<open>reset\<close>. The virtual \<open>enque\<close> and \<open>deque\<close> of the subclass are arguments,
  and the locale \<open>queue_discipline\<close> is the contract the base class relies on.
\<close>

section \<open>Average queue length\<close>

record qstats =
  qs_true_ave :: real
  qs_total_time :: time

definition updateStats :: "time \<Rightarrow> int \<Rightarrow> qstats \<Rightarrow> qstats" where
  "updateStats now queuesize st =
     (let newtime = now - qs_total_time st in
      if newtime > 0 then
        let oldave = qs_true_ave st; oldtime = qs_total_time st; newtime2 = now - qs_total_time st
        in \<lparr>qs_true_ave = (oldtime * oldave + newtime2 * of_int queuesize) / now, qs_total_time = now\<rparr>
      else st)"

text \<open>A sequence of observations \<open>(time, queue length before the operation)\<close> from a reset.\<close>

definition qstats0 :: qstats where
  "qstats0 = \<lparr>qs_true_ave = 0, qs_total_time = 0\<rparr>"

fun updateStats_run :: "(time \<times> int) list \<Rightarrow> qstats \<Rightarrow> qstats" where
  "updateStats_run [] st = st"
| "updateStats_run ((t, n) # obs) st = updateStats_run obs (updateStats t n st)"

text \<open>The area under the queue length curve: the length seen at an observation is the length since
  the observation before it.\<close>

fun area :: "time \<Rightarrow> (time \<times> int) list \<Rightarrow> real" where
  "area t0 [] = 0"
| "area t0 ((t, n) # obs) = (t - t0) * of_int n + area t obs"

fun times_increase :: "time \<Rightarrow> (time \<times> int) list \<Rightarrow> bool" where
  "times_increase t0 [] = True"
| "times_increase t0 ((t, n) # obs) = (t0 < t \<and> times_increase t obs)"

lemma updateStats_area:
  "0 \<le> qs_total_time st \<Longrightarrow> times_increase (qs_total_time st) obs \<Longrightarrow>
   qs_total_time (updateStats_run obs st) * qs_true_ave (updateStats_run obs st) =
     qs_total_time st * qs_true_ave st + area (qs_total_time st) obs \<and>
   qs_total_time (updateStats_run obs st) = fst (last ((qs_total_time st, 0) # obs))"
proof (induction obs arbitrary: st)
  case (Cons o1 obs)
  obtain t n where o1: "o1 = (t, n)" by (cases o1)
  let ?st = "updateStats t n st"
  from Cons.prems o1 have lt: "qs_total_time st < t" by simp
  have tt: "qs_total_time ?st = t"
    using lt by (simp add: updateStats_def Let_def)
  have av: "t * qs_true_ave ?st =
      qs_total_time st * qs_true_ave st + (t - qs_total_time st) * of_int n"
    using lt Cons.prems(1) by (simp add: updateStats_def Let_def)
  have "qs_total_time (updateStats_run obs ?st) * qs_true_ave (updateStats_run obs ?st) =
      qs_total_time ?st * qs_true_ave ?st + area (qs_total_time ?st) obs \<and>
      qs_total_time (updateStats_run obs ?st) = fst (last ((qs_total_time ?st, 0) # obs))"
    using Cons.prems o1 lt tt by (intro Cons.IH) auto
  with o1 tt av show ?case by (cases "obs = []") auto
qed simp

section \<open>Link utilisation\<close>

record qutil =
  qu_last_change :: time
  qu_old_util :: real
  qu_util_weight :: real
  qu_util_check_intv :: real
  qu_period_begin :: time
  qu_cur_util :: real
  qu_buf_slot :: int
  qu_util_buf :: "real list"
  qu_util_records :: int

text \<open>The loop that closes measurement periods; it runs at most \<open>util_records_\<close> times, counted by
  \<open>guard\<close>.\<close>

function util_loop :: "int \<Rightarrow> real \<Rightarrow> real \<Rightarrow> time \<Rightarrow> real \<Rightarrow> qutil \<Rightarrow> qutil" where
  "util_loop guard tot_intv intv int_end link_state u =
     (if tot_intv + intv > qu_util_check_intv u \<and> guard < qu_util_records u then
        util_loop (guard + 1) tot_intv (intv - qu_util_check_intv u) int_end link_state
          (u\<lparr>qu_period_begin := int_end,
             qu_util_buf := (qu_util_buf u)[nat (qu_buf_slot u) := qu_cur_util u],
             qu_buf_slot := (qu_buf_slot u + 1) mod qu_util_records u,
             qu_cur_util := link_state\<rparr>)
      else u)"
  by pat_completeness auto
termination
  by (relation "measure (\<lambda>(guard, _, _, _, _, u). nat (qu_util_records u - guard))") auto

declare util_loop.simps [simp del]

definition utilUpdate :: "time \<Rightarrow> time \<Rightarrow> bool \<Rightarrow> qutil \<Rightarrow> qutil" where
  "utilUpdate int_begin int_end blocked u =
     (let link_state = (if blocked then 1 else 0);
          decay = exp (- qu_util_weight u * (int_end - int_begin));
          u1 = u\<lparr>qu_old_util := link_state + (qu_old_util u - link_state) * decay\<rparr>
      in if qu_util_records u1 = 0 then u1
         else
           let intv = int_end - int_begin; tot_intv = int_begin - qu_period_begin u1 in
           if intv \<noteq> 0 \<or> tot_intv \<noteq> 0 then
             util_loop 0 tot_intv intv int_end link_state
               (u1\<lparr>qu_cur_util := (link_state * intv + qu_cur_util u1 * tot_intv) / (intv + tot_intv)\<rparr>)
           else u1)"

definition utilization :: "time \<Rightarrow> bool \<Rightarrow> qutil \<Rightarrow> real \<times> qutil" where
  "utilization now blocked u =
     (let u1 = (utilUpdate (qu_last_change u) now blocked u)\<lparr>qu_last_change := now\<rparr>
      in (qu_old_util u1, u1))"

fun peak_loop :: "real \<Rightarrow> real list \<Rightarrow> real" where
  "peak_loop peak [] = peak"
| "peak_loop peak (x # xs) = peak_loop (if x > peak then x else peak) xs"

definition peak_utilization :: "time \<Rightarrow> bool \<Rightarrow> qutil \<Rightarrow> real \<times> qutil" where
  "peak_utilization now blocked u =
     (if qu_util_records u = 0 then utilization now blocked u
      else
        let u1 = (utilUpdate (qu_last_change u) now blocked u)\<lparr>qu_last_change := now\<rparr>
        in (peak_loop 0 (take (nat (qu_util_records u1)) (qu_util_buf u1)), u1))"

text \<open>Well-formedness: the ring buffer has \<open>util_records_\<close> slots, the active slot is one of them, and
  all recorded utilisations are fractions.\<close>

definition frac :: "real \<Rightarrow> bool" where
  "frac x \<longleftrightarrow> 0 \<le> x \<and> x \<le> 1"

definition qutil_wf :: "qutil \<Rightarrow> bool" where
  "qutil_wf u \<longleftrightarrow> 0 \<le> qu_util_records u \<and> int (length (qu_util_buf u)) = qu_util_records u \<and>
     0 \<le> qu_buf_slot u \<and> (qu_util_records u > 0 \<longrightarrow> qu_buf_slot u < qu_util_records u) \<and>
     0 \<le> qu_util_weight u \<and> frac (qu_old_util u) \<and> frac (qu_cur_util u) \<and>
     (\<forall>x \<in> set (qu_util_buf u). frac x)"

lemma util_loop_wf:
  "qutil_wf u \<Longrightarrow> frac link_state \<Longrightarrow> 0 \<le> guard \<Longrightarrow>
   qutil_wf (util_loop guard tot_intv intv int_end link_state u) \<and>
   qu_util_records (util_loop guard tot_intv intv int_end link_state u) = qu_util_records u"
proof (induction guard tot_intv intv int_end link_state u rule: util_loop.induct)
  case (1 guard tot_intv intv int_end link_state u)
  let ?u = "u\<lparr>qu_period_begin := int_end,
             qu_util_buf := (qu_util_buf u)[nat (qu_buf_slot u) := qu_cur_util u],
             qu_buf_slot := (qu_buf_slot u + 1) mod qu_util_records u,
             qu_cur_util := link_state\<rparr>"
  show ?case
  proof (cases "tot_intv + intv > qu_util_check_intv u \<and> guard < qu_util_records u")
    case True
    have "set ((qu_util_buf u)[nat (qu_buf_slot u) := qu_cur_util u]) \<subseteq>
        insert (qu_cur_util u) (set (qu_util_buf u))" by (rule set_update_subset_insert)
    then have "qutil_wf ?u"
      using "1.prems" True by (auto simp: qutil_wf_def)
    with "1.IH" [OF True] "1.prems"(2,3) show ?thesis
      by (subst (1 2) util_loop.simps) (simp add: True)
  next
    case False
    then show ?thesis using "1.prems"(1) by (subst (1 2) util_loop.simps) (simp add: if_not_P)
  qed
qed

lemma frac_convex:
  assumes "frac x" "frac y" "frac d"
  shows "frac (x + (y - x) * d)"
proof -
  have e: "x + (y - x) * d = (1 - d) * x + d * y" by (simp add: algebra_simps)
  have "(1 - d) * x \<le> 1 - d" "d * y \<le> d"
    using assms by (simp_all add: frac_def mult_left_le)
  moreover have "0 \<le> (1 - d) * x" "0 \<le> d * y" using assms by (auto simp: frac_def)
  ultimately show ?thesis unfolding e by (auto simp: frac_def)
qed

lemma frac_average:
  assumes "frac x" "frac y" "0 \<le> (a::real)" "0 \<le> b"
  shows "frac ((x * a + y * b) / (a + b))"
proof (cases "a + b = 0")
  case False
  with assms have pos: "0 < a + b" by linarith
  have "x * a \<le> a" "y * b \<le> b"
    using assms by (simp_all add: frac_def mult_left_le_one_le)
  with pos assms show ?thesis by (simp add: frac_def divide_le_eq)
qed (simp add: frac_def)

lemma peak_loop_ge: "peak \<le> peak_loop peak xs \<and> (\<forall>x \<in> set xs. x \<le> peak_loop peak xs)"
proof (induction peak xs rule: peak_loop.induct)
  case (2 peak x xs)
  then show ?case by (auto split: if_splits)
qed simp

lemma peak_loop_frac: "frac peak \<Longrightarrow> \<forall>x \<in> set xs. frac x \<Longrightarrow> frac (peak_loop peak xs)"
  by (induction peak xs rule: peak_loop.induct) auto

section \<open>The handshake with the link\<close>

record qhand =
  qh_blocked :: bool
  qh_unblock_on_resume :: bool
  qh_util :: qutil
  qh_sent :: "packet list"

text \<open>\<open>Queue::recv\<close> and \<open>Queue::resume\<close>. The packets given to \<open>target_\<close> are appended to \<open>qh_sent\<close>.\<close>

definition note_busy :: "time \<Rightarrow> qhand \<Rightarrow> qhand" where
  "note_busy now h = h\<lparr>qh_util :=
     (utilUpdate (qu_last_change (qh_util h)) now (qh_blocked h) (qh_util h))\<lparr>qu_last_change := now\<rparr>\<rparr>"

definition queue_recv ::
  "(packet \<Rightarrow> 'd \<Rightarrow> 'd res) \<Rightarrow> ('d \<Rightarrow> (packet option \<times> 'd) res) \<Rightarrow> time \<Rightarrow> packet \<Rightarrow>
    qhand \<times> 'd \<Rightarrow> (qhand \<times> 'd) res" where
  "queue_recv enq deq now p s = (case s of (h, d) \<Rightarrow>
     res_bind (enq p d) (\<lambda>d1.
       if qh_blocked h then Inr (h, d1)
       else res_bind (deq d1) (\<lambda>(r, d2).
         (case r of
            None \<Rightarrow> Inr (h, d2)
          | Some q \<Rightarrow> Inr ((note_busy now h)\<lparr>qh_blocked := True, qh_sent := qh_sent h @ [q]\<rparr>, d2)))))"

definition queue_resume ::
  "('d \<Rightarrow> (packet option \<times> 'd) res) \<Rightarrow> time \<Rightarrow> qhand \<times> 'd \<Rightarrow> (qhand \<times> 'd) res" where
  "queue_resume deq now s = (case s of (h, d) \<Rightarrow>
     res_bind (deq d) (\<lambda>(r, d1).
       (case r of
          Some q \<Rightarrow> Inr (h\<lparr>qh_sent := qh_sent h @ [q]\<rparr>, d1)
        | None \<Rightarrow>
            if qh_unblock_on_resume h then Inr ((note_busy now h)\<lparr>qh_blocked := False\<rparr>, d1)
            else Inr ((note_busy now h)\<lparr>qh_blocked := True\<rparr>, d1))))"

text \<open>\<open>Queue::reset\<close>: clears the average and drops what \<open>deque\<close> returns until it returns null. The
  loop need not end for an arbitrary \<open>deque\<close>.\<close>

partial_function (option) reset_loop ::
  "('d \<Rightarrow> (packet option \<times> 'd) res) \<Rightarrow> packet list \<Rightarrow> 'd \<Rightarrow> (packet list \<times> 'd) res option" where
  "reset_loop deq drops d = (case deq d of
      Inl e \<Rightarrow> Some (Inl e)
    | Inr (r, d1) \<Rightarrow> (case r of
         None \<Rightarrow> Some (Inr (drops, d1))
       | Some p \<Rightarrow> reset_loop deq (drops @ [p]) d1))"

definition queue_reset ::
  "('d \<Rightarrow> (packet option \<times> 'd) res) \<Rightarrow> qstats \<times> 'd \<Rightarrow> (qstats \<times> packet list \<times> 'd) res option" where
  "queue_reset deq s = (case s of (st, d) \<Rightarrow>
     map_option (map_sum id (Pair (st\<lparr>qs_total_time := 0, qs_true_ave := 0\<rparr>))) (reset_loop deq [] d))"

lemma note_busy_simps [simp]:
  "qh_blocked (note_busy now h) = qh_blocked h"
  "qh_sent (note_busy now h) = qh_sent h"
  "qh_unblock_on_resume (note_busy now h) = qh_unblock_on_resume h"
  by (simp_all add: note_busy_def)

text \<open>Runs: an element \<open>(t, Some p)\<close> is the arrival of \<open>p\<close> at time \<open>t\<close>, \<open>(t, None)\<close> the link's
  call of \<open>resume\<close> when it has finished a transmission.\<close>

fun arrivals :: "(time \<times> packet option) list \<Rightarrow> packet list" where
  "arrivals [] = []"
| "arrivals ((t, Some p) # es) = p # arrivals es"
| "arrivals ((t, None) # es) = arrivals es"

fun link_run ::
  "(time \<Rightarrow> packet \<Rightarrow> 'd \<Rightarrow> 'd res) \<Rightarrow> (time \<Rightarrow> 'd \<Rightarrow> (packet option \<times> 'd) res) \<Rightarrow>
    (time \<times> packet option) list \<Rightarrow> qhand \<times> 'd \<Rightarrow> (qhand \<times> 'd) res" where
  "link_run enq deq [] s = Inr s"
| "link_run enq deq ((t, Some p) # es) s = res_bind (queue_recv (enq t) (deq t) t p s) (link_run enq deq es)"
| "link_run enq deq ((t, None) # es) s = res_bind (queue_resume (deq t) t s) (link_run enq deq es)"

section \<open>The contract of a discipline\<close>

text \<open>
  \<open>backlog\<close> is the multiset of the addresses of the queued packets and \<open>dropped\<close> of those handed to
  the drop target. A packet is in one place only.
\<close>

locale queue_discipline =
  fixes enq :: "time \<Rightarrow> packet \<Rightarrow> 'd \<Rightarrow> 'd res"
    and deq :: "time \<Rightarrow> 'd \<Rightarrow> (packet option \<times> 'd) res"
    and inv :: "'d \<Rightarrow> bool"
    and fits :: "packet \<Rightarrow> 'd \<Rightarrow> bool"
    and backlog :: "'d \<Rightarrow> addr multiset"
    and dropped :: "'d \<Rightarrow> addr multiset"
  assumes enq_ok: "inv d \<Longrightarrow> fits p d \<Longrightarrow> pk_addr p \<notin># backlog d \<Longrightarrow>
      \<exists>d'. enq now p d = Inr d' \<and> inv d' \<and> (\<forall>q. fits q d \<longrightarrow> fits q d') \<and>
        backlog d' + dropped d' = add_mset (pk_addr p) (backlog d + dropped d)"
    and deq_ok: "inv d \<Longrightarrow> \<exists>r d'. deq now d = Inr (r, d') \<and> inv d' \<and>
        (\<forall>q. fits q d \<longrightarrow> fits q d') \<and>
        (case r of
           None \<Rightarrow> backlog d = {#} \<and> backlog d' = {#} \<and> dropped d' = dropped d
         | Some p \<Rightarrow> add_mset (pk_addr p) (backlog d' + dropped d') = backlog d + dropped d \<and>
             size (backlog d') < size (backlog d))"
begin

text \<open>The state of the base class together with its discipline.\<close>

definition sent :: "qhand \<Rightarrow> addr multiset" where
  "sent h = mset (map pk_addr (qh_sent h))"

definition hand_inv :: "qhand \<times> 'd \<Rightarrow> bool" where
  "hand_inv s \<longleftrightarrow> inv (snd s) \<and> qh_unblock_on_resume (fst s) \<and>
     (\<not> qh_blocked (fst s) \<longrightarrow> backlog (snd s) = {#})"

definition total :: "qhand \<times> 'd \<Rightarrow> addr multiset" where
  "total s = sent (fst s) + (backlog (snd s) + dropped (snd s))"

lemma deq_cases:
  assumes "inv d"
  obtains (none) d' where "deq now d = Inr (None, d')" "inv d'" "\<forall>q. fits q d \<longrightarrow> fits q d'" "backlog d = {#}" "backlog d' = {#}"
      "dropped d' = dropped d"
  | (some) q d' where "deq now d = Inr (Some q, d')" "inv d'" "\<forall>q. fits q d \<longrightarrow> fits q d'"
      "backlog d + dropped d = add_mset (pk_addr q) (backlog d' + dropped d')"
      "size (backlog d') < size (backlog d)"
proof -
  from deq_ok [OF assms, of now] obtain r d' where r: "deq now d = Inr (r, d')" "inv d'" "\<forall>q. fits q d \<longrightarrow> fits q d'"
    "case r of None \<Rightarrow> backlog d = {#} \<and> backlog d' = {#} \<and> dropped d' = dropped d
      | Some q \<Rightarrow> add_mset (pk_addr q) (backlog d' + dropped d') = backlog d + dropped d \<and>
          size (backlog d') < size (backlog d)" by blast
  show thesis
  proof (cases r)
    case None
    with r that(1) show thesis by simp
  next
    case (Some q)
    with r show thesis by (intro that(2) [of q d']) simp_all
  qed
qed

lemma recv_ok:
  assumes "hand_inv s" "fits p (snd s)" "pk_addr p \<notin># backlog (snd s)"
  shows "\<exists>s'. queue_recv (enq now) (deq now) now p s = Inr s' \<and>
    total s' = add_mset (pk_addr p) (total s) \<and> hand_inv s' \<and> (\<forall>q. fits q (snd s) \<longrightarrow> fits q (snd s'))"
proof -
  obtain h d where s: "s = (h, d)" by (cases s)
  from assms(1) have u: "qh_unblock_on_resume h" by (simp add: s hand_inv_def)
  from enq_ok [of d p now] assms obtain d1 where d1: "enq now p d = Inr d1" "inv d1" "\<forall>q. fits q d \<longrightarrow> fits q d1"
    and b: "backlog d1 + dropped d1 = add_mset (pk_addr p) (backlog d + dropped d)"
    by (auto simp: s hand_inv_def)
  show ?thesis
  proof (cases "qh_blocked h")
    case True
    with d1 b u show ?thesis by (simp add: s queue_recv_def hand_inv_def total_def)
  next
    case False
    from d1(2) show ?thesis
    proof (cases rule: deq_cases [where now = now])
      case (none d2)
      with False d1 b u show ?thesis by (simp add: s queue_recv_def hand_inv_def total_def)
    next
      case (some q d2)
      with False d1 b u show ?thesis
        by (simp add: s queue_recv_def hand_inv_def total_def sent_def)
    qed
  qed
qed

lemma resume_ok:
  assumes "hand_inv s"
  shows "\<exists>s'. queue_resume (deq now) now s = Inr s' \<and> total s' = total s \<and> hand_inv s' \<and>
    (\<forall>q. fits q (snd s) \<longrightarrow> fits q (snd s'))"
proof -
  obtain h d where s: "s = (h, d)" by (cases s)
  with assms have i: "inv d" "qh_unblock_on_resume h" by (auto simp: hand_inv_def)
  from i(1) show ?thesis
  proof (cases rule: deq_cases [where now = now])
    case (none d2)
    with i show ?thesis by (simp add: s queue_resume_def hand_inv_def total_def sent_def)
  next
    case (some q d2)
    have "qh_blocked h" using assms some(5) by (auto simp: s hand_inv_def)
    with i some show ?thesis by (simp add: s queue_resume_def hand_inv_def total_def sent_def)
  qed
qed

text \<open>Runs of arrivals and of link-idle events: nothing fails, every packet that arrived is sent,
  queued or dropped, exactly once, and the link is idle only when nothing is queued.\<close>

lemma run_ok:
  "hand_inv s \<Longrightarrow> \<forall>p \<in> set (arrivals es). fits p (snd s) \<Longrightarrow>
   distinct (map pk_addr (arrivals es)) \<Longrightarrow>
   \<forall>p \<in> set (arrivals es). pk_addr p \<notin># total s \<Longrightarrow>
   \<exists>s'. link_run enq deq es s = Inr s' \<and> hand_inv s' \<and>
     total s' = mset (map pk_addr (arrivals es)) + total s"
proof (induction es arbitrary: s)
  case (Cons e es)
  obtain t a where e: "e = (t, a)" by (cases e)
  show ?case
  proof (cases a)
    case None
    from resume_ok [OF Cons.prems(1), of t] obtain s1 where
      s1: "queue_resume (deq t) t s = Inr s1" "total s1 = total s" "hand_inv s1"
      "\<forall>q. fits q (snd s) \<longrightarrow> fits q (snd s1)" by blast
    have "\<exists>s'. link_run enq deq es s1 = Inr s' \<and> hand_inv s' \<and>
        total s' = mset (map pk_addr (arrivals es)) + total s1"
      using s1 Cons.prems None e by (intro Cons.IH) auto
    with s1 None e show ?thesis by simp
  next
    case (Some p)
    have "pk_addr p \<notin># backlog (snd s)"
      using Cons.prems(4) Some e by (simp add: total_def)
    with recv_ok [OF Cons.prems(1), of p t] Cons.prems(2) Some e obtain s1 where
      s1: "queue_recv (enq t) (deq t) t p s = Inr s1" "total s1 = add_mset (pk_addr p) (total s)"
        "hand_inv s1" "\<forall>q. fits q (snd s) \<longrightarrow> fits q (snd s1)" by auto
    have "\<exists>s'. link_run enq deq es s1 = Inr s' \<and> hand_inv s' \<and>
        total s' = mset (map pk_addr (arrivals es)) + total s1"
      using s1 Cons.prems Some e by (intro Cons.IH) (auto simp: image_iff)
    with s1 Some e show ?thesis by simp
  qed
qed simp

lemma reset_loop_ends:
  "inv d \<Longrightarrow> \<exists>drops' d'. reset_loop (deq now) drops d = Some (Inr (drops', d')) \<and> inv d' \<and>
     backlog d' = {#} \<and>
     mset (map pk_addr drops') + dropped d' = mset (map pk_addr drops) + (backlog d + dropped d)"
proof (induction "size (backlog d)" arbitrary: d drops rule: less_induct)
  case less
  from less.prems show ?case
  proof (cases rule: deq_cases [where now = now])
    case (none d2)
    then show ?thesis by (simp add: reset_loop.simps [of "deq now" drops d])
  next
    case (some q d2)
    from less.hyps [OF some(5) some(2), of "drops @ [q]"] obtain drops' d' where
      "reset_loop (deq now) (drops @ [q]) d2 = Some (Inr (drops', d'))" "inv d'" "backlog d' = {#}"
      "mset (map pk_addr drops') + dropped d' =
        mset (map pk_addr (drops @ [q])) + (backlog d2 + dropped d2)" by blast
    with some(1,4) show ?thesis
      by (simp add: reset_loop.simps [of "deq now" drops d])
  qed
qed

end

section \<open>Properties\<close>

text \<open>Fed with observations at increasing times since a reset, \<open>updateStats\<close> keeps \<open>true_ave_\<close>
  equal to the time average of the queue length: the area under the length curve divided by the
  time of the last observation.\<close>

theorem updateStats_time_average:
  assumes "times_increase 0 obs" "obs \<noteq> []"
  shows "qs_true_ave (updateStats_run obs qstats0) = area 0 obs / fst (last obs)"
proof -
  have "times_increase t0 obs' \<Longrightarrow> obs' \<noteq> [] \<Longrightarrow> t0 < fst (last obs')" for t0 obs'
    by (induction obs' arbitrary: t0 rule: list.induct) (fastforce split: if_splits)+
  with assms have pos: "0 < fst (last obs)" by blast
  from updateStats_area [of qstats0 obs] assms
  have "fst (last obs) * qs_true_ave (updateStats_run obs qstats0) = area 0 obs"
    by (auto simp: qstats0_def)
  with pos show ?thesis by (simp add: nonzero_eq_divide_eq mult.commute)
qed

theorem updateStats_time_average_witness:
  "times_increase 0 [(2, 0), (5, 3), (6, 10)] \<and>
   qs_true_ave (updateStats_run [(2, 0), (5, 3), (6, 10)] qstats0) = 19 / 6"
  using updateStats_time_average [of "[(2, 0), (5, 3), (6, 10)]"] by simp

text \<open>C32: the utilisation bookkeeping never leaves its ranges: from a well-formed state, after
  \<open>utilUpdate\<close> over an interval that does not run backwards, the ring buffer still has
  \<open>util_records_\<close> slots, the active slot is inside it (the loop writes no other index), and every
  recorded utilisation, the decayed average included, is between 0 and 1.\<close>

theorem utilUpdate_keeps_fractions:
  assumes "qutil_wf u" "int_begin \<le> int_end" "qu_period_begin u \<le> int_begin"
  shows "qutil_wf (utilUpdate int_begin int_end blocked u)"
proof -
  let ?ls = "if blocked then 1 else (0::real)"
  let ?d = "exp (- qu_util_weight u * (int_end - int_begin))"
  let ?o = "?ls + (qu_old_util u - ?ls) * ?d"
  have ls: "frac ?ls" by (simp add: frac_def)
  have "frac ?d" using assms by (simp add: frac_def qutil_wf_def)
  then have o: "frac ?o" using ls assms(1) by (intro frac_convex) (auto simp: qutil_wf_def)
  have c: "frac ((?ls * (int_end - int_begin) + qu_cur_util u * (int_begin - qu_period_begin u)) /
      (int_end - int_begin + (int_begin - qu_period_begin u)))"
    using ls assms by (intro frac_average) (auto simp: qutil_wf_def)
  have "qutil_wf (u\<lparr>qu_old_util := ?o\<rparr>)"
    "qutil_wf (u\<lparr>qu_old_util := ?o, qu_cur_util :=
       (?ls * (int_end - int_begin) + qu_cur_util u * (int_begin - qu_period_begin u)) /
       (int_end - int_begin + (int_begin - qu_period_begin u))\<rparr>)"
    using assms(1) o c unfolding qutil_wf_def by simp_all
  with util_loop_wf [OF _ ls, of _ 0] assms(1) show ?thesis
    unfolding utilUpdate_def Let_def by (simp split: if_split)
qed

theorem utilUpdate_keeps_fractions_witness:
  "qutil_wf (utilUpdate 1 10 True \<lparr>qu_last_change = 1, qu_old_util = 0, qu_util_weight = 1,
     qu_util_check_intv = 2, qu_period_begin = 0, qu_cur_util = 1/2, qu_buf_slot = 1,
     qu_util_buf = [0, 1/4, 1], qu_util_records = 3\<rparr>)"
  by (rule utilUpdate_keeps_fractions) (auto simp: qutil_wf_def frac_def)

end
