(* ===== verification/DropTail.thy ===== *)
theory DropTail
  imports QueueBase
begin

text \<open>
  The queue of the flow scheduling scheme: \<open>DropTail\<close> of \<open>queue/drop-tail.h\<close> and
  \<open>queue/drop-tail.cc\<close>, a bounded queue with tail, front, priority and "smart" dropping, optional
  service in priority order with the packets of a flow kept in order, a separate limit for packets
  of good priority, and ECN marking of the least urgent packet. \<open>BadTrackingPacketQueue\<close> counts the
  packets whose flow has no known end yet (\<open>is_bad_prio\<close>).

  The class is a record \<open>droptail\<close>: its queue, its configuration, the signature table of
  \<open>drop_smart_\<close>, the statistics of the base class and the log \<open>dt_drops\<close> of the packets given to
  \<open>drop\<close>, in order. \<open>std::hash\<close> of a flow key is the argument \<open>hsh\<close>.
\<close>

section \<open>The tracking queue\<close>

record btq =
  bt_q :: lq
  bt_num_bad :: int

definition bt_init :: btq where
  "bt_init = \<lparr>bt_q = lq_init, bt_num_bad = 0\<rparr>"

definition get_num_good_packets :: "btq \<Rightarrow> int" where
  "get_num_good_packets q = lq_len (bt_q q) - bt_num_bad q"

definition note_enque :: "packet \<Rightarrow> btq \<Rightarrow> btq" where
  "note_enque p q = (if is_bad_prio p then q\<lparr>bt_num_bad := bt_num_bad q + 1\<rparr> else q)"

definition note_deque :: "packet \<Rightarrow> btq \<Rightarrow> btq" where
  "note_deque p q = (if is_bad_prio p then q\<lparr>bt_num_bad := bt_num_bad q - 1\<rparr> else q)"

definition bt_enque :: "packet \<Rightarrow> btq \<Rightarrow> btq" where
  "bt_enque p q = (let q1 = note_enque p q in q1\<lparr>bt_q := lq_enque p (bt_q q1)\<rparr>)"

definition bt_deque :: "btq \<Rightarrow> packet option \<times> btq" where
  "bt_deque q = (case lq_deque (bt_q q) of (r, l) \<Rightarrow>
     let q1 = q\<lparr>bt_q := l\<rparr> in
     (case r of None \<Rightarrow> (None, q1) | Some p \<Rightarrow> (Some p, note_deque p q1)))"

text \<open>\<open>remove\<close> first updates the counter and then calls \<open>PacketQueue::remove\<close>, which for a packet
  at the head calls the virtual \<open>deque\<close>, that is \<open>bt_deque\<close>.\<close>

definition bt_remove :: "packet \<Rightarrow> btq \<Rightarrow> btq res" where
  "bt_remove p q =
     (let q1 = note_deque p q in
      (case lq_pkts (bt_q q1) of
         [] \<Rightarrow> Inl Abort
       | h # _ \<Rightarrow>
           if pk_addr h = pk_addr p then Inr (snd (bt_deque q1))
           else (case lq_unlink (pk_addr p) (bt_q q1) of
              None \<Rightarrow> Inl Abort
            | Some l \<Rightarrow> Inr (q1\<lparr>bt_q := l\<rparr>))))"

section \<open>The class\<close>

record droptail =
  dt_q :: btq
  dt_qlim :: int
  dt_thresh :: int
  dt_drop_front :: bool
  dt_summarystats :: bool
  dt_qib :: bool
  dt_mean_pktsize :: int
  dt_drop_smart :: bool
  dt_drop_prio :: bool
  dt_deque_prio :: bool
  dt_keep_order :: bool
  dt_ecn_enable :: bool
  dt_drop_low_prio :: bool
  dt_good_prio_qlim :: int
  dt_sq_limit :: nat
  dt_sq_counts :: "nat \<rightharpoonup> int"
  dt_sq_queue :: "nat list"
  dt_stats :: qstats
  dt_drops :: "packet list"

datatype ExtremumKind = HIGHEST | LOWEST

record flowkey =
  fk_src :: int
  fk_dst :: int
  fk_fid :: int

definition flow_key :: "packet \<Rightarrow> flowkey" where
  "flow_key p = \<lparr>fk_src = ip_saddr (pk_ip p), fk_dst = ip_daddr (pk_ip p), fk_fid = ip_fid (pk_ip p)\<rparr>"

abbreviation dt_pkts :: "droptail \<Rightarrow> packet list" where
  "dt_pkts d \<equiv> lq_pkts (bt_q (dt_q d))"

abbreviation dt_length :: "droptail \<Rightarrow> int" where
  "dt_length d \<equiv> lq_len (bt_q (dt_q d))"

abbreviation dt_byteLength :: "droptail \<Rightarrow> int" where
  "dt_byteLength d \<equiv> lq_bytes (bt_q (dt_q d))"

abbreviation prio_of :: "packet \<Rightarrow> int" where
  "prio_of p \<equiv> ip_prio (pk_ip p)"

definition dt_drop :: "packet \<Rightarrow> droptail \<Rightarrow> droptail" where
  "dt_drop p d = d\<lparr>dt_drops := dt_drops d @ [p]\<rparr>"

definition qlim_in_bytes :: "droptail \<Rightarrow> int" where
  "qlim_in_bytes d = dt_qlim d * dt_mean_pktsize d"

definition pre_enque :: "time \<Rightarrow> droptail \<Rightarrow> droptail" where
  "pre_enque now d =
     (if dt_summarystats d
      then d\<lparr>dt_stats := updateStats now (if dt_qib d then dt_byteLength d else dt_length d) (dt_stats d)\<rparr>
      else d)"

definition will_overflow :: "packet \<Rightarrow> droptail \<Rightarrow> bool" where
  "will_overflow p d =
     (if dt_qib d then dt_byteLength d + pk_size p \<ge> qlim_in_bytes d
      else if dt_good_prio_qlim d \<ge> 0 then
        (if is_bad_prio p then dt_length d + 1 \<ge> dt_qlim d
         else get_num_good_packets (dt_q d) + 1 \<ge> dt_good_prio_qlim d)
      else dt_length d + 1 \<ge> dt_qlim d)"

section \<open>Searching the queue\<close>

fun extreme_loop :: "ExtremumKind \<Rightarrow> packet \<Rightarrow> int \<Rightarrow> packet list \<Rightarrow> packet" where
  "extreme_loop kind best_packet best_prio [] = best_packet"
| "extreme_loop kind best_packet best_prio (pp # pps) =
     (let prio = prio_of pp in
      if (kind = LOWEST \<and> prio < best_prio) \<or> (kind = HIGHEST \<and> prio > best_prio)
      then extreme_loop kind pp prio pps
      else extreme_loop kind best_packet best_prio pps)"

definition find_extreme_packet :: "ExtremumKind \<Rightarrow> btq \<Rightarrow> packet option res" where
  "find_extreme_packet kind q =
     (if lq_len (bt_q q) = 0 then Inr None
      else (case lq_pkts (bt_q q) of
         [] \<Rightarrow> Inl NullDeref
       | p # ps \<Rightarrow> Inr (Some (extreme_loop kind p (prio_of p) ps))))"

definition find_best_packet :: "btq \<Rightarrow> packet option res" where
  "find_best_packet q = find_extreme_packet LOWEST q"

section \<open>Dropping\<close>

definition drop_front :: "packet \<Rightarrow> droptail \<Rightarrow> (packet \<times> droptail) res" where
  "drop_front p d =
     (case bt_deque (bt_enque p (dt_q d)) of
        (None, _) \<Rightarrow> Inl NullDeref
      | (Some r, q) \<Rightarrow> Inr (r, d\<lparr>dt_q := q\<rparr>))"

fun drop_prio_loop ::
  "droptail \<Rightarrow> bool \<Rightarrow> packet \<Rightarrow> int \<Rightarrow> packet list \<Rightarrow> packet res" where
  "drop_prio_loop d must_drop_good max_pp max_prio [] = Inr max_pp"
| "drop_prio_loop d must_drop_good max_pp max_prio (pp # pps) =
     (if \<not> dt_qib d \<and> dt_good_prio_qlim d \<ge> 0
      then Inl (RuntimeError ''byte queue length and good_prio_qlim_ are not supported'')
      else if (\<not> dt_qib d \<and> (\<not> must_drop_good \<or> \<not> is_bad_prio pp)) \<or>
              dt_byteLength d - pk_size pp < qlim_in_bytes d
      then (let prio = prio_of pp in
            if prio \<ge> max_prio then drop_prio_loop d must_drop_good pp prio pps
            else drop_prio_loop d must_drop_good max_pp max_prio pps)
      else drop_prio_loop d must_drop_good max_pp max_prio pps)"

definition drop_prio :: "packet \<Rightarrow> droptail \<Rightarrow> (packet \<times> droptail) res" where
  "drop_prio p d =
     (let d1 = d\<lparr>dt_q := bt_enque p (dt_q d)\<rparr>;
          must_drop_good = (dt_good_prio_qlim d1 \<ge> 0 \<and>
             get_num_good_packets (dt_q d1) > dt_good_prio_qlim d1)
      in res_bind (drop_prio_loop d1 must_drop_good p 0 (dt_pkts d1)) (\<lambda>max_pp.
         res_bind (bt_remove max_pp (dt_q d1)) (\<lambda>q. Inr (max_pp, d1\<lparr>dt_q := q\<rparr>))))"

fun drop_smart_loop ::
  "(flowkey \<Rightarrow> nat) \<Rightarrow> (nat \<rightharpoonup> int) \<Rightarrow> packet \<Rightarrow> int \<Rightarrow> packet list \<Rightarrow> packet" where
  "drop_smart_loop hsh counts max_pp max_count [] = max_pp"
| "drop_smart_loop hsh counts max_pp max_count (pp # pps) =
     (case counts (hsh (flow_key pp)) of
        None \<Rightarrow> drop_smart_loop hsh counts max_pp max_count pps
      | Some cnt \<Rightarrow>
          if cnt > max_count then drop_smart_loop hsh counts pp cnt pps
          else drop_smart_loop hsh counts max_pp max_count pps)"

definition drop_smart :: "(flowkey \<Rightarrow> nat) \<Rightarrow> packet \<Rightarrow> droptail \<Rightarrow> (packet \<times> droptail) res" where
  "drop_smart hsh p d =
     (let d1 = d\<lparr>dt_q := bt_enque p (dt_q d)\<rparr>;
          max_pp = drop_smart_loop hsh (dt_sq_counts d1) p 0 (dt_pkts d1)
      in res_bind (bt_remove max_pp (dt_q d1)) (\<lambda>q. Inr (max_pp, d1\<lparr>dt_q := q\<rparr>)))"

definition handle_overflow ::
  "(flowkey \<Rightarrow> nat) \<Rightarrow> packet \<Rightarrow> droptail \<Rightarrow> (packet \<times> droptail) res" where
  "handle_overflow hsh p d =
     (if dt_drop_front d then drop_front p d
      else if dt_drop_prio d then drop_prio p d
      else if dt_drop_smart d then drop_smart hsh p d
      else Inr (p, d))"

section \<open>Enqueueing\<close>

definition is_ecn_threshold_reached :: "droptail \<Rightarrow> bool" where
  "is_ecn_threshold_reached d = (dt_length d \<ge> dt_thresh d)"

definition mark_ecn :: "droptail \<Rightarrow> droptail res" where
  "mark_ecn d = res_bind (find_extreme_packet HIGHEST (dt_q d)) (\<lambda>r.
     (case r of
        None \<Rightarrow> Inr d
      | Some p \<Rightarrow>
          if fl_ect (pk_flags p)
          then Inr (d\<lparr>dt_q := (dt_q d)\<lparr>bt_q := update_pkt (pk_addr p) set_ce (bt_q (dt_q d))\<rparr>\<rparr>)
          else Inr d))"

definition dt_enque :: "(flowkey \<Rightarrow> nat) \<Rightarrow> time \<Rightarrow> packet \<Rightarrow> droptail \<Rightarrow> droptail res" where
  "dt_enque hsh now p d =
     (let d1 = pre_enque now d in
      res_bind
        (if will_overflow p d1
         then res_bind (handle_overflow hsh p d1) (\<lambda>(v, d2). Inr (dt_drop v d2))
         else Inr (d1\<lparr>dt_q := bt_enque p (dt_q d1)\<rparr>))
        (\<lambda>d2. if dt_ecn_enable d2 \<and> is_ecn_threshold_reached d2 then mark_ecn d2 else Inr d2))"

section \<open>Dequeueing\<close>

fun same_flow_loop ::
  "bool \<Rightarrow> bool \<Rightarrow> packet \<Rightarrow> packet list \<Rightarrow> packet list \<Rightarrow> (packet \<times> packet list) res" where
  "same_flow_loop drop_low_prio keep_order p packets_to_drop [] = Inl NullDeref"
| "same_flow_loop drop_low_prio keep_order p packets_to_drop (pp # pps) =
     (if pk_addr pp = pk_addr p then Inr (p, packets_to_drop)
      else if is_same_flow p pp then
        (if drop_low_prio \<and> is_bad_prio pp \<and> \<not> is_bad_prio p
         then same_flow_loop drop_low_prio keep_order p (packets_to_drop @ [pp]) pps
         else if keep_order then Inr (pp, packets_to_drop)
         else Inr (p, packets_to_drop))
      else same_flow_loop drop_low_prio keep_order p packets_to_drop pps)"

fun drop_packets :: "packet list \<Rightarrow> droptail \<Rightarrow> droptail res" where
  "drop_packets [] d = Inr d"
| "drop_packets (p # ps) d =
     res_bind (bt_remove p (dt_q d)) (\<lambda>q. drop_packets ps (dt_drop p (d\<lparr>dt_q := q\<rparr>)))"

definition handle_same_flow :: "packet \<Rightarrow> droptail \<Rightarrow> (packet \<times> droptail) res" where
  "handle_same_flow p d =
     res_bind (same_flow_loop (dt_drop_low_prio d) (dt_keep_order d) p [] (dt_pkts d))
       (\<lambda>(r, packets_to_drop).
          res_bind (drop_packets packets_to_drop d) (\<lambda>d1. Inr (r, d1)))"

definition deque_priority :: "droptail \<Rightarrow> (packet option \<times> droptail) res" where
  "deque_priority d = res_bind (find_best_packet (dt_q d)) (\<lambda>result.
     (case result of
        None \<Rightarrow> Inr (None, d)
      | Some p \<Rightarrow>
          res_bind (if dt_keep_order d \<or> dt_drop_low_prio d then handle_same_flow p d else Inr (p, d))
            (\<lambda>(r, d1). res_bind (bt_remove r (dt_q d1)) (\<lambda>q. Inr (Some r, d1\<lparr>dt_q := q\<rparr>)))))"

text \<open>\<open>sq_counts_[temp]--\<close>: \<open>operator[]\<close> creates a missing entry with value 0.\<close>

definition sq_decrement :: "nat \<Rightarrow> (nat \<rightharpoonup> int) \<Rightarrow> nat \<rightharpoonup> int" where
  "sq_decrement t m =
     (let c = (case m t of None \<Rightarrow> 0 | Some c \<Rightarrow> c) - 1
      in if c = 0 then m(t := None) else m(t \<mapsto> c))"

definition sq_note :: "nat \<Rightarrow> droptail \<Rightarrow> droptail" where
  "sq_note signature d =
     (let queue1 = dt_sq_queue d @ [signature];
          counts1 = (case dt_sq_counts d signature of
             Some c \<Rightarrow> (dt_sq_counts d)(signature \<mapsto> c + 1)
           | None \<Rightarrow> (dt_sq_counts d)(signature \<mapsto> 1))
      in if length queue1 > dt_sq_limit d
         then d\<lparr>dt_sq_queue := tl queue1, dt_sq_counts := sq_decrement (hd queue1) counts1\<rparr>
         else d\<lparr>dt_sq_queue := queue1, dt_sq_counts := counts1\<rparr>)"

definition deque_with_drop_smart ::
  "(flowkey \<Rightarrow> nat) \<Rightarrow> droptail \<Rightarrow> packet option \<times> droptail" where
  "deque_with_drop_smart hsh d =
     (case bt_deque (dt_q d) of (r, q) \<Rightarrow>
        let d1 = d\<lparr>dt_q := q\<rparr> in
        (case r of
           None \<Rightarrow> (None, d1)
         | Some p \<Rightarrow> (Some p, sq_note (hsh (flow_key p)) d1)))"

definition dt_deque ::
  "(flowkey \<Rightarrow> nat) \<Rightarrow> time \<Rightarrow> droptail \<Rightarrow> (packet option \<times> droptail) res" where
  "dt_deque hsh now d =
     (let d1 = (if dt_summarystats d
                then d\<lparr>dt_stats := updateStats now (if dt_qib d then dt_byteLength d else dt_length d)
                         (dt_stats d)\<rparr>
                else d)
      in if dt_deque_prio d1 then deque_priority d1
         else if dt_drop_smart d1 then Inr (deque_with_drop_smart hsh d1)
         else Inr (case bt_deque (dt_q d1) of (r, q) \<Rightarrow> (r, d1\<lparr>dt_q := q\<rparr>)))"

section \<open>Shrinking\<close>



lemma note_simps [simp]:
  "bt_q (note_deque p q) = bt_q q" "bt_q (note_enque p q) = bt_q q"
  by (simp_all add: note_deque_def note_enque_def)





section \<open>The tracking queue behaves as a packet queue\<close>

lemma bt_enque_q [simp]: "bt_q (bt_enque p q) = lq_enque p (bt_q q)"
  by (simp add: bt_enque_def Let_def)

lemma bt_deque_q [simp]:
  "fst (bt_deque q) = fst (lq_deque (bt_q q))" "bt_q (snd (bt_deque q)) = snd (lq_deque (bt_q q))"
  by (auto simp: bt_deque_def Let_def split: prod.splits option.splits)

lemma bt_remove_ok:
  assumes "lq_inv (bt_q q)" "p \<in> set (lq_pkts (bt_q q))"
  shows "\<exists>q'. bt_remove p q = Inr q' \<and> lq_inv (bt_q q') \<and>
    lq_pkts (bt_q q') = filter (\<lambda>x. pk_addr x \<noteq> pk_addr p) (lq_pkts (bt_q q)) \<and>
    bt_num_bad q' = bt_num_bad q - (if is_bad_prio p
      then (if pk_addr (hd (lq_pkts (bt_q q))) = pk_addr p then 2 else 1) else 0)"
proof (cases "lq_pkts (bt_q q)")
  case (Cons h t)
  from assms(1) have d: "distinct (map pk_addr (lq_pkts (bt_q q)))" by (simp add: lq_inv_def)
  show ?thesis
  proof (cases "pk_addr h = pk_addr p")
    case True
    with assms d Cons have "h = p" by (intro inj_key_unique [of pk_addr "lq_pkts (bt_q q)"]) auto
    moreover have "filter (\<lambda>x. pk_addr x \<noteq> pk_addr p) (lq_pkts (bt_q q)) = t"
      using filter_key_middle [of pk_addr "[]" p t] d Cons \<open>h = p\<close> by simp
    moreover have "lq_inv (snd (lq_deque (bt_q q)))" using assms(1) by (rule lq_inv_deque)
    ultimately show ?thesis using Cons
      by (simp add: bt_remove_def Let_def bt_deque_def lq_deque_def note_deque_def)
  next
    case False
    with lq_unlink_eq [OF assms] lq_inv_unlink [OF assms(1)] Cons d show ?thesis
      by (auto simp: bt_remove_def Let_def remove_first_key_filter note_deque_def)
  qed
qed (use assms in simp)

definition better :: "ExtremumKind \<Rightarrow> packet \<Rightarrow> packet \<Rightarrow> bool" where
  "better kind x y = ((kind = LOWEST \<and> prio_of x < prio_of y) \<or> (kind = HIGHEST \<and> prio_of x > prio_of y))"

lemma better_trans: "better k x y \<Longrightarrow> better k y z \<Longrightarrow> better k x z"
  and better_asym: "better k x y \<Longrightarrow> \<not> better k y x"
  and better_neg: "better k x y \<Longrightarrow> \<not> better k z y \<Longrightarrow> better k x z"
  and better_neg2: "\<not> better k x y \<Longrightarrow> better k z y \<Longrightarrow> better k z x"
  by (auto simp: better_def)

text \<open>The packet found is the first of the extreme ones.\<close>

definition extreme_at :: "ExtremumKind \<Rightarrow> packet list \<Rightarrow> packet \<Rightarrow> bool" where
  "extreme_at kind pps r \<longleftrightarrow> (\<exists>ys zs. pps = ys @ r # zs \<and>
     (\<forall>x \<in> set ys. better kind r x) \<and> (\<forall>x \<in> set zs. \<not> better kind x r))"

lemma extreme_loop_at: "extreme_at kind (best # pps) (extreme_loop kind best (prio_of best) pps)"
proof (induction pps arbitrary: best)
  case Nil
  show ?case unfolding extreme_at_def by (intro exI [of _ "[]"]) simp
next
  case (Cons pp pps)
  show ?case
  proof (cases "better kind pp best")
    case True
    define r where "r = extreme_loop kind pp (prio_of pp) pps"
    have e: "extreme_loop kind best (prio_of best) (pp # pps) = r"
      using True by (simp add: better_def r_def Let_def)
    from Cons.IH [of pp] obtain ys zs where yz: "pp # pps = ys @ r # zs"
      "\<forall>x \<in> set ys. better kind r x" "\<forall>x \<in> set zs. \<not> better kind x r"
      unfolding extreme_at_def r_def by blast
    have "better kind r best"
      using yz True by (cases ys) (auto intro: better_trans)
    with yz have "best # pp # pps = (best # ys) @ r # zs \<and> (\<forall>x \<in> set (best # ys). better kind r x) \<and>
      (\<forall>x \<in> set zs. \<not> better kind x r)" by simp
    then show ?thesis unfolding e extreme_at_def by blast
  next
    case False
    define r where "r = extreme_loop kind best (prio_of best) pps"
    have e: "extreme_loop kind best (prio_of best) (pp # pps) = r"
      using False by (auto simp: better_def r_def Let_def)
    from Cons.IH [of best] obtain ys zs where yz: "best # pps = ys @ r # zs"
      "\<forall>x \<in> set ys. better kind r x" "\<forall>x \<in> set zs. \<not> better kind x r"
      unfolding extreme_at_def r_def by blast
    show ?thesis
    proof (cases ys)
      case Nil
      with yz False have "best # pp # pps = [] @ r # pp # zs \<and> (\<forall>x \<in> set (pp # zs). \<not> better kind x r)"
        by simp
      then show ?thesis unfolding e extreme_at_def by fastforce
    next
      case (Cons b ys')
      with yz False have "better kind r pp" by (auto intro: better_neg)
      with yz Cons have "best # pp # pps = (best # pp # ys') @ r # zs \<and>
        (\<forall>x \<in> set (best # pp # ys'). better kind r x) \<and> (\<forall>x \<in> set zs. \<not> better kind x r)"
        by auto
      then show ?thesis unfolding e extreme_at_def by blast
    qed
  qed
qed

lemma extreme_at_mem: "extreme_at kind pps r \<Longrightarrow> r \<in> set pps"
  by (auto simp: extreme_at_def)

lemma find_extreme_packet_ok:
  assumes "lq_inv (bt_q q)"
  shows "(lq_pkts (bt_q q) = [] \<and> find_extreme_packet kind q = Inr None) \<or>
    (\<exists>r. find_extreme_packet kind q = Inr (Some r) \<and> extreme_at kind (lq_pkts (bt_q q)) r)"
  using assms by (cases "lq_pkts (bt_q q)") (auto simp: find_extreme_packet_def lq_inv_def extreme_loop_at)

section \<open>What the loops select\<close>

definition drop_config_ok :: "droptail \<Rightarrow> bool" where
  "drop_config_ok d \<longleftrightarrow> dt_qib d \<or> dt_good_prio_qlim d < 0"

definition eligible :: "droptail \<Rightarrow> bool \<Rightarrow> packet \<Rightarrow> bool" where
  "eligible d m pp \<longleftrightarrow> (\<not> dt_qib d \<and> (\<not> m \<or> \<not> is_bad_prio pp)) \<or>
     dt_byteLength d - pk_size pp < qlim_in_bytes d"

text \<open>\<open>drop_prio\<close> selects the last of the eligible packets with the largest priority value.\<close>

lemma drop_prio_loop_spec:
  assumes "drop_config_ok d"
  shows "\<exists>r. drop_prio_loop d m mp mx pps = Inr r \<and>
    ((r = mp \<and> (\<forall>x \<in> set pps. eligible d m x \<longrightarrow> prio_of x < mx)) \<or>
     (\<exists>ys zs. pps = ys @ r # zs \<and> eligible d m r \<and> mx \<le> prio_of r \<and>
        (\<forall>x \<in> set ys. eligible d m x \<longrightarrow> prio_of x \<le> prio_of r) \<and>
        (\<forall>x \<in> set zs. eligible d m x \<longrightarrow> prio_of x < prio_of r)))"
proof (induction pps arbitrary: mp mx)
  case (Cons pp pps)
  let ?sel = "\<lambda>mp mx r pps. (r = mp \<and> (\<forall>x \<in> set pps. eligible d m x \<longrightarrow> prio_of x < mx)) \<or>
     (\<exists>ys zs. pps = ys @ r # zs \<and> eligible d m r \<and> mx \<le> prio_of r \<and>
        (\<forall>x \<in> set ys. eligible d m x \<longrightarrow> prio_of x \<le> prio_of r) \<and>
        (\<forall>x \<in> set zs. eligible d m x \<longrightarrow> prio_of x < prio_of r))"
  show ?case
  proof (cases "eligible d m pp \<and> mx \<le> prio_of pp")
    case True
    from Cons.IH [of pp "prio_of pp"] obtain r where
      r: "drop_prio_loop d m pp (prio_of pp) pps = Inr r" "?sel pp (prio_of pp) r pps" by blast
    have "drop_prio_loop d m mp mx (pp # pps) = Inr r"
      using True r(1) assms by (auto simp: eligible_def drop_config_ok_def Let_def)
    moreover from r(2) have "?sel mp mx r (pp # pps)"
    proof
      assume "r = pp \<and> (\<forall>x \<in> set pps. eligible d m x \<longrightarrow> prio_of x < prio_of pp)"
      with True show ?thesis by (intro disjI2 exI [of _ "[]"] exI [of _ pps]) auto
    next
      assume "\<exists>ys zs. pps = ys @ r # zs \<and> eligible d m r \<and> prio_of pp \<le> prio_of r \<and>
        (\<forall>x \<in> set ys. eligible d m x \<longrightarrow> prio_of x \<le> prio_of r) \<and>
        (\<forall>x \<in> set zs. eligible d m x \<longrightarrow> prio_of x < prio_of r)"
      then obtain ys zs where "pps = ys @ r # zs" "eligible d m r" "prio_of pp \<le> prio_of r"
        "\<forall>x \<in> set ys. eligible d m x \<longrightarrow> prio_of x \<le> prio_of r"
        "\<forall>x \<in> set zs. eligible d m x \<longrightarrow> prio_of x < prio_of r" by blast
      with True show ?thesis by (intro disjI2 exI [of _ "pp # ys"] exI [of _ zs]) auto
    qed
    ultimately show ?thesis by blast
  next
    case False
    from Cons.IH [of mp mx] obtain r where
      r: "drop_prio_loop d m mp mx pps = Inr r" "?sel mp mx r pps" by blast
    have "drop_prio_loop d m mp mx (pp # pps) = Inr r"
      using False r(1) assms by (auto simp: eligible_def drop_config_ok_def Let_def)
    moreover from r(2) have "?sel mp mx r (pp # pps)"
    proof
      assume "r = mp \<and> (\<forall>x \<in> set pps. eligible d m x \<longrightarrow> prio_of x < mx)"
      with False show ?thesis by auto
    next
      assume "\<exists>ys zs. pps = ys @ r # zs \<and> eligible d m r \<and> mx \<le> prio_of r \<and>
        (\<forall>x \<in> set ys. eligible d m x \<longrightarrow> prio_of x \<le> prio_of r) \<and>
        (\<forall>x \<in> set zs. eligible d m x \<longrightarrow> prio_of x < prio_of r)"
      then obtain ys zs where "pps = ys @ r # zs" "eligible d m r" "mx \<le> prio_of r"
        "\<forall>x \<in> set ys. eligible d m x \<longrightarrow> prio_of x \<le> prio_of r"
        "\<forall>x \<in> set zs. eligible d m x \<longrightarrow> prio_of x < prio_of r" by blast
      with False show ?thesis by (intro disjI2 exI [of _ "pp # ys"] exI [of _ zs]) auto
    qed
    ultimately show ?thesis by blast
  qed
qed simp

lemma drop_smart_loop_mem: "drop_smart_loop hsh c mp mx pps \<in> insert mp (set pps)"
  by (induction hsh c mp mx pps rule: drop_smart_loop.induct) (auto split: option.splits)

text \<open>\<open>handle_same_flow\<close> passes over the packets of the flow that are to be dropped.\<close>

definition skipped :: "bool \<Rightarrow> packet \<Rightarrow> packet \<Rightarrow> bool" where
  "skipped low b x \<longleftrightarrow> low \<and> is_bad_prio x \<and> \<not> is_bad_prio b"

lemma is_same_flow_refl [simp]: "is_same_flow b b"
  by (simp add: is_same_flow_def)

lemma same_flow_loop_spec:
  assumes "b \<in> set pps" "distinct (map pk_addr pps)"
  shows "\<exists>us x vs. pps = us @ x # vs \<and> b \<in> set (x # vs) \<and> is_same_flow b x \<and> \<not> skipped low b x \<and>
    (\<forall>y \<in> set us. is_same_flow b y \<longrightarrow> skipped low b y) \<and>
    same_flow_loop low keep b acc pps = Inr (if keep then x else b, acc @ filter (is_same_flow b) us)"
  using assms
proof (induction pps arbitrary: acc)
  case (Cons pp pps)
  show ?case
  proof (cases "is_same_flow b pp \<and> \<not> skipped low b pp")
    case True
    have "pk_addr pp = pk_addr b \<Longrightarrow> pp = b"
      using Cons.prems by (intro inj_key_unique [of pk_addr "pp # pps"]) auto
    with True Cons.prems show ?thesis
      by (intro exI [of _ "[]"] exI [of _ pp] exI [of _ pps]) (auto simp: skipped_def)
  next
    case False
    then have "pp \<noteq> b" by (auto simp: skipped_def)
    with Cons.prems have b: "b \<in> set pps" "pk_addr pp \<noteq> pk_addr b" by auto
    let ?acc = "if is_same_flow b pp then acc @ [pp] else acc"
    from Cons.IH [of ?acc] b Cons.prems(2) obtain us x vs where
      "pps = us @ x # vs" "b \<in> set (x # vs)" "is_same_flow b x" "\<not> skipped low b x"
      "\<forall>y \<in> set us. is_same_flow b y \<longrightarrow> skipped low b y"
      "same_flow_loop low keep b ?acc pps = Inr (if keep then x else b, ?acc @ filter (is_same_flow b) us)"
      by auto
    with False b(2) show ?thesis
      by (intro exI [of _ "pp # us"] exI [of _ x] exI [of _ vs]) (auto simp: skipped_def)
  qed
qed simp

lemma drop_packets_ok:
  "lq_inv (bt_q (dt_q d)) \<Longrightarrow> set ps \<subseteq> set (dt_pkts d) \<Longrightarrow> distinct (map pk_addr ps) \<Longrightarrow>
   \<exists>q. drop_packets ps d = Inr (d\<lparr>dt_q := q, dt_drops := dt_drops d @ ps\<rparr>) \<and> lq_inv (bt_q q) \<and>
     lq_pkts (bt_q q) = filter (\<lambda>x. pk_addr x \<notin> pk_addr ` set ps) (dt_pkts d)"
proof (induction ps arbitrary: d)
  case Nil
  then show ?case by (intro exI [of _ "dt_q d"]) simp
next
  case (Cons p ps)
  from bt_remove_ok [OF Cons.prems(1), of p] Cons.prems(2) obtain q where
    q: "bt_remove p (dt_q d) = Inr q" "lq_inv (bt_q q)"
      "lq_pkts (bt_q q) = filter (\<lambda>x. pk_addr x \<noteq> pk_addr p) (dt_pkts d)" by auto
  let ?d = "dt_drop p (d\<lparr>dt_q := q\<rparr>)"
  have "\<exists>q. drop_packets ps ?d = Inr (?d\<lparr>dt_q := q, dt_drops := dt_drops ?d @ ps\<rparr>) \<and> lq_inv (bt_q q) \<and>
     lq_pkts (bt_q q) = filter (\<lambda>x. pk_addr x \<notin> pk_addr ` set ps) (dt_pkts ?d)"
    using q Cons.prems by (intro Cons.IH) (auto simp: dt_drop_def image_iff)
  with q show ?case by (auto simp: dt_drop_def filter_filter conj_commute)
qed

section \<open>Every operation succeeds and keeps the packets\<close>

definition dt_inv :: "droptail \<Rightarrow> bool" where
  "dt_inv d \<longleftrightarrow> lq_inv (bt_q (dt_q d))"

definition dt_fits :: "packet \<Rightarrow> droptail \<Rightarrow> bool" where
  "dt_fits p d \<longleftrightarrow> (\<not> dt_drop_front d \<and> dt_drop_prio d \<longrightarrow> drop_config_ok d)"

definition dt_backlog :: "droptail \<Rightarrow> addr multiset" where
  "dt_backlog d = mset (map pk_addr (dt_pkts d))"

definition dt_dropped :: "droptail \<Rightarrow> addr multiset" where
  "dt_dropped d = mset (map pk_addr (dt_drops d))"

lemma remove_after_enque:
  assumes "lq_inv (bt_q q)" "pk_addr p \<notin> pk_addr ` set (lq_pkts (bt_q q))"
    "v \<in> insert p (set (lq_pkts (bt_q q)))"
  shows "\<exists>q'. bt_remove v (bt_enque p q) = Inr q' \<and> lq_inv (bt_q q') \<and>
    lq_pkts (bt_q q') = filter (\<lambda>x. pk_addr x \<noteq> pk_addr v) (lq_pkts (bt_q q) @ [p]) \<and>
    add_mset (pk_addr v) (mset (map pk_addr (lq_pkts (bt_q q')))) =
      add_mset (pk_addr p) (mset (map pk_addr (lq_pkts (bt_q q))))"
proof -
  have i: "lq_inv (bt_q (bt_enque p q))" using assms by (simp add: lq_inv_enque)
  moreover have v: "v \<in> set (lq_pkts (bt_q (bt_enque p q)))" using assms(3) by auto
  ultimately obtain q' where "bt_remove v (bt_enque p q) = Inr q'" "lq_inv (bt_q q')"
    "lq_pkts (bt_q q') = filter (\<lambda>x. pk_addr x \<noteq> pk_addr v) (lq_pkts (bt_q q) @ [p])"
    using bt_remove_ok by fastforce
  moreover have "mset (map pk_addr (lq_pkts (bt_q q) @ [p])) =
      add_mset (pk_addr v) (mset (map pk_addr (filter (\<lambda>x. pk_addr x \<noteq> pk_addr v) (lq_pkts (bt_q q) @ [p]))))"
    using i v by (intro mset_map_key_filter) (auto simp: lq_inv_def)
  ultimately show ?thesis by simp
qed

lemma drop_prio_loop_mem:
  assumes "drop_config_ok d"
  shows "\<exists>r \<in> insert mp (set pps). drop_prio_loop d m mp mx pps = Inr r"
  using drop_prio_loop_spec [OF assms, of m mp mx pps] by auto

text \<open>The victim of an overflow and the queue that is left.\<close>

definition victim_ok :: "droptail \<Rightarrow> packet \<Rightarrow> packet \<Rightarrow> btq \<Rightarrow> bool" where
  "victim_ok d p v q \<longleftrightarrow> v \<in> insert p (set (dt_pkts d)) \<and> lq_inv (bt_q q) \<and>
    lq_pkts (bt_q q) = filter (\<lambda>x. pk_addr x \<noteq> pk_addr v) (dt_pkts d @ [p]) \<and>
    add_mset (pk_addr v) (mset (map pk_addr (lq_pkts (bt_q q)))) = add_mset (pk_addr p) (dt_backlog d)"

lemma remove_victim_ok:
  assumes "dt_inv d" "pk_addr p \<notin> pk_addr ` set (dt_pkts d)" "v \<in> insert p (set (dt_pkts d))"
  shows "\<exists>q. bt_remove v (bt_enque p (dt_q d)) = Inr q \<and> victim_ok d p v q"
  using remove_after_enque [OF _ assms(2,3)] assms(1,3)
  unfolding dt_inv_def dt_backlog_def victim_ok_def by blast

lemma drop_front_ok:
  assumes i: "dt_inv d" and n: "pk_addr p \<notin> pk_addr ` set (dt_pkts d)"
  shows "\<exists>v q. drop_front p d = Inr (v, d\<lparr>dt_q := q\<rparr>) \<and> victim_ok d p v q"
proof -
  have ip: "lq_inv (lq_enque p (bt_q (dt_q d)))" using i n by (simp add: dt_inv_def lq_inv_enque)
  obtain v vs where v: "dt_pkts d @ [p] = v # vs" by (cases "dt_pkts d @ [p]") auto
  let ?q = "snd (bt_deque (bt_enque p (dt_q d)))"
  have fd: "fst (bt_deque (bt_enque p (dt_q d))) = Some v"
    using v by (simp add: lq_deque_def)
  have v': "v \<in> insert p (set (dt_pkts d))" using v by (cases "dt_pkts d") auto
  have "drop_front p d = Inr (v, d\<lparr>dt_q := ?q\<rparr>)"
    using fd by (cases "bt_deque (bt_enque p (dt_q d))") (simp add: drop_front_def del: bt_deque_q)
  moreover have "lq_inv (bt_q ?q)" using ip by (simp add: lq_inv_deque)
  moreover have "lq_pkts (bt_q ?q) = filter (\<lambda>x. pk_addr x \<noteq> pk_addr v) (dt_pkts d @ [p])"
    using filter_key_middle [of pk_addr "[]" v vs] ip v by (simp add: lq_deque_def lq_inv_def)
  moreover have "add_mset (pk_addr v) (mset (map pk_addr (filter (\<lambda>x. pk_addr x \<noteq> pk_addr v) (dt_pkts d @ [p])))) =
      add_mset (pk_addr p) (dt_backlog d)"
    using remove_victim_ok [OF i n v'] by (auto simp: victim_ok_def)
  ultimately show ?thesis using v' unfolding victim_ok_def by metis
qed

lemma handle_overflow_ok:
  assumes i: "dt_inv d" and f: "dt_fits p d" and n: "pk_addr p \<notin> pk_addr ` set (dt_pkts d)"
  shows "\<exists>v q. handle_overflow hsh p d = Inr (v, d\<lparr>dt_q := q\<rparr>) \<and> victim_ok d p v q"
proof -
  note rem = remove_victim_ok [OF i n]
  let ?d = "d\<lparr>dt_q := bt_enque p (dt_q d)\<rparr>"
  consider "dt_drop_front d" | "\<not> dt_drop_front d" "dt_drop_prio d" | "\<not> dt_drop_front d" "\<not> dt_drop_prio d"
      "dt_drop_smart d" | "\<not> dt_drop_front d" "\<not> dt_drop_prio d" "\<not> dt_drop_smart d" by blast
  then show ?thesis
  proof cases
    case 1
    with drop_front_ok [OF i n] show ?thesis by (simp add: handle_overflow_def)
  next
    case 2
    with f have "drop_config_ok ?d" by (simp add: dt_fits_def drop_config_ok_def)
    from drop_prio_loop_mem [OF this, of p "dt_pkts ?d"
        "dt_good_prio_qlim ?d \<ge> 0 \<and> get_num_good_packets (dt_q ?d) > dt_good_prio_qlim ?d" 0]
    obtain v where v: "v \<in> insert p (set (dt_pkts ?d))" "drop_prio_loop ?d
        (dt_good_prio_qlim ?d \<ge> 0 \<and> get_num_good_packets (dt_q ?d) > dt_good_prio_qlim ?d)
        p 0 (dt_pkts ?d) = Inr v" by blast
    with rem [of v] obtain q where "bt_remove v (bt_enque p (dt_q d)) = Inr q" "victim_ok d p v q" by auto
    with v 2 show ?thesis
      by (intro exI [of _ v] exI [of _ q]) (simp add: handle_overflow_def drop_prio_def Let_def)
  next
    case 3
    define v where "v = drop_smart_loop hsh (dt_sq_counts d) p 0 (dt_pkts d @ [p])"
    have "v \<in> insert p (set (dt_pkts d))"
      using drop_smart_loop_mem [of hsh "dt_sq_counts d" p 0 "dt_pkts d @ [p]"] by (auto simp: v_def)
    with rem [of v] obtain q where "bt_remove v (bt_enque p (dt_q d)) = Inr q" "victim_ok d p v q" by auto
    with 3 show ?thesis
      by (intro exI [of _ v] exI [of _ q]) (simp add: handle_overflow_def drop_smart_def v_def Let_def)
  next
    case 4
    have "filter (\<lambda>x. pk_addr x \<noteq> pk_addr p) (dt_pkts d @ [p]) = dt_pkts d"
      using n by (auto simp: filter_id_conv image_iff)
    with 4 i show ?thesis
      by (intro exI [of _ p] exI [of _ "dt_q d"])
        (auto simp: handle_overflow_def dt_inv_def dt_backlog_def victim_ok_def)
  qed
qed

lemma mark_ecn_ok:
  assumes "dt_inv d"
  shows "\<exists>q. mark_ecn d = Inr (d\<lparr>dt_q := q\<rparr>) \<and> lq_inv (bt_q q) \<and>
    map pk_addr (lq_pkts (bt_q q)) = map pk_addr (dt_pkts d) \<and>
    lq_len (bt_q q) = dt_length d \<and> lq_bytes (bt_q q) = dt_byteLength d"
proof (cases "\<exists>p. find_extreme_packet HIGHEST (dt_q d) = Inr (Some p) \<and> fl_ect (pk_flags p)")
  case True
  then obtain p where p: "find_extreme_packet HIGHEST (dt_q d) = Inr (Some p)" "fl_ect (pk_flags p)" by blast
  with assms show ?thesis
    by (intro exI [of _ "(dt_q d)\<lparr>bt_q := update_pkt (pk_addr p) set_ce (bt_q (dt_q d))\<rparr>"])
      (auto simp: mark_ecn_def dt_inv_def update_pkt_ce lq_inv_update_ce)
next
  case False
  with assms find_extreme_packet_ok [of "dt_q d" HIGHEST] show ?thesis
    by (intro exI [of _ "dt_q d"]) (auto simp: mark_ecn_def dt_inv_def)
qed

lemma pre_enque_eq: "\<exists>st. pre_enque now d = d\<lparr>dt_stats := st\<rparr>"
  by (cases "dt_summarystats d") (auto simp: pre_enque_def intro: exI [of _ "dt_stats d"])

text \<open>The enqueue operation before marking.\<close>

definition dt_place :: "(flowkey \<Rightarrow> nat) \<Rightarrow> packet \<Rightarrow> droptail \<Rightarrow> droptail res" where
  "dt_place hsh p d =
     (if will_overflow p d
      then res_bind (handle_overflow hsh p d) (\<lambda>(v, d2). Inr (dt_drop v d2))
      else Inr (d\<lparr>dt_q := bt_enque p (dt_q d)\<rparr>))"

lemma dt_enque_place:
  "dt_enque hsh now p d = res_bind (dt_place hsh p (pre_enque now d))
     (\<lambda>d2. if dt_ecn_enable d2 \<and> is_ecn_threshold_reached d2 then mark_ecn d2 else Inr d2)"
  by (simp add: dt_enque_def dt_place_def Let_def)

lemma dt_place_ok:
  assumes i: "dt_inv d" and f: "dt_fits p d" and n: "pk_addr p \<notin> pk_addr ` set (dt_pkts d)"
  shows "\<exists>q vs. dt_place hsh p d = Inr (d\<lparr>dt_q := q, dt_drops := dt_drops d @ vs\<rparr>) \<and> lq_inv (bt_q q) \<and>
    mset (map pk_addr (lq_pkts (bt_q q))) + mset (map pk_addr vs) = add_mset (pk_addr p) (dt_backlog d)"
proof (cases "will_overflow p d")
  case True
  from handle_overflow_ok [OF i f n, of hsh] obtain v q where
    "handle_overflow hsh p d = Inr (v, d\<lparr>dt_q := q\<rparr>)" "lq_inv (bt_q q)"
    "add_mset (pk_addr v) (mset (map pk_addr (lq_pkts (bt_q q)))) = add_mset (pk_addr p) (dt_backlog d)"
    by (auto simp: victim_ok_def)
  with True show ?thesis
    by (intro exI [of _ q] exI [of _ "[v]"]) (simp add: dt_place_def dt_drop_def)
next
  case False
  with i n show ?thesis
    by (intro exI [of _ "bt_enque p (dt_q d)"] exI [of _ "[]"])
      (simp add: dt_place_def dt_inv_def lq_inv_enque dt_backlog_def)
qed

lemma dt_enque_ok:
  assumes i: "dt_inv d" and f: "dt_fits p d" and n: "pk_addr p \<notin> pk_addr ` set (dt_pkts d)"
  shows "\<exists>q vs st. dt_enque hsh now p d = Inr (d\<lparr>dt_stats := st, dt_q := q, dt_drops := dt_drops d @ vs\<rparr>) \<and>
    lq_inv (bt_q q) \<and>
    mset (map pk_addr (lq_pkts (bt_q q))) + mset (map pk_addr vs) = add_mset (pk_addr p) (dt_backlog d)"
proof -
  from pre_enque_eq obtain st where st: "pre_enque now d = d\<lparr>dt_stats := st\<rparr>" by blast
  have "dt_inv (pre_enque now d)" "dt_fits p (pre_enque now d)"
    using i f by (simp_all add: st dt_inv_def dt_fits_def drop_config_ok_def)
  with dt_place_ok [of "pre_enque now d" p hsh] n obtain q vs where q:
    "dt_place hsh p (pre_enque now d) = Inr (d\<lparr>dt_stats := st, dt_q := q, dt_drops := dt_drops d @ vs\<rparr>)"
    "lq_inv (bt_q q)"
    "mset (map pk_addr (lq_pkts (bt_q q))) + mset (map pk_addr vs) = add_mset (pk_addr p) (dt_backlog d)"
    by (auto simp: st dt_backlog_def)
  let ?d = "d\<lparr>dt_stats := st, dt_q := q, dt_drops := dt_drops d @ vs\<rparr>"
  show ?thesis
  proof (cases "dt_ecn_enable ?d \<and> is_ecn_threshold_reached ?d")
    case True
    from mark_ecn_ok [of ?d] q(2) obtain q' where "mark_ecn ?d = Inr (?d\<lparr>dt_q := q'\<rparr>)" "lq_inv (bt_q q')"
      "map pk_addr (lq_pkts (bt_q q')) = map pk_addr (lq_pkts (bt_q q))"
      by (auto simp: dt_inv_def)
    with q True show ?thesis unfolding dt_enque_place
      by (intro exI [of _ q'] exI [of _ vs] exI [of _ st]) (simp flip: mset_map)
  next
    case False
    with q show ?thesis unfolding dt_enque_place
      by (intro exI [of _ q] exI [of _ vs] exI [of _ st]) auto
  qed
qed

lemma handle_same_flow_ok:
  assumes i: "dt_inv d" and b: "b \<in> set (dt_pkts d)"
  shows "\<exists>us x vs q. dt_pkts d = us @ x # vs \<and> b \<in> set (x # vs) \<and> is_same_flow b x \<and>
    \<not> skipped (dt_drop_low_prio d) b x \<and>
    (\<forall>y \<in> set us. is_same_flow b y \<longrightarrow> skipped (dt_drop_low_prio d) b y) \<and>
    handle_same_flow b d = Inr (if dt_keep_order d then x else b,
      d\<lparr>dt_q := q, dt_drops := dt_drops d @ filter (is_same_flow b) us\<rparr>) \<and>
    lq_inv (bt_q q) \<and> lq_pkts (bt_q q) = filter (\<lambda>y. \<not> is_same_flow b y) us @ x # vs"
proof -
  have dist: "distinct (map pk_addr (dt_pkts d))" using i by (simp add: dt_inv_def lq_inv_def)
  from same_flow_loop_spec [OF b dist, of "dt_drop_low_prio d" "dt_keep_order d" "[]"]
  obtain us x vs where u: "dt_pkts d = us @ x # vs" "b \<in> set (x # vs)" "is_same_flow b x"
    "\<not> skipped (dt_drop_low_prio d) b x"
    "\<forall>y \<in> set us. is_same_flow b y \<longrightarrow> skipped (dt_drop_low_prio d) b y"
    "same_flow_loop (dt_drop_low_prio d) (dt_keep_order d) b [] (dt_pkts d) =
      Inr (if dt_keep_order d then x else b, filter (is_same_flow b) us)" by auto
  let ?ps = "filter (is_same_flow b) us"
  have du: "distinct (map pk_addr (us @ x # vs))" using dist u(1) by simp
  have "distinct (map pk_addr ?ps)" using du by (simp add: distinct_map_filter)
  with drop_packets_ok [of d ?ps] i u(1) obtain q where
    q: "drop_packets ?ps d = Inr (d\<lparr>dt_q := q, dt_drops := dt_drops d @ ?ps\<rparr>)" "lq_inv (bt_q q)"
      "lq_pkts (bt_q q) = filter (\<lambda>y. pk_addr y \<notin> pk_addr ` set ?ps) (us @ x # vs)"
    by (auto simp: dt_inv_def)
  have "pk_addr y \<notin> pk_addr ` set ?ps" if "y \<in> set (x # vs)" for y
    using du that by auto
  then have "filter (\<lambda>y. pk_addr y \<notin> pk_addr ` set ?ps) (x # vs) = x # vs"
    by (intro filter_True) blast
  moreover have "filter (\<lambda>y. pk_addr y \<notin> pk_addr ` set ?ps) us = filter (\<lambda>y. \<not> is_same_flow b y) us"
    using du by (intro filter_cong refl) (auto simp: distinct_map inj_on_def)
  ultimately have "lq_pkts (bt_q q) = filter (\<lambda>y. \<not> is_same_flow b y) us @ x # vs"
    using q(3) by (simp only: filter_append)
  moreover have "handle_same_flow b d = Inr (if dt_keep_order d then x else b,
      d\<lparr>dt_q := q, dt_drops := dt_drops d @ ?ps\<rparr>)"
    by (simp add: handle_same_flow_def u(6) q(1))
  ultimately show ?thesis using u(1-5) q(2) by blast
qed

lemma filter_mset_split:
  "mset (map f (filter P xs)) + mset (map f (filter (\<lambda>x. \<not> P x) xs)) = mset (map f xs)"
  by (induction xs) auto

lemma deque_priority_empty:
  "dt_inv d \<Longrightarrow> dt_pkts d = [] \<Longrightarrow> deque_priority d = Inr (None, d)"
  using find_extreme_packet_ok [of "dt_q d" LOWEST]
  by (auto simp: deque_priority_def find_best_packet_def dt_inv_def extreme_at_def)

text \<open>Service in priority order when no flow bookkeeping is configured.\<close>

lemma deque_priority_plain:
  assumes i: "dt_inv d" and ne: "dt_pkts d \<noteq> []" and c: "\<not> dt_keep_order d" "\<not> dt_drop_low_prio d"
  shows "\<exists>b q. extreme_at LOWEST (dt_pkts d) b \<and> deque_priority d = Inr (Some b, d\<lparr>dt_q := q\<rparr>) \<and>
    lq_inv (bt_q q) \<and> lq_pkts (bt_q q) = filter (\<lambda>x. pk_addr x \<noteq> pk_addr b) (dt_pkts d)"
proof -
  from find_extreme_packet_ok [of "dt_q d" LOWEST] i ne obtain b where
    b: "find_extreme_packet LOWEST (dt_q d) = Inr (Some b)" "extreme_at LOWEST (dt_pkts d) b"
    by (auto simp: dt_inv_def)
  from bt_remove_ok [of "dt_q d" b] i extreme_at_mem [OF b(2)] obtain q where
    "bt_remove b (dt_q d) = Inr q" "lq_inv (bt_q q)"
    "lq_pkts (bt_q q) = filter (\<lambda>x. pk_addr x \<noteq> pk_addr b) (dt_pkts d)" by (auto simp: dt_inv_def)
  with b c show ?thesis
    by (intro exI [of _ b] exI [of _ q]) (simp add: deque_priority_def find_best_packet_def)
qed

text \<open>With \<open>keep_order_\<close> or \<open>drop_low_prio_\<close>: \<open>b\<close> is the most urgent packet, \<open>x\<close> the first packet of
  its flow that is not to be dropped, and \<open>us\<close> what is queued before \<open>x\<close>.\<close>

lemma deque_priority_flow:
  assumes i: "dt_inv d" and ne: "dt_pkts d \<noteq> []" and c: "dt_keep_order d \<or> dt_drop_low_prio d"
  shows "\<exists>b us x vs q. extreme_at LOWEST (dt_pkts d) b \<and>
    dt_pkts d = us @ x # vs \<and> b \<in> set (x # vs) \<and> is_same_flow b x \<and>
    \<not> skipped (dt_drop_low_prio d) b x \<and>
    (\<forall>y \<in> set us. is_same_flow b y \<longrightarrow> skipped (dt_drop_low_prio d) b y) \<and>
    deque_priority d = Inr (Some (if dt_keep_order d then x else b),
      d\<lparr>dt_q := q, dt_drops := dt_drops d @ filter (is_same_flow b) us\<rparr>) \<and> lq_inv (bt_q q) \<and>
    lq_pkts (bt_q q) = filter (\<lambda>y. pk_addr y \<noteq> pk_addr (if dt_keep_order d then x else b))
      (filter (\<lambda>y. \<not> is_same_flow b y) us @ x # vs)"
proof -
  from find_extreme_packet_ok [of "dt_q d" LOWEST] i ne obtain b where
    b: "find_extreme_packet LOWEST (dt_q d) = Inr (Some b)" "extreme_at LOWEST (dt_pkts d) b"
    by (auto simp: dt_inv_def)
  from handle_same_flow_ok [OF i extreme_at_mem [OF b(2)]] obtain us x vs q where
    u: "dt_pkts d = us @ x # vs" "b \<in> set (x # vs)" "is_same_flow b x"
    "\<not> skipped (dt_drop_low_prio d) b x"
    "\<forall>y \<in> set us. is_same_flow b y \<longrightarrow> skipped (dt_drop_low_prio d) b y"
    "handle_same_flow b d = Inr (if dt_keep_order d then x else b,
      d\<lparr>dt_q := q, dt_drops := dt_drops d @ filter (is_same_flow b) us\<rparr>)"
    "lq_inv (bt_q q)" "lq_pkts (bt_q q) = filter (\<lambda>y. \<not> is_same_flow b y) us @ x # vs" by blast
  have m: "(if dt_keep_order d then x else b) \<in> set (lq_pkts (bt_q q))" using u(2,8) by auto
  from bt_remove_ok [OF u(7) m] obtain q' where
    q': "bt_remove (if dt_keep_order d then x else b) q = Inr q'" "lq_inv (bt_q q')"
    "lq_pkts (bt_q q') = filter (\<lambda>y. pk_addr y \<noteq> pk_addr (if dt_keep_order d then x else b))
       (filter (\<lambda>y. \<not> is_same_flow b y) us @ x # vs)" unfolding u(8) by blast
  have "deque_priority d = Inr (Some (if dt_keep_order d then x else b),
      d\<lparr>dt_q := q', dt_drops := dt_drops d @ filter (is_same_flow b) us\<rparr>)"
    using q'(1) c by (simp add: deque_priority_def find_best_packet_def b(1) u(6))
  with b(2) u(1-5) q'(2,3) show ?thesis by blast
qed

lemma deque_priority_ok:
  assumes i: "dt_inv d" and ne: "dt_pkts d \<noteq> []"
  shows "\<exists>r q ds. deque_priority d = Inr (Some r, d\<lparr>dt_q := q, dt_drops := dt_drops d @ ds\<rparr>) \<and>
    lq_inv (bt_q q) \<and>
    add_mset (pk_addr r) (mset (map pk_addr (lq_pkts (bt_q q))) + mset (map pk_addr ds)) = dt_backlog d"
proof (cases "dt_keep_order d \<or> dt_drop_low_prio d")
  case True
  from deque_priority_flow [OF i ne True] obtain b us x vs q where
    e: "dt_pkts d = us @ x # vs" "b \<in> set (x # vs)"
    "deque_priority d = Inr (Some (if dt_keep_order d then x else b),
      d\<lparr>dt_q := q, dt_drops := dt_drops d @ filter (is_same_flow b) us\<rparr>)" "lq_inv (bt_q q)"
    "lq_pkts (bt_q q) = filter (\<lambda>y. pk_addr y \<noteq> pk_addr (if dt_keep_order d then x else b))
      (filter (\<lambda>y. \<not> is_same_flow b y) us @ x # vs)" by blast
  let ?r = "if dt_keep_order d then x else b"
  have "distinct (map pk_addr (filter (\<lambda>y. \<not> is_same_flow b y) us @ x # vs))"
    using i e(1) by (auto simp: dt_inv_def lq_inv_def distinct_map_filter)
  then have m: "mset (map pk_addr (filter (\<lambda>y. \<not> is_same_flow b y) us @ x # vs)) =
      add_mset (pk_addr ?r) (mset (map pk_addr (lq_pkts (bt_q q))))"
    unfolding e(5) using e(2) by (intro mset_map_key_filter) auto
  have "add_mset (pk_addr ?r)
      (mset (map pk_addr (lq_pkts (bt_q q))) + mset (map pk_addr (filter (is_same_flow b) us))) =
      mset (map pk_addr (filter (\<lambda>y. \<not> is_same_flow b y) us @ x # vs)) +
      mset (map pk_addr (filter (is_same_flow b) us))"
    unfolding m by simp
  also have "\<dots> = mset (map pk_addr us) + mset (map pk_addr (x # vs))"
    unfolding filter_mset_split [of pk_addr "is_same_flow b" us, symmetric] by (simp add: ac_simps)
  also have "\<dots> = dt_backlog d" by (simp add: dt_backlog_def e(1))
  finally have "add_mset (pk_addr ?r)
      (mset (map pk_addr (lq_pkts (bt_q q))) + mset (map pk_addr (filter (is_same_flow b) us))) = dt_backlog d" .
  with e(3,4) show ?thesis by blast
next
  case False
  with deque_priority_plain [OF i ne] obtain b q where
    e: "extreme_at LOWEST (dt_pkts d) b" "deque_priority d = Inr (Some b, d\<lparr>dt_q := q\<rparr>)" "lq_inv (bt_q q)"
    "lq_pkts (bt_q q) = filter (\<lambda>x. pk_addr x \<noteq> pk_addr b) (dt_pkts d)" by blast
  have "add_mset (pk_addr b) (mset (map pk_addr (lq_pkts (bt_q q)))) = dt_backlog d"
    unfolding e(4) dt_backlog_def using i extreme_at_mem [OF e(1)]
    by (intro mset_map_key_filter [symmetric]) (auto simp: dt_inv_def lq_inv_def)
  with e(2,3) show ?thesis by (intro exI [of _ b] exI [of _ q] exI [of _ "[]"]) simp
qed

lemma sq_note_simps [simp]:
  "dt_q (sq_note s d) = dt_q d" "dt_drops (sq_note s d) = dt_drops d"
  "dt_drop_front (sq_note s d) = dt_drop_front d" "dt_drop_prio (sq_note s d) = dt_drop_prio d"
  "dt_qib (sq_note s d) = dt_qib d" "dt_good_prio_qlim (sq_note s d) = dt_good_prio_qlim d"
  by (simp_all add: sq_note_def Let_def)

text \<open>Whatever the configuration, dequeueing from a non-empty queue yields a packet.\<close>

lemma dt_deque_ok:
  assumes i: "dt_inv d"
  shows "\<exists>r d'. dt_deque hsh now d = Inr (r, d') \<and> dt_inv d' \<and> (r = None \<longleftrightarrow> dt_pkts d = []) \<and>
    (case r of None \<Rightarrow> dt_pkts d' = [] \<and> dt_drops d' = dt_drops d
     | Some p \<Rightarrow> add_mset (pk_addr p) (dt_backlog d' + dt_dropped d') = dt_backlog d + dt_dropped d \<and>
         size (dt_backlog d') < size (dt_backlog d)) \<and> dt_fits p d' = dt_fits p d"
proof -
  have "\<exists>st. (if dt_summarystats d
      then d\<lparr>dt_stats := updateStats now (if dt_qib d then dt_byteLength d else dt_length d) (dt_stats d)\<rparr>
      else d) = d\<lparr>dt_stats := st\<rparr>"
    by (cases "dt_summarystats d") (auto intro: exI [of _ "dt_stats d"])
  then obtain st where st: "(if dt_summarystats d
      then d\<lparr>dt_stats := updateStats now (if dt_qib d then dt_byteLength d else dt_length d) (dt_stats d)\<rparr>
      else d) = d\<lparr>dt_stats := st\<rparr>" by blast
  let ?d = "d\<lparr>dt_stats := st\<rparr>"
  have i': "dt_inv ?d" using i by (simp add: dt_inv_def)
  note defs = dt_inv_def dt_backlog_def dt_dropped_def dt_fits_def drop_config_ok_def
  show ?thesis
  proof (cases "dt_deque_prio d")
    case True
    show ?thesis
    proof (cases "dt_pkts d = []")
      case True
      with \<open>dt_deque_prio d\<close> deque_priority_empty [OF i'] i show ?thesis
        by (auto simp: dt_deque_def st Let_def defs)
    next
      case False
      with deque_priority_ok [OF i'] obtain r q ds where
        r: "deque_priority ?d = Inr (Some r, ?d\<lparr>dt_q := q, dt_drops := dt_drops ?d @ ds\<rparr>)"
        "lq_inv (bt_q q)"
        "add_mset (pk_addr r) (mset (map pk_addr (lq_pkts (bt_q q))) + mset (map pk_addr ds)) = dt_backlog ?d"
        by auto
      from arg_cong [OF r(3), where f = size] have "size (mset (map pk_addr (lq_pkts (bt_q q)))) < size (dt_backlog d)"
        by (simp add: dt_backlog_def)
      with \<open>dt_deque_prio d\<close> False r show ?thesis
        by (auto simp: dt_deque_def st Let_def defs)
    qed
  next
    case False
    have l: "lq_inv (snd (lq_deque (bt_q (dt_q d))))" using i by (simp add: dt_inv_def lq_inv_deque)
    show ?thesis
    proof (cases "dt_pkts d")
      case Nil
      with False l i show ?thesis
        by (simp add: dt_deque_def st Let_def deque_with_drop_smart_def bt_deque_def lq_deque_def defs)
    next
      case (Cons p ps)
      with False l show ?thesis
        by (simp add: dt_deque_def st Let_def deque_with_drop_smart_def bt_deque_def lq_deque_def defs)
    qed
  qed
qed

interpretation dtq: queue_discipline "dt_enque hsh" "dt_deque hsh" dt_inv dt_fits dt_backlog dt_dropped
  for hsh
proof (unfold_locales, goal_cases)
  case (1 d p now)
  then have "pk_addr p \<notin> pk_addr ` set (dt_pkts d)" by (simp add: dt_backlog_def)
  with dt_enque_ok [OF 1(1,2), of hsh now] obtain q vs st where
    e: "dt_enque hsh now p d = Inr (d\<lparr>dt_stats := st, dt_q := q, dt_drops := dt_drops d @ vs\<rparr>)" "lq_inv (bt_q q)"
    "mset (map pk_addr (lq_pkts (bt_q q))) + mset (map pk_addr vs) = add_mset (pk_addr p) (dt_backlog d)"
    by blast
  then show ?case by (simp add: dt_inv_def dt_backlog_def dt_dropped_def dt_fits_def drop_config_ok_def)
next
  case (2 d now)
  from dt_deque_ok [OF 2, of hsh now] show ?case
    by (fastforce simp: dt_backlog_def dt_dropped_def dt_fits_def split: option.splits)
qed

section \<open>The signature table\<close>













lemma length_key_filter:
  assumes "distinct (map f xs)" "x \<in> set xs"
  shows "Suc (length (filter (\<lambda>y. f y \<noteq> f x) xs)) = length xs"
  using arg_cong [OF mset_map_key_filter [OF assms], where f = size]
  by (simp del: mset_map mset_filter)



section \<open>Properties\<close>

text \<open>A queue for the concrete runs: limit of three packets, all options off.\<close>

definition droptail0 :: droptail where
  "droptail0 = \<lparr>dt_q = bt_init, dt_qlim = 3, dt_thresh = 1, dt_drop_front = False, dt_summarystats = False,
     dt_qib = False, dt_mean_pktsize = 1000, dt_drop_smart = False, dt_drop_prio = False,
     dt_deque_prio = False, dt_keep_order = False, dt_ecn_enable = False, dt_drop_low_prio = False,
     dt_good_prio_qlim = -1, dt_sq_limit = 2, dt_sq_counts = Map.empty, dt_sq_queue = [],
     dt_stats = qstats0, dt_drops = []\<rparr>"

definition btq_of :: "packet list \<Rightarrow> btq" where
  "btq_of ps = \<lparr>bt_q = \<lparr>lq_pkts = ps, lq_len = int (length ps), lq_bytes = sum_list (map pk_size ps)\<rparr>,
     bt_num_bad = int (length (filter is_bad_prio ps))\<rparr>"

lemmas droptail_run_defs = droptail0_def bt_init_def lq_init_def btq_of_def dt_inv_def lq_inv_def





text \<open>C14: with \<open>deque_prio_\<close> and \<open>keep_order_\<close>, dequeueing from a non-empty queue picks the flow of the
  most urgent packet \<open>b\<close> (the first of those with the least priority value) and returns the
  earliest packet \<open>x\<close> of this flow that is still wanted: with \<open>drop_low_prio_\<close>, the packets of the
  flow queued before \<open>x\<close> that carry the lowest priority while \<open>b\<close> does not are dropped, in order;
  all other packets stay queued in order.\<close>

theorem droptail_serves_urgent_flow_in_order:
  assumes "dt_inv d" "dt_pkts d \<noteq> []" "dt_deque_prio d" "dt_keep_order d"
  shows "\<exists>d' b us x vs. dt_deque hsh now d = Inr (Some x, d') \<and> dt_pkts d = us @ x # vs \<and>
    extreme_at LOWEST (dt_pkts d) b \<and> is_same_flow b x \<and> \<not> skipped (dt_drop_low_prio d) b x \<and>
    (\<forall>y \<in> set us. is_same_flow b y \<longrightarrow> skipped (dt_drop_low_prio d) b y) \<and>
    dt_pkts d' = filter (\<lambda>y. \<not> is_same_flow b y) us @ vs \<and>
    dt_drops d' = dt_drops d @ filter (is_same_flow b) us"
proof -
  have "\<exists>st. (if dt_summarystats d
      then d\<lparr>dt_stats := updateStats now (if dt_qib d then dt_byteLength d else dt_length d) (dt_stats d)\<rparr>
      else d) = d\<lparr>dt_stats := st\<rparr>"
    by (cases "dt_summarystats d") (auto intro: exI [of _ "dt_stats d"])
  then obtain st where st: "(if dt_summarystats d
      then d\<lparr>dt_stats := updateStats now (if dt_qib d then dt_byteLength d else dt_length d) (dt_stats d)\<rparr>
      else d) = d\<lparr>dt_stats := st\<rparr>" by blast
  let ?d = "d\<lparr>dt_stats := st\<rparr>"
  have "dt_inv ?d" using assms(1) by (simp add: dt_inv_def)
  from deque_priority_flow [OF this] assms(2,4) obtain b us x vs q where
    e: "extreme_at LOWEST (dt_pkts d) b" "dt_pkts d = us @ x # vs" "is_same_flow b x"
    "\<not> skipped (dt_drop_low_prio d) b x"
    "\<forall>y \<in> set us. is_same_flow b y \<longrightarrow> skipped (dt_drop_low_prio d) b y"
    "deque_priority ?d = Inr (Some x, ?d\<lparr>dt_q := q, dt_drops := dt_drops d @ filter (is_same_flow b) us\<rparr>)"
    "lq_pkts (bt_q q) = filter (\<lambda>y. pk_addr y \<noteq> pk_addr x) (filter (\<lambda>y. \<not> is_same_flow b y) us @ x # vs)"
    by auto
  have "distinct (map pk_addr (filter (\<lambda>y. \<not> is_same_flow b y) us @ x # vs))"
    using assms(1) e(2) by (auto simp: dt_inv_def lq_inv_def distinct_map_filter)
  from filter_key_middle [OF this] e(7) have q: "lq_pkts (bt_q q) = filter (\<lambda>y. \<not> is_same_flow b y) us @ vs"
    by simp
  have "dt_deque hsh now d =
      Inr (Some x, ?d\<lparr>dt_q := q, dt_drops := dt_drops d @ filter (is_same_flow b) us\<rparr>)"
    using assms(3) e(6) by (simp add: dt_deque_def st Let_def)
  moreover have "dt_pkts (?d\<lparr>dt_q := q, dt_drops := dt_drops d @ filter (is_same_flow b) us\<rparr>) =
      filter (\<lambda>y. \<not> is_same_flow b y) us @ vs" using q by simp
  moreover have "dt_drops (?d\<lparr>dt_q := q, dt_drops := dt_drops d @ filter (is_same_flow b) us\<rparr>) =
      dt_drops d @ filter (is_same_flow b) us" by simp
  ultimately show ?thesis using e(1-5) by blast
qed

theorem droptail_serves_urgent_flow_in_order_witness:
  "\<exists>d' b us x vs. dt_deque (\<lambda>_. 0) 0 (droptail0\<lparr>dt_deque_prio := True, dt_keep_order := True,
       dt_drop_low_prio := True,
       dt_q := btq_of [mk_packet 1 1500 1 (2^30), mk_packet 2 1500 2 4, mk_packet 3 1500 1 3]\<rparr>) =
     Inr (Some x, d') \<and>
     [mk_packet 1 1500 1 (2^30), mk_packet 2 1500 2 4, mk_packet 3 1500 1 3] = us @ x # vs \<and>
     extreme_at LOWEST [mk_packet 1 1500 1 (2^30), mk_packet 2 1500 2 4, mk_packet 3 1500 1 3] b \<and>
     is_same_flow b x \<and> \<not> skipped True b x \<and> (\<forall>y \<in> set us. is_same_flow b y \<longrightarrow> skipped True b y) \<and>
     dt_pkts d' = filter (\<lambda>y. \<not> is_same_flow b y) us @ vs \<and> dt_drops d' = filter (is_same_flow b) us"
  using droptail_serves_urgent_flow_in_order [of "droptail0\<lparr>dt_deque_prio := True, dt_keep_order := True,
       dt_drop_low_prio := True,
       dt_q := btq_of [mk_packet 1 1500 1 (2^30), mk_packet 2 1500 2 4, mk_packet 3 1500 1 3]\<rparr>" "\<lambda>_. 0" 0]
  by (simp add: droptail_run_defs)

text \<open>C9: a DropTail queue behind the link handshake, driven by any sequence of packet arrivals and
  link-idle events: no call fails, every packet that arrived is, exactly once, sent to the link,
  queued or dropped, and the queue is work conserving: the link is idle only when nothing is
  queued. This holds for every configuration but the one \<open>drop_prio\<close> rejects.\<close>

theorem droptail_link_conserves:
  assumes "dt_inv d" "dt_pkts d = []" "dt_drops d = []" "qh_sent h = []" "qh_unblock_on_resume h"
    and "\<not> dt_drop_front d \<and> dt_drop_prio d \<longrightarrow> dt_qib d \<or> dt_good_prio_qlim d < 0"
    and "distinct (map pk_addr (arrivals es))"
  shows "\<exists>h' d'. link_run (dt_enque hsh) (dt_deque hsh) es (h, d) = Inr (h', d') \<and>
    mset (map pk_addr (qh_sent h' @ dt_pkts d' @ dt_drops d')) = mset (map pk_addr (arrivals es)) \<and>
    (\<not> qh_blocked h' \<longrightarrow> dt_pkts d' = []) \<and> dt_inv d'"
proof -
  have "\<exists>s'. link_run (dt_enque hsh) (dt_deque hsh) es (h, d) = Inr s' \<and> dtq.hand_inv s' \<and>
     dtq.total s' = mset (map pk_addr (arrivals es)) + dtq.total (h, d)"
    using assms
    by (intro dtq.run_ok) (auto simp: dtq.hand_inv_def dtq.total_def dtq.sent_def dt_backlog_def
        dt_dropped_def dt_fits_def drop_config_ok_def)
  then show ?thesis using assms(2-4)
    by (auto simp: dtq.hand_inv_def dtq.total_def dtq.sent_def dt_backlog_def dt_dropped_def ac_simps)
qed

definition qhand0 :: qhand where
  "qhand0 = \<lparr>qh_blocked = False, qh_unblock_on_resume = True, qh_util = \<lparr>qu_last_change = 0, qu_old_util = 0,
     qu_util_weight = 0, qu_util_check_intv = 0, qu_period_begin = 0, qu_cur_util = 0, qu_buf_slot = 0,
     qu_util_buf = [], qu_util_records = 0\<rparr>, qh_sent = []\<rparr>"

theorem droptail_link_conserves_witness:
  "\<exists>h' d'. link_run (dt_enque (\<lambda>_. 0)) (dt_deque (\<lambda>_. 0))
      [(1, Some (mk_packet 1 9 1 1)), (1, Some (mk_packet 2 9 1 1)), (2, None), (3, Some (mk_packet 3 9 2 1))]
      (qhand0, droptail0) = Inr (h', d') \<and>
    mset (map pk_addr (qh_sent h' @ dt_pkts d' @ dt_drops d')) = {#1, 2, 3#} \<and>
    (\<not> qh_blocked h' \<longrightarrow> dt_pkts d' = []) \<and> dt_inv d'"
  using droptail_link_conserves [of droptail0 qhand0
      "[(1, Some (mk_packet 1 9 1 1)), (1, Some (mk_packet 2 9 1 1)), (2, None), (3, Some (mk_packet 3 9 2 1))]"
      "\<lambda>_. 0"]
  by (simp add: droptail_run_defs qhand0_def)

text \<open>C35: with \<open>drop_prio_\<close> in packet mode, a non-negative \<open>good_limit_\<close> makes every enqueue that finds
  the queue full throw, although the message of the exception speaks of a queue measured in bytes;
  in byte mode, where the message would apply, the exception is never thrown.\<close>

theorem droptail_drop_prio_throws:
  assumes "dt_drop_prio d" "\<not> dt_drop_front d" "\<not> dt_qib d" "0 \<le> dt_good_prio_qlim d" "will_overflow p d"
  shows "dt_enque hsh now p d = Inl (RuntimeError ''byte queue length and good_prio_qlim_ are not supported'') \<and>
    (\<forall>m mp mx pps. \<exists>r. drop_prio_loop (d\<lparr>dt_qib := True\<rparr>) m mp mx pps = Inr r)"
proof
  from pre_enque_eq obtain st where st: "pre_enque now d = d\<lparr>dt_stats := st\<rparr>" by blast
  have w: "will_overflow p (d\<lparr>dt_stats := st\<rparr>)"
    using assms(3,5) by (simp add: will_overflow_def)
  obtain x xs where "dt_pkts d @ [p] = x # xs" by (cases "dt_pkts d @ [p]") auto
  with w assms(1-4) show "dt_enque hsh now p d =
      Inl (RuntimeError ''byte queue length and good_prio_qlim_ are not supported'')"
    by (simp add: dt_enque_place st dt_place_def handle_overflow_def drop_prio_def Let_def)
next
  show "\<forall>m mp mx pps. \<exists>r. drop_prio_loop (d\<lparr>dt_qib := True\<rparr>) m mp mx pps = Inr r"
    using drop_prio_loop_mem [of "d\<lparr>dt_qib := True\<rparr>"] by (fastforce simp: drop_config_ok_def)
qed

theorem droptail_drop_prio_throws_witness:
  "dt_enque (\<lambda>_. 0) 0 (mk_packet 1 1500 1 5) (droptail0\<lparr>dt_drop_prio := True, dt_good_prio_qlim := 1\<rparr>) =
     Inl (RuntimeError ''byte queue length and good_prio_qlim_ are not supported'') \<and>
   (\<forall>m mp mx pps. \<exists>r. drop_prio_loop (droptail0\<lparr>dt_drop_prio := True, dt_good_prio_qlim := 1, dt_qib := True\<rparr>)
      m mp mx pps = Inr r)"
proof -
  have "will_overflow (mk_packet 1 1500 1 5) (droptail0\<lparr>dt_drop_prio := True, dt_good_prio_qlim := 1\<rparr>)"
    by (simp add: will_overflow_def droptail_run_defs is_bad_prio_def get_num_good_packets_def push_bit_eq_mult)
  then show ?thesis
    using droptail_drop_prio_throws [of "droptail0\<lparr>dt_drop_prio := True, dt_good_prio_qlim := 1\<rparr>"
        "mk_packet 1 1500 1 5" "\<lambda>_. 0" 0] by (simp add: droptail_run_defs)
qed

text \<open>C36: removing a queued packet of bad priority decrements the counter of bad packets once when the
  packet is inside the queue but twice when it is at the head, because \<open>PacketQueue::remove\<close>
  dequeues the head through the virtual \<open>deque\<close>: afterwards the counter no longer counts
  the bad packets, and \<open>get_num_good_packets\<close> is one too large.\<close>

theorem bt_remove_bad_head_counts_twice:
  assumes "lq_inv (bt_q q)" "p \<in> set (lq_pkts (bt_q q))" "is_bad_prio p"
    "bt_num_bad q = int (length (filter is_bad_prio (lq_pkts (bt_q q))))"
  shows "\<exists>q'. bt_remove p q = Inr q' \<and>
    bt_num_bad q' = int (length (filter is_bad_prio (lq_pkts (bt_q q')))) -
      (if pk_addr (hd (lq_pkts (bt_q q))) = pk_addr p then 1 else 0)"
proof -
  from bt_remove_ok [OF assms(1,2)] assms(3) obtain q' where q': "bt_remove p q = Inr q'"
    "lq_pkts (bt_q q') = filter (\<lambda>x. pk_addr x \<noteq> pk_addr p) (lq_pkts (bt_q q))"
    "bt_num_bad q' = bt_num_bad q - (if pk_addr (hd (lq_pkts (bt_q q))) = pk_addr p then 2 else 1)" by auto
  let ?f = "filter is_bad_prio (lq_pkts (bt_q q))"
  have "Suc (length (filter (\<lambda>x. pk_addr x \<noteq> pk_addr p) ?f)) = length ?f"
    using assms(1-3) by (intro length_key_filter) (auto simp: lq_inv_def distinct_map_filter)
  moreover have "filter is_bad_prio (lq_pkts (bt_q q')) = filter (\<lambda>x. pk_addr x \<noteq> pk_addr p) ?f"
    unfolding q'(2) filter_filter by (rule filter_cong) auto
  ultimately show ?thesis using q' assms(4) by auto
qed

theorem bt_remove_bad_head_counts_twice_witness:
  "\<exists>q'. bt_remove (mk_packet 1 1500 1 (2^30)) (btq_of [mk_packet 1 1500 1 (2^30)]) = Inr q' \<and>
    bt_num_bad q' = int (length (filter is_bad_prio (lq_pkts (bt_q q')))) - 1"
  using bt_remove_bad_head_counts_twice [of "btq_of [mk_packet 1 1500 1 (2^30)]" "mk_packet 1 1500 1 (2^30)"]
  by (simp add: btq_of_def lq_inv_def is_bad_prio_def push_bit_eq_mult)





text \<open>ECN marking touches one queued packet at most: when the queue length has reached the threshold, the
  first of the least urgent queued packets gets its congestion bit if it is ECN capable; addresses, order,
  sizes and headers of all packets are otherwise unchanged.\<close>

theorem droptail_mark_ecn_least_urgent:
  assumes "dt_inv d" "dt_pkts d \<noteq> []"
  shows "\<exists>ys b zs d'. dt_pkts d = ys @ b # zs \<and> (\<forall>x \<in> set ys. prio_of x < prio_of b) \<and>
    (\<forall>x \<in> set zs. prio_of x \<le> prio_of b) \<and> mark_ecn d = Inr d' \<and> dt_inv d' \<and> dt_drops d' = dt_drops d \<and>
    dt_pkts d' = ys @ (if fl_ect (pk_flags b) then set_ce b else b) # zs"
proof -
  from find_extreme_packet_ok [of "dt_q d" HIGHEST] assms obtain b where
    b: "find_extreme_packet HIGHEST (dt_q d) = Inr (Some b)" "extreme_at HIGHEST (dt_pkts d) b"
    by (auto simp: dt_inv_def)
  from b(2) obtain ys zs where yz: "dt_pkts d = ys @ b # zs" "\<forall>x \<in> set ys. prio_of x < prio_of b"
    "\<forall>x \<in> set zs. prio_of x \<le> prio_of b" by (fastforce simp: extreme_at_def better_def)
  let ?f = "\<lambda>x. if pk_addr x = pk_addr b then set_ce x else x"
  have "distinct (map pk_addr (ys @ b # zs))" using assms(1) yz(1) by (simp add: dt_inv_def lq_inv_def)
  then have "map ?f ys = ys" "map ?f zs = zs" by (auto simp: image_iff intro!: map_idI)
  with b(1) yz show ?thesis using assms(1)
    by (intro exI [of _ ys] exI [of _ b] exI [of _ zs])
      (auto simp: mark_ecn_def dt_inv_def lq_inv_update_ce, auto simp: update_pkt_def)
qed

theorem droptail_mark_ecn_least_urgent_witness:
  "\<exists>ys b zs d'. [mk_packet 1 9 7 1, mk_packet 2 9 8 5] = ys @ b # zs \<and>
    (\<forall>x \<in> set ys. prio_of x < prio_of b) \<and> (\<forall>x \<in> set zs. prio_of x \<le> prio_of b) \<and>
    mark_ecn (droptail0\<lparr>dt_q := btq_of [mk_packet 1 9 7 1, mk_packet 2 9 8 5]\<rparr>) = Inr d' \<and>
    dt_inv d' \<and> dt_drops d' = [] \<and> dt_pkts d' = ys @ (if fl_ect (pk_flags b) then set_ce b else b) # zs"
  using droptail_mark_ecn_least_urgent [of "droptail0\<lparr>dt_q := btq_of [mk_packet 1 9 7 1, mk_packet 2 9 8 5]\<rparr>"]
  by (simp add: droptail_run_defs)

end
