(* ===== verification/EventQueue.thy ===== *)
theory EventQueue
  imports Prelude "HOL-Library.Product_Lexorder"
begin

text \<open>
  The discrete event core: \<open>Event\<close>, \<open>Scheduler\<close>, \<open>ListScheduler\<close> (\<open>common/scheduler.h\<close>,
  \<open>common/scheduler.cc\<close>) and \<open>MapScheduler\<close> (\<open>common/scheduler-map.cc\<close>).

  The concrete schedulers share the base class, which calls their virtual \<open>insert\<close>, \<open>deque\<close>, \<open>cancel\<close>,
  \<open>lookup\<close> and \<open>head\<close>. This interface is the locale \<open>event_queue\<close>: a scheduler's queue abstracts to the
  list of its pending events in the order of time, and, for equal times, of scheduling. The base class
  operations \<open>schedule\<close>, \<open>dispatch\<close> and \<open>run\<close> are defined over the operations of a queue, and what
  they do is proved once in the locale. Event handlers are a parameter: a handler is given the event and the clock and
  answers with calls of the scheduler, which is all that handlers can do to it.
\<close>

section \<open>Events\<close>

record event =
  ev_uid :: int
  ev_time :: time
  ev_handler :: nat

definition ev_key :: "event \<Rightarrow> time \<times> int" where
  "ev_key e = (ev_time e, ev_uid e)"

definition negate_uid :: "event \<Rightarrow> event" where
  "negate_uid e = e\<lparr>ev_uid := - ev_uid e\<rparr>"

section \<open>Sorting by time and scheduling order\<close>

lemma sort_key_eq_mset:
  assumes "mset xs = mset ys" "distinct (map ev_uid xs)"
  shows "sort_key ev_key xs = sort_key ev_key ys"
proof -
  have "inj_on ev_key (set xs)"
    using assms(2) by (auto simp: distinct_map inj_on_def ev_key_def)
  then show ?thesis
    using assms(1) by (intro sort_key_inj_key_eq) (simp_all add: sorted_sort_key)
qed

lemma find_uid_mset:
  assumes "mset xs = mset ys" "distinct (map ev_uid xs)"
  shows "find (\<lambda>e. ev_uid e = u) xs = find (\<lambda>e. ev_uid e = u) ys"
proof (cases "find (\<lambda>e. ev_uid e = u) xs")
  case None
  then show ?thesis using mset_eq_setD [OF assms(1)] by (metis find_None_iff)
next
  case (Some a)
  then have a: "a \<in> set xs" "ev_uid a = u" by (auto simp: find_Some_iff)
  then obtain b where b: "find (\<lambda>e. ev_uid e = u) ys = Some b"
    using mset_eq_setD [OF assms(1)] by (metis (mono_tags, lifting) find_None_iff option.exhaust)
  then have "b \<in> set xs" "ev_uid b = u" using mset_eq_setD [OF assms(1)] by (auto simp: find_Some_iff)
  with a assms(2) Some b show ?thesis by (metis inj_key_unique)
qed

lemma ev_key_timeD: "ev_key x \<le> ev_key y \<Longrightarrow> ev_time x \<le> ev_time y"
  by (auto simp: ev_key_def)

lemma sort_key_add:
  assumes "mset xs = add_mset e (mset ys)" "distinct (map ev_uid xs)"
  shows "sort_key ev_key xs = insort_key ev_key e (sort_key ev_key ys)"
proof -
  have "inj_on ev_key (set xs)" using assms(2) by (auto simp: distinct_map inj_on_def ev_key_def)
  moreover have "mset xs = mset (insort_key ev_key e (sort_key ev_key ys))" using assms(1) by simp
  ultimately show ?thesis by (intro sort_key_inj_key_eq) (simp_all add: sorted_insort_key)
qed

lemma sort_key_remove:
  assumes "mset xs = add_mset e (mset ys)" "distinct (map ev_uid xs)"
  shows "sort_key ev_key ys = remove1 e (sort_key ev_key xs)"
proof -
  have "distinct (map ev_uid ys)"
    using assms by (intro distinct_mset_subseteq [of "map ev_uid ys" "map ev_uid xs"]) simp_all
  then have "inj_on ev_key (set ys)" by (auto simp: distinct_map inj_on_def ev_key_def)
  moreover have "mset ys = mset (remove1 e (sort_key ev_key xs))" using assms(1) by simp
  ultimately show ?thesis by (intro sort_key_inj_key_eq sorted_map_remove1) simp_all
qed

section \<open>The list scheduler\<close>

fun ls_insert :: "event \<Rightarrow> event list \<Rightarrow> event list" where
  "ls_insert e [] = [e]"
| "ls_insert e (p # ps) = (if ev_time e < ev_time p then e # p # ps else p # ls_insert e ps)"

fun ls_unlink :: "event \<Rightarrow> event list \<Rightarrow> event list res" where
  "ls_unlink e [] = Inl Abort"
| "ls_unlink e (p # ps) = (if p = e then Inr ps else map_sum id ((#) p) (ls_unlink e ps))"

definition ls_cancel :: "event \<Rightarrow> event list \<Rightarrow> (event \<times> event list) res" where
  "ls_cancel e q =
     (if ev_uid e \<le> 0 then Inr (e, q)
      else res_bind (ls_unlink e q) (\<lambda>q1. Inr (negate_uid e, q1)))"

fun ls_lookup :: "int \<Rightarrow> event list \<Rightarrow> event option" where
  "ls_lookup uid [] = None"
| "ls_lookup uid (e # es) = (if ev_uid e = uid then Some e else ls_lookup uid es)"

definition ls_deque :: "event list \<Rightarrow> event option \<times> event list" where
  "ls_deque q = (case q of [] \<Rightarrow> (None, q) | e # es \<Rightarrow> (Some e, es))"

definition ls_head :: "event list \<Rightarrow> event option" where
  "ls_head q = (case q of [] \<Rightarrow> None | e # _ \<Rightarrow> Some e)"

section \<open>The set scheduler\<close>

text \<open>\<open>std::set\<close> with the comparison \<open>event_less_adapter\<close> is the list of its elements in order; an insertion of
  an element equivalent to one that is present does nothing, and \<open>find\<close> compares by equivalence.\<close>

definition event_less :: "event \<Rightarrow> event \<Rightarrow> bool" where
  "event_less e1 e2 = (ev_time e1 < ev_time e2 \<or> (ev_time e1 = ev_time e2 \<and> ev_uid e1 < ev_uid e2))"

fun ms_insert :: "event \<Rightarrow> event list \<Rightarrow> event list" where
  "ms_insert e [] = [e]"
| "ms_insert e (p # ps) =
     (if event_less e p then e # p # ps
      else if event_less p e then p # ms_insert e ps
      else p # ps)"

fun ms_erase :: "event \<Rightarrow> event list \<Rightarrow> event list option" where
  "ms_erase e [] = None"
| "ms_erase e (p # ps) =
     (if \<not> event_less e p \<and> \<not> event_less p e then Some ps else map_option ((#) p) (ms_erase e ps))"

definition ms_cancel :: "event \<Rightarrow> event list \<Rightarrow> (event \<times> event list) res" where
  "ms_cancel e q = (case ms_erase e q of None \<Rightarrow> Inr (e, q) | Some q1 \<Rightarrow> Inr (negate_uid e, q1))"

fun ms_lookup :: "int \<Rightarrow> event list \<Rightarrow> event option" where
  "ms_lookup uid [] = None"
| "ms_lookup uid (e # es) = (if ev_uid e = uid then Some e else ms_lookup uid es)"


section \<open>The interface of an event queue\<close>

locale event_queue =
  fixes ins :: "event \<Rightarrow> 's \<Rightarrow> 's res"
    and deq :: "'s \<Rightarrow> (event option \<times> 's) res"
    and canc :: "event \<Rightarrow> 's \<Rightarrow> (event \<times> 's) res"
    and look :: "int \<Rightarrow> 's \<Rightarrow> event option"
    and first :: "'s \<Rightarrow> (event option \<times> 's) res"
    and pending :: "'s \<Rightarrow> event list"
    and inv :: "'s \<Rightarrow> bool"
    and room :: "nat \<Rightarrow> 's \<Rightarrow> bool"
  assumes pending_ok: "inv s \<Longrightarrow> sorted (map ev_key (pending s)) \<and> distinct (map ev_uid (pending s)) \<and>
      (\<forall>e \<in> set (pending s). 0 < ev_uid e)"
    and ins_ok: "inv s \<Longrightarrow> room (Suc n) s \<Longrightarrow> 0 < ev_uid e \<Longrightarrow> 0 \<le> ev_time e \<Longrightarrow>
      \<forall>x \<in> set (pending s). ev_uid x < ev_uid e \<Longrightarrow>
      \<exists>s'. ins e s = Inr s' \<and> inv s' \<and> pending s' = insort_key ev_key e (pending s) \<and> room n s'"
    and deq_Nil: "inv s \<Longrightarrow> pending s = [] \<Longrightarrow> deq s = Inr (None, s)"
    and deq_Cons: "inv s \<Longrightarrow> pending s = e # es \<Longrightarrow>
      \<exists>s'. deq s = Inr (Some e, s') \<and> inv s' \<and> pending s' = es \<and> (\<forall>n. room n s \<longrightarrow> room n s')"
    and canc_ok: "inv s \<Longrightarrow> e \<in> set (pending s) \<Longrightarrow>
      \<exists>s'. canc e s = Inr (negate_uid e, s') \<and> inv s' \<and> pending s' = remove1 e (pending s) \<and>
        (\<forall>n. room n s \<longrightarrow> room n s')"
    and look_ok: "inv s \<Longrightarrow> look u s = find (\<lambda>e. ev_uid e = u) (pending s)"
    and first_ok: "inv s \<Longrightarrow> \<exists>s'. first s = Inr (case pending s of [] \<Rightarrow> None | e # _ \<Rightarrow> Some e, s') \<and>
      inv s' \<and> pending s' = pending s \<and> (\<forall>n. room n s \<longrightarrow> room n s')"
    and room_mono: "room n s \<Longrightarrow> m \<le> n \<Longrightarrow> room m s"

section \<open>The base class\<close>

record 'q sched =
  sc_clock :: time
  sc_halted :: bool
  sc_uid :: int
  sc_q :: 'q

text \<open>\<open>Scheduler::schedule\<close>; the handler pointer may be null.\<close>

definition schedule ::
  "(event \<Rightarrow> 'q \<Rightarrow> 'q res) \<Rightarrow> nat option \<Rightarrow> event \<Rightarrow> time \<Rightarrow> 'q sched \<Rightarrow> 'q sched res" where
  "schedule ins h e delay s =
     (case h of
        None \<Rightarrow> Inl Abort
      | Some h' \<Rightarrow>
          if ev_uid e > 0 then Inl Abort
          else if sc_uid s < 0 then Inl Abort
          else
            let e1 = e\<lparr>ev_uid := sc_uid s, ev_handler := h', ev_time := sc_clock s + delay\<rparr>
            in res_bind (ins e1 (sc_q s)) (\<lambda>q. Inr (s\<lparr>sc_uid := sc_uid s + 1, sc_q := q\<rparr>)))"

text \<open>The same for the owner of the event, who sees what was written into it.\<close>

definition schedule_event ::
  "(event \<Rightarrow> 'q \<Rightarrow> 'q res) \<Rightarrow> nat \<Rightarrow> event \<Rightarrow> time \<Rightarrow> 'q sched \<Rightarrow> (event \<times> 'q sched) res" where
  "schedule_event ins h e delay s =
     res_bind (schedule ins (Some h) e delay s) (\<lambda>s1.
       Inr (e\<lparr>ev_uid := sc_uid s, ev_handler := h, ev_time := sc_clock s + delay\<rparr>, s1))"

text \<open>The part of \<open>dispatch\<close> before the call of the handler.\<close>

definition dispatch :: "event \<Rightarrow> time \<Rightarrow> 'q sched \<Rightarrow> (event \<times> 'q sched) res" where
  "dispatch p t s = (if t < sc_clock s then Inl Abort else Inr (negate_uid p, s\<lparr>sc_clock := t\<rparr>))"

datatype sched_call =
    Schedule nat time
  | At nat time
  | CancelUid int
  | Halt

text \<open>A call of \<open>schedule\<close> with a new event (uid 0), and the commands \<open>at\<close> (a negative time is
  relative to the clock, a time in the past is an error that changes nothing), \<open>cancel\<close> and \<open>halt\<close>.\<close>

definition fresh_event :: event where
  "fresh_event = \<lparr>ev_uid = 0, ev_time = 0, ev_handler = 0\<rparr>"

fun do_call ::
  "(event \<Rightarrow> 'q \<Rightarrow> 'q res) \<Rightarrow> (event \<Rightarrow> 'q \<Rightarrow> (event \<times> 'q) res) \<Rightarrow> (int \<Rightarrow> 'q \<Rightarrow> event option) \<Rightarrow>
    sched_call \<Rightarrow> 'q sched \<Rightarrow> 'q sched res" where
  "do_call ins canc look (Schedule h delay) s = schedule ins (Some h) fresh_event delay s"
| "do_call ins canc look (At h t) s =
     (let delay = (if t < 0 then - t else t - sc_clock s)
      in if delay < 0 then Inr s else schedule ins (Some h) fresh_event delay s)"
| "do_call ins canc look (CancelUid u) s =
     (case look u (sc_q s) of
        None \<Rightarrow> Inr s
      | Some p \<Rightarrow> res_bind (canc p (sc_q s)) (\<lambda>(_, q). Inr (s\<lparr>sc_q := q\<rparr>)))"
| "do_call ins canc look Halt s = Inr (s\<lparr>sc_halted := True\<rparr>)"

fun do_calls ::
  "(event \<Rightarrow> 'q \<Rightarrow> 'q res) \<Rightarrow> (event \<Rightarrow> 'q \<Rightarrow> (event \<times> 'q) res) \<Rightarrow> (int \<Rightarrow> 'q \<Rightarrow> event option) \<Rightarrow>
    sched_call list \<Rightarrow> 'q sched \<Rightarrow> 'q sched res" where
  "do_calls ins canc look [] s = Inr s"
| "do_calls ins canc look (c # cs) s =
     res_bind (do_call ins canc look c s) (do_calls ins canc look cs)"

text \<open>\<open>Scheduler::run\<close>: \<open>handle\<close> gives the calls of the handler of an event and the new state of the
  simulated world. The loop runs for at most the given number of events; the result holds the
  dispatched events, in order.\<close>

fun sched_run ::
  "(event \<Rightarrow> 'q \<Rightarrow> 'q res) \<Rightarrow> ('q \<Rightarrow> (event option \<times> 'q) res) \<Rightarrow> (event \<Rightarrow> 'q \<Rightarrow> (event \<times> 'q) res) \<Rightarrow>
    (int \<Rightarrow> 'q \<Rightarrow> event option) \<Rightarrow> (event \<Rightarrow> time \<Rightarrow> 'w \<Rightarrow> 'w \<times> sched_call list) \<Rightarrow>
    nat \<Rightarrow> 'w \<Rightarrow> 'q sched \<Rightarrow> (event list \<times> 'w \<times> 'q sched) res" where
  "sched_run ins deq canc look handle 0 w s = Inr ([], w, s)"
| "sched_run ins deq canc look handle (Suc n) w s =
     (if sc_halted s then Inr ([], w, s)
      else (case deq (sc_q s) of
         Inl err \<Rightarrow> Inl err
       | Inr (None, q) \<Rightarrow> Inr ([], w, s\<lparr>sc_q := q\<rparr>)
       | Inr (Some p, q) \<Rightarrow>
           res_bind (dispatch p (ev_time p) (s\<lparr>sc_q := q\<rparr>)) (\<lambda>(p1, s1).
             (case handle p1 (sc_clock s1) w of (w1, calls) \<Rightarrow>
                res_bind (do_calls ins canc look calls s1) (\<lambda>s2.
                  res_bind (sched_run ins deq canc look handle n w1 s2) (\<lambda>(tr, w3, s3). Inr (p # tr, w3, s3)))))))"

text \<open>A simulation: calls before the start, at time 0, and then \<open>run\<close>.\<close>

definition sched_init :: "'q \<Rightarrow> 'q sched" where
  "sched_init q = \<lparr>sc_clock = 0, sc_halted = False, sc_uid = 1, sc_q = q\<rparr>"

definition simulate ::
  "(event \<Rightarrow> 'q \<Rightarrow> 'q res) \<Rightarrow> ('q \<Rightarrow> (event option \<times> 'q) res) \<Rightarrow> (event \<Rightarrow> 'q \<Rightarrow> (event \<times> 'q) res) \<Rightarrow>
    (int \<Rightarrow> 'q \<Rightarrow> event option) \<Rightarrow> (event \<Rightarrow> time \<Rightarrow> 'w \<Rightarrow> 'w \<times> sched_call list) \<Rightarrow>
    'q \<Rightarrow> sched_call list \<Rightarrow> nat \<Rightarrow> 'w \<Rightarrow> (event list \<times> 'w \<times> 'q sched) res" where
  "simulate ins deq canc look handle q cs n w =
     res_bind (do_calls ins canc look cs (sched_init q)) (sched_run ins deq canc look handle n w)"

section \<open>The base class over any event queue\<close>

text \<open>The specification: a sorted list.\<close>

definition spec_ins :: "event \<Rightarrow> event list \<Rightarrow> event list res" where
  "spec_ins e q = Inr (insort_key ev_key e q)"

definition spec_deq :: "event list \<Rightarrow> (event option \<times> event list) res" where
  "spec_deq q = (case q of [] \<Rightarrow> Inr (None, []) | e # es \<Rightarrow> Inr (Some e, es))"

definition spec_canc :: "event \<Rightarrow> event list \<Rightarrow> (event \<times> event list) res" where
  "spec_canc e q = Inr (negate_uid e, remove1 e q)"

definition spec_look :: "int \<Rightarrow> event list \<Rightarrow> event option" where
  "spec_look u q = find (\<lambda>e. ev_uid e = u) q"

abbreviation spec_run ::
  "(event \<Rightarrow> time \<Rightarrow> 'w \<Rightarrow> 'w \<times> sched_call list) \<Rightarrow> nat \<Rightarrow> 'w \<Rightarrow> event list sched \<Rightarrow>
    (event list \<times> 'w \<times> event list sched) res" where
  "spec_run \<equiv> sched_run spec_ins spec_deq spec_canc spec_look"

abbreviation spec_simulate ::
  "(event \<Rightarrow> time \<Rightarrow> 'w \<Rightarrow> 'w \<times> sched_call list) \<Rightarrow> sched_call list \<Rightarrow> nat \<Rightarrow> 'w \<Rightarrow>
    (event list \<times> 'w \<times> event list sched) res" where
  "spec_simulate handle \<equiv> simulate spec_ins spec_deq spec_canc spec_look handle []"

definition abs_sched :: "('q \<Rightarrow> event list) \<Rightarrow> 'q sched \<Rightarrow> event list sched" where
  "abs_sched f s = \<lparr>sc_clock = sc_clock s, sc_halted = sc_halted s, sc_uid = sc_uid s, sc_q = f (sc_q s)\<rparr>"

fun call_delay :: "sched_call \<Rightarrow> time" where
  "call_delay (Schedule h d) = d"
| "call_delay _ = 0"

text \<open>A handler behaves if it never schedules into the past and makes at most \<open>K\<close> calls per event.\<close>

definition well_behaved :: "nat \<Rightarrow> (event \<Rightarrow> time \<Rightarrow> 'w \<Rightarrow> 'w \<times> sched_call list) \<Rightarrow> bool" where
  "well_behaved K handle \<longleftrightarrow> (\<forall>e t w. length (snd (handle e t w)) \<le> K \<and>
     (\<forall>c \<in> set (snd (handle e t w)). 0 \<le> call_delay c))"

lemma set_remove1_distinct_uid:
  "distinct (map ev_uid xs) \<Longrightarrow> set (remove1 e xs) \<subseteq> set xs"
  by (rule set_remove1_subset)

context event_queue
begin

definition good :: "'s sched \<Rightarrow> bool" where
  "good s \<longleftrightarrow> inv (sc_q s) \<and> 0 < sc_uid s \<and> 0 \<le> sc_clock s \<and>
     (\<forall>e \<in> set (pending (sc_q s)). ev_uid e < sc_uid s \<and> sc_clock s \<le> ev_time e)"

lemma schedule_refines:
  assumes g: "good s" and r: "room (Suc n) (sc_q s)" and d: "0 \<le> delay"
  shows "\<exists>s'. schedule ins (Some h) fresh_event delay s = Inr s' \<and> good s' \<and> room n (sc_q s') \<and> sc_clock s' = sc_clock s \<and>
    schedule spec_ins (Some h) fresh_event delay (abs_sched pending s) = Inr (abs_sched pending s')"
proof -
  let ?e = "\<lparr>ev_uid = sc_uid s, ev_time = sc_clock s + delay, ev_handler = h\<rparr>"
  from ins_ok [of "sc_q s" n ?e] g r d obtain q where
    i: "ins ?e (sc_q s) = Inr q" "inv q" "pending q = insort_key ev_key ?e (pending (sc_q s))" "room n q"
    by (auto simp: good_def)
  let ?s = "s\<lparr>sc_uid := sc_uid s + 1, sc_q := q\<rparr>"
  have "schedule ins (Some h) fresh_event delay s = Inr ?s"
    "schedule spec_ins (Some h) fresh_event delay (abs_sched pending s) = Inr (abs_sched pending ?s)"
    using g i(1,3) by (auto simp: schedule_def fresh_event_def good_def abs_sched_def spec_ins_def Let_def)
  moreover have "good ?s" using g d i by (auto simp: good_def set_insort_key)
  ultimately show ?thesis using i(4) by auto
qed

lemma schedule_event_ok:
  fixes h :: nat
  assumes g: "good s" and r: "room (Suc n) (sc_q s)" and d: "0 \<le> delay" and e: "ev_uid e \<le> 0"
  defines "x \<equiv> e\<lparr>ev_uid := sc_uid s, ev_handler := h, ev_time := sc_clock s + delay\<rparr>"
  shows "\<exists>s'. schedule_event ins h e delay s = Inr (x, s') \<and> good s' \<and> room n (sc_q s') \<and> sc_clock s' = sc_clock s \<and>
    pending (sc_q s') = insort_key ev_key x (pending (sc_q s))"
proof -
  from ins_ok [of "sc_q s" n x] g r d obtain q where
    i: "ins x (sc_q s) = Inr q" "inv q" "pending q = insort_key ev_key x (pending (sc_q s))" "room n q"
    by (auto simp: good_def x_def)
  let ?s = "s\<lparr>sc_uid := sc_uid s + 1, sc_q := q\<rparr>"
  have "schedule_event ins h e delay s = Inr (x, ?s)"
    using g i(1) e by (simp add: schedule_event_def schedule_def good_def Let_def x_def)
  moreover have "good ?s" using g d i by (auto simp: good_def set_insort_key x_def)
  ultimately show ?thesis using i(3,4) by auto
qed

lemma next_event:
  assumes g: "good s" and p: "pending (sc_q s) = p # ps"
  obtains q where "deq (sc_q s) = Inr (Some p, q)" "pending q = ps" "\<forall>n. room n (sc_q s) \<longrightarrow> room n q"
    "good (s\<lparr>sc_q := q, sc_clock := ev_time p\<rparr>)" "sc_clock s \<le> ev_time p" "p \<notin> set ps" "0 < ev_uid p"
proof -
  from deq_Cons [OF _ p] g obtain q where
    q: "deq (sc_q s) = Inr (Some p, q)" "inv q" "pending q = ps" "\<forall>n. room n (sc_q s) \<longrightarrow> room n q" by (auto simp: good_def)
  have c: "sc_clock s \<le> ev_time p" using g p by (simp add: good_def)
  have "\<forall>e \<in> set ps. ev_time p \<le> ev_time e" "p \<notin> set ps" "0 < ev_uid p"
    using pending_ok [of "sc_q s"] g p by (auto simp: good_def ev_key_def)
  moreover from this have "good (s\<lparr>sc_q := q, sc_clock := ev_time p\<rparr>)" using g q(2,3) p c by (simp add: good_def)
  ultimately show thesis using that q(1,3,4) c by blast
qed

lemma call_refines:
  assumes g: "good s" and r: "room (Suc n) (sc_q s)" and d: "0 \<le> call_delay c"
  shows "\<exists>s'. do_call ins canc look c s = Inr s' \<and> good s' \<and> room n (sc_q s') \<and> sc_clock s' = sc_clock s \<and>
    do_call spec_ins spec_canc spec_look c (abs_sched pending s) = Inr (abs_sched pending s')"
proof (cases c)
  case (Schedule h delay)
  with schedule_refines [OF g r] d show ?thesis by simp
next
  case (At h t)
  define d where "d = (if t < 0 then - t else t - sc_clock s)"
  have c: "do_call ins canc look c s = (if d < 0 then Inr s else schedule ins (Some h) fresh_event d s)"
    "do_call spec_ins spec_canc spec_look c (abs_sched pending s) =
      (if d < 0 then Inr (abs_sched pending s) else schedule spec_ins (Some h) fresh_event d (abs_sched pending s))"
    by (simp_all add: At d_def Let_def abs_sched_def)
  show ?thesis unfolding c
    using g schedule_refines [OF g r, of d h] r by (cases "d < 0") (auto intro: room_mono [of "Suc n"])
next
  case (CancelUid u)
  have lk: "look u (sc_q s) = find (\<lambda>e. ev_uid e = u) (pending (sc_q s))" using look_ok g by (simp add: good_def)
  show ?thesis
  proof (cases "look u (sc_q s)")
    case None
    with lk CancelUid g r show ?thesis
      by (auto simp: spec_look_def abs_sched_def intro: room_mono [of "Suc n"])
  next
    case (Some p)
    then have p: "p \<in> set (pending (sc_q s))" using lk by (auto simp: find_Some_iff)
    from canc_ok [OF _ p] g obtain q where q: "canc p (sc_q s) = Inr (negate_uid p, q)" "inv q"
      "pending q = remove1 p (pending (sc_q s))" "\<forall>n. room n (sc_q s) \<longrightarrow> room n q" by (auto simp: good_def)
    have "good (s\<lparr>sc_q := q\<rparr>)" using g q by (auto simp: good_def dest: notin_set_remove1 set_remove1_subset [THEN subsetD])
    moreover have "room n q" using q(4) r room_mono [of "Suc n" q n] by simp
    ultimately show ?thesis using Some q lk CancelUid
      by (intro exI [of _ "s\<lparr>sc_q := q\<rparr>"]) (auto simp: spec_look_def spec_canc_def abs_sched_def)
  qed
next
  case Halt
  with g r show ?thesis by (auto simp: good_def abs_sched_def intro: room_mono [of "Suc n"])
qed

lemma calls_refine:
  "good s \<Longrightarrow> room (length cs + n) (sc_q s) \<Longrightarrow> \<forall>c \<in> set cs. 0 \<le> call_delay c \<Longrightarrow>
   \<exists>s'. do_calls ins canc look cs s = Inr s' \<and> good s' \<and> room n (sc_q s') \<and> sc_clock s' = sc_clock s \<and>
    do_calls spec_ins spec_canc spec_look cs (abs_sched pending s) = Inr (abs_sched pending s')"
proof (induction cs arbitrary: s)
  case (Cons c cs)
  have "room (Suc (length cs + n)) (sc_q s)" using Cons.prems(2) by simp
  from call_refines [OF Cons.prems(1) this] Cons.prems(3) obtain s1 where
    s1: "do_call ins canc look c s = Inr s1" "good s1" "room (length cs + n) (sc_q s1)" "sc_clock s1 = sc_clock s"
    "do_call spec_ins spec_canc spec_look c (abs_sched pending s) = Inr (abs_sched pending s1)" by auto
  from Cons.IH [OF s1(2,3)] Cons.prems(3) s1 show ?case by auto
qed auto

text \<open>Every scheduler runs like the specification: it never goes backwards in time and dispatches the
  same events in the same order.\<close>

lemma run_refines:
  assumes wb: "well_behaved K handle"
  shows "good s \<Longrightarrow> room (n * K) (sc_q s) \<Longrightarrow>
   \<exists>tr w' s'. sched_run ins deq canc look handle n w s = Inr (tr, w', s') \<and> good s' \<and>
     spec_run handle n w (abs_sched pending s) = Inr (tr, w', abs_sched pending s') \<and>
     sorted (map ev_time tr) \<and> (\<forall>e \<in> set tr. sc_clock s \<le> ev_time e) \<and> length tr \<le> n \<and>
     (length tr < n \<longrightarrow> sc_halted s' \<or> pending (sc_q s') = [])"
proof (induction n arbitrary: w s)
  case (Suc n)
  show ?case
  proof (cases "sc_halted s")
    case True
    with Suc.prems(1) show ?thesis by (simp add: abs_sched_def)
  next
    case False
    show ?thesis
    proof (cases "pending (sc_q s)")
      case Nil
      with Suc.prems(1) deq_Nil [of "sc_q s"] False show ?thesis
        by (simp add: abs_sched_def spec_deq_def good_def)
    next
      case (Cons p ps)
      from deq_Cons [OF _ Cons] Suc.prems(1) obtain q where
        q: "deq (sc_q s) = Inr (Some p, q)" "inv q" "pending q = ps" "\<forall>n. room n (sc_q s) \<longrightarrow> room n q"
        by (auto simp: good_def)
      let ?s1 = "s\<lparr>sc_q := q, sc_clock := ev_time p\<rparr>"
      have cl: "sc_clock s \<le> ev_time p" using Suc.prems(1) Cons by (simp add: good_def)
      have "\<forall>e \<in> set ps. ev_time p \<le> ev_time e"
        using pending_ok [of "sc_q s"] Suc.prems(1) Cons by (auto simp: good_def ev_key_def)
      then have g1: "good ?s1" using Suc.prems(1) q(2,3) Cons by (simp add: good_def)
      obtain w1 calls where h: "handle (negate_uid p) (ev_time p) w = (w1, calls)"
        by (cases "handle (negate_uid p) (ev_time p) w")
      have cs: "length calls \<le> K" "\<forall>c \<in> set calls. 0 \<le> call_delay c"
        using wb h unfolding well_behaved_def by (metis snd_conv)+
      have "room (length calls + n * K) (sc_q ?s1)"
        using q(4) Suc.prems(2) cs(1) room_mono [of "Suc n * K" q "length calls + n * K"] by simp
      from calls_refine [OF g1 this cs(2)] obtain s2 where
        s2: "do_calls ins canc look calls ?s1 = Inr s2" "good s2" "room (n * K) (sc_q s2)" "sc_clock s2 = ev_time p"
        "do_calls spec_ins spec_canc spec_look calls (abs_sched pending ?s1) = Inr (abs_sched pending s2)"
        by auto
      from Suc.IH [OF s2(2,3), of w1] obtain tr w' s' where
        t: "sched_run ins deq canc look handle n w1 s2 = Inr (tr, w', s')" "good s'"
        "spec_run handle n w1 (abs_sched pending s2) = Inr (tr, w', abs_sched pending s')"
        "sorted (map ev_time tr)" "\<forall>e \<in> set tr. sc_clock s2 \<le> ev_time e" "length tr \<le> n"
        "length tr < n \<longrightarrow> sc_halted s' \<or> pending (sc_q s') = []" by blast
      have "sched_run ins deq canc look handle (Suc n) w s = Inr (p # tr, w', s')"
        using False q(1) cl h s2(1) t(1) by (simp add: dispatch_def)
      moreover have "spec_run handle (Suc n) w (abs_sched pending s) = Inr (p # tr, w', abs_sched pending s')"
        using False Cons cl h s2(5) t(3) q(3) by (simp add: spec_deq_def dispatch_def abs_sched_def)
      ultimately show ?thesis using t s2(4) cl
        by (intro exI [of _ "p # tr"] exI [of _ w'] exI [of _ s']) auto
    qed
  qed
qed (simp add: abs_sched_def)

text \<open>What a simulation does, from an empty queue.\<close>

lemma simulate_refines:
  assumes wb: "well_behaved K handle" and cs: "\<forall>c \<in> set cs. 0 \<le> call_delay c"
    and q: "inv q" "pending q = []" "room (length cs + n * K) q"
  shows "\<exists>tr w' s'. simulate ins deq canc look handle q cs n w = Inr (tr, w', s') \<and>
     spec_simulate handle cs n w = Inr (tr, w', abs_sched pending s') \<and>
     sorted (map ev_time tr) \<and> length tr \<le> n \<and> (length tr < n \<longrightarrow> sc_halted s' \<or> pending (sc_q s') = [])"
proof -
  have g: "good (sched_init q)" using q by (simp add: good_def sched_init_def)
  have "room (length cs + n * K) (sc_q (sched_init q))" using q(3) by (simp add: sched_init_def)
  from calls_refine [OF g this cs] obtain s1 where
    s1: "do_calls ins canc look cs (sched_init q) = Inr s1" "good s1" "room (n * K) (sc_q s1)"
      "do_calls spec_ins spec_canc spec_look cs (abs_sched pending (sched_init q)) = Inr (abs_sched pending s1)" by blast
  have "abs_sched pending (sched_init q) = sched_init []" using q(2) by (simp add: abs_sched_def sched_init_def)
  with run_refines [OF wb s1(2,3), of w] s1(1,4) show ?thesis unfolding simulate_def by auto
qed

end

section \<open>The list scheduler is an event queue\<close>

definition ls_inv :: "event list \<Rightarrow> bool" where
  "ls_inv q \<longleftrightarrow> sorted (map ev_key q) \<and> distinct (map ev_uid q) \<and> (\<forall>e \<in> set q. 0 < ev_uid e)"

text \<open>A newer event goes behind the events of the same time.\<close>

lemma ls_insert_insort:
  "\<forall>x \<in> set q. ev_uid x < ev_uid e \<Longrightarrow> ls_insert e q = insort_key ev_key e q"
proof (induction q)
  case (Cons p ps)
  then have "ev_key e \<le> ev_key p \<longleftrightarrow> ev_time e < ev_time p" by (auto simp: ev_key_def)
  with Cons show ?case by simp
qed simp

lemma ls_unlink_eq: "e \<in> set q \<Longrightarrow> ls_unlink e q = Inr (remove1 e q)"
  by (induction q) auto

lemma ls_lookup_find: "ls_lookup u q = find (\<lambda>e. ev_uid e = u) q"
  by (induction q) auto

lemma ls_inv_insort:
  "ls_inv q \<Longrightarrow> 0 < ev_uid e \<Longrightarrow> \<forall>x \<in> set q. ev_uid x < ev_uid e \<Longrightarrow> ls_inv (insort_key ev_key e q)"
proof -
  assume a: "ls_inv q" "0 < ev_uid e" "\<forall>x \<in> set q. ev_uid x < ev_uid e"
  have "distinct (map ev_uid (insort_key ev_key e q)) \<longleftrightarrow> distinct (map ev_uid (e # q))"
    by (rule mset_eq_imp_distinct_iff) simp
  with a show ?thesis by (auto simp: ls_inv_def sorted_insort_key set_insort_key)
qed

lemma ls_inv_remove1: "ls_inv q \<Longrightarrow> ls_inv (remove1 e q)"
  by (auto simp: ls_inv_def sorted_map_remove1 distinct_map distinct_remove1 inj_on_def
      dest: set_remove1_subset [THEN subsetD])

interpretation lsq: event_queue "\<lambda>e q. Inr (ls_insert e q)" "\<lambda>q. Inr (ls_deque q)" ls_cancel ls_lookup
  "\<lambda>q. Inr (ls_head q, q)" "\<lambda>q. q" ls_inv "\<lambda>_ _. True"
proof (unfold_locales, goal_cases)
  case (2 s n e)
  then show ?case by (simp add: ls_insert_insort ls_inv_insort)
next
  case (5 s e)
  then show ?case
    by (auto simp: ls_cancel_def ls_unlink_eq ls_inv_remove1, auto simp: ls_inv_def)
qed (auto simp: ls_inv_def ls_deque_def ls_lookup_find ls_head_def split: list.splits)

text \<open>A small world for the examples: it counts events, schedules three rounds of events and cancels one.\<close>

definition demo_handle :: "event \<Rightarrow> time \<Rightarrow> nat \<Rightarrow> nat \<times> sched_call list" where
  "demo_handle e t w = (w + 1, if w < 3 then [Schedule w 1, At 7 2, CancelUid 2] else [])"

lemma demo_handle_ok: "well_behaved 3 demo_handle"
  by (simp add: well_behaved_def demo_handle_def)


lemma ms_insert_insort:
  assumes "ls_inv q" "\<forall>x \<in> set q. ev_uid x < ev_uid e"
  shows "ms_insert e q = insort_key ev_key e q"
  using assms
proof (induction q)
  case (Cons p ps)
  then have "ms_insert e ps = insort_key ev_key e ps" by (simp add: ls_inv_def)
  moreover have "event_less e p \<longleftrightarrow> ev_time e < ev_time p" "event_less p e \<longleftrightarrow> ev_time p \<le> ev_time e"
    "ev_key e \<le> ev_key p \<longleftrightarrow> ev_time e < ev_time p"
    using Cons.prems(2) by (auto simp: event_less_def ev_key_def)
  ultimately show ?case by auto
qed simp

end
