(* ===== verification/CalendarSched.thy ===== *)
theory CalendarSched
  imports EventQueue
begin

text \<open>
  The \<open>CalendarScheduler\<close> of \<open>common/scheduler.cc\<close>, the scheduler that \<open>tcl/lib/ns-lib.tcl\<close> selects. Events are hashed by
  time into buckets; a bucket is a circular doubly linked list, here the list of its events
  starting at \<open>list_\<close>, so that \<open>head->prev_\<close> is its last element. The calendar doubles or halves the number of buckets,
  and, unless \<open>adjust_new_width_interval_\<close> is 0, adapts the width of a bucket to statistics it keeps.
  An index outside of the bucket array and a failed \<open>assert\<close> are errors of the model.
\<close>

section \<open>State\<close>

record bucket =
  bk_list :: "event list"
  bk_count :: int

record calendar =
  cal_min_bin_width :: real
  cal_adjust :: nat
  cal_time_to_newwidth :: nat
  cal_head_search :: nat
  cal_insert_search :: nat
  cal_round_num :: int
  cal_gap_num :: int
  cal_last_time :: time
  cal_avg_gap :: real
  cal_width :: real
  cal_diff0 :: real
  cal_diff1 :: real
  cal_diff2 :: real
  cal_stat_qsize :: int
  cal_nbuckets :: int
  cal_lastbucket :: int
  cal_top :: int
  cal_bot :: int
  cal_buckets :: "bucket list"
  cal_qsize :: int
  cal_clock :: time

text \<open>The conversion of a \<open>double\<close> to \<open>int\<close> and \<open>fmod\<close> of the C library truncate towards zero.\<close>

definition c_int :: "real \<Rightarrow> int" where
  "c_int x = (if 0 \<le> x then \<lfloor>x\<rfloor> else \<lceil>x\<rceil>)"

definition fmod :: "real \<Rightarrow> real \<Rightarrow> real" where
  "fmod x y = x - y * of_int (c_int (x / y))"

definition CALENDAR_HASH :: "time \<Rightarrow> calendar \<Rightarrow> int" where
  "CALENDAR_HASH t c = c_int (fmod (t / cal_width c) (of_int (cal_nbuckets c)))"

definition get_bucket :: "int \<Rightarrow> calendar \<Rightarrow> bucket res" where
  "get_bucket i c =
     (if 0 \<le> i \<and> nat i < length (cal_buckets c) then Inr (cal_buckets c ! nat i) else Inl OutOfBounds)"

definition put_bucket :: "int \<Rightarrow> bucket \<Rightarrow> calendar \<Rightarrow> calendar" where
  "put_bucket i b c = c\<lparr>cal_buckets := (cal_buckets c)[nat i := b]\<rparr>"

definition c_assert :: "bool \<Rightarrow> unit res" where
  "c_assert b = (if b then Inr () else Inl Abort)"

section \<open>Buckets\<close>

text \<open>The position in a non-empty bucket, looked for from its end: the number of steps, whether the time is new
  there, and the new list. The loop ends at the latest at the head, whose time is not later.\<close>

fun insert_after :: "event \<Rightarrow> event list \<Rightarrow> nat \<times> bool \<times> event list" where
  "insert_after e [] = (0, True, [e])"
| "insert_after e (a # as) =
     (if ev_time e < ev_time a
      then (case insert_after e as of (n, u, r) \<Rightarrow> (Suc n, u, a # r))
      else (0, ev_time a < ev_time e, e # a # as))"

fun insert_before :: "event \<Rightarrow> event list \<Rightarrow> event list" where
  "insert_before e [] = [e]"
| "insert_before e (b # bs) = (if ev_time b < ev_time e then b # insert_before e bs else e # b # bs)"

text \<open>The element that follows in the circular list.\<close>

fun next_in :: "event \<Rightarrow> event \<Rightarrow> event list \<Rightarrow> event option" where
  "next_in h e [] = None"
| "next_in h e (x # xs) =
     (if x = e then Some (case xs of [] \<Rightarrow> h | y # _ \<Rightarrow> y) else next_in h e xs)"

definition ev_next :: "event \<Rightarrow> event list \<Rightarrow> event option" where
  "ev_next e xs = next_in (hd xs) e xs"

definition ev_prev :: "event \<Rightarrow> event list \<Rightarrow> event option" where
  "ev_prev e xs = ev_next e (rev xs)"

section \<open>Operations\<close>

definition reinit :: "int \<Rightarrow> real \<Rightarrow> time \<Rightarrow> calendar \<Rightarrow> calendar" where
  "reinit nbuck bwidth start c =
     (let c1 = c\<lparr>cal_buckets := replicate (nat nbuck) \<lparr>bk_list = [], bk_count = 0\<rparr>,
                 cal_width := bwidth, cal_nbuckets := nbuck, cal_qsize := 0, cal_stat_qsize := 0\<rparr>
      in c1\<lparr>cal_lastbucket := CALENDAR_HASH start c1,
            cal_diff0 := bwidth * of_int nbuck / 2,
            cal_diff1 := bwidth * of_int nbuck / 2 + bwidth,
            cal_diff2 := bwidth * of_int nbuck,
            cal_bot := nbuck div 2 - 2,
            cal_top := nbuck * 2\<rparr>)"

text \<open>The constructor, with the bound variables given; without adjustment the statistics are not initialised
  by the code, and not used.\<close>

definition cal_init :: "nat \<Rightarrow> real \<Rightarrow> calendar" where
  "cal_init adj minw =
     reinit 4 1 0 \<lparr>cal_min_bin_width = minw, cal_adjust = adj, cal_time_to_newwidth = adj,
       cal_head_search = 0, cal_insert_search = 0, cal_round_num = 0, cal_gap_num = 0,
       cal_last_time = -2, cal_avg_gap = -2, cal_width = 1, cal_diff0 = 0, cal_diff1 = 0, cal_diff2 = 0,
       cal_stat_qsize = 0, cal_nbuckets = 4, cal_lastbucket = 0, cal_top = 0, cal_bot = 0,
       cal_buckets = [], cal_qsize = 0, cal_clock = 0\<rparr>"

definition insert2 :: "event \<Rightarrow> calendar \<Rightarrow> calendar res" where
  "insert2 e c =
     (let i = CALENDAR_HASH (ev_time e) c in
      res_bind (get_bucket i c) (\<lambda>b.
        let xs = bk_list b; qs = cal_qsize c + 1 in
        if xs = [] then
          Inr ((put_bucket i \<lparr>bk_list = [e], bk_count = bk_count b + 1\<rparr> c)
            \<lparr>cal_stat_qsize := cal_stat_qsize c + 1, cal_qsize := qs\<rparr>)
        else
          let ys = (if ev_time (last xs) < ev_time e then xs @ [e] else insert_before e xs);
              nxt = (case ev_next e ys of None \<Rightarrow> e | Some x \<Rightarrow> x);
              u = (if e \<noteq> nxt \<and> ev_time nxt \<noteq> ev_time e then 1 else 0)
          in Inr ((put_bucket i \<lparr>bk_list = ys, bk_count = bk_count b + u\<rparr> c)
               \<lparr>cal_stat_qsize := cal_stat_qsize c + u, cal_qsize := qs\<rparr>)))"

fun insert2_all :: "event list \<Rightarrow> calendar \<Rightarrow> calendar res" where
  "insert2_all [] c = Inr c"
| "insert2_all (e # es) c = res_bind (insert2 e c) (insert2_all es)"

text \<open>The index of the fullest bucket.\<close>

fun max_bucket_loop :: "calendar \<Rightarrow> nat list \<Rightarrow> nat \<Rightarrow> nat" where
  "max_bucket_loop c [] m = m"
| "max_bucket_loop c (i # is) m =
     max_bucket_loop c is (if bk_count (cal_buckets c ! i) > bk_count (cal_buckets c ! m) then i else m)"

definition max_bucket :: "calendar \<Rightarrow> nat" where
  "max_bucket c = max_bucket_loop c [1..<length (cal_buckets c)] 0"

definition newwidth :: "int \<Rightarrow> calendar \<Rightarrow> (real \<times> calendar) res" where
  "newwidth newsize c =
     (let c1 = (if cal_adjust c \<noteq> 0 then c\<lparr>cal_time_to_newwidth := cal_adjust c\<rparr> else c) in
      if cal_adjust c \<noteq> 0 \<and> cal_avg_gap c > 0 then Inr (cal_avg_gap c * 4, c1)
      else
        let b = cal_buckets c ! max_bucket c; nsamples = bk_count b in
        if nsamples \<le> 4 then Inr (cal_width c, c1)
        else
          let nw = ev_time (last (bk_list b)) - ev_time (hd (bk_list b)) in
          res_bind (c_assert (nw > 0)) (\<lambda>_.
            Inr (nw / of_int (if newsize < nsamples then newsize else nsamples) * 4, c1)))"

text \<open>The part of \<open>resize\<close> that moves the events to a new array of buckets.\<close>

definition rebucket :: "int \<Rightarrow> real \<Rightarrow> time \<Rightarrow> calendar \<Rightarrow> calendar res" where
  "rebucket newsize bwidth start c =
     res_bind (insert2_all (concat (map (\<lambda>b. rev (bk_list b)) (cal_buckets c))) (reinit newsize bwidth start c)) (\<lambda>c1.
       Inr (c1\<lparr>cal_head_search := 0, cal_insert_search := 0, cal_round_num := 0\<rparr>))"

definition resize :: "int \<Rightarrow> time \<Rightarrow> calendar \<Rightarrow> calendar res" where
  "resize newsize start c =
     (if newsize = cal_nbuckets c then
        let b0 = (if cal_head_search c \<noteq> 0 then real (cal_head_search c) else 1);
            b1 = (if cal_insert_search c \<noteq> 0 then b0 / real (cal_insert_search c) else b0);
            bwidth = sqrt b1 * cal_width c
        in if bwidth < cal_min_bin_width c then
             if cal_time_to_newwidth c > 0 then
               Inr (c\<lparr>cal_time_to_newwidth := cal_time_to_newwidth c - 1, cal_head_search := 0,
                      cal_insert_search := 0, cal_round_num := 0\<rparr>)
             else res_bind (newwidth newsize c) (\<lambda>(w, c1). rebucket newsize w start c1)
           else rebucket newsize bwidth start c
      else
        res_bind (newwidth newsize c) (\<lambda>(w, c1).
          rebucket (if newsize < 4 then 4 else newsize) w start c1))"

text \<open>The new bucket of an insertion, with the increments of \<open>stat_qsize_\<close> and \<open>insert_search_\<close>.\<close>

definition bucket_insert :: "event \<Rightarrow> bucket \<Rightarrow> bucket \<times> int \<times> nat" where
  "bucket_insert e b =
     (let xs = bk_list b in
      if xs = [] then (\<lparr>bk_list = [e], bk_count = bk_count b + 1\<rparr>, 1, 0)
      else if ev_time e < ev_time (hd xs) then (\<lparr>bk_list = e # xs, bk_count = bk_count b + 1\<rparr>, 1, 1)
      else (case insert_after e (rev xs) of
        (n, u, r) \<Rightarrow> (\<lparr>bk_list = rev r, bk_count = bk_count b + (if u then 1 else 0)\<rparr>, if u then 1 else 0, Suc n)))"

definition cal_insert :: "event \<Rightarrow> calendar \<Rightarrow> calendar res" where
  "cal_insert e c =
     (let newtime = ev_time e;
          i = CALENDAR_HASH newtime c;
          c1 = (if cal_clock c > newtime then c\<lparr>cal_clock := newtime, cal_lastbucket := i\<rparr> else c)
      in res_bind (get_bucket i c1) (\<lambda>b.
           case bucket_insert e b of (b1, u, n) \<Rightarrow>
             let c2 = (put_bucket i b1 c1)\<lparr>cal_stat_qsize := cal_stat_qsize c1 + u,
                        cal_insert_search := cal_insert_search c1 + n, cal_qsize := cal_qsize c1 + 1\<rparr>
             in if cal_stat_qsize c2 > cal_top c2 then resize (cal_nbuckets c2 * 2) (cal_clock c2) c2
                else Inr c2))"

text \<open>\<open>CAL_DEQUEUE\<close>: either an event within the current year is found, or the earliest event so far is
  kept with its bucket.\<close>

record probe =
  pr_l :: int
  pr_min :: "event option"
  pr_i :: int
  pr_searched :: nat

definition CAL_DEQUEUE :: "real \<Rightarrow> calendar \<Rightarrow> probe \<Rightarrow> (event + probe) res" where
  "CAL_DEQUEUE diff c p =
     res_bind (get_bucket (pr_i p) c) (\<lambda>b.
       let p1 = p\<lparr>pr_searched := pr_searched p + 1\<rparr>;
           nxt = (\<lambda>q. q\<lparr>pr_i := (if pr_i q + 1 = cal_nbuckets c then 0 else pr_i q + 1)\<rparr>)
       in case bk_list b of
            [] \<Rightarrow> Inr (Inr (nxt p1))
          | e # _ \<Rightarrow>
              if ev_time e - cal_clock c < diff then Inr (Inl e)
              else if (case pr_min p of None \<Rightarrow> True | Some m \<Rightarrow> ev_time m > ev_time e)
              then Inr (Inr (nxt (p1\<lparr>pr_min := Some e, pr_l := pr_i p\<rparr>)))
              else Inr (Inr (nxt p1)))"

text \<open>The end of \<open>head\<close>: \<open>l\<close> is the bucket of the event \<open>e\<close>, and \<open>n\<close> buckets have been searched.\<close>

definition cal_found :: "int \<Rightarrow> event \<Rightarrow> nat \<Rightarrow> calendar \<Rightarrow> (event option \<times> calendar) res" where
  "cal_found l e n c =
     res_bind (c_assert (l \<noteq> -1)) (\<lambda>_.
       Inr (Some e, c\<lparr>cal_head_search := cal_head_search c + n, cal_lastbucket := l, cal_clock := ev_time e\<rparr>))"

text \<open>The last bucket is compared with the earliest event of the others.\<close>

definition cal_last :: "probe \<Rightarrow> calendar \<Rightarrow> (event option \<times> calendar) res" where
  "cal_last p c =
     res_bind (get_bucket (pr_i p) c) (\<lambda>b.
       case (pr_min p, bk_list b) of
         (Some m, []) \<Rightarrow> cal_found (pr_l p) m (pr_searched p) c
       | (Some m, e # _) \<Rightarrow>
           if ev_time m < ev_time e then cal_found (pr_l p) m (pr_searched p) c
           else cal_found (pr_i p) e (pr_searched p) c
       | (None, e # _) \<Rightarrow> cal_found (pr_i p) e (pr_searched p) c
       | (None, []) \<Rightarrow> Inl NullDeref)"

text \<open>The search with the year bound \<open>d\<close> of the step: the loop takes at most as many steps as there
  are buckets.\<close>

fun cal_scan :: "nat \<Rightarrow> int \<Rightarrow> calendar \<Rightarrow> probe \<Rightarrow> (event option \<times> calendar) res" where
  "cal_scan 0 dec c p = Inl (LogicError ''the loop does not end'')"
| "cal_scan (Suc n) dec c p =
     (if pr_i p = dec then cal_last p c
      else res_bind (CAL_DEQUEUE (cal_diff2 c) c p) (\<lambda>r. case r of
        Inl e \<Rightarrow> cal_found (pr_i p) e (pr_searched p + 1) c
      | Inr p1 \<Rightarrow> cal_scan n dec c p1))"

definition cal_head :: "calendar \<Rightarrow> (event option \<times> calendar) res" where
  "cal_head c =
     (if cal_qsize c = 0 then Inr (None, c)
      else
        let dec = (if cal_lastbucket c \<noteq> 0 then cal_lastbucket c - 1 else cal_nbuckets c - 1);
            p0 = \<lparr>pr_l = -1, pr_min = None, pr_i = cal_lastbucket c, pr_searched = 0\<rparr>
        in res_bind (CAL_DEQUEUE (cal_diff0 c) c p0) (\<lambda>r0. case r0 of
             Inl e \<Rightarrow> cal_found (pr_i p0) e 1 c
           | Inr p1 \<Rightarrow>
               res_bind (CAL_DEQUEUE (cal_diff1 c) c p1) (\<lambda>r1. case r1 of
                 Inl e \<Rightarrow> cal_found (pr_i p1) e 2 c
               | Inr p2 \<Rightarrow> cal_scan (length (cal_buckets c)) dec c p2)))"

text \<open>The statistics of \<open>deque\<close>, when the width is adapted.\<close>

definition cal_gap_stats :: "event \<Rightarrow> calendar \<Rightarrow> calendar res" where
  "cal_gap_stats e c =
     (if cal_adjust c = 0 then Inr c
      else if cal_last_time c < 0 then Inr (c\<lparr>cal_last_time := ev_time e\<rparr>)
      else
        let c1 = c\<lparr>cal_gap_num := cal_gap_num c + 1\<rparr> in
        if cal_gap_num c1 \<ge> cal_qsize c1 then
          let c2 = c1\<lparr>cal_avg_gap := (ev_time e - cal_last_time c1) / of_int (cal_gap_num c1),
                      cal_gap_num := 0, cal_last_time := ev_time e, cal_round_num := cal_round_num c1 + 1\<rparr>
          in if cal_round_num c2 > 20 \<and>
                (cal_head_search c2 > cal_insert_search c2 * 2 \<or> cal_insert_search c2 > cal_head_search c2 * 2)
             then res_bind (resize (cal_nbuckets c2) (cal_clock c2) c2) (\<lambda>c3. Inr (c3\<lparr>cal_round_num := 0\<rparr>))
             else if cal_round_num c2 > 100
             then Inr (c2\<lparr>cal_round_num := 0, cal_head_search := 0, cal_insert_search := 0\<rparr>)
             else Inr c2
        else Inr c1)"

text \<open>Unlinking \<open>e\<close>, the head of the bucket \<open>lastbucket_\<close>.\<close>

definition cal_unlink :: "event \<Rightarrow> calendar \<Rightarrow> calendar res" where
  "cal_unlink e c =
     (let l = cal_lastbucket c in
      res_bind (get_bucket l c) (\<lambda>b.
        case ev_next e (bk_list b) of
          None \<Rightarrow> Inl NullDeref
        | Some nxt \<Rightarrow>
            let u = (if nxt = e \<or> ev_time nxt \<noteq> ev_time e then 1 else 0)
            in Inr ((put_bucket l \<lparr>bk_list = remove1 e (bk_list b), bk_count = bk_count b - u\<rparr> c)
                 \<lparr>cal_stat_qsize := cal_stat_qsize c - u, cal_qsize := cal_qsize c - 1\<rparr>)))"

definition cal_deque :: "calendar \<Rightarrow> (event option \<times> calendar) res" where
  "cal_deque c =
     res_bind (cal_head c) (\<lambda>(eo, c1). case eo of
       None \<Rightarrow> Inr (None, c1)
     | Some e \<Rightarrow>
         res_bind (cal_gap_stats e c1) (\<lambda>c2.
           res_bind (cal_unlink e c2) (\<lambda>c3.
             if cal_stat_qsize c3 < cal_bot c3
             then res_bind (resize (cal_nbuckets c3 div 2) (cal_clock c3) c3) (\<lambda>c4. Inr (Some e, c4))
             else Inr (Some e, c3))))"

definition cal_cancel :: "event \<Rightarrow> calendar \<Rightarrow> (event \<times> calendar) res" where
  "cal_cancel e c =
     (if ev_uid e \<le> 0 then Inr (e, c)
      else
        let i = CALENDAR_HASH (ev_time e) c in
        res_bind (get_bucket i c) (\<lambda>b.
          case (ev_next e (bk_list b), ev_prev e (bk_list b)) of
            (Some nxt, Some prv) \<Rightarrow>
              let u = (if nxt = e \<or> (ev_time nxt \<noteq> ev_time e \<and> ev_time prv \<noteq> ev_time e) then 1 else 0);
                  b1 = \<lparr>bk_list = remove1 e (bk_list b), bk_count = bk_count b - u\<rparr>
              in res_bind (c_assert (u = 0 \<or> (cal_stat_qsize c - u \<ge> 0 \<and> bk_count b1 \<ge> 0))) (\<lambda>_.
                 res_bind (c_assert (nxt = e \<longrightarrow> hd (bk_list b) = e)) (\<lambda>_.
                 res_bind (c_assert (bk_count b1 = 0 \<longrightarrow> bk_list b1 = [])) (\<lambda>_.
                   Inr (negate_uid e, (put_bucket i b1 c)
                     \<lparr>cal_stat_qsize := cal_stat_qsize c - u, cal_qsize := cal_qsize c - 1\<rparr>))))
          | _ \<Rightarrow> Inl NullDeref))"

fun cal_lookup_loop :: "int \<Rightarrow> bucket list \<Rightarrow> event option" where
  "cal_lookup_loop uid [] = None"
| "cal_lookup_loop uid (b # bs) =
     (case ls_lookup uid (bk_list b) of Some p \<Rightarrow> Some p | None \<Rightarrow> cal_lookup_loop uid bs)"

definition cal_lookup :: "int \<Rightarrow> calendar \<Rightarrow> event option" where
  "cal_lookup uid c = cal_lookup_loop uid (cal_buckets c)"

section \<open>Invariant\<close>

definition cal_events :: "calendar \<Rightarrow> event list" where
  "cal_events c = concat (map bk_list (cal_buckets c))"

definition ntimes :: "event list \<Rightarrow> int" where
  "ntimes xs = int (card (ev_time ` set xs))"

definition bucket_ok :: "calendar \<Rightarrow> int \<Rightarrow> bucket \<Rightarrow> bool" where
  "bucket_ok c i b \<longleftrightarrow> sorted (map ev_key (bk_list b)) \<and> bk_count b = ntimes (bk_list b) \<and>
     (\<forall>e \<in> set (bk_list b). 0 \<le> ev_time e \<and> CALENDAR_HASH (ev_time e) c = i)"

definition cal_core :: "calendar \<Rightarrow> bool" where
  "cal_core c \<longleftrightarrow> 4 \<le> cal_nbuckets c \<and> length (cal_buckets c) = nat (cal_nbuckets c) \<and> 0 < cal_width c \<and>
     cal_diff0 c = cal_width c * of_int (cal_nbuckets c) / 2 \<and>
     cal_diff1 c = cal_width c * of_int (cal_nbuckets c) / 2 + cal_width c \<and>
     cal_diff2 c = cal_width c * of_int (cal_nbuckets c) \<and>
     (\<forall>i < length (cal_buckets c). bucket_ok c (int i) (cal_buckets c ! i)) \<and>
     distinct (map ev_uid (cal_events c)) \<and> (\<forall>e \<in> set (cal_events c). 0 < ev_uid e) \<and>
     cal_qsize c = int (length (cal_events c)) \<and>
     cal_stat_qsize c = sum_list (map bk_count (cal_buckets c))"

definition cal_inv :: "calendar \<Rightarrow> bool" where
  "cal_inv c \<longleftrightarrow> cal_core c \<and> 0 \<le> cal_clock c \<and> cal_lastbucket c = CALENDAR_HASH (cal_clock c) c \<and>
     (\<forall>e \<in> set (cal_events c). cal_clock c \<le> ev_time e)"

definition cal_pending :: "calendar \<Rightarrow> event list" where
  "cal_pending c = sort_key ev_key (cal_events c)"

lemma hash_eq:
  assumes "0 \<le> t" "0 < cal_width c" "0 < cal_nbuckets c"
  shows "CALENDAR_HASH t c = \<lfloor>t / cal_width c\<rfloor> mod cal_nbuckets c"
proof -
  let ?x = "t / cal_width c" and ?n = "cal_nbuckets c"
  have x: "0 \<le> ?x" using assms by simp
  have "fmod ?x (of_int ?n) = ?x - of_int (?n * (\<lfloor>?x\<rfloor> div ?n))"
  proof -
    have "\<lfloor>?x / of_int ?n\<rfloor> = \<lfloor>?x\<rfloor> div ?n" using assms by (intro floor_divide_real_eq_div) simp
    moreover have "0 \<le> ?x / of_int ?n" using x assms by simp
    ultimately show ?thesis unfolding fmod_def c_int_def by simp
  qed
  moreover have fl: "\<lfloor>?x - of_int (?n * (\<lfloor>?x\<rfloor> div ?n))\<rfloor> = \<lfloor>?x\<rfloor> mod ?n"
    by (metis floor_diff_of_int minus_mult_div_eq_mod)
  moreover have "0 \<le> \<lfloor>?x\<rfloor> mod ?n" using assms by simp
  ultimately show ?thesis unfolding CALENDAR_HASH_def c_int_def
    by (metis le_floor_iff of_int_0)
qed

lemma hash_cong:
  "cal_width c = cal_width c' \<Longrightarrow> cal_nbuckets c = cal_nbuckets c' \<Longrightarrow> CALENDAR_HASH t c = CALENDAR_HASH t c'"
  by (simp add: CALENDAR_HASH_def)

lemma bucket_ok_cong:
  "cal_width c = cal_width c' \<Longrightarrow> cal_nbuckets c = cal_nbuckets c' \<Longrightarrow> bucket_ok c i b = bucket_ok c' i b"
  using hash_cong [of c c'] by (simp add: bucket_ok_def)

lemma hash_bounds:
  "cal_core c \<Longrightarrow> 0 \<le> t \<Longrightarrow> 0 \<le> CALENDAR_HASH t c \<and> nat (CALENDAR_HASH t c) < length (cal_buckets c)"
  using hash_eq [of t c] by (auto simp: cal_core_def nat_less_iff)

lemma events_bucket:
  assumes "cal_core c" "e \<in> set (cal_events c)"
  shows "e \<in> set (bk_list (cal_buckets c ! nat (CALENDAR_HASH (ev_time e) c)))" "0 \<le> ev_time e"
proof -
  obtain i where i: "i < length (cal_buckets c)" "e \<in> set (bk_list (cal_buckets c ! i))"
    using assms(2) by (auto simp: cal_events_def set_conv_nth [of "cal_buckets c"])
  with assms(1) have "CALENDAR_HASH (ev_time e) c = int i" "0 \<le> ev_time e" by (auto simp: cal_core_def bucket_ok_def)
  with i show "e \<in> set (bk_list (cal_buckets c ! nat (CALENDAR_HASH (ev_time e) c)))" "0 \<le> ev_time e" by simp_all
qed

lemma core_bucket: "cal_core c \<Longrightarrow> 0 \<le> i \<Longrightarrow> nat i < length (cal_buckets c) \<Longrightarrow> bucket_ok c i (cal_buckets c ! nat i)"
  unfolding cal_core_def by (metis int_nat_eq)

lemma bucket_events: "i < length (cal_buckets c) \<Longrightarrow> set (bk_list (cal_buckets c ! i)) \<subseteq> set (cal_events c)"
  by (auto simp: cal_events_def intro: nth_mem)

text \<open>Changing one bucket and the counters.\<close>

lemma core_update:
  assumes c: "cal_core c" and i: "i < length (cal_buckets c)" and ok: "bucket_ok c (int i) b"
    and c': "cal_buckets c' = (cal_buckets c)[i := b]" "cal_width c' = cal_width c" "cal_nbuckets c' = cal_nbuckets c"
      "cal_diff0 c' = cal_diff0 c" "cal_diff1 c' = cal_diff1 c" "cal_diff2 c' = cal_diff2 c"
      "cal_stat_qsize c' = cal_stat_qsize c + bk_count b - bk_count (cal_buckets c ! i)"
      "cal_qsize c' = cal_qsize c + int (length (bk_list b)) - int (length (bk_list (cal_buckets c ! i)))"
    and d: "distinct (map ev_uid (cal_events c'))" "\<forall>e \<in> set (cal_events c'). 0 < ev_uid e"
  shows "cal_core c'"
proof -
  have "mset (cal_events c') + mset (bk_list (cal_buckets c ! i)) = mset (cal_events c) + mset (bk_list b)"
    using mset_concat_update [OF i, of bk_list b] by (simp add: cal_events_def c')
  from arg_cong [OF this, of size]
  have "int (length (cal_events c')) = int (length (cal_events c)) + int (length (bk_list b)) - int (length (bk_list (cal_buckets c ! i)))"
    by simp
  moreover have "bucket_ok c' (int j) (cal_buckets c' ! j)" if "j < length (cal_buckets c')" for j
    using that c ok bucket_ok_cong [of c' c] by (cases "j = i") (simp_all add: c' cal_core_def)
  ultimately show ?thesis
    using c d i by (simp add: cal_core_def c' sum_list_update_int)
qed

section \<open>Insertion\<close>

lemma ev_next_split: "e \<notin> set as \<Longrightarrow> ev_next e (as @ e # bs) = Some (hd (bs @ as @ [e]))"
proof -
  assume e: "e \<notin> set as"
  have "next_in h e (as @ e # bs) = Some (case bs of [] \<Rightarrow> h | y # _ \<Rightarrow> y)" for h
    using e by (induction as) auto
  then show ?thesis by (cases bs; cases as) (simp_all add: ev_next_def)
qed

lemma ev_prev_split: "e \<notin> set bs \<Longrightarrow> ev_prev e (as @ e # bs) = Some (last (e # bs @ as))"
  using ev_next_split [of e "rev bs" "rev as"] by (simp add: ev_prev_def hd_append hd_rev)

lemma insort_split:
  "sorted (map f xs) \<Longrightarrow> \<exists>as bs. insort_key f e xs = as @ e # bs \<and> xs = as @ bs \<and> (\<forall>x \<in> set as. f x < f e) \<and> (\<forall>x \<in> set bs. f e \<le> f x)"
proof (induction xs)
  case (Cons x xs)
  show ?case
  proof (cases "f e \<le> f x")
    case True
    with Cons.prems show ?thesis by (intro exI [of _ "[]"] exI [of _ "x # xs"]) auto
  next
    case False
    from Cons obtain as bs where "insort_key f e xs = as @ e # bs" "xs = as @ bs" "\<forall>x \<in> set as. f x < f e"
      "\<forall>x \<in> set bs. f e \<le> f x" by auto
    with False show ?thesis by (intro exI [of _ "x # as"] exI [of _ bs]) auto
  qed
qed simp

lemma insort_key_snoc: "f e < f a \<Longrightarrow> insort_key f e (xs @ [a]) = insort_key f e xs @ [a]"
  by (induction xs) auto

lemma insort_key_last: "\<forall>x \<in> set xs. f x < f e \<Longrightarrow> insort_key f e xs = xs @ [e]"
  by (induction xs) auto

lemma ntimes_insort:
  "ntimes (insort_key f e xs) = ntimes xs + (if ev_time e \<in> ev_time ` set xs then 0 else 1)"
  by (simp add: ntimes_def set_insort_key insert_absorb)

lemma insert_after_ok:
  assumes "sorted (map ev_key xs)" "\<forall>x \<in> set xs. ev_uid x < ev_uid e" "insert_after e (rev xs) = (n, u, r)"
  shows "rev r = insort_key ev_key e xs" "u \<longleftrightarrow> ev_time e \<notin> ev_time ` set xs"
proof -
  have "rev r = insort_key ev_key e xs \<and> (u \<longleftrightarrow> ev_time e \<notin> ev_time ` set xs)"
    using assms
  proof (induction xs arbitrary: n u r rule: rev_induct)
    case (snoc a xs)
    have s: "sorted (map ev_key xs)" "\<forall>x \<in> set xs. ev_key x \<le> ev_key a" using snoc.prems(1) by (auto simp: sorted_append)
    have t: "\<forall>x \<in> set xs. ev_time x \<le> ev_time a" using s(2) by (auto simp: ev_key_def)
    show ?case
    proof (cases "ev_time e < ev_time a")
      case True
      obtain n1 u1 r1 where r1: "insert_after e (rev xs) = (n1, u1, r1)" by (cases "insert_after e (rev xs)")
      with True snoc.prems(3) have "r = a # r1" "u = u1" by auto
      moreover have "ev_key e < ev_key a" using True by (simp add: ev_key_def)
      ultimately show ?thesis using snoc.IH [OF s(1) _ r1] snoc.prems(2) True by (auto simp: insort_key_snoc)
    next
      case False
      have "ev_key x < ev_key e" if "x \<in> set (xs @ [a])" for x
      proof -
        have "ev_time x \<le> ev_time e" using that t False by force
        moreover have "ev_uid x < ev_uid e" using snoc.prems(2) that by blast
        ultimately show ?thesis by (auto simp: ev_key_def)
      qed
      then have "insort_key ev_key e (xs @ [a]) = (xs @ [a]) @ [e]" by (intro insort_key_last) blast
      moreover have "r = e # a # rev xs" "u = (ev_time a < ev_time e)" using False snoc.prems(3) by auto
      moreover have "ev_time a < ev_time e \<longleftrightarrow> ev_time e \<notin> ev_time ` set (xs @ [a])" using False t by fastforce
      ultimately show ?thesis by simp
    qed
  qed simp
  then show "rev r = insort_key ev_key e xs" "u \<longleftrightarrow> ev_time e \<notin> ev_time ` set xs" by auto
qed

lemma bucket_insert_ok:
  assumes "sorted (map ev_key (bk_list b))" "\<forall>x \<in> set (bk_list b). ev_uid x < ev_uid e" "bk_count b = ntimes (bk_list b)"
    "bucket_insert e b = (b1, u, n)"
  shows "b1 = \<lparr>bk_list = insort_key ev_key e (bk_list b), bk_count = ntimes (insort_key ev_key e (bk_list b))\<rparr>"
    "u = bk_count b1 - bk_count b"
proof -
  have "b1 = \<lparr>bk_list = insort_key ev_key e (bk_list b), bk_count = ntimes (insort_key ev_key e (bk_list b))\<rparr> \<and>
    u = bk_count b1 - bk_count b"
  proof (cases "bk_list b")
    case Nil
    with assms show ?thesis by (auto simp: bucket_insert_def ntimes_def)
  next
    case (Cons h hs)
    show ?thesis
    proof (cases "ev_time e < ev_time h")
      case True
      have "\<forall>x \<in> set (h # hs). ev_time h \<le> ev_time x" using assms(1) Cons by (auto simp: ev_key_def)
      with True have "ev_time e \<notin> ev_time ` set (h # hs)" by force
      moreover have "insort_key ev_key e (h # hs) = e # h # hs" using True by (simp add: ev_key_def)
      ultimately show ?thesis using assms(3,4) True Cons ntimes_insort [of ev_key e "h # hs"]
        by (simp add: bucket_insert_def Let_def split: prod.splits) auto
    next
      case False
      obtain m v r where r: "insert_after e (rev (bk_list b)) = (m, v, r)" by (cases "insert_after e (rev (bk_list b))")
      note o = insert_after_ok [OF assms(1,2) r]
      have "b1 = \<lparr>bk_list = rev r, bk_count = bk_count b + (if v then 1 else 0)\<rparr>" "u = (if v then 1 else 0)"
        using assms(4) False Cons r by (auto simp: bucket_insert_def Let_def)
      then show ?thesis using o assms(3) by (simp add: ntimes_insort)
    qed
  qed
  then show "b1 = \<lparr>bk_list = insort_key ev_key e (bk_list b), bk_count = ntimes (insort_key ev_key e (bk_list b))\<rparr>"
    "u = bk_count b1 - bk_count b" by auto
qed

text \<open>An event put into its place in its bucket.\<close>

definition bucket_add :: "event \<Rightarrow> bucket \<Rightarrow> bucket" where
  "bucket_add e b = \<lparr>bk_list = insort_key ev_key e (bk_list b), bk_count = ntimes (insort_key ev_key e (bk_list b))\<rparr>"

lemma core_add:
  assumes c: "cal_core c" and e: "0 \<le> ev_time e" "0 < ev_uid e" "ev_uid e \<notin> ev_uid ` set (cal_events c)"
    and i: "i = CALENDAR_HASH (ev_time e) c" and b: "b = cal_buckets c ! nat i"
    and c': "cal_buckets c' = (cal_buckets c)[nat i := bucket_add e b]" "cal_width c' = cal_width c" "cal_nbuckets c' = cal_nbuckets c"
      "cal_diff0 c' = cal_diff0 c" "cal_diff1 c' = cal_diff1 c" "cal_diff2 c' = cal_diff2 c"
      "cal_stat_qsize c' = cal_stat_qsize c + bk_count (bucket_add e b) - bk_count b" "cal_qsize c' = cal_qsize c + 1"
  shows "cal_core c'" "mset (cal_events c') = add_mset e (mset (cal_events c))"
proof -
  have ib: "nat i < length (cal_buckets c)" "0 \<le> i" using hash_bounds [OF c e(1)] i by auto
  have "mset (cal_events c') + mset (bk_list b) = mset (cal_events c) + mset (insort_key ev_key e (bk_list b))"
    using mset_concat_update [OF ib(1), of bk_list "bucket_add e b"] by (simp add: cal_events_def c' b bucket_add_def)
  then show m: "mset (cal_events c') = add_mset e (mset (cal_events c))" by simp
  have "bucket_ok c (int (nat i)) b" using core_bucket [OF c ib(2,1)] ib b by simp
  then have "bucket_ok c (int (nat i)) (bucket_add e b)"
    using e(1) i ib by (simp add: bucket_ok_def bucket_add_def sorted_insort_key set_insort_key)
  moreover have "distinct (map ev_uid (cal_events c'))"
  proof -
    have "distinct (map ev_uid (cal_events c')) \<longleftrightarrow> distinct (map ev_uid (e # cal_events c))"
      by (rule mset_eq_imp_distinct_iff) (simp add: m)
    with c e show ?thesis by (simp add: cal_core_def)
  qed
  moreover have "\<forall>x \<in> set (cal_events c'). 0 < ev_uid x"
  proof -
    have "set (cal_events c') = insert e (set (cal_events c))" using arg_cong [OF m, of set_mset] by simp
    with c e show ?thesis by (simp add: cal_core_def)
  qed
  ultimately show "cal_core c'" using ib(1) c'
    by (intro core_update [OF c, of "nat i" "bucket_add e b"]) (simp_all add: b, simp add: bucket_add_def)
qed

section \<open>Moving the events to new buckets\<close>

text \<open>What the operations leave alone.\<close>

definition same_frame :: "calendar \<Rightarrow> calendar \<Rightarrow> bool" where
  "same_frame c c' \<longleftrightarrow> cal_width c' = cal_width c \<and> cal_nbuckets c' = cal_nbuckets c \<and>
     cal_lastbucket c' = cal_lastbucket c \<and> cal_clock c' = cal_clock c"

lemma same_frame_trans: "same_frame a b \<Longrightarrow> same_frame b c \<Longrightarrow> same_frame a c"
  by (simp add: same_frame_def)

lemma insert_before_insort:
  "\<forall>x \<in> set xs. ev_time x = ev_time e \<longrightarrow> ev_uid e < ev_uid x \<Longrightarrow> insert_before e xs = insort_key ev_key e xs"
proof (induction xs)
  case (Cons x xs)
  then have "ev_key e \<le> ev_key x \<longleftrightarrow> \<not> ev_time x < ev_time e" by (auto simp: ev_key_def)
  with Cons show ?case by auto
qed simp

lemma sorted_last_ge: "sorted (map f xs) \<Longrightarrow> x \<in> set xs \<Longrightarrow> f x \<le> f (last xs)"
  by (induction xs rule: rev_induct) (auto simp: sorted_append)

lemma insert2_place:
  assumes s: "sorted (map ev_key xs)" and ne: "xs \<noteq> []"
    and l: "\<forall>x \<in> set xs. ev_time x = ev_time e \<longrightarrow> ev_uid e < ev_uid x"
  shows "(if ev_time (last xs) < ev_time e then xs @ [e] else insert_before e xs) = insort_key ev_key e xs"
proof (cases "ev_time (last xs) < ev_time e")
  case True
  have "ev_key x < ev_key e" if "x \<in> set xs" for x
    using sorted_last_ge [OF s that] True by (auto simp: ev_key_def)
  with True show ?thesis by (simp add: insort_key_last)
qed (simp add: insert_before_insort [OF l])

lemma insert2_unique:
  assumes s: "sorted (map ev_key xs)" and ne: "xs \<noteq> []" and e: "e \<notin> set xs"
    and l: "\<forall>x \<in> set xs. ev_time x = ev_time e \<longrightarrow> ev_uid e < ev_uid x"
  shows "\<exists>nxt. ev_next e (insort_key ev_key e xs) = Some nxt \<and> nxt \<noteq> e \<and>
    (ev_time nxt \<noteq> ev_time e \<longleftrightarrow> ev_time e \<notin> ev_time ` set xs)"
proof -
  obtain as bs where i: "insort_key ev_key e xs = as @ e # bs" "xs = as @ bs" "\<forall>x \<in> set as. ev_key x < ev_key e"
    "\<forall>x \<in> set bs. ev_key e \<le> ev_key x" using insort_split [OF s, of e] by blast
  have as: "ev_time x < ev_time e" if "x \<in> set as" for x
  proof -
    have "ev_key x < ev_key e" "ev_time x = ev_time e \<longrightarrow> ev_uid e < ev_uid x" using i(2,3) l that by auto
    then show ?thesis by (auto simp: ev_key_def)
  qed
  have n: "ev_next e (insort_key ev_key e xs) = Some (hd (bs @ as))"
    using ev_next_split [of e as bs] e i(1,2) ne by (cases bs; cases as) auto
  have h: "hd (bs @ as) \<in> set xs" using i(2) ne by (metis append_is_Nil_conv hd_in_set set_append sup_commute)
  have "ev_time (hd (bs @ as)) \<noteq> ev_time e \<longleftrightarrow> ev_time e \<notin> ev_time ` set xs"
  proof (cases bs)
    case Nil
    have "ev_time x \<noteq> ev_time e" if "x \<in> set xs" for x using as [of x] that i(2) Nil by auto
    with h show ?thesis by (metis (no_types, lifting) image_iff)
  next
    case (Cons b bs')
    have "ev_time b \<le> ev_time x" if "x \<in> set bs" for x
      using s i(2) Cons that by (auto simp: sorted_append ev_key_def)
    moreover have "ev_time e \<le> ev_time b" using i(4) Cons by (auto simp: ev_key_def)
    ultimately show ?thesis using as i(2) Cons by fastforce
  qed
  with n h e show ?thesis by (metis)
qed

lemma insert2_ok:
  assumes c: "cal_core c" and e: "0 \<le> ev_time e" "0 < ev_uid e" "ev_uid e \<notin> ev_uid ` set (cal_events c)"
    and l: "\<forall>x \<in> set (cal_events c). ev_time x = ev_time e \<longrightarrow> ev_uid e < ev_uid x"
  shows "\<exists>c'. insert2 e c = Inr c' \<and> cal_core c' \<and> mset (cal_events c') = add_mset e (mset (cal_events c)) \<and> same_frame c c'"
proof -
  define i where "i = CALENDAR_HASH (ev_time e) c"
  define b where "b = cal_buckets c ! nat i"
  have ib: "0 \<le> i" "nat i < length (cal_buckets c)" using hash_bounds [OF c e(1)] i_def by auto
  have ok: "bucket_ok c i b" using core_bucket [OF c ib] by (simp add: b_def)
  have sub: "set (bk_list b) \<subseteq> set (cal_events c)" using bucket_events [OF ib(2)] by (simp add: b_def)
  let ?c = "(put_bucket i (bucket_add e b) c)\<lparr>cal_stat_qsize := cal_stat_qsize c + (bk_count (bucket_add e b) - bk_count b),
      cal_qsize := cal_qsize c + 1\<rparr>"
  have "insert2 e c = Inr ?c"
  proof (cases "bk_list b = []")
    case True
    then have "bk_count b = 0" using ok by (simp add: bucket_ok_def ntimes_def)
    with True ib show ?thesis
      by (simp add: insert2_def Let_def get_bucket_def bucket_add_def ntimes_def flip: i_def b_def)
  next
    case False
    have lb: "\<forall>x \<in> set (bk_list b). ev_time x = ev_time e \<longrightarrow> ev_uid e < ev_uid x" using l sub by blast
    have eb: "e \<notin> set (bk_list b)" using e(3) sub by blast
    have s: "sorted (map ev_key (bk_list b))" "bk_count b = ntimes (bk_list b)" using ok by (simp_all add: bucket_ok_def)
    obtain nxt where n: "ev_next e (insort_key ev_key e (bk_list b)) = Some nxt" "nxt \<noteq> e"
      "ev_time nxt \<noteq> ev_time e \<longleftrightarrow> ev_time e \<notin> ev_time ` set (bk_list b)"
      using insert2_unique [OF s(1) False eb lb] by blast
    have "(if e \<noteq> nxt \<and> ev_time nxt \<noteq> ev_time e then 1 else 0) = bk_count (bucket_add e b) - bk_count b"
      using n(2,3) s(2) by (simp add: bucket_add_def ntimes_insort)
    then show ?thesis using False ib n(1) insert2_place [OF s(1) False lb]
      by (simp add: insert2_def Let_def get_bucket_def flip: i_def b_def) (simp add: bucket_add_def)
  qed
  moreover have "cal_core ?c" "mset (cal_events ?c) = add_mset e (mset (cal_events c))"
    by (rule core_add [OF c e i_def b_def]; simp add: put_bucket_def)+
  ultimately show ?thesis by (simp add: same_frame_def put_bucket_def)
qed

lemma insert2_all_ok:
  "cal_core c \<Longrightarrow> \<forall>e \<in> set es. 0 \<le> ev_time e \<and> 0 < ev_uid e \<Longrightarrow>
   distinct (map ev_uid (es @ cal_events c)) \<Longrightarrow>
   sorted_wrt (\<lambda>a b. ev_time a = ev_time b \<longrightarrow> ev_uid b < ev_uid a) es \<Longrightarrow>
   \<forall>e \<in> set es. \<forall>x \<in> set (cal_events c). ev_time x = ev_time e \<longrightarrow> ev_uid e < ev_uid x \<Longrightarrow>
   \<exists>c'. insert2_all es c = Inr c' \<and> cal_core c' \<and> mset (cal_events c') = mset es + mset (cal_events c) \<and> same_frame c c'"
proof (induction es arbitrary: c)
  case (Cons e es)
  have "\<exists>c1. insert2 e c = Inr c1 \<and> cal_core c1 \<and> mset (cal_events c1) = add_mset e (mset (cal_events c)) \<and> same_frame c c1"
    using Cons.prems by (intro insert2_ok) auto
  then obtain c1 where c1: "insert2 e c = Inr c1" "cal_core c1" "mset (cal_events c1) = add_mset e (mset (cal_events c))"
    "same_frame c c1" by blast
  have s: "set (cal_events c1) = insert e (set (cal_events c))" using arg_cong [OF c1(3), of set_mset] by simp
  have "distinct (map ev_uid (es @ cal_events c1)) \<longleftrightarrow> distinct (map ev_uid ((e # es) @ cal_events c))"
    by (rule mset_eq_imp_distinct_iff) (simp add: c1(3))
  moreover have "\<forall>a \<in> set es. \<forall>x \<in> set (cal_events c1). ev_time x = ev_time a \<longrightarrow> ev_uid a < ev_uid x"
    using Cons.prems(4,5) unfolding s by auto
  ultimately have "\<exists>c'. insert2_all es c1 = Inr c' \<and> cal_core c' \<and> mset (cal_events c') = mset es + mset (cal_events c1) \<and>
      same_frame c1 c'"
    using Cons.prems c1(2) by (intro Cons.IH) auto
  then show ?case using c1 same_frame_trans by auto
qed (auto simp: same_frame_def)

lemma sorted_wrt_concat:
  "(\<forall>xs \<in> set xss. sorted_wrt P xs) \<Longrightarrow> sorted_wrt (\<lambda>xs ys. \<forall>x \<in> set xs. \<forall>y \<in> set ys. P x y) xss \<Longrightarrow>
   sorted_wrt P (concat xss)"
  by (induction xss) (auto simp: sorted_wrt_append)

lemma mset_nth_concat: "i < length bs \<Longrightarrow> mset (f (bs ! i)) \<subseteq># mset (concat (map f bs))"
proof (induction bs arbitrary: i)
  case (Cons b bs)
  show ?case
  proof (cases i)
    case (Suc j)
    with Cons have "mset (f (bs ! j)) \<subseteq># mset (concat (map f bs))" by simp
    with Suc show ?thesis by (simp add: subset_mset.add_increasing)
  qed simp
qed simp

lemma rev_uid_order:
  "sorted (map ev_key xs) \<Longrightarrow> distinct (map ev_uid xs) \<Longrightarrow>
   sorted_wrt (\<lambda>a b. ev_time a = ev_time b \<longrightarrow> ev_uid b < ev_uid a) (rev xs)"
proof (induction xs)
  case (Cons x xs)
  have "ev_uid x < ev_uid y" if "y \<in> set xs" "ev_time y = ev_time x" for y
  proof -
    have "ev_key x \<le> ev_key y" "ev_uid x \<noteq> ev_uid y" using Cons.prems that(1) by (auto simp: image_iff)
    with that(2) show ?thesis by (auto simp: ev_key_def)
  qed
  with Cons show ?case by (auto simp: sorted_wrt_append)
qed simp

lemma rebucket_order:
  assumes c: "cal_core c"
  shows "sorted_wrt (\<lambda>a b. ev_time a = ev_time b \<longrightarrow> ev_uid b < ev_uid a)
    (concat (map (\<lambda>b. rev (bk_list b)) (cal_buckets c)))"
proof (rule sorted_wrt_concat)
  have ok: "bucket_ok c (int i) (cal_buckets c ! i)" if "i < length (cal_buckets c)" for i
    using c that by (simp add: cal_core_def)
  have "sorted_wrt (\<lambda>a b. ev_time a = ev_time b \<longrightarrow> ev_uid b < ev_uid a) (rev (bk_list (cal_buckets c ! i)))"
    if i: "i < length (cal_buckets c)" for i
  proof -
    have s: "sorted (map ev_key (bk_list (cal_buckets c ! i)))" using ok [OF i] by (simp add: bucket_ok_def)
    have "mset (bk_list (cal_buckets c ! i)) \<subseteq># mset (cal_events c)"
      unfolding cal_events_def by (rule mset_nth_concat [OF i])
    then have "mset (map ev_uid (bk_list (cal_buckets c ! i))) \<subseteq># mset (map ev_uid (cal_events c))"
      by (simp add: image_mset_subseteq_mono)
    moreover have "distinct (map ev_uid (cal_events c))" using c by (simp add: cal_core_def)
    ultimately have d: "distinct (map ev_uid (bk_list (cal_buckets c ! i)))" by (rule distinct_mset_subseteq)
    show ?thesis by (rule rev_uid_order [OF s d])
  qed
  then show "\<forall>xs \<in> set (map (\<lambda>b. rev (bk_list b)) (cal_buckets c)).
      sorted_wrt (\<lambda>a b. ev_time a = ev_time b \<longrightarrow> ev_uid b < ev_uid a) xs"
    by (auto simp: in_set_conv_nth)
  show "sorted_wrt (\<lambda>xs ys. \<forall>x \<in> set xs. \<forall>y \<in> set ys. ev_time x = ev_time y \<longrightarrow> ev_uid y < ev_uid x)
      (map (\<lambda>b. rev (bk_list b)) (cal_buckets c))"
    unfolding sorted_wrt_iff_nth_less
  proof (intro allI impI ballI)
    fix i j x y
    assume ij: "i < j" "j < length (map (\<lambda>b. rev (bk_list b)) (cal_buckets c))"
      and x: "x \<in> set (map (\<lambda>b. rev (bk_list b)) (cal_buckets c) ! i)" and y: "y \<in> set (map (\<lambda>b. rev (bk_list b)) (cal_buckets c) ! j)"
      and t: "ev_time x = ev_time y"
    have "CALENDAR_HASH (ev_time x) c = int i" "CALENDAR_HASH (ev_time y) c = int j"
      using ok [of i] ok [of j] ij x y by (auto simp: bucket_ok_def)
    with ij(1) t show "ev_uid y < ev_uid x" by simp
  qed
qed

lemma reinit_core: "4 \<le> n \<Longrightarrow> 0 < w \<Longrightarrow> cal_core (reinit n w start c) \<and> cal_events (reinit n w start c) = []"
  by (auto simp: cal_core_def reinit_def Let_def cal_events_def bucket_ok_def ntimes_def sum_list_replicate
      map_replicate_const)

lemma rebucket_ok:
  assumes c: "cal_core c" and n: "4 \<le> n" and w: "0 < w" and t: "start = cal_clock c"
  shows "\<exists>c'. rebucket n w start c = Inr c' \<and> cal_core c' \<and> mset (cal_events c') = mset (cal_events c) \<and>
    cal_clock c' = cal_clock c \<and> cal_lastbucket c' = CALENDAR_HASH (cal_clock c) c'"
proof -
  let ?es = "concat (map (\<lambda>b. rev (bk_list b)) (cal_buckets c))"
  let ?r = "reinit n w start c"
  have r: "cal_core ?r" "cal_events ?r = []" using reinit_core [OF n w] by simp_all
  have m: "mset ?es = mset (cal_events c)"
    by (simp add: cal_events_def mset_concat comp_def)
  have set: "set ?es = set (cal_events c)" using m by (rule mset_eq_setD)
  have "distinct (map ev_uid ?es) \<longleftrightarrow> distinct (map ev_uid (cal_events c))"
    by (rule mset_eq_imp_distinct_iff) (simp add: m)
  then have d: "distinct (map ev_uid (?es @ cal_events ?r))" using c r(2) by (simp add: cal_core_def)
  have p: "\<forall>e \<in> set ?es. 0 \<le> ev_time e \<and> 0 < ev_uid e"
    unfolding set using c events_bucket(2) [OF c] by (simp add: cal_core_def)
  obtain c1 where c1: "insert2_all ?es ?r = Inr c1" "cal_core c1" "mset (cal_events c1) = mset ?es" "same_frame ?r c1"
    using insert2_all_ok [OF r(1) p d rebucket_order [OF c]] r(2) by auto
  let ?c = "c1\<lparr>cal_head_search := 0, cal_insert_search := 0, cal_round_num := 0\<rparr>"
  have "cal_core ?c" using c1(2) by (simp add: cal_core_def cal_events_def bucket_ok_def CALENDAR_HASH_def)
  moreover have "cal_lastbucket ?c = CALENDAR_HASH (cal_clock c) ?c"
    using c1(4) t by (simp add: same_frame_def reinit_def Let_def CALENDAR_HASH_def)
  moreover have "cal_clock ?c = cal_clock c" using c1(4) by (simp add: same_frame_def reinit_def Let_def)
  moreover have "mset (cal_events ?c) = mset (cal_events c)" using c1(3) m by (simp add: cal_events_def)
  ultimately show ?thesis using c1(1) by (simp add: rebucket_def)
qed

lemma max_bucket_less: "m < n \<Longrightarrow> \<forall>i \<in> set is. i < n \<Longrightarrow> max_bucket_loop c is m < n"
  by (induction "is" arbitrary: m) auto

text \<open>The width of a bucket stays positive: the assertion in \<open>newwidth\<close> holds as a bucket with more than four
  times spans an interval.\<close>

lemma newwidth_ok:
  assumes c: "cal_core c" and n: "0 < newsize"
  shows "\<exists>w c'. newwidth newsize c = Inr (w, c') \<and> 0 < w \<and> cal_core c' \<and> cal_events c' = cal_events c \<and>
    cal_clock c' = cal_clock c"
proof -
  let ?c1 = "if cal_adjust c \<noteq> 0 then c\<lparr>cal_time_to_newwidth := cal_adjust c\<rparr> else c"
  have c1: "cal_core ?c1 \<and> cal_events ?c1 = cal_events c \<and> cal_clock ?c1 = cal_clock c"
    using c by (simp add: cal_core_def cal_events_def bucket_ok_def CALENDAR_HASH_def)
  let ?i = "max_bucket c"
  define xs where "xs = bk_list (cal_buckets c ! ?i)"
  have "?i < length (cal_buckets c)" unfolding max_bucket_def
    using c by (intro max_bucket_less) (auto simp: cal_core_def)
  then have ok: "sorted (map ev_key xs)" "bk_count (cal_buckets c ! ?i) = ntimes xs"
    using c by (auto simp: cal_core_def bucket_ok_def xs_def)
  have nw: "ev_time (hd xs) < ev_time (last xs)" if "4 < ntimes xs"
  proof (rule ccontr)
    assume a: "\<not> ?thesis"
    have "ev_time x = ev_time (hd xs)" if "x \<in> set xs" for x
    proof -
      have "ev_key x \<le> ev_key (last xs)" using sorted_last_ge [OF ok(1) that] .
      moreover have "ev_key (hd xs) \<le> ev_key x" using ok(1) that by (cases xs) auto
      ultimately have "ev_time x \<le> ev_time (last xs)" "ev_time (hd xs) \<le> ev_time x" by (auto simp: ev_key_def)
      then show ?thesis using a by linarith
    qed
    then have "ev_time ` set xs \<subseteq> {ev_time (hd xs)}" by auto
    then have "card (ev_time ` set xs) \<le> card {ev_time (hd xs)}" by (intro card_mono) simp_all
    with that show False by (simp add: ntimes_def)
  qed
  show ?thesis
  proof (cases "cal_adjust c \<noteq> 0 \<and> cal_avg_gap c > 0")
    case True
    with c1 show ?thesis by (simp add: newwidth_def Let_def)
  next
    case f: False
    show ?thesis
    proof (cases "ntimes xs \<le> 4")
      case True
      with f c1 c ok(2) show ?thesis by (auto simp: newwidth_def Let_def cal_core_def)
    next
      case False
      then have "newwidth newsize c = Inr ((ev_time (last xs) - ev_time (hd xs)) /
          of_int (if newsize < ntimes xs then newsize else ntimes xs) * 4, ?c1)"
        using f nw ok(2) by (auto simp: newwidth_def Let_def c_assert_def xs_def)
      moreover have "0 < (ev_time (last xs) - ev_time (hd xs)) /
          of_int (if newsize < ntimes xs then newsize else ntimes xs) * 4"
        using False nw n by (intro mult_pos_pos divide_pos_pos) auto
      ultimately show ?thesis using c1 by blast
    qed
  qed
qed

lemma resize_ok:
  assumes c: "cal_core c" and n: "0 < newsize" and l: "cal_lastbucket c = CALENDAR_HASH (cal_clock c) c"
  shows "\<exists>c'. resize newsize (cal_clock c) c = Inr c' \<and> cal_core c' \<and> mset (cal_events c') = mset (cal_events c) \<and>
    cal_clock c' = cal_clock c \<and> cal_lastbucket c' = CALENDAR_HASH (cal_clock c) c'"
proof -
  obtain w c1 where w: "newwidth newsize c = Inr (w, c1)" "0 < w" "cal_core c1" "cal_events c1 = cal_events c"
    "cal_clock c1 = cal_clock c" using newwidth_ok [OF c n] by blast
  show ?thesis
  proof (cases "newsize = cal_nbuckets c")
    case False
    have "4 \<le> (if newsize < 4 then 4 else newsize)" by simp
    from rebucket_ok [OF w(3) this w(2)] w False show ?thesis by (simp add: resize_def)
  next
    case True
    have n4: "4 \<le> newsize" using True c by (simp add: cal_core_def)
    define b0 where "b0 = (if cal_head_search c \<noteq> 0 then real (cal_head_search c) else 1)"
    define b1 where "b1 = (if cal_insert_search c \<noteq> 0 then b0 / real (cal_insert_search c) else b0)"
    have "0 < b1" by (simp add: b1_def b0_def)
    then have bw: "0 < sqrt b1 * cal_width c" using c by (simp add: cal_core_def)
    have r: "resize newsize (cal_clock c) c = (if sqrt b1 * cal_width c < cal_min_bin_width c then
        if cal_time_to_newwidth c > 0 then
               Inr (c\<lparr>cal_time_to_newwidth := cal_time_to_newwidth c - 1, cal_head_search := 0,
                      cal_insert_search := 0, cal_round_num := 0\<rparr>)
             else res_bind (newwidth newsize c) (\<lambda>(w, c1). rebucket newsize w (cal_clock c) c1)
           else rebucket newsize (sqrt b1 * cal_width c) (cal_clock c) c)"
      using True by (simp add: resize_def Let_def b1_def b0_def)
    show ?thesis
    proof (cases "sqrt b1 * cal_width c < cal_min_bin_width c")
      case False
      with rebucket_ok [OF c n4 bw] r show ?thesis by simp
    next
      case s: True
      show ?thesis
      proof (cases "cal_time_to_newwidth c > 0")
        case True
        with s r c l show ?thesis by (simp add: cal_core_def cal_events_def bucket_ok_def CALENDAR_HASH_def)
      next
        case False
        with s r w rebucket_ok [OF w(3) n4 w(2)] show ?thesis by simp
      qed
    qed
  qed
qed

lemma cal_insert_ok:
  assumes c: "cal_inv c" and e: "0 < ev_uid e" "0 \<le> ev_time e" "\<forall>x \<in> set (cal_pending c). ev_uid x < ev_uid e"
  shows "\<exists>c'. cal_insert e c = Inr c' \<and> cal_inv c' \<and> cal_pending c' = insort_key ev_key e (cal_pending c)"
proof -
  define i where "i = CALENDAR_HASH (ev_time e) c"
  define b where "b = cal_buckets c ! nat i"
  define c1 where "c1 = (if cal_clock c > ev_time e then c\<lparr>cal_clock := ev_time e, cal_lastbucket := i\<rparr> else c)"
  have core: "cal_core c" using c by (simp add: cal_inv_def)
  have ib: "0 \<le> i" "nat i < length (cal_buckets c)" using hash_bounds [OF core e(2)] i_def by auto
  have ok: "bucket_ok c i b" using core_bucket [OF core ib] by (simp add: b_def)
  have u: "\<forall>x \<in> set (cal_events c). ev_uid x < ev_uid e" using e(3) by (simp add: cal_pending_def)
  then have ub: "\<forall>x \<in> set (bk_list b). ev_uid x < ev_uid e" "ev_uid e \<notin> ev_uid ` set (cal_events c)"
    using bucket_events [OF ib(2)] by (auto simp: b_def)
  obtain b1 v n where bi: "bucket_insert e b = (b1, v, n)" by (cases "bucket_insert e b")
  have b1: "b1 = bucket_add e b" "v = bk_count (bucket_add e b) - bk_count b"
    using bucket_insert_ok [OF _ ub(1) _ bi] ok by (simp_all add: bucket_ok_def bucket_add_def)
  define c2 where "c2 = (put_bucket i b1 c1)\<lparr>cal_stat_qsize := cal_stat_qsize c1 + v,
      cal_insert_search := cal_insert_search c1 + n, cal_qsize := cal_qsize c1 + 1\<rparr>"
  have gb: "get_bucket i c1 = Inr b" using ib by (simp add: get_bucket_def c1_def b_def)
  have ins: "cal_insert e c = (if cal_stat_qsize c2 > cal_top c2 then resize (cal_nbuckets c2 * 2) (cal_clock c2) c2 else Inr c2)"
    unfolding cal_insert_def Let_def i_def [symmetric] c1_def [symmetric] gb res_bind_simps bi prod.case c2_def ..
  have c2: "cal_core c2" "mset (cal_events c2) = add_mset e (mset (cal_events c))"
    by (rule core_add [OF core e(2,1) ub(2) i_def b_def]; simp add: c2_def c1_def put_bucket_def b1)+
  have cl: "cal_clock c2 = min (cal_clock c) (ev_time e)" "cal_lastbucket c2 = CALENDAR_HASH (cal_clock c2) c2"
    using c by (auto simp: c2_def c1_def put_bucket_def i_def CALENDAR_HASH_def cal_inv_def)
  have "0 < cal_nbuckets c2 * 2" using c2(1) by (simp add: cal_core_def)
  from resize_ok [OF c2(1) this cl(2)] ins c2(1) cl(2) obtain c3 where
    c3: "cal_insert e c = Inr c3" "cal_core c3" "mset (cal_events c3) = mset (cal_events c2)" "cal_clock c3 = cal_clock c2"
      "cal_lastbucket c3 = CALENDAR_HASH (cal_clock c2) c3" by (auto split: if_splits)
  have s: "set (cal_events c3) = insert e (set (cal_events c))" using arg_cong [OF c3(3), of set_mset] c2(2) by simp
  have "cal_inv c3" unfolding cal_inv_def using c3 cl(1) c e(2) s by (auto simp: cal_inv_def)
  moreover have "cal_pending c3 = insort_key ev_key e (cal_pending c)"
    unfolding cal_pending_def using c3(2,3) c2(2) by (intro sort_key_add) (simp_all add: cal_core_def)
  ultimately show ?thesis using c3(1) by blast
qed

section \<open>The search for the next event\<close>

text \<open>Buckets counted from the one of the clock; a day is the width of a bucket and a year a round of the calendar.\<close>

definition cal_day :: "calendar \<Rightarrow> time \<Rightarrow> int" where
  "cal_day c t = \<lfloor>t / cal_width c\<rfloor>"

definition cal_idx :: "calendar \<Rightarrow> int \<Rightarrow> int" where
  "cal_idx c k = (cal_day c (cal_clock c) + k) mod cal_nbuckets c"

definition cal_list :: "calendar \<Rightarrow> int \<Rightarrow> event list" where
  "cal_list c k = bk_list (cal_buckets c ! nat (cal_idx c k))"

lemma idx_bounds: "cal_core c \<Longrightarrow> 0 \<le> cal_idx c k \<and> nat (cal_idx c k) < length (cal_buckets c)"
  by (auto simp: cal_core_def cal_idx_def nat_less_iff)

lemma idx_next: "cal_core c \<Longrightarrow> (if cal_idx c k + 1 = cal_nbuckets c then 0 else cal_idx c k + 1) = cal_idx c (k + 1)"
proof -
  assume c: "cal_core c"
  let ?n = "cal_nbuckets c" and ?a = "cal_day c (cal_clock c) + k"
  have n: "0 < ?n" using c by (simp add: cal_core_def)
  have m: "(?a + 1) mod ?n = (?a mod ?n + 1) mod ?n" by (simp add: mod_add_left_eq)
  have b: "?a mod ?n < ?n" "0 \<le> ?a mod ?n" using n by simp_all
  show ?thesis
  proof (cases "?a mod ?n + 1 = ?n")
    case True
    with m n show ?thesis by (simp add: cal_idx_def add.assoc)
  next
    case False
    with b have "(?a mod ?n + 1) mod ?n = ?a mod ?n + 1" by (intro mod_pos_pos_trivial) auto
    with False m show ?thesis by (simp add: cal_idx_def add.assoc)
  qed
qed

lemma hash_idx0: "cal_inv c \<Longrightarrow> cal_lastbucket c = cal_idx c 0"
  using hash_eq [of "cal_clock c" c] by (simp add: cal_inv_def cal_core_def cal_idx_def cal_day_def)

lemma idx_dec:
  assumes c: "cal_inv c"
  shows "(if cal_lastbucket c \<noteq> 0 then cal_lastbucket c - 1 else cal_nbuckets c - 1) = cal_idx c (cal_nbuckets c - 1)"
proof -
  let ?n = "cal_nbuckets c" and ?d = "cal_day c (cal_clock c)"
  have n: "0 < ?n" using c by (simp add: cal_inv_def cal_core_def)
  have "(?d + (?n - 1)) mod ?n = (?d mod ?n - 1) mod ?n"
    by (metis add_diff_eq diff_add_eq mod_add_self2 mod_diff_left_eq)
  moreover have "(?d mod ?n - 1) mod ?n = (if ?d mod ?n \<noteq> 0 then ?d mod ?n - 1 else ?n - 1)"
  proof (cases "?d mod ?n = 0")
    case True
    then show ?thesis using n by (simp add: zmod_minus1)
  next
    case False
    moreover have "0 \<le> ?d mod ?n" "?d mod ?n < ?n" using n by simp_all
    ultimately show ?thesis by (simp add: mod_pos_pos_trivial)
  qed
  ultimately show ?thesis by (simp add: hash_idx0 [OF c] cal_idx_def)
qed

lemma list_days:
  assumes c: "cal_inv c" and k: "0 \<le> k" "k < cal_nbuckets c" and e: "e \<in> set (cal_list c k)"
  shows "cal_day c (ev_time e) = cal_day c (cal_clock c) + k \<or>
    cal_day c (cal_clock c) + k + cal_nbuckets c \<le> cal_day c (ev_time e)"
proof -
  have core: "cal_core c" using c by (simp add: cal_inv_def)
  note ib = idx_bounds [OF core, of k]
  have ev: "e \<in> set (cal_events c)" using bucket_events [of "nat (cal_idx c k)" c] ib e by (auto simp: cal_list_def)
  have w: "0 < cal_width c" "0 < cal_nbuckets c" using core by (simp_all add: cal_core_def)
  have "cal_clock c \<le> ev_time e" using c ev by (simp add: cal_inv_def)
  then have "cal_day c (cal_clock c) \<le> cal_day c (ev_time e)"
    unfolding cal_day_def using w by (intro floor_mono divide_right_mono) simp_all
  moreover have "cal_day c (ev_time e) mod cal_nbuckets c = (cal_day c (cal_clock c) + k) mod cal_nbuckets c"
  proof -
    have "CALENDAR_HASH (ev_time e) c = cal_idx c k"
      using core_bucket [OF core, of "cal_idx c k"] ib e by (simp add: bucket_ok_def cal_list_def)
    moreover have "0 \<le> ev_time e" using events_bucket(2) [OF core ev] .
    ultimately show ?thesis using hash_eq [of "ev_time e" c] w by (simp add: cal_day_def cal_idx_def)
  qed
  then obtain m where m: "cal_day c (ev_time e) = cal_day c (cal_clock c) + k + cal_nbuckets c * m"
    by (metis mod_eqE add.commute diff_add_cancel diff_eq_eq)
  have "0 \<le> m"
  proof (rule ccontr)
    assume "\<not> 0 \<le> m"
    then have "cal_nbuckets c * m \<le> cal_nbuckets c * (-1)" using w by (intro mult_left_mono) simp_all
    with m k calculation show False by simp
  qed
  then consider "m = 0" | "1 \<le> m" by linarith
  then show ?thesis
  proof cases
    case 2
    then have "cal_nbuckets c * 1 \<le> cal_nbuckets c * m" using w by (intro mult_left_mono) simp_all
    with m show ?thesis by simp
  qed (simp add: m)
qed

lemma events_listed:
  assumes c: "cal_inv c" and e: "e \<in> set (cal_events c)"
  shows "\<exists>k. 0 \<le> k \<and> k < cal_nbuckets c \<and> e \<in> set (cal_list c k)"
proof -
  have core: "cal_core c" using c by (simp add: cal_inv_def)
  let ?k = "(cal_day c (ev_time e) - cal_day c (cal_clock c)) mod cal_nbuckets c"
  have w: "0 < cal_width c" "0 < cal_nbuckets c" using core by (simp_all add: cal_core_def)
  have "cal_idx c ?k = CALENDAR_HASH (ev_time e) c"
    using hash_eq [of "ev_time e" c] events_bucket(2) [OF core e] w
    by (simp add: cal_idx_def cal_day_def mod_add_right_eq)
  then have "e \<in> set (cal_list c ?k)" using events_bucket(1) [OF core e] by (simp add: cal_list_def)
  moreover have "0 \<le> ?k" "?k < cal_nbuckets c" using w by simp_all
  ultimately show ?thesis by blast
qed

lemma day_bounds:
  "0 < cal_width c \<Longrightarrow> of_int (cal_day c t) * cal_width c \<le> t \<and> t < (of_int (cal_day c t) + 1) * cal_width c"
proof -
  assume w: "0 < cal_width c"
  have "of_int (cal_day c t) \<le> t / cal_width c" "t / cal_width c < of_int (cal_day c t) + 1"
    by (simp_all add: cal_day_def)
  with w show ?thesis by (simp add: pos_le_divide_eq pos_divide_less_eq)
qed

text \<open>The year bounds of the search decide whether the first event of a bucket belongs to the current year.\<close>

lemma year_test:
  assumes c: "cal_inv c" and k: "0 \<le> k" "k < cal_nbuckets c" and e: "e \<in> set (cal_list c k)"
    and D: "of_int (k + 1) * cal_width c \<le> D" "D \<le> of_int (k + cal_nbuckets c - 1) * cal_width c"
  shows "ev_time e - cal_clock c < D \<longleftrightarrow> cal_day c (ev_time e) = cal_day c (cal_clock c) + k"
proof -
  let ?d = "cal_day c (cal_clock c)" and ?w = "cal_width c"
  have w: "0 < ?w" "0 < cal_nbuckets c" using c by (simp_all add: cal_inv_def cal_core_def)
  note T = day_bounds [OF w(1), of "cal_clock c"] and t = day_bounds [OF w(1), of "ev_time e"]
  from list_days [OF c k e] show ?thesis
  proof
    assume d: "cal_day c (ev_time e) = ?d + k"
    with t have "ev_time e < (of_int (?d + k) + 1) * ?w" by simp
    with T D(1) have "ev_time e - cal_clock c < D" by (simp add: algebra_simps)
    with d show ?thesis by simp
  next
    assume d: "?d + k + cal_nbuckets c \<le> cal_day c (ev_time e)"
    then have "real_of_int (?d + k + cal_nbuckets c) \<le> of_int (cal_day c (ev_time e))" by (simp only: of_int_le_iff)
    then have "of_int (?d + k + cal_nbuckets c) * ?w \<le> of_int (cal_day c (ev_time e)) * ?w"
      using w by (intro mult_right_mono) simp_all
    with t T D(2) have "D < ev_time e - cal_clock c" by (simp add: algebra_simps)
    with d w show ?thesis by simp
  qed
qed

definition scan_inv :: "calendar \<Rightarrow> int \<Rightarrow> probe \<Rightarrow> bool" where
  "scan_inv c k p \<longleftrightarrow> pr_i p = cal_idx c k \<and>
     (\<forall>j \<in> {0..<k}. (\<forall>e \<in> set (cal_list c j). cal_day c (cal_clock c) + j + cal_nbuckets c \<le> cal_day c (ev_time e))) \<and>
     (case pr_min p of
        None \<Rightarrow> \<forall>j \<in> {0..<k}. cal_list c j = []
      | Some m \<Rightarrow> (\<exists>j \<in> {0..<k}. pr_l p = cal_idx c j \<and> cal_list c j \<noteq> [] \<and> m = hd (cal_list c j)) \<and>
          (\<forall>j \<in> {0..<k}. (\<forall>e \<in> set (cal_list c j). ev_time m \<le> ev_time e)))"

text \<open>What the search delivers: the head of a bucket, and no event is earlier.\<close>

definition head_ok :: "calendar \<Rightarrow> event \<Rightarrow> int \<Rightarrow> bool" where
  "head_ok c e l \<longleftrightarrow> (\<exists>j. 0 \<le> j \<and> j < cal_nbuckets c \<and> l = cal_idx c j \<and> cal_list c j \<noteq> [] \<and> e = hd (cal_list c j)) \<and>
     (\<forall>x \<in> set (cal_events c). ev_time e \<le> ev_time x)"

lemma list_head_least:
  assumes "cal_core c" "x \<in> set (cal_list c k)"
  shows "ev_key (hd (cal_list c k)) \<le> ev_key x"
proof -
  have "sorted (map ev_key (cal_list c k))"
    using core_bucket [OF assms(1), of "cal_idx c k"] idx_bounds [OF assms(1), of k] by (simp add: bucket_ok_def cal_list_def)
  with assms(2) show ?thesis by (cases "cal_list c k") auto
qed

lemma list_head_time: "cal_core c \<Longrightarrow> x \<in> set (cal_list c k) \<Longrightarrow> ev_time (hd (cal_list c k)) \<le> ev_time x"
  using list_head_least by (fastforce simp: ev_key_def)

lemma found_now:
  assumes c: "cal_inv c" and s: "scan_inv c k p" and k: "0 \<le> k" "k < cal_nbuckets c"
    and e: "cal_list c k \<noteq> []" "cal_day c (ev_time (hd (cal_list c k))) = cal_day c (cal_clock c) + k"
  shows "head_ok c (hd (cal_list c k)) (pr_i p)"
proof -
  have core: "cal_core c" using c by (simp add: cal_inv_def)
  have w: "0 < cal_width c" using core by (simp add: cal_core_def)
  have "ev_time (hd (cal_list c k)) \<le> ev_time x" if "x \<in> set (cal_events c)" for x
  proof -
    from events_listed [OF c that] obtain j where j: "0 \<le> j" "j < cal_nbuckets c" "x \<in> set (cal_list c j)" by blast
    show ?thesis
    proof (cases "j = k")
      case True
      with j core show ?thesis by (simp add: list_head_time)
    next
      case False
      have "cal_day c (cal_clock c) + k < cal_day c (ev_time x)"
      proof (cases "j < k")
        case True
        then have "cal_day c (cal_clock c) + j + cal_nbuckets c \<le> cal_day c (ev_time x)"
          using s j by (simp add: scan_inv_def)
        with j k show ?thesis by linarith
      next
        case ge: False
        with list_days [OF c j] False k show ?thesis by linarith
      qed
      with e(2) have "\<not> ev_time x < ev_time (hd (cal_list c k))"
        using floor_mono [of "ev_time x / cal_width c" "ev_time (hd (cal_list c k)) / cal_width c"] w
        by (auto simp: cal_day_def divide_right_mono)
      then show ?thesis by simp
    qed
  qed
  with s k e(1) show ?thesis by (auto simp: head_ok_def scan_inv_def)
qed

lemma CAL_DEQUEUE_ok:
  assumes c: "cal_inv c" and s: "scan_inv c k p" and k: "0 \<le> k" "k < cal_nbuckets c"
    and D: "of_int (k + 1) * cal_width c \<le> D" "D \<le> of_int (k + cal_nbuckets c - 1) * cal_width c"
  shows "(\<exists>e. CAL_DEQUEUE D c p = Inr (Inl e) \<and> head_ok c e (pr_i p)) \<or>
    (\<exists>p1. CAL_DEQUEUE D c p = Inr (Inr p1) \<and> scan_inv c (k + 1) p1)"
proof -
  have core: "cal_core c" using c by (simp add: cal_inv_def)
  have i: "pr_i p = cal_idx c k" using s by (simp add: scan_inv_def)
  have gb: "get_bucket (pr_i p) c = Inr (cal_buckets c ! nat (cal_idx c k))"
    using idx_bounds [OF core, of k] by (simp add: get_bucket_def i)
  have bl: "bk_list (cal_buckets c ! nat (cal_idx c k)) = cal_list c k" by (simp add: cal_list_def)
  have ks: "{0..<k + 1} = insert k {0..<k}" using k by auto
  note nx = idx_next [OF core, of k]
  show ?thesis
  proof (cases "cal_list c k")
    case Nil
    then show ?thesis using s gb bl nx i
      by (auto simp: CAL_DEQUEUE_def scan_inv_def Let_def ks split: option.splits)
  next
    case (Cons e es)
    have e: "e \<in> set (cal_list c k)" "e = hd (cal_list c k)" using Cons by simp_all
    note yt = year_test [OF c k e(1) D]
    show ?thesis
    proof (cases "ev_time e - cal_clock c < D")
      case True
      then have "CAL_DEQUEUE D c p = Inr (Inl e)" using gb bl Cons by (simp add: CAL_DEQUEUE_def Let_def)
      moreover have "head_ok c e (pr_i p)" using found_now [OF c s k] True yt Cons by simp
      ultimately show ?thesis by blast
    next
      case False
      have far: "\<forall>x \<in> set (cal_list c k). cal_day c (cal_clock c) + k + cal_nbuckets c \<le> cal_day c (ev_time x)"
      proof
        fix x assume x: "x \<in> set (cal_list c k)"
        have "ev_time e \<le> ev_time x" using list_head_time [OF core x] e(2) by simp
        with False have "\<not> ev_time x - cal_clock c < D" by linarith
        with year_test [OF c k x D] list_days [OF c k x]
        show "cal_day c (cal_clock c) + k + cal_nbuckets c \<le> cal_day c (ev_time x)" by blast
      qed
      have least: "\<forall>x \<in> set (cal_list c k). ev_time e \<le> ev_time x" using list_head_time [OF core] e(2) by blast
      have nl: "cal_list c k \<noteq> []" using Cons by simp
      let ?keep = "case pr_min p of None \<Rightarrow> True | Some m \<Rightarrow> ev_time m > ev_time e"
      let ?p1 = "if ?keep then p\<lparr>pr_searched := pr_searched p + 1, pr_min := Some e, pr_l := pr_i p, pr_i := cal_idx c (k + 1)\<rparr>
        else p\<lparr>pr_searched := pr_searched p + 1, pr_i := cal_idx c (k + 1)\<rparr>"
      have "CAL_DEQUEUE D c p = Inr (Inr ?p1)"
        unfolding nx [symmetric] using gb bl Cons False i by (simp add: CAL_DEQUEUE_def Let_def)
      moreover have "scan_inv c (k + 1) ?p1"
      proof (cases ?keep)
        case True
        have "\<forall>j \<in> {0..<k}. (\<forall>x \<in> set (cal_list c j). ev_time e \<le> ev_time x)"
        proof (cases "pr_min p")
          case None
          with s show ?thesis by (simp add: scan_inv_def)
        next
          case (Some m)
          with s True have "\<forall>j \<in> {0..<k}. (\<forall>x \<in> set (cal_list c j). ev_time m \<le> ev_time x)" "ev_time e < ev_time m"
            by (simp_all add: scan_inv_def)
          then show ?thesis by force
        qed
        with True s far least e(2) nl i show ?thesis unfolding scan_inv_def ks by simp
      next
        case n: False
        then obtain m where m: "pr_min p = Some m" "ev_time m \<le> ev_time e" by (auto split: option.splits)
        have "\<forall>x \<in> set (cal_list c k). ev_time m \<le> ev_time x" using m(2) least by force
        with n s far m(1) show ?thesis unfolding scan_inv_def ks by auto
      qed
      ultimately show ?thesis by blast
    qed
  qed
qed

lemma cal_last_ok:
  assumes c: "cal_inv c" and s: "scan_inv c (cal_nbuckets c - 1) p" and ne: "cal_events c \<noteq> []"
  shows "\<exists>e l n. cal_last p c = cal_found l e n c \<and> head_ok c e l"
proof -
  let ?k = "cal_nbuckets c - 1"
  have core: "cal_core c" using c by (simp add: cal_inv_def)
  have k: "0 \<le> ?k" "?k < cal_nbuckets c" using core by (simp_all add: cal_core_def)
  have i: "pr_i p = cal_idx c ?k" using s by (simp add: scan_inv_def)
  have gb: "get_bucket (pr_i p) c = Inr (cal_buckets c ! nat (cal_idx c ?k))"
    using idx_bounds [OF core, of ?k] by (simp add: get_bucket_def i)
  have bl: "bk_list (cal_buckets c ! nat (cal_idx c ?k)) = cal_list c ?k" by (simp add: cal_list_def)
  have all: "\<exists>j. (j \<in> {0..<?k} \<or> j = ?k) \<and> x \<in> set (cal_list c j)" if "x \<in> set (cal_events c)" for x
    using events_listed [OF c that] by force
  have lk: "ev_time (hd (cal_list c ?k)) \<le> ev_time x" if "x \<in> set (cal_list c ?k)" for x
    by (rule list_head_time [OF core that])
  show ?thesis
  proof (cases "pr_min p")
    case None
    then have em: "\<forall>j \<in> {0..<?k}. cal_list c j = []" using s by (simp add: scan_inv_def)
    then have "cal_list c ?k \<noteq> []" using ne all by (metis empty_iff empty_set last_in_set)
    moreover from this obtain a as where "cal_list c ?k = a # as" by (cases "cal_list c ?k") auto
    moreover have "head_ok c (hd (cal_list c ?k)) (pr_i p)"
      unfolding head_ok_def using em all lk k i calculation(1) by (metis empty_iff empty_set)
    ultimately show ?thesis using None gb bl by (auto simp: cal_last_def)
  next
    case (Some m)
    with s obtain j where j: "j \<in> {0..<?k}" "pr_l p = cal_idx c j" "cal_list c j \<noteq> []" "m = hd (cal_list c j)"
      and mm: "\<forall>j \<in> {0..<?k}. \<forall>e \<in> set (cal_list c j). ev_time m \<le> ev_time e" by (auto simp: scan_inv_def)
    have mh: "head_ok c m (pr_l p)" if "\<forall>x \<in> set (cal_list c ?k). ev_time m \<le> ev_time x"
      unfolding head_ok_def
    proof (intro conjI ballI)
      show "\<exists>j. 0 \<le> j \<and> j < cal_nbuckets c \<and> pr_l p = cal_idx c j \<and> cal_list c j \<noteq> [] \<and> m = hd (cal_list c j)"
        using j by (intro exI [of _ j]) auto
      show "ev_time m \<le> ev_time x" if "x \<in> set (cal_events c)" for x
        using all [OF that] mm \<open>\<forall>x \<in> set (cal_list c ?k). ev_time m \<le> ev_time x\<close> by blast
    qed
    show ?thesis
    proof (cases "cal_list c ?k")
      case Nil
      then show ?thesis using mh Some gb bl by (auto simp: cal_last_def)
    next
      case (Cons a as)
      show ?thesis
      proof (cases "ev_time m < ev_time a")
        case True
        then have "\<forall>x \<in> set (cal_list c ?k). ev_time m \<le> ev_time x" using lk Cons by fastforce
        with mh Some gb bl Cons True show ?thesis by (auto simp: cal_last_def)
      next
        case False
        have "head_ok c a (pr_i p)" unfolding head_ok_def
        proof (intro conjI ballI)
          show "\<exists>j. 0 \<le> j \<and> j < cal_nbuckets c \<and> pr_i p = cal_idx c j \<and> cal_list c j \<noteq> [] \<and> a = hd (cal_list c j)"
            using k i Cons by (intro exI [of _ ?k]) auto
          show "ev_time a \<le> ev_time x" if "x \<in> set (cal_events c)" for x
            using all [OF that] mm lk [of x] False Cons by force
        qed
        with Some gb bl Cons False show ?thesis by (auto simp: cal_last_def)
      qed
    qed
  qed
qed

lemma cal_scan_ok:
  assumes c: "cal_inv c" and ne: "cal_events c \<noteq> []"
  shows "scan_inv c k p \<Longrightarrow> 2 \<le> k \<Longrightarrow> k < cal_nbuckets c \<Longrightarrow> cal_nbuckets c - k \<le> int n \<Longrightarrow>
    \<exists>e l m. cal_scan n (cal_idx c (cal_nbuckets c - 1)) c p = cal_found l e m c \<and> head_ok c e l"
proof (induction n arbitrary: k p)
  case (Suc n)
  have core: "cal_core c" using c by (simp add: cal_inv_def)
  have i: "pr_i p = cal_idx c k" using Suc.prems(1) by (simp add: scan_inv_def)
  have w: "0 < cal_width c" "0 < cal_nbuckets c" using core by (simp_all add: cal_core_def)
  show ?case
  proof (cases "k = cal_nbuckets c - 1")
    case True
    with cal_last_ok [OF c _ ne] Suc.prems(1) i show ?thesis by simp
  next
    case False
    have "pr_i p \<noteq> cal_idx c (cal_nbuckets c - 1)" unfolding i
    proof
      assume "cal_idx c k = cal_idx c (cal_nbuckets c - 1)"
      then have "cal_nbuckets c dvd (cal_nbuckets c - 1 - k)"
        unfolding cal_idx_def by (metis add_diff_cancel_left mod_eq_dvd_iff)
      then show False using zdvd_imp_le [of "cal_nbuckets c" "cal_nbuckets c - 1 - k"] False Suc.prems(2,3) by auto
    qed
    then have step: "cal_scan (Suc n) (cal_idx c (cal_nbuckets c - 1)) c p =
        res_bind (CAL_DEQUEUE (cal_diff2 c) c p) (\<lambda>r. case r of
          Inl e \<Rightarrow> cal_found (pr_i p) e (pr_searched p + 1) c
        | Inr p1 \<Rightarrow> cal_scan n (cal_idx c (cal_nbuckets c - 1)) c p1)" by (simp only: cal_scan.simps if_False)
    have d2: "cal_diff2 c = of_int (cal_nbuckets c) * cal_width c" using core by (simp add: cal_core_def)
    have D: "of_int (k + 1) * cal_width c \<le> cal_diff2 c" "cal_diff2 c \<le> of_int (k + cal_nbuckets c - 1) * cal_width c"
      unfolding d2 using Suc.prems(2,3) w by (intro mult_right_mono; simp)+
    have k: "0 \<le> k" "k < cal_nbuckets c" using Suc.prems by simp_all
    from CAL_DEQUEUE_ok [OF c Suc.prems(1) k D] show ?thesis
    proof
      assume "\<exists>e. CAL_DEQUEUE (cal_diff2 c) c p = Inr (Inl e) \<and> head_ok c e (pr_i p)"
      then obtain e where e: "CAL_DEQUEUE (cal_diff2 c) c p = Inr (Inl e)" "head_ok c e (pr_i p)" by blast
      have "cal_scan (Suc n) (cal_idx c (cal_nbuckets c - 1)) c p = cal_found (pr_i p) e (pr_searched p + 1) c"
        unfolding step e(1) by (simp only: res_bind_simps sum.case)
      with e(2) show ?thesis by blast
    next
      assume "\<exists>p1. CAL_DEQUEUE (cal_diff2 c) c p = Inr (Inr p1) \<and> scan_inv c (k + 1) p1"
      then obtain p1 where p1: "CAL_DEQUEUE (cal_diff2 c) c p = Inr (Inr p1)" "scan_inv c (k + 1) p1" by blast
      have "2 \<le> k + 1" "k + 1 < cal_nbuckets c" "cal_nbuckets c - (k + 1) \<le> int n" using Suc.prems False by auto
      from Suc.IH [OF p1(2) this] show ?thesis unfolding step p1(1) by (simp only: res_bind_simps sum.case)
    qed
  qed
qed simp

lemma cal_head_found:
  assumes c: "cal_inv c" and ne: "cal_events c \<noteq> []"
  shows "\<exists>e l n. cal_head c = cal_found l e n c \<and> head_ok c e l"
proof -
  let ?p0 = "\<lparr>pr_l = -1, pr_min = None, pr_i = cal_lastbucket c, pr_searched = 0\<rparr>"
  let ?dec = "cal_idx c (cal_nbuckets c - 1)"
  have core: "cal_core c" using c by (simp add: cal_inv_def)
  have w: "0 < cal_width c" "4 \<le> cal_nbuckets c" "length (cal_buckets c) = nat (cal_nbuckets c)"
    using core by (simp_all add: cal_core_def)
  have q: "cal_qsize c \<noteq> 0" using core ne by (simp add: cal_core_def)
  have s0: "scan_inv c 0 ?p0" using hash_idx0 [OF c] by (simp add: scan_inv_def)
  have h: "cal_head c = res_bind (CAL_DEQUEUE (cal_diff0 c) c ?p0) (\<lambda>r0. case r0 of
             Inl e \<Rightarrow> cal_found (pr_i ?p0) e 1 c
           | Inr p1 \<Rightarrow>
               res_bind (CAL_DEQUEUE (cal_diff1 c) c p1) (\<lambda>r1. case r1 of
                 Inl e \<Rightarrow> cal_found (pr_i p1) e 2 c
               | Inr p2 \<Rightarrow> cal_scan (length (cal_buckets c)) ?dec c p2))"
    unfolding cal_head_def Let_def idx_dec [OF c] using q by (simp only: if_False)
  have d: "cal_diff0 c = of_int (cal_nbuckets c) / 2 * cal_width c" "cal_diff1 c = (of_int (cal_nbuckets c) / 2 + 1) * cal_width c"
    using core by (simp_all add: cal_core_def algebra_simps)
  have D0: "of_int (0 + 1) * cal_width c \<le> cal_diff0 c" "cal_diff0 c \<le> of_int (0 + cal_nbuckets c - 1) * cal_width c"
    unfolding d using w by (intro mult_right_mono; simp)+
  have D1: "of_int (1 + 1) * cal_width c \<le> cal_diff1 c" "cal_diff1 c \<le> of_int (1 + cal_nbuckets c - 1) * cal_width c"
    unfolding d using w by (intro mult_right_mono; simp)+
  from CAL_DEQUEUE_ok [OF c s0 _ _ D0] w(2)
  consider e where "CAL_DEQUEUE (cal_diff0 c) c ?p0 = Inr (Inl e)" "head_ok c e (pr_i ?p0)"
    | p1 where "CAL_DEQUEUE (cal_diff0 c) c ?p0 = Inr (Inr p1)" "scan_inv c 1 p1" by auto
  then show ?thesis
  proof cases
    case 1
    with h show ?thesis by auto
  next
    case (2 p1)
    from CAL_DEQUEUE_ok [OF c 2(2) _ _ D1] w(2)
    consider e where "CAL_DEQUEUE (cal_diff1 c) c p1 = Inr (Inl e)" "head_ok c e (pr_i p1)"
      | p2 where "CAL_DEQUEUE (cal_diff1 c) c p1 = Inr (Inr p2)" "scan_inv c 2 p2" by auto
    then show ?thesis
    proof cases
      case 1
      with 2 h show ?thesis by auto
    next
      case (2 p2)
      have "cal_nbuckets c - 2 \<le> int (length (cal_buckets c))" using w by simp
      from cal_scan_ok [OF c ne 2(2) _ _ this] w(2) obtain e l m where
        "cal_scan (length (cal_buckets c)) ?dec c p2 = cal_found l e m c" "head_ok c e l" by auto
      with 2 \<open>CAL_DEQUEUE (cal_diff0 c) c ?p0 = Inr (Inr p1)\<close> h show ?thesis by auto
    qed
  qed
qed

section \<open>Removal\<close>

lemma head_ok_least:
  assumes c: "cal_inv c" and h: "head_ok c e l" and x: "x \<in> set (cal_events c)"
  shows "ev_key e \<le> ev_key x"
proof -
  have core: "cal_core c" using c by (simp add: cal_inv_def)
  obtain j where j: "cal_list c j \<noteq> []" "e = hd (cal_list c j)" using h by (auto simp: head_ok_def)
  have le: "ev_time e \<le> ev_time x" using h x by (simp add: head_ok_def)
  show ?thesis
  proof (cases "ev_time e = ev_time x")
    case True
    have "e \<in> set (cal_list c j)" using j by simp
    then have "CALENDAR_HASH (ev_time e) c = cal_idx c j"
      using core_bucket [OF core, of "cal_idx c j"] idx_bounds [OF core, of j] by (simp add: bucket_ok_def cal_list_def)
    then have "x \<in> set (cal_list c j)" using events_bucket(1) [OF core x] True by (simp add: cal_list_def)
    from list_head_least [OF core this] j show ?thesis by simp
  qed (use le in \<open>simp add: ev_key_def\<close>)
qed

lemma cal_head_ok:
  assumes c: "cal_inv c" and ne: "cal_events c \<noteq> []"
  shows "\<exists>e c'. cal_head c = Inr (Some e, c') \<and> cal_inv c' \<and> cal_events c' = cal_events c \<and> cal_clock c' = ev_time e \<and>
    e \<in> set (cal_events c) \<and> (\<forall>x \<in> set (cal_events c). ev_key e \<le> ev_key x)"
proof -
  have core: "cal_core c" using c by (simp add: cal_inv_def)
  obtain e l n where h: "cal_head c = cal_found l e n c" "head_ok c e l" using cal_head_found [OF c ne] by blast
  obtain j where j: "l = cal_idx c j" "cal_list c j \<noteq> []" "e = hd (cal_list c j)" using h(2) by (auto simp: head_ok_def)
  note ib = idx_bounds [OF core, of j]
  have eb: "e \<in> set (cal_list c j)" using j by simp
  have e: "e \<in> set (cal_events c)" using bucket_events [of "nat (cal_idx c j)" c] ib eb by (auto simp: cal_list_def)
  have l: "l = CALENDAR_HASH (ev_time e) c"
    using core_bucket [OF core, of "cal_idx c j"] ib eb j(1) by (simp add: bucket_ok_def cal_list_def)
  let ?c = "c\<lparr>cal_head_search := cal_head_search c + n, cal_lastbucket := l, cal_clock := ev_time e\<rparr>"
  have "cal_head c = Inr (Some e, ?c)" using h(1) j(1) ib by (simp add: cal_found_def c_assert_def)
  moreover have "cal_inv ?c"
    using core events_bucket(2) [OF core e] l h(2)
    by (simp add: cal_inv_def cal_core_def cal_events_def bucket_ok_def CALENDAR_HASH_def head_ok_def)
  moreover have "cal_events ?c = cal_events c" by (simp add: cal_events_def)
  ultimately show ?thesis using e head_ok_least [OF c h(2)] by auto
qed

lemma ntimes_remove:
  assumes "e \<in> set xs" "distinct xs"
  shows "ntimes (remove1 e xs) = ntimes xs - (if \<exists>x \<in> set xs. x \<noteq> e \<and> ev_time x = ev_time e then 0 else 1)"
proof -
  have s: "set (remove1 e xs) = set xs - {e}" using assms(2) by simp
  have i: "ev_time ` set xs = insert (ev_time e) (ev_time ` (set xs - {e}))" using assms(1) by auto
  have "(\<exists>x \<in> set xs. x \<noteq> e \<and> ev_time x = ev_time e) \<longleftrightarrow> ev_time e \<in> ev_time ` (set xs - {e})"
    by (auto intro: rev_image_eqI)
  then show ?thesis unfolding ntimes_def s i by (simp add: insert_absorb)
qed

text \<open>Unlinking an event from its bucket.\<close>

definition bucket_del :: "event \<Rightarrow> bucket \<Rightarrow> bucket" where
  "bucket_del e b = \<lparr>bk_list = remove1 e (bk_list b), bk_count = ntimes (remove1 e (bk_list b))\<rparr>"

lemma core_del:
  assumes c: "cal_core c" and e: "e \<in> set (cal_events c)"
    and i: "i = CALENDAR_HASH (ev_time e) c" and b: "b = cal_buckets c ! nat i"
    and c': "cal_buckets c' = (cal_buckets c)[nat i := bucket_del e b]" "cal_width c' = cal_width c" "cal_nbuckets c' = cal_nbuckets c"
      "cal_diff0 c' = cal_diff0 c" "cal_diff1 c' = cal_diff1 c" "cal_diff2 c' = cal_diff2 c"
      "cal_stat_qsize c' = cal_stat_qsize c + bk_count (bucket_del e b) - bk_count b" "cal_qsize c' = cal_qsize c - 1"
  shows "cal_core c'" "mset (cal_events c) = add_mset e (mset (cal_events c'))"
proof -
  have ib: "nat i < length (cal_buckets c)" "0 \<le> i" using hash_bounds [OF c events_bucket(2) [OF c e]] i by auto
  have eb: "e \<in> set (bk_list b)" using events_bucket(1) [OF c e] by (simp add: i b)
  have mb: "mset (bk_list b) = add_mset e (mset (bk_list (bucket_del e b)))" using eb by (simp add: bucket_del_def)
  have "mset (cal_events c') + mset (bk_list b) = mset (cal_events c) + mset (bk_list (bucket_del e b))"
    using mset_concat_update [OF ib(1), of bk_list "bucket_del e b"] by (simp add: cal_events_def c' b)
  then show m: "mset (cal_events c) = add_mset e (mset (cal_events c'))" unfolding mb by simp
  have "bucket_ok c (int (nat i)) b" using core_bucket [OF c ib(2,1)] ib b by simp
  then have "bucket_ok c (int (nat i)) (bucket_del e b)"
    by (auto simp: bucket_ok_def bucket_del_def sorted_map_remove1 dest: set_remove1_subset [THEN subsetD])
  moreover have "distinct (map ev_uid (cal_events c'))"
  proof -
    have "mset (map ev_uid (cal_events c')) \<subseteq># mset (map ev_uid (cal_events c))" by (simp add: m)
    moreover have "distinct (map ev_uid (cal_events c))" using c by (simp add: cal_core_def)
    ultimately show ?thesis by (rule distinct_mset_subseteq)
  qed
  moreover have "\<forall>x \<in> set (cal_events c'). 0 < ev_uid x"
  proof -
    have "set (cal_events c) = insert e (set (cal_events c'))" using arg_cong [OF m, of set_mset] by simp
    with c show ?thesis by (simp add: cal_core_def)
  qed
  moreover have "int (length (bk_list (bucket_del e b))) = int (length (bk_list b)) - 1"
    using arg_cong [OF mb, of size] by simp
  ultimately show "cal_core c'" using ib(1) c'
    by (intro core_update [OF c, of "nat i" "bucket_del e b"]) (simp_all add: b)
qed

lemma core_distinct: "cal_core c \<Longrightarrow> i < length (cal_buckets c) \<Longrightarrow> distinct (bk_list (cal_buckets c ! i))"
proof -
  assume c: "cal_core c" "i < length (cal_buckets c)"
  have "mset (bk_list (cal_buckets c ! i)) \<subseteq># mset (cal_events c)"
    unfolding cal_events_def by (rule mset_nth_concat [OF c(2)])
  moreover have "distinct (cal_events c)" using c(1) by (auto simp: cal_core_def distinct_map)
  ultimately show ?thesis by (rule distinct_mset_subseteq)
qed

text \<open>An event is the only one of its time in a sorted bucket if its neighbours have other times.\<close>

lemma neighbours:
  assumes s: "sorted (map ev_key xs)" and e: "e \<in> set xs" and d: "distinct xs"
  shows "\<exists>n p. ev_next e xs = Some n \<and> ev_prev e xs = Some p \<and> (n = e \<longleftrightarrow> xs = [e]) \<and>
    ((n = e \<or> (ev_time n \<noteq> ev_time e \<and> ev_time p \<noteq> ev_time e)) \<longleftrightarrow> \<not> (\<exists>x \<in> set xs. x \<noteq> e \<and> ev_time x = ev_time e))"
proof -
  obtain as bs where xs: "xs = as @ e # bs" using e by (meson split_list)
  have n: "e \<notin> set as" "e \<notin> set bs" using d xs by auto
  note nx = ev_next_split [OF n(1), of bs] and pv = ev_prev_split [OF n(2), of as]
  have ta: "ev_time x \<le> ev_time y" if "x \<in> set as" "y \<in> set (e # bs)" for x y
    using s that by (intro ev_key_timeD) (auto simp: xs sorted_append)
  have tb: "ev_time e \<le> ev_time y" if "y \<in> set bs" for y
    using s that by (intro ev_key_timeD) (auto simp: xs sorted_append)
  show ?thesis
  proof (cases "as @ bs = []")
    case True
    then show ?thesis using nx pv by (simp add: xs)
  next
    case False
    let ?n = "hd (bs @ as)" and ?p = "last (bs @ as)"
    have np: "?n \<in> set (as @ bs)" "?p \<in> set (as @ bs)" using False
      by (metis append_is_Nil_conv hd_in_set set_append sup_commute, metis append_is_Nil_conv last_in_set set_append sup_commute)
    have eq: "ev_next e xs = Some ?n" "ev_prev e xs = Some ?p"
      using nx pv False by (auto simp: xs hd_append)
    have ne: "?n \<noteq> e" "?p \<noteq> e" using np n by auto
    have "ev_time ?n = ev_time e \<or> ev_time ?p = ev_time e" if "\<exists>x \<in> set xs. x \<noteq> e \<and> ev_time x = ev_time e"
    proof -
      from that obtain x where x: "x \<in> set as \<or> x \<in> set bs" "ev_time x = ev_time e" by (auto simp: xs)
      from x(1) show ?thesis
      proof
        assume a: "x \<in> set as"
        then have "as \<noteq> []" by auto
        then have "?p = last as" "last as \<in> set as" by simp_all
        moreover have "ev_key x \<le> ev_key (last as)" using s a by (intro sorted_last_ge) (auto simp: xs sorted_append)
        ultimately have "ev_time x \<le> ev_time ?p" "ev_time ?p \<le> ev_time e" using ta [of "last as" e] by (auto simp: ev_key_def)
        with x(2) show ?thesis by simp
      next
        assume b: "x \<in> set bs"
        then obtain y ys where bs: "bs = y # ys" by (cases bs) auto
        then have "ev_key y \<le> ev_key x" using s b by (auto simp: xs sorted_append)
        then have "ev_time y \<le> ev_time x" by (auto simp: ev_key_def)
        with tb [of y] x(2) bs show ?thesis by simp
      qed
    qed
    moreover have "xs \<noteq> [e]" using False xs by (cases as) auto
    moreover have "?n \<in> set xs" "?p \<in> set xs" using np by (auto simp: xs)
    ultimately have "((?n = e \<or> (ev_time ?n \<noteq> ev_time e \<and> ev_time ?p \<noteq> ev_time e)) \<longleftrightarrow> \<not> (\<exists>x \<in> set xs. x \<noteq> e \<and> ev_time x = ev_time e))"
      using ne by metis
    with eq ne \<open>xs \<noteq> [e]\<close> show ?thesis by simp
  qed
qed

text \<open>Without the events of the head's time elsewhere, the follower of the head tells.\<close>

lemma head_neighbour:
  assumes s: "sorted (map ev_key xs)" and d: "distinct xs" and h: "xs = e # xs'"
  shows "\<exists>n. ev_next e xs = Some n \<and> ((n = e \<or> ev_time n \<noteq> ev_time e) \<longleftrightarrow> \<not> (\<exists>x \<in> set xs. x \<noteq> e \<and> ev_time x = ev_time e))"
proof (cases xs')
  case Nil
  then show ?thesis using ev_next_split [of e "[]" xs'] h by simp
next
  case (Cons y ys)
  have n: "ev_next e xs = Some y" using ev_next_split [of e "[]" xs'] h Cons by simp
  have y: "y \<noteq> e" "y \<in> set xs" using d h Cons by auto
  have "ev_time y = ev_time e" if "x \<in> set xs" "x \<noteq> e" "ev_time x = ev_time e" for x
  proof -
    have "ev_key e \<le> ev_key y" "ev_key y \<le> ev_key x" using s h Cons that(1,2) by auto
    with that(3) show ?thesis by (auto simp: ev_key_def)
  qed
  with n y show ?thesis by blast
qed

lemma cal_unlink_ok:
  assumes c: "cal_inv c" and e: "e \<in> set (cal_events c)" "cal_clock c = ev_time e" "\<forall>x \<in> set (cal_events c). ev_key e \<le> ev_key x"
  shows "\<exists>c'. cal_unlink e c = Inr c' \<and> cal_inv c' \<and> mset (cal_events c) = add_mset e (mset (cal_events c'))"
proof -
  have core: "cal_core c" using c by (simp add: cal_inv_def)
  define i where "i = CALENDAR_HASH (ev_time e) c"
  define b where "b = cal_buckets c ! nat i"
  have l: "cal_lastbucket c = i" using c e(2) by (simp add: cal_inv_def i_def)
  have ib: "0 \<le> i" "nat i < length (cal_buckets c)" using hash_bounds [OF core events_bucket(2) [OF core e(1)]] i_def by auto
  have ok: "sorted (map ev_key (bk_list b))" "bk_count b = ntimes (bk_list b)"
    using core_bucket [OF core ib] by (simp_all add: b_def bucket_ok_def)
  have db: "distinct (bk_list b)" using core_distinct [OF core ib(2)] by (simp add: b_def)
  have eb: "e \<in> set (bk_list b)" using events_bucket(1) [OF core e(1)] by (simp add: i_def b_def)
  obtain h hs where hs: "bk_list b = h # hs" using eb by (cases "bk_list b") auto
  have hev: "h \<in> set (cal_events c)" using bucket_events [OF ib(2)] hs by (auto simp: b_def)
  have "ev_key h \<le> ev_key e" using ok(1) hs eb by auto
  with e(3) hev have "ev_key h = ev_key e" by (simp add: order_antisym)
  then have "ev_uid h = ev_uid e" by (simp add: ev_key_def)
  then have "h = e" using core hev e(1) by (auto simp: cal_core_def dest: inj_key_unique)
  with hs have hs: "bk_list b = e # hs" by simp
  from head_neighbour [OF ok(1) db hs] obtain n where n: "ev_next e (bk_list b) = Some n"
    "(n = e \<or> ev_time n \<noteq> ev_time e) \<longleftrightarrow> \<not> (\<exists>x \<in> set (bk_list b). x \<noteq> e \<and> ev_time x = ev_time e)" by blast
  have u: "bk_count b - (if n = e \<or> ev_time n \<noteq> ev_time e then 1 else 0) = ntimes (remove1 e (bk_list b))"
    unfolding ntimes_remove [OF eb db] n(2) ok(2) by simp
  let ?c = "(put_bucket i (bucket_del e b) c)\<lparr>cal_stat_qsize := cal_stat_qsize c - (bk_count b - bk_count (bucket_del e b)), cal_qsize := cal_qsize c - 1\<rparr>"
  have gb: "get_bucket i c = Inr b" using ib by (simp add: get_bucket_def b_def)
  have "cal_unlink e c = Inr ?c"
    unfolding cal_unlink_def Let_def l gb res_bind_simps n(1) option.case bucket_del_def u [symmetric] by simp
  moreover have cd: "cal_core ?c" "mset (cal_events c) = add_mset e (mset (cal_events ?c))"
    by (rule core_del [OF core e(1) i_def b_def]; simp add: put_bucket_def)+
  moreover have "cal_inv ?c"
  proof -
    have "set (cal_events ?c) \<subseteq> set (cal_events c)" using arg_cong [OF cd(2), of set_mset] by auto
    moreover have "cal_clock ?c = cal_clock c" "cal_lastbucket ?c = cal_lastbucket c"
      "CALENDAR_HASH (cal_clock c) ?c = CALENDAR_HASH (cal_clock c) c" by (simp_all add: put_bucket_def CALENDAR_HASH_def)
    ultimately show ?thesis using c cd(1) unfolding cal_inv_def by (simp only:) blast
  qed
  ultimately show ?thesis by blast
qed

lemma inv_resize:
  assumes c: "cal_inv c" and n: "0 < n"
  shows "\<exists>c'. resize n (cal_clock c) c = Inr c' \<and> cal_inv c' \<and> mset (cal_events c') = mset (cal_events c) \<and>
    cal_clock c' = cal_clock c"
proof -
  from c have "cal_core c" "cal_lastbucket c = CALENDAR_HASH (cal_clock c) c" by (simp_all add: cal_inv_def)
  from resize_ok [OF this(1) n this(2)] obtain c' where c': "resize n (cal_clock c) c = Inr c'" "cal_core c'"
    "mset (cal_events c') = mset (cal_events c)" "cal_clock c' = cal_clock c"
    "cal_lastbucket c' = CALENDAR_HASH (cal_clock c) c'" by blast
  have "set (cal_events c') = set (cal_events c)" using c'(3) by (rule mset_eq_setD)
  with c' c have "cal_inv c'" by (simp add: cal_inv_def)
  with c' show ?thesis by blast
qed

text \<open>The statistics are no part of the invariant.\<close>

lemma inv_stats:
  assumes "cal_inv c" "cal_buckets c' = cal_buckets c" "cal_width c' = cal_width c" "cal_nbuckets c' = cal_nbuckets c"
    "cal_diff0 c' = cal_diff0 c" "cal_diff1 c' = cal_diff1 c" "cal_diff2 c' = cal_diff2 c"
    "cal_stat_qsize c' = cal_stat_qsize c" "cal_qsize c' = cal_qsize c" "cal_clock c' = cal_clock c"
    "cal_lastbucket c' = cal_lastbucket c"
  shows "cal_inv c' \<and> cal_events c' = cal_events c"
  using assms bucket_ok_cong [of c' c] hash_cong [of c' c] by (simp add: cal_inv_def cal_core_def cal_events_def)

lemma cal_gap_stats_ok:
  assumes c: "cal_inv c"
  shows "\<exists>c'. cal_gap_stats e c = Inr c' \<and> cal_inv c' \<and> mset (cal_events c') = mset (cal_events c) \<and> cal_clock c' = cal_clock c"
proof -
  let ?c1 = "c\<lparr>cal_gap_num := cal_gap_num c + 1\<rparr>"
  let ?c2 = "?c1\<lparr>cal_avg_gap := (ev_time e - cal_last_time c) / of_int (cal_gap_num c + 1),
      cal_gap_num := 0, cal_last_time := ev_time e, cal_round_num := cal_round_num c + 1\<rparr>"
  have i2: "cal_inv ?c2 \<and> cal_events ?c2 = cal_events c" by (rule inv_stats [OF c]) simp_all
  have "0 < cal_nbuckets ?c2" using c by (simp add: cal_inv_def cal_core_def)
  from inv_resize [OF conjunct1 [OF i2] this] i2 obtain c3 where
    c3: "resize (cal_nbuckets ?c2) (cal_clock ?c2) ?c2 = Inr c3" "cal_inv c3" "mset (cal_events c3) = mset (cal_events c)"
      "cal_clock c3 = cal_clock c" by auto
  have i3: "cal_inv (c3\<lparr>cal_round_num := 0\<rparr>) \<and> cal_events (c3\<lparr>cal_round_num := 0\<rparr>) = cal_events c3"
    by (rule inv_stats [OF c3(2)]) simp_all
  have i1: "cal_inv ?c1 \<and> cal_events ?c1 = cal_events c" by (rule inv_stats [OF c]) simp_all
  have i4: "cal_inv (?c2\<lparr>cal_round_num := 0, cal_head_search := 0, cal_insert_search := 0\<rparr>) \<and>
      cal_events (?c2\<lparr>cal_round_num := 0, cal_head_search := 0, cal_insert_search := 0\<rparr>) = cal_events c"
    by (rule inv_stats [OF c]) simp_all
  have i5: "cal_inv (c\<lparr>cal_last_time := ev_time e\<rparr>) \<and> cal_events (c\<lparr>cal_last_time := ev_time e\<rparr>) = cal_events c"
    by (rule inv_stats [OF c]) simp_all
  show ?thesis
    using c c3 i1 i2 i3 i4 i5 by (simp add: cal_gap_stats_def Let_def)
qed

lemma cal_deque_ok:
  assumes c: "cal_inv c" and p: "cal_pending c = e # es"
  shows "\<exists>c'. cal_deque c = Inr (Some e, c') \<and> cal_inv c' \<and> cal_pending c' = es"
proof -
  have ne: "cal_events c \<noteq> []" using p by (auto simp: cal_pending_def)
  from cal_head_ok [OF c ne] obtain x c1 where c1: "cal_head c = Inr (Some x, c1)" "cal_inv c1" "cal_events c1 = cal_events c"
    "cal_clock c1 = ev_time x" "x \<in> set (cal_events c)" "\<forall>y \<in> set (cal_events c). ev_key x \<le> ev_key y" by blast
  have se: "set (cal_events c) = set (e # es)" using p by (metis cal_pending_def set_sort)
  have xe: "x = e"
  proof -
    have "sorted (map ev_key (e # es))" using p by (metis cal_pending_def sorted_sort_key)
    then have "ev_key e \<le> ev_key x" using c1(5) se by auto
    moreover have "ev_key x \<le> ev_key e" using c1(6) se by simp
    ultimately have "ev_uid x = ev_uid e" by (auto simp: ev_key_def)
    moreover have "distinct (map ev_uid (cal_events c))" using c by (simp add: cal_inv_def cal_core_def)
    ultimately show ?thesis using c1(5) se inj_key_unique [of ev_uid "cal_events c" x e] by simp
  qed
  from cal_gap_stats_ok [OF c1(2), of e] obtain c2 where c2: "cal_gap_stats e c1 = Inr c2" "cal_inv c2"
    "mset (cal_events c2) = mset (cal_events c)" "cal_clock c2 = ev_time e" using c1 xe by auto
  have "set (cal_events c2) = set (cal_events c)" using c2(3) by (rule mset_eq_setD)
  with c1(5,6) xe c2(2,4) obtain c3 where c3: "cal_unlink e c2 = Inr c3" "cal_inv c3"
    "mset (cal_events c2) = add_mset e (mset (cal_events c3))" using cal_unlink_ok [of c2 e] by auto
  have "4 \<le> cal_nbuckets c3" using c3(2) by (simp add: cal_inv_def cal_core_def)
  then have "0 < cal_nbuckets c3 div 2" by linarith
  from inv_resize [OF c3(2) this] obtain c4 where c4: "resize (cal_nbuckets c3 div 2) (cal_clock c3) c3 = Inr c4" "cal_inv c4"
    "mset (cal_events c4) = mset (cal_events c3)" by blast
  have d: "distinct (map ev_uid (cal_events c))" using c by (simp add: cal_inv_def cal_core_def)
  have m: "mset (cal_events c) = add_mset e (mset ys) \<Longrightarrow> sort_key ev_key ys = es" for ys
    using sort_key_remove [OF _ d, of e ys] p by (simp add: cal_pending_def)
  have "cal_pending c3 = es" "cal_pending c4 = es"
    unfolding cal_pending_def using c2(3) c3(3) c4(3) by (intro m; simp)+
  with c1(1) xe c2(1) c3(1,2) c4(1,2) show ?thesis by (simp add: cal_deque_def)
qed

lemma cal_cancel_ok:
  assumes c: "cal_inv c" and e: "e \<in> set (cal_pending c)"
  shows "\<exists>c'. cal_cancel e c = Inr (negate_uid e, c') \<and> cal_inv c' \<and> cal_pending c' = remove1 e (cal_pending c)"
proof -
  have core: "cal_core c" using c by (simp add: cal_inv_def)
  have ev: "e \<in> set (cal_events c)" using e by (simp add: cal_pending_def)
  define i where "i = CALENDAR_HASH (ev_time e) c"
  define b where "b = cal_buckets c ! nat i"
  have ib: "0 \<le> i" "nat i < length (cal_buckets c)" using hash_bounds [OF core events_bucket(2) [OF core ev]] i_def by auto
  have ok: "sorted (map ev_key (bk_list b))" "bk_count b = ntimes (bk_list b)"
    using core_bucket [OF core ib] by (simp_all add: b_def bucket_ok_def)
  have db: "distinct (bk_list b)" using core_distinct [OF core ib(2)] by (simp add: b_def)
  have eb: "e \<in> set (bk_list b)" using events_bucket(1) [OF core ev] by (simp add: i_def b_def)
  from neighbours [OF ok(1) eb db] obtain n p where N: "ev_next e (bk_list b) = Some n \<and> ev_prev e (bk_list b) = Some p \<and>
    (n = e \<longleftrightarrow> bk_list b = [e]) \<and>
    ((n = e \<or> (ev_time n \<noteq> ev_time e \<and> ev_time p \<noteq> ev_time e)) \<longleftrightarrow> \<not> (\<exists>x \<in> set (bk_list b). x \<noteq> e \<and> ev_time x = ev_time e))"
    by (elim exE)
  note n = N [THEN conjunct1] N [THEN conjunct2, THEN conjunct1] N [THEN conjunct2, THEN conjunct2, THEN conjunct1]
    N [THEN conjunct2, THEN conjunct2, THEN conjunct2]
  define u :: int where "u = (if n = e \<or> (ev_time n \<noteq> ev_time e \<and> ev_time p \<noteq> ev_time e) then 1 else 0)"
  have u: "bk_count b - u = ntimes (remove1 e (bk_list b))"
    unfolding ntimes_remove [OF eb db] u_def n(4) ok(2) by simp
  have bd: "\<lparr>bk_list = remove1 e (bk_list b), bk_count = bk_count b - u\<rparr> = bucket_del e b"
    by (simp add: bucket_del_def u)
  have cnt: "\<forall>i < length (cal_buckets c). 0 \<le> bk_count (cal_buckets c ! i)"
    using core by (simp add: cal_core_def bucket_ok_def ntimes_def)
  then have "\<forall>x \<in> set (cal_buckets c). 0 \<le> bk_count x" by (metis in_set_conv_nth)
  then have "bk_count b \<le> cal_stat_qsize c"
    using core ib(2) by (simp add: cal_core_def b_def sum_list_nonneg_member_le)
  then have a1: "u = 0 \<or> (cal_stat_qsize c - u \<ge> 0 \<and> bk_count (bucket_del e b) \<ge> 0)"
    using u by (auto simp: bucket_del_def ntimes_def)
  have a2: "n = e \<longrightarrow> hd (bk_list b) = e" using n(3) by simp
  have a3: "bk_count (bucket_del e b) = 0 \<longrightarrow> bk_list (bucket_del e b) = []"
    by (simp add: bucket_del_def ntimes_def)
  let ?c = "(put_bucket i (bucket_del e b) c)\<lparr>cal_stat_qsize := cal_stat_qsize c - u, cal_qsize := cal_qsize c - 1\<rparr>"
  have gb: "get_bucket i c = Inr b" using ib by (simp add: get_bucket_def b_def)
  have pos: "\<not> ev_uid e \<le> 0" using core ev by (simp add: cal_core_def not_le)
  have "cal_cancel e c = Inr (negate_uid e, ?c)"
    unfolding cal_cancel_def Let_def i_def [symmetric] gb res_bind_simps n(1,2) prod.case option.case u_def [symmetric] bd
    using pos a1 a2 a3 by (simp add: c_assert_def)
  moreover have cd: "cal_core ?c" "mset (cal_events c) = add_mset e (mset (cal_events ?c))"
    using u by (intro core_del [OF core ev i_def b_def]; simp add: put_bucket_def bucket_del_def)+
  moreover have "cal_inv ?c"
  proof -
    have "set (cal_events ?c) \<subseteq> set (cal_events c)" using arg_cong [OF cd(2), of set_mset] by auto
    moreover have "cal_clock ?c = cal_clock c" "cal_lastbucket ?c = cal_lastbucket c"
      "CALENDAR_HASH (cal_clock c) ?c = CALENDAR_HASH (cal_clock c) c" by (simp_all add: put_bucket_def CALENDAR_HASH_def)
    ultimately show ?thesis using c cd(1) unfolding cal_inv_def by (simp only:) blast
  qed
  moreover have "cal_pending ?c = remove1 e (cal_pending c)"
    unfolding cal_pending_def using cd(2) core by (intro sort_key_remove) (simp_all add: cal_core_def)
  ultimately show ?thesis by blast
qed

section \<open>The calendar scheduler is an event queue\<close>

lemma cal_lookup_find: "cal_lookup_loop u bs = find (\<lambda>e. ev_uid e = u) (concat (map bk_list bs))"
proof (induction bs)
  case (Cons b bs)
  have "find P (xs @ ys) = (case find P xs of None \<Rightarrow> find P ys | Some e \<Rightarrow> Some e)" for P :: "event \<Rightarrow> bool" and xs ys
    by (induction xs) auto
  with Cons show ?case by (simp add: ls_lookup_find split: option.split)
qed simp

interpretation calq: event_queue cal_insert cal_deque cal_cancel cal_lookup cal_head cal_pending cal_inv "\<lambda>_ _. True"
proof (unfold_locales, goal_cases)
  case (1 s)
  have "distinct (map ev_uid (cal_pending s)) \<longleftrightarrow> distinct (map ev_uid (cal_events s))"
    by (rule mset_eq_imp_distinct_iff) (simp add: cal_pending_def)
  with 1 show ?case by (auto simp: cal_inv_def cal_core_def) (auto simp: cal_pending_def)
next
  case (2 s n e)
  then show ?case using cal_insert_ok [of s e] by simp
next
  case (3 s)
  then have "cal_events s = []" by (metis cal_pending_def set_empty set_sort)
  with 3 show ?case by (simp add: cal_deque_def cal_head_def cal_inv_def cal_core_def)
next
  case (4 s e es)
  then show ?case using cal_deque_ok [of s e es] by simp
next
  case (5 s e)
  then show ?case using cal_cancel_ok [of s e] by simp
next
  case (6 s u)
  then have "distinct (map ev_uid (cal_events s))" by (simp add: cal_inv_def cal_core_def)
  then show ?case unfolding cal_lookup_def cal_lookup_find cal_pending_def
    using find_uid_mset [of "cal_events s" "sort_key ev_key (cal_events s)" u] by (simp add: cal_events_def)
next
  case (7 s)
  show ?case
  proof (cases "cal_pending s")
    case Nil
    then have "cal_events s = []" by (metis cal_pending_def set_empty set_sort)
    with 7 Nil show ?thesis by (simp add: cal_head_def cal_inv_def cal_core_def)
  next
    case (Cons e es)
    have "cal_events s \<noteq> []" using Cons by (auto simp: cal_pending_def)
    from cal_head_ok [OF 7 this] obtain x c1 where c1: "cal_head s = Inr (Some x, c1)" "cal_inv c1" "cal_events c1 = cal_events s" by blast
    moreover from cal_deque_ok [OF 7 Cons] c1(1) have "x = e"
      by (auto simp: cal_deque_def res_bind_Inr_iff split: if_splits)
    ultimately show ?thesis using Cons by (simp add: cal_pending_def)
  qed
qed simp

section \<open>Simulations\<close>

lemma calendar_init: "cal_inv (cal_init adj minw) \<and> cal_pending (cal_init adj minw) = []"
  by (auto simp: cal_inv_def cal_core_def cal_init_def reinit_def Let_def cal_events_def cal_pending_def bucket_ok_def
      ntimes_def CALENDAR_HASH_def fmod_def c_int_def nth_Cons' numeral_eq_Suc)

text \<open>C6: a simulation on the \<open>CalendarScheduler\<close>, whatever its width settings: the base class calls handlers in order of time, and events of equal time in the order they were scheduled, exactly like a sorted list of events; it never aborts, and it stops early only when it is halted or no event is left. In particular no assertion of the calendar fails, however often it is resized.\<close>

theorem calendar_simulates:
  assumes "well_behaved K handle" "\<forall>c \<in> set cs. 0 \<le> call_delay c"
  shows "\<exists>tr w' s'. simulate cal_insert cal_deque cal_cancel cal_lookup handle (cal_init adj minw) cs n w = Inr (tr, w', s') \<and>
     spec_simulate handle cs n w = Inr (tr, w', abs_sched cal_pending s') \<and>
     sorted (map ev_time tr) \<and> length tr \<le> n \<and> (length tr < n \<longrightarrow> sc_halted s' \<or> cal_pending (sc_q s') = [])"
  using assms calendar_init by (intro calq.simulate_refines [of K]) simp_all

theorem calendar_simulates_witness:
  "\<exists>tr w' s'. simulate cal_insert cal_deque cal_cancel cal_lookup demo_handle (cal_init 10 (1 / 1000)) [Schedule 1 3, At 2 5] 6 0 = Inr (tr, w', s') \<and>
     spec_simulate demo_handle [Schedule 1 3, At 2 5] 6 0 = Inr (tr, w', abs_sched cal_pending s') \<and>
     sorted (map ev_time tr) \<and> length tr \<le> 6 \<and> (length tr < 6 \<longrightarrow> sc_halted s' \<or> cal_pending (sc_q s') = [])"
  using calendar_simulates [OF demo_handle_ok, where cs = "[Schedule 1 3, At 2 5]" and n = 6 and adj = 10 and minw = "1 / 1000" and w = 0] by simp

end
