(* ===== verification/LinkDelay.thy ===== *)
theory LinkDelay
  imports DropTail CalendarSched "HOL-Library.Sublist"
begin

text \<open>
  The link below a queue: class \<open>LinkDelay\<close> of \<open>link/delay.h\<close> and \<open>link/delay.cc\<close>, on a scheduler. A packet given to the link is
  scheduled for the node at the other end, and the event \<open>intr_\<close> of the link for the handler of the queue above, which then serves
  the next packet. The queue, the link and the scheduler are put together as the code does, for any discipline and any event queue
  that keep the contracts \<open>queue_discipline\<close> and \<open>event_queue\<close>.

  A packet is an event itself. The model keeps the packets that are scheduled with their events, in the order they were given to
  the link. Times are real numbers.
\<close>

section \<open>The link\<close>

record link_delay =
  ld_bandwidth :: real
  ld_delay :: time
  ld_intr :: event
  ld_dynamic :: bool
  ld_latest_time :: time
  ld_itq :: "lq option"
  ld_avoidReordering :: bool
  ld_total :: "int list"

definition ld_init :: "real \<Rightarrow> time \<Rightarrow> bool \<Rightarrow> link_delay" where
  "ld_init bandwidth delay avoidReordering =
     \<lparr>ld_bandwidth = bandwidth, ld_delay = delay, ld_intr = fresh_event, ld_dynamic = False, ld_latest_time = 0, ld_itq = None,
      ld_avoidReordering = avoidReordering, ld_total = [0, 0, 0, 0]\<rparr>"

text \<open>The command \<open>isDynamic\<close>.\<close>

definition ld_isDynamic :: "link_delay \<Rightarrow> link_delay" where
  "ld_isDynamic l = l\<lparr>ld_dynamic := True, ld_itq := Some lq_init\<rparr>"

definition txtime :: "link_delay \<Rightarrow> packet \<Rightarrow> time" where
  "txtime l p = 8 * of_int (pk_size p) / ld_bandwidth l"

text \<open>The link with its scheduler, the packets in flight, those received at the other end and those dropped by \<open>reset\<close>.\<close>

record 'q line =
  ln_link :: link_delay
  ln_sched :: "'q sched"
  ln_flight :: "(packet \<times> event) list"
  ln_out :: "(time \<times> packet) list"
  ln_lost :: "packet list"

definition line_init :: "link_delay \<Rightarrow> 'q \<Rightarrow> 'q line" where
  "line_init l q = \<lparr>ln_link = l, ln_sched = sched_init q, ln_flight = [], ln_out = [], ln_lost = []\<rparr>"

definition link_handler :: nat where "link_handler = 0"

definition target_handler :: nat where "target_handler = 1"

definition queue_handler :: nat where "queue_handler = 2"

definition schedule_packet :: "(event \<Rightarrow> 'q \<Rightarrow> 'q res) \<Rightarrow> nat \<Rightarrow> packet \<Rightarrow> time \<Rightarrow> 'q line \<Rightarrow> 'q line res" where
  "schedule_packet ins h p delay w =
     res_bind (schedule_event ins h fresh_event delay (ln_sched w)) (\<lambda>(e, s).
       Inr (w\<lparr>ln_sched := s, ln_flight := ln_flight w @ [(p, e)]\<rparr>))"

definition packet_event :: "'q line \<Rightarrow> packet \<Rightarrow> event" where
  "packet_event w p = (case find (\<lambda>x. pk_addr (fst x) = pk_addr p) (ln_flight w) of None \<Rightarrow> fresh_event | Some (_, e) \<Rightarrow> e)"

definition land :: "packet \<Rightarrow> 'q line \<Rightarrow> 'q line" where
  "land p w = w\<lparr>ln_flight := remove_first (\<lambda>x. pk_addr (fst x) = pk_addr p) (ln_flight w)\<rparr>"

definition ld_forward :: "(event \<Rightarrow> 'q \<Rightarrow> 'q res) \<Rightarrow> time \<Rightarrow> packet \<Rightarrow> 'q line \<Rightarrow> 'q line res" where
  "ld_forward ins txt p w =
     (let l = ln_link w; now = sc_clock (ln_sched w) in
      if ld_dynamic l then
        (case ld_itq l of
           None \<Rightarrow> Inl NullDeref
         | Some q \<Rightarrow>
             schedule_packet ins link_handler p (txt + ld_delay l) (w\<lparr>ln_link := l\<lparr>ld_itq := Some (lq_enque p q)\<rparr>\<rparr>))
      else if ld_avoidReordering l then
        (if txt + ld_delay l < ld_latest_time l - now \<and> ld_latest_time l > 0 then
           let latest = ld_latest_time l + txt
           in schedule_packet ins target_handler p (latest - now) (w\<lparr>ln_link := l\<lparr>ld_latest_time := latest\<rparr>\<rparr>)
         else
           schedule_packet ins target_handler p (txt + ld_delay l)
             (w\<lparr>ln_link := l\<lparr>ld_latest_time := now + txt + ld_delay l\<rparr>\<rparr>))
      else schedule_packet ins target_handler p (txt + ld_delay l) w)"

definition ld_recv :: "(event \<Rightarrow> 'q \<Rightarrow> 'q res) \<Rightarrow> nat \<Rightarrow> packet \<Rightarrow> 'q line \<Rightarrow> 'q line res" where
  "ld_recv ins h p w =
     (let txt = txtime (ln_link w) p in
      res_bind (ld_forward ins txt p w) (\<lambda>w1.
        res_bind (schedule_event ins h (ld_intr (ln_link w1)) txt (ln_sched w1)) (\<lambda>(e, s).
          Inr (w1\<lparr>ln_link := (ln_link w1)\<lparr>ld_intr := e\<rparr>, ln_sched := s\<rparr>))))"

definition ld_send :: "packet \<Rightarrow> 'q line \<Rightarrow> 'q line" where
  "ld_send p w = w\<lparr>ln_out := ln_out w @ [(sc_clock (ln_sched w), p)]\<rparr>"

text \<open>\<open>handle\<close>, for the packets of a dynamic link.\<close>

definition ld_handle :: "event \<Rightarrow> 'q line \<Rightarrow> 'q line res" where
  "ld_handle e w =
     (case ld_itq (ln_link w) of
        None \<Rightarrow> Inl NullDeref
      | Some q \<Rightarrow>
          (case lq_deque q of
             (None, q1) \<Rightarrow> Inl NullDeref
           | (Some p, q1) \<Rightarrow>
               if ev_time (packet_event w p) \<noteq> ev_time e then Inl Abort
               else Inr (ld_send p (land p (w\<lparr>ln_link := (ln_link w)\<lparr>ld_itq := Some q1\<rparr>\<rparr>)))))"

text \<open>The node at the other end: the dispatched event is the packet, found by its number, which \<open>dispatch\<close> has negated.\<close>

definition target_handle :: "event \<Rightarrow> 'q line \<Rightarrow> 'q line res" where
  "target_handle e w =
     (case find (\<lambda>x. ev_uid (snd x) = - ev_uid e) (ln_flight w) of
        None \<Rightarrow> Inl UseAfterFree
      | Some (p, _) \<Rightarrow> Inr (ld_send p (land p w)))"

text \<open>\<open>reset\<close>.\<close>

definition transit_length :: "'q line \<Rightarrow> nat" where
  "transit_length w = (case ld_itq (ln_link w) of None \<Rightarrow> 0 | Some q \<Rightarrow> length (lq_pkts q))"

definition kill_packet :: "packet \<Rightarrow> lq \<Rightarrow> event \<times> 'q \<Rightarrow> 'q line \<Rightarrow> 'q line" where
  "kill_packet p q1 r w = (land p w)\<lparr>ln_link := (ln_link w)\<lparr>ld_itq := Some q1\<rparr>, ln_sched := (ln_sched w)\<lparr>sc_q := snd r\<rparr>,
     ln_lost := ln_lost w @ [p]\<rparr>"

function ld_reset_loop :: "(event \<Rightarrow> 'q \<Rightarrow> (event \<times> 'q) res) \<Rightarrow> 'q line \<Rightarrow> 'q line res" where
  "ld_reset_loop canc w =
     (case ld_itq (ln_link w) of
        None \<Rightarrow> Inl NullDeref
      | Some q \<Rightarrow>
          (case lq_deque q of
             (None, q1) \<Rightarrow> Inr w
           | (Some p, q1) \<Rightarrow>
               (case canc (packet_event w p) (sc_q (ln_sched w)) of
                  Inl err \<Rightarrow> Inl err
                | Inr r \<Rightarrow> ld_reset_loop canc (kill_packet p q1 r w))))"
  by pat_completeness auto
termination
  by (relation "measure (\<lambda>(canc, w). transit_length w)")
    (auto simp: transit_length_def kill_packet_def lq_deque_def split: list.splits)

declare ld_reset_loop.simps [simp del]

definition ld_reset :: "(event \<Rightarrow> 'q \<Rightarrow> (event \<times> 'q) res) \<Rightarrow> 'q line \<Rightarrow> 'q line res" where
  "ld_reset canc w =
     (case ld_itq (ln_link w) of
        None \<Rightarrow> Inr w
      | Some q \<Rightarrow> if lq_len q \<noteq> 0 then ld_reset_loop canc w else Inr w)"

text \<open>\<open>pktintran\<close> counts the packets in transit of a source and a group by kind. The header \<open>hdr_CtrMcast\<close> of a packet (its source
  and group) is an argument, as it belongs to the multicast modules.\<close>

definition pkt_kind :: "(packet \<Rightarrow> int \<times> int) \<Rightarrow> int \<Rightarrow> int \<Rightarrow> packet \<Rightarrow> nat option" where
  "pkt_kind ctrMcast src grp p =
     (let i = pk_ip p in
      if ip_fid i = 30 then (if ip_saddr i = src \<and> ip_daddr i = grp then Some 0 else None)
      else if ip_fid i = 31 then (if ip_saddr i = src \<and> ip_daddr i = grp then Some 1 else None)
      else if ip_fid i = 1 then (if fst (ctrMcast p) = src + 1 \<and> snd (ctrMcast p) = grp then Some 2 else None)
      else if ip_fid i = 0 then (if ip_saddr i = src + 1 \<and> ip_daddr i = grp then Some 3 else None)
      else None)"

fun count_kinds :: "(packet \<Rightarrow> int \<times> int) \<Rightarrow> int \<Rightarrow> int \<Rightarrow> packet list \<Rightarrow> int list \<Rightarrow> int list" where
  "count_kinds ctrMcast src grp [] tot = tot"
| "count_kinds ctrMcast src grp (p # ps) tot =
     count_kinds ctrMcast src grp ps
       (case pkt_kind ctrMcast src grp p of None \<Rightarrow> tot | Some k \<Rightarrow> tot[k := tot ! k + 1])"

definition pktintran :: "(packet \<Rightarrow> int \<times> int) \<Rightarrow> int \<Rightarrow> int \<Rightarrow> link_delay \<Rightarrow> link_delay res" where
  "pktintran ctrMcast src grp l =
     (let l1 = l\<lparr>ld_total := [0, 0, 0, 0]\<rparr> in
      if \<not> ld_dynamic l1 then Inr l1
      else (case ld_itq l1 of
         None \<Rightarrow> Inl NullDeref
       | Some q \<Rightarrow> Inr (l1\<lparr>ld_total := count_kinds ctrMcast src grp (rev (lq_pkts q)) (ld_total l1)\<rparr>)))"

section \<open>A queue above the link\<close>

type_synonym ('q, 'd) port = "'q line \<times> qhand \<times> 'd"

text \<open>The packet that the queue gives to its target, if any, goes to the link.\<close>

definition pass_down :: "(event \<Rightarrow> 'q \<Rightarrow> 'q res) \<Rightarrow> qhand \<Rightarrow> qhand \<Rightarrow> 'q line \<Rightarrow> 'q line res" where
  "pass_down ins h h1 w =
     (case drop (length (qh_sent h)) (qh_sent h1) of [] \<Rightarrow> Inr w | p # _ \<Rightarrow> ld_recv ins queue_handler p w)"

datatype port_input =
    Arrive packet
  | Elsewhere nat time
  | SetBandwidth real
  | SetDelay time
  | LinkReset
  | RunNext

definition run_handler ::
  "(event \<Rightarrow> 'q \<Rightarrow> 'q res) \<Rightarrow> (time \<Rightarrow> 'd \<Rightarrow> (packet option \<times> 'd) res) \<Rightarrow> event \<Rightarrow> ('q, 'd) port \<Rightarrow> ('q, 'd) port res" where
  "run_handler ins qdeq e x =
     (case x of (w, h, d) \<Rightarrow>
        let now = sc_clock (ln_sched w) in
        if ev_handler e = link_handler then res_bind (ld_handle e w) (\<lambda>w1. Inr (w1, h, d))
        else if ev_handler e = target_handler then res_bind (target_handle e w) (\<lambda>w1. Inr (w1, h, d))
        else if ev_handler e = queue_handler then
          res_bind (queue_resume (qdeq now) now (h, d)) (\<lambda>(h1, d1).
            res_bind (pass_down ins h h1 (w\<lparr>ln_link := (ln_link w)\<lparr>ld_intr := e\<rparr>\<rparr>)) (\<lambda>w1. Inr (w1, h1, d1)))
        else Inr (w, h, d))"

fun port_step ::
  "(event \<Rightarrow> 'q \<Rightarrow> 'q res) \<Rightarrow> ('q \<Rightarrow> (event option \<times> 'q) res) \<Rightarrow> (event \<Rightarrow> 'q \<Rightarrow> (event \<times> 'q) res) \<Rightarrow>
    (time \<Rightarrow> packet \<Rightarrow> 'd \<Rightarrow> 'd res) \<Rightarrow> (time \<Rightarrow> 'd \<Rightarrow> (packet option \<times> 'd) res) \<Rightarrow>
    port_input \<Rightarrow> ('q, 'd) port \<Rightarrow> ('q, 'd) port res" where
  "port_step ins edeq canc enq qdeq (Arrive p) (w, h, d) =
     (let now = sc_clock (ln_sched w) in
      res_bind (queue_recv (enq now) (qdeq now) now p (h, d)) (\<lambda>(h1, d1).
        res_bind (pass_down ins h h1 w) (\<lambda>w1. Inr (w1, h1, d1))))"
| "port_step ins edeq canc enq qdeq (Elsewhere k delay) (w, h, d) =
     res_bind (schedule_event ins k fresh_event delay (ln_sched w)) (\<lambda>(e, s). Inr (w\<lparr>ln_sched := s\<rparr>, h, d))"
| "port_step ins edeq canc enq qdeq (SetBandwidth b) (w, h, d) = Inr (w\<lparr>ln_link := (ln_link w)\<lparr>ld_bandwidth := b\<rparr>\<rparr>, h, d)"
| "port_step ins edeq canc enq qdeq (SetDelay t) (w, h, d) = Inr (w\<lparr>ln_link := (ln_link w)\<lparr>ld_delay := t\<rparr>\<rparr>, h, d)"
| "port_step ins edeq canc enq qdeq LinkReset (w, h, d) = res_bind (ld_reset canc w) (\<lambda>w1. Inr (w1, h, d))"
| "port_step ins edeq canc enq qdeq RunNext (w, h, d) =
     res_bind (edeq (sc_q (ln_sched w))) (\<lambda>(r, q).
       let s = (ln_sched w)\<lparr>sc_q := q\<rparr> in
       (case r of
          None \<Rightarrow> Inr (w\<lparr>ln_sched := s\<rparr>, h, d)
        | Some e \<Rightarrow>
            res_bind (dispatch e (ev_time e) s) (\<lambda>(e1, s1). run_handler ins qdeq e1 (w\<lparr>ln_sched := s1\<rparr>, h, d))))"

fun port_run ::
  "(event \<Rightarrow> 'q \<Rightarrow> 'q res) \<Rightarrow> ('q \<Rightarrow> (event option \<times> 'q) res) \<Rightarrow> (event \<Rightarrow> 'q \<Rightarrow> (event \<times> 'q) res) \<Rightarrow>
    (time \<Rightarrow> packet \<Rightarrow> 'd \<Rightarrow> 'd res) \<Rightarrow> (time \<Rightarrow> 'd \<Rightarrow> (packet option \<times> 'd) res) \<Rightarrow>
    port_input list \<Rightarrow> ('q, 'd) port \<Rightarrow> ('q, 'd) port res" where
  "port_run ins edeq canc enq qdeq [] x = Inr x"
| "port_run ins edeq canc enq qdeq (i # xs) x =
     res_bind (port_step ins edeq canc enq qdeq i x) (port_run ins edeq canc enq qdeq xs)"

text \<open>What the environment may do: packets of non-negative size arrive, others schedule events for themselves and not into the past, the
  bandwidth is positive, and the delay is not negative and, unless the link avoids reordering, does not shrink.\<close>

fun inputs_ok :: "bool \<Rightarrow> time \<Rightarrow> port_input list \<Rightarrow> bool" where
  "inputs_ok safe t [] = True"
| "inputs_ok safe t (Arrive p # xs) = (0 \<le> pk_size p \<and> inputs_ok safe t xs)"
| "inputs_ok safe t (Elsewhere k delay # xs) = (queue_handler < k \<and> 0 \<le> delay \<and> inputs_ok safe t xs)"
| "inputs_ok safe t (SetBandwidth b # xs) = (0 < b \<and> inputs_ok safe t xs)"
| "inputs_ok safe t (SetDelay t1 # xs) = (0 \<le> t1 \<and> (safe \<or> t \<le> t1) \<and> inputs_ok safe t1 xs)"
| "inputs_ok safe t (LinkReset # xs) = inputs_ok safe t xs"
| "inputs_ok safe t (RunNext # xs) = inputs_ok safe t xs"

fun arriving :: "port_input list \<Rightarrow> packet list" where
  "arriving [] = []"
| "arriving (Arrive p # xs) = p # arriving xs"
| "arriving (_ # xs) = arriving xs"

section \<open>Lists of events in order\<close>

lemma length_insort_key [simp]: "length (insort_key f e xs) = Suc (length xs)"
  by (induction xs) auto

lemma line_update_eq [simp]:
  "w\<lparr>ln_sched := s, ln_flight := f\<rparr> = w\<lparr>ln_sched := s', ln_flight := f'\<rparr> \<longleftrightarrow> s = s' \<and> f = f'"
  by (cases w) simp

definition flying :: "event \<Rightarrow> bool" where
  "flying e \<longleftrightarrow> ev_handler e = link_handler \<or> ev_handler e = target_handler"

definition for_queue :: "event \<Rightarrow> bool" where
  "for_queue e \<longleftrightarrow> ev_handler e = queue_handler"

lemmas handler_defs = flying_def for_queue_def link_handler_def target_handler_def queue_handler_def

definition same_link :: "link_delay \<Rightarrow> link_delay \<Rightarrow> bool" where
  "same_link l l' \<longleftrightarrow> ld_bandwidth l' = ld_bandwidth l \<and> ld_delay l' = ld_delay l \<and> ld_dynamic l' = ld_dynamic l \<and>
     ld_avoidReordering l' = ld_avoidReordering l"

definition keeps_order :: "link_delay \<Rightarrow> bool" where
  "keeps_order l \<longleftrightarrow> ld_avoidReordering l \<and> \<not> ld_dynamic l"

text \<open>The latest time at which a packet in flight may arrive, when the next one cannot be given to the link before \<open>b\<close>.\<close>

definition horizon :: "time \<Rightarrow> link_delay \<Rightarrow> time" where
  "horizon b l = (if keeps_order l then ld_latest_time l else b + ld_delay l)"

definition transit_ok :: "link_delay \<Rightarrow> (packet \<times> event) list \<Rightarrow> bool" where
  "transit_ok l fs \<longleftrightarrow> (if ld_dynamic l then (\<exists>q. ld_itq l = Some q \<and> lq_pkts q = map fst fs \<and> lq_len q = int (length fs))
     else ld_itq l = None)"

lemma link_intr_simps [simp]:
  "horizon b (l\<lparr>ld_intr := e\<rparr>) = horizon b l" "transit_ok (l\<lparr>ld_intr := e\<rparr>) fs = transit_ok l fs"
  by (simp_all add: horizon_def keeps_order_def transit_ok_def)

text \<open>What has become of the packets given to the link: it delivers in order and loses none but those dropped by \<open>reset\<close>.\<close>

definition history :: "'q line \<Rightarrow> packet list \<Rightarrow> bool" where
  "history w ps \<longleftrightarrow> subseq (map snd (ln_out w) @ map fst (ln_flight w)) ps \<and>
     mset (map snd (ln_out w)) + mset (map fst (ln_flight w)) + mset (ln_lost w) = mset ps \<and>
     sorted (map fst (ln_out w)) \<and> (\<forall>x \<in> set (ln_out w). fst x \<le> sc_clock (ln_sched w))"

lemma inputs_ok_replicate [simp]: "inputs_ok safe t (replicate n RunNext)"
  by (induction n) simp_all

lemma arriving_replicate [simp]: "arriving (replicate n RunNext) = []"
  by (induction n) simp_all

lemma history_final:
  assumes "history w ps" "ln_flight w = []"
  shows "subseq (map snd (ln_out w)) ps" "mset (map snd (ln_out w)) + mset (ln_lost w) = mset ps" "sorted (map fst (ln_out w))"
    "ln_lost w = [] \<Longrightarrow> map snd (ln_out w) = ps"
proof -
  show s: "subseq (map snd (ln_out w)) ps" "mset (map snd (ln_out w)) + mset (ln_lost w) = mset ps" "sorted (map fst (ln_out w))"
    using assms by (simp_all add: history_def)
  assume "ln_lost w = []"
  with s(2) have "length (map snd (ln_out w)) = length ps" by (metis add_0_right mset.simps(1) size_mset)
  with s(1) show "map snd (ln_out w) = ps" by (rule subseq_same_length)
qed

section \<open>The contract of the queue, with sizes\<close>

locale sized_discipline = queue_discipline +
  fixes sizes :: "'a \<Rightarrow> int set"
  assumes enq_sizes: "enq now p d = Inr d' \<Longrightarrow> sizes d' \<subseteq> insert (pk_size p) (sizes d)"
    and enq_grows: "enq now p d = Inr d' \<Longrightarrow> size (backlog d') \<le> Suc (size (backlog d))"
    and deq_sizes: "deq now d = Inr (r, d') \<Longrightarrow> sizes d' \<subseteq> sizes d \<and> (\<forall>p. r = Some p \<longrightarrow> pk_size p \<in> sizes d)"

section \<open>Queue, link and scheduler\<close>

locale queue_link =
  ev: event_queue ins edeq canc look first pending einv room +
  qd: sized_discipline enq qdeq qinv fits backlog dropped sizes
  for ins :: "event \<Rightarrow> 'q \<Rightarrow> 'q res"
    and edeq :: "'q \<Rightarrow> (event option \<times> 'q) res"
    and canc :: "event \<Rightarrow> 'q \<Rightarrow> (event \<times> 'q) res"
    and look :: "int \<Rightarrow> 'q \<Rightarrow> event option"
    and first :: "'q \<Rightarrow> (event option \<times> 'q) res"
    and pending :: "'q \<Rightarrow> event list"
    and einv :: "'q \<Rightarrow> bool"
    and room :: "nat \<Rightarrow> 'q \<Rightarrow> bool"
    and enq :: "time \<Rightarrow> packet \<Rightarrow> 'd \<Rightarrow> 'd res"
    and qdeq :: "time \<Rightarrow> 'd \<Rightarrow> (packet option \<times> 'd) res"
    and qinv :: "'d \<Rightarrow> bool"
    and fits :: "packet \<Rightarrow> 'd \<Rightarrow> bool"
    and backlog :: "'d \<Rightarrow> addr multiset"
    and dropped :: "'d \<Rightarrow> addr multiset"
    and sizes :: "'d \<Rightarrow> int set"
begin

abbreviation events :: "'q line \<Rightarrow> event list" where
  "events w \<equiv> pending (sc_q (ln_sched w))"

definition line_ok :: "time \<Rightarrow> event list \<Rightarrow> 'q line \<Rightarrow> bool" where
  "line_ok b intrs w \<longleftrightarrow> ev.good (ln_sched w) \<and> 0 < ld_bandwidth (ln_link w) \<and> 0 \<le> ld_delay (ln_link w) \<and>
     filter flying (events w) = map snd (ln_flight w) \<and>
     (\<forall>x \<in> set (ln_flight w). ev_handler (snd x) = (if ld_dynamic (ln_link w) then link_handler else target_handler) \<and>
        ev_time (snd x) \<le> horizon b (ln_link w)) \<and>
     filter for_queue (events w) = intrs \<and> transit_ok (ln_link w) (ln_flight w)"

lemma schedule_packet_ok:
  assumes l: "line_ok b intrs w" and r: "room (Suc n) (sc_q (ln_sched w))" and d: "0 \<le> delay"
    and t: "\<forall>x \<in> set (ln_flight w). ev_time (snd x) \<le> sc_clock (ln_sched w) + delay"
    and h: "h = link_handler \<or> h = target_handler"
  shows "\<exists>s e. schedule_packet ins h p delay w = Inr (w\<lparr>ln_sched := s, ln_flight := ln_flight w @ [(p, e)]\<rparr>) \<and>
    ev.good s \<and> room n (sc_q s) \<and> sc_clock s = sc_clock (ln_sched w) \<and> ev_handler e = h \<and> ev_time e = sc_clock s + delay \<and>
    filter flying (pending (sc_q s)) = map snd (ln_flight w) @ [e] \<and> filter for_queue (pending (sc_q s)) = intrs \<and>
    length (pending (sc_q s)) = Suc (length (events w))"
proof -
  have g: "ev.good (ln_sched w)" using l by (simp add: line_ok_def)
  let ?e = "fresh_event\<lparr>ev_uid := sc_uid (ln_sched w), ev_handler := h, ev_time := sc_clock (ln_sched w) + delay\<rparr>"
  have "ev_uid fresh_event \<le> 0" by (simp add: fresh_event_def)
  from ev.schedule_event_ok [OF g r d this, of h] obtain s where
    s: "schedule_event ins h fresh_event delay (ln_sched w) = Inr (?e, s)" "ev.good s" "room n (sc_q s)"
      "sc_clock s = sc_clock (ln_sched w)" "pending (sc_q s) = insort_key ev_key ?e (events w)" by blast
  have so: "sorted (map ev_key (events w))" using ev.pending_ok g by (auto simp: ev.good_def)
  have f: "flying ?e" "\<not> for_queue ?e" using h by (auto simp: handler_defs)
  have fl: "filter flying (events w) = map snd (ln_flight w)" "filter for_queue (events w) = intrs" using l by (auto simp: line_ok_def)
  have "ev_key x < ev_key ?e" if x: "x \<in> set (map snd (ln_flight w))" for x
  proof -
    have "x \<in> set (events w)" using x fl(1) [symmetric] by simp
    then have "ev_uid x < sc_uid (ln_sched w)" using g by (auto simp: ev.good_def)
    moreover have "ev_time x \<le> sc_clock (ln_sched w) + delay" using x t by auto
    ultimately show ?thesis by (auto simp: ev_key_def)
  qed
  then have "filter flying (pending (sc_q s)) = map snd (ln_flight w) @ [?e]"
    unfolding s(5) filter_insort [where P = flying, OF so f(1)] fl(1) by (intro insort_key_last) blast
  moreover have "filter for_queue (pending (sc_q s)) = intrs"
    unfolding s(5) filter_insort_triv [where P = for_queue, OF f(2)] fl(2) ..
  ultimately show ?thesis using s by (intro exI [of _ s] exI [of _ ?e]) (simp add: schedule_packet_def)
qed

text \<open>A packet given to an idle link is scheduled after all that are in flight.\<close>

definition forwarded :: "time \<Rightarrow> event list \<Rightarrow> nat \<Rightarrow> packet \<Rightarrow> 'q line \<Rightarrow> 'q line \<Rightarrow> bool" where
  "forwarded txt intrs n p w w1 \<longleftrightarrow> line_ok (sc_clock (ln_sched w) + txt) intrs w1 \<and>
    room n (sc_q (ln_sched w1)) \<and> (\<exists>e. ln_flight w1 = ln_flight w @ [(p, e)]) \<and> ln_out w1 = ln_out w \<and> ln_lost w1 = ln_lost w \<and>
    same_link (ln_link w) (ln_link w1) \<and> ld_intr (ln_link w1) = ld_intr (ln_link w) \<and>
    sc_clock (ln_sched w1) = sc_clock (ln_sched w) \<and> length (events w1) = Suc (length (events w))"

lemma schedule_forwarded:
  assumes l: "line_ok (sc_clock (ln_sched w)) intrs w" and r: "room (Suc n) (sc_q (ln_sched w))"
    and h: "h = (if ld_dynamic (ln_link w) then link_handler else target_handler)" and dl: "0 \<le> dl"
    and t: "horizon (sc_clock (ln_sched w)) (ln_link w) \<le> sc_clock (ln_sched w) + dl"
    and hz: "horizon (sc_clock (ln_sched w) + txt) l1 = sc_clock (ln_sched w) + dl"
    and s: "same_link (ln_link w) l1" "ld_intr l1 = ld_intr (ln_link w)"
    and q: "if ld_dynamic l1
      then (\<exists>q. ld_itq l1 = Some q \<and> lq_pkts q = map fst (ln_flight w) @ [p] \<and> lq_len q = int (length (ln_flight w)) + 1)
      else ld_itq l1 = None"
  shows "\<exists>w1. schedule_packet ins h p dl (w\<lparr>ln_link := l1\<rparr>) = Inr w1 \<and> forwarded txt intrs n p w w1"
proof -
  let ?now = "sc_clock (ln_sched w)"
  have fl: "\<forall>x \<in> set (ln_flight w). ev_handler (snd x) = h \<and> ev_time (snd x) \<le> ?now + dl"
    using l t order_trans unfolding line_ok_def h by blast
  moreover have "h = link_handler \<or> h = target_handler" using h by simp
  ultimately obtain sc e where
    e: "schedule_packet ins h p dl w = Inr (w\<lparr>ln_sched := sc, ln_flight := ln_flight w @ [(p, e)]\<rparr>)" "ev.good sc"
      "room n (sc_q sc)" "sc_clock sc = ?now" "ev_handler e = h" "ev_time e = ?now + dl"
      "filter flying (pending (sc_q sc)) = map snd (ln_flight w) @ [e]" "filter for_queue (pending (sc_q sc)) = intrs"
      "length (pending (sc_q sc)) = Suc (length (events w))"
    using schedule_packet_ok [OF l r dl, of h p] by auto
  let ?w1 = "w\<lparr>ln_link := l1, ln_sched := sc, ln_flight := ln_flight w @ [(p, e)]\<rparr>"
  have "schedule_packet ins h p dl (w\<lparr>ln_link := l1\<rparr>) = Inr ?w1"
    using e(1) by (auto simp: schedule_packet_def res_bind_Inr_iff)
  moreover have "\<forall>x \<in> set (ln_flight ?w1). ev_handler (snd x) = h \<and> ev_time (snd x) \<le> horizon (?now + txt) l1"
    using fl e(5,6) unfolding hz by simp
  moreover have "transit_ok l1 (ln_flight w @ [(p, e)])" using q by (auto simp: transit_ok_def split: if_split_asm)
  ultimately have "schedule_packet ins h p dl (w\<lparr>ln_link := l1\<rparr>) = Inr ?w1" "line_ok (?now + txt) intrs ?w1"
    using l e(2,7,8) s(1) h by (simp_all add: line_ok_def same_link_def)
  then show ?thesis using e s by (intro exI [of _ ?w1]) (simp add: forwarded_def)
qed

lemma ld_forward_ok:
  assumes l: "line_ok (sc_clock (ln_sched w)) intrs w" and r: "room (Suc n) (sc_q (ln_sched w))" and x: "0 \<le> txt"
  shows "\<exists>w1. ld_forward ins txt p w = Inr w1 \<and> forwarded txt intrs n p w w1"
proof -
  let ?l = "ln_link w" and ?now = "sc_clock (ln_sched w)"
  have d: "0 \<le> ld_delay ?l" and now: "0 \<le> ?now" using l by (auto simp: line_ok_def ev.good_def)
  note step = schedule_forwarded [OF l r]
  note fwd = same_link_def horizon_def keeps_order_def
  consider (dyn) q where "ld_dynamic ?l" "ld_itq ?l = Some q" "lq_pkts q = map fst (ln_flight w)" "lq_len q = int (length (ln_flight w))"
    | (late) "\<not> ld_dynamic ?l" "ld_avoidReordering ?l" "txt + ld_delay ?l < ld_latest_time ?l - ?now \<and> ld_latest_time ?l > 0"
    | (early) "\<not> ld_dynamic ?l" "ld_avoidReordering ?l" "\<not> (txt + ld_delay ?l < ld_latest_time ?l - ?now \<and> ld_latest_time ?l > 0)"
    | (plain) "\<not> ld_dynamic ?l" "\<not> ld_avoidReordering ?l"
    using l by (auto simp: line_ok_def transit_ok_def split: if_split_asm)
  then show ?thesis
  proof cases
    case dyn
    let ?l1 = "?l\<lparr>ld_itq := Some (lq_enque p q)\<rparr>"
    have "ld_forward ins txt p w = schedule_packet ins link_handler p (txt + ld_delay ?l) (w\<lparr>ln_link := ?l1\<rparr>)"
      using dyn by (simp add: ld_forward_def Let_def)
    moreover have "\<exists>w1. schedule_packet ins link_handler p (txt + ld_delay ?l) (w\<lparr>ln_link := ?l1\<rparr>) = Inr w1 \<and> forwarded txt intrs n p w w1"
      using dyn x d by (intro step) (simp_all add: fwd lq_enque_def)
    ultimately show ?thesis by simp
  next
    case late
    let ?l1 = "?l\<lparr>ld_latest_time := ld_latest_time ?l + txt\<rparr>" and ?d = "ld_latest_time ?l + txt - ?now"
    have "ld_forward ins txt p w = schedule_packet ins target_handler p ?d (w\<lparr>ln_link := ?l1\<rparr>)"
      using late by (simp add: ld_forward_def Let_def)
    moreover have "\<exists>w1. schedule_packet ins target_handler p ?d (w\<lparr>ln_link := ?l1\<rparr>) = Inr w1 \<and> forwarded txt intrs n p w w1"
      using late x d l by (intro step) (simp_all add: fwd line_ok_def transit_ok_def)
    ultimately show ?thesis by simp
  next
    case early
    let ?l1 = "?l\<lparr>ld_latest_time := ?now + txt + ld_delay ?l\<rparr>" and ?d = "txt + ld_delay ?l"
    have "ld_forward ins txt p w = schedule_packet ins target_handler p ?d (w\<lparr>ln_link := ?l1\<rparr>)"
      unfolding ld_forward_def Let_def using early by (simp only: if_False if_True)
    moreover have "ld_latest_time ?l \<le> ?now + ?d" using early(3) x d now by linarith
    then have "\<exists>w1. schedule_packet ins target_handler p ?d (w\<lparr>ln_link := ?l1\<rparr>) = Inr w1 \<and> forwarded txt intrs n p w w1"
      using early(1,2) x d l by (intro step) (simp_all add: fwd line_ok_def transit_ok_def)
    ultimately show ?thesis by simp
  next
    case plain
    have "ld_forward ins txt p w = schedule_packet ins target_handler p (txt + ld_delay ?l) (w\<lparr>ln_link := ?l\<rparr>)"
      using plain by (simp add: ld_forward_def Let_def)
    moreover have "\<exists>w1. schedule_packet ins target_handler p (txt + ld_delay ?l) (w\<lparr>ln_link := ?l\<rparr>) = Inr w1 \<and> forwarded txt intrs n p w w1"
      using plain x d l by (intro step) (simp_all add: fwd line_ok_def transit_ok_def)
    ultimately show ?thesis by simp
  qed
qed

definition line_inv :: "bool \<Rightarrow> 'q line \<Rightarrow> bool" where
  "line_inv b w \<longleftrightarrow> (if b then line_ok (ev_time (ld_intr (ln_link w))) [ld_intr (ln_link w)] w
     else line_ok (sc_clock (ln_sched w)) [] w \<and> ev_uid (ld_intr (ln_link w)) \<le> 0)"

lemma ld_recv_ok:
  assumes l: "line_inv False w" and r: "room (Suc (Suc n)) (sc_q (ln_sched w))" and p: "0 \<le> pk_size p" and hi: "history w ps"
  shows "\<exists>w'. ld_recv ins queue_handler p w = Inr w' \<and> line_inv True w' \<and> room n (sc_q (ln_sched w')) \<and> history w' (ps @ [p]) \<and>
    ln_lost w' = ln_lost w \<and> same_link (ln_link w) (ln_link w') \<and> length (events w') = Suc (Suc (length (events w)))"
proof -
  let ?t = "txtime (ln_link w) p" and ?now = "sc_clock (ln_sched w)"
  from l have l0: "line_ok ?now [] w" and i: "ev_uid (ld_intr (ln_link w)) \<le> 0" by (auto simp: line_inv_def)
  have t: "0 \<le> ?t" using p l0 by (simp add: txtime_def line_ok_def)
  from ld_forward_ok [OF l0 r t, of p] obtain w1 e where w1: "ld_forward ins ?t p w = Inr w1" "line_ok (?now + ?t) [] w1"
    "room (Suc n) (sc_q (ln_sched w1))" "ln_flight w1 = ln_flight w @ [(p, e)]" "ln_out w1 = ln_out w" "ln_lost w1 = ln_lost w"
    "same_link (ln_link w) (ln_link w1)" "ld_intr (ln_link w1) = ld_intr (ln_link w)" "sc_clock (ln_sched w1) = ?now"
    "length (events w1) = Suc (length (events w))" unfolding forwarded_def by blast
  let ?e = "(ld_intr (ln_link w))\<lparr>ev_uid := sc_uid (ln_sched w1), ev_handler := queue_handler, ev_time := ?now + ?t\<rparr>"
  have g: "ev.good (ln_sched w1)" using w1(2) by (simp add: line_ok_def)
  from ev.schedule_event_ok [OF g w1(3) t i, of queue_handler] obtain s where
    s: "schedule_event ins queue_handler (ld_intr (ln_link w)) ?t (ln_sched w1) = Inr (?e, s)" "ev.good s" "room n (sc_q s)"
      "sc_clock s = ?now" "pending (sc_q s) = insort_key ev_key ?e (events w1)" unfolding w1(9) by blast
  let ?w = "w1\<lparr>ln_link := (ln_link w1)\<lparr>ld_intr := ?e\<rparr>, ln_sched := s\<rparr>"
  have so: "sorted (map ev_key (events w1))" using ev.pending_ok g by (auto simp: ev.good_def)
  have f: "\<not> flying ?e" "for_queue ?e" by (auto simp: handler_defs)
  have "filter flying (pending (sc_q s)) = map snd (ln_flight w1)" "filter for_queue (pending (sc_q s)) = [?e]"
    using w1(2) unfolding s(5) filter_insort [where P = for_queue, OF so f(2)] filter_insort_triv [where P = flying, OF f(1)] line_ok_def
    by simp_all
  then have "line_ok (?now + ?t) [?e] ?w"
    using w1(2) s(2) by (simp add: line_ok_def)
  then have "line_inv True ?w" by (simp add: line_inv_def)
  moreover have "ld_recv ins queue_handler p w = Inr ?w" using w1(1,8) s(1) by (simp add: ld_recv_def Let_def)
  moreover have "history ?w (ps @ [p])"
    using hi w1(4-6) s(4) unfolding history_def by (auto simp flip: append_assoc)
  moreover have "same_link (ln_link w) (ln_link ?w)" using w1(7) by (simp add: same_link_def)
  ultimately show ?thesis using w1(6,10) s(3,5) by (intro exI [of _ ?w]) simp
qed

text \<open>A packet arrives at the other end.\<close>

lemma line_inv_flight:
  "line_inv b w \<Longrightarrow> filter flying (events w) = map snd (ln_flight w) \<and>
   (\<forall>x \<in> set (ln_flight w). ev_handler (snd x) = (if ld_dynamic (ln_link w) then link_handler else target_handler)) \<and>
   filter for_queue (events w) = (if b then [ld_intr (ln_link w)] else []) \<and> transit_ok (ln_link w) (ln_flight w) \<and> ev.good (ln_sched w)"
  by (auto simp: line_inv_def line_ok_def split: if_split_asm)

lemma horizon_mono: "b \<le> b' \<Longrightarrow> horizon b l \<le> horizon b' l"
  by (simp add: horizon_def)

text \<open>The state of the line after the scheduler has taken the next event.\<close>

definition advanced :: "event \<Rightarrow> 'q \<Rightarrow> 'q line \<Rightarrow> 'q line" where
  "advanced e q w = w\<lparr>ln_sched := (ln_sched w)\<lparr>sc_q := q, sc_clock := ev_time e\<rparr>\<rparr>"

lemma advanced_ok:
  assumes l: "line_inv b w" and e: "events w = e # es" "pending q = es" and c: "sc_clock (ln_sched w) \<le> ev_time e"
    and g: "ev.good (ln_sched (advanced e q w))" and n: "\<not> for_queue e"
    and f: "map snd fs = filter flying es" "set fs \<subseteq> set (ln_flight w)" and l1: "same_link (ln_link w) l1"
      "ld_intr l1 = ld_intr (ln_link w)" "ld_latest_time l1 = ld_latest_time (ln_link w)"
    and t: "transit_ok l1 fs"
  shows "line_inv b ((advanced e q w)\<lparr>ln_link := l1, ln_flight := fs, ln_out := os\<rparr>)"
proof -
  let ?w = "(advanced e q w)\<lparr>ln_link := l1, ln_flight := fs, ln_out := os\<rparr>"
  have le: "horizon c l1 = horizon c (ln_link w)" for c using l1 by (simp add: horizon_def keeps_order_def same_link_def)
  have q: "filter for_queue es = filter for_queue (events w)" using e(1) n by simp
  have "line_ok c' (filter for_queue (events w)) ?w" if "line_ok c (filter for_queue (events w)) w" "c \<le> c'" for c c'
  proof -
    have "\<forall>x \<in> set fs. ev_handler (snd x) = (if ld_dynamic l1 then link_handler else target_handler) \<and> ev_time (snd x) \<le> horizon c' l1"
      using that f(2) l1(1) horizon_mono [OF that(2), of "ln_link w"] unfolding le line_ok_def same_link_def by fastforce
    then show ?thesis
      using that(1) g e(2) f(1) l1(1) q t by (simp add: line_ok_def advanced_def same_link_def)
  qed
  from this [of "ev_time (ld_intr (ln_link w))" "ev_time (ld_intr (ln_link w))"] this [OF _ c] l l1(2) line_inv_flight [OF l] show ?thesis
    by (simp add: line_inv_def advanced_def split: if_split_asm)
qed

lemma history_land:
  "history w ps \<Longrightarrow> ln_flight w = (p, e) # fs \<Longrightarrow> sc_clock (ln_sched w) \<le> t \<Longrightarrow>
   history (w\<lparr>ln_sched := (ln_sched w)\<lparr>sc_q := q, sc_clock := t\<rparr>, ln_link := l, ln_flight := fs, ln_out := ln_out w @ [(t, p)]\<rparr>) ps"
  by (fastforce simp: history_def sorted_append)

lemma land_head [simp]: "ln_flight w = (p, e) # fs \<Longrightarrow> land p w = w\<lparr>ln_flight := fs\<rparr>"
  by (simp add: land_def)

lemma run_flying_ok:
  assumes l: "line_inv b w" and hi: "history w ps" and e: "events w = e # es" "flying e" and q: "pending q = es"
    and g: "ev.good (ln_sched (advanced e q w))" and c: "sc_clock (ln_sched w) \<le> ev_time e"
  shows "\<exists>w'. run_handler ins qdeq (negate_uid e) (advanced e q w, h, d) = Inr (w', h, d) \<and> line_inv b w' \<and> history w' ps \<and>
    ln_lost w' = ln_lost w \<and> same_link (ln_link w) (ln_link w') \<and> sc_q (ln_sched w') = q"
proof -
  note f = line_inv_flight [OF l]
  from f e obtain p fs where fs: "ln_flight w = (p, e) # fs" "map snd fs = filter flying es" by (cases "ln_flight w") auto
  have n: "\<not> for_queue e" using e(2) by (auto simp: handler_defs)
  have out: "history ((advanced e q w)\<lparr>ln_link := l1, ln_flight := fs, ln_out := ln_out w @ [(ev_time e, p)]\<rparr>) ps" for l1
    using history_land [OF hi fs(1) c, where l = l1 and q = q] by (simp add: advanced_def)
  note ok = advanced_ok [OF l e(1) q c g n fs(2), where os = "ln_out w @ [(ev_time e, p)]"]
  show ?thesis
  proof (cases "ld_dynamic (ln_link w)")
    case True
    then obtain tq where tq: "ld_itq (ln_link w) = Some tq" "lq_pkts tq = map fst (ln_flight w)" "lq_len tq = int (length (ln_flight w))"
      using f by (auto simp: transit_ok_def)
    let ?tq = "\<lparr>lq_pkts = map fst fs, lq_len = int (length fs), lq_bytes = lq_bytes tq - pk_size p\<rparr>"
    let ?l = "(ln_link w)\<lparr>ld_itq := Some ?tq\<rparr>"
    let ?w = "(advanced e q w)\<lparr>ln_link := ?l, ln_flight := fs, ln_out := ln_out w @ [(ev_time e, p)]\<rparr>"
    have "ev_handler e = link_handler" using f fs(1) True by simp
    then have "run_handler ins qdeq (negate_uid e) (advanced e q w, h, d) = Inr (?w, h, d)"
      using tq fs(1) by (simp add: run_handler_def Let_def ld_handle_def lq_deque_def packet_event_def advanced_def negate_uid_def
          ld_send_def)
    moreover have "line_inv b ?w" using True fs(1) by (intro ok) (auto simp: same_link_def transit_ok_def)
    ultimately show ?thesis using out by (intro exI [of _ ?w]) (simp add: same_link_def advanced_def)
  next
    case False
    let ?w = "(advanced e q w)\<lparr>ln_link := ln_link w, ln_flight := fs, ln_out := ln_out w @ [(ev_time e, p)]\<rparr>"
    have "ev_handler e = target_handler" using f fs(1) False by simp
    then have "run_handler ins qdeq (negate_uid e) (advanced e q w, h, d) = Inr (?w, h, d)"
      using fs(1) by (simp add: run_handler_def Let_def target_handle_def advanced_def negate_uid_def
          ld_send_def link_handler_def target_handler_def)
    moreover have "line_inv b ?w" using False f fs(1) by (intro ok) (auto simp: same_link_def transit_ok_def)
    ultimately show ?thesis using out [of "ln_link w"] by (intro exI [of _ ?w]) (simp add: same_link_def advanced_def)
  qed
qed

text \<open>The queue above: what \<open>recv\<close> and \<open>resume\<close> do with its discipline.\<close>

definition queue_inv :: "qhand \<Rightarrow> 'd \<Rightarrow> bool" where
  "queue_inv h d \<longleftrightarrow> qd.hand_inv (h, d) \<and> (\<forall>n \<in> sizes d. 0 \<le> n)"

lemma queue_recv_cases:
  assumes i: "queue_inv h d" and p: "fits p d" "pk_addr p \<notin># backlog d" "0 \<le> pk_size p"
  obtains (kept) d1 where "queue_recv (enq now) (qdeq now) now p (h, d) = Inr (h, d1)" "queue_inv h d1" "\<forall>q. fits q d \<longrightarrow> fits q d1"
      "qd.total (h, d1) = add_mset (pk_addr p) (qd.total (h, d))" "size (backlog d1) \<le> Suc (size (backlog d))"
  | (sent) h1 d1 q where "queue_recv (enq now) (qdeq now) now p (h, d) = Inr (h1, d1)" "queue_inv h1 d1" "\<forall>q. fits q d \<longrightarrow> fits q d1"
      "qd.total (h1, d1) = add_mset (pk_addr p) (qd.total (h, d))" "size (backlog d1) \<le> size (backlog d)"
      "\<not> qh_blocked h" "qh_blocked h1" "qh_sent h1 = qh_sent h @ [q]" "0 \<le> pk_size q"
proof -
  have hi: "qd.hand_inv (h, d)" using i by (simp add: queue_inv_def)
  from qd.recv_ok [of "(h, d)" p now] hi p obtain h1 d1 where
    r: "queue_recv (enq now) (qdeq now) now p (h, d) = Inr (h1, d1)" "qd.total (h1, d1) = add_mset (pk_addr p) (qd.total (h, d))"
      "qd.hand_inv (h1, d1)" "\<forall>q. fits q d \<longrightarrow> fits q d1" by auto
  from r(1) obtain d2 where d2: "enq now p d = Inr d2" by (auto simp: queue_recv_def res_bind_Inr_iff)
  have s2: "\<forall>n \<in> sizes d2. 0 \<le> n" using i p(3) qd.enq_sizes [OF d2] by (auto simp: queue_inv_def)
  note g2 = qd.enq_grows [OF d2]
  show thesis
  proof (cases "qh_blocked h")
    case True
    with r(1) d2 have "h1 = h" "d1 = d2" by (simp_all add: queue_recv_def)
    with r s2 g2 show thesis by (intro kept [of d2]) (simp_all add: queue_inv_def)
  next
    case False
    with r(1) d2 obtain x d3 where x: "qdeq now d2 = Inr (x, d3)"
      by (auto simp: queue_recv_def res_bind_Inr_iff)
    have s3: "\<forall>n \<in> sizes d3. 0 \<le> n" "\<forall>q. x = Some q \<longrightarrow> 0 \<le> pk_size q" using s2 qd.deq_sizes [OF x] by auto
    from qd.enq_ok [of d p now] hi p d2 have "qinv d2" by (auto simp: qd.hand_inv_def)
    from qd.deq_ok [OF this, of now] x have c: "case x of None \<Rightarrow> backlog d3 = {#} | Some q \<Rightarrow> size (backlog d3) < size (backlog d2)"
      by (auto split: option.splits)
    show thesis
    proof (cases x)
      case None
      with False r(1) d2 x have "h1 = h" "d1 = d3" by (simp_all add: queue_recv_def)
      moreover have "size (backlog d3) = 0" using c None by simp
      ultimately show thesis using r s3 by (intro kept [of d3]) (simp_all add: queue_inv_def)
    next
      case (Some q)
      with False r(1) d2 x have e: "h1 = (note_busy now h)\<lparr>qh_blocked := True, qh_sent := qh_sent h @ [q]\<rparr>" "d1 = d3"
        by (simp_all add: queue_recv_def)
      then have "qh_blocked h1" "qh_sent h1 = qh_sent h @ [q]" by simp_all
      moreover have "size (backlog d1) \<le> size (backlog d)" using c g2 e(2) Some by simp
      ultimately show thesis using r s3 False Some e(2) by (intro sent [of h1 d1 q]) (simp_all add: queue_inv_def)
    qed
  qed
qed

lemma queue_resume_cases:
  assumes i: "queue_inv h d" and b: "qh_blocked h"
  obtains (idle) h1 d1 where "queue_resume (qdeq now) now (h, d) = Inr (h1, d1)" "queue_inv h1 d1" "\<forall>q. fits q d \<longrightarrow> fits q d1"
      "qd.total (h1, d1) = qd.total (h, d)" "backlog d1 = {#}" "\<not> qh_blocked h1" "qh_sent h1 = qh_sent h"
  | (sent) h1 d1 q where "queue_resume (qdeq now) now (h, d) = Inr (h1, d1)" "queue_inv h1 d1" "\<forall>q. fits q d \<longrightarrow> fits q d1"
      "qd.total (h1, d1) = qd.total (h, d)" "size (backlog d1) < size (backlog d)"
      "qh_blocked h1" "qh_sent h1 = qh_sent h @ [q]" "0 \<le> pk_size q"
proof -
  have hi: "qd.hand_inv (h, d)" using i by (simp add: queue_inv_def)
  from qd.resume_ok [OF hi, of now] obtain h1 d1 where
    r: "queue_resume (qdeq now) now (h, d) = Inr (h1, d1)" "qd.total (h1, d1) = qd.total (h, d)" "qd.hand_inv (h1, d1)"
      "\<forall>q. fits q d \<longrightarrow> fits q d1" by auto
  from r(1) obtain x d3 where x: "qdeq now d = Inr (x, d3)" by (auto simp: queue_resume_def res_bind_Inr_iff)
  have s3: "\<forall>n \<in> sizes d3. 0 \<le> n" "\<forall>q. x = Some q \<longrightarrow> 0 \<le> pk_size q"
    using i qd.deq_sizes [OF x] by (auto simp: queue_inv_def)
  from qd.deq_ok [of d now] hi x have c: "case x of None \<Rightarrow> backlog d3 = {#} | Some q \<Rightarrow> size (backlog d3) < size (backlog d)"
    by (auto simp: qd.hand_inv_def split: option.splits)
  have u: "qh_unblock_on_resume h" using hi by (simp add: qd.hand_inv_def)
  show thesis
  proof (cases x)
    case None
    with r(1) x u have "h1 = (note_busy now h)\<lparr>qh_blocked := False\<rparr>" "d1 = d3" by (simp_all add: queue_resume_def)
    with r s3 c None show thesis by (intro idle [of h1 d1]) (simp_all add: queue_inv_def)
  next
    case (Some q)
    with r(1) x have "h1 = h\<lparr>qh_sent := qh_sent h @ [q]\<rparr>" "d1 = d3" by (simp_all add: queue_resume_def)
    with r s3 c Some b show thesis by (intro sent [of h1 d1 q]) (simp_all add: queue_inv_def)
  qed
qed

text \<open>The interrupt of the link: the queue serves its next packet or becomes idle.\<close>

definition load :: "'q line \<Rightarrow> 'd \<Rightarrow> nat" where
  "load w d = 2 * size (backlog d) + length (events w)"

definition port_inv :: "('q, 'd) port \<Rightarrow> bool" where
  "port_inv x \<longleftrightarrow> (case x of (w, h, d) \<Rightarrow> line_inv (qh_blocked h) w \<and> history w (qh_sent h) \<and> queue_inv h d)"

lemma history_frame:
  "history w ps \<Longrightarrow> sc_clock (ln_sched w) \<le> sc_clock s \<Longrightarrow> history (w\<lparr>ln_sched := s, ln_link := l\<rparr>) ps"
  by (auto simp: history_def)

lemma run_intr_ok:
  assumes l: "line_inv (qh_blocked h) w" and hi: "history w (qh_sent h)" and qi: "queue_inv h d"
    and e: "events w = e # es" "for_queue e" "0 < ev_uid e" and q: "pending q = es" "room (Suc (Suc n)) q"
    and g: "ev.good (ln_sched (advanced e q w))" and c: "sc_clock (ln_sched w) \<le> ev_time e"
  shows "\<exists>w' h' d'. run_handler ins qdeq (negate_uid e) (advanced e q w, h, d) = Inr (w', h', d') \<and> port_inv (w', h', d') \<and>
    room n (sc_q (ln_sched w')) \<and> ln_lost w' = ln_lost w \<and> same_link (ln_link w) (ln_link w') \<and>
    qd.total (h', d') = qd.total (h, d) \<and> (\<forall>p. fits p d \<longrightarrow> fits p d') \<and> load w' d' < load w d"
proof -
  note f = line_inv_flight [OF l]
  from f e have b: "qh_blocked h" "ld_intr (ln_link w) = e" "filter for_queue es = []"
    by (auto split: if_split_asm)
  have ne: "\<not> flying e" using e(2) by (auto simp: handler_defs)
  let ?w = "(advanced e q w)\<lparr>ln_link := (ln_link w)\<lparr>ld_intr := negate_uid e\<rparr>\<rparr>"
  have he: "ev_handler e = queue_handler" using e(2) by (simp add: for_queue_def)
  have run: "run_handler ins qdeq (negate_uid e) (advanced e q w, h, d) =
      res_bind (queue_resume (qdeq (ev_time e)) (ev_time e) (h, d)) (\<lambda>(h1, d1). res_bind (pass_down ins h h1 ?w) (\<lambda>w1. Inr (w1, h1, d1)))"
    using he by (simp add: run_handler_def Let_def negate_uid_def advanced_def handler_defs)
  have "line_ok (ev_time e) [e] w" using l b by (simp add: line_inv_def)
  then have "line_ok (ev_time e) [] ?w"
    using g e(1) q(1) b(3) ne by (simp add: line_ok_def advanced_def)
  then have li: "line_inv False ?w" using e(3) by (simp add: line_inv_def negate_uid_def advanced_def)
  have hi1: "history ?w (qh_sent h)"
    using history_frame [OF hi, of "(ln_sched w)\<lparr>sc_q := q, sc_clock := ev_time e\<rparr>"] c by (simp add: advanced_def)
  have k: "same_link (ln_link w) (ln_link ?w)" "ln_lost ?w = ln_lost w" "sc_q (ln_sched ?w) = q"
    by (simp_all add: same_link_def advanced_def)
  have ev: "length (events ?w) = length es" "length (events w) = Suc (length es)" using q(1) e(1) k(3) by simp_all
  from qi b(1) show ?thesis
  proof (cases rule: queue_resume_cases [where now = "ev_time e"])
    case (idle h1 d1)
    then have "run_handler ins qdeq (negate_uid e) (advanced e q w, h, d) = Inr (?w, h1, d1)" unfolding run by (simp add: pass_down_def)
    moreover have "room n (sc_q (ln_sched ?w))" using q(2) k(3) ev.room_mono [of "Suc (Suc n)" q n] by simp
    moreover have "port_inv (?w, h1, d1)" using li hi1 idle by (simp add: port_inv_def)
    moreover have "load ?w d1 < load w d" unfolding load_def ev using idle(5) by simp
    ultimately show ?thesis using idle(3,4) k(1,2) by (intro exI [of _ ?w] exI [of _ h1] exI [of _ d1]) blast
  next
    case (sent h1 d1 p)
    have "room (Suc (Suc n)) (sc_q (ln_sched ?w))" using q(2) k(3) by simp
    from ld_recv_ok [OF li this sent(8) hi1] obtain w' where
      w': "ld_recv ins queue_handler p ?w = Inr w'" "line_inv True w'" "room n (sc_q (ln_sched w'))" "history w' (qh_sent h @ [p])"
        "ln_lost w' = ln_lost w" "same_link (ln_link ?w) (ln_link w')" "length (events w') = Suc (Suc (length es))"
      unfolding k(2) ev(1) by blast
    have "run_handler ins qdeq (negate_uid e) (advanced e q w, h, d) = Inr (w', h1, d1)"
      unfolding run using sent(1,7) w'(1) by (simp add: pass_down_def)
    moreover have "port_inv (w', h1, d1)" using w'(2,4) sent by (simp add: port_inv_def)
    moreover have "load w' d1 < load w d" unfolding load_def w'(7) ev(2) using sent(5) by simp
    moreover have "same_link (ln_link w) (ln_link w')" using k(1) w'(6) by (simp add: same_link_def)
    ultimately show ?thesis using sent(3,4) w'(3,5) by (intro exI [of _ w'] exI [of _ h1] exI [of _ d1]) blast
  qed
qed

lemma reset_loop_ok:
  "ln_flight w = fs \<Longrightarrow> line_ok b intrs w \<Longrightarrow> ld_dynamic (ln_link w) \<Longrightarrow>
   \<exists>w'. ld_reset_loop canc w = Inr w' \<and> line_ok b intrs w' \<and> ln_flight w' = [] \<and> ln_lost w' = ln_lost w @ map fst fs \<and>
     ln_out w' = ln_out w \<and> same_link (ln_link w) (ln_link w') \<and> ld_intr (ln_link w') = ld_intr (ln_link w) \<and>
     sc_clock (ln_sched w') = sc_clock (ln_sched w) \<and> length (events w') \<le> length (events w) \<and>
     (\<forall>n. room n (sc_q (ln_sched w)) \<longrightarrow> room n (sc_q (ln_sched w')))"
proof (induction fs arbitrary: w)
  case Nil
  then have "ld_reset_loop canc w = Inr w"
    by (subst ld_reset_loop.simps) (auto simp: line_ok_def transit_ok_def lq_deque_def)
  with Nil show ?case by (intro exI [of _ w]) (simp add: same_link_def)
next
  case (Cons x fs)
  obtain p e where x: "x = (p, e)" by (cases x)
  from Cons.prems(2,3) obtain tq where tq: "ld_itq (ln_link w) = Some tq" "lq_pkts tq = map fst (ln_flight w)"
    "lq_len tq = int (length (ln_flight w))" by (auto simp: line_ok_def transit_ok_def)
  have g: "ev.good (ln_sched w)" and fl: "filter flying (events w) = e # map snd fs"
    using Cons.prems(1,2) x by (simp_all add: line_ok_def)
  from fl have "e \<in> set (filter flying (events w))" by simp
  then have e: "e \<in> set (events w)" "flying e" by simp_all
  have di: "distinct (events w)" using ev.pending_ok g by (auto simp: ev.good_def distinct_map)
  from ev.canc_ok [OF _ e(1)] g obtain q where q: "canc e (sc_q (ln_sched w)) = Inr (negate_uid e, q)" "einv q"
    "pending q = remove1 e (events w)" "\<forall>n. room n (sc_q (ln_sched w)) \<longrightarrow> room n q" by (auto simp: ev.good_def)
  let ?tq = "\<lparr>lq_pkts = map fst fs, lq_len = int (length fs), lq_bytes = lq_bytes tq - pk_size p\<rparr>"
  let ?w = "kill_packet p ?tq (negate_uid e, q) w"
  have w: "ld_reset_loop canc w = ld_reset_loop canc ?w"
    using tq Cons.prems(1) x q(1) by (subst ld_reset_loop.simps) (simp add: lq_deque_def packet_event_def)
  have k: "ln_flight ?w = fs" "ln_lost ?w = ln_lost w @ [p]" "ln_out ?w = ln_out w" "same_link (ln_link w) (ln_link ?w)"
    "ld_intr (ln_link ?w) = ld_intr (ln_link w)" "ln_sched ?w = (ln_sched w)\<lparr>sc_q := q\<rparr>" "ld_dynamic (ln_link ?w)"
    "ld_itq (ln_link ?w) = Some ?tq" "horizon b (ln_link ?w) = horizon b (ln_link w)"
    using Cons.prems(1,3) x by (simp_all add: kill_packet_def same_link_def horizon_def keeps_order_def)
  have "ev.good ((ln_sched w)\<lparr>sc_q := q\<rparr>)" using g q(2,3) di by (auto simp: ev.good_def)
  moreover have "filter flying (pending q) = map snd fs" unfolding q(3) filter_remove1 fl by simp
  moreover have "filter for_queue (pending q) = intrs"
    using Cons.prems(2) e(2) unfolding q(3) filter_remove1 by (subst remove1_idem) (auto simp: line_ok_def handler_defs)
  ultimately have "line_ok b intrs ?w"
    using Cons.prems(1-3) k x unfolding line_ok_def transit_ok_def same_link_def by simp
  from Cons.IH [OF k(1) this k(7)] obtain w' where
    "ld_reset_loop canc ?w = Inr w'" "line_ok b intrs w'" "ln_flight w' = []" "ln_lost w' = ln_lost ?w @ map fst fs"
    "ln_out w' = ln_out ?w" "same_link (ln_link ?w) (ln_link w')" "ld_intr (ln_link w') = ld_intr (ln_link ?w)"
    "sc_clock (ln_sched w') = sc_clock (ln_sched ?w)" "length (events w') \<le> length (events ?w)"
    "\<forall>n. room n (sc_q (ln_sched ?w)) \<longrightarrow> room n (sc_q (ln_sched w'))" by blast
  moreover have "length (pending q) \<le> length (events w)" unfolding q(3) by (simp add: length_remove1)
  ultimately show ?case unfolding w k(2,3,5,6) using k(4) q(4) x
    by (intro exI [of _ w']) (auto simp: same_link_def)
qed

text \<open>One input.\<close>

definition delay_after :: "port_input \<Rightarrow> time \<Rightarrow> time" where
  "delay_after i t = (case i of SetDelay t1 \<Rightarrow> t1 | _ \<Rightarrow> t)"

definition stepped :: "nat \<Rightarrow> port_input \<Rightarrow> ('q, 'd) port \<Rightarrow> ('q, 'd) port \<Rightarrow> bool" where
  "stepped n i x x' \<longleftrightarrow> (case x of (w, h, d) \<Rightarrow> case x' of (w', h', d') \<Rightarrow>
     port_inv (w', h', d') \<and> room n (sc_q (ln_sched w')) \<and> qd.total (h', d') = mset (map pk_addr (arriving [i])) + qd.total (h, d) \<and>
     (\<forall>q. fits q d \<longrightarrow> fits q d') \<and> (i \<noteq> LinkReset \<longrightarrow> ln_lost w' = ln_lost w) \<and> load w' d' \<le> load w d + 2 \<and>
     (i = RunNext \<longrightarrow> load w' d' \<le> load w d - 1) \<and> keeps_order (ln_link w') = keeps_order (ln_link w) \<and>
     ld_delay (ln_link w') = delay_after i (ld_delay (ln_link w)))"

lemma same_link_keeps: "same_link l l' \<Longrightarrow> keeps_order l' = keeps_order l \<and> ld_delay l' = ld_delay l"
  by (simp add: same_link_def keeps_order_def)

lemma room_less: "room (Suc (Suc n)) q \<Longrightarrow> room n q"
  using ev.room_mono [of "Suc (Suc n)" q n] by simp

lemma step_arrive:
  assumes i: "port_inv (w, h, d)" and r: "room (Suc (Suc n)) (sc_q (ln_sched w))"
    and p: "0 \<le> pk_size p" "fits p d" "pk_addr p \<notin># qd.total (h, d)"
  shows "\<exists>x. port_step ins edeq canc enq qdeq (Arrive p) (w, h, d) = Inr x \<and> stepped n (Arrive p) (w, h, d) x"
proof -
  from i have l: "line_inv (qh_blocked h) w" and hi: "history w (qh_sent h)" and q: "queue_inv h d" by (simp_all add: port_inv_def)
  have nb: "pk_addr p \<notin># backlog d" using p(3) by (simp add: qd.total_def)
  let ?now = "sc_clock (ln_sched w)"
  from q p(2) nb p(1) show ?thesis
  proof (cases rule: queue_recv_cases [where now = ?now])
    case (kept d1)
    then have "port_step ins edeq canc enq qdeq (Arrive p) (w, h, d) = Inr (w, h, d1)" by (simp add: Let_def pass_down_def)
    moreover have "load w d1 \<le> load w d + 2" using kept(5) by (simp add: load_def)
    ultimately show ?thesis using l hi kept room_less [OF r] by (simp add: stepped_def port_inv_def delay_after_def)
  next
    case (sent h1 d1 x)
    have li: "line_inv False w" using l sent(6) by simp
    from ld_recv_ok [OF li r sent(9) hi] obtain w' where
      w': "ld_recv ins queue_handler x w = Inr w'" "line_inv True w'" "room n (sc_q (ln_sched w'))" "history w' (qh_sent h @ [x])"
        "ln_lost w' = ln_lost w" "same_link (ln_link w) (ln_link w')" "length (events w') = Suc (Suc (length (events w)))" by blast
    have "port_step ins edeq canc enq qdeq (Arrive p) (w, h, d) = Inr (w', h1, d1)"
      using sent(1,8) w'(1) by (simp add: Let_def pass_down_def)
    moreover have "load w' d1 \<le> load w d + 2" unfolding load_def w'(7) using sent(5) by simp
    ultimately show ?thesis using w' sent same_link_keeps [OF w'(6)] by (simp add: stepped_def port_inv_def delay_after_def)
  qed
qed

lemma step_elsewhere:
  assumes i: "port_inv (w, h, d)" and r: "room (Suc (Suc n)) (sc_q (ln_sched w))" and k: "queue_handler < k" "0 \<le> t"
  shows "\<exists>x. port_step ins edeq canc enq qdeq (Elsewhere k t) (w, h, d) = Inr x \<and> stepped n (Elsewhere k t) (w, h, d) x"
proof -
  from i have l: "line_inv (qh_blocked h) w" and hi: "history w (qh_sent h)" and q: "queue_inv h d" by (simp_all add: port_inv_def)
  have g: "ev.good (ln_sched w)" using line_inv_flight [OF l] by simp
  let ?e = "fresh_event\<lparr>ev_uid := sc_uid (ln_sched w), ev_handler := k, ev_time := sc_clock (ln_sched w) + t\<rparr>"
  have "ev_uid fresh_event \<le> 0" by (simp add: fresh_event_def)
  from ev.schedule_event_ok [OF g r k(2) this, of k] obtain s where
    s: "schedule_event ins k fresh_event t (ln_sched w) = Inr (?e, s)" "ev.good s" "room (Suc n) (sc_q s)"
      "sc_clock s = sc_clock (ln_sched w)" "pending (sc_q s) = insort_key ev_key ?e (events w)" by blast
  have f: "\<not> flying ?e" "\<not> for_queue ?e" using k(1) by (auto simp: handler_defs)
  have "line_inv (qh_blocked h) (w\<lparr>ln_sched := s\<rparr>)"
    using l s(2,4) by (simp add: line_inv_def line_ok_def s(5) filter_insort_triv [where P = flying, OF f(1)]
        filter_insort_triv [where P = for_queue, OF f(2)] split: if_split_asm)
  moreover have "history (w\<lparr>ln_sched := s\<rparr>) (qh_sent h)" using hi s(4) by (simp add: history_def)
  moreover have "room n (sc_q s)" using s(3) ev.room_mono [of "Suc n" "sc_q s" n] by simp
  moreover have "load (w\<lparr>ln_sched := s\<rparr>) d \<le> load w d + 2" by (simp add: load_def s(5))
  ultimately show ?thesis using q s(1) by (simp add: stepped_def port_inv_def delay_after_def)
qed

lemma step_tune:
  assumes i: "port_inv (w, h, d)" and r: "room (Suc (Suc n)) (sc_q (ln_sched w))"
    and t: "i = SetBandwidth b \<and> 0 < b \<or> i = SetDelay t \<and> 0 \<le> t \<and> (keeps_order (ln_link w) \<or> ld_delay (ln_link w) \<le> t)"
  shows "\<exists>x. port_step ins edeq canc enq qdeq i (w, h, d) = Inr x \<and> stepped n i (w, h, d) x"
proof -
  from i have l: "line_inv (qh_blocked h) w" and hi: "history w (qh_sent h)" and q: "queue_inv h d" by (simp_all add: port_inv_def)
  have mono: "line_ok c intrs (w\<lparr>ln_link := l1\<rparr>)" if "line_ok c intrs w" "horizon c (ln_link w) \<le> horizon c l1"
    "0 < ld_bandwidth l1" "0 \<le> ld_delay l1" "ld_dynamic l1 = ld_dynamic (ln_link w)" "ld_itq l1 = ld_itq (ln_link w)" for c intrs l1
    using that order_trans unfolding line_ok_def transit_ok_def by fastforce
  have bd: "0 < ld_bandwidth (ln_link w)" "0 \<le> ld_delay (ln_link w)" using l by (auto simp: line_inv_def line_ok_def split: if_split_asm)
  obtain l1 where l1: "port_step ins edeq canc enq qdeq i (w, h, d) = Inr (w\<lparr>ln_link := l1\<rparr>, h, d)" "keeps_order l1 = keeps_order (ln_link w)"
    "ld_delay l1 = delay_after i (ld_delay (ln_link w))" "0 < ld_bandwidth l1" "0 \<le> ld_delay l1" "ld_intr l1 = ld_intr (ln_link w)"
    "ld_dynamic l1 = ld_dynamic (ln_link w)" "ld_itq l1 = ld_itq (ln_link w)" "ld_latest_time l1 = ld_latest_time (ln_link w)"
    "keeps_order l1 \<or> ld_delay (ln_link w) \<le> ld_delay l1"
    using t
  proof
    assume "i = SetBandwidth b \<and> 0 < b"
    then show thesis using bd by (intro that [of "(ln_link w)\<lparr>ld_bandwidth := b\<rparr>"]) (simp_all add: keeps_order_def delay_after_def)
  next
    assume "i = SetDelay t \<and> 0 \<le> t \<and> (keeps_order (ln_link w) \<or> ld_delay (ln_link w) \<le> t)"
    then show thesis using bd by (intro that [of "(ln_link w)\<lparr>ld_delay := t\<rparr>"]) (auto simp: keeps_order_def delay_after_def)
  qed
  then have "horizon c (ln_link w) \<le> horizon c l1" for c by (auto simp: horizon_def)
  with l mono l1(4-8) have "line_inv (qh_blocked h) (w\<lparr>ln_link := l1\<rparr>)" by (simp add: line_inv_def split: if_split_asm)
  moreover have "history (w\<lparr>ln_link := l1\<rparr>) (qh_sent h)" using hi by (simp add: history_def)
  moreover have "load (w\<lparr>ln_link := l1\<rparr>) d = load w d" by (simp add: load_def)
  moreover have "arriving [i] = []" "i \<noteq> RunNext" using t by auto
  ultimately show ?thesis using q l1(1-3) room_less [OF r] by (simp add: stepped_def port_inv_def)
qed

lemma step_reset:
  assumes i: "port_inv (w, h, d)" and r: "room (Suc (Suc n)) (sc_q (ln_sched w))"
  shows "\<exists>x. port_step ins edeq canc enq qdeq LinkReset (w, h, d) = Inr x \<and> stepped n LinkReset (w, h, d) x"
proof -
  from i have l: "line_inv (qh_blocked h) w" and hi: "history w (qh_sent h)" and q: "queue_inv h d" by (simp_all add: port_inv_def)
  note tr = line_inv_flight [OF l]
  show ?thesis
  proof (cases "ld_itq (ln_link w) = None \<or> ln_flight w = []")
    case True
    then have "ld_reset canc w = Inr w" using tr by (auto simp: ld_reset_def transit_ok_def split: if_split_asm)
    with i room_less [OF r] show ?thesis by (simp add: stepped_def delay_after_def)
  next
    case False
    then have dy: "ld_dynamic (ln_link w)" and lr: "ld_reset canc w = ld_reset_loop canc w"
      using tr by (auto simp: ld_reset_def transit_ok_def split: if_split_asm)
    define b where "b = (if qh_blocked h then ev_time (ld_intr (ln_link w)) else sc_clock (ln_sched w))"
    define intrs where "intrs = (if qh_blocked h then [ld_intr (ln_link w)] else [])"
    have "line_ok b intrs w" using l by (simp add: line_inv_def b_def intrs_def split: if_split_asm)
    from reset_loop_ok [OF refl this dy] obtain w' where
      w': "ld_reset_loop canc w = Inr w'" "line_ok b intrs w'" "ln_flight w' = []" "ln_lost w' = ln_lost w @ map fst (ln_flight w)"
        "ln_out w' = ln_out w" "same_link (ln_link w) (ln_link w')" "ld_intr (ln_link w') = ld_intr (ln_link w)"
        "sc_clock (ln_sched w') = sc_clock (ln_sched w)" "length (events w') \<le> length (events w)"
        "\<forall>n. room n (sc_q (ln_sched w)) \<longrightarrow> room n (sc_q (ln_sched w'))" by blast
    have "line_inv (qh_blocked h) w'" using l w'(2,7,8) by (simp add: line_inv_def b_def intrs_def split: if_split_asm)
    moreover have "history w' (qh_sent h)"
      using hi w'(3-5,8)
        subseq_order.order_trans [OF subseq_rev_drop_many [OF subseq_order.order_refl], of "map snd (ln_out w)" "map fst (ln_flight w)" "qh_sent h"]
      by (simp add: history_def add_ac)
    moreover have "load w' d \<le> load w d" using w'(9) by (simp add: load_def)
    ultimately show ?thesis using q lr w'(1,10) room_less [OF r] same_link_keeps [OF w'(6)] r room_less
      by (simp add: stepped_def port_inv_def delay_after_def)
  qed
qed

lemma step_run:
  assumes i: "port_inv (w, h, d)" and r: "room (Suc (Suc n)) (sc_q (ln_sched w))"
  shows "\<exists>x. port_step ins edeq canc enq qdeq RunNext (w, h, d) = Inr x \<and> stepped n RunNext (w, h, d) x"
proof -
  from i have l: "line_inv (qh_blocked h) w" and hi: "history w (qh_sent h)" and qi: "queue_inv h d" by (simp_all add: port_inv_def)
  note f = line_inv_flight [OF l]
  then have g: "ev.good (ln_sched w)" by simp
  show ?thesis
  proof (cases "events w")
    case Nil
    then have "edeq (sc_q (ln_sched w)) = Inr (None, sc_q (ln_sched w))" using ev.deq_Nil g by (simp add: ev.good_def)
    then have "port_step ins edeq canc enq qdeq RunNext (w, h, d) = Inr (w, h, d)" by simp
    moreover have "\<not> qh_blocked h" using f Nil by (auto split: if_split_asm)
    then have "backlog d = {#}" using qi by (simp add: queue_inv_def qd.hand_inv_def)
    ultimately show ?thesis using i room_less [OF r] Nil by (simp add: stepped_def load_def delay_after_def)
  next
    case (Cons e es)
    from ev.next_event [OF g Cons] obtain q where
      q: "edeq (sc_q (ln_sched w)) = Inr (Some e, q)" "pending q = es" "\<forall>n. room n (sc_q (ln_sched w)) \<longrightarrow> room n q"
        "ev.good ((ln_sched w)\<lparr>sc_q := q, sc_clock := ev_time e\<rparr>)" "sc_clock (ln_sched w) \<le> ev_time e" "0 < ev_uid e" by blast
    have ga: "ev.good (ln_sched (advanced e q w))" using q(4) by (simp add: advanced_def)
    have run: "port_step ins edeq canc enq qdeq RunNext (w, h, d) = run_handler ins qdeq (negate_uid e) (advanced e q w, h, d)"
      using q(1,5) by (simp add: dispatch_def advanced_def Let_def)
    have rq: "room (Suc (Suc n)) q" using q(3) r by blast
    consider (flying) "flying e" | (intr) "for_queue e" | (other) "\<not> flying e" "\<not> for_queue e" by blast
    then show ?thesis
    proof cases
      case flying
      from run_flying_ok [OF l hi Cons flying q(2) ga q(5), of h d] obtain w' where
        w': "run_handler ins qdeq (negate_uid e) (advanced e q w, h, d) = Inr (w', h, d)" "line_inv (qh_blocked h) w'"
          "history w' (qh_sent h)" "ln_lost w' = ln_lost w" "same_link (ln_link w) (ln_link w')" "sc_q (ln_sched w') = q" by blast
      have "load w' d = load w d - 1" using Cons w'(6) q(2) by (simp add: load_def)
      with w' run qi room_less [OF rq] same_link_keeps [OF w'(5)] show ?thesis
        by (simp add: stepped_def port_inv_def delay_after_def)
    next
      case intr
      from run_intr_ok [OF l hi qi Cons intr q(6,2) rq ga q(5)] run show ?thesis
        by (fastforce simp: stepped_def delay_after_def dest: same_link_keeps)
    next
      case other
      then have "port_step ins edeq canc enq qdeq RunNext (w, h, d) = Inr (advanced e q w, h, d)"
        unfolding run by (simp add: run_handler_def Let_def negate_uid_def handler_defs)
      moreover have "line_inv (qh_blocked h) ((advanced e q w)\<lparr>ln_link := ln_link w, ln_flight := ln_flight w, ln_out := ln_out w\<rparr>)"
        using f other Cons by (intro advanced_ok [OF l Cons q(2,5) ga other(2)]) (simp_all add: same_link_def)
      moreover have "history (w\<lparr>ln_sched := (ln_sched w)\<lparr>sc_q := q, sc_clock := ev_time e\<rparr>, ln_link := ln_link w\<rparr>) (qh_sent h)"
        by (rule history_frame [OF hi]) (use q(5) in simp)
      ultimately show ?thesis using qi room_less [OF rq] Cons q(2)
        by (simp add: stepped_def port_inv_def delay_after_def advanced_def load_def)
    qed
  qed
qed

lemma port_step_ok:
  assumes i: "port_inv (w, h, d)" and r: "room (Suc (Suc n)) (sc_q (ln_sched w))"
    and ok: "inputs_ok (keeps_order (ln_link w)) (ld_delay (ln_link w)) (x # xs)"
    and a: "\<forall>p \<in> set (arriving [x]). fits p d \<and> pk_addr p \<notin># qd.total (h, d)"
  shows "\<exists>y. port_step ins edeq canc enq qdeq x (w, h, d) = Inr y \<and> stepped n x (w, h, d) y"
proof (cases x)
  case (Arrive p)
  with step_arrive [OF i r] ok a show ?thesis by simp
next
  case (Elsewhere k t)
  with step_elsewhere [OF i r] ok show ?thesis by simp
next
  case (SetBandwidth b)
  with step_tune [OF i r, of x b] ok show ?thesis by auto
next
  case (SetDelay t)
  with step_tune [OF i r, of x _ t] ok show ?thesis by auto
next
  case LinkReset
  with step_reset [OF i r] show ?thesis by simp
next
  case RunNext
  with step_run [OF i r] show ?thesis by simp
qed

lemma stepped_inputs:
  "stepped n x (w, h, d) (w', h', d') \<Longrightarrow> inputs_ok (keeps_order (ln_link w)) (ld_delay (ln_link w)) (x # xs) \<Longrightarrow>
   inputs_ok (keeps_order (ln_link w')) (ld_delay (ln_link w')) xs"
  by (cases x) (auto simp: stepped_def delay_after_def)

lemma arriving_Cons: "arriving (x # xs) = arriving [x] @ arriving xs"
  by (cases x) simp_all

lemma port_run_ok:
  "port_inv (w, h, d) \<Longrightarrow> room (2 * length xs + n) (sc_q (ln_sched w)) \<Longrightarrow>
   inputs_ok (keeps_order (ln_link w)) (ld_delay (ln_link w)) xs \<Longrightarrow>
   \<forall>p \<in> set (arriving xs). fits p d \<and> pk_addr p \<notin># qd.total (h, d) \<Longrightarrow> distinct (map pk_addr (arriving xs)) \<Longrightarrow>
   \<exists>w' h' d'. port_run ins edeq canc enq qdeq xs (w, h, d) = Inr (w', h', d') \<and> port_inv (w', h', d') \<and> room n (sc_q (ln_sched w')) \<and>
     qd.total (h', d') = mset (map pk_addr (arriving xs)) + qd.total (h, d) \<and>
     (LinkReset \<notin> set xs \<longrightarrow> ln_lost w' = ln_lost w) \<and>
     load w' d' \<le> load w d + 2 * length xs \<and> (list_all ((=) RunNext) xs \<longrightarrow> load w' d' \<le> load w d - length xs)"
proof (induction xs arbitrary: w h d)
  case (Cons x xs)
  have r: "room (Suc (Suc (2 * length xs + n))) (sc_q (ln_sched w))" using Cons.prems(2) by simp
  have a: "\<forall>p \<in> set (arriving [x]). fits p d \<and> pk_addr p \<notin># qd.total (h, d)"
    "\<forall>p \<in> set (arriving xs). fits p d \<and> pk_addr p \<notin># qd.total (h, d)"
    "distinct (map pk_addr (arriving xs))" "\<forall>p \<in> set (arriving xs). pk_addr p \<notin> pk_addr ` set (arriving [x])"
    using Cons.prems(4,5) unfolding arriving_Cons [of x xs] by auto
  from port_step_ok [OF Cons.prems(1) r Cons.prems(3) a(1)] obtain w1 h1 d1 where
    s: "port_step ins edeq canc enq qdeq x (w, h, d) = Inr (w1, h1, d1)" "stepped (2 * length xs + n) x (w, h, d) (w1, h1, d1)" by auto
  have st: "port_inv (w1, h1, d1)" "room (2 * length xs + n) (sc_q (ln_sched w1))"
    "qd.total (h1, d1) = mset (map pk_addr (arriving [x])) + qd.total (h, d)" "\<forall>q. fits q d \<longrightarrow> fits q d1"
    "x \<noteq> LinkReset \<longrightarrow> ln_lost w1 = ln_lost w" "load w1 d1 \<le> load w d + 2" "x = RunNext \<longrightarrow> load w1 d1 \<le> load w d - 1"
    using s(2) by (simp_all add: stepped_def)
  have "\<forall>p \<in> set (arriving xs). fits p d1 \<and> pk_addr p \<notin># qd.total (h1, d1)" using a(2,4) st(3,4) by auto
  from Cons.IH [OF st(1,2) stepped_inputs [OF s(2) Cons.prems(3)] this a(3)] obtain w' h' d' where
    "port_run ins edeq canc enq qdeq xs (w1, h1, d1) = Inr (w', h', d')" "port_inv (w', h', d')" "room n (sc_q (ln_sched w'))"
    "qd.total (h', d') = mset (map pk_addr (arriving xs)) + qd.total (h1, d1)" "LinkReset \<notin> set xs \<longrightarrow> ln_lost w' = ln_lost w1"
    "load w' d' \<le> load w1 d1 + 2 * length xs" "list_all ((=) RunNext) xs \<longrightarrow> load w' d' \<le> load w1 d1 - length xs" by blast
  with s(1) st(3,5-7) show ?case unfolding arriving_Cons [of x xs] by auto
qed simp

lemma port_run_append:
  "port_run ins edeq canc enq qdeq (xs @ ys) x = res_bind (port_run ins edeq canc enq qdeq xs x) (port_run ins edeq canc enq qdeq ys)"
proof (induction xs arbitrary: x)
  case (Cons i xs)
  then show ?case by (cases "port_step ins edeq canc enq qdeq i x") simp_all
qed simp

lemma port_drains:
  assumes i: "einv q" "pending q = []" "room (2 * (length xs + n)) q" and l: "0 < bw" "0 \<le> delay"
    and h: "qd.hand_inv (h, d)" "\<not> qh_blocked h" "qh_sent h = []" "sizes d = {}"
    and a: "inputs_ok (avoid \<and> \<not> dyn) delay xs" "\<forall>p \<in> set (arriving xs). fits p d" "distinct (map pk_addr (arriving xs))"
    and t: "backlog d = {#}" "dropped d = {#}" and n: "2 * length xs \<le> n"
    and line: "w = line_init (if dyn then ld_isDynamic (ld_init bw delay avoid) else ld_init bw delay avoid) q"
  shows "\<exists>w' h' d'. port_run ins edeq canc enq qdeq (xs @ replicate n RunNext) (w, h, d) = Inr (w', h', d') \<and>
    backlog d' = {#} \<and> ln_flight w' = [] \<and> \<not> qh_blocked h' \<and> history w' (qh_sent h') \<and> (LinkReset \<notin> set xs \<longrightarrow> ln_lost w' = []) \<and>
    mset (map pk_addr (qh_sent h')) + dropped d' = mset (map pk_addr (arriving xs))"
proof -
  let ?l = "if dyn then ld_isDynamic (ld_init bw delay avoid) else ld_init bw delay avoid"
  have g: "ev.good (ln_sched w)" using i by (simp add: ev.good_def line line_init_def sched_init_def)
  have "transit_ok ?l []" by (simp add: transit_ok_def ld_isDynamic_def ld_init_def lq_init_def)
  then have "line_inv False w"
    using g i(2) l by (simp add: line_inv_def line_ok_def line line_init_def sched_init_def ld_isDynamic_def ld_init_def fresh_event_def)
  moreover have "history w []" by (simp add: history_def line line_init_def)
  ultimately have p: "port_inv (w, h, d)" using h by (simp add: port_inv_def queue_inv_def)
  have ko: "keeps_order (ln_link w) = (avoid \<and> \<not> dyn)" "ld_delay (ln_link w) = delay"
    by (simp_all add: line line_init_def keeps_order_def ld_isDynamic_def ld_init_def)
  have z: "qd.total (h, d) = {#}" "load w d = 0" using t h(3) i(2) by (simp_all add: qd.total_def qd.sent_def load_def line line_init_def sched_init_def)
  have r1: "room (2 * length xs + 2 * n) (sc_q (ln_sched w))" using i(3) by (simp add: line line_init_def sched_init_def)
  have a1: "\<forall>p \<in> set (arriving xs). fits p d \<and> pk_addr p \<notin># qd.total (h, d)" using a(2) z by simp
  from port_run_ok [OF p r1, unfolded ko, OF a(1) a1 a(3)] obtain w1 h1 d1 where
    1: "port_run ins edeq canc enq qdeq xs (w, h, d) = Inr (w1, h1, d1)" "port_inv (w1, h1, d1)"
      "room (2 * n) (sc_q (ln_sched w1))" "qd.total (h1, d1) = mset (map pk_addr (arriving xs))"
      "LinkReset \<notin> set xs \<longrightarrow> ln_lost w1 = []" "load w1 d1 \<le> 2 * length xs"
    unfolding z by (auto simp: line line_init_def)
  have "room (2 * length (replicate n RunNext) + 0) (sc_q (ln_sched w1))" using 1(3) by simp
  from port_run_ok [OF 1(2) this] 1 n have "\<exists>w' h' d'. port_run ins edeq canc enq qdeq (xs @ replicate n RunNext) (w, h, d) = Inr (w', h', d') \<and>
      port_inv (w', h', d') \<and> qd.total (h', d') = mset (map pk_addr (arriving xs)) \<and> (LinkReset \<notin> set xs \<longrightarrow> ln_lost w' = []) \<and> load w' d' = 0"
    by (auto simp: port_run_append list_all_iff)
  then obtain w' h' d' where
    2: "port_run ins edeq canc enq qdeq (xs @ replicate n RunNext) (w, h, d) = Inr (w', h', d')" "port_inv (w', h', d')"
      "qd.total (h', d') = mset (map pk_addr (arriving xs))" "LinkReset \<notin> set xs \<longrightarrow> ln_lost w' = []" "load w' d' = 0" by blast
  have li: "line_inv (qh_blocked h') w'" "history w' (qh_sent h')" using 2(2) by (simp_all add: port_inv_def)
  have e: "events w' = []" "backlog d' = {#}" using 2(5) by (simp_all add: load_def)
  have "ln_flight w' = []" "\<not> qh_blocked h'" using line_inv_flight [OF li(1)] e(1) by (auto split: if_split_asm)
  then show ?thesis using 2(1,3,4) e(2) li(2) by (simp add: qd.total_def qd.sent_def)
qed

end

section \<open>DropTail keeps the sizes of its packets\<close>

definition drawn_from :: "packet list \<Rightarrow> packet list \<Rightarrow> bool" where
  "drawn_from ps qs \<longleftrightarrow> pk_size ` set ps \<subseteq> pk_size ` set qs \<and> length ps \<le> length qs"

lemma drawn_from_refl [simp]: "drawn_from ps ps"
  by (simp add: drawn_from_def)

lemma drawn_from_trans: "drawn_from ps qs \<Longrightarrow> drawn_from qs rs \<Longrightarrow> drawn_from ps rs"
  by (auto simp: drawn_from_def)

lemma drawn_from_remove_first: "drawn_from (remove_first P ps) ps"
  using set_remove_first_subset [of P ps] by (auto simp: drawn_from_def length_remove_first)

lemma drawn_from_deque:
  assumes "bt_deque q = (r, q')"
  shows "drawn_from (lq_pkts (bt_q q')) (lq_pkts (bt_q q)) \<and> (\<forall>p. r = Some p \<longrightarrow> p \<in> set (lq_pkts (bt_q q)))"
  using assms by (auto simp: bt_deque_def lq_deque_def Let_def drawn_from_def split: list.splits)

lemma drawn_from_remove:
  assumes "bt_remove p q = Inr q'"
  shows "drawn_from (lq_pkts (bt_q q')) (lq_pkts (bt_q q))"
proof (cases "pk_addr (hd (lq_pkts (bt_q q))) = pk_addr p")
  case True
  then have "q' = snd (bt_deque (note_deque p q))"
    using assms by (simp add: bt_remove_def Let_def split: list.splits)
  then have "bt_deque (note_deque p q) = (fst (bt_deque (note_deque p q)), q')" by (metis prod.collapse)
  from drawn_from_deque [OF this] show ?thesis by simp
next
  case False
  then have "lq_pkts (bt_q q') = remove_first (\<lambda>x. pk_addr x = pk_addr p) (lq_pkts (bt_q q))"
    using assms by (auto simp: bt_remove_def Let_def lq_unlink_def split: list.splits option.splits)
  then show ?thesis by (simp add: drawn_from_remove_first)
qed

lemma drawn_from_overflow:
  assumes "handle_overflow hsh p d = Inr (v, d')"
  shows "drawn_from (dt_pkts d') (dt_pkts d @ [p])"
proof -
  consider (front) "drop_front p d = Inr (v, d')" | (victim) q where "bt_remove v (bt_enque p (dt_q d)) = Inr q" "dt_pkts d' = lq_pkts (bt_q q)"
    | (tail) "d' = d"
    using assms by (auto simp: handle_overflow_def drop_prio_def drop_smart_def Let_def res_bind_Inr_iff split: if_split_asm)
  then show ?thesis
  proof cases
    case front
    then obtain r q where "bt_deque (bt_enque p (dt_q d)) = (r, q)" "dt_pkts d' = lq_pkts (bt_q q)"
      by (auto simp: drop_front_def split: prod.splits option.splits)
    with drawn_from_deque [of "bt_enque p (dt_q d)" r q] show ?thesis by simp
  next
    case (victim q)
    with drawn_from_remove [OF victim(1)] show ?thesis by simp
  next
    case tail
    then show ?thesis by (auto simp: drawn_from_def)
  qed
qed

lemma drawn_from_mark:
  assumes "mark_ecn d = Inr d'"
  shows "drawn_from (dt_pkts d') (dt_pkts d)"
proof -
  have "drawn_from (lq_pkts (update_pkt a set_ce q)) (lq_pkts q)" for a q
    by (auto simp: drawn_from_def update_pkt_def set_ce_def)
  then show ?thesis using assms by (auto simp: mark_ecn_def res_bind_Inr_iff split: option.splits if_split_asm)
qed

lemma drawn_from_enque:
  assumes "dt_enque hsh now p d = Inr d'"
  shows "drawn_from (dt_pkts d') (dt_pkts d @ [p])"
proof -
  from pre_enque_eq obtain st where st: "pre_enque now d = d\<lparr>dt_stats := st\<rparr>" by blast
  let ?d = "d\<lparr>dt_stats := st\<rparr>"
  from assms obtain d2 where
    d2: "(if will_overflow p ?d then res_bind (handle_overflow hsh p ?d) (\<lambda>(v, d2). Inr (dt_drop v d2))
        else Inr (?d\<lparr>dt_q := bt_enque p (dt_q ?d)\<rparr>)) = Inr d2"
      "d' = d2 \<or> mark_ecn d2 = Inr d'"
    unfolding dt_enque_def st Let_def res_bind_Inr_iff by (auto split: if_split_asm)
  have "drawn_from (dt_pkts d2) (dt_pkts d @ [p])"
  proof (cases "will_overflow p ?d")
    case True
    with d2(1) obtain v d3 where "handle_overflow hsh p ?d = Inr (v, d3)" "d2 = dt_drop v d3" by (auto simp: res_bind_Inr_iff)
    with drawn_from_overflow [of hsh p ?d v d3] show ?thesis by (simp add: dt_drop_def)
  next
    case False
    with d2(1) have "d2 = ?d\<lparr>dt_q := bt_enque p (dt_q d)\<rparr>" by simp
    then show ?thesis by simp
  qed
  with d2(2) show ?thesis using drawn_from_mark drawn_from_trans by blast
qed

lemma drop_packets_drawn_from: "drop_packets ps d = Inr d' \<Longrightarrow> drawn_from (dt_pkts d') (dt_pkts d)"
proof (induction ps arbitrary: d)
  case (Cons p ps)
  then obtain q where q: "bt_remove p (dt_q d) = Inr q" "drop_packets ps (dt_drop p (d\<lparr>dt_q := q\<rparr>)) = Inr d'"
    by (auto simp: res_bind_Inr_iff)
  from Cons.IH [OF q(2)] drawn_from_remove [OF q(1)] show ?case by (auto simp: dt_drop_def intro: drawn_from_trans)
qed simp

lemma same_flow_loop_mem: "same_flow_loop l k p ds ps = Inr (r, ds') \<Longrightarrow> r = p \<or> r \<in> set ps"
  by (induction l k p ds ps arbitrary: ds' rule: same_flow_loop.induct) (auto split: if_split_asm)

lemma find_extreme_mem: "find_extreme_packet kind q = Inr (Some p) \<Longrightarrow> p \<in> set (lq_pkts (bt_q q))"
  using extreme_at_mem [OF extreme_loop_at] by (fastforce simp: find_extreme_packet_def split: if_split_asm list.splits)

lemma drawn_from_deque_priority:
  assumes "deque_priority d = Inr (r, d')"
  shows "drawn_from (dt_pkts d') (dt_pkts d) \<and> (\<forall>p. r = Some p \<longrightarrow> p \<in> set (dt_pkts d))"
proof -
  from assms obtain b where b: "find_best_packet (dt_q d) = Inr b" by (auto simp: deque_priority_def res_bind_Inr_iff)
  show ?thesis
  proof (cases b)
    case None
    with assms b show ?thesis by (simp add: deque_priority_def)
  next
    case (Some p)
    then have p: "p \<in> set (dt_pkts d)" using find_extreme_mem b by (simp add: find_best_packet_def)
    from assms b Some obtain v d1 q where
      v: "(if dt_keep_order d \<or> dt_drop_low_prio d then handle_same_flow p d else Inr (p, d)) = Inr (v, d1)"
        "bt_remove v (dt_q d1) = Inr q" "r = Some v" "d' = d1\<lparr>dt_q := q\<rparr>"
      by (auto simp: deque_priority_def res_bind_Inr_iff)
    have "drawn_from (dt_pkts d1) (dt_pkts d) \<and> v \<in> set (dt_pkts d)"
      using v(1) p same_flow_loop_mem drop_packets_drawn_from
      by (fastforce simp: handle_same_flow_def res_bind_Inr_iff split: if_split_asm)
    then show ?thesis using v(3,4) drawn_from_remove [OF v(2)] drawn_from_trans by auto
  qed
qed

lemma drawn_from_dt_deque:
  assumes "dt_deque hsh now d = Inr (r, d')"
  shows "drawn_from (dt_pkts d') (dt_pkts d) \<and> (\<forall>p. r = Some p \<longrightarrow> p \<in> set (dt_pkts d))"
proof -
  define d1 where "d1 = (if dt_summarystats d
    then d\<lparr>dt_stats := updateStats now (if dt_qib d then dt_byteLength d else dt_length d) (dt_stats d)\<rparr> else d)"
  have d1: "dt_pkts d1 = dt_pkts d" by (simp add: d1_def)
  consider "deque_priority d1 = Inr (r, d')" | q where "bt_deque (dt_q d1) = (r, q)" "dt_pkts d' = lq_pkts (bt_q q)"
    using assms unfolding dt_deque_def d1_def [symmetric] Let_def deque_with_drop_smart_def
    by (fastforce split: if_split_asm prod.splits option.splits)
  then show ?thesis using drawn_from_deque_priority drawn_from_deque unfolding d1 [symmetric] by cases metis+
qed

interpretation dtl: queue_link cal_insert cal_deque cal_cancel cal_lookup cal_head cal_pending cal_inv "\<lambda>_ _. True"
  "dt_enque hsh" "dt_deque hsh" dt_inv dt_fits dt_backlog dt_dropped "\<lambda>d. pk_size ` set (dt_pkts d)"
  for hsh
proof (unfold_locales, goal_cases)
  case (1 now p d d')
  from drawn_from_enque [OF this] show ?case by (auto simp: drawn_from_def)
next
  case (2 now p d d')
  from drawn_from_enque [OF this] show ?case by (simp add: drawn_from_def dt_backlog_def)
next
  case (3 now d r d')
  from drawn_from_dt_deque [OF this] show ?case by (auto simp: drawn_from_def)
qed

text \<open>C5: a DropTail queue on a link, on the calendar scheduler. Packets with different addresses arrive in any interleaving with the
  events of the simulation and with those of other components; the link may be dynamic and be reset; bandwidth and delay may be
  changed, where the delay may shrink only if the link avoids reordering. Nothing aborts: the event \<open>intr_\<close> is never scheduled while it
  is pending, the assertion of \<open>handle\<close> holds and no null pointer is followed. When no more packets arrive, twice as many events as there were inputs
  suffice for everything to come to rest: the queue is empty and idle and no packet is in flight; what has been received at the other end
  was received in the order the queue served it, at times that do not decrease, and is all that the queue served but for the packets
  dropped by a reset of the link; every packet that arrived was served or dropped by the queue, exactly once.\<close>

theorem droptail_link_delivers:
  assumes "dt_inv d" "dt_pkts d = []" "dt_drops d = []" "qh_sent h = []" "qh_unblock_on_resume h" "\<not> qh_blocked h"
    and "\<not> dt_drop_front d \<and> dt_drop_prio d \<longrightarrow> dt_qib d \<or> dt_good_prio_qlim d < 0"
    and "0 < bw" "0 \<le> delay" "inputs_ok (avoid \<and> \<not> dyn) delay xs" "distinct (map pk_addr (arriving xs))" "2 * length xs \<le> n"
  shows "\<exists>w h' d'. port_run cal_insert cal_deque cal_cancel (dt_enque hsh) (dt_deque hsh) (xs @ replicate n RunNext)
      (line_init (if dyn then ld_isDynamic (ld_init bw delay avoid) else ld_init bw delay avoid) (cal_init adj minw), h, d) = Inr (w, h', d') \<and>
    dt_pkts d' = [] \<and> \<not> qh_blocked h' \<and> ln_flight w = [] \<and>
    subseq (map snd (ln_out w)) (qh_sent h') \<and> mset (map snd (ln_out w)) + mset (ln_lost w) = mset (qh_sent h') \<and>
    sorted (map fst (ln_out w)) \<and> (LinkReset \<notin> set xs \<longrightarrow> map snd (ln_out w) = qh_sent h') \<and>
    mset (map pk_addr (qh_sent h' @ dt_drops d')) = mset (map pk_addr (arriving xs))"
proof -
  have "dtq.hand_inv (h, d)" "\<forall>p \<in> set (arriving xs). dt_fits p d" "dt_backlog d = {#}" "dt_dropped d = {#}" "pk_size ` set (dt_pkts d) = {}"
    using assms(1-7) by (auto simp: dtq.hand_inv_def dt_backlog_def dt_dropped_def dt_fits_def drop_config_ok_def)
  from dtl.port_drains [where hsh = hsh, OF _ _ _ assms(8,9) this(1) assms(6,4) this(5) assms(10) this(2) assms(11) this(3,4) assms(12) refl,
      of "cal_init adj minw"] calendar_init [of adj minw] obtain w h' d' where
    r: "port_run cal_insert cal_deque cal_cancel (dt_enque hsh) (dt_deque hsh) (xs @ replicate n RunNext)
      (line_init (if dyn then ld_isDynamic (ld_init bw delay avoid) else ld_init bw delay avoid) (cal_init adj minw), h, d) = Inr (w, h', d')"
    "dt_backlog d' = {#}" "ln_flight w = []" "\<not> qh_blocked h'" "history w (qh_sent h')" "LinkReset \<notin> set xs \<longrightarrow> ln_lost w = []"
    "mset (map pk_addr (qh_sent h')) + dt_dropped d' = mset (map pk_addr (arriving xs))" by auto
  with history_final [OF r(5,3)] show ?thesis by (auto simp: dt_backlog_def dt_dropped_def)
qed

theorem droptail_link_delivers_witness:
  "\<exists>w h' d'. port_run cal_insert cal_deque cal_cancel (dt_enque (\<lambda>_. 0)) (dt_deque (\<lambda>_. 0))
      ([Arrive (mk_packet 1 1500 1 4), Arrive (mk_packet 2 40 1 2), RunNext, SetDelay 3, Arrive (mk_packet 3 1500 1 1)] @ replicate 10 RunNext)
      (line_init (ld_isDynamic (ld_init 1000 2 False)) (cal_init 10 1), qhand0, droptail0) = Inr (w, h', d') \<and>
    map snd (ln_out w) = qh_sent h' \<and> mset (map pk_addr (qh_sent h' @ dt_drops d')) = {#1, 2, 3#}"
proof -
  have "dt_inv droptail0" "dt_pkts droptail0 = []" "dt_drops droptail0 = []" "\<not> dt_drop_prio droptail0" "qh_sent qhand0 = []"
    "qh_unblock_on_resume qhand0" "\<not> qh_blocked qhand0" by (simp_all add: droptail_run_defs qhand0_def)
  with droptail_link_delivers [where d = droptail0 and h = qhand0 and bw = 1000 and delay = 2 and avoid = False and dyn = True and
      hsh = "\<lambda>_. 0" and adj = 10 and minw = 1 and n = 10 and
      xs = "[Arrive (mk_packet 1 1500 1 4), Arrive (mk_packet 2 40 1 2), RunNext, SetDelay 3, Arrive (mk_packet 3 1500 1 1)]"]
  show ?thesis by auto
qed

end
