(* ===== verification/PrioQueue.thy ===== *)
theory PrioQueue
  imports QueueBase
begin

text \<open>
  Strict priority queueing: \<open>Priority\<close> of \<open>queue/priority.h\<close> and \<open>queue/priority.cc\<close>, the switch queue of
  the schemes that map flows to a few classes (PIAS and its relatives). Eight FIFO packet queues
  share one byte limit; the packet's priority, clamped to the configured number of classes, selects
  its queue; service is from the first non-empty queue; ECN marks the arriving packet by the length
  of its queue or of all queues.
\<close>

section \<open>The class\<close>

definition MAX_QUEUE_NUM :: nat where
  "MAX_QUEUE_NUM = 8"

datatype ECNMode = ECN_DISABLE | ECN_PER_QUEUE | ECN_PER_PORT

record prioq =
  pr_q :: "lq list"
  pr_qlim :: int
  pr_mean_pktsize :: int
  pr_thresh :: int
  pr_queue_num :: int
  pr_marking_scheme :: ECNMode
  pr_drops :: "packet list"

text \<open>The constructor, with the given \<open>limit_\<close>.\<close>

definition prioq_init :: "int \<Rightarrow> prioq" where
  "prioq_init qlim = \<lparr>pr_q = replicate MAX_QUEUE_NUM lq_init, pr_qlim = qlim, pr_mean_pktsize = 1500,
     pr_thresh = 65, pr_queue_num = int MAX_QUEUE_NUM, pr_marking_scheme = ECN_PER_PORT, pr_drops = []\<rparr>"

definition TotalByteLength :: "prioq \<Rightarrow> int" where
  "TotalByteLength d = foldl (\<lambda>bytelength q. bytelength + lq_bytes q) 0 (pr_q d)"

definition clamp_priority :: "prioq \<Rightarrow> int \<Rightarrow> int" where
  "clamp_priority d priority = max 0 (min priority (pr_queue_num d - 1))"

definition pr_get_priority :: "prioq \<Rightarrow> packet \<Rightarrow> int" where
  "pr_get_priority d p = clamp_priority d (ip_prio (pk_ip p))"

definition ensure_queue_bound :: "prioq \<Rightarrow> unit res" where
  "ensure_queue_bound d =
     (if pr_queue_num d < 1 \<or> pr_queue_num d > int MAX_QUEUE_NUM
      then Inl (RuntimeError ''wrong queue num for Priority'') else Inr ())"

definition pr_handle_overflow :: "packet \<Rightarrow> prioq \<Rightarrow> prioq" where
  "pr_handle_overflow p d = d\<lparr>pr_drops := pr_drops d @ [p]\<rparr>"

definition pr_enque :: "packet \<Rightarrow> prioq \<Rightarrow> prioq res" where
  "pr_enque p d =
     res_bind (ensure_queue_bound d) (\<lambda>_.
       let prio = nat (pr_get_priority d p); qlimBytes = pr_qlim d * pr_mean_pktsize d in
       if TotalByteLength d + pk_size p > qlimBytes then Inr (pr_handle_overflow p d)
       else
         let d1 = d\<lparr>pr_q := (pr_q d)[prio := lq_enque p (pr_q d ! prio)]\<rparr> in
         if (pr_marking_scheme d1 = ECN_PER_QUEUE \<and>
               lq_bytes (pr_q d1 ! prio) > pr_thresh d1 * pr_mean_pktsize d1) \<or>
            (pr_marking_scheme d1 = ECN_PER_PORT \<and> TotalByteLength d1 > pr_thresh d1 * pr_mean_pktsize d1)
         then
           (if fl_ect (pk_flags p)
            then Inr (d1\<lparr>pr_q := (pr_q d1)[prio := update_pkt (pk_addr p) set_ce (pr_q d1 ! prio)]\<rparr>)
            else Inr d1)
         else Inr d1)"

text \<open>The loop over the classes; reading past the array is undefined behaviour.\<close>

function pr_deque_loop :: "nat \<Rightarrow> prioq \<Rightarrow> (packet option \<times> prioq) res" where
  "pr_deque_loop i d =
     (if int i < pr_queue_num d then
        (if i \<ge> length (pr_q d) then Inl OutOfBounds
         else if lq_len (pr_q d ! i) > 0 then
           (case lq_deque (pr_q d ! i) of (r, q) \<Rightarrow> Inr (r, d\<lparr>pr_q := (pr_q d)[i := q]\<rparr>))
         else pr_deque_loop (i + 1) d)
      else Inr (None, d))"
  by pat_completeness auto
termination
  by (relation "measure (\<lambda>(i, d). nat (pr_queue_num d - int i))") auto

declare pr_deque_loop.simps [simp del]

definition pr_deque :: "prioq \<Rightarrow> (packet option \<times> prioq) res" where
  "pr_deque d = (if TotalByteLength d > 0 then pr_deque_loop 0 d else Inr (None, d))"

section \<open>Invariant\<close>

definition pr_pkts :: "prioq \<Rightarrow> packet list" where
  "pr_pkts d = concat (map lq_pkts (pr_q d))"

definition pr_inv :: "prioq \<Rightarrow> bool" where
  "pr_inv d \<longleftrightarrow> length (pr_q d) = MAX_QUEUE_NUM \<and> 1 \<le> pr_queue_num d \<and> pr_queue_num d \<le> int MAX_QUEUE_NUM \<and>
     (\<forall>q \<in> set (pr_q d). lq_inv q) \<and>
     (\<forall>i < MAX_QUEUE_NUM. pr_queue_num d \<le> int i \<longrightarrow> lq_pkts (pr_q d ! i) = []) \<and>
     (\<forall>p \<in> set (pr_pkts d). 0 < pk_size p)"

lemma TotalByteLength_sum: "TotalByteLength d = sum_list (map lq_bytes (pr_q d))"
proof -
  have "foldl (\<lambda>b q. b + lq_bytes q) x qs = x + sum_list (map lq_bytes qs)"
    for x and qs :: "lq list"
    by (induction qs arbitrary: x) auto
  then show ?thesis by (simp add: TotalByteLength_def)
qed

lemma pr_inv_init: "pr_inv (prioq_init qlim)"
  by (auto simp: pr_inv_def prioq_init_def pr_pkts_def MAX_QUEUE_NUM_def lq_inv_def lq_init_def
      nth_Cons' numeral_eq_Suc)

lemma total_bytes_pkts:
  assumes "\<forall>q \<in> set qs. lq_inv q"
  shows "sum_list (map lq_bytes qs) = sum_list (map pk_size (concat (map lq_pkts qs)))"
  using assms by (induction qs) (auto simp: lq_inv_def)

lemma positive_sum_iff:
  assumes "\<forall>p \<in> set ps. 0 < pk_size p"
  shows "0 < sum_list (map pk_size ps) \<longleftrightarrow> ps \<noteq> []"
proof (cases ps)
  case (Cons p ps')
  have "0 \<le> sum_list (map pk_size ps')"
    using assms Cons by (intro sum_list_nonneg) (auto intro: less_imp_le)
  with assms Cons show ?thesis by simp
qed simp

text \<open>A class index of an enqueued packet is a valid index.\<close>

lemma clamp_bounds:
  assumes "pr_inv d"
  shows "nat (clamp_priority d x) < length (pr_q d)" "0 \<le> clamp_priority d x" "clamp_priority d x < pr_queue_num d"
  using assms by (auto simp: pr_inv_def clamp_priority_def)

lemma ensure_queue_bound_ok: "pr_inv d \<Longrightarrow> ensure_queue_bound d = Inr ()"
  by (auto simp: pr_inv_def ensure_queue_bound_def)

lemma pr_deque_loop_spec:
  assumes "pr_inv d"
  shows "(\<exists>j. i \<le> j \<and> int j < pr_queue_num d \<and> lq_pkts (pr_q d ! j) \<noteq> [] \<and>
      (\<forall>k. i \<le> k \<and> k < j \<longrightarrow> lq_pkts (pr_q d ! k) = []) \<and>
      pr_deque_loop i d = Inr (Some (hd (lq_pkts (pr_q d ! j))),
        d\<lparr>pr_q := (pr_q d)[j := snd (lq_deque (pr_q d ! j))]\<rparr>)) \<or>
    (pr_deque_loop i d = Inr (None, d) \<and> (\<forall>k. i \<le> k \<and> int k < pr_queue_num d \<longrightarrow> lq_pkts (pr_q d ! k) = []))"
  using assms
proof (induction i d rule: pr_deque_loop.induct)
  case (1 i d)
  show ?case
  proof (cases "int i < pr_queue_num d")
    case False
    then show ?thesis by (auto simp: pr_deque_loop.simps)
  next
    case True
    then have il: "i < length (pr_q d)" using "1.prems" by (simp add: pr_inv_def)
    then have inv: "lq_inv (pr_q d ! i)" using "1.prems" by (simp add: pr_inv_def)
    show ?thesis
    proof (cases "lq_pkts (pr_q d ! i)")
      case (Cons p ps)
      with inv have "lq_len (pr_q d ! i) > 0" by (simp add: lq_inv_def)
      with True il Cons show ?thesis
        by (intro disjI1 exI [of _ i]) (auto simp: pr_deque_loop.simps [of i] lq_deque_def)
    next
      case Nil
      with inv have z: "\<not> lq_len (pr_q d ! i) > 0" by (simp add: lq_inv_def)
      with True il have step: "pr_deque_loop i d = pr_deque_loop (i + 1) d"
        by (simp add: pr_deque_loop.simps [of i])
      have il': "\<not> length (pr_q d) \<le> i" using il by simp
      have first: "(\<forall>k. i \<le> k \<and> Q k \<longrightarrow> lq_pkts (pr_q d ! k) = []) \<longleftrightarrow>
        (\<forall>k. i + 1 \<le> k \<and> Q k \<longrightarrow> lq_pkts (pr_q d ! k) = [])" for Q
        using Nil by (metis Suc_eq_plus1 le_eq_less_or_eq Suc_le_eq)
      from "1.IH" [OF True il' z "1.prems"] show ?thesis
        unfolding step first by (meson le_add1 order_trans)
    qed
  qed
qed

definition pr_fits :: "packet \<Rightarrow> prioq \<Rightarrow> bool" where
  "pr_fits p d \<longleftrightarrow> 0 < pk_size p"

definition pr_backlog :: "prioq \<Rightarrow> addr multiset" where
  "pr_backlog d = mset (map pk_addr (pr_pkts d))"

definition pr_dropped :: "prioq \<Rightarrow> addr multiset" where
  "pr_dropped d = mset (map pk_addr (pr_drops d))"

definition pr_limit :: "prioq \<Rightarrow> int" where
  "pr_limit d = pr_qlim d * pr_mean_pktsize d"

text \<open>Whether the packet is marked, and the packet as queued.\<close>

definition pr_marks :: "prioq \<Rightarrow> packet \<Rightarrow> bool" where
  "pr_marks d p = (fl_ect (pk_flags p) \<and>
     (case pr_marking_scheme d of
        ECN_DISABLE \<Rightarrow> False
      | ECN_PER_QUEUE \<Rightarrow> lq_bytes (pr_q d ! nat (pr_get_priority d p)) + pk_size p > pr_thresh d * pr_mean_pktsize d
      | ECN_PER_PORT \<Rightarrow> TotalByteLength d + pk_size p > pr_thresh d * pr_mean_pktsize d))"

lemma sum_list_update_bytes:
  "i < length qs \<Longrightarrow> sum_list (map lq_bytes (qs[i := q])) = sum_list (map lq_bytes qs) - lq_bytes (qs ! i) + lq_bytes q"
proof (induction qs arbitrary: i)
  case (Cons x qs)
  then show ?case by (cases i) auto
qed simp

lemma update_pkt_enqueued:
  assumes "pk_addr p \<notin> pk_addr ` set (lq_pkts q)"
  shows "update_pkt (pk_addr p) set_ce (lq_enque p q) = lq_enque (set_ce p) q"
proof -
  have "map (\<lambda>x. if pk_addr x = pk_addr p then set_ce x else x) (lq_pkts q) = lq_pkts q"
    using assms by (auto simp: image_iff intro!: map_idI)
  then show ?thesis by (simp add: update_pkt_def lq_enque_def)
qed

lemma pr_fresh_class:
  assumes "pk_addr p \<notin># pr_backlog d" "k < length (pr_q d)"
  shows "pk_addr p \<notin> pk_addr ` set (lq_pkts (pr_q d ! k))"
proof -
  have "set (lq_pkts (pr_q d ! k)) \<subseteq> set (pr_pkts d)" using nth_mem [OF assms(2)] by (auto simp: pr_pkts_def)
  with assms(1) show ?thesis by (auto simp: pr_backlog_def)
qed

text \<open>The enqueue operation in one equation.\<close>

lemma pr_enque_eq:
  assumes i: "pr_inv d" and n: "pk_addr p \<notin># pr_backlog d"
  shows "pr_enque p d = Inr (if TotalByteLength d + pk_size p > pr_limit d then d\<lparr>pr_drops := pr_drops d @ [p]\<rparr>
    else d\<lparr>pr_q := (pr_q d)[nat (pr_get_priority d p) :=
        lq_enque (if pr_marks d p then set_ce p else p) (pr_q d ! nat (pr_get_priority d p))]\<rparr>)"
proof -
  let ?i = "nat (pr_get_priority d p)"
  have il: "?i < length (pr_q d)" using clamp_bounds(1) [OF i] by (simp add: pr_get_priority_def)
  note u = update_pkt_enqueued [OF pr_fresh_class [OF n il]]
  have t: "TotalByteLength (d\<lparr>pr_q := (pr_q d)[?i := lq_enque p (pr_q d ! ?i)]\<rparr>) = TotalByteLength d + pk_size p"
    using il by (simp add: TotalByteLength_sum sum_list_update_bytes lq_enque_def)
  show ?thesis
    unfolding pr_enque_def ensure_queue_bound_ok [OF i] res_bind_simps Let_def t
    using il u by (cases "pr_marking_scheme d")
      (auto simp: pr_marks_def pr_limit_def pr_handle_overflow_def, simp_all add: lq_enque_def)
qed

lemma pr_pkts_enque:
  assumes "k < length (pr_q d)"
  shows "mset (pr_pkts (d\<lparr>pr_q := (pr_q d)[k := lq_enque p (pr_q d ! k)]\<rparr>)) = add_mset p (mset (pr_pkts d))"
  using mset_concat_update [OF assms, of lq_pkts "lq_enque p (pr_q d ! k)"]
  by (simp add: pr_pkts_def)

lemma pr_inv_enque_at:
  assumes i: "pr_inv d" and k: "int k < pr_queue_num d" and a: "pk_addr p \<notin># pr_backlog d" "0 < pk_size p"
  shows "pr_inv (d\<lparr>pr_q := (pr_q d)[k := lq_enque p (pr_q d ! k)]\<rparr>)"
proof -
  let ?d = "d\<lparr>pr_q := (pr_q d)[k := lq_enque p (pr_q d ! k)]\<rparr>"
  have kl: "k < length (pr_q d)" using i k by (simp add: pr_inv_def)
  from pr_fresh_class [OF a(1) kl]
  have "lq_inv (lq_enque p (pr_q d ! k))" using i kl by (intro lq_inv_enque) (auto simp: pr_inv_def)
  then have "\<forall>q \<in> set (pr_q ?d). lq_inv q"
    using i set_update_subset_insert [of "pr_q d" k] by (fastforce simp: pr_inv_def)
  moreover have "set (pr_pkts ?d) = insert p (set (pr_pkts d))"
    using arg_cong [OF pr_pkts_enque [OF kl, of p], where f = set_mset] by simp
  ultimately show ?thesis using i k a by (auto simp: pr_inv_def nth_list_update)
qed

lemma pr_enque_ok:
  assumes i: "pr_inv d" and f: "pr_fits p d" and n: "pk_addr p \<notin># pr_backlog d"
  shows "\<exists>d'. pr_enque p d = Inr d' \<and> pr_inv d' \<and>
    pr_backlog d' + pr_dropped d' = add_mset (pk_addr p) (pr_backlog d + pr_dropped d)"
proof (cases "TotalByteLength d + pk_size p > pr_limit d")
  case True
  with pr_enque_eq [OF i n] i show ?thesis by (auto simp: pr_inv_def pr_pkts_def pr_backlog_def pr_dropped_def)
next
  case False
  let ?i = "nat (pr_get_priority d p)" and ?p = "if pr_marks d p then set_ce p else p"
  let ?d = "d\<lparr>pr_q := (pr_q d)[?i := lq_enque ?p (pr_q d ! ?i)]\<rparr>"
  have k: "int ?i < pr_queue_num d" "?i < length (pr_q d)"
    using clamp_bounds [OF i, of "ip_prio (pk_ip p)"] by (auto simp: pr_get_priority_def)
  have "pr_inv ?d" using i k f n by (intro pr_inv_enque_at) (auto simp: pr_fits_def)
  moreover have "pr_backlog ?d = add_mset (pk_addr p) (pr_backlog d)"
    using arg_cong [OF pr_pkts_enque [OF k(2), of ?p], where f = "image_mset pk_addr"]
    by (simp add: pr_backlog_def)
  moreover have "pr_dropped ?d = pr_dropped d" by (simp add: pr_dropped_def)
  moreover have "pr_enque p d = Inr ?d" using False by (simp add: pr_enque_eq [OF i n])
  ultimately show ?thesis by auto
qed

lemma pr_backlog_empty:
  "pr_inv d \<Longrightarrow> TotalByteLength d > 0 \<longleftrightarrow> pr_pkts d \<noteq> []"
  by (simp add: TotalByteLength_sum total_bytes_pkts positive_sum_iff pr_inv_def flip: pr_pkts_def)

lemma pr_deque_ok:
  assumes i: "pr_inv d"
  shows "(pr_pkts d = [] \<and> pr_deque d = Inr (None, d)) \<or>
    (\<exists>j p ps. int j < pr_queue_num d \<and> lq_pkts (pr_q d ! j) = p # ps \<and>
      (\<forall>k < j. lq_pkts (pr_q d ! k) = []) \<and>
      pr_deque d = Inr (Some p, d\<lparr>pr_q := (pr_q d)[j := snd (lq_deque (pr_q d ! j))]\<rparr>) \<and>
      pr_inv (d\<lparr>pr_q := (pr_q d)[j := snd (lq_deque (pr_q d ! j))]\<rparr>) \<and>
      mset (pr_pkts d) = add_mset p (mset (pr_pkts (d\<lparr>pr_q := (pr_q d)[j := snd (lq_deque (pr_q d ! j))]\<rparr>))))"
proof (cases "pr_pkts d = []")
  case True
  with pr_backlog_empty [OF i] show ?thesis by (simp add: pr_deque_def)
next
  case False
  have ne: "\<exists>k. int k < pr_queue_num d \<and> lq_pkts (pr_q d ! k) \<noteq> []"
    using False i unfolding pr_pkts_def pr_inv_def
    by (auto simp: in_set_conv_nth) (metis not_le_imp_less)
  with pr_deque_loop_spec [OF i, of 0] obtain j where
    j: "int j < pr_queue_num d" "lq_pkts (pr_q d ! j) \<noteq> []" "\<forall>k < j. lq_pkts (pr_q d ! k) = []"
      "pr_deque_loop 0 d = Inr (Some (hd (lq_pkts (pr_q d ! j))),
        d\<lparr>pr_q := (pr_q d)[j := snd (lq_deque (pr_q d ! j))]\<rparr>)" by auto
  let ?d = "d\<lparr>pr_q := (pr_q d)[j := snd (lq_deque (pr_q d ! j))]\<rparr>"
  obtain p ps where p: "lq_pkts (pr_q d ! j) = p # ps" using j(2) by (cases "lq_pkts (pr_q d ! j)") auto
  have jl: "j < length (pr_q d)" using j(1) i by (simp add: pr_inv_def)
  have m: "mset (pr_pkts d) = add_mset p (mset (pr_pkts ?d))"
    using mset_concat_update [OF jl, of lq_pkts "snd (lq_deque (pr_q d ! j))"] p
    by (simp add: pr_pkts_def lq_deque_def)
  have "lq_inv (snd (lq_deque (pr_q d ! j)))" using i jl by (intro lq_inv_deque) (auto simp: pr_inv_def)
  then have "\<forall>q \<in> set (pr_q ?d). lq_inv q"
    using i set_update_subset_insert [of "pr_q d" j] by (fastforce simp: pr_inv_def)
  moreover have "set (pr_pkts ?d) \<subseteq> set (pr_pkts d)"
    using arg_cong [OF m, where f = set_mset] by auto
  ultimately have "pr_inv ?d" using i j(1) by (auto simp: pr_inv_def nth_list_update)
  with False j p m pr_backlog_empty [OF i] show ?thesis
    by (intro disjI2 exI [of _ j] exI [of _ p] exI [of _ ps]) (simp add: pr_deque_def)
qed

interpretation prq: queue_discipline "\<lambda>_. pr_enque" "\<lambda>_. pr_deque" pr_inv pr_fits pr_backlog pr_dropped
proof (unfold_locales, goal_cases)
  case (1 d p now)
  from pr_enque_ok [OF this] show ?case by (simp add: pr_fits_def)
next
  case (2 d now)
  then show ?case using pr_deque_ok [OF 2]
    by (auto simp: pr_fits_def pr_backlog_def pr_dropped_def)
qed

section \<open>Properties\<close>

text \<open>C26: a strict priority queue behind the link handshake, driven by any sequence of arrivals of
  non-empty packets and of link-idle events: no call fails, every packet that arrived is, exactly once, sent,
  queued or dropped, and the link is idle only when nothing is queued.\<close>

theorem priority_link_conserves:
  assumes "pr_inv d" "pr_pkts d = []" "pr_drops d = []" "qh_sent h = []" "qh_unblock_on_resume h"
    and "\<forall>p \<in> set (arrivals es). 0 < pk_size p" "distinct (map pk_addr (arrivals es))"
  shows "\<exists>h' d'. link_run (\<lambda>_. pr_enque) (\<lambda>_. pr_deque) es (h, d) = Inr (h', d') \<and>
    mset (map pk_addr (qh_sent h' @ pr_pkts d' @ pr_drops d')) = mset (map pk_addr (arrivals es)) \<and>
    (\<not> qh_blocked h' \<longrightarrow> pr_pkts d' = []) \<and> pr_inv d'"
proof -
  have "\<exists>s'. link_run (\<lambda>_. pr_enque) (\<lambda>_. pr_deque) es (h, d) = Inr s' \<and> prq.hand_inv s' \<and>
     prq.total s' = mset (map pk_addr (arrivals es)) + prq.total (h, d)"
    using assms
    by (intro prq.run_ok) (auto simp: prq.hand_inv_def prq.total_def prq.sent_def pr_backlog_def
        pr_dropped_def pr_fits_def)
  then show ?thesis using assms(2-4)
    by (auto simp: prq.hand_inv_def prq.total_def prq.sent_def pr_backlog_def pr_dropped_def ac_simps)
qed

theorem priority_link_conserves_witness:
  "\<exists>h' d'. link_run (\<lambda>_. pr_enque) (\<lambda>_. pr_deque)
      [(1, Some (mk_packet 1 900 1 5)), (1, Some (mk_packet 2 900 1 3)), (2, None)]
      (\<lparr>qh_blocked = False, qh_unblock_on_resume = True, qh_util = \<lparr>qu_last_change = 0, qu_old_util = 0,
     qu_util_weight = 0, qu_util_check_intv = 0, qu_period_begin = 0, qu_cur_util = 0, qu_buf_slot = 0,
     qu_util_buf = [], qu_util_records = 0\<rparr>, qh_sent = []\<rparr>, prioq_init 10) = Inr (h', d') \<and>
    mset (map pk_addr (qh_sent h' @ pr_pkts d' @ pr_drops d')) = {#1, 2#} \<and>
    (\<not> qh_blocked h' \<longrightarrow> pr_pkts d' = []) \<and> pr_inv d'"
proof -
  have "pr_pkts (prioq_init 10) = []" "pr_drops (prioq_init 10) = []"
    by (simp_all add: prioq_init_def pr_pkts_def MAX_QUEUE_NUM_def lq_init_def)
  then show ?thesis
    using priority_link_conserves [OF pr_inv_init [of 10], of "\<lparr>qh_blocked = False, qh_unblock_on_resume = True,
      qh_util = \<lparr>qu_last_change = 0, qu_old_util = 0,
      qu_util_weight = 0, qu_util_check_intv = 0, qu_period_begin = 0, qu_cur_util = 0, qu_buf_slot = 0,
      qu_util_buf = [], qu_util_records = 0\<rparr>, qh_sent = []\<rparr>"
      "[(1, Some (mk_packet 1 900 1 5)), (1, Some (mk_packet 2 900 1 3)), (2, None)]"] by simp
qed

text \<open>C27: strict priority: from a non-empty queue, \<open>deque\<close> returns the oldest packet of the first non-empty class, and
  changes nothing else.\<close>

theorem priority_deque_strict:
  assumes "pr_inv d" "pr_pkts d \<noteq> []"
  shows "\<exists>j p ps d'. pr_deque d = Inr (Some p, d') \<and> j < length (pr_q d) \<and> lq_pkts (pr_q d ! j) = p # ps \<and>
    (\<forall>k < j. lq_pkts (pr_q d ! k) = []) \<and> map lq_pkts (pr_q d') = (map lq_pkts (pr_q d))[j := ps] \<and>
    pr_inv d' \<and> pr_drops d' = pr_drops d"
proof -
  from pr_deque_ok [OF assms(1)] assms(2) obtain j p ps where j: "int j < pr_queue_num d"
    "lq_pkts (pr_q d ! j) = p # ps" "\<forall>k < j. lq_pkts (pr_q d ! k) = []"
    "pr_deque d = Inr (Some p, d\<lparr>pr_q := (pr_q d)[j := snd (lq_deque (pr_q d ! j))]\<rparr>)"
    "pr_inv (d\<lparr>pr_q := (pr_q d)[j := snd (lq_deque (pr_q d ! j))]\<rparr>)" by auto
  moreover have "j < length (pr_q d)" using j(1) assms(1) by (simp add: pr_inv_def)
  ultimately show ?thesis by (auto simp: map_update lq_deque_def)
qed

theorem priority_deque_strict_witness:
  "\<exists>j p ps d'. pr_deque ((prioq_init 10)\<lparr>pr_q := (replicate 8 lq_init)[6 := lq_enque (mk_packet 1 900 1 9) lq_init]\<rparr>) =
      Inr (Some p, d') \<and> j < 8 \<and> lq_pkts ((replicate 8 lq_init)[6 := lq_enque (mk_packet 1 900 1 9) lq_init] ! j) = p # ps"
proof -
  let ?d = "(prioq_init 10)\<lparr>pr_q := (replicate 8 lq_init)[6 := lq_enque (mk_packet 1 900 1 9) lq_init]\<rparr>"
  have "pr_inv ((prioq_init 10)\<lparr>pr_q := (pr_q (prioq_init 10))[6 := lq_enque (mk_packet 1 900 1 9) (pr_q (prioq_init 10) ! 6)]\<rparr>)"
    by (rule pr_inv_enque_at [OF pr_inv_init])
      (simp_all add: pr_backlog_def pr_pkts_def prioq_init_def MAX_QUEUE_NUM_def lq_init_def)
  then have "pr_inv ?d" by (simp add: prioq_init_def MAX_QUEUE_NUM_def numeral_eq_Suc)
  moreover have "pr_pkts ?d \<noteq> []"
    by (simp add: pr_pkts_def lq_init_def lq_enque_def numeral_eq_Suc)
  ultimately show ?thesis using priority_deque_strict [of ?d] by fastforce
qed

text \<open>C31: \<open>enque\<close> never lets the queued bytes exceed \<open>limit_ * mean_pktsize_\<close>: a packet that would is dropped
  and nothing else changes; any other packet is appended to the class of its clamped priority, and it
  is ECN marked exactly if it is ECN capable and the configured queue (its class or the port), the
  packet included, is longer than the threshold.\<close>

theorem priority_enque_classifies:
  assumes "pr_inv d" "pk_addr p \<notin># pr_backlog d" "0 < pk_size p" "TotalByteLength d \<le> pr_limit d"
  shows "\<exists>d'. pr_enque p d = Inr d' \<and> pr_inv d' \<and> TotalByteLength d' \<le> pr_limit d' \<and>
    (if TotalByteLength d + pk_size p > pr_limit d then pr_q d' = pr_q d \<and> pr_drops d' = pr_drops d @ [p]
     else pr_drops d' = pr_drops d \<and>
       (\<forall>k < length (pr_q d). lq_pkts (pr_q d' ! k) = lq_pkts (pr_q d ! k) @
          (if int k = max 0 (min (ip_prio (pk_ip p)) (pr_queue_num d - 1))
           then [if pr_marks d p then set_ce p else p] else [])))"
proof -
  from pr_enque_ok [OF assms(1) _ assms(2)] assms(3) obtain d' where
    d': "pr_enque p d = Inr d'" "pr_inv d'" by (auto simp: pr_fits_def)
  let ?i = "nat (pr_get_priority d p)"
  have k: "?i < length (pr_q d)" "int ?i = max 0 (min (ip_prio (pk_ip p)) (pr_queue_num d - 1))"
    using clamp_bounds [OF assms(1)] by (auto simp: pr_get_priority_def clamp_priority_def)
  show ?thesis
  proof (cases "TotalByteLength d + pk_size p > pr_limit d")
    case True
    with d' pr_enque_eq [OF assms(1,2)] assms(4) show ?thesis
      by (auto simp: TotalByteLength_def pr_limit_def)
  next
    case False
    with d' pr_enque_eq [OF assms(1,2)] have e: "d' = d\<lparr>pr_q := (pr_q d)[?i :=
        lq_enque (if pr_marks d p then set_ce p else p) (pr_q d ! ?i)]\<rparr>" by simp
    have "TotalByteLength d' = TotalByteLength d + pk_size p"
      using k(1) by (simp add: e TotalByteLength_sum sum_list_update_bytes lq_enque_def)
    moreover have "lq_pkts (pr_q d' ! j) = lq_pkts (pr_q d ! j) @
        (if int j = max 0 (min (ip_prio (pk_ip p)) (pr_queue_num d - 1))
           then [if pr_marks d p then set_ce p else p] else [])" if "j < length (pr_q d)" for j
      using that k(1) unfolding k(2) [symmetric] by (auto simp: e nth_list_update)
    ultimately show ?thesis using False d' by (intro exI [of _ d']) (simp add: e pr_limit_def)
  qed
qed

theorem priority_enque_classifies_witness:
  "\<exists>d'. pr_enque (mk_packet 1 900 1 (2^30)) (prioq_init 10) = Inr d' \<and> pr_inv d' \<and>
     lq_pkts (pr_q d' ! 7) = [mk_packet 1 900 1 (2^30)]"
proof -
  have p: "TotalByteLength (prioq_init 10) = 0" "pr_backlog (prioq_init 10) = {#}" "pr_limit (prioq_init 10) = 15000"
    "length (pr_q (prioq_init 10)) = 8" "pr_queue_num (prioq_init 10) = 8" "lq_pkts (pr_q (prioq_init 10) ! 7) = []"
    "pr_marks (prioq_init 10) (mk_packet 1 900 1 (2^30)) = False"
    by (simp_all add: TotalByteLength_sum pr_backlog_def pr_pkts_def prioq_init_def MAX_QUEUE_NUM_def lq_init_def
        pr_limit_def pr_marks_def packet_init_defs sum_list_replicate)
  with priority_enque_classifies [OF pr_inv_init [of 10], of "mk_packet 1 900 1 (2^30)"] show ?thesis by auto
qed

text \<open>A configured number of classes outside 1 to 8 makes every enqueue throw, whatever is queued.\<close>

theorem priority_rejects_queue_num:
  assumes "pr_queue_num d < 1 \<or> pr_queue_num d > 8"
  shows "pr_enque p d = Inl (RuntimeError ''wrong queue num for Priority'')"
  using assms by (auto simp: pr_enque_def ensure_queue_bound_def MAX_QUEUE_NUM_def)

theorem priority_rejects_queue_num_witness:
  "pr_enque (mk_packet 1 900 1 5) ((prioq_init 10)\<lparr>pr_queue_num := 9\<rparr>) =
     Inl (RuntimeError ''wrong queue num for Priority'')"
  by (rule priority_rejects_queue_num) simp

end
