(* ===== verification/ReassemblyQueue.thy ===== *)
theory ReassemblyQueue
  imports Prelude
begin

unbundle bit_operations_syntax

text \<open>
  The reassembly queue of the full TCP agent: \<open>ReassemblyQueue\<close> of \<open>tcp/rq.h\<close> and \<open>tcp/rq.cc\<close>. It keeps the
  received blocks of sequence space in a doubly linked list in sequence order (FIFO), links the same
  nodes in insertion order (LIFO) for the generation of SACK blocks, counts the queued bytes and
  advances the receiver's \<open>rcv_nxt_\<close>.

  The FIFO is the list \<open>rq_fifo\<close> of its nodes; a node has an identity \<open>sg_id\<close>, and the LIFO is the
  list \<open>rq_lifo\<close> of identities, top first. A pointer into the FIFO is a position in the list. The
  recycling of nodes through \<open>freelist_\<close> only serves allocation and is a fresh identity here.
  \<open>TcpSeq\<close> is \<open>int\<close>; the code does no wrap-around of sequence numbers.
\<close>

section \<open>Data\<close>

record seginfo =
  sg_id :: nat
  sg_start :: int
  sg_end :: int
  sg_pflags :: int
  sg_rqflags :: int
  sg_cnt :: int

record rq =
  rq_fifo :: "seginfo list"
  rq_lifo :: "nat list"
  rq_hint :: "nat option"
  rq_total :: int
  rq_rcv_nxt :: int
  rq_fresh :: nat

definition rq_init :: "int \<Rightarrow> rq" where
  "rq_init rcvnxt = \<lparr>rq_fifo = [], rq_lifo = [], rq_hint = None, rq_total = 0, rq_rcv_nxt = rcvnxt, rq_fresh = 0\<rparr>"

definition rq_empty :: "rq \<Rightarrow> bool" where
  "rq_empty q = (rq_fifo q = [])"

definition maxseq :: "rq \<Rightarrow> int" where
  "maxseq q = (if rq_fifo q = [] then -1 else sg_end (last (rq_fifo q)))"

definition minseq :: "rq \<Rightarrow> int" where
  "minseq q = (if rq_fifo q = [] then -1 else sg_start (hd (rq_fifo q)))"

section \<open>Linking and unlinking\<close>

definition drop_hint :: "nat \<Rightarrow> rq \<Rightarrow> rq" where
  "drop_hint i q = (if rq_hint q = Some i then q\<lparr>rq_hint := None\<rparr> else q)"

definition fremove :: "nat \<Rightarrow> rq \<Rightarrow> rq" where
  "fremove i q = (drop_hint i q)\<lparr>rq_fifo := remove_first (\<lambda>s. sg_id s = i) (rq_fifo q)\<rparr>"

definition sremove :: "nat \<Rightarrow> rq \<Rightarrow> rq" where
  "sremove i q = (drop_hint i q)\<lparr>rq_lifo := remove_first (\<lambda>j. j = i) (rq_lifo q)\<rparr>"

definition rq_push :: "nat \<Rightarrow> rq \<Rightarrow> rq" where
  "rq_push i q = q\<lparr>rq_lifo := i # rq_lifo q\<rparr>"

fun cnts :: "seginfo list \<Rightarrow> int \<times> int" where
  "cnts [] = (0, 0)"
| "cnts (s # ss) = (case cnts ss of (blks, bytes) \<Rightarrow> (blks + 1, bytes + (sg_end s - sg_start s)))"

definition rq_clear :: "rq \<Rightarrow> rq" where
  "rq_clear q = q\<lparr>rq_fifo := [], rq_lifo := [], rq_hint := None, rq_total := 0\<rparr>"

function clearto_loop :: "int \<Rightarrow> int \<Rightarrow> rq \<Rightarrow> int \<times> rq" where
  "clearto_loop seq flag q =
     (case rq_fifo q of
        [] \<Rightarrow> (flag, q)
      | p # ps \<Rightarrow>
          if sg_end p \<le> seq then
            clearto_loop seq (flag OR sg_pflags p)
              (fremove (sg_id p) (sremove (sg_id p) (q\<lparr>rq_total := rq_total q - (sg_end p - sg_start p)\<rparr>)))
          else (flag, q))"
  by pat_completeness auto
termination
  by (relation "measure (\<lambda>(_, _, q). length (rq_fifo q))") (auto simp: fremove_def sremove_def drop_hint_def)

declare clearto_loop.simps [simp del]

definition clearto :: "int \<Rightarrow> rq \<Rightarrow> int \<times> rq" where
  "clearto seq q =
     (case clearto_loop seq 0 q of (flag, q1) \<Rightarrow>
        (case rq_fifo q1 of
           [] \<Rightarrow> (flag, q1)
         | p # ps \<Rightarrow>
             if sg_start p \<le> seq \<and> sg_end p > seq then
               (flag OR sg_pflags p,
                q1\<lparr>rq_total := rq_total q1 - (seq - sg_start p), rq_fifo := p\<lparr>sg_start := seq\<rparr> # ps\<rparr>)
             else (flag, q1)))"

definition cleartonxt :: "rq \<Rightarrow> int \<times> rq" where
  "cleartonxt q = clearto (rq_rcv_nxt q) q"

section \<open>SACK blocks and holes\<close>

text \<open>The block of a node of the LIFO.\<close>

definition seg_of :: "nat \<Rightarrow> rq \<Rightarrow> (int \<times> int) option" where
  "seg_of i q = map_option (\<lambda>s. (sg_start s, sg_end s)) (find (\<lambda>s. sg_id s = i) (rq_fifo q))"

fun gensack_loop :: "rq \<Rightarrow> nat list \<Rightarrow> int \<Rightarrow> (int \<times> int) list" where
  "gensack_loop q [] maxsblock = []"
| "gensack_loop q (i # is) maxsblock =
     (if maxsblock \<noteq> 0
      then (case seg_of i q of None \<Rightarrow> [] | Some b \<Rightarrow> b # gensack_loop q is (maxsblock - 1))
      else [])"

definition gensack :: "rq \<Rightarrow> int \<Rightarrow> (int \<times> int) list" where
  "gensack q maxsblock = gensack_loop q (rq_lifo q) maxsblock"

fun nexthole_loop :: "int \<Rightarrow> seginfo list \<Rightarrow> int \<times> int \<times> int" where
  "nexthole_loop seq [] = (-1, -1, -1)"
| "nexthole_loop seq (p # ps) =
     (if sg_start p > seq then (case cnts (p # ps) of (c, b) \<Rightarrow> (seq, c, b))
      else if sg_start p \<le> seq \<and> sg_end p \<ge> seq then
        (if ps \<noteq> [] then (case cnts ps of (c, b) \<Rightarrow> (sg_end p, c, b)) else (sg_end p, -1, -1))
      else nexthole_loop seq ps)"

text \<open>The result is the hole with \<open>nxtcnt\<close> and \<open>nxtbytes\<close>.\<close>

definition nexthole :: "int \<Rightarrow> rq \<Rightarrow> (int \<times> int \<times> int) \<times> rq" where
  "nexthole seq q =
     (let q1 = q\<lparr>rq_hint := (case rq_fifo q of [] \<Rightarrow> None | s # _ \<Rightarrow> Some (sg_id s))\<rparr>
      in (nexthole_loop seq (rq_fifo q1), q1))"

section \<open>Adding a block\<close>

text \<open>\<open>coalesce(p, n, q)\<close>: \<open>n\<close> is the node at position \<open>k\<close>, \<open>p\<close> and \<open>q\<close> its neighbours. The result is the
  aggregate of the flags.\<close>

definition note_rcv_nxt :: "seginfo \<Rightarrow> rq \<Rightarrow> rq" where
  "note_rcv_nxt p q = (if rq_rcv_nxt q \<ge> sg_start p then q\<lparr>rq_rcv_nxt := sg_end p\<rparr> else q)"

definition coalesce :: "nat \<Rightarrow> rq \<Rightarrow> (int \<times> rq) res" where
  "coalesce k rq =
     (let fifo = rq_fifo rq; n = fifo ! k;
          p = (if k = 0 then None else Some (fifo ! (k - 1)));
          q = (if k + 1 < length fifo then Some (fifo ! (k + 1)) else None)
      in (case (p, q) of
         (Some p', Some q') \<Rightarrow>
           if sg_end p' = sg_start n \<and> sg_end n = sg_start q' then
             let p1 = p'\<lparr>sg_end := sg_end q', sg_cnt := sg_cnt p' + (sg_cnt n + sg_cnt q'),
                         sg_pflags := sg_pflags p' OR sg_pflags n\<rparr>;
                 rq1 = fremove (sg_id q') (sremove (sg_id q') (fremove (sg_id n) (sremove (sg_id n) rq)));
                 rq2 = rq1\<lparr>rq_fifo := (rq_fifo rq1)[k - 1 := p1]\<rparr>
             in Inr (sg_pflags p1, note_rcv_nxt p1 rq2)
           else if sg_end p' = sg_start n then
             let p1 = p'\<lparr>sg_end := sg_end n, sg_pflags := sg_pflags p' OR sg_pflags n, sg_cnt := sg_cnt p' + sg_cnt n\<rparr>;
                 rq1 = fremove (sg_id n) (sremove (sg_id n) rq);
                 rq2 = rq1\<lparr>rq_fifo := (rq_fifo rq1)[k - 1 := p1]\<rparr>
             in Inr (sg_pflags p1, note_rcv_nxt p1 rq2)
           else if sg_end n = sg_start q' then
             let q1 = q'\<lparr>sg_start := sg_start n, sg_pflags := sg_pflags q' OR sg_pflags n, sg_cnt := sg_cnt q' + sg_cnt n\<rparr>;
                 rq1 = fremove (sg_id n) (sremove (sg_id n) rq);
                 rq2 = rq1\<lparr>rq_fifo := (rq_fifo rq1)[k := q1]\<rparr>
             in Inr (sg_pflags q1, note_rcv_nxt q1 rq2)
           else Inr (0, note_rcv_nxt p' rq)
       | (Some p', None) \<Rightarrow>
           if sg_end p' = sg_start n then
             let p1 = p'\<lparr>sg_end := sg_end n, sg_pflags := sg_pflags p' OR sg_pflags n, sg_cnt := sg_cnt p' + sg_cnt n\<rparr>;
                 rq1 = fremove (sg_id n) (sremove (sg_id n) rq);
                 rq2 = rq1\<lparr>rq_fifo := (rq_fifo rq1)[k - 1 := p1]\<rparr>
             in Inr (sg_pflags p1, note_rcv_nxt p1 rq2)
           else Inr (0, note_rcv_nxt p' rq)
       | (None, Some q') \<Rightarrow>
           if sg_end n = sg_start q' then
             let q1 = q'\<lparr>sg_start := sg_start n, sg_pflags := sg_pflags q' OR sg_pflags n, sg_cnt := sg_cnt q' + sg_cnt n\<rparr>;
                 rq1 = fremove (sg_id n) (sremove (sg_id n) rq);
                 rq2 = rq1\<lparr>rq_fifo := (rq_fifo rq1)[k := q1]\<rparr>
             in Inr (sg_pflags q1, note_rcv_nxt q1 rq2)
           else Inl NullDeref
       | (None, None) \<Rightarrow> Inl NullDeref))"

text \<open>From \<open>endfast\<close> on: the new node goes between the first \<open>pc\<close> nodes and those from position \<open>qi\<close>.\<close>

definition add_node :: "int \<Rightarrow> int \<Rightarrow> int \<Rightarrow> int \<Rightarrow> int \<Rightarrow> bool \<Rightarrow> nat \<Rightarrow> nat \<Rightarrow> rq \<Rightarrow> (int \<times> rq) res" where
  "add_node start end tiflags rqflags initcnt needmerge pc qi rq =
     (let n = \<lparr>sg_id = rq_fresh rq, sg_start = start, sg_end = end, sg_pflags = tiflags,
               sg_rqflags = rqflags, sg_cnt = initcnt\<rparr>;
          rq1 = (rq_push (sg_id n) rq)
            \<lparr>rq_fifo := take pc (rq_fifo rq) @ n # drop qi (rq_fifo rq), rq_fresh := rq_fresh rq + 1,
             rq_total := rq_total rq + (end - start)\<rparr>
      in if needmerge then coalesce pc rq1
         else if rq_rcv_nxt rq1 \<ge> start then Inr (tiflags, rq1\<lparr>rq_rcv_nxt := end\<rparr>)
         else Inr (tiflags, rq1))"

text \<open>The loop that kills completely overlapped blocks, over the nodes from \<open>r\<close> up to \<open>q\<close>. The last
  component is the result of the early return for an exact overlap.\<close>

record kill_st =
  ks_total :: int
  ks_flags :: int
  ks_cnt :: int
  ks_removed :: "nat list"

fun kill_loop ::
  "int \<Rightarrow> int \<Rightarrow> seginfo list \<Rightarrow> kill_st \<Rightarrow> seginfo list \<times> kill_st \<times> int option" where
  "kill_loop start end [] st = ([], st, None)"
| "kill_loop start end (r # rs) st =
     (if start = sg_start r \<and> end = sg_end r then
        (let r1 = r\<lparr>sg_pflags := sg_pflags r OR ks_flags st\<rparr> in (r1 # rs, st, Some (sg_pflags r1)))
      else if start \<le> sg_start r \<and> end \<ge> sg_end r then
        kill_loop start end rs
          (st\<lparr>ks_total := ks_total st - (sg_end r - sg_start r), ks_flags := ks_flags st OR sg_pflags r,
              ks_cnt := ks_cnt st + sg_cnt r, ks_removed := ks_removed st @ [sg_id r]\<rparr>)
      else (case kill_loop start end rs st of (ks, st1, ex) \<Rightarrow> (r # ks, st1, ex)))"

text \<open>The merges with the neighbours. After the two fast paths, the walks from the head and from
  the tail have passed at least one node, so \<open>p->next_\<close> (or \<open>head_\<close>) is the node at position \<open>np\<close>
  and \<open>q->prev_\<close> (or \<open>tail_\<close>) the node at position \<open>qi - 1\<close>.\<close>

definition add_merge :: "int \<Rightarrow> int \<Rightarrow> int \<Rightarrow> int \<Rightarrow> int \<Rightarrow> nat \<Rightarrow> nat \<Rightarrow> rq \<Rightarrow> (int \<times> rq) res" where
  "add_merge start end tiflags rqflags initcnt np qi rq =
     (let left = (np = 0 \<or> sg_start (rq_fifo rq ! np) < start);
          (start1, initcnt1, rq1) =
            (if left then
               let p = rq_fifo rq ! np;
                   (tot, p1) = (if start < sg_start p then (rq_total rq + (sg_start p - start), p\<lparr>sg_start := start\<rparr>)
                                else (rq_total rq, p));
                   p2 = p1\<lparr>sg_pflags := sg_pflags p1 OR tiflags, sg_cnt := sg_cnt p1 + 1\<rparr>
               in (sg_end p2, initcnt - 1, rq\<lparr>rq_total := tot, rq_fifo := (rq_fifo rq)[np := p2]\<rparr>)
             else (start, initcnt, rq));
          pc = (if left then np + 1 else np);
          right = (qi = length (rq_fifo rq1) \<or> sg_end (rq_fifo rq1 ! (qi - 1)) > end);
          (end1, rq2) =
            (if right then
               let q = rq_fifo rq1 ! (qi - 1);
                   (tot, q1) = (if end > sg_end q then (rq_total rq1 + (end - sg_end q), q\<lparr>sg_end := end\<rparr>)
                                else (rq_total rq1, q));
                   q2 = q1\<lparr>sg_pflags := sg_pflags q1 OR tiflags\<rparr>
               in (sg_start q2, rq1\<lparr>rq_total := tot, rq_fifo := (rq_fifo rq1)[qi - 1 := q2]\<rparr>)
             else (end, rq1));
          qi1 = (if right then qi - 1 else qi);
          needmerge = (left \<or> right)
      in if end1 \<le> start1 then Inr (tiflags, note_rcv_nxt (hd (rq_fifo rq2)) rq2)
         else
           let needmerge1 =
             (needmerge \<or> (pc = qi1 \<and> sg_end (rq_fifo rq2 ! (pc - 1)) \<le> start1 \<and> sg_start (rq_fifo rq2 ! qi1) \<ge> end1 \<and>
                (sg_end (rq_fifo rq2 ! (pc - 1)) = start1 \<or> sg_start (rq_fifo rq2 ! qi1) = end1)))
           in add_node start1 end1 tiflags rqflags initcnt1 needmerge1 pc qi1 rq2)"

definition walk_q :: "int \<Rightarrow> seginfo list \<Rightarrow> nat" where
  "walk_q end fifo = length (takeWhile (\<lambda>s. sg_start s < end) fifo)"

definition walk_p :: "int \<Rightarrow> seginfo list \<Rightarrow> nat" where
  "walk_p start fifo = length (dropWhile (\<lambda>s. sg_end s > start) (rev fifo))"

text \<open>One pass of the kill loop over the queue.\<close>

definition kill_pass :: "int \<Rightarrow> int \<Rightarrow> int \<Rightarrow> int \<Rightarrow> rq \<Rightarrow> rq \<times> kill_st \<times> int option" where
  "kill_pass start end tiflags initcnt rq =
     (let fifo = rq_fifo rq; np = walk_p start fifo; qi = walk_q end fifo;
          r0 = (if np = 0 then 0 else np - 1);
          stop = (if r0 \<le> qi then qi else length fifo)
      in (case kill_loop start end (take (stop - r0) (drop r0 fifo))
                 \<lparr>ks_total = rq_total rq, ks_flags = tiflags, ks_cnt = initcnt, ks_removed = []\<rparr> of
            (kept, st, ex) \<Rightarrow>
              (rq\<lparr>rq_fifo := take r0 fifo @ kept @ drop stop fifo,
                  rq_lifo := filter (\<lambda>i. i \<notin> set (ks_removed st)) (rq_lifo rq),
                  rq_hint := (case rq_hint rq of None \<Rightarrow> None
                    | Some h \<Rightarrow> if h \<in> set (ks_removed st) then None else Some h),
                  rq_total := ks_total st\<rparr>, st, ex)))"

lemma kill_loop_length:
  "kill_loop start end rs st = (kept, st', ex) \<Longrightarrow>
   length (ks_removed st') + length kept = length (ks_removed st) + length rs"
  by (induction start "end" rs st arbitrary: kept st' ex rule: kill_loop.induct)
    (fastforce simp: Let_def split: if_splits prod.splits)+

lemma kill_pass_length:
  assumes "kill_pass start end tiflags initcnt rq = (rq1, st, ex)"
  shows "length (rq_fifo rq1) + length (ks_removed st) = length (rq_fifo rq)"
proof -
  let ?f = "rq_fifo rq"
  let ?r0 = "if walk_p start ?f = 0 then 0 else walk_p start ?f - 1"
  let ?stop = "if ?r0 \<le> walk_q end ?f then walk_q end ?f else length ?f"
  have "walk_p start ?f \<le> length ?f"
    using length_dropWhile_le [of "\<lambda>s. sg_end s > start" "rev ?f"] by (simp add: walk_p_def)
  moreover have "walk_q end ?f \<le> length ?f" by (simp add: walk_q_def length_takeWhile_le)
  ultimately have b: "?r0 \<le> ?stop" "?stop \<le> length ?f" by auto
  obtain kept where k: "kill_loop start end (take (?stop - ?r0) (drop ?r0 ?f))
      \<lparr>ks_total = rq_total rq, ks_flags = tiflags, ks_cnt = initcnt, ks_removed = []\<rparr> = (kept, st, ex)"
    "rq_fifo rq1 = take ?r0 ?f @ kept @ drop ?stop ?f"
    using assms by (auto simp: kill_pass_def Let_def split: prod.splits)
  from kill_loop_length [OF k(1)] b show ?thesis unfolding k(2) by simp
qed

text \<open>The part of \<open>add\<close> for a non-empty queue, from the label \<open>again2\<close> on.\<close>

function add_again :: "int \<Rightarrow> int \<Rightarrow> int \<Rightarrow> int \<Rightarrow> int \<Rightarrow> rq \<Rightarrow> (int \<times> rq) res" where
  "add_again start end tiflags rqflags initcnt rq =
     (let fifo = rq_fifo rq in
      if fifo = [] then Inl NullDeref
      else if start \<ge> sg_end (last fifo) then
        add_node start end tiflags rqflags initcnt (start = sg_end (last fifo)) (length fifo) (length fifo) rq
      else if end \<le> sg_start (hd fifo) then
        add_node start end tiflags rqflags initcnt (end = sg_start (hd fifo)) 0 0 rq
      else
        (case kill_pass start end tiflags initcnt rq of (rq1, st, ex) \<Rightarrow>
           (case ex of
              Some flags \<Rightarrow> Inr (flags, rq1)
            | None \<Rightarrow>
                if rq_fifo rq1 = [] then
                  (if walk_p start fifo > 0 \<or> walk_q end fifo < length fifo then Inl UseAfterFree
                   else add_node start end (ks_flags st) rqflags (ks_cnt st) False 0 0 rq1)
                else if ks_removed st \<noteq> [] then
                  add_again start end (ks_flags st) rqflags (ks_cnt st) rq1
                else add_merge start end tiflags rqflags initcnt (walk_p start fifo) (walk_q end fifo) rq1)))"
  by pat_completeness auto
termination
  by (relation "measure (\<lambda>(_, _, _, _, _, rq). length (rq_fifo rq))")
    (auto dest!: kill_pass_length [OF sym] simp: neq_Nil_conv)

declare add_again.simps [simp del]

definition rq_add :: "int \<Rightarrow> int \<Rightarrow> int \<Rightarrow> int \<Rightarrow> rq \<Rightarrow> (int \<times> rq) res" where
  "rq_add start end tiflags rqflags rq =
     (if end < start then Inl Abort
      else if rq_fifo rq = [] then
        (if rq_lifo rq \<noteq> [] then Inl Abort
         else
           let n = \<lparr>sg_id = rq_fresh rq, sg_start = start, sg_end = end, sg_pflags = tiflags,
                    sg_rqflags = rqflags, sg_cnt = 1\<rparr>;
               rq1 = rq\<lparr>rq_fifo := [n], rq_lifo := [sg_id n], rq_total := end - start, rq_fresh := rq_fresh rq + 1\<rparr>
           in Inr (tiflags, if rq_rcv_nxt rq1 \<ge> start then rq1\<lparr>rq_rcv_nxt := end\<rparr> else rq1))
      else add_again start end tiflags rqflags 1 rq)"

section \<open>Lists of intervals\<close>

type_synonym iv = "int \<times> int"

definition iv_of :: "seginfo \<Rightarrow> iv" where
  "iv_of s = (sg_start s, sg_end s)"

lemma iv_of_sel [simp]: "fst (iv_of s) = sg_start s" "snd (iv_of s) = sg_end s"
  by (simp_all add: iv_of_def)

text \<open>Blocks are non-empty, in order, and neither overlap nor touch.\<close>

definition iv_inv :: "iv list \<Rightarrow> bool" where
  "iv_inv xs \<longleftrightarrow> sorted_wrt (\<lambda>a b. snd a < fst b) xs \<and> (\<forall>x \<in> set xs. fst x < snd x)"

definition iv_cov :: "iv list \<Rightarrow> int set" where
  "iv_cov xs = (\<Union>x \<in> set xs. {fst x ..< snd x})"

definition iv_len :: "iv list \<Rightarrow> int" where
  "iv_len xs = sum_list (map (\<lambda>x. snd x - fst x) xs)"

lemma iv_simps [simp]:
  "iv_cov [] = {}" "iv_cov (x # xs) = {fst x ..< snd x} \<union> iv_cov xs" "iv_cov (xs @ ys) = iv_cov xs \<union> iv_cov ys"
  "iv_len [] = 0" "iv_len (x # xs) = snd x - fst x + iv_len xs" "iv_len (xs @ ys) = iv_len xs + iv_len ys"
  "iv_inv []" "iv_inv (x # xs) \<longleftrightarrow> fst x < snd x \<and> (\<forall>y \<in> set xs. snd x < fst y) \<and> iv_inv xs"
  by (auto simp: iv_cov_def iv_len_def iv_inv_def)

lemma iv_inv_append:
  "iv_inv (xs @ ys) \<longleftrightarrow> iv_inv xs \<and> iv_inv ys \<and> (\<forall>x \<in> set xs. \<forall>y \<in> set ys. snd x < fst y)"
  by (auto simp: iv_inv_def sorted_wrt_append)

lemma iv_inv_pos: "iv_inv xs \<Longrightarrow> x \<in> set xs \<Longrightarrow> fst x < snd x"
  by (auto simp: iv_inv_def)

text \<open>A new interval between \<open>A\<close> and \<open>B\<close>, joined with a neighbour it touches.\<close>

definition iv_join :: "iv list \<Rightarrow> iv \<Rightarrow> iv list \<Rightarrow> iv list" where
  "iv_join A n B =
     (let l = (A \<noteq> [] \<and> snd (last A) = fst n); r = (B \<noteq> [] \<and> fst (hd B) = snd n)
      in (if l then butlast A else A) @
         (if l then fst (last A) else fst n, if r then snd (hd B) else snd n) #
         (if r then tl B else B))"

lemma iv_join_inv:
  assumes "iv_inv A" "iv_inv B" "\<forall>a \<in> set A. \<forall>b \<in> set B. snd a < fst b" "s < e"
    "\<forall>a \<in> set A. snd a \<le> s" "\<forall>b \<in> set B. e \<le> fst b"
  shows "iv_inv (iv_join A (s, e) B)"
    "iv_cov (iv_join A (s, e) B) = iv_cov A \<union> iv_cov B \<union> {s ..< e}"
    "iv_len (iv_join A (s, e) B) = iv_len A + iv_len B + (e - s)"
proof -
  have "iv_inv (iv_join A (s, e) B) \<and> iv_cov (iv_join A (s, e) B) = iv_cov A \<union> iv_cov B \<union> {s ..< e} \<and>
      iv_len (iv_join A (s, e) B) = iv_len A + iv_len B + (e - s)"
  proof (cases A rule: rev_cases)
    case Nil
    show ?thesis
    proof (cases B)
      case Nil
      with \<open>A = []\<close> assms show ?thesis by (simp add: iv_join_def)
    next
      case (Cons b B')
      have "e = fst b \<or> e < fst b" using assms(6) Cons by auto
      with Cons \<open>A = []\<close> assms show ?thesis by (auto simp: iv_join_def; force)
    qed
  next
    case (snoc A' a)
    have a: "snd a = s \<or> snd a < s" "fst a < snd a" "\<forall>x \<in> set A'. snd x < fst a"
      using assms(1,5) snoc by (auto simp: iv_inv_append)
    show ?thesis
    proof (cases B)
      case Nil
      with snoc a assms show ?thesis by (auto simp: iv_join_def iv_inv_append; force)
    next
      case (Cons b B')
      have b: "e = fst b \<or> e < fst b" "fst b < snd b" "\<forall>x \<in> set B'. snd b < fst x"
        using assms(2,6) Cons by auto
      from a(1) b(1) show ?thesis
        by (elim disjE) (use snoc Cons a b assms in \<open>auto simp: iv_join_def iv_inv_append; force\<close>)+
    qed
  qed
  then show "iv_inv (iv_join A (s, e) B)"
    "iv_cov (iv_join A (s, e) B) = iv_cov A \<union> iv_cov B \<union> {s ..< e}"
    "iv_len (iv_join A (s, e) B) = iv_len A + iv_len B + (e - s)" by auto
qed

section \<open>Bookkeeping of the nodes\<close>

abbreviation ids :: "seginfo list \<Rightarrow> nat list" where
  "ids \<equiv> map sg_id"

definition rq_book :: "rq \<Rightarrow> bool" where
  "rq_book q \<longleftrightarrow> distinct (ids (rq_fifo q)) \<and> mset (rq_lifo q) = mset (ids (rq_fifo q)) \<and>
     (\<forall>i \<in> set (ids (rq_fifo q)). i < rq_fresh q)"

lemma mset_remove_first_eq: "mset (remove_first (\<lambda>j. j = i) xs) = mset xs - {#i#}"
  by (induction xs) auto

lemma unlink_fields [simp]:
  "rq_fifo (sremove i q) = rq_fifo q" "rq_lifo (fremove i q) = rq_lifo q"
  "rq_total (fremove i q) = rq_total q" "rq_total (sremove i q) = rq_total q"
  "rq_rcv_nxt (fremove i q) = rq_rcv_nxt q" "rq_rcv_nxt (sremove i q) = rq_rcv_nxt q"
  "rq_fresh (fremove i q) = rq_fresh q" "rq_fresh (sremove i q) = rq_fresh q"
  by (simp_all add: fremove_def sremove_def drop_hint_def)

lemma note_rcv_fields [simp]:
  "rq_fifo (note_rcv_nxt p q) = rq_fifo q" "rq_lifo (note_rcv_nxt p q) = rq_lifo q"
  "rq_total (note_rcv_nxt p q) = rq_total q" "rq_fresh (note_rcv_nxt p q) = rq_fresh q"
  "rq_book (note_rcv_nxt p q) = rq_book q"
  by (simp_all add: note_rcv_nxt_def rq_book_def)

lemma fremove_middle:
  "rq_fifo q = A @ n # B \<Longrightarrow> sg_id n \<notin> set (ids A) \<Longrightarrow> rq_fifo (fremove (sg_id n) q) = A @ B"
  by (simp add: fremove_def image_iff) (subst remove_first_append_notin, auto)

lemma book_unlink:
  assumes "rq_book q" "rq_fifo q = A @ n # B"
  shows "rq_book (fremove (sg_id n) (sremove (sg_id n) q))"
    "rq_fifo (fremove (sg_id n) (sremove (sg_id n) q)) = A @ B"
proof -
  have d: "distinct (ids (A @ n # B))" using assms by (simp add: rq_book_def)
  show f: "rq_fifo (fremove (sg_id n) (sremove (sg_id n) q)) = A @ B"
    using d assms(2) by (intro fremove_middle) auto
  have "rq_lifo (fremove (sg_id n) (sremove (sg_id n) q)) = remove_first (\<lambda>j. j = sg_id n) (rq_lifo q)"
    by (simp add: sremove_def)
  then have "mset (rq_lifo (fremove (sg_id n) (sremove (sg_id n) q))) = mset (ids (A @ B))"
    using assms by (simp add: mset_remove_first_eq rq_book_def)
  then show "rq_book (fremove (sg_id n) (sremove (sg_id n) q))"
    unfolding rq_book_def f using assms d by (auto simp: rq_book_def)
qed

lemma book_fifo:
  "rq_book q \<Longrightarrow> ids fifo = ids (rq_fifo q) \<Longrightarrow> rq_book (q\<lparr>rq_fifo := fifo\<rparr>)"
  by (simp add: rq_book_def flip: set_map)

lemma book_total [simp]:
  "rq_book (q\<lparr>rq_total := t\<rparr>) = rq_book q" "rq_book (q\<lparr>rq_rcv_nxt := r\<rparr>) = rq_book q"
  "rq_book (q\<lparr>rq_fifo := fifo, rq_total := t\<rparr>) = rq_book (q\<lparr>rq_fifo := fifo\<rparr>)"
  "rq_book (q\<lparr>rq_total := t, rq_fifo := fifo\<rparr>) = rq_book (q\<lparr>rq_fifo := fifo\<rparr>)"
  by (simp_all add: rq_book_def)

text \<open>What the receiver expects next, given the first block of the queue.\<close>

definition next_expected :: "int \<Rightarrow> iv list \<Rightarrow> int" where
  "next_expected r xs = (case xs of [] \<Rightarrow> r | x # _ \<Rightarrow> if r \<ge> fst x then snd x else r)"

definition rq_inv :: "rq \<Rightarrow> bool" where
  "rq_inv q \<longleftrightarrow> rq_book q \<and> iv_inv (map iv_of (rq_fifo q)) \<and> rq_total q = iv_len (map iv_of (rq_fifo q))"

text \<open>The blocks and the counters after adding an interval.\<close>

definition added :: "rq \<Rightarrow> iv list \<Rightarrow> int \<Rightarrow> (int \<times> rq) res \<Rightarrow> bool" where
  "added rq ivs tot r \<longleftrightarrow> (\<exists>f rq'. r = Inr (f, rq') \<and> rq_book rq' \<and> map iv_of (rq_fifo rq') = ivs \<and>
     rq_total rq' = tot \<and> rq_rcv_nxt rq' = next_expected (rq_rcv_nxt rq) ivs)"

lemma addedI:
  "rq_book rq' \<Longrightarrow> map iv_of (rq_fifo rq') = ivs \<Longrightarrow> rq_total rq' = tot \<Longrightarrow>
   rq_rcv_nxt rq' = next_expected (rq_rcv_nxt rq) ivs \<Longrightarrow> added rq ivs tot (Inr (f, rq'))"
  by (auto simp: added_def)

lemma note_rcv_next:
  "rq_rcv_nxt (note_rcv_nxt p q) = (if rq_rcv_nxt q \<ge> sg_start p then sg_end p else rq_rcv_nxt q)"
  by (simp add: note_rcv_nxt_def)

text \<open>The hypothesis on the receiver: every queued block is ahead of what it expects.\<close>

lemma next_expected_ahead:
  "\<forall>x \<in> set A. r < fst x \<Longrightarrow> A \<noteq> [] \<Longrightarrow> next_expected r (A @ B) = r"
  by (cases A) (auto simp: next_expected_def)

lemma coalesce_both:
  assumes b: "rq_book rq" and f: "rq_fifo rq = A @ p # n # q # B"
    and e: "sg_end p = sg_start n" "sg_end n = sg_start q"
    and r: "\<forall>x \<in> set A. rq_rcv_nxt rq < sg_start x" "A \<noteq> [] \<Longrightarrow> rq_rcv_nxt rq < sg_start p"
  shows "added rq (map iv_of A @ (sg_start p, sg_end q) # map iv_of B) (rq_total rq)
    (coalesce (Suc (length A)) rq)"
proof -
  let ?p = "p\<lparr>sg_end := sg_end q, sg_cnt := sg_cnt p + (sg_cnt n + sg_cnt q), sg_pflags := sg_pflags p OR sg_pflags n\<rparr>"
  let ?q1 = "fremove (sg_id n) (sremove (sg_id n) rq)"
  let ?q2 = "fremove (sg_id q) (sremove (sg_id q) ?q1)"
  let ?rq = "?q2\<lparr>rq_fifo := (rq_fifo ?q2)[length A := ?p]\<rparr>"
  have b1: "rq_book ?q1" "rq_fifo ?q1 = (A @ [p]) @ q # B"
    using book_unlink [OF b, of "A @ [p]" n "q # B"] f by simp_all
  have b2: "rq_book ?q2" "rq_fifo ?q2 = A @ p # B"
    using book_unlink [OF b1] by simp_all
  have b3: "rq_book ?rq" using b2 by (intro book_fifo) auto
  have c: "coalesce (Suc (length A)) rq = Inr (sg_pflags ?p, note_rcv_nxt ?p ?rq)"
    using e by (simp add: coalesce_def f Let_def nth_append)
  show ?thesis unfolding c
  proof (rule addedI)
    show "rq_book (note_rcv_nxt ?p ?rq)" using b3 by simp
    show "map iv_of (rq_fifo (note_rcv_nxt ?p ?rq)) = map iv_of A @ (sg_start p, sg_end q) # map iv_of B"
      using b2(2) by (simp add: iv_of_def)
    show "rq_rcv_nxt (note_rcv_nxt ?p ?rq) =
        next_expected (rq_rcv_nxt rq) (map iv_of A @ (sg_start p, sg_end q) # map iv_of B)"
      using r by (cases A) (auto simp: note_rcv_next next_expected_def iv_of_def)
  qed simp
qed

lemma coalesce_left:
  assumes b: "rq_book rq" and f: "rq_fifo rq = A @ p # n # B"
    and e: "sg_end p = sg_start n" "B = [] \<or> sg_end n \<noteq> sg_start (hd B)"
    and r: "\<forall>x \<in> set A. rq_rcv_nxt rq < sg_start x" "A \<noteq> [] \<Longrightarrow> rq_rcv_nxt rq < sg_start p"
  shows "added rq (map iv_of A @ (sg_start p, sg_end n) # map iv_of B) (rq_total rq)
    (coalesce (Suc (length A)) rq)"
proof -
  let ?p = "p\<lparr>sg_end := sg_end n, sg_pflags := sg_pflags p OR sg_pflags n, sg_cnt := sg_cnt p + sg_cnt n\<rparr>"
  let ?q1 = "fremove (sg_id n) (sremove (sg_id n) rq)"
  let ?rq = "?q1\<lparr>rq_fifo := (rq_fifo ?q1)[length A := ?p]\<rparr>"
  have b1: "rq_book ?q1" "rq_fifo ?q1 = A @ p # B"
    using book_unlink [OF b, of "A @ [p]" n B] f by simp_all
  have b3: "rq_book ?rq" using b1 by (intro book_fifo) auto
  have c: "coalesce (Suc (length A)) rq = Inr (sg_pflags ?p, note_rcv_nxt ?p ?rq)"
    using e by (cases B) (simp_all add: coalesce_def f Let_def nth_append)
  show ?thesis unfolding c
  proof (rule addedI)
    show "rq_book (note_rcv_nxt ?p ?rq)" using b3 by simp
    show "map iv_of (rq_fifo (note_rcv_nxt ?p ?rq)) = map iv_of A @ (sg_start p, sg_end n) # map iv_of B"
      using b1(2) by (simp add: iv_of_def)
    show "rq_rcv_nxt (note_rcv_nxt ?p ?rq) =
        next_expected (rq_rcv_nxt rq) (map iv_of A @ (sg_start p, sg_end n) # map iv_of B)"
      using r by (cases A) (auto simp: note_rcv_next next_expected_def iv_of_def)
  qed simp
qed

lemma coalesce_right:
  assumes b: "rq_book rq" and f: "rq_fifo rq = A @ n # q # B"
    and e: "A = [] \<or> sg_end (last A) \<noteq> sg_start n" "sg_end n = sg_start q"
    and r: "\<forall>x \<in> set A. rq_rcv_nxt rq < sg_start x" "A \<noteq> [] \<Longrightarrow> rq_rcv_nxt rq < sg_start n"
  shows "added rq (map iv_of A @ (sg_start n, sg_end q) # map iv_of B) (rq_total rq)
    (coalesce (length A) rq)"
proof -
  let ?p = "q\<lparr>sg_start := sg_start n, sg_pflags := sg_pflags q OR sg_pflags n, sg_cnt := sg_cnt q + sg_cnt n\<rparr>"
  let ?q1 = "fremove (sg_id n) (sremove (sg_id n) rq)"
  let ?rq = "?q1\<lparr>rq_fifo := (rq_fifo ?q1)[length A := ?p]\<rparr>"
  have b1: "rq_book ?q1" "rq_fifo ?q1 = A @ q # B"
    using book_unlink [OF b, of A n "q # B"] f by simp_all
  have b3: "rq_book ?rq" using b1 by (intro book_fifo) auto
  have c: "coalesce (length A) rq = Inr (sg_pflags ?p, note_rcv_nxt ?p ?rq)"
    using e by (cases A rule: rev_cases) (simp_all add: coalesce_def f Let_def nth_append)
  show ?thesis unfolding c
  proof (rule addedI)
    show "rq_book (note_rcv_nxt ?p ?rq)" using b3 by simp
    show "map iv_of (rq_fifo (note_rcv_nxt ?p ?rq)) = map iv_of A @ (sg_start n, sg_end q) # map iv_of B"
      using b1(2) by (simp add: iv_of_def)
    show "rq_rcv_nxt (note_rcv_nxt ?p ?rq) =
        next_expected (rq_rcv_nxt rq) (map iv_of A @ (sg_start n, sg_end q) # map iv_of B)"
      using r by (cases A) (auto simp: note_rcv_next next_expected_def iv_of_def)
  qed simp
qed

text \<open>Inserting the new node and coalescing is joining its interval.\<close>

lemma add_node_join:
  assumes b: "rq_book rq" and f: "rq_fifo rq = A @ B"
    and m: "needmerge \<longleftrightarrow> (A \<noteq> [] \<and> sg_end (last A) = start) \<or> (B \<noteq> [] \<and> sg_start (hd B) = end)"
    and r: "\<And>A' p. A = A' @ [p] \<Longrightarrow> (\<forall>x \<in> set A'. rq_rcv_nxt rq < sg_start x) \<and>
        (A' \<noteq> [] \<or> sg_end p \<noteq> start \<longrightarrow> rq_rcv_nxt rq < sg_start p) \<and> (sg_end p \<noteq> start \<longrightarrow> rq_rcv_nxt rq < start)"
  shows "added rq (iv_join (map iv_of A) (start, end) (map iv_of B)) (rq_total rq + (end - start))
    (add_node start end tiflags rqflags initcnt needmerge (length A) (length A) rq)"
proof -
  define n where "n = \<lparr>sg_id = rq_fresh rq, sg_start = start, sg_end = end, sg_pflags = tiflags,
               sg_rqflags = rqflags, sg_cnt = initcnt\<rparr>"
  define rq1 where "rq1 = (rq_push (sg_id n) rq)\<lparr>rq_fifo := A @ n # B, rq_fresh := rq_fresh rq + 1,
             rq_total := rq_total rq + (end - start)\<rparr>"
  have b1: "rq_book rq1" using b f by (auto simp: rq1_def rq_book_def rq_push_def n_def ball_Un less_Suc_eq)
  have f1: "rq_fifo rq1 = A @ n # B" "rq_total rq1 = rq_total rq + (end - start)" "rq_rcv_nxt rq1 = rq_rcv_nxt rq"
    "sg_start n = start" "sg_end n = end" by (simp_all add: rq1_def rq_push_def n_def)
  have a: "add_node start end tiflags rqflags initcnt needmerge (length A) (length A) rq =
      (if needmerge then coalesce (length A) rq1
       else if rq_rcv_nxt rq1 \<ge> start then Inr (tiflags, rq1\<lparr>rq_rcv_nxt := end\<rparr>) else Inr (tiflags, rq1))"
    by (simp add: add_node_def Let_def f rq1_def n_def)
  have tr: "added rq1 ivs t x \<Longrightarrow> added rq ivs t x" for ivs t x by (simp add: added_def f1)
  consider (none) "\<not> needmerge" | (left) A' p where "A = A' @ [p]" "sg_end p = start"
    | (right) q B' where "B = q # B'" "sg_start q = end" "A = [] \<or> sg_end (last A) \<noteq> start"
    using m by (cases A rule: rev_cases; cases B) auto
  then show ?thesis
  proof cases
    case none
    then have nl: "A = [] \<or> sg_end (last A) \<noteq> start" "B = [] \<or> sg_start (hd B) \<noteq> end" using m by auto
    have j: "iv_join (map iv_of A) (start, end) (map iv_of B) = map iv_of A @ (start, end) # map iv_of B"
      using nl by (cases A rule: rev_cases; cases B) (auto simp: iv_join_def iv_of_def)
    have ahead: "A \<noteq> [] \<Longrightarrow> rq_rcv_nxt rq < start \<and> (\<forall>x \<in> set A. rq_rcv_nxt rq < sg_start x)"
      using r nl(1) by (cases A rule: rev_cases) auto
    show ?thesis unfolding a j using none b1 f1 ahead
      by (cases A) (auto intro!: addedI simp: next_expected_def iv_of_def)
  next
    case left
    with m have nm: "needmerge" by simp
    show ?thesis
    proof (cases "B \<noteq> [] \<and> sg_start (hd B) = end")
      case True
      then obtain q B' where B: "B = q # B'" "sg_start q = end" by (cases B) auto
      have "added rq1 (map iv_of A' @ (sg_start p, sg_end q) # map iv_of B') (rq_total rq1) (coalesce (Suc (length A')) rq1)"
        using left B f1 r by (intro coalesce_both [OF b1, of A' p n q B']) auto
      then show ?thesis unfolding a using nm left B f1
        by (intro tr) (simp add: iv_join_def iv_of_def)
    next
      case False
      have "added rq1 (map iv_of A' @ (sg_start p, sg_end n) # map iv_of B) (rq_total rq1) (coalesce (Suc (length A')) rq1)"
        using left False f1 r by (intro coalesce_left [OF b1, of A' p n B]) auto
      then show ?thesis unfolding a using nm left False f1
        by (intro tr) (cases B; auto simp: iv_join_def iv_of_def)
    qed
  next
    case right
    with m have nm: "needmerge" by simp
    have ahead: "A \<noteq> [] \<Longrightarrow> rq_rcv_nxt rq < start \<and> (\<forall>x \<in> set A. rq_rcv_nxt rq < sg_start x)"
      using r right(3) by (cases A rule: rev_cases) auto
    have "added rq1 (map iv_of A @ (sg_start n, sg_end q) # map iv_of B') (rq_total rq1) (coalesce (length A) rq1)"
    proof (rule coalesce_right [OF b1])
      show "\<forall>x \<in> set A. rq_rcv_nxt rq1 < sg_start x" using ahead f1 by (cases "A = []") auto
    qed (use right f1 ahead in auto)
    then show ?thesis unfolding a using nm right f1
      by (intro tr) (cases A rule: rev_cases; auto simp: iv_join_def iv_of_def)
  qed
qed

section \<open>Where the new block falls\<close>

text \<open>\<open>A\<close> before it, \<open>M\<close> overlapping it, \<open>B\<close> behind it.\<close>

definition falls :: "int \<Rightarrow> int \<Rightarrow> seginfo list \<Rightarrow> seginfo list \<Rightarrow> seginfo list \<Rightarrow> bool" where
  "falls s e A M B \<longleftrightarrow> (\<forall>a \<in> set A. sg_end a \<le> s) \<and> (\<forall>m \<in> set M. s < sg_end m \<and> sg_start m < e) \<and>
     (\<forall>b \<in> set B. e \<le> sg_start b)"

lemma iv_inv_Cons_of:
  "iv_inv (map iv_of (x # xs)) \<longleftrightarrow> sg_start x < sg_end x \<and> (\<forall>y \<in> set xs. sg_end x < sg_start y) \<and> iv_inv (map iv_of xs)"
  by (simp add: iv_of_def)

lemma split_fifo:
  "iv_inv (map iv_of fifo) \<Longrightarrow> s < e \<Longrightarrow> \<exists>A M B. fifo = A @ M @ B \<and> falls s e A M B"
proof (induction fifo)
  case Nil
  show ?case by (simp add: falls_def)
next
  case (Cons x xs)
  then obtain A M B where h: "xs = A @ M @ B" "falls s e A M B" by (auto simp: iv_inv_Cons_of)
  have after: "\<forall>y \<in> set xs. sg_end x < sg_start y \<and> sg_start y < sg_end y" "sg_start x < sg_end x"
    using Cons.prems(1) by (auto simp: iv_inv_Cons_of iv_of_def iv_inv_def)
  consider "sg_end x \<le> s" | "s < sg_end x" "sg_start x < e" | "e \<le> sg_start x" using Cons.prems(2) by linarith
  then show ?case
  proof cases
    case 1
    with h show ?thesis by (intro exI [of _ "x # A"] exI [of _ M] exI [of _ B]) (simp add: falls_def)
  next
    case 2
    with h after have "A = []" by (cases A) (auto simp: falls_def)
    with 2 h show ?thesis by (intro exI [of _ "[]"] exI [of _ "x # M"] exI [of _ B]) (simp add: falls_def)
  next
    case 3
    with after have "\<forall>y \<in> set xs. e \<le> sg_start y" by fastforce
    with 3 show ?thesis
      by (intro exI [of _ "[]"] exI [of _ "[]"] exI [of _ "x # xs"]) (simp add: falls_def)
  qed
qed

lemma fifo_pos: "iv_inv (map iv_of fifo) \<Longrightarrow> x \<in> set fifo \<Longrightarrow> sg_start x < sg_end x"
  by (auto simp: iv_inv_def iv_of_def)

lemma walk_q_falls:
  assumes "iv_inv (map iv_of (A @ M @ B))" "falls s e A M B" "s < e"
  shows "walk_q e (A @ M @ B) = length (A @ M)"
proof -
  have "\<forall>x \<in> set (A @ M). sg_start x < e"
    using assms fifo_pos [OF assms(1)] by (force simp: falls_def)
  then have "takeWhile (\<lambda>x. sg_start x < e) ((A @ M) @ B) = (A @ M) @ takeWhile (\<lambda>x. sg_start x < e) B"
    by (intro takeWhile_append2) blast
  moreover have "takeWhile (\<lambda>x. sg_start x < e) B = []"
    using assms(2) by (cases B) (auto simp: falls_def)
  ultimately show ?thesis by (simp add: walk_q_def)
qed

lemma walk_p_falls:
  assumes "iv_inv (map iv_of (A @ M @ B))" "falls s e A M B" "s < e"
  shows "walk_p s (A @ M @ B) = length A"
proof -
  have "\<forall>x \<in> set (rev (M @ B)). sg_end x > s"
    using assms fifo_pos [OF assms(1)] by (force simp: falls_def)
  then have "dropWhile (\<lambda>x. sg_end x > s) (rev (M @ B) @ rev A) = dropWhile (\<lambda>x. sg_end x > s) (rev A)"
    by (subst dropWhile_append2) auto
  also have "\<dots> = rev A"
    using assms(2) by (cases A rule: rev_cases) (auto simp: falls_def)
  finally show ?thesis by (simp add: walk_p_def)
qed

definition swallowed :: "int \<Rightarrow> int \<Rightarrow> seginfo \<Rightarrow> bool" where
  "swallowed s e x \<longleftrightarrow> s \<le> sg_start x \<and> sg_end x \<le> e"

lemma kill_loop_none:
  assumes "kill_loop s e rs st = (kept, st', None)"
  shows "kept = filter (\<lambda>x. \<not> swallowed s e x) rs \<and>
   ks_total st' = ks_total st - iv_len (map iv_of (filter (swallowed s e) rs)) \<and>
   ks_removed st' = ks_removed st @ ids (filter (swallowed s e) rs)"
  using assms
proof (induction rs arbitrary: st kept st')
  case (Cons r rs)
  have ne: "\<not> (s = sg_start r \<and> e = sg_end r)" using Cons.prems by (auto simp: Let_def)
  show ?case
  proof (cases "swallowed s e r")
    case True
    let ?st = "st\<lparr>ks_total := ks_total st - (sg_end r - sg_start r), ks_flags := ks_flags st OR sg_pflags r,
              ks_cnt := ks_cnt st + sg_cnt r, ks_removed := ks_removed st @ [sg_id r]\<rparr>"
    have "kill_loop s e rs ?st = (kept, st', None)"
      using Cons.prems ne True by (simp add: swallowed_def split: if_splits)
    from Cons.IH [OF this] True show ?thesis by (simp add: iv_of_def)
  next
    case False
    then obtain ks where "kill_loop s e rs st = (ks, st', None)" "kept = r # ks"
      using Cons.prems ne by (auto simp: swallowed_def split: if_splits prod.splits)
    with Cons.IH [of st ks st'] False show ?thesis by simp
  qed
qed simp

lemma kill_loop_some:
  assumes "kill_loop s e rs st = (kept, st', Some f)"
  shows "\<exists>A x B. rs = A @ x # B \<and> iv_of x = (s, e) \<and>
    (filter (swallowed s e) A = [] \<longrightarrow> st' = st \<and> map iv_of kept = map iv_of rs \<and> ids kept = ids rs)"
  using assms
proof (induction rs arbitrary: st kept st')
  case (Cons r rs)
  show ?case
  proof (cases "s = sg_start r \<and> e = sg_end r")
    case True
    with Cons.prems show ?thesis
      by (intro exI [of _ "[]"] exI [of _ r] exI [of _ rs]) (auto simp: iv_of_def Let_def)
  next
    case ne: False
    show ?thesis
    proof (cases "swallowed s e r")
      case True
      let ?st = "st\<lparr>ks_total := ks_total st - (sg_end r - sg_start r), ks_flags := ks_flags st OR sg_pflags r,
              ks_cnt := ks_cnt st + sg_cnt r, ks_removed := ks_removed st @ [sg_id r]\<rparr>"
      have "kill_loop s e rs ?st = (kept, st', Some f)"
        using Cons.prems ne True by (simp add: swallowed_def split: if_splits)
      from Cons.IH [OF this] obtain A x B where "rs = A @ x # B" "iv_of x = (s, e)" by blast
      with True show ?thesis by (intro exI [of _ "r # A"] exI [of _ x] exI [of _ B]) simp
    next
      case False
      then obtain ks where ks: "kill_loop s e rs st = (ks, st', Some f)" "kept = r # ks"
        using Cons.prems ne by (auto simp: swallowed_def split: if_splits prod.splits)
      from Cons.IH [OF ks(1)] obtain A x B where "rs = A @ x # B" "iv_of x = (s, e)"
        "filter (swallowed s e) A = [] \<longrightarrow> st' = st \<and> map iv_of ks = map iv_of rs \<and> ids ks = ids rs"
        by blast
      with ks(2) False show ?thesis by (intro exI [of _ "r # A"] exI [of _ x] exI [of _ B]) simp
    qed
  qed
qed simp

lemma filter_ids_notin:
  assumes "distinct (map f xs)"
  shows "filter (\<lambda>i. i \<notin> f ` {x \<in> set xs. P x}) (map f xs) = map f (filter (\<lambda>x. \<not> P x) xs)"
proof -
  have "filter (\<lambda>x. f x \<notin> f ` {y \<in> set xs. P y}) xs = filter (\<lambda>x. \<not> P x) xs"
    using assms by (intro filter_cong refl) (auto simp: distinct_map inj_on_def)
  then show ?thesis by (simp add: filter_map comp_def)
qed

lemma falls_not_swallowed:
  assumes "iv_inv (map iv_of (A @ M @ B))" "falls s e A M B"
  shows "x \<in> set A \<union> set B \<Longrightarrow> \<not> swallowed s e x"
  using fifo_pos [OF assms(1)] assms(2) by (fastforce simp: falls_def swallowed_def)

lemma kill_pass_eq:
  assumes i: "iv_inv (map iv_of (A @ M @ B))" and f: "rq_fifo rq = A @ M @ B" "falls s e A M B" "s < e"
    and k: "kill_pass s e fl c rq = (rq1, st, ex)"
  obtains A0 A1 kept where "A = A0 @ A1"
    "kill_loop s e (A1 @ M) \<lparr>ks_total = rq_total rq, ks_flags = fl, ks_cnt = c, ks_removed = []\<rparr> = (kept, st, ex)"
    "rq1 = rq\<lparr>rq_fifo := A0 @ kept @ B, rq_lifo := filter (\<lambda>i. i \<notin> set (ks_removed st)) (rq_lifo rq),
          rq_hint := (case rq_hint rq of None \<Rightarrow> None | Some h \<Rightarrow> if h \<in> set (ks_removed st) then None else Some h),
          rq_total := ks_total st\<rparr>"
proof -
  have w: "walk_p s (A @ M @ B) = length A" "walk_q e (A @ M @ B) = length (A @ M)"
    using i f by (simp_all add: walk_p_falls walk_q_falls)
  obtain A0 A1 where A: "A = A0 @ A1" "length A0 = (if length A = 0 then 0 else length A - 1)"
    by (cases A rule: rev_cases) auto
  obtain kept st' ex' where kl:
    "kill_loop s e (A1 @ M) \<lparr>ks_total = rq_total rq, ks_flags = fl, ks_cnt = c, ks_removed = []\<rparr> = (kept, st', ex')"
    by (metis prod_cases3)
  have "take (length (A @ M) - length A0) (drop (length A0) (A @ M @ B)) = A1 @ M" using A(1) by simp
  moreover have "take (length A0) (A @ M @ B) = A0" "drop (length (A @ M)) (A @ M @ B) = B" using A(1) by simp_all
  moreover have "length A0 \<le> length (A @ M)" using A(1) by simp
  ultimately have "kill_pass s e fl c rq = (rq\<lparr>rq_fifo := A0 @ kept @ B,
          rq_lifo := filter (\<lambda>i. i \<notin> set (ks_removed st')) (rq_lifo rq),
          rq_hint := (case rq_hint rq of None \<Rightarrow> None | Some h \<Rightarrow> if h \<in> set (ks_removed st') then None else Some h),
          rq_total := ks_total st'\<rparr>, st', ex')"
    using kl unfolding kill_pass_def Let_def f(1) w A(2) [symmetric] by simp
  with k kl A(1) show thesis by (intro that) auto
qed

lemma kill_pass_none:
  assumes i: "rq_inv rq" and f: "rq_fifo rq = A @ M @ B" "falls s e A M B" "s < e"
    and k: "kill_pass s e fl c rq = (rq1, st, None)"
  shows "rq_fifo rq1 = filter (\<lambda>x. \<not> swallowed s e x) (rq_fifo rq)" "rq_book rq1"
    "rq_total rq1 = rq_total rq - iv_len (map iv_of (filter (swallowed s e) (rq_fifo rq)))"
    "rq_rcv_nxt rq1 = rq_rcv_nxt rq" "ks_removed st = ids (filter (swallowed s e) (rq_fifo rq))"
    "filter (swallowed s e) (rq_fifo rq) = filter (swallowed s e) M"
proof -
  have iv: "iv_inv (map iv_of (A @ M @ B))" using i f(1) by (simp add: rq_inv_def)
  note ns = falls_not_swallowed [OF iv f(2)]
  obtain A0 A1 kept where A: "A = A0 @ A1" and
    kl: "kill_loop s e (A1 @ M) \<lparr>ks_total = rq_total rq, ks_flags = fl, ks_cnt = c, ks_removed = []\<rparr> = (kept, st, None)"
    and rq1: "rq1 = rq\<lparr>rq_fifo := A0 @ kept @ B, rq_lifo := filter (\<lambda>i. i \<notin> set (ks_removed st)) (rq_lifo rq),
          rq_hint := (case rq_hint rq of None \<Rightarrow> None | Some h \<Rightarrow> if h \<in> set (ks_removed st) then None else Some h),
          rq_total := ks_total st\<rparr>"
    by (rule kill_pass_eq [OF iv f k])
  note kn = kill_loop_none [OF kl]
  have fs: "filter (swallowed s e) A = []" "filter (swallowed s e) B = []" "filter (swallowed s e) A1 = []"
    using ns A by (auto simp: filter_empty_conv)
  have fn: "filter (\<lambda>x. \<not> swallowed s e x) A0 = A0" "filter (\<lambda>x. \<not> swallowed s e x) B = B"
    "filter (\<lambda>x. \<not> swallowed s e x) A1 = A1" using ns A by (auto simp: filter_id_conv)
  show fifo: "rq_fifo rq1 = filter (\<lambda>x. \<not> swallowed s e x) (rq_fifo rq)"
    using kn by (simp add: rq1 f(1) A fn)
  show fM: "filter (swallowed s e) (rq_fifo rq) = filter (swallowed s e) M" by (simp add: f(1) fs)
  show rem: "ks_removed st = ids (filter (swallowed s e) (rq_fifo rq))"
    using kn unfolding fM by (simp add: fs)
  show "rq_total rq1 = rq_total rq - iv_len (map iv_of (filter (swallowed s e) (rq_fifo rq)))"
    using kn unfolding fM by (simp add: rq1 fs)
  show "rq_rcv_nxt rq1 = rq_rcv_nxt rq" by (simp add: rq1)
  have b: "rq_book rq" using i by (simp add: rq_inv_def)
  have "mset (rq_lifo rq1) = filter_mset (\<lambda>i. i \<notin> set (ks_removed st)) (mset (ids (rq_fifo rq)))"
    using b by (simp add: rq1 rq_book_def)
  also have "\<dots> = mset (ids (rq_fifo rq1))"
    using arg_cong [OF filter_ids_notin [of sg_id "rq_fifo rq" "swallowed s e"], where f = mset] b
    unfolding fifo rem by (simp add: rq_book_def)
  finally show "rq_book rq1"
    using b unfolding rq_book_def fifo
    by (auto simp: rq1 distinct_map_filter)
qed

lemma kill_pass_some:
  assumes i: "rq_inv rq" and f: "rq_fifo rq = A @ M @ B" "falls s e A M B" "s < e"
    and k: "kill_pass s e fl c rq = (rq1, st, Some g)"
  shows "(s, e) \<in> set (map iv_of (rq_fifo rq))" "map iv_of (rq_fifo rq1) = map iv_of (rq_fifo rq)" "rq_book rq1"
    "rq_total rq1 = rq_total rq" "rq_rcv_nxt rq1 = rq_rcv_nxt rq"
proof -
  have iv: "iv_inv (map iv_of (A @ M @ B))" using i f(1) by (simp add: rq_inv_def)
  obtain A0 A1 kept where A: "A = A0 @ A1" and
    kl: "kill_loop s e (A1 @ M) \<lparr>ks_total = rq_total rq, ks_flags = fl, ks_cnt = c, ks_removed = []\<rparr> = (kept, st, Some g)"
    and rq1: "rq1 = rq\<lparr>rq_fifo := A0 @ kept @ B, rq_lifo := filter (\<lambda>i. i \<notin> set (ks_removed st)) (rq_lifo rq),
          rq_hint := (case rq_hint rq of None \<Rightarrow> None | Some h \<Rightarrow> if h \<in> set (ks_removed st) then None else Some h),
          rq_total := ks_total st\<rparr>"
    by (rule kill_pass_eq [OF iv f k])
  from kill_loop_some [OF kl] obtain C x D where x: "A1 @ M = C @ x # D" "iv_of x = (s, e)"
    "filter (swallowed s e) C = [] \<longrightarrow> st = \<lparr>ks_total = rq_total rq, ks_flags = fl, ks_cnt = c, ks_removed = []\<rparr> \<and>
      map iv_of kept = map iv_of (A1 @ M) \<and> ids kept = ids (A1 @ M)" by blast
  have all: "A @ M @ B = (A0 @ C) @ x # D @ B" using A x(1) by simp
  have "sg_start y < s" if "y \<in> set C" for y
  proof -
    have "sg_start y < sg_end y" using that by (intro fifo_pos [OF iv]) (simp add: all)
    moreover have "sg_end y < s" using iv that x(2) unfolding all by (auto simp: iv_inv_append iv_of_def)
    ultimately show ?thesis by simp
  qed
  then have "filter (swallowed s e) C = []" by (auto simp: filter_empty_conv swallowed_def dest: leD)
  with x(3) have st: "st = \<lparr>ks_total = rq_total rq, ks_flags = fl, ks_cnt = c, ks_removed = []\<rparr>"
    "map iv_of kept = map iv_of (A1 @ M)" "ids kept = ids (A1 @ M)" by auto
  show "(s, e) \<in> set (map iv_of (rq_fifo rq))" using x(2) unfolding f(1) all by auto
  show "map iv_of (rq_fifo rq1) = map iv_of (rq_fifo rq)" using st(2) by (simp add: rq1 f(1) A)
  have "ids (rq_fifo rq1) = ids (rq_fifo rq)" using st(3) by (simp add: rq1 f(1) A)
  then show "rq_book rq1" using i by (auto simp: rq_inv_def rq_book_def rq1 st(1) simp flip: set_map)
  show "rq_total rq1 = rq_total rq" "rq_rcv_nxt rq1 = rq_rcv_nxt rq" by (simp_all add: rq1 st(1))
qed

section \<open>Merging with the neighbours\<close>

text \<open>What is left between \<open>A\<close> and \<open>B\<close> when nothing is swallowed: nothing, one block, or two blocks that
  stick out on either side.\<close>

lemma middle_cases:
  assumes "iv_inv (map iv_of M)" "\<forall>m \<in> set M. s < sg_end m \<and> sg_start m < e \<and> \<not> swallowed s e m"
  obtains "M = []" | m where "M = [m]" "sg_start m < s \<or> e < sg_end m"
  | m1 m2 where "M = [m1, m2]" "sg_start m1 < s" "e < sg_end m2" "sg_end m1 < sg_start m2"
proof (cases M)
  case Nil
  then show thesis by (rule that(1))
next
  case (Cons m1 M')
  show thesis
  proof (cases M')
    case Nil
    with Cons assms(2) show thesis by (intro that(2) [of m1]) (auto simp: swallowed_def)
  next
    case C2: (Cons m2 M'')
    have o: "sg_end m1 < sg_start m2" "sg_start m2 < sg_end m2" "sg_start m1 < sg_end m1"
      using assms(1) Cons C2 by (auto simp: iv_inv_Cons_of iv_of_def)
    have s1: "sg_start m1 < s"
      using assms(2) o Cons C2 by (fastforce simp: swallowed_def)
    have s2: "e < sg_end m2" using assms(2) o Cons C2 by (fastforce simp: swallowed_def)
    have "M'' = []"
    proof (cases M'')
      case (Cons m3 M3)
      then have "sg_end m2 < sg_start m3" "sg_start m3 < e"
        using assms \<open>M = m1 # M'\<close> C2 by (auto simp: iv_of_def)
      with s2 show ?thesis by simp
    qed
    with Cons C2 s1 s2 o show thesis by (intro that(3) [of m1 m2]) auto
  qed
qed

definition merged :: "int \<Rightarrow> int \<Rightarrow> iv list \<Rightarrow> iv list \<Rightarrow> bool" where
  "merged s e old new \<longleftrightarrow> iv_inv new \<and> iv_cov new = iv_cov old \<union> {s ..< e}"

text \<open>The outcome of adding \<open>[s, e)\<close>: the queue covers it in addition, the invariant is kept, and the
  receiver expects what follows the first block if that block has become contiguous.\<close>

definition add_ok :: "int \<Rightarrow> int \<Rightarrow> rq \<Rightarrow> (int \<times> rq) res \<Rightarrow> bool" where
  "add_ok s e rq r \<longleftrightarrow> (\<exists>f rq'. r = Inr (f, rq') \<and> rq_inv rq' \<and>
     iv_cov (map iv_of (rq_fifo rq')) = iv_cov (map iv_of (rq_fifo rq)) \<union> {s ..< e} \<and>
     rq_rcv_nxt rq' = next_expected (rq_rcv_nxt rq) (map iv_of (rq_fifo rq')))"

lemma added_ok:
  assumes "added rq0 ivs tot r" "rq_rcv_nxt rq0 = rq_rcv_nxt rq" "iv_inv ivs" "tot = iv_len ivs"
    "iv_cov ivs = iv_cov (map iv_of (rq_fifo rq)) \<union> {s ..< e}"
  shows "add_ok s e rq r"
  using assms by (auto simp: added_def add_ok_def rq_inv_def)

lemma add_ok_first:
  assumes "rq_book q" "rq_fifo q = F" "F \<noteq> []" "iv_inv (map iv_of F)" "rq_total q = iv_len (map iv_of F)"
    "iv_cov (map iv_of F) = iv_cov (map iv_of (rq_fifo rq)) \<union> {s ..< e}" "rq_rcv_nxt q = rq_rcv_nxt rq"
  shows "add_ok s e rq (Inr (f, note_rcv_nxt (hd F) q))"
proof -
  obtain x xs where "F = x # xs" using assms(3) by (cases F) auto
  with assms show ?thesis
    by (auto simp: add_ok_def rq_inv_def note_rcv_next next_expected_def iv_of_def)
qed

text \<open>The case of one overlapping block \<open>m\<close>: it is extended over the new one on the sides where it is merged,
  and the rest is added as a node.\<close>

lemma add_merge_one:
  assumes i: "rq_inv rq" and f: "rq_fifo rq = A @ m # B" "falls s e A [m] B" "s < e"
    and st: "sg_start m < s \<or> e < sg_end m"
    and r: "\<forall>x \<in> set (rq_fifo rq). rq_rcv_nxt rq < sg_start x" "rq_rcv_nxt rq \<le> s"
  shows "add_ok s e rq (add_merge s e fl rf c (length A) (Suc (length A)) rq)"
proof -
  have b: "rq_book rq" and iv: "iv_inv (map iv_of (A @ m # B))" and tot: "rq_total rq = iv_len (map iv_of (A @ m # B))"
    using i f(1) by (simp_all add: rq_inv_def)
  have g: "sg_start m < sg_end m" "s < sg_end m" "sg_start m < e" "\<forall>x \<in> set A. sg_end x < sg_start m"
    "\<forall>x \<in> set B. sg_end m < sg_start x" "\<forall>x \<in> set A. sg_end x \<le> s" "\<forall>x \<in> set B. e \<le> sg_start x"
    "iv_inv (map iv_of A)" "iv_inv (map iv_of B)" "\<forall>a \<in> set A. \<forall>b \<in> set B. sg_end a < sg_start b"
    using iv f(2) by (auto simp: iv_inv_append iv_of_def falls_def)
  have len: "length (A @ m # B) = Suc (length A) \<longleftrightarrow> B = []" by simp
  show ?thesis
  proof (cases "A = [] \<or> sg_start m < s")
    case left: True
    define m1 where "m1 = (if s < sg_start m then m\<lparr>sg_start := s\<rparr> else m)
      \<lparr>sg_pflags := sg_pflags m OR fl, sg_cnt := sg_cnt m + 1\<rparr>"
    have m1: "sg_id m1 = sg_id m" "sg_end m1 = sg_end m" "sg_start m1 = min s (sg_start m)" by (auto simp: m1_def)
    define t1 where "t1 = (if s < sg_start m then rq_total rq + (sg_start m - s) else rq_total rq)"
    have t1: "t1 = iv_len (map iv_of (A @ m1 # B))" using tot m1 by (simp add: t1_def iv_of_def)
    show ?thesis
    proof (cases "B = [] \<or> sg_end m > e")
      case right: True
      define m2 where "m2 = (if e > sg_end m1 then m1\<lparr>sg_end := e\<rparr> else m1)\<lparr>sg_pflags := sg_pflags m1 OR fl\<rparr>"
      have m2: "sg_id m2 = sg_id m" "sg_start m2 = min s (sg_start m)" "sg_end m2 = max e (sg_end m)"
        using m1 by (auto simp: m2_def)
      define t2 where "t2 = (if e > sg_end m1 then t1 + (e - sg_end m1) else t1)"
      define rq2 where "rq2 = rq\<lparr>rq_total := t2, rq_fifo := A @ m2 # B\<rparr>"
      have "add_merge s e fl rf c (length A) (Suc (length A)) rq = Inr (fl, note_rcv_nxt (hd (A @ m2 # B)) rq2)"
        using left right g(1,2)
        by (auto simp: add_merge_def Let_def f(1) rq2_def t2_def t1_def m2_def m1_def)
      moreover have "rq_book (note_rcv_nxt (hd (A @ m2 # B)) rq2)"
        using b f(1) m2(1) by (simp add: rq2_def) (intro book_fifo, auto)
      moreover have "iv_inv (map iv_of (A @ m2 # B))" "t2 = iv_len (map iv_of (A @ m2 # B))"
        "iv_cov (map iv_of (A @ m2 # B)) = iv_cov (map iv_of (rq_fifo rq)) \<union> {s ..< e}"
        using g left right t1 m1 m2 f(1) by (auto simp: iv_inv_append iv_of_def t2_def)
      moreover have "rq_fifo rq2 = A @ m2 # B" "rq_total rq2 = t2" "rq_rcv_nxt rq2 = rq_rcv_nxt rq"
        by (simp_all add: rq2_def)
      ultimately show ?thesis by (simp only:) (rule add_ok_first, simp_all)
    next
      case right: False
      then have e: "sg_end m \<le> e" "B \<noteq> []" "sg_start m < s" using st by auto
      define rq1 where "rq1 = rq\<lparr>rq_fifo := A @ m1 # B\<rparr>"
      have b1: "rq_book rq1" using b f(1) m1(1) by (simp add: rq1_def) (intro book_fifo, auto)
      have ivm: "iv_of m1 = iv_of m" using e m1 by (simp add: iv_of_def)
      show ?thesis
      proof (cases "sg_end m = e")
        case True
        have "add_merge s e fl rf c (length A) (Suc (length A)) rq = Inr (fl, note_rcv_nxt (hd (A @ m1 # B)) rq1)"
          using left right True e by (simp add: add_merge_def Let_def f(1) rq1_def m1_def)
        moreover have "iv_cov (map iv_of (A @ m1 # B)) = iv_cov (map iv_of (rq_fifo rq)) \<union> {s ..< e}"
          using True e g f(1) ivm by (auto simp: iv_of_def)
        ultimately show ?thesis using b1 iv tot ivm
          by (simp only:) (rule add_ok_first, simp_all add: rq1_def)
      next
        case False
        have eq: "add_merge s e fl rf c (length A) (Suc (length A)) rq =
            add_node (sg_end m) e fl rf (c - 1) True (length (A @ [m1])) (length (A @ [m1])) rq1"
          using left right False e by (simp add: add_merge_def Let_def f(1) rq1_def m1_def)
        have "added rq1 (iv_join (map iv_of (A @ [m1])) (sg_end m, e) (map iv_of B)) (rq_total rq1 + (e - sg_end m))
            (add_node (sg_end m) e fl rf (c - 1) True (length (A @ [m1])) (length (A @ [m1])) rq1)"
          using b1 m1 r f(1) e by (intro add_node_join) (auto simp: rq1_def)
        then show ?thesis unfolding eq
        proof (rule added_ok)
          have j: "iv_inv (map iv_of (A @ [m1]))" "\<forall>a \<in> set (map iv_of (A @ [m1])). snd a \<le> sg_end m"
            using g e ivm by (auto simp: iv_inv_append iv_of_def)
          note join = iv_join_inv [OF j(1) g(9) _ _ j(2), of e]
          have c: "\<forall>a \<in> set (map iv_of (A @ [m1])). \<forall>b \<in> set (map iv_of B). snd a < fst b"
            "sg_end m < e" "\<forall>b \<in> set (map iv_of B). e \<le> fst b"
            using g e False ivm by (auto simp: iv_of_def)
          show "iv_inv (iv_join (map iv_of (A @ [m1])) (sg_end m, e) (map iv_of B))" by (rule join(1) [OF c])
          show "rq_total rq1 + (e - sg_end m) = iv_len (iv_join (map iv_of (A @ [m1])) (sg_end m, e) (map iv_of B))"
            unfolding join(3) [OF c] using tot ivm by (simp add: rq1_def)
          show "iv_cov (iv_join (map iv_of (A @ [m1])) (sg_end m, e) (map iv_of B)) =
              iv_cov (map iv_of (rq_fifo rq)) \<union> {s ..< e}"
            unfolding join(2) [OF c] using g e ivm f(1) by (auto simp: iv_of_def)
        qed (simp add: rq1_def)
      qed
    qed
  next
    case left: False
    then have e: "s \<le> sg_start m" "A \<noteq> []" "e < sg_end m" using st by auto
    define m2 where "m2 = m\<lparr>sg_pflags := sg_pflags m OR fl\<rparr>"
    have m2: "iv_of m2 = iv_of m" "sg_id m2 = sg_id m" by (simp_all add: m2_def iv_of_def)
    define rq1 where "rq1 = rq\<lparr>rq_fifo := A @ m2 # B\<rparr>"
    have b1: "rq_book rq1" using b f(1) m2(2) by (simp add: rq1_def) (intro book_fifo, auto)
    show ?thesis
    proof (cases "sg_start m = s")
      case True
      have "add_merge s e fl rf c (length A) (Suc (length A)) rq = Inr (fl, note_rcv_nxt (hd (A @ m2 # B)) rq1)"
        using left True e by (simp add: add_merge_def Let_def f(1) rq1_def m2_def)
      moreover have "iv_cov (map iv_of (A @ m2 # B)) = iv_cov (map iv_of (rq_fifo rq)) \<union> {s ..< e}"
        using True e g f(1) m2 by (auto simp: iv_of_def)
      ultimately show ?thesis using b1 iv tot m2
        by (simp only:) (rule add_ok_first, simp_all add: rq1_def)
    next
      case False
      have eq: "add_merge s e fl rf c (length A) (Suc (length A)) rq =
          add_node s (sg_start m) fl rf c True (length A) (length A) rq1"
        using left False e by (simp add: add_merge_def Let_def f(1) rq1_def m2_def)
      have "added rq1 (iv_join (map iv_of A) (s, sg_start m) (map iv_of (m2 # B))) (rq_total rq1 + (sg_start m - s))
          (add_node s (sg_start m) fl rf c True (length A) (length A) rq1)"
      proof (rule add_node_join [OF b1])
        show "rq_fifo rq1 = A @ m2 # B" by (simp add: rq1_def)
        show "True \<longleftrightarrow> A \<noteq> [] \<and> sg_end (last A) = s \<or> m2 # B \<noteq> [] \<and> sg_start (hd (m2 # B)) = sg_start m"
          by (simp add: m2_def)
        fix A' p assume A': "A = A' @ [p]"
        then have "rq_rcv_nxt rq < sg_start p" "sg_start p < s"
          using r f(1) g(6) fifo_pos [OF iv, of p] by force+
        then show "(\<forall>x \<in> set A'. rq_rcv_nxt rq1 < sg_start x) \<and> (A' \<noteq> [] \<or> sg_end p \<noteq> s \<longrightarrow> rq_rcv_nxt rq1 < sg_start p) \<and>
          (sg_end p \<noteq> s \<longrightarrow> rq_rcv_nxt rq1 < s)" using r(1) f(1) A' by (auto simp: rq1_def)
      qed
      then show ?thesis unfolding eq
      proof (rule added_ok)
        have j: "iv_inv (map iv_of (m2 # B))" "\<forall>a \<in> set (map iv_of A). snd a \<le> s"
          using g m2 by (auto simp: iv_of_def)
        note join = iv_join_inv [OF g(8) j(1) _ _ j(2)]
        have c: "\<forall>a \<in> set (map iv_of A). \<forall>b \<in> set (map iv_of (m2 # B)). snd a < fst b"
          "s < sg_start m" "\<forall>b \<in> set (map iv_of (m2 # B)). sg_start m \<le> fst b"
          using g e False m2 by (auto simp: iv_of_def)
        show "iv_inv (iv_join (map iv_of A) (s, sg_start m) (map iv_of (m2 # B)))" by (rule join(1) [OF c])
        show "rq_total rq1 + (sg_start m - s) = iv_len (iv_join (map iv_of A) (s, sg_start m) (map iv_of (m2 # B)))"
          unfolding join(3) [OF c] using tot m2 by (simp add: rq1_def)
        show "iv_cov (iv_join (map iv_of A) (s, sg_start m) (map iv_of (m2 # B))) =
            iv_cov (map iv_of (rq_fifo rq)) \<union> {s ..< e}"
          unfolding join(2) [OF c] using g e m2 f(1) by (auto simp: iv_of_def)
      qed (simp add: rq1_def)
    qed
  qed
qed

lemma add_node_ok:
  assumes i: "rq_inv rq" and f: "rq_fifo rq = A @ B" "falls s e A [] B" "s < e"
    and m: "nm \<longleftrightarrow> (A \<noteq> [] \<and> sg_end (last A) = s) \<or> (B \<noteq> [] \<and> sg_start (hd B) = e)"
    and r: "\<forall>x \<in> set (rq_fifo rq). rq_rcv_nxt rq < sg_start x"
  shows "add_ok s e rq (add_node s e fl rf c nm (length A) (length A) rq)"
proof -
  have b: "rq_book rq" and iv: "iv_inv (map iv_of (A @ B))" and tot: "rq_total rq = iv_len (map iv_of (A @ B))"
    using i f(1) by (simp_all add: rq_inv_def)
  have g: "iv_inv (map iv_of A)" "iv_inv (map iv_of B)"
    "\<forall>a \<in> set (map iv_of A). \<forall>b \<in> set (map iv_of B). snd a < fst b"
    "\<forall>a \<in> set (map iv_of A). snd a \<le> s" "\<forall>b \<in> set (map iv_of B). e \<le> fst b"
    using iv f(2) by (auto simp: iv_inv_append iv_of_def falls_def)
  note join = iv_join_inv [OF g(1,2,3) f(3) g(4,5)]
  have "added rq (iv_join (map iv_of A) (s, e) (map iv_of B)) (rq_total rq + (e - s))
      (add_node s e fl rf c nm (length A) (length A) rq)"
  proof (rule add_node_join [OF b f(1) m])
    fix A' p assume A': "A = A' @ [p]"
    then have "rq_rcv_nxt rq < sg_start p" "sg_start p < s"
      using r f fifo_pos [OF iv, of p] by (force simp: falls_def)+
    then show "(\<forall>x \<in> set A'. rq_rcv_nxt rq < sg_start x) \<and> (A' \<noteq> [] \<or> sg_end p \<noteq> s \<longrightarrow> rq_rcv_nxt rq < sg_start p) \<and>
      (sg_end p \<noteq> s \<longrightarrow> rq_rcv_nxt rq < s)" using r f(1) A' by auto
  qed
  then show ?thesis
    by (rule added_ok) (use join tot f(1) in auto)
qed

lemma add_merge_none:
  assumes i: "rq_inv rq" and f: "rq_fifo rq = A @ B" "falls s e A [] B" "s < e" "A \<noteq> []" "B \<noteq> []"
    and r: "\<forall>x \<in> set (rq_fifo rq). rq_rcv_nxt rq < sg_start x"
  shows "add_ok s e rq (add_merge s e fl rf c (length A) (length A) rq)"
proof -
  obtain A' p where A: "A = A' @ [p]" using f(4) by (cases A rule: rev_cases) auto
  obtain q B' where B: "B = q # B'" using f(5) by (cases B) auto
  have o: "sg_end p \<le> s" "e \<le> sg_start q" using f(2) A B by (auto simp: falls_def)
  have "add_merge s e fl rf c (length A) (length A) rq =
      add_node s e fl rf c (sg_end p = s \<or> sg_start q = e) (length A) (length A) rq"
    using f o by (auto simp: add_merge_def Let_def A B nth_append)
  then show ?thesis using add_node_ok [OF i f(1-3) _ r, of "sg_end p = s \<or> sg_start q = e"] A B by simp
qed

lemma add_merge_two:
  assumes i: "rq_inv rq" and f: "rq_fifo rq = A @ m1 # m2 # B" "falls s e A [m1, m2] B" "s < e"
    and st: "sg_start m1 < s" "e < sg_end m2" "sg_end m1 < sg_start m2"
    and r: "\<forall>x \<in> set (rq_fifo rq). rq_rcv_nxt rq < sg_start x"
  shows "add_ok s e rq (add_merge s e fl rf c (length A) (Suc (Suc (length A))) rq)"
proof -
  define p where "p = m1\<lparr>sg_pflags := sg_pflags m1 OR fl, sg_cnt := sg_cnt m1 + 1\<rparr>"
  define q where "q = m2\<lparr>sg_pflags := sg_pflags m2 OR fl\<rparr>"
  define rq1 where "rq1 = rq\<lparr>rq_fifo := A @ p # q # B\<rparr>"
  have pq: "iv_of p = iv_of m1" "iv_of q = iv_of m2" "sg_id p = sg_id m1" "sg_id q = sg_id m2"
    "sg_start p = sg_start m1" "sg_end p = sg_end m1" "sg_start q = sg_start m2" "sg_end q = sg_end m2"
    by (simp_all add: p_def q_def iv_of_def)
  have i1: "rq_inv rq1" using i f(1) pq by (auto simp: rq_inv_def rq1_def intro!: book_fifo)
  have g: "s < sg_end m1" "sg_start m2 < e" using f(2) by (auto simp: falls_def)
  have eq: "add_merge s e fl rf c (length A) (Suc (Suc (length A))) rq =
      add_node (sg_end m1) (sg_start m2) fl rf (c - 1) True (length (A @ [p])) (length (A @ [p])) rq1"
    using st g by (auto simp: add_merge_def Let_def f(1) nth_append list_update_append p_def q_def rq1_def)
  have iv: "iv_inv (map iv_of (A @ m1 # m2 # B))" using i f(1) by (simp add: rq_inv_def)
  have "add_ok (sg_end m1) (sg_start m2) rq1
      (add_node (sg_end m1) (sg_start m2) fl rf (c - 1) True (length (A @ [p])) (length (A @ [p])) rq1)"
  proof (rule add_node_ok [OF i1])
    show "rq_fifo rq1 = (A @ [p]) @ q # B" by (simp add: rq1_def)
    show "falls (sg_end m1) (sg_start m2) (A @ [p]) [] (q # B)"
      using iv st pq fifo_pos [OF iv] by (fastforce simp: falls_def iv_inv_append iv_of_def)
    show "\<forall>x \<in> set (rq_fifo rq1). rq_rcv_nxt rq1 < sg_start x"
      using r f(1) pq by (auto simp: rq1_def)
  qed (use st pq in auto)
  moreover have "iv_cov (map iv_of (rq_fifo rq1)) = iv_cov (map iv_of (rq_fifo rq))" "rq_rcv_nxt rq1 = rq_rcv_nxt rq"
    using pq f(1) by (simp_all add: rq1_def)
  moreover have "iv_cov (map iv_of (rq_fifo rq)) \<union> {sg_end m1 ..< sg_start m2} = iv_cov (map iv_of (rq_fifo rq)) \<union> {s ..< e}"
    using st g f(1) by (auto simp: iv_of_def)
  ultimately show ?thesis unfolding eq add_ok_def by simp
qed

lemma swallowed_cov:
  "iv_cov (map iv_of (filter (\<lambda>x. \<not> swallowed s e x) xs)) \<union> {s ..< e} = iv_cov (map iv_of xs) \<union> {s ..< e}"
proof (induction xs)
  case (Cons x xs)
  show ?case
  proof (cases "swallowed s e x")
    case True
    then have "{sg_start x ..< sg_end x} \<union> {s ..< e} = {s ..< e}" by (auto simp: swallowed_def)
    moreover have "X \<union> S = S \<Longrightarrow> F \<union> S = C \<union> S \<Longrightarrow> F \<union> S = X \<union> C \<union> S" for X S F C :: "int set" by blast
    ultimately show ?thesis using True Cons.IH by (simp add: iv_of_def)
  next
    case False
    with Cons.IH show ?thesis by (simp add: iv_of_def Un_assoc)
  qed
qed simp

lemma iv_len_filter:
  "iv_len (map iv_of (filter (\<lambda>x. \<not> P x) xs)) = iv_len (map iv_of xs) - iv_len (map iv_of (filter P xs))"
  by (induction xs) auto

lemma iv_inv_filter: "iv_inv (map iv_of xs) \<Longrightarrow> iv_inv (map iv_of (filter P xs))"
  by (induction xs) auto

lemma add_ok_cong:
  "add_ok s e rq1 r \<Longrightarrow> rq_rcv_nxt rq1 = rq_rcv_nxt rq \<Longrightarrow>
   iv_cov (map iv_of (rq_fifo rq1)) \<union> {s ..< e} = iv_cov (map iv_of (rq_fifo rq)) \<union> {s ..< e} \<Longrightarrow> add_ok s e rq r"
  by (simp add: add_ok_def)

lemma add_again_ok:
  "rq_inv rq \<Longrightarrow> rq_fifo rq \<noteq> [] \<Longrightarrow> s < e \<Longrightarrow> rq_rcv_nxt rq \<le> s \<Longrightarrow>
   \<forall>x \<in> set (rq_fifo rq). rq_rcv_nxt rq < sg_start x \<Longrightarrow>
   add_ok s e rq (add_again s e fl rf c rq)"
proof (induction "length (rq_fifo rq)" arbitrary: rq fl c rule: less_induct)
  case less
  note i = less.prems(1) and ne = less.prems(2) and se = less.prems(3) and r = less.prems(5)
  have iv: "iv_inv (map iv_of (rq_fifo rq))" using i by (simp add: rq_inv_def)
  from split_fifo [OF iv se] obtain A M B where f: "rq_fifo rq = A @ M @ B" "falls s e A M B" by blast
  note pos = fifo_pos [OF iv]
  show ?case
  proof (cases "s \<ge> sg_end (last (rq_fifo rq))")
    case True
    have "M @ B = []"
    proof (cases "M @ B" rule: rev_cases)
      case (snoc ys y)
      then have "y \<in> set (M @ B)" "last (rq_fifo rq) = y" by (simp_all add: f(1))
      with f True se pos [of y] show ?thesis by (auto simp: falls_def)
    qed
    with f have "falls s e (rq_fifo rq) [] []" by simp
    with add_node_ok [OF i, of "rq_fifo rq" "[]" s e "s = sg_end (last (rq_fifo rq))" fl rf c] se r True ne show ?thesis
      by (simp add: add_again.simps [of s e fl rf c rq] Let_def eq_commute)
  next
    case tail: False
    show ?thesis
    proof (cases "e \<le> sg_start (hd (rq_fifo rq))")
      case True
      obtain x xs where x: "rq_fifo rq = x # xs" using ne by (cases "rq_fifo rq") auto
      have "falls s e [] [] (rq_fifo rq)"
        using iv x True unfolding x by (force simp: falls_def iv_of_def)
      with add_node_ok [OF i, of "[]" "rq_fifo rq" s e "e = sg_start (hd (rq_fifo rq))" fl rf c] se r True ne tail show ?thesis
        by (simp add: add_again.simps [of s e fl rf c rq] Let_def eq_commute)
    next
      case head: False
      obtain rq1 st ex where k: "kill_pass s e fl c rq = (rq1, st, ex)" by (metis prod_cases3)
      show ?thesis
      proof (cases ex)
        case (Some g)
        with k kill_pass_some [OF i f se, of fl c rq1 st g] have
          p: "(s, e) \<in> set (map iv_of (rq_fifo rq))" "map iv_of (rq_fifo rq1) = map iv_of (rq_fifo rq)" "rq_book rq1"
          "rq_total rq1 = rq_total rq" "rq_rcv_nxt rq1 = rq_rcv_nxt rq" by simp_all
        have "{s ..< e} \<subseteq> iv_cov (map iv_of (rq_fifo rq))"
          unfolding iv_cov_def using UN_upper [OF p(1), of "\<lambda>x. {fst x ..< snd x}"] by simp
        moreover have "next_expected (rq_rcv_nxt rq) (map iv_of (rq_fifo rq)) = rq_rcv_nxt rq"
          using r ne by (cases "rq_fifo rq") (auto simp: next_expected_def iv_of_def)
        ultimately have "add_ok s e rq (Inr (g, rq1))"
          using p i by (auto simp: add_ok_def rq_inv_def)
        with Some k ne tail head show ?thesis by (simp add: add_again.simps [of s e fl rf c rq] Let_def)
      next
        case None
        with k have k': "kill_pass s e fl c rq = (rq1, st, None)" by simp
        note kp = kill_pass_none [OF i f se k']
        have i1: "rq_inv rq1" using kp(1,2,3) i
          by (simp add: rq_inv_def iv_inv_filter iv_len_filter)
        have cov: "iv_cov (map iv_of (rq_fifo rq1)) \<union> {s ..< e} = iv_cov (map iv_of (rq_fifo rq)) \<union> {s ..< e}"
          unfolding kp(1) by (rule swallowed_cov)
        have r1: "\<forall>x \<in> set (rq_fifo rq1). rq_rcv_nxt rq1 < sg_start x" using r kp(1,4) by simp
        have w: "walk_p s (rq_fifo rq) = length A" "walk_q e (rq_fifo rq) = length (A @ M)"
          using iv f se by (simp_all add: walk_p_falls walk_q_falls)
        show ?thesis
        proof (cases "filter (swallowed s e) M = []")
          case True
          then have same: "rq_fifo rq1 = A @ M @ B" "ks_removed st = []"
            using kp(1,5,6) f(1) by (auto simp: filter_empty_conv filter_id_conv)
          have eq: "add_again s e fl rf c rq = add_merge s e fl rf c (length A) (length (A @ M)) rq1"
            using None k ne tail head same f(1) w by (auto simp: add_again.simps [of s e fl rf c rq] Let_def)
          have "iv_inv (map iv_of M)" using iv f(1) by (simp add: iv_inv_append)
          moreover have "\<forall>m \<in> set M. s < sg_end m \<and> sg_start m < e \<and> \<not> swallowed s e m"
            using f(2) True by (auto simp: falls_def filter_empty_conv)
          ultimately have "add_ok s e rq1 (add_merge s e fl rf c (length A) (length (A @ M)) rq1)"
          proof (cases rule: middle_cases)
            case 1
            have "A \<noteq> []" using head f ne 1 by (cases B) (auto simp: falls_def)
            moreover have "B \<noteq> []" using tail f ne 1 by (cases A rule: rev_cases) (auto simp: falls_def)
            ultimately show ?thesis using add_merge_none [OF i1, of A B s e fl rf c] same f se r1 1 by simp
          next
            case (2 m)
            then show ?thesis using add_merge_one [OF i1, of A m B s e fl rf c] same f se r1 less.prems(4) kp(4) by simp
          next
            case (3 m1 m2)
            then show ?thesis using add_merge_two [OF i1, of A m1 m2 B s e fl rf c] same f se r1 by simp
          qed
          then show ?thesis unfolding eq using kp(4) cov by (rule add_ok_cong)
        next
          case False
          then have rem: "ks_removed st \<noteq> []" unfolding kp(5,6) by simp
          show ?thesis
          proof (cases "rq_fifo rq1 = []")
            case True
            then have "A = []" "B = []" using kp(1) f iv falls_not_swallowed [of A M B s e]
              by (auto simp: filter_empty_conv)
            then have "add_again s e fl rf c rq = add_node s e (ks_flags st) rf (ks_cnt st) False 0 0 rq1"
              using None k ne tail head True w by (simp add: add_again.simps [of s e fl rf c rq] Let_def f(1))
            with add_node_ok [OF i1, of "[]" "[]" s e False "ks_flags st" rf "ks_cnt st"] True se r1
            have "add_ok s e rq1 (add_again s e fl rf c rq)" by (simp add: falls_def)
            then show ?thesis using kp(4) cov by (rule add_ok_cong)
          next
            case nonempty: False
            have eq: "add_again s e fl rf c rq = add_again s e (ks_flags st) rf (ks_cnt st) rq1"
              using None k ne tail head nonempty rem by (simp add: add_again.simps [of s e fl rf c rq] Let_def)
            have "length (rq_fifo rq1) < length (rq_fifo rq)"
              using kill_pass_length [OF k] rem by (cases "ks_removed st") auto
            then have "add_ok s e rq1 (add_again s e (ks_flags st) rf (ks_cnt st) rq1)"
              using i1 nonempty se r1 less.prems(4) kp(4) by (intro less.hyps) auto
            then show ?thesis unfolding eq using kp(4) cov by (rule add_ok_cong)
          qed
        qed
      qed
    qed
  qed
qed

lemma rq_add_ok:
  assumes "rq_inv rq" "s < e" "rq_rcv_nxt rq \<le> s" "\<forall>x \<in> set (rq_fifo rq). rq_rcv_nxt rq < sg_start x"
  shows "add_ok s e rq (rq_add s e fl rf rq)"
proof (cases "rq_fifo rq = []")
  case True
  then have "rq_lifo rq = []" using assms(1) by (simp add: rq_inv_def rq_book_def)
  with True assms(2,3) show ?thesis
    by (auto simp: rq_add_def Let_def add_ok_def rq_inv_def rq_book_def iv_of_def next_expected_def)
next
  case False
  with add_again_ok [OF assms(1) False assms(2-4)] assms(2) show ?thesis by (simp add: rq_add_def)
qed

section \<open>Clearing\<close>

lemma clearto_loop_ok:
  "rq_inv q \<Longrightarrow> clearto_loop seq flag q = (f, q') \<Longrightarrow>
   rq_inv q' \<and> rq_fifo q' = dropWhile (\<lambda>s. sg_end s \<le> seq) (rq_fifo q) \<and> rq_rcv_nxt q' = rq_rcv_nxt q \<and>
   f = foldl (\<lambda>a s. a OR sg_pflags s) flag (takeWhile (\<lambda>s. sg_end s \<le> seq) (rq_fifo q))"
proof (induction seq flag q arbitrary: f q' rule: clearto_loop.induct)
  case (1 seq flag q)
  show ?case
  proof (cases "rq_fifo q")
    case Nil
    with "1.prems" show ?thesis by (simp add: clearto_loop.simps)
  next
    case (Cons p ps)
    let ?q = "fremove (sg_id p) (sremove (sg_id p) (q\<lparr>rq_total := rq_total q - (sg_end p - sg_start p)\<rparr>))"
    show ?thesis
    proof (cases "sg_end p \<le> seq")
      case True
      have b: "rq_book ?q" "rq_fifo ?q = ps"
        using book_unlink [of "q\<lparr>rq_total := rq_total q - (sg_end p - sg_start p)\<rparr>" "[]" p ps] "1.prems"(1) Cons
        by (simp_all add: rq_inv_def)
      then have "rq_inv ?q" using "1.prems"(1) Cons by (simp add: rq_inv_def iv_of_def)
      moreover have "clearto_loop seq (flag OR sg_pflags p) ?q = (f, q')"
        using "1.prems"(2) Cons True by (simp add: clearto_loop.simps [of seq flag q])
      ultimately show ?thesis using "1.IH" [OF Cons True] b(2) Cons True by simp
    next
      case False
      with "1.prems" Cons show ?thesis by (simp add: clearto_loop.simps [of seq flag q])
    qed
  qed
qed

lemma clearto_cov:
  assumes i: "rq_inv q" and c: "clearto seq q = (f, q')"
  shows "rq_inv q'" "iv_cov (map iv_of (rq_fifo q')) = iv_cov (map iv_of (rq_fifo q)) \<inter> {seq ..}"
    "rq_rcv_nxt q' = rq_rcv_nxt q" "\<forall>x \<in> set (rq_fifo q'). seq \<le> sg_start x"
proof -
  obtain f1 q1 where l: "clearto_loop seq 0 q = (f1, q1)" by (cases "clearto_loop seq 0 q")
  note ok = clearto_loop_ok [OF i l]
  have iv: "iv_inv (map iv_of (rq_fifo q))" using i by (simp add: rq_inv_def)
  define T where "T = takeWhile (\<lambda>s. sg_end s \<le> seq) (rq_fifo q)"
  have T: "rq_fifo q = T @ rq_fifo q1" using ok by (simp add: T_def)
  have Tc: "iv_cov (map iv_of T) \<inter> {seq ..} = {}"
    by (auto simp: T_def iv_cov_def iv_of_def dest!: set_takeWhileD)
  have "rq_inv q' \<and> iv_cov (map iv_of (rq_fifo q')) = iv_cov (map iv_of (rq_fifo q1)) \<inter> {seq ..} \<and>
    rq_rcv_nxt q' = rq_rcv_nxt q \<and> (\<forall>x \<in> set (rq_fifo q'). seq \<le> sg_start x)"
  proof (cases "rq_fifo q1")
    case Nil
    with l c ok show ?thesis by (simp add: clearto_def)
  next
    case (Cons p ps)
    have "dropWhile (\<lambda>s. sg_end s \<le> seq) (rq_fifo q) = p # ps" using ok Cons by simp
    then have p: "sg_end p > seq" by (simp add: dropWhile_eq_Cons_conv)
    have ps: "\<forall>y \<in> set ps. sg_end p < sg_start y" "sg_start p < sg_end p" "iv_inv (map iv_of ps)" "rq_book q1"
      using ok Cons by (auto simp: rq_inv_def iv_of_def)
    have psc: "iv_cov (map iv_of ps) \<subseteq> {seq ..}"
      using ps(1) p by (force simp: iv_cov_def iv_of_def)
    show ?thesis
    proof (cases "sg_start p \<le> seq")
      case True
      then have q': "q' = q1\<lparr>rq_total := rq_total q1 - (seq - sg_start p), rq_fifo := p\<lparr>sg_start := seq\<rparr> # ps\<rparr>"
        using l c p Cons by (auto simp: clearto_def)
      have "rq_book q'" unfolding q' using ps(4) Cons by (simp add: rq_book_def)
      moreover have "iv_cov (map iv_of (rq_fifo q')) = iv_cov (map iv_of (rq_fifo q1)) \<inter> {seq ..}"
        using psc True p Cons by (auto simp: q' iv_of_def)
      ultimately show ?thesis using ok ps p True Cons
        by (auto simp: q' rq_inv_def iv_of_def)
    next
      case False
      then have q': "q' = q1" using l c p Cons by (auto simp: clearto_def)
      have "iv_cov (map iv_of (rq_fifo q1)) \<subseteq> {seq ..}" using psc False Cons by (auto simp: iv_of_def)
      moreover have "\<forall>x \<in> set (rq_fifo q1). seq \<le> sg_start x" using ps(1,2) p False Cons by fastforce
      moreover have "rq_inv q1" "rq_rcv_nxt q1 = rq_rcv_nxt q" using ok by auto
      ultimately show ?thesis by (auto simp: q')
    qed
  qed
  then show "rq_inv q'" "iv_cov (map iv_of (rq_fifo q')) = iv_cov (map iv_of (rq_fifo q)) \<inter> {seq ..}"
    "rq_rcv_nxt q' = rq_rcv_nxt q" "\<forall>x \<in> set (rq_fifo q'). seq \<le> sg_start x"
    using T Tc by auto
qed

section \<open>A receiver\<close>

text \<open>How \<open>FullTcpAgent\<close> uses the queue: data before \<open>rcv_nxt_\<close> is cut off, the rest is added, and what has
  become contiguous is cleared.\<close>

definition rq_receive :: "int \<times> int \<times> int \<Rightarrow> rq \<Rightarrow> rq res" where
  "rq_receive seg q = (case seg of (start, end, flags) \<Rightarrow>
     if end \<le> rq_rcv_nxt q then Inr q
     else res_bind (rq_add (max start (rq_rcv_nxt q)) end flags 0 q) (\<lambda>(_, q1). Inr (snd (cleartonxt q1))))"

fun rq_receive_all :: "(int \<times> int \<times> int) list \<Rightarrow> rq \<Rightarrow> rq res" where
  "rq_receive_all [] q = Inr q"
| "rq_receive_all (g # gs) q = res_bind (rq_receive g q) (rq_receive_all gs)"

definition seg_bytes :: "(int \<times> int \<times> int) list \<Rightarrow> int set" where
  "seg_bytes gs = (\<Union>(s, e, _) \<in> set gs. {s ..< e})"

text \<open>The queue against the set \<open>R\<close> of the bytes received so far, from the first expected byte \<open>r0\<close> on.\<close>

definition receiving :: "int \<Rightarrow> int set \<Rightarrow> rq \<Rightarrow> bool" where
  "receiving r0 R q \<longleftrightarrow> rq_inv q \<and> r0 \<le> rq_rcv_nxt q \<and> {r0 ..< rq_rcv_nxt q} \<subseteq> R \<and> rq_rcv_nxt q \<notin> R \<and>
     iv_cov (map iv_of (rq_fifo q)) = R \<inter> {rq_rcv_nxt q ..}"

lemma iv_inv_end_notin: "iv_inv xs \<Longrightarrow> x \<in> set xs \<Longrightarrow> snd x \<notin> iv_cov xs"
proof (induction xs)
  case (Cons y ys)
  show ?case
  proof (cases "x = y")
    case True
    with Cons.prems show ?thesis by (force simp: iv_cov_def)
  next
    case False
    with Cons.prems have "x \<in> set ys" "snd y < fst x" "fst x < snd x" by (auto dest: iv_inv_pos)
    with Cons show ?thesis by auto
  qed
qed simp

lemma start_in_cov: "iv_inv (map iv_of xs) \<Longrightarrow> x \<in> set xs \<Longrightarrow> sg_start x \<in> iv_cov (map iv_of xs)"
  using fifo_pos [of xs x] by (auto simp: iv_cov_def iv_of_def)

lemma receive_ok:
  assumes J: "receiving r0 R q" and se: "s < e"
  shows "\<exists>q'. rq_receive (s, e, fl) q = Inr q' \<and> receiving r0 (R \<union> {s ..< e} \<inter> {r0 ..}) q'"
proof (cases "e \<le> rq_rcv_nxt q")
  case True
  have "R \<union> {s ..< e} \<inter> {r0 ..} = R" using J True by (auto simp: receiving_def)
  with True J show ?thesis by (simp add: rq_receive_def)
next
  case False
  let ?r = "rq_rcv_nxt q"
  let ?R = "R \<union> {s ..< e} \<inter> {r0 ..}"
  have i: "rq_inv q" and R: "iv_cov (map iv_of (rq_fifo q)) = R \<inter> {?r ..}" "?r \<notin> R" "{r0 ..< ?r} \<subseteq> R" "r0 \<le> ?r"
    using J by (auto simp: receiving_def)
  have iv: "iv_inv (map iv_of (rq_fifo q))" using i by (simp add: rq_inv_def)
  have ahead: "\<forall>x \<in> set (rq_fifo q). ?r < sg_start x"
  proof
    fix x assume "x \<in> set (rq_fifo q)"
    from start_in_cov [OF iv this] R(1,2) show "?r < sg_start x" by (cases "sg_start x = ?r") auto
  qed
  from rq_add_ok [OF i, of "max s ?r" e fl 0] False se ahead obtain f q1 where
    a: "rq_add (max s ?r) e fl 0 q = Inr (f, q1)" "rq_inv q1"
    "iv_cov (map iv_of (rq_fifo q1)) = R \<inter> {?r ..} \<union> {max s ?r ..< e}"
    "rq_rcv_nxt q1 = next_expected ?r (map iv_of (rq_fifo q1))" unfolding add_ok_def R(1) by auto
  have c1: "iv_cov (map iv_of (rq_fifo q1)) = ?R \<inter> {?r ..}" unfolding a(3) using R(4) by auto
  obtain g q2 where c: "cleartonxt q1 = (g, q2)" by (cases "cleartonxt q1")
  note ct = clearto_cov [OF a(2), of "rq_rcv_nxt q1" g q2] c [unfolded cleartonxt_def]
  have iv1: "iv_inv (map iv_of (rq_fifo q1))" using a(2) by (simp add: rq_inv_def)
  have n: "?r \<le> rq_rcv_nxt q1 \<and> {?r ..< rq_rcv_nxt q1} \<subseteq> ?R \<and> rq_rcv_nxt q1 \<notin> ?R"
  proof (cases "rq_fifo q1")
    case Nil
    then have "?R \<inter> {?r ..} = {}" using c1 by simp
    then show ?thesis using a(4) Nil by (auto simp: next_expected_def)
  next
    case (Cons x xs)
    have x: "sg_start x \<in> ?R \<inter> {?r ..}" "sg_end x \<notin> ?R \<inter> {?r ..}" "sg_start x < sg_end x"
      "{sg_start x ..< sg_end x} \<subseteq> ?R \<inter> {?r ..}"
      using start_in_cov [OF iv1, of x] iv_inv_end_notin [OF iv1, of "iv_of x"] fifo_pos [OF iv1, of x] Cons
      unfolding c1 [symmetric] by (auto simp: iv_of_def)
    show ?thesis
    proof (cases "?r \<ge> sg_start x")
      case True
      with x(1) have "sg_start x = ?r" by simp
      with True x a(4) Cons show ?thesis by (auto simp: next_expected_def iv_of_def)
    next
      case False
      have "?r \<notin> iv_cov (map iv_of (rq_fifo q1))"
        using iv1 False Cons fifo_pos [OF iv1, of x] by (force simp: iv_cov_def iv_of_def)
      with False a(4) Cons c1 show ?thesis by (auto simp: next_expected_def iv_of_def)
    qed
  qed
  have "{r0 ..< rq_rcv_nxt q1} \<subseteq> {r0 ..< ?r} \<union> {?r ..< rq_rcv_nxt q1}" by auto
  then have "{r0 ..< rq_rcv_nxt q1} \<subseteq> ?R" using n R(3) by blast
  then have "receiving r0 ?R q2"
    unfolding receiving_def using ct n c1 R(4) by auto
  with False a(1) c show ?thesis by (simp add: rq_receive_def)
qed

lemma receive_all_ok:
  "receiving r0 R q \<Longrightarrow> \<forall>(s, e, _) \<in> set gs. s < e \<Longrightarrow>
   \<exists>q'. rq_receive_all gs q = Inr q' \<and> receiving r0 (R \<union> seg_bytes gs \<inter> {r0 ..}) q'"
proof (induction gs arbitrary: R q)
  case (Cons g gs)
  obtain s e fl where g: "g = (s, e, fl)" by (cases g)
  from receive_ok [OF Cons.prems(1), of s e fl] Cons.prems(2) g obtain q1 where
    q1: "rq_receive g q = Inr q1" "receiving r0 (R \<union> {s ..< e} \<inter> {r0 ..}) q1" by auto
  from Cons.IH [OF q1(2)] Cons.prems(2) obtain q' where
    "rq_receive_all gs q1 = Inr q'" "receiving r0 (R \<union> {s ..< e} \<inter> {r0 ..} \<union> seg_bytes gs \<inter> {r0 ..}) q'" by auto
  moreover have "R \<union> {s ..< e} \<inter> {r0 ..} \<union> seg_bytes gs \<inter> {r0 ..} = R \<union> seg_bytes (g # gs) \<inter> {r0 ..}"
    by (auto simp: seg_bytes_def g)
  ultimately show ?case using q1(1) by auto
qed (simp add: seg_bytes_def)

section \<open>Blocks and holes\<close>

lemma seg_of_id:
  assumes "distinct (ids (rq_fifo q))" "x \<in> set (rq_fifo q)"
  shows "seg_of (sg_id x) q = Some (iv_of x)"
proof -
  from assms(2) obtain y where y: "find (\<lambda>s. sg_id s = sg_id x) (rq_fifo q) = Some y"
    by (cases "find (\<lambda>s. sg_id s = sg_id x) (rq_fifo q)") (auto simp: find_None_iff)
  then have "y \<in> set (rq_fifo q)" "sg_id y = sg_id x" by (auto simp: find_Some_iff)
  with assms have "y = x" by (intro inj_key_unique [of sg_id "rq_fifo q"]) auto
  with y show ?thesis by (simp add: seg_of_def iv_of_def)
qed

lemma gensack_loop_eq:
  "0 \<le> m \<Longrightarrow> \<forall>i \<in> set is. seg_of i q \<noteq> None \<Longrightarrow>
   gensack_loop q is m = map (\<lambda>i. the (seg_of i q)) (take (nat m) is)"
proof (induction "is" arbitrary: m)
  case (Cons i "is")
  then show ?case by (cases "m = 0") (auto simp: take_Cons' nat_diff_distrib)
qed simp

lemma cnts_eq: "cnts ss = (int (length ss), iv_len (map iv_of ss))"
  by (induction ss) (auto simp: iv_of_def)

lemma nexthole_loop_spec:
  assumes "iv_inv (map iv_of ss)" "nexthole_loop seq ss = (h, c, b)"
  shows "(\<forall>x \<in> set ss. sg_end x < seq) \<and> h = -1 \<and> c = -1 \<and> b = -1 \<or>
    (\<exists>x \<in> set ss. seq \<le> sg_end x) \<and> seq \<le> h \<and> h \<notin> iv_cov (map iv_of ss) \<and> {seq ..< h} \<subseteq> iv_cov (map iv_of ss) \<and>
    (let above = filter (\<lambda>x. h < sg_start x) ss in
      (c, b) = (if above = [] then (-1, -1) else (int (length above), iv_len (map iv_of above))))"
  using assms
proof (induction ss)
  case (Cons p ps)
  have o: "sg_start p < sg_end p" "\<forall>y \<in> set ps. sg_end p < sg_start y" "iv_inv (map iv_of ps)"
    using Cons.prems(1) unfolding iv_inv_Cons_of by auto
  note pos = fifo_pos [OF o(3)]
  consider "seq < sg_start p" | "sg_start p \<le> seq" "seq \<le> sg_end p" | "sg_end p < seq" by linarith
  then show ?case
  proof cases
    case 1
    then have "h = seq" "c = int (length (p # ps))" "b = iv_len (map iv_of (p # ps))"
      using Cons.prems(2) by (auto simp: cnts_eq simp del: cnts.simps)
    moreover have "filter (\<lambda>x. seq < sg_start x) (p # ps) = p # ps"
      using 1 o by (fastforce simp: filter_id_conv)
    moreover have "seq \<notin> iv_cov (map iv_of (p # ps))"
      using 1 o pos by (fastforce simp: iv_cov_def)
    ultimately show ?thesis using 1 o(1) by auto
  next
    case 2
    then have h: "h = sg_end p" "(c, b) = (if ps = [] then (-1, -1) else (int (length ps), iv_len (map iv_of ps)))"
      using Cons.prems(2) by (auto simp: cnts_eq split: if_splits)
    have "filter (\<lambda>x. sg_end p < sg_start x) (p # ps) = ps"
      using o by (auto simp: filter_id_conv)
    moreover have "sg_end p \<notin> iv_cov (map iv_of (p # ps))"
      using iv_inv_end_notin [OF Cons.prems(1), of "iv_of p"] by simp
    ultimately show ?thesis using 2 h by auto
  next
    case 3
    then have "nexthole_loop seq ps = (h, c, b)" using Cons.prems(2) o by auto
    from Cons.IH [OF o(3) this] show ?thesis using 3 o by (auto simp: Let_def)
  qed
qed simp

section \<open>Properties\<close>

text \<open>C13: a receiver that cuts off old data, adds the rest of each segment and clears what has become contiguous
  reassembles any sequence of non-empty segments (overlapping, duplicated, in any order) without
  failing: \<open>rcv_nxt_\<close> is the first byte, from the initially expected one on, that was not received, the
  queue holds exactly the bytes received beyond it, as ordered blocks that neither overlap nor touch, and
  \<open>total_\<close> is their number.\<close>

theorem rq_reassembles:
  assumes "\<forall>(s, e, _) \<in> set gs. s < e"
  shows "\<exists>q. rq_receive_all gs (rq_init r0) = Inr q \<and> rq_inv q \<and>
    r0 \<le> rq_rcv_nxt q \<and> {r0 ..< rq_rcv_nxt q} \<subseteq> seg_bytes gs \<and> rq_rcv_nxt q \<notin> seg_bytes gs \<and>
    iv_cov (map iv_of (rq_fifo q)) = seg_bytes gs \<inter> {rq_rcv_nxt q ..}"
proof -
  have "receiving r0 {} (rq_init r0)" by (simp add: receiving_def rq_init_def rq_inv_def rq_book_def)
  from receive_all_ok [OF this assms] obtain q where
    "rq_receive_all gs (rq_init r0) = Inr q" "receiving r0 (seg_bytes gs \<inter> {r0 ..}) q" by auto
  then show ?thesis by (auto simp: receiving_def)
qed

theorem rq_reassembles_witness:
  "\<exists>q. rq_receive_all [(20, 30, 0), (5, 12, 0), (8, 15, 0), (1, 6, 0)] (rq_init 1) = Inr q \<and> rq_inv q \<and>
    1 \<le> rq_rcv_nxt q \<and> {1 ..< rq_rcv_nxt q} \<subseteq> seg_bytes [(20, 30, 0), (5, 12, 0), (8, 15, 0), (1, 6, 0)] \<and>
    rq_rcv_nxt q \<notin> seg_bytes [(20, 30, 0), (5, 12, 0), (8, 15, 0), (1, 6, 0)] \<and>
    iv_cov (map iv_of (rq_fifo q)) = seg_bytes [(20, 30, 0), (5, 12, 0), (8, 15, 0), (1, 6, 0)] \<inter> {rq_rcv_nxt q ..}"
  by (rule rq_reassembles) auto

text \<open>C28: \<open>gensack\<close> reports, most recently linked first, as many blocks as are asked for and available; every
  reported pair is a block of the queue (the right edge follows the last received byte) and no block is reported twice.\<close>

theorem gensack_reports_blocks:
  assumes "rq_inv q" "0 \<le> m"
  shows "set (gensack q m) \<subseteq> set (map iv_of (rq_fifo q)) \<and> distinct (gensack q m) \<and>
    length (gensack q m) = min (nat m) (length (rq_fifo q)) \<and>
    gensack q m = map (\<lambda>i. the (seg_of i q)) (take (nat m) (rq_lifo q))"
proof -
  have b: "distinct (ids (rq_fifo q))" "mset (rq_lifo q) = mset (ids (rq_fifo q))"
    using assms(1) by (auto simp: rq_inv_def rq_book_def)
  have l: "set (rq_lifo q) = set (ids (rq_fifo q))" "distinct (rq_lifo q)" "length (rq_lifo q) = length (rq_fifo q)"
    using b mset_eq_setD [OF b(2)] mset_eq_imp_distinct_iff [OF b(2)] mset_eq_length [OF b(2)] by auto
  have seg: "\<exists>x \<in> set (rq_fifo q). i = sg_id x \<and> seg_of i q = Some (iv_of x)" if "i \<in> set (rq_lifo q)" for i
    using that l(1) seg_of_id [OF b(1)] by auto
  have eq: "gensack q m = map (\<lambda>i. the (seg_of i q)) (take (nat m) (rq_lifo q))"
    unfolding gensack_def using assms(2) seg by (intro gensack_loop_eq) fastforce+
  have iv: "iv_inv (map iv_of (rq_fifo q))" using assms(1) by (simp add: rq_inv_def)
  have "inj_on iv_of (set (rq_fifo q))"
  proof (rule inj_onI)
    fix x y assume "x \<in> set (rq_fifo q)" "y \<in> set (rq_fifo q)" "iv_of x = iv_of y"
    moreover have "distinct (map iv_of xs)" if "iv_inv (map iv_of xs)" for xs
      using that by (induction xs) (force simp: iv_of_def)+
    ultimately show "x = y" using iv by (intro inj_key_unique [of iv_of "rq_fifo q"]) auto
  qed
  then have "inj_on (\<lambda>i. the (seg_of i q)) (set (take (nat m) (rq_lifo q)))"
    using seg by (intro inj_onI) (metis inj_onD in_set_takeD option.sel)
  then have "distinct (gensack q m)" unfolding eq using l(2) by (simp add: distinct_map)
  moreover have "set (gensack q m) \<subseteq> set (map iv_of (rq_fifo q))"
    unfolding eq using seg by (fastforce dest: in_set_takeD)
  ultimately show ?thesis using eq l(3) by simp
qed

definition rq_sample :: rq where
  "rq_sample = \<lparr>rq_fifo = [\<lparr>sg_id = 1, sg_start = 5, sg_end = 10, sg_pflags = 0, sg_rqflags = 0, sg_cnt = 1\<rparr>,
       \<lparr>sg_id = 0, sg_start = 20, sg_end = 30, sg_pflags = 1, sg_rqflags = 0, sg_cnt = 1\<rparr>],
     rq_lifo = [1, 0], rq_hint = None, rq_total = 15, rq_rcv_nxt = 1, rq_fresh = 2\<rparr>"

lemma rq_sample_inv: "rq_inv rq_sample"
  by (simp add: rq_sample_def rq_inv_def rq_book_def iv_of_def)

theorem gensack_reports_blocks_witness:
  "gensack rq_sample 3 = [(5, 10), (20, 30)]"
  using gensack_reports_blocks [OF rq_sample_inv, of 3] by (simp add: rq_sample_def seg_of_def)

text \<open>C29: \<open>nexthole\<close> returns -1 when the sequence number is beyond all blocks; otherwise it returns the first
  missing byte at or after it, and the number of blocks behind the hole and of the bytes in them
  (-1 for both when there are none).\<close>

theorem nexthole_first_missing:
  assumes "rq_inv q" "fst (nexthole seq q) = (h, c, b)"
  shows "if \<forall>x \<in> set (rq_fifo q). sg_end x < seq then h = -1 \<and> c = -1 \<and> b = -1
    else seq \<le> h \<and> h \<notin> iv_cov (map iv_of (rq_fifo q)) \<and> {seq ..< h} \<subseteq> iv_cov (map iv_of (rq_fifo q)) \<and>
      (let above = filter (\<lambda>x. h < sg_start x) (rq_fifo q) in
        (c, b) = (if above = [] then (-1, -1) else (int (length above), iv_len (map iv_of above))))"
proof -
  have "iv_inv (map iv_of (rq_fifo q))" using assms(1) by (simp add: rq_inv_def)
  moreover have "nexthole_loop seq (rq_fifo q) = (h, c, b)" using assms(2) by (simp add: nexthole_def Let_def)
  ultimately show ?thesis using nexthole_loop_spec [of "rq_fifo q" seq h c b]
    by (cases "\<forall>x \<in> set (rq_fifo q). sg_end x < seq") (auto simp: not_less Let_def split: if_splits)
qed

theorem nexthole_first_missing_witness:
  "fst (nexthole 7 rq_sample) = (10, 1, 10) \<and> 10 \<notin> iv_cov (map iv_of (rq_fifo rq_sample))"
proof -
  have e: "fst (nexthole 7 rq_sample) = (10, 1, 10)" by (simp add: nexthole_def rq_sample_def)
  have "\<not> (\<forall>x \<in> set (rq_fifo rq_sample). sg_end x < 7)" by (simp add: rq_sample_def)
  with nexthole_first_missing [OF rq_sample_inv e] e show ?thesis by simp
qed

text \<open>C37: when a segment fills the hole between two blocks, \<open>coalesce\<close> joins all three but keeps only the flags of
  the lower block and of the new one: the header flags of the upper block (a FIN received out of
  order, for instance) are lost.\<close>

theorem coalesce_loses_upper_flags:
  assumes "rq_book rq" "rq_fifo rq = A @ p # n # q # B" "sg_end p = sg_start n" "sg_end n = sg_start q"
  shows "\<exists>rq' m. coalesce (Suc (length A)) rq = Inr (sg_pflags p OR sg_pflags n, rq') \<and>
    rq_fifo rq' = A @ m # B \<and> iv_of m = (sg_start p, sg_end q) \<and> sg_pflags m = sg_pflags p OR sg_pflags n"
proof -
  let ?p = "p\<lparr>sg_end := sg_end q, sg_cnt := sg_cnt p + (sg_cnt n + sg_cnt q), sg_pflags := sg_pflags p OR sg_pflags n\<rparr>"
  let ?q1 = "fremove (sg_id n) (sremove (sg_id n) rq)"
  let ?q2 = "fremove (sg_id q) (sremove (sg_id q) ?q1)"
  let ?rq = "?q2\<lparr>rq_fifo := (rq_fifo ?q2)[length A := ?p]\<rparr>"
  have b1: "rq_book ?q1" "rq_fifo ?q1 = (A @ [p]) @ q # B"
    using book_unlink [OF assms(1), of "A @ [p]" n "q # B"] assms(2) by simp_all
  have b2: "rq_fifo ?q2 = A @ p # B" using book_unlink(2) [OF b1] by simp
  have "coalesce (Suc (length A)) rq = Inr (sg_pflags ?p, note_rcv_nxt ?p ?rq)"
    using assms(3,4) by (simp add: coalesce_def assms(2) Let_def nth_append)
  then show ?thesis using b2 by (intro exI [of _ "note_rcv_nxt ?p ?rq"] exI [of _ ?p]) (simp add: iv_of_def)
qed

theorem coalesce_loses_upper_flags_witness:
  "\<exists>rq' m. coalesce (Suc (length ([] :: seginfo list)))
      \<lparr>rq_fifo = [\<lparr>sg_id = 0, sg_start = 1, sg_end = 5, sg_pflags = 0, sg_rqflags = 0, sg_cnt = 1\<rparr>,
         \<lparr>sg_id = 2, sg_start = 5, sg_end = 9, sg_pflags = 0, sg_rqflags = 0, sg_cnt = 1\<rparr>,
         \<lparr>sg_id = 1, sg_start = 9, sg_end = 20, sg_pflags = 1, sg_rqflags = 0, sg_cnt = 1\<rparr>],
       rq_lifo = [2, 1, 0], rq_hint = None, rq_total = 19, rq_rcv_nxt = 1, rq_fresh = 3\<rparr> = Inr (0, rq') \<and>
    rq_fifo rq' = [m] \<and> iv_of m = (1, 20) \<and> sg_pflags m = 0"
  using coalesce_loses_upper_flags [of "\<lparr>rq_fifo = [\<lparr>sg_id = 0, sg_start = 1, sg_end = 5, sg_pflags = 0, sg_rqflags = 0, sg_cnt = 1\<rparr>,
         \<lparr>sg_id = 2, sg_start = 5, sg_end = 9, sg_pflags = 0, sg_rqflags = 0, sg_cnt = 1\<rparr>,
         \<lparr>sg_id = 1, sg_start = 9, sg_end = 20, sg_pflags = 1, sg_rqflags = 0, sg_cnt = 1\<rparr>],
       rq_lifo = [2, 1, 0], rq_hint = None, rq_total = 19, rq_rcv_nxt = 1, rq_fresh = 3\<rparr>" "[]"]
  by (simp add: rq_book_def)

end
