(* ===== verification/HeapSched.thy ===== *)
theory HeapSched
  imports EventQueue "HOL-Library.Word"
begin

text \<open>
  The binary heap of \<open>common/heap.h\<close> and \<open>common/scheduler.cc\<close> (class \<open>Heap\<close>) and the \<open>HeapScheduler\<close> on top of
  it. The array is the list of its first \<open>h_size\<close> elements, which are all the code reads. Elements
  are ordered by time and then by a secondary key that numbers the insertions; it is taken from the
  \<open>unsigned int\<close> counter \<open>h_s_key\<close>, a \<open>32 word\<close> here, which wraps around.
\<close>

section \<open>The heap\<close>

record heap_elem =
  he_key :: time
  he_s_key :: nat
  he_elem :: event

record heap =
  h_elems :: "heap_elem list"
  h_s_key :: "32 word"
  h_maxsize :: nat
  h_iter :: nat

definition heap_init :: "nat \<Rightarrow> heap" where
  "heap_init sz = \<lparr>h_elems = [], h_s_key = 0, h_maxsize = sz, h_iter = 0\<rparr>"

definition parent :: "nat \<Rightarrow> nat" where
  "parent i = (i - 1) div 2"

definition left :: "nat \<Rightarrow> nat" where
  "left i = i * 2 + 1"

definition right :: "nat \<Rightarrow> nat" where
  "right i = (i + 1) * 2"

definition heap_swap :: "nat \<Rightarrow> nat \<Rightarrow> heap_elem list \<Rightarrow> heap_elem list" where
  "heap_swap i j xs = xs[i := xs ! j, j := xs ! i]"

definition KEY_LESS_THAN :: "time \<Rightarrow> nat \<Rightarrow> time \<Rightarrow> nat \<Rightarrow> bool" where
  "KEY_LESS_THAN k1 ks1 k2 ks2 = (k1 < k2 \<or> (k1 = k2 \<and> ks1 < ks2))"



function heap_up :: "time \<Rightarrow> nat \<Rightarrow> nat \<Rightarrow> heap_elem list \<Rightarrow> nat \<times> heap_elem list" where
  "heap_up key s_key i xs =
     (if i > 0 \<and> KEY_LESS_THAN key s_key (he_key (xs ! parent i)) (he_s_key (xs ! parent i))
      then heap_up key s_key (parent i) (xs[i := xs ! parent i])
      else (i, xs))"
  by pat_completeness auto
termination
  by (relation "measure (\<lambda>(_, _, i, _). i)") (auto simp: parent_def)

declare heap_up.simps [simp del]

text \<open>The slot at the end is written only at the end of the loop; it holds the new element meanwhile.\<close>

definition heap_insert :: "time \<Rightarrow> event \<Rightarrow> heap \<Rightarrow> heap" where
  "heap_insert key e h =
     (let h1 = (if h_maxsize h = length (h_elems h) then h\<lparr>h_maxsize := h_maxsize h * 2\<rparr> else h);
          new = \<lparr>he_key = key, he_s_key = unat (h_s_key h1), he_elem = e\<rparr>;
          (i, xs) = heap_up key (unat (h_s_key h1)) (length (h_elems h1)) (h_elems h1 @ [new])
      in h1\<lparr>h_elems := xs[i := new], h_s_key := h_s_key h1 + 1\<rparr>)"

definition heap_child :: "nat \<Rightarrow> heap_elem list \<Rightarrow> nat" where
  "heap_child i xs =
     (let l = left i; r = right i in
      if r < length xs then
        (if KEY_LESS_THAN (he_key (xs ! l)) (he_s_key (xs ! l)) (he_key (xs ! r)) (he_s_key (xs ! r)) then l else r)
      else if l < length xs then l else i)"

function heap_down :: "nat \<Rightarrow> heap_elem list \<Rightarrow> heap_elem list" where
  "heap_down i xs =
     (if i < length xs then
        let x = heap_child i xs in
        if x \<noteq> i \<and> KEY_LESS_THAN (he_key (xs ! x)) (he_s_key (xs ! x)) (he_key (xs ! i)) (he_s_key (xs ! i))
        then heap_down x (heap_swap i x xs)
        else xs
      else xs)"
  by pat_completeness auto
termination
  by (relation "measure (\<lambda>(i, xs). length xs - i)")
    (auto simp: heap_child_def heap_swap_def left_def right_def Let_def split: if_splits)

declare heap_down.simps [simp del]

definition heap_extract_min :: "heap \<Rightarrow> event option \<times> heap" where
  "heap_extract_min h =
     (if h_elems h = [] then (None, h)
      else
        let xs = h_elems h; xs1 = butlast (xs[0 := last xs])
        in (Some (he_elem (xs ! 0)), h\<lparr>h_elems := heap_down 0 xs1\<rparr>))"







section \<open>The scheduler\<close>

definition HEAP_DEFAULT_SIZE :: nat where
  "HEAP_DEFAULT_SIZE = 32"

definition hs_init :: heap where
  "hs_init = heap_init HEAP_DEFAULT_SIZE"


definition hs_insert :: "event \<Rightarrow> heap \<Rightarrow> heap" where
  "hs_insert e h = heap_insert (ev_time e) e h"




definition hs_deque :: "heap \<Rightarrow> event option \<times> heap" where
  "hs_deque h = heap_extract_min h"


section \<open>Heap order\<close>

definition hkey :: "heap_elem \<Rightarrow> time \<times> nat" where
  "hkey x = (he_key x, he_s_key x)"

lemma KEY_LESS_hkey [simp]: "KEY_LESS_THAN (he_key x) (he_s_key x) (he_key y) (he_s_key y) \<longleftrightarrow> hkey x < hkey y"
  by (auto simp: KEY_LESS_THAN_def hkey_def)










lemma length_heap_swap [simp]: "length (heap_swap i j xs) = length xs"
  by (simp add: heap_swap_def)

lemma mset_heap_swap [simp]: "i < length xs \<Longrightarrow> j < length xs \<Longrightarrow> mset (heap_swap i j xs) = mset xs"
  unfolding heap_swap_def by (rule mset_swap)










section \<open>The heap scheduler is an event queue\<close>


definition hs_pending :: "heap \<Rightarrow> event list" where
  "hs_pending h = sort_key ev_key (map he_elem (h_elems h))"


lemma mset_hs_pending [simp]: "mset (hs_pending h) = mset (map he_elem (h_elems h))"
  by (simp add: hs_pending_def)














section \<open>Simulations\<close>




section \<open>The secondary key wraps around\<close>

lemma churn_once:
  "h_elems h = [] \<Longrightarrow> h_elems (snd (hs_deque (hs_insert e h))) = [] \<and> h_s_key (snd (hs_deque (hs_insert e h))) = h_s_key h + 1"
  by (simp add: hs_insert_def heap_insert_def heap_up.simps [of _ _ 0] hs_deque_def heap_extract_min_def Let_def
      heap_down.simps [of 0 "[]"])

lemma churn:
  "h_elems (((\<lambda>h. snd (hs_deque (hs_insert e h))) ^^ n) hs_init) = [] \<and>
   h_s_key (((\<lambda>h. snd (hs_deque (hs_insert e h))) ^^ n) hs_init) = of_nat n"
  by (induction n) (simp add: hs_init_def heap_init_def, simp add: churn_once add.commute)

text \<open>C38: the \<open>HeapScheduler\<close> loses the scheduling order of events of equal time when the \<open>unsigned int\<close> that numbers
  insertions wraps around: after \<open>2\<^sup>3\<^sup>2 - 1\<close> events have been scheduled and dispatched, of the next two events \<open>e1\<close> and \<open>e2\<close> with
  equal times the one scheduled second is dispatched first.\<close>

theorem heap_key_wraps:
  assumes "ev_time e1 = ev_time e2"
  shows "fst (hs_deque (hs_insert e2 (hs_insert e1 (((\<lambda>h. snd (hs_deque (hs_insert e h))) ^^ (2 ^ 32 - 1)) hs_init)))) = Some e2"
proof -
  define h where "h = ((\<lambda>h. snd (hs_deque (hs_insert e h))) ^^ (2 ^ 32 - 1)) hs_init"
  have h: "h_elems h = []" "h_s_key h = of_nat (2 ^ 32 - 1)" using churn [where e = e and n = "2 ^ 32 - 1"] unfolding h_def by blast+
  have k: "h_s_key h = - 1" unfolding h(2) by simp
  have u: "unat (- 1 :: 32 word) = 2 ^ 32 - 1" by (simp only: unsigned_minus_1_eq_mask mask_eq_exp_minus_1 len_bit0 len_num1) simp
  let ?n1 = "\<lparr>he_key = ev_time e1, he_s_key = 2 ^ 32 - 1, he_elem = e1\<rparr>"
  let ?n2 = "\<lparr>he_key = ev_time e2, he_s_key = 0, he_elem = e2\<rparr>"
  have h1: "h_elems (hs_insert e1 h) = [?n1]" "h_s_key (hs_insert e1 h) = 0"
    using h(1) k u by (simp_all add: hs_insert_def heap_insert_def heap_up.simps [of _ _ 0] Let_def)
  have "heap_up (ev_time e2) 0 1 [?n1, ?n2] = (0, [?n1, ?n1])"
    by (subst heap_up.simps) (simp add: KEY_LESS_THAN_def assms parent_def heap_up.simps [of _ _ 0])
  then have "h_elems (hs_insert e2 (hs_insert e1 h)) = [?n2, ?n1]"
    using h1 by (simp add: hs_insert_def [of e2] heap_insert_def Let_def)
  then have "fst (hs_deque (hs_insert e2 (hs_insert e1 h))) = Some e2"
    by (simp add: hs_deque_def heap_extract_min_def Let_def)
  then show ?thesis unfolding h_def .
qed

theorem heap_key_wraps_witness:
  "fst (hs_deque (hs_insert \<lparr>ev_uid = 4294967297, ev_time = 5, ev_handler = 0\<rparr> (hs_insert \<lparr>ev_uid = 4294967296, ev_time = 5, ev_handler = 0\<rparr>
     (((\<lambda>h. snd (hs_deque (hs_insert \<lparr>ev_uid = 1, ev_time = 0, ev_handler = 0\<rparr> h))) ^^ (2 ^ 32 - 1)) hs_init)))) =
   Some \<lparr>ev_uid = 4294967297, ev_time = 5, ev_handler = 0\<rparr>"
  by (rule heap_key_wraps) simp

end
