(* ===== verification/SplaySched.thy ===== *)
theory SplaySched
  imports EventQueue "HOL-Library.Tree"
begin

text \<open>
  The \<open>SplayScheduler\<close> of \<open>common/splay-scheduler.cc\<close>. The tree threaded through \<open>prev_\<close> (left) and \<open>next_\<close>
  (right) of the events is a \<open>tree\<close> of events. The loops of the code descend the tree and fill in pointers they left open
  above; here each loop is a recursion on the remaining subtree that returns what is put into the open
  pointers. The invariant is that the events, read in order, are sorted by time and scheduling order.
\<close>

section \<open>Operations\<close>

record splay =
  sp_root :: "event tree"
  sp_qsize :: int

definition sp_init :: splay where
  "sp_init = \<lparr>sp_root = Leaf, sp_qsize = 0\<rparr>"

text \<open>The loop of \<open>insert\<close> on the remaining tree \<open>t\<close>: the first result is what goes into \<open>RIGHT(l)\<close>, the second what
  goes into \<open>LEFT(r)\<close>. A rotation is followed by the link of the rotated node.\<close>

fun sp_split :: "time \<Rightarrow> event tree \<Rightarrow> event tree \<times> event tree" where
  "sp_split time Leaf = (Leaf, Leaf)"
| "sp_split time (Node tL t tR) =
     (if time < ev_time t then
        (case tL of
           Leaf \<Rightarrow> (Leaf, Node tL t tR)
         | Node xl x xr \<Rightarrow>
             if time < ev_time x then
               (case sp_split time xl of (L, R) \<Rightarrow> (L, Node R x (Node xr t tR)))
             else
               (case sp_split time (Node xl x xr) of (L, R) \<Rightarrow> (L, Node R t tR)))
      else
        (case tR of
           Leaf \<Rightarrow> (Node tL t tR, Leaf)
         | Node xl x xr \<Rightarrow>
             if ev_time x \<le> time then
               (case sp_split time xr of (L, R) \<Rightarrow> (Node (Node tL t xl) x L, R))
             else
               (case sp_split time (Node xl x xr) of (L, R) \<Rightarrow> (Node tL t L, R))))"

definition sp_insert :: "event \<Rightarrow> splay \<Rightarrow> splay" where
  "sp_insert n s =
     (if sp_root s = Leaf then \<lparr>sp_root = Node Leaf n Leaf, sp_qsize = sp_qsize s + 1\<rparr>
      else (case sp_split (ev_time n) (sp_root s) of
        (L, R) \<Rightarrow> \<lparr>sp_root = Node L n R, sp_qsize = sp_qsize s + 1\<rparr>))"

fun sp_leftmost :: "event tree \<Rightarrow> event option" where
  "sp_leftmost Leaf = None"
| "sp_leftmost (Node Leaf t r) = Some t"
| "sp_leftmost (Node (Node ll l lr) t r) = sp_leftmost (Node ll l lr)"

definition sp_head :: "splay \<Rightarrow> event option" where
  "sp_head s = sp_leftmost (sp_root s)"

text \<open>The loop of \<open>deque\<close>: the subtree at \<open>t\<close> whose left child \<open>l\<close> is not null.\<close>

fun sp_deque_loop :: "event tree \<Rightarrow> event \<Rightarrow> event tree \<Rightarrow> event \<Rightarrow> event tree \<Rightarrow> event \<times> event tree" where
  "sp_deque_loop Leaf l lr t tR = (l, Node lr t tR)"
| "sp_deque_loop (Node Leaf ll llr) l lr t tR = (ll, Node (Node llr l lr) t tR)"
| "sp_deque_loop (Node (Node a lll b) ll llr) l lr t tR =
     (case sp_deque_loop a lll b ll (Node llr l lr) of (e, T) \<Rightarrow> (e, Node T t tR))"

definition sp_deque :: "splay \<Rightarrow> event option \<times> splay" where
  "sp_deque s =
     (case sp_root s of
        Leaf \<Rightarrow> (None, s)
      | Node Leaf t r \<Rightarrow> (Some t, \<lparr>sp_root = r, sp_qsize = sp_qsize s - 1\<rparr>)
      | Node (Node ll l lr) t r \<Rightarrow>
          (case sp_deque_loop ll l lr t r of
             (e, T) \<Rightarrow> (Some e, \<lparr>sp_root = T, sp_qsize = sp_qsize s - 1\<rparr>)))"

text \<open>The loop of \<open>cancel\<close> that finds the successor \<open>q\<close> below \<open>p\<close> and unlinks it; \<open>q\<close> is the left child of \<open>p\<close>.\<close>

fun sp_succ :: "event tree \<Rightarrow> event \<Rightarrow> event tree \<Rightarrow> event \<Rightarrow> event tree \<Rightarrow> event \<times> event tree" where
  "sp_succ Leaf q qr p pr = (q, Node qr p pr)"
| "sp_succ (Node a q' qr') q qr p pr = (case sp_succ a q' qr' q qr of (s, T) \<Rightarrow> (s, Node T p pr))"

definition sp_unlink :: "event tree \<Rightarrow> event tree \<Rightarrow> event tree" where
  "sp_unlink l r =
     (case r of
        Leaf \<Rightarrow> l
      | Node pl p pr \<Rightarrow>
          (case l of
             Leaf \<Rightarrow> r
           | Node _ _ _ \<Rightarrow>
               (case pl of
                  Leaf \<Rightarrow> Node l p pr
                | Node ql q qr \<Rightarrow> (case sp_succ ql q qr p pr of (s, T) \<Rightarrow> Node l s T))))"

fun sp_search :: "event \<Rightarrow> event tree \<Rightarrow> event tree res" where
  "sp_search e Leaf = Inl Abort"
| "sp_search e (Node l t r) =
     (if t = e then Inr (sp_unlink l r)
      else if ev_time t < ev_time e \<or> (ev_time e = ev_time t \<and> ev_uid t < ev_uid e)
      then res_bind (sp_search e r) (\<lambda>r1. Inr (Node l t r1))
      else res_bind (sp_search e l) (\<lambda>l1. Inr (Node l1 t r)))"

definition sp_cancel :: "event \<Rightarrow> splay \<Rightarrow> (event \<times> splay) res" where
  "sp_cancel e s =
     (if ev_uid e \<le> 0 then Inr (e, s)
      else res_bind (sp_search e (sp_root s)) (\<lambda>T.
        Inr (negate_uid e, \<lparr>sp_root = T, sp_qsize = sp_qsize s - 1\<rparr>)))"

fun uid_lookup :: "int \<Rightarrow> event tree \<Rightarrow> event option" where
  "uid_lookup uid Leaf = None"
| "uid_lookup uid (Node l t r) =
     (if ev_uid t = uid then Some t
      else (case uid_lookup uid l of Some e \<Rightarrow> Some e | None \<Rightarrow> uid_lookup uid r))"

definition sp_lookup :: "int \<Rightarrow> splay \<Rightarrow> event option" where
  "sp_lookup uid s = uid_lookup uid (sp_root s)"

section \<open>The events in order\<close>

lemma sp_split_ok:
  "sorted (map ev_time (inorder t)) \<Longrightarrow> sp_split time t = (L, R) \<Longrightarrow>
   inorder L @ inorder R = inorder t \<and>
   (\<forall>x \<in> set_tree L. ev_time x \<le> time) \<and> (\<forall>x \<in> set_tree R. time < ev_time x)"
proof (induction time t arbitrary: L R rule: sp_split.induct)
  case (2 time tL t tR)
  have s: "sorted (map ev_time (inorder tL))" "sorted (map ev_time (inorder tR))"
    "\<forall>x \<in> set_tree tL. ev_time x \<le> ev_time t" "\<forall>x \<in> set_tree tR. ev_time t \<le> ev_time x"
    using "2.prems"(1) by (auto simp: sorted_append)
  show ?case
  proof (cases "time < ev_time t")
    case True
    show ?thesis
    proof (cases tL)
      case Leaf
      with True "2.prems"(2) s show ?thesis by fastforce
    next
      case (Node xl x xr)
      have sx: "sorted (map ev_time (inorder xl))" "\<forall>y \<in> set_tree xr. ev_time x \<le> ev_time y"
        using s(1) Node by (auto simp: sorted_append)
      show ?thesis
      proof (cases "time < ev_time x")
        case lt: True
        obtain L1 R1 where p: "sp_split time xl = (L1, R1)" by (cases "sp_split time xl")
        with True Node lt "2.prems"(2) have "L = L1" "R = Node R1 x (Node xr t tR)" by auto
        moreover have "inorder xl = inorder L1 @ inorder R1" "\<forall>x \<in> set_tree L1. ev_time x \<le> time"
          "\<forall>x \<in> set_tree R1. time < ev_time x" using "2.IH"(1) [OF True Node lt sx(1) p] by auto
        ultimately show ?thesis using lt True s(4) sx Node by fastforce
      next
        case False
        obtain L1 R1 where p: "sp_split time tL = (L1, R1)" by (cases "sp_split time tL")
        with True Node False "2.prems"(2) have "L = L1" "R = Node R1 t tR" by auto
        moreover have "inorder tL = inorder L1 @ inorder R1" "\<forall>x \<in> set_tree L1. ev_time x \<le> time"
          "\<forall>x \<in> set_tree R1. time < ev_time x" using "2.IH"(2) [OF True Node False] p s(1) unfolding Node by auto
        ultimately show ?thesis using True s(4) by fastforce
      qed
    qed
  next
    case ge: False
    show ?thesis
    proof (cases tR)
      case Leaf
      with ge "2.prems"(2) s show ?thesis by fastforce
    next
      case (Node xl x xr)
      have sx: "sorted (map ev_time (inorder xr))" "\<forall>y \<in> set_tree xl. ev_time y \<le> ev_time x"
        using s(2) Node by (auto simp: sorted_append)
      show ?thesis
      proof (cases "ev_time x \<le> time")
        case le: True
        obtain L1 R1 where p: "sp_split time xr = (L1, R1)" by (cases "sp_split time xr")
        with ge Node le "2.prems"(2) have "L = Node (Node tL t xl) x L1" "R = R1" by auto
        moreover have "inorder xr = inorder L1 @ inorder R1" "\<forall>x \<in> set_tree L1. ev_time x \<le> time"
          "\<forall>x \<in> set_tree R1. time < ev_time x" using "2.IH"(3) [OF ge Node le sx(1) p] by auto
        ultimately show ?thesis using le ge s(3) sx Node by fastforce
      next
        case False
        obtain L1 R1 where p: "sp_split time tR = (L1, R1)" by (cases "sp_split time tR")
        with ge Node False "2.prems"(2) have "L = Node tL t L1" "R = R1" by auto
        moreover have "inorder tR = inorder L1 @ inorder R1" "\<forall>x \<in> set_tree L1. ev_time x \<le> time"
          "\<forall>x \<in> set_tree R1. time < ev_time x" using "2.IH"(4) [OF ge Node False] p s(2) unfolding Node by auto
        ultimately show ?thesis using ge s(3) by fastforce
      qed
    qed
  qed
qed auto

lemma sp_deque_loop_inorder:
  "sp_deque_loop ll l lr t tR = (e, T) \<Longrightarrow> inorder (Node (Node ll l lr) t tR) = e # inorder T"
  by (induction ll l lr t tR arbitrary: T rule: sp_deque_loop.induct) (auto split: prod.splits)

lemma sp_succ_inorder: "sp_succ ql q qr p pr = (s, T) \<Longrightarrow> inorder (Node (Node ql q qr) p pr) = s # inorder T"
  by (induction ql q qr p pr arbitrary: s T rule: sp_succ.induct) (auto split: prod.splits)

lemma sp_unlink_inorder: "inorder (sp_unlink l r) = inorder l @ inorder r"
  by (auto simp: sp_unlink_def split: tree.splits prod.splits dest: sp_succ_inorder)

lemma sp_search_ok:
  "sorted (map ev_key (inorder t)) \<Longrightarrow> distinct (map ev_uid (inorder t)) \<Longrightarrow> e \<in> set_tree t \<Longrightarrow>
   \<exists>T. sp_search e t = Inr T \<and> inorder T = remove1 e (inorder t)"
proof (induction t)
  case (Node l t r)
  have dn: "distinct (inorder l @ t # inorder r)" using Node.prems(2) by (auto simp: distinct_map)
  show ?case
  proof (cases "t = e")
    case True
    with dn show ?thesis by (auto simp: sp_unlink_inorder remove1_append)
  next
    case False
    have k: "\<forall>x \<in> set_tree l. ev_key x < ev_key t" "\<forall>x \<in> set_tree r. ev_key t < ev_key x"
    proof -
      have "ev_uid t \<notin> ev_uid ` set_tree l \<union> ev_uid ` set_tree r" using Node.prems(2) by auto
      then have u: "ev_key x \<noteq> ev_key t \<and> ev_key t \<noteq> ev_key x" if "x \<in> set_tree l \<or> x \<in> set_tree r" for x
        using that by (metis UnI1 UnI2 ev_key_def image_eqI prod.inject)
      show "\<forall>x \<in> set_tree l. ev_key x < ev_key t" "\<forall>x \<in> set_tree r. ev_key t < ev_key x"
        using Node.prems(1) u unfolding order.strict_iff_order by (auto simp: sorted_append)
    qed
    have c: "(ev_time t < ev_time e \<or> (ev_time e = ev_time t \<and> ev_uid t < ev_uid e)) \<longleftrightarrow> ev_key t < ev_key e"
      by (auto simp: ev_key_def)
    show ?thesis
    proof (cases "ev_key t < ev_key e")
      case True
      then have "e \<in> set_tree r" "e \<notin> set_tree l" using Node.prems(3) False k by force+
      then obtain T where "sp_search e r = Inr T" "inorder T = remove1 e (inorder r)"
        using Node.IH(2) Node.prems(1,2) by (auto simp: sorted_append)
      with False True c \<open>e \<notin> set_tree l\<close> show ?thesis by (auto simp: remove1_append)
    next
      case nl: False
      then have "e \<in> set_tree l" using Node.prems(3) False k by force
      then obtain T where "sp_search e l = Inr T" "inorder T = remove1 e (inorder l)"
        using Node.IH(1) Node.prems(1,2) by (auto simp: sorted_append)
      with False nl c \<open>e \<in> set_tree l\<close> show ?thesis by (auto simp: remove1_append)
    qed
  qed
qed simp

lemma sp_leftmost_inorder: "sp_leftmost t = (case inorder t of [] \<Rightarrow> None | e # _ \<Rightarrow> Some e)"
proof (induction t rule: sp_leftmost.induct)
  case (3 ll l lr t r)
  then show ?case by (cases "inorder ll") auto
qed simp_all

lemma uid_lookup_ok: "distinct (map ev_uid (inorder t)) \<Longrightarrow> uid_lookup u t = find (\<lambda>e. ev_uid e = u) (inorder t)"
proof (induction t)
  case (Node l t r)
  have f: "find P (xs @ ys) = (case find P xs of None \<Rightarrow> find P ys | Some e \<Rightarrow> Some e)" for P :: "event \<Rightarrow> bool" and xs ys
    by (induction xs) auto
  have "ev_uid t = u \<Longrightarrow> find (\<lambda>e. ev_uid e = u) (inorder l) = None"
    using Node.prems by (auto simp: find_None_iff image_iff)
  with Node show ?case by (auto simp: f split: option.splits)
qed simp

section \<open>The splay scheduler is an event queue\<close>

definition sp_inv :: "splay \<Rightarrow> bool" where
  "sp_inv s \<longleftrightarrow> ls_inv (inorder (sp_root s)) \<and> sp_qsize s = int (size (sp_root s))"

abbreviation sp_pending :: "splay \<Rightarrow> event list" where
  "sp_pending s \<equiv> inorder (sp_root s)"

lemma insort_key_between:
  "\<forall>x \<in> set xs. f x < f a \<Longrightarrow> \<forall>x \<in> set ys. f a < f x \<Longrightarrow> insort_key f a (xs @ ys) = xs @ a # ys"
  by (induction xs) (auto simp: insort_is_Cons less_imp_le)

lemma sorted_ev_key_time: "sorted (map ev_key xs) \<Longrightarrow> sorted (map ev_time xs)"
  by (induction xs) (auto simp: ev_key_def)

lemma sp_inv_sizeI: "length (inorder t) = n \<Longrightarrow> size t = n"
  by simp

lemma sp_insert_ok:
  assumes i: "sp_inv s" and e: "0 < ev_uid e" "\<forall>x \<in> set (sp_pending s). ev_uid x < ev_uid e"
  shows "sp_inv (sp_insert e s) \<and> sp_pending (sp_insert e s) = insort_key ev_key e (sp_pending s)"
proof (cases "sp_root s = Leaf")
  case True
  with i e show ?thesis by (simp add: sp_insert_def sp_inv_def ls_inv_def)
next
  case False
  obtain L R where p: "sp_split (ev_time e) (sp_root s) = (L, R)" by (cases "sp_split (ev_time e) (sp_root s)")
  have "sorted (map ev_time (inorder (sp_root s)))"
    using i by (intro sorted_ev_key_time) (simp add: sp_inv_def ls_inv_def)
  from sp_split_ok [OF this p] have
    io: "inorder L @ inorder R = inorder (sp_root s)" and
    b: "\<forall>x \<in> set_tree L. ev_time x \<le> ev_time e" "\<forall>x \<in> set_tree R. ev_time e < ev_time x" by auto
  have "set_tree L \<subseteq> set (sp_pending s)" using io by (metis Un_upper1 set_append set_inorder)
  with b(1) e(2) have "\<forall>x \<in> set (inorder L). ev_key x < ev_key e" by (auto simp: ev_key_def)
  moreover have "\<forall>x \<in> set (inorder R). ev_key e < ev_key x" using b(2) by (auto simp: ev_key_def)
  ultimately have pe: "sp_pending (sp_insert e s) = insort_key ev_key e (sp_pending s)"
    using False p by (simp add: sp_insert_def insort_key_between flip: io)
  then have "size (sp_root (sp_insert e s)) = Suc (size (sp_root s))"
    by (metis length_inorder length_insort)
  moreover have "sp_qsize (sp_insert e s) = sp_qsize s + 1" using False p by (simp add: sp_insert_def)
  ultimately show ?thesis using pe i e ls_inv_insort [of "sp_pending s" e] by (simp add: sp_inv_def)
qed

lemma sp_deque_ok:
  assumes i: "sp_inv s" and p: "sp_pending s = e # es"
  shows "\<exists>s'. sp_deque s = (Some e, s') \<and> sp_inv s' \<and> sp_pending s' = es"
proof -
  have es: "ls_inv es" using i p by (auto simp: sp_inv_def ls_inv_def)
  have sz: "size T = length es" if "inorder T = es" for T using that by auto
  have q: "sp_qsize s - 1 = int (length es)" using i p by (metis (no_types) One_nat_def diff_add_cancel add_diff_cancel_right' length_Cons length_inorder of_nat_Suc sp_inv_def add.commute)
  show ?thesis
  proof (cases "sp_root s" rule: sp_leftmost.cases)
    case (3 ll l lr t r)
    obtain e' T where d: "sp_deque_loop ll l lr t r = (e', T)" by (cases "sp_deque_loop ll l lr t r")
    from sp_deque_loop_inorder [OF d] p 3 have "e' = e" "inorder T = es" by auto
    with d 3 q es sz show ?thesis by (auto simp: sp_deque_def sp_inv_def)
  qed (use p q es sz in \<open>auto simp: sp_deque_def sp_inv_def\<close>)
qed

lemma sp_cancel_ok:
  assumes i: "sp_inv s" and e: "e \<in> set (sp_pending s)"
  shows "\<exists>s'. sp_cancel e s = Inr (negate_uid e, s') \<and> sp_inv s' \<and> sp_pending s' = remove1 e (sp_pending s)"
proof -
  have l: "ls_inv (sp_pending s)" using i by (simp add: sp_inv_def)
  then obtain T where T: "sp_search e (sp_root s) = Inr T" "inorder T = remove1 e (sp_pending s)"
    using sp_search_ok [of "sp_root s" e] e by (auto simp: ls_inv_def)
  have "size T = size (sp_root s) - 1" using T(2) e by (metis length_inorder length_remove1)
  moreover have "0 < size (sp_root s)" using e by (cases "sp_root s") auto
  ultimately have "sp_qsize s - 1 = int (size T)" using i by (simp add: sp_inv_def of_nat_diff)
  moreover have "0 < ev_uid e" using e l by (auto simp: ls_inv_def)
  ultimately show ?thesis using T ls_inv_remove1 [OF l, of e] by (simp add: sp_cancel_def sp_inv_def)
qed

interpretation spq: event_queue "\<lambda>e s. Inr (sp_insert e s)" "\<lambda>s. Inr (sp_deque s)" sp_cancel sp_lookup
  "\<lambda>s. Inr (sp_head s, s)" sp_pending sp_inv "\<lambda>_ _. True"
proof (unfold_locales, goal_cases)
  case (2 s n e)
  then show ?case using sp_insert_ok [of s e] by simp
next
  case (3 s)
  then have "sp_root s = Leaf" by (cases "sp_root s") auto
  then show ?case by (simp add: sp_deque_def)
next
  case (4 s e es)
  then show ?case using sp_deque_ok by fastforce
next
  case (5 s e)
  then show ?case using sp_cancel_ok by fastforce
next
  case (6 s u)
  then show ?case by (simp add: sp_lookup_def sp_inv_def ls_inv_def uid_lookup_ok)
qed (auto simp: sp_inv_def ls_inv_def sp_head_def sp_leftmost_inorder)

section \<open>Simulations\<close>

lemma splay_init: "sp_inv sp_init \<and> sp_pending sp_init = []"
  by (simp add: sp_inv_def sp_init_def ls_inv_def)

text \<open>C20: a simulation on the \<open>SplayScheduler\<close>: the base class calls handlers in order of time, and events of equal time in the order they were scheduled, exactly like a sorted list of events; it never aborts, and it stops early only when it is halted or no event is left.\<close>

theorem splay_simulates:
  assumes "well_behaved K handle" "\<forall>c \<in> set cs. 0 \<le> call_delay c"
  shows "\<exists>tr w' s'. simulate (\<lambda>e s. Inr (sp_insert e s)) (\<lambda>s. Inr (sp_deque s)) sp_cancel sp_lookup handle sp_init cs n w = Inr (tr, w', s') \<and>
     spec_simulate handle cs n w = Inr (tr, w', abs_sched sp_pending s') \<and>
     sorted (map ev_time tr) \<and> length tr \<le> n \<and> (length tr < n \<longrightarrow> sc_halted s' \<or> sp_pending (sc_q s') = [])"
  using assms splay_init by (intro spq.simulate_refines [of K]) simp_all

theorem splay_simulates_witness:
  "\<exists>tr w' s'. simulate (\<lambda>e s. Inr (sp_insert e s)) (\<lambda>s. Inr (sp_deque s)) sp_cancel sp_lookup demo_handle sp_init [Schedule 1 3, At 2 5] 6 0 = Inr (tr, w', s') \<and>
     spec_simulate demo_handle [Schedule 1 3, At 2 5] 6 0 = Inr (tr, w', abs_sched sp_pending s') \<and>
     sorted (map ev_time tr) \<and> length tr \<le> 6 \<and> (length tr < 6 \<longrightarrow> sc_halted s' \<or> sp_pending (sc_q s') = [])"
  using splay_simulates [OF demo_handle_ok, where cs = "[Schedule 1 3, At 2 5]" and n = 6 and w = 0] by simp

end
