(* ===== verification/Timer.thy ===== *)
theory Timer
  imports EventQueue
begin

text \<open>
  \<open>TimerHandler\<close> of \<open>common/timer-handler.h\<close> and \<open>common/timer-handler.cc\<close> as its clients see it. The agents only use a timer
  through \<open>resched\<close>, \<open>force_cancel\<close> and \<open>status\<close>. What they see of it is the record \<open>timer\<close>: the status and, while it is
  pending, the time of expiry. Theory \<open>TimerQueue\<close> has the timer over an event queue and shows that it implements this view.
\<close>

datatype TimerStatus = IDLE | PENDING | HANDLING

section \<open>The timer as its client sees it\<close>

record timer =
  tm_status :: TimerStatus
  tm_expiry :: time

definition timer_init :: timer where
  "timer_init = \<lparr>tm_status = IDLE, tm_expiry = 0\<rparr>"

definition timer_resched :: "time \<Rightarrow> time \<Rightarrow> timer \<Rightarrow> timer" where
  "timer_resched now delay t = t\<lparr>tm_status := PENDING, tm_expiry := now + delay\<rparr>"

definition timer_force_cancel :: "timer \<Rightarrow> timer" where
  "timer_force_cancel t = (if tm_status t = PENDING then t\<lparr>tm_status := IDLE\<rparr> else t)"

text \<open>The two halves of \<open>handle\<close>, before and after the call of \<open>expire\<close>.\<close>

definition timer_handle_begin :: "timer \<Rightarrow> timer res" where
  "timer_handle_begin t = (if tm_status t \<noteq> PENDING then Inl Abort else Inr (t\<lparr>tm_status := HANDLING\<rparr>))"

definition timer_handle_end :: "timer \<Rightarrow> timer" where
  "timer_handle_end t = (if tm_status t = HANDLING then t\<lparr>tm_status := IDLE\<rparr> else t)"

end
