(* ===== verification/EcnTrackers.thy ===== *)
theory EcnTrackers
  imports Packet
begin

text \<open>
  The trackers of congestion marks in \<open>tcp/ecn\<close>: the receiver side that decides what to echo
  (\<open>tcp-full-receivers.cc\<close>), and the sender side that estimates the fraction of marked bytes
  (\<open>senders.cc\<close>, \<open>tcp-full-senders.cc\<close>). The methods of a class hierarchy are one definition with a branch for
  each class.
\<close>

section \<open>Receivers\<close>

datatype recv_kind = NormalReceiver | EcnhatReceiver | AFabricReceiver

record ce_recv =
  rt_recent_ce :: bool
  rt_is_low_prio :: bool
  rt_ce_transition :: bool

definition recv_tracker_init :: ce_recv where
  "recv_tracker_init = \<lparr>rt_recent_ce = False, rt_is_low_prio = True, rt_ce_transition = False\<rparr>"

definition need_ce_echo :: "ce_recv \<Rightarrow> bool" where
  "need_ce_echo t = rt_recent_ce t"

definition has_pending :: "recv_kind \<Rightarrow> ce_recv \<Rightarrow> bool" where
  "has_pending k t = (case k of NormalReceiver \<Rightarrow> False | EcnhatReceiver \<Rightarrow> rt_ce_transition t
     | AFabricReceiver \<Rightarrow> rt_ce_transition t)"

definition on_syn_ack :: "hdr_flags \<Rightarrow> ce_recv \<Rightarrow> ce_recv" where
  "on_syn_ack fh t = (if fl_ecnecho fh \<and> \<not> fl_cong_action fh \<and> fl_ce fh then t\<lparr>rt_recent_ce := True\<rparr> else t)"

definition flip_ce :: "ce_recv \<Rightarrow> ce_recv" where
  "flip_ce t = t\<lparr>rt_recent_ce := \<not> rt_recent_ce t\<rparr>"

definition ce_set_packet_echo :: "recv_kind \<Rightarrow> ce_recv \<Rightarrow> hdr_flags \<Rightarrow> hdr_flags" where
  "ce_set_packet_echo k t fh =
     (if k = AFabricReceiver then fh\<lparr>fl_ecnecho := True, fl_ecn_low_prio := rt_is_low_prio t\<rparr>
      else fh\<lparr>fl_ecnecho := True\<rparr>)"

definition is_priority_valid :: "int \<Rightarrow> ce_recv \<Rightarrow> bool" where
  "is_priority_valid prio t = (rt_is_low_prio t \<or> prio \<noteq> get_lowest_priority)"

definition update_priority :: "int \<Rightarrow> ce_recv \<Rightarrow> ce_recv" where
  "update_priority prio t = t\<lparr>rt_is_low_prio := rt_is_low_prio t \<and> prio = get_lowest_priority\<rparr>"

definition is_transition_afabric :: "bool \<Rightarrow> int \<Rightarrow> ce_recv \<Rightarrow> bool" where
  "is_transition_afabric new_ce prio t =
     ((is_priority_valid prio t \<and> rt_recent_ce t \<noteq> new_ce) \<or> (rt_is_low_prio t \<and> prio \<noteq> get_lowest_priority))"

definition update_afabric :: "bool \<Rightarrow> int \<Rightarrow> ce_recv \<Rightarrow> ce_recv" where
  "update_afabric new_ce prio t =
     (let t1 = t\<lparr>rt_ce_transition := is_transition_afabric new_ce prio t\<rparr>;
          t2 = update_priority prio t1
      in t2\<lparr>rt_recent_ce := new_ce \<and> is_priority_valid prio t2\<rparr>)"

definition is_transition_ecnhat :: "bool \<Rightarrow> ce_recv \<Rightarrow> bool" where
  "is_transition_ecnhat new_ce t = (rt_recent_ce t \<noteq> new_ce)"

definition update_ecnhat :: "bool \<Rightarrow> ce_recv \<Rightarrow> ce_recv" where
  "update_ecnhat new_ce t = t\<lparr>rt_ce_transition := is_transition_ecnhat new_ce t, rt_recent_ce := new_ce\<rparr>"

definition on_new_packet :: "recv_kind \<Rightarrow> packet \<Rightarrow> bool \<Rightarrow> ce_recv \<Rightarrow> ce_recv" where
  "on_new_packet k p has_data t =
     (let fh = pk_flags p; prio = ip_prio (pk_ip p) in
      (case k of
         NormalReceiver \<Rightarrow>
           if fl_ce fh \<and> fl_ect fh then t\<lparr>rt_recent_ce := True\<rparr>
           else if fl_cong_action fh then t\<lparr>rt_recent_ce := False\<rparr> else t
       | EcnhatReceiver \<Rightarrow>
           if fl_ce fh \<and> fl_ect fh then update_ecnhat True t
           else if has_data \<and> \<not> fl_ce fh \<and> fl_ect fh then update_ecnhat False t else t
       | AFabricReceiver \<Rightarrow>
           if fl_ce fh \<and> fl_ect fh then update_afabric True prio t
           else if has_data \<and> \<not> fl_ce fh \<and> fl_ect fh then update_afabric False prio t else t))"

section \<open>Senders\<close>

datatype send_kind = NormalSender | EcnhatSender | TcpFriendlyEcnhatSender | AfabricEcnhatSender

record ecnhat =
  eh_recalc_seq :: int
  eh_maxseq :: int
  eh_num_marked :: int
  eh_smooth_alpha :: bool
  eh_g :: real
  eh_alpha :: real
  eh_total :: int
  eh_tcp_friendly_increase :: real
  eh_target_wnd :: real

definition ecnhat_init :: ecnhat where
  "ecnhat_init = \<lparr>eh_recalc_seq = 0, eh_maxseq = 0, eh_num_marked = 0, eh_smooth_alpha = True,
     eh_g = 0.125, eh_alpha = 0, eh_total = 0, eh_tcp_friendly_increase = 0, eh_target_wnd = 0\<rparr>"

definition is_ecn_active_by :: "send_kind \<Rightarrow> bool \<Rightarrow> packet \<Rightarrow> bool" where
  "is_ecn_active_by k signal_on_empty p =
     (case k of
        AfabricEcnhatSender \<Rightarrow>
          fl_ecnecho (pk_flags p) \<and> (\<not> fl_ecn_low_prio (pk_flags p) \<or> \<not> signal_on_empty)
      | _ \<Rightarrow> fl_ecnecho (pk_flags p))"

definition should_slowdown_on_dup_ack :: "send_kind \<Rightarrow> bool" where
  "should_slowdown_on_dup_ack k = (k \<noteq> NormalSender)"

definition always_report_ect :: "send_kind \<Rightarrow> bool" where
  "always_report_ect k = (k \<noteq> NormalSender)"

definition dctcp_alpha :: "send_kind \<Rightarrow> ecnhat \<Rightarrow> real" where
  "dctcp_alpha k t = (if k = NormalSender then 1 else eh_alpha t)"

text \<open>\<open>update_ecnhat_alpha\<close>; the second result tells that \<open>ecnhat_beta_\<close> of the processor is set to 1.\<close>

definition update_ecnhat_alpha :: "bool \<Rightarrow> int \<Rightarrow> int \<Rightarrow> int \<Rightarrow> ecnhat \<Rightarrow> ecnhat \<times> bool" where
  "update_ecnhat_alpha ecnbit ackno highest_ack sz t =
     (if \<not> eh_smooth_alpha t then
        (t\<lparr>eh_alpha := (1 - eh_g t) * eh_alpha t + eh_g t * (if ecnbit then 1 else 0)\<rparr>, False)
      else
        let acked_bytes = (if ackno - highest_ack \<le> 0 then sz else ackno - highest_ack);
            t1 = t\<lparr>eh_total := eh_total t + acked_bytes\<rparr>;
            t2 = (if ecnbit then t1\<lparr>eh_num_marked := eh_num_marked t1 + acked_bytes\<rparr> else t1)
        in (if ackno > eh_recalc_seq t2 then
              let temp_alpha = (if eh_total t2 > 0 then of_int (eh_num_marked t2) / of_int (eh_total t2) else 0)
              in t2\<lparr>eh_recalc_seq := eh_maxseq t2, eh_alpha := (1 - eh_g t2) * eh_alpha t2 + eh_g t2 * temp_alpha,
                    eh_num_marked := 0, eh_total := 0\<rparr>
            else t2, ecnbit))"

definition sender_on_foutput :: "send_kind \<Rightarrow> int \<Rightarrow> ecnhat \<Rightarrow> ecnhat" where
  "sender_on_foutput k highest t =
     (if k = NormalSender then t else if highest > eh_maxseq t then t\<lparr>eh_maxseq := highest\<rparr> else t)"

definition sender_on_timeout :: "send_kind \<Rightarrow> int \<Rightarrow> ecnhat \<Rightarrow> ecnhat" where
  "sender_on_timeout k t_seqno t =
     (if k = NormalSender then t else t\<lparr>eh_recalc_seq := t_seqno, eh_maxseq := t_seqno\<rparr>)"

definition sender_opencwnd_enabled :: "send_kind \<Rightarrow> bool" where
  "sender_opencwnd_enabled k = (k = TcpFriendlyEcnhatSender)"

end
