(* ===== verification/TcpTypes.thy ===== *)
theory TcpTypes
  imports Packet ReassemblyQueue Timer EcnTrackers
begin

text \<open>
  The data of the full TCP agent: \<open>TcpAgent\<close> (\<open>tcp/tcp.h\<close>), \<open>FullTcpAgent\<close> and its subclasses
  (\<open>tcp/tcp-full.h\<close>) and the CE trackers of \<open>tcp/ecn\<close>.

  An object is a record. What is bound from Tcl and never assigned by the modelled code is its
  configuration \<open>tcp_cfg\<close>; the dynamic class of the object, which selects the overriding methods, is the field
  \<open>cf_class\<close>. The mutable members are the fields of \<open>tcp_agent\<close>; members of the subclasses are
  fields too and stay unused in objects of the other classes. Members used as truth values are \<open>bool\<close>, and the bits of \<open>flags_\<close> are
  one field each. The scheduler's clock during a step is \<open>tc_now\<close>.

  Packets that are sent and upcalls to the application and to Tcl are appended to \<open>tc_log\<close>. An application
  that reacts to an upcall by calling the agent does so in a later step.
\<close>

section \<open>Enumerations\<close>

datatype TcpState = CLOSED | LISTEN | SYN_SENT | SYN_RECEIVED | ESTABLISHED | CLOSE_WAIT
  | FIN_WAIT_1 | CLOSING | LAST_ACK | FIN_WAIT_2

fun state_num :: "TcpState \<Rightarrow> int" where
  "state_num CLOSED = 0"
| "state_num LISTEN = 1"
| "state_num SYN_SENT = 2"
| "state_num SYN_RECEIVED = 3"
| "state_num ESTABLISHED = 4"
| "state_num CLOSE_WAIT = 5"
| "state_num FIN_WAIT_1 = 6"
| "state_num CLOSING = 7"
| "state_num LAST_ACK = 8"
| "state_num FIN_WAIT_2 = 9"

lemma state_num_inject [simp]: "state_num a = state_num b \<longleftrightarrow> a = b"
  by (cases a; cases b) simp_all

instantiation TcpState :: linorder
begin

definition less_eq_TcpState :: "TcpState \<Rightarrow> TcpState \<Rightarrow> bool" where
  "less_eq_TcpState a b \<longleftrightarrow> state_num a \<le> state_num b"

definition less_TcpState :: "TcpState \<Rightarrow> TcpState \<Rightarrow> bool" where
  "less_TcpState a b \<longleftrightarrow> state_num a < state_num b"

instance
  by standard (auto simp: less_eq_TcpState_def less_TcpState_def)

end

definition have_received_FIN :: "TcpState \<Rightarrow> bool" where
  "have_received_FIN s = (s = CLOSING \<or> s = CLOSED \<or> s = CLOSE_WAIT)"

definition have_received_SYN :: "TcpState \<Rightarrow> bool" where
  "have_received_SYN s = (state_num s \<ge> state_num SYN_RECEIVED)"

datatype PrioScheme = CAPPED_BYTES_SENT | FLOW_SIZE | REMAINING_SIZE | BYTES_SENT
  | BATCHED_REMAINING_SIZE | UNKNOWN | LAZY_REMAINING_SIZE | LAZY_REMAINING_SIZE_BYTES_SENT

datatype CwndAdjustment = CWA_NONE | CWA_DUPACK | CWA_TIMEOUT | CWA_ECN | CWA_EXITED

text \<open>A value of \<open>TcpSlowdownFlags\<close> is a set of these bits.\<close>

datatype TcpSlowdownFlag = CWND_HALF | CWND_HALF_WAY | CWND_RESTART | CWND_INIT | CWND_ONE
  | CWND_HALF_WITH_MIN | CWND_ECNHAT | SSTHRESH_HALF | SSTHRESH_THREE_QUATER | SSTHRESH_ECNHAT
  | TCP_IDLE | NO_OUTSTANDING_DATA

datatype EcnSynAckAction = WINDOW_OF_ONE | WAIT | RETRY

datatype EcnDecision = CONGESTION | NO_CONGESTION | CONGESTION_DROP

datatype agent_class = FullTcpAgent | NewRenoFullTcpAgent | TahoeFullTcpAgent | SackFullTcpAgent
  | MinTcpAgent | DDTcpAgent

text \<open>\<open>SackFullTcpAgent\<close> or one of its subclasses.\<close>

definition is_sack :: "agent_class \<Rightarrow> bool" where
  "is_sack c = (c = SackFullTcpAgent \<or> c = MinTcpAgent \<or> c = DDTcpAgent)"

section \<open>Header flags\<close>

text \<open>\<open>enum class TcpFlags\<close> with its operators; the flags of a segment are an \<open>int\<close> in the header.\<close>

definition TH_FIN :: int where "TH_FIN = 1"
definition TH_SYN :: int where "TH_SYN = 2"
definition TH_PUSH :: int where "TH_PUSH = 8"
definition TH_ACK :: int where "TH_ACK = 16"
definition TH_ECE :: int where "TH_ECE = 64"
definition TH_CWR :: int where "TH_CWR = 128"

definition contains_all :: "int \<Rightarrow> int \<Rightarrow> bool" where
  "contains_all me what = (me AND what = what)"

definition contains_any :: "int \<Rightarrow> int \<Rightarrow> bool" where
  "contains_any me what = (me AND what \<noteq> 0)"

lemmas TH_defs = TH_FIN_def TH_SYN_def TH_PUSH_def TH_ACK_def TH_ECE_def TH_CWR_def

section \<open>The configuration of an agent\<close>

record tcp_cfg =
  cf_class :: agent_class
  cf_random :: "nat \<Rightarrow> real"
  cf_addr :: int
  cf_daddr :: int
  cf_prio :: int
  cf_overhead :: real
  cf_wnd :: real
  cf_wnd_const :: real
  cf_tcp_tick :: real
  cf_wnd_option :: int
  cf_size :: int
  cf_tcpip_base_hdr_size :: int
  cf_maxcwnd :: int
  cf_T_SRTT_BITS :: nat
  cf_srtt_init :: int
  cf_T_RTTVAR_BITS :: nat
  cf_rttvar_exp :: nat
  cf_rttvar_init :: int
  cf_rtxcur_init :: real
  cf_maxrto :: real
  cf_ts_resetRTO :: bool
  cf_ts_option :: bool
  cf_rfc2988 :: bool
  cf_delay_growth :: bool
  cf_bug_fix :: bool
  cf_k_parameter :: real
  cf_l_parameter :: real
  cf_precision_reduce :: bool
  cf_slow_start_restart :: bool
  cf_restart_bugfix :: bool
  cf_lldct :: bool
  cf_lldct_w_min :: real
  cf_lldct_w_max :: real
  cf_lldct_size_min :: real
  cf_lldct_size_max :: real
  cf_low_window :: int
  cf_high_window :: int
  cf_high_p :: real
  cf_high_decrease :: real
  cf_max_ssthresh :: int
  cf_cwnd_range :: int
  cf_QOption :: bool
  cf_EnblRTTCtr :: bool
  cf_control_increase :: bool

record full_cfg = tcp_cfg +
  cf_prio_scheme :: PrioScheme
  cf_prio_num :: int
  cf_prio_cap :: "int list"
  cf_enable_pias :: bool
  cf_pias_thresh :: "int list"
  cf_prob_cap :: int
  cf_nominal_deadline :: int
  cf_use_deadline :: bool
  cf_true_flow_size :: int
  cf_use_true_remaining_size :: bool
  cf_rtx_on_eof :: bool
  cf_reset_window_on_eof :: bool
  cf_no_eof_minrto :: real
  cf_eof_minrto :: real
  cf_ts_option_size :: int
  cf_open_cwnd_on_pack :: bool
  cf_nodelay :: bool
  cf_data_on_syn :: bool
  cf_dynamic_dupack :: real
  cf_reno_fastrecov :: bool
  cf_iss :: int
  cf_dupseg_fix :: bool
  cf_dupack_reset :: bool
  cf_halfclose :: bool
  cf_nopredict :: bool
  cf_delack_interval :: real
  cf_link_rate :: int
  cf_recov_maxburst :: int
  cf_clear_on_timeout :: bool
  cf_sack_option_size :: int
  cf_sack_block_size :: int
  cf_max_sack_blocks :: int
  cf_sack_rtx_bthresh :: int
  cf_sack_rtx_cthresh :: int
  cf_sack_rtx_threshmode :: int
  cf_ecn :: bool
  cf_old_ecn :: bool
  cf_ecnhat :: bool
  cf_ecnhat_tcp_friendly :: bool
  cf_ecnhat_enable_beta :: bool
  cf_SetCWRonRetransmit :: bool
  cf_ecn_syn :: bool
  cf_ecn_syn_wait :: EcnSynAckAction
  cf_afabric_ecn_enabled :: bool

section \<open>The state of an agent\<close>

text \<open>The constants of \<open>struct hstcp\<close> and the counters of the quiescence option.\<close>

record hstcp =
  hs_low_p :: real
  hs_dec1 :: real
  hs_dec2 :: real
  hs_p1 :: real
  hs_p2 :: real
  hs_cwnd_last :: real
  hs_increase_last :: real

record qoption =
  q_T_last :: int
  q_T_prev :: int
  q_T_start :: int
  q_RTT_count :: int
  q_RTT_prev :: int
  q_RTT_goodcount :: int
  q_F_counting :: int
  q_W_timed :: int
  q_F_full :: int
  q_Backoffs :: int

datatype upcall = Sent packet | Idle | RecvBytes int | DoneData | Done

text \<open>\<open>TcpAgent\<close>.\<close>

record tcp_base =
  tc_cfg :: full_cfg
  tc_now :: time
  tc_draws :: nat
  tc_log :: "upcall list"
  tc_npkts :: nat
  tc_fid :: int
  tc_boot_time :: real
  tc_wnd_init :: real
  tc_wnd_restart :: real
  tc_wnd_init_option :: int
  tc_decrease_num :: real
  tc_increase_num :: real
  tc_t_seqno :: int
  tc_dupacks :: int
  tc_curseq :: int
  tc_highest_ack :: int
  tc_cwnd :: real
  tc_ssthresh :: int
  tc_maxseq :: int
  tc_last_ack :: int
  tc_recover :: int
  tc_last_cwnd_action :: CwndAdjustment
  tc_count :: int
  tc_rtt_active :: bool
  tc_rtt_seq :: int
  tc_rtt_ts :: real
  tc_lastreset :: real
  tc_t_rtt :: int
  tc_t_srtt :: int
  tc_t_rttvar :: int
  tc_t_backoff :: int
  tc_t_rtxcur :: real
  tc_minrto :: real
  tc_rtx_timer :: timer
  tc_delsnd_timer :: timer
  tc_burstsnd_timer :: timer
  tc_syn :: bool
  tc_syn_connects :: int
  tc_frto :: int
  tc_maxburst :: int
  tc_awnd :: real
  tc_first_decrease :: bool
  tc_fcnt :: real
  tc_ndatapack :: int
  tc_ndatabytes :: int
  tc_nackpack :: int
  tc_nrexmit :: int
  tc_nrexmitpack :: int
  tc_nrexmitbytes :: int
  tc_ncwndcuts :: int
  tc_ncwndcuts1 :: int
  tc_lldct_w_c :: real
  tc_hstcp :: hstcp
  tc_q :: qoption
  tc_W_used :: int
  tc_prev_highest_ack :: int

text \<open>\<open>EcnProcessor\<close> of \<open>tcp/tcp.h\<close> and \<open>tcp/tcp-full.h\<close>, with the trackers the configuration selects.\<close>

record tcp_ecn = tcp_base +
  tc_ect :: bool
  tc_ecn_backoff :: bool
  tc_ecnhat_beta :: real
  tc_ecn_burst :: bool
  tc_cong_action :: bool
  tc_use_rtt :: bool
  tc_necnresponses :: int
  tc_ecn_syn_next :: bool
  tc_informpacer :: bool
  tc_recv_tracker :: ce_recv
  tc_ecnhat_send :: ecnhat

text \<open>\<open>FullTcpAgent\<close> and its subclasses. The reference \<open>rcv_nxt_\<close> of the reassembly queue is the agent's
  \<open>rcv_nxt_\<close>, and that of the SACK queue is \<open>sack_min_\<close>: these members are the field \<open>rq_rcv_nxt\<close> of the queues.\<close>

record tcp_agent = tcp_ecn +
  tc_pias_prio_num :: int
  tc_startseq :: int
  tc_last_prio :: int
  tc_seq_bound :: int
  tc_prob_count :: int
  tc_prob_mode :: bool
  tc_last_sqtotal :: int
  tc_cur_sqtotal :: int
  tc_deadline :: int
  tc_start_time :: real
  tc_early_terminated :: bool
  tc_closed :: bool
  tc_pipe :: int
  tc_pipectrl :: bool
  tc_rtxbytes :: int
  tc_fastrecov :: bool
  tc_last_send_time :: real
  tc_flow_remaining :: int
  tc_last_eof_time :: "real option"
  tc_close_on_empty :: bool
  tc_signal_on_empty :: bool
  tc_infinite_send :: bool
  tc_tcprexmtthresh :: int
  tc_irs :: int
  tc_delack_timer :: timer
  tc_maxseg :: int
  tc_TF_ACKNOW :: bool
  tc_TF_DELACK :: bool
  tc_TF_RCVD_TSTMP :: bool
  tc_TF_NEEDFIN :: bool
  tc_TF_NEEDCLOSE :: bool
  tc_state :: TcpState
  tc_last_state :: TcpState
  tc_rq :: rq
  tc_last_ack_sent :: int
  tc_recent :: real
  tc_recent_age :: real
  tc_save_maxburst :: int
  tc_sq :: rq
  tc_h_seqno :: int

abbreviation tc_rcv_nxt :: "tcp_agent \<Rightarrow> int" where
  "tc_rcv_nxt s \<equiv> rq_rcv_nxt (tc_rq s)"

abbreviation tc_sack_min :: "tcp_agent \<Rightarrow> int" where
  "tc_sack_min s \<equiv> rq_rcv_nxt (tc_sq s)"

definition set_rcv_nxt :: "int \<Rightarrow> tcp_agent \<Rightarrow> tcp_agent" where
  "set_rcv_nxt n s = s\<lparr>tc_rq := (tc_rq s)\<lparr>rq_rcv_nxt := n\<rparr>\<rparr>"

definition upcall :: "upcall \<Rightarrow> tcp_agent \<Rightarrow> tcp_agent" where
  "upcall u s = s\<lparr>tc_log := tc_log s @ [u]\<rparr>"

text \<open>\<open>Random::uniform\<close>: the next draw, scaled.\<close>

definition random_uniform :: "real \<Rightarrow> tcp_agent \<Rightarrow> real \<times> tcp_agent" where
  "random_uniform r s = (r * cf_random (tc_cfg s) (tc_draws s), s\<lparr>tc_draws := tc_draws s + 1\<rparr>)"

section \<open>New objects\<close>

text \<open>The defaults of \<open>tcl/lib/ns-default.tcl\<close> for an agent of class \<open>c\<close>, for the concrete runs.\<close>

definition default_cfg :: "agent_class \<Rightarrow> full_cfg" where
  "default_cfg c = \<lparr>cf_class = c, cf_random = \<lambda>_. 0, cf_addr = 0, cf_daddr = 0, cf_prio = 0, cf_overhead = 0,
     cf_wnd = 20, cf_wnd_const = 4, cf_tcp_tick = 0.01, cf_wnd_option = 1, cf_size = 1000,
     cf_tcpip_base_hdr_size = 40, cf_maxcwnd = 0, cf_T_SRTT_BITS = 3, cf_srtt_init = 0, cf_T_RTTVAR_BITS = 2,
     cf_rttvar_exp = 2, cf_rttvar_init = 12, cf_rtxcur_init = 3, cf_maxrto = 60, cf_ts_resetRTO = False,
     cf_ts_option = False, cf_rfc2988 = True, cf_delay_growth = True, cf_bug_fix = True, cf_k_parameter = 0,
     cf_l_parameter = 1, cf_precision_reduce = True, cf_slow_start_restart = True, cf_restart_bugfix = True,
     cf_lldct = False, cf_lldct_w_min = 0.125, cf_lldct_w_max = 2.5, cf_lldct_size_min = 200000,
     cf_lldct_size_max = 1000000, cf_low_window = 38, cf_high_window = 83000, cf_high_p = 0.0000001,
     cf_high_decrease = 0.1, cf_max_ssthresh = 0, cf_cwnd_range = 0, cf_QOption = False, cf_EnblRTTCtr = False,
     cf_control_increase = False, cf_prio_scheme = REMAINING_SIZE, cf_prio_num = 0,
     cf_prio_cap = [8775, 23375, 43815, 71555, 388375, 1461475, 4124515], cf_enable_pias = False,
     cf_pias_thresh = [0, 0, 0, 0, 0, 0, 0], cf_prob_cap = 0, cf_nominal_deadline = 0, cf_use_deadline = False,
     cf_true_flow_size = -1, cf_use_true_remaining_size = False, cf_rtx_on_eof = False,
     cf_reset_window_on_eof = False, cf_no_eof_minrto = -1, cf_eof_minrto = -1, cf_ts_option_size = 10,
     cf_open_cwnd_on_pack = True, cf_nodelay = False, cf_data_on_syn = False, cf_dynamic_dupack = 0,
     cf_reno_fastrecov = True, cf_iss = 0, cf_dupseg_fix = True, cf_dupack_reset = False, cf_halfclose = False,
     cf_nopredict = False, cf_delack_interval = 0.1, cf_link_rate = 10, cf_recov_maxburst = 0,
     cf_clear_on_timeout = True, cf_sack_option_size = 2, cf_sack_block_size = 8, cf_max_sack_blocks = 3,
     cf_sack_rtx_bthresh = 1, cf_sack_rtx_cthresh = 1, cf_sack_rtx_threshmode = 1, cf_ecn = False,
     cf_old_ecn = False, cf_ecnhat = False, cf_ecnhat_tcp_friendly = False, cf_ecnhat_enable_beta = False,
     cf_SetCWRonRetransmit = True, cf_ecn_syn = False, cf_ecn_syn_wait = WINDOW_OF_ONE,
     cf_afabric_ecn_enabled = False\<rparr>"

text \<open>A new object, as the constructors and the bound defaults leave it before the first \<open>reset\<close>.\<close>

definition new_agent :: "full_cfg \<Rightarrow> tcp_agent" where
  "new_agent c = \<lparr>tc_cfg = c, tc_now = 0, tc_draws = 0, tc_log = [], tc_npkts = 0, tc_fid = 0, tc_boot_time = 0,
     tc_wnd_init = 2, tc_wnd_restart = 1, tc_wnd_init_option = 1, tc_decrease_num = 0.5, tc_increase_num = 1,
     tc_t_seqno = 0, tc_dupacks = 0, tc_curseq = 0, tc_highest_ack = 0, tc_cwnd = 0, tc_ssthresh = 0,
     tc_maxseq = 0, tc_last_ack = 0, tc_recover = 0, tc_last_cwnd_action = CWA_NONE, tc_count = 0,
     tc_rtt_active = False, tc_rtt_seq = 0, tc_rtt_ts = 0, tc_lastreset = 0, tc_t_rtt = 0, tc_t_srtt = 0,
     tc_t_rttvar = 0, tc_t_backoff = 0, tc_t_rtxcur = 0, tc_minrto = 0.2, tc_rtx_timer = timer_init,
     tc_delsnd_timer = timer_init, tc_burstsnd_timer = timer_init, tc_syn = True, tc_syn_connects = 0,
     tc_frto = 0, tc_maxburst = 0, tc_awnd = 0, tc_first_decrease = False, tc_fcnt = 0, tc_ndatapack = 0,
     tc_ndatabytes = 0, tc_nackpack = 0, tc_nrexmit = 0, tc_nrexmitpack = 0, tc_nrexmitbytes = 0,
     tc_ncwndcuts = 0, tc_ncwndcuts1 = 0, tc_lldct_w_c = 0,
     tc_hstcp = \<lparr>hs_low_p = 0, hs_dec1 = 0, hs_dec2 = 0, hs_p1 = 0, hs_p2 = 0, hs_cwnd_last = 0, hs_increase_last = 0\<rparr>,
     tc_q = \<lparr>q_T_last = 0, q_T_prev = 0, q_T_start = 0, q_RTT_count = 0, q_RTT_prev = 0, q_RTT_goodcount = 0, q_F_counting = 0, q_W_timed = 0, q_F_full = 0, q_Backoffs = 0\<rparr>,
     tc_W_used = 0, tc_prev_highest_ack = 0, tc_ect = False, tc_ecn_backoff = False, tc_ecnhat_beta = 0,
     tc_ecn_burst = False, tc_cong_action = False, tc_use_rtt = False, tc_necnresponses = 0,
     tc_ecn_syn_next = False, tc_informpacer = False, tc_recv_tracker = recv_tracker_init,
     tc_ecnhat_send = ecnhat_init, tc_pias_prio_num = 0, tc_startseq = 0, tc_last_prio = 0, tc_seq_bound = 0,
     tc_prob_count = 0, tc_prob_mode = False, tc_last_sqtotal = 0, tc_cur_sqtotal = 0, tc_deadline = 0,
     tc_start_time = 0, tc_early_terminated = False, tc_closed = False, tc_pipe = -1, tc_pipectrl = False,
     tc_rtxbytes = 0, tc_fastrecov = False, tc_last_send_time = -1, tc_flow_remaining = -1,
     tc_last_eof_time = None, tc_close_on_empty = False, tc_signal_on_empty = False, tc_infinite_send = False,
     tc_tcprexmtthresh = 3, tc_irs = -1, tc_delack_timer = timer_init, tc_maxseg = 536, tc_TF_ACKNOW = False,
     tc_TF_DELACK = False, tc_TF_RCVD_TSTMP = False, tc_TF_NEEDFIN = False, tc_TF_NEEDCLOSE = False,
     tc_state = CLOSED, tc_last_state = CLOSED, tc_rq = rq_init 0, tc_last_ack_sent = -1, tc_recent = 0,
     tc_recent_age = 0, tc_save_maxburst = -1, tc_sq = rq_init (-1), tc_h_seqno = -1\<rparr>"

end
