(* ===== verification/TcpBase.thy ===== *)
theory TcpBase
  imports TcpTypes
begin

text \<open>
  What the full TCP agent inherits from \<open>TcpAgent\<close> (\<open>tcp/tcp.cc\<close>): windows, the round trip estimator and the
  retransmission timer, opening and closing the congestion window, and \<open>reset\<close>, with the overriding versions of the subclasses.
\<close>

section \<open>Trackers and timers\<close>

definition send_tracker :: "tcp_agent \<Rightarrow> send_kind" where
  "send_tracker s =
     (if cf_afabric_ecn_enabled (tc_cfg s) then AfabricEcnhatSender
      else if cf_ecnhat (tc_cfg s) then
        (if cf_ecnhat_tcp_friendly (tc_cfg s) then TcpFriendlyEcnhatSender else EcnhatSender)
      else NormalSender)"

definition recv_tracker_kind :: "tcp_agent \<Rightarrow> recv_kind" where
  "recv_tracker_kind s =
     (if cf_ecnhat (tc_cfg s) then
        (if cf_afabric_ecn_enabled (tc_cfg s) then AFabricReceiver else EcnhatReceiver)
      else NormalReceiver)"

definition is_ecn_active :: "packet \<Rightarrow> tcp_agent \<Rightarrow> bool" where
  "is_ecn_active p s = is_ecn_active_by (send_tracker s) (tc_signal_on_empty s) p"

definition cancel_rtx_timer :: "tcp_agent \<Rightarrow> tcp_agent" where
  "cancel_rtx_timer s = s\<lparr>tc_rtx_timer := timer_force_cancel (tc_rtx_timer s)\<rparr>"

definition cancel_timers :: "tcp_agent \<Rightarrow> tcp_agent" where
  "cancel_timers s = s\<lparr>tc_rtx_timer := timer_force_cancel (tc_rtx_timer s),
     tc_burstsnd_timer := timer_force_cancel (tc_burstsnd_timer s),
     tc_delsnd_timer := timer_force_cancel (tc_delsnd_timer s),
     tc_delack_timer := timer_force_cancel (tc_delack_timer s)\<rparr>"

section \<open>Windows\<close>

definition force_wnd :: "int \<Rightarrow> tcp_agent \<Rightarrow> int" where
  "force_wnd num s = tc_recover s + num - tc_highest_ack s"

definition window :: "tcp_agent \<Rightarrow> int" where
  "window s =
     (if tc_frto s = 2 then
        (if of_int (force_wnd 2 s) < cf_wnd (tc_cfg s) then force_wnd 2 s else trunc (cf_wnd (tc_cfg s)))
      else if tc_cwnd s < cf_wnd (tc_cfg s) then trunc (tc_cwnd s) else trunc (cf_wnd (tc_cfg s)))"

definition windowd :: "tcp_agent \<Rightarrow> real" where
  "windowd s = (if tc_cwnd s < cf_wnd (tc_cfg s) then tc_cwnd s else cf_wnd (tc_cfg s))"

definition initial_window :: "tcp_agent \<Rightarrow> real res" where
  "initial_window s =
     (if tc_wnd_init_option s = 1 then Inr (tc_wnd_init s)
      else if tc_wnd_init_option s = 2 then
        (if cf_size (tc_cfg s) \<le> 1095 then Inr 4
         else if cf_size (tc_cfg s) < 2190 then Inr 3
         else Inr 2)
      else Inl Abort)"

definition set_initial_window :: "tcp_agent \<Rightarrow> tcp_agent res" where
  "set_initial_window s =
     (let s1 = s\<lparr>tc_syn := True\<rparr> in
      if tc_syn s1 \<and> cf_delay_growth (tc_cfg s1) then Inr (s1\<lparr>tc_cwnd := 1, tc_syn_connects := 0\<rparr>)
      else res_bind (initial_window s1) (\<lambda>w. Inr (s1\<lparr>tc_cwnd := w\<rparr>)))"

section \<open>Round trip times\<close>

definition rtt_init :: "tcp_agent \<Rightarrow> tcp_agent" where
  "rtt_init s =
     (let c = tc_cfg s in
      s\<lparr>tc_t_rtt := 0,
        tc_t_srtt := push_bit (cf_T_SRTT_BITS c) (trunc (of_int (cf_srtt_init c) / cf_tcp_tick c)),
        tc_t_rttvar := push_bit (cf_T_RTTVAR_BITS c) (trunc (of_int (cf_rttvar_init c) / cf_tcp_tick c)),
        tc_t_rtxcur := cf_rtxcur_init c,
        tc_t_backoff := 1\<rparr>)"

text \<open>\<open>exit(1)\<close> on a negative timeout is an abort.\<close>

definition rto_backed_off :: "tcp_agent \<Rightarrow> real" where
  "rto_backed_off s =
     (if cf_rfc2988 (tc_cfg s) then
        (if tc_t_rtxcur s < tc_minrto s \<and> \<not> tc_use_rtt s
         then tc_minrto s * of_int (tc_t_backoff s)
         else tc_t_rtxcur s * of_int (tc_t_backoff s))
      else
        (let t = tc_t_rtxcur s * of_int (tc_t_backoff s) in if t < tc_minrto s then tc_minrto s else t))"

definition rtt_timeout :: "tcp_agent \<Rightarrow> (real \<times> tcp_agent) res" where
  "rtt_timeout s =
     (if cf_class (tc_cfg s) = MinTcpAgent then Inr (tc_minrto s, s)
      else
        let c = tc_cfg s;
            t = (if rto_backed_off s > cf_maxrto c then cf_maxrto c else rto_backed_off s);
            s1 = s\<lparr>tc_use_rtt := False\<rparr>
        in if t < 2 * cf_tcp_tick c then
             (if t < 0 then Inl Abort
              else if tc_use_rtt s \<and> t < cf_tcp_tick c then Inr (cf_tcp_tick c, s1)
              else Inr (2 * cf_tcp_tick c, s1))
           else Inr (t, s1))"

lemma rtt_timeout_state: "rtt_timeout s = Inr (t, s') \<Longrightarrow> s' = s \<or> s' = s\<lparr>tc_use_rtt := False\<rparr>"
  unfolding rtt_timeout_def Let_def by (simp split: if_split_asm)

definition set_rtx_timer :: "tcp_agent \<Rightarrow> tcp_agent res" where
  "set_rtx_timer s =
     res_bind (rtt_timeout s) (\<lambda>(t, s1). Inr (s1\<lparr>tc_rtx_timer := timer_resched (tc_now s1) t (tc_rtx_timer s1)\<rparr>))"

text \<open>What setting the timer changes.\<close>

lemma set_rtx_timer_state:
  "set_rtx_timer s = Inr s' \<Longrightarrow> \<exists>b t. s' = s\<lparr>tc_use_rtt := b, tc_rtx_timer := t\<rparr> \<and> tm_status t = PENDING"
proof -
  assume "set_rtx_timer s = Inr s'"
  then obtain t s1 where r: "rtt_timeout s = Inr (t, s1)" and eq: "s' = s1\<lparr>tc_rtx_timer := timer_resched (tc_now s1) t (tc_rtx_timer s1)\<rparr>"
    by (auto simp: set_rtx_timer_def res_bind_Inr_iff)
  from rtt_timeout_state [OF r] eq have "s' = s\<lparr>tc_use_rtt := tc_use_rtt s1, tc_rtx_timer := timer_resched (tc_now s) t (tc_rtx_timer s)\<rparr>"
    by auto
  then show ?thesis unfolding timer_resched_def by (intro exI conjI, assumption) simp
qed

text \<open>The variable \<open>delta\<close> is a \<open>short\<close>: an assignment to it keeps the low 16 bits.\<close>

definition to_short :: "int \<Rightarrow> int" where
  "to_short x = signed_take_bit 15 x"

definition rtt_update :: "real \<Rightarrow> tcp_agent \<Rightarrow> tcp_agent" where
  "rtt_update tao s =
     (let c = tc_cfg s;
          rtt0 = (if cf_ts_option c then trunc (tao / cf_tcp_tick c + 0.5)
                  else
                    let tickoff = fmod (tc_now s - tao + tc_boot_time s) (cf_tcp_tick c)
                    in trunc ((tao + tickoff) / cf_tcp_tick c));
          rtt = (if rtt0 < 1 then 1 else rtt0);
          (srtt, rttvar) =
            (if tc_t_srtt s \<noteq> 0 then
               let delta = to_short (rtt - drop_bit (cf_T_SRTT_BITS c) (tc_t_srtt s));
                   srtt1 = (if tc_t_srtt s + delta \<le> 0 then 1 else tc_t_srtt s + delta);
                   delta1 = (if delta < 0 then to_short (- delta) else delta);
                   delta2 = to_short (delta1 - drop_bit (cf_T_RTTVAR_BITS c) (tc_t_rttvar s));
                   rttvar1 = (if tc_t_rttvar s + delta2 \<le> 0 then 1 else tc_t_rttvar s + delta2)
               in (srtt1, rttvar1)
             else (push_bit (cf_T_SRTT_BITS c) rtt, push_bit (cf_T_RTTVAR_BITS c - 1) rtt))
      in s\<lparr>tc_t_rtt := rtt, tc_t_srtt := srtt, tc_t_rttvar := rttvar,
           tc_t_rtxcur :=
             of_int (drop_bit (cf_T_SRTT_BITS c)
               (push_bit (cf_rttvar_exp c + (cf_T_SRTT_BITS c - cf_T_RTTVAR_BITS c)) rttvar + srtt)) * cf_tcp_tick c\<rparr>)"

definition clobber_srtt :: "tcp_agent \<Rightarrow> tcp_agent" where
  "clobber_srtt s =
     (if tc_t_backoff s > 8
      then s\<lparr>tc_t_rttvar := tc_t_rttvar s + drop_bit (cf_T_SRTT_BITS (tc_cfg s)) (tc_t_srtt s), tc_t_srtt := 0\<rparr>
      else s)"

definition may_double :: "tcp_agent \<Rightarrow> (bool \<times> tcp_agent) res" where
  "may_double s =
     (if tc_t_backoff s < 64 then Inr (True, s)
      else if cf_rfc2988 (tc_cfg s) then
        res_bind (rtt_timeout s) (\<lambda>(t, s1). Inr (t < cf_maxrto (tc_cfg s1), s1))
      else Inr (False, s))"

definition rtt_backoff :: "tcp_agent \<Rightarrow> tcp_agent res" where
  "rtt_backoff s =
     res_bind (may_double s) (\<lambda>(double, s1).
       Inr (clobber_srtt (if double then s1\<lparr>tc_t_backoff := push_bit 1 (tc_t_backoff s1)\<rparr> else s1)))"

text \<open>\<open>FullTcpAgent::reset_rtx_timer\<close>.\<close>

definition reset_rtx_timer :: "tcp_agent \<Rightarrow> tcp_agent res" where
  "reset_rtx_timer s =
     res_bind (if \<not> (tc_highest_ack s = tc_maxseq s \<and> cf_restart_bugfix (tc_cfg s)) then rtt_backoff s else Inr s)
       (\<lambda>s1. res_bind (set_rtx_timer s1) (\<lambda>s2. Inr (s2\<lparr>tc_rtt_active := False\<rparr>)))"

section \<open>Opening the congestion window\<close>

definition limited_slow_start :: "real \<Rightarrow> int \<Rightarrow> real \<Rightarrow> real" where
  "limited_slow_start cwnd max_ssthresh increment =
     (if max_ssthresh \<le> 0 then increment
      else
        let round = trunc (cwnd / (of_int max_ssthresh / 2));
            increment1 = (if round > 0 then 1 / of_int round else 0)
        in if increment < increment1 then increment1 else increment)"

definition decrease_param :: "tcp_agent \<Rightarrow> real" where
  "decrease_param s = hs_dec1 (tc_hstcp s) + ln (tc_cwnd s) * hs_dec2 (tc_hstcp s)"

definition increase_param :: "tcp_agent \<Rightarrow> real \<times> tcp_agent" where
  "increase_param s =
     (let c = tc_cfg s; h = tc_hstcp s; cwnd = tc_cwnd s in
      if cwnd \<le> of_int (cf_low_window c) then (1 / cwnd, s)
      else if cwnd \<ge> hs_cwnd_last h \<and> cwnd < hs_cwnd_last h + of_int (cf_cwnd_range c)
      then (hs_increase_last h / cwnd, s)
      else
        let p = exp (hs_p1 h + ln cwnd * hs_p2 h);
            decrease = decrease_param s;
            increase = cwnd * cwnd * p / (1 / decrease - 0.5)
        in (increase / cwnd, s\<lparr>tc_hstcp := h\<lparr>hs_cwnd_last := cwnd, hs_increase_last := increase\<rparr>\<rparr>))"

definition lldct_weight :: "tcp_agent \<Rightarrow> real" where
  "lldct_weight s =
     (let c = tc_cfg s; n = of_int (tc_ndatabytes s) in
      if n \<le> cf_lldct_size_min c then cf_lldct_w_max c
      else if n \<ge> cf_lldct_size_max c then cf_lldct_w_min c
      else cf_lldct_w_max c - (n - cf_lldct_size_min c) * (cf_lldct_w_max c - cf_lldct_w_min c)
             / (cf_lldct_size_max c - cf_lldct_size_min c))"

definition is_opencwnd_adjustment_enabled :: "tcp_agent \<Rightarrow> bool" where
  "is_opencwnd_adjustment_enabled s =
     (cf_ecnhat_enable_beta (tc_cfg s) \<or> sender_opencwnd_enabled (send_tracker s))"

definition opencwnd_multiplier :: "tcp_agent \<Rightarrow> (real \<times> tcp_agent) res" where
  "opencwnd_multiplier s =
     (if cf_ecnhat_enable_beta (tc_cfg s) then Inr (tc_ecnhat_beta s, s)
      else if send_tracker s = TcpFriendlyEcnhatSender then
        let m = of_int (drop_bit (cf_T_SRTT_BITS (tc_cfg s)) (tc_t_srtt s)) * cf_tcp_tick (tc_cfg s) / 0.0004
        in Inr (m, s\<lparr>tc_ecnhat_send := (tc_ecnhat_send s)\<lparr>eh_tcp_friendly_increase := m\<rparr>\<rparr>)
      else Inl (LogicError ''Opencwnd adjustment is disabled!''))"

text \<open>The window increase algorithms that accumulate a fraction in \<open>fcnt_\<close>.\<close>

definition accumulate :: "real \<Rightarrow> tcp_agent \<Rightarrow> tcp_agent" where
  "accumulate f s =
     (if f + tc_fcnt s > tc_cwnd s then s\<lparr>tc_fcnt := 0, tc_cwnd := tc_cwnd s + 1\<rparr>
      else s\<lparr>tc_fcnt := f + tc_fcnt s\<rparr>)"

definition cwnd_add_limited :: "real \<Rightarrow> tcp_agent \<Rightarrow> tcp_agent" where
  "cwnd_add_limited increment s =
     (let inc = (if (tc_last_cwnd_action s = CWA_NONE \<or> tc_last_cwnd_action s = CWA_TIMEOUT)
                    \<and> cf_max_ssthresh (tc_cfg s) > 0
                 then limited_slow_start (tc_cwnd s) (cf_max_ssthresh (tc_cfg s)) increment
                 else increment)
      in s\<lparr>tc_cwnd := tc_cwnd s + inc\<rparr>)"

definition opencwnd_linear :: "tcp_agent \<Rightarrow> tcp_agent res" where
  "opencwnd_linear s =
     (let c = tc_cfg s; opt = cf_wnd_option c;
          srtt_s = of_int (drop_bit (cf_T_SRTT_BITS c) (tc_t_srtt s)) * cf_tcp_tick c in
      if opt = 0 then
        (let c1 = tc_count s + 1; c2 = (if cf_lldct c then c1 + 1 else c1) in
         if cf_lldct c \<and> of_int c1 * tc_lldct_w_c s / cf_lldct_w_max c \<ge> tc_cwnd s
         then Inr (s\<lparr>tc_count := 0, tc_cwnd := tc_cwnd s + 1\<rparr>)
         else if of_int c2 \<ge> tc_cwnd s then Inr (s\<lparr>tc_count := 0, tc_cwnd := tc_cwnd s + 1\<rparr>)
         else Inr (s\<lparr>tc_count := c2\<rparr>))
      else if opt = 1 then
        (if is_opencwnd_adjustment_enabled s
         then res_bind (opencwnd_multiplier s) (\<lambda>(m, s1). Inr (cwnd_add_limited (m / tc_cwnd s1) s1))
         else Inr (cwnd_add_limited (tc_increase_num s / tc_cwnd s) s))
      else if opt = 2 then Inr (accumulate (srtt_s * srtt_s * cf_wnd_const c) s)
      else if opt = 3 then Inr (accumulate (tc_awnd s * tc_awnd s * cf_wnd_const c) s)
      else if opt = 4 then Inr (accumulate (tc_awnd s * cf_wnd_const c) s)
      else if opt = 5 then Inr (accumulate (srtt_s * cf_wnd_const c) s)
      else if opt = 6 then
        Inr (s\<lparr>tc_cwnd := tc_cwnd s + tc_increase_num s / (tc_cwnd s * c_pow (tc_cwnd s) (cf_k_parameter c))\<rparr>)
      else if opt = 8 then
        (case increase_param s of (inc, s1) \<Rightarrow> Inr (cwnd_add_limited inc s1))
      else Inl Abort)"

definition opencwnd :: "tcp_agent \<Rightarrow> tcp_agent res" where
  "opencwnd s =
     res_bind
       (if tc_cwnd s < of_int (tc_ssthresh s) then
          Inr (if cf_ecnhat_enable_beta (tc_cfg s) then s\<lparr>tc_cwnd := tc_cwnd s + tc_ecnhat_beta s / tc_cwnd s\<rparr>
               else s\<lparr>tc_cwnd := tc_cwnd s + 1\<rparr>)
        else
          opencwnd_linear
            (if cf_lldct (tc_cfg s)
             then s\<lparr>tc_lldct_w_c := lldct_weight s, tc_increase_num := lldct_weight s / cf_lldct_w_max (tc_cfg s)\<rparr>
             else s))
       (\<lambda>s1. let m = cf_maxcwnd (tc_cfg s1)
             in Inr (if m \<noteq> 0 \<and> trunc (tc_cwnd s1) > m then s1\<lparr>tc_cwnd := of_int m\<rparr> else s1))"

section \<open>Closing the congestion window\<close>

text \<open>\<open>TcpAgent::slowdown\<close>. What the virtual methods \<open>window\<close> and \<open>windowd\<close> return are the arguments \<open>w\<close> and \<open>wd\<close>.
  The first part computes the windows \<open>halfwin\<close>, \<open>decreasewin\<close> and \<open>win\<close>.\<close>

definition slowdown_windows :: "int \<Rightarrow> real \<Rightarrow> tcp_agent \<Rightarrow> (real \<times> real \<times> real) \<times> tcp_agent" where
  "slowdown_windows w wd s =
     (let c = tc_cfg s;
          hs = (cf_wnd_option c = 8 \<and> tc_cwnd s > of_int (cf_low_window c));
          s1 = s\<lparr>tc_decrease_num := (if cf_wnd_option c \<noteq> 6 \<and> hs then decrease_param s else tc_decrease_num s)\<rparr>
      in if cf_precision_reduce c then
           ((wd / 2,
             if cf_wnd_option c = 6 then wd - (1 - tc_decrease_num s) * c_pow wd (cf_l_parameter c)
             else if hs then wd - decrease_param s * wd
             else tc_decrease_num s * wd,
             wd), s1)
         else
           ((of_int (w sdiv 2),
             of_int
               (if cf_wnd_option c = 6
                then trunc (of_int w - (1 - tc_decrease_num s) * c_pow (of_int w) (cf_l_parameter c))
                else if hs then trunc (wd - decrease_param s * wd)
                else trunc (tc_decrease_num s * of_int w)),
             of_int w), s1))"

text \<open>The new \<open>ssthresh_\<close> and \<open>cwnd_\<close>, where \<open>b\<close> is the DCTCP penalty.\<close>

definition slowdown_ssthresh :: "real \<Rightarrow> TcpSlowdownFlag set \<Rightarrow> real \<Rightarrow> bool \<Rightarrow> real \<Rightarrow> real \<Rightarrow> tcp_agent \<Rightarrow> int" where
  "slowdown_ssthresh wd how b slowstart halfwin decreasewin s =
     (if SSTHRESH_HALF \<in> how then
        (if tc_first_decrease s \<or> slowstart \<or> tc_last_cwnd_action s = CWA_TIMEOUT then trunc halfwin
         else trunc decreasewin)
      else if SSTHRESH_ECNHAT \<in> how then trunc ((1 - b / 2) * wd)
      else if SSTHRESH_THREE_QUATER \<in> how then
        (if of_int (tc_ssthresh s) < 3 * tc_cwnd s / 4 then trunc (3 * tc_cwnd s / 4) else tc_ssthresh s)
      else tc_ssthresh s)"

definition slowdown_cwnd ::
  "real \<Rightarrow> TcpSlowdownFlag set \<Rightarrow> real \<Rightarrow> bool \<Rightarrow> real \<Rightarrow> real \<Rightarrow> real \<Rightarrow> tcp_agent \<Rightarrow> real" where
  "slowdown_cwnd wd how b slowstart halfwin decreasewin win s =
     (if CWND_HALF \<in> how then
        (if tc_first_decrease s \<or> slowstart \<or> tc_decrease_num s = 0.5 then halfwin else decreasewin)
      else if CWND_ECNHAT \<in> how then (let w = (1 - b / 2) * wd in if w < 1 then 1 else w)
      else if CWND_HALF_WITH_MIN \<in> how then (if decreasewin < 1 then 1 else decreasewin)
      else if CWND_RESTART \<in> how then of_int (trunc (tc_wnd_restart s))
      else if CWND_INIT \<in> how then of_int (trunc (tc_wnd_init s))
      else if CWND_ONE \<in> how then 1
      else if CWND_HALF_WAY \<in> how then
        (let w = of_int (tc_W_used s) + tc_decrease_num s * (win - of_int (tc_W_used s)) in if w < 1 then 1 else w)
      else tc_cwnd s)"

definition slowdown_by :: "int \<Rightarrow> real \<Rightarrow> real \<Rightarrow> TcpSlowdownFlag set \<Rightarrow> tcp_agent \<Rightarrow> tcp_agent" where
  "slowdown_by w wd b how s =
     (let slowstart = tc_cwnd s < of_int (tc_ssthresh s) in
      (case slowdown_windows w wd s of ((halfwin, decreasewin, win), s1) \<Rightarrow>
         let ssthresh = slowdown_ssthresh wd how b slowstart halfwin decreasewin s1;
             cwnd = slowdown_cwnd wd how b slowstart halfwin decreasewin win s1
         in s1\<lparr>tc_ssthresh := (if ssthresh < 2 then 2 else ssthresh),
               tc_cwnd := (if cwnd < 1 then 1 else cwnd),
               tc_cong_action :=
                 (how \<inter> {CWND_HALF, CWND_RESTART, CWND_INIT, CWND_ONE, CWND_ECNHAT} \<noteq> {} \<or> tc_cong_action s1),
               tc_fcnt := 0, tc_count := 0, tc_first_decrease := False\<rparr>))"

definition count_cut :: "TcpSlowdownFlag set \<Rightarrow> tcp_agent \<Rightarrow> tcp_agent" where
  "count_cut how s =
     (let s1 = s\<lparr>tc_ncwndcuts := tc_ncwndcuts s + 1\<rparr>
      in if TCP_IDLE \<notin> how \<and> NO_OUTSTANDING_DATA \<notin> how then s1\<lparr>tc_ncwndcuts1 := tc_ncwndcuts1 s1 + 1\<rparr> else s1)"

definition tcp_slowdown :: "int \<Rightarrow> real \<Rightarrow> TcpSlowdownFlag set \<Rightarrow> tcp_agent \<Rightarrow> tcp_agent" where
  "tcp_slowdown w wd how s =
     (let s1 = count_cut how s; b = dctcp_alpha (send_tracker s1) (tc_ecnhat_send s1)
      in if cf_lldct (tc_cfg s1)
         then slowdown_by w wd (c_pow b (lldct_weight s1)) how (s1\<lparr>tc_lldct_w_c := lldct_weight s1\<rparr>)
         else slowdown_by w wd b how s1)"

text \<open>\<open>DDTcpAgent::slowdown\<close>: the penalty depends on the deadline; the rest of its text is that of \<open>TcpAgent::slowdown\<close>.
  A division by a remaining time of zero gives an infinity, which the two bounds on \<open>d\<close> cut off, or, for \<open>0 / 0\<close>,
  a NaN, with which every comparison is false.\<close>

definition dd_penalty :: "tcp_agent \<Rightarrow> real" where
  "dd_penalty s =
     (let penalty = dctcp_alpha (send_tracker s) (tc_ecnhat_send s) in
      if tc_deadline s \<noteq> 0 then
        let tleft0 = of_int (tc_deadline s) / 10 ^ 6 - (tc_now s - tc_start_time s);
            tleft = (if tleft0 < 0 then 10 ^ 10 else tleft0);
            rtt = of_int (drop_bit (cf_T_SRTT_BITS (tc_cfg s)) (tc_t_srtt s)) * cf_tcp_tick (tc_cfg s);
            rest = tc_curseq s - tc_highest_ack s - rq_total (tc_sq s);
            Tc = of_int rest / (0.75 * tc_cwnd s * of_int (tc_maxseg s)) * rtt;
            d0 = (if tleft = 0 then (if Tc > 0 then 3 else 0) else Tc / tleft);
            d1 = (if d0 > 2 then 2 else d0); d = (if d1 < 0.5 then 0.5 else d1)
        in if tleft = 0 \<and> Tc = 0 then penalty else if d \<ge> 0 then c_pow penalty d else penalty
      else if penalty > 0 then 1 else penalty)"

definition slowdown :: "TcpSlowdownFlag set \<Rightarrow> tcp_agent \<Rightarrow> tcp_agent" where
  "slowdown how s =
     (if cf_class (tc_cfg s) = DDTcpAgent
      then (let s1 = count_cut how s in slowdown_by (window s) (windowd s) (dd_penalty s1) how s1)
      else tcp_slowdown (window s) (windowd s) how s)"

section \<open>Resetting\<close>

definition reset_qoption :: "tcp_agent \<Rightarrow> qoption \<Rightarrow> qoption" where
  "reset_qoption s q =
     q\<lparr>q_T_start := trunc (tc_now s / cf_tcp_tick (tc_cfg s) + 0.5), q_RTT_count := 0, q_RTT_prev := 0,
       q_RTT_goodcount := 1, q_F_counting := 0, q_W_timed := -1, q_F_full := 0, q_Backoffs := 0\<rparr>"

definition hstcp_reset :: "full_cfg \<Rightarrow> hstcp \<Rightarrow> hstcp" where
  "hstcp_reset c h =
     (let low = of_int (cf_low_window c); low_p = 1.5 / (low * low);
          highLowWin = ln (of_int (cf_high_window c)) - ln low;
          highLowP = ln (cf_high_p c) - ln low_p
      in h\<lparr>hs_low_p := low_p,
           hs_dec1 := 0.5 - ln low * (cf_high_decrease c - 0.5) / highLowWin,
           hs_dec2 := (cf_high_decrease c - 0.5) / highLowWin,
           hs_p1 := ln low_p - ln low * highLowP / highLowWin,
           hs_p2 := highLowP / highLowWin\<rparr>)"

text \<open>\<open>TcpAgent::reset\<close>: the variables of the connection, the counters and timers, and the state of the options.\<close>

definition reset_connection :: "tcp_agent \<Rightarrow> tcp_agent" where
  "reset_connection s =
     (let c = tc_cfg s; w = trunc (cf_wnd c) in
      s\<lparr>tc_t_seqno := 0, tc_maxseq := -1, tc_last_ack := -1, tc_highest_ack := -1,
        tc_ssthresh := (if cf_max_ssthresh c > 0 \<and> cf_max_ssthresh c < w then cf_max_ssthresh c else w),
        tc_wnd_restart := 1, tc_awnd := tc_wnd_init s / 2, tc_recover := 0, tc_closed := False, tc_last_cwnd_action := CWA_NONE\<rparr>)"

definition reset_counters :: "tcp_agent \<Rightarrow> tcp_agent" where
  "reset_counters s =
     (case random_uniform (cf_tcp_tick (tc_cfg s)) s of (boot, s1) \<Rightarrow>
        cancel_timers (s1\<lparr>tc_boot_time := boot, tc_first_decrease := True, tc_lastreset := tc_now s1,
          tc_ndatapack := 0, tc_ndatabytes := 0, tc_nackpack := 0, tc_nrexmitbytes := 0, tc_nrexmit := 0,
          tc_nrexmitpack := 0, tc_ncwndcuts := 0, tc_ncwndcuts1 := 0\<rparr>))"

definition reset_options :: "tcp_agent \<Rightarrow> tcp_agent" where
  "reset_options s =
     (let c = tc_cfg s;
          s1 = (if cf_control_increase c then s\<lparr>tc_prev_highest_ack := tc_highest_ack s\<rparr> else s);
          s2 = (if cf_wnd_option c = 8 then s1\<lparr>tc_hstcp := hstcp_reset c (tc_hstcp s1)\<rparr> else s1);
          now = trunc (tc_now s2 / cf_tcp_tick c + 0.5)
      in if cf_QOption c then
           s2\<lparr>tc_W_used := 0,
              tc_q := (let q = (tc_q s2)\<lparr>q_T_last := now, q_T_prev := now\<rparr>
                       in if cf_EnblRTTCtr c then reset_qoption s2 q else q)\<rparr>
         else s2)"

definition tcp_reset :: "tcp_agent \<Rightarrow> tcp_agent res" where
  "tcp_reset s =
     res_bind (set_initial_window ((rtt_init s)\<lparr>tc_rtt_seq := -1, tc_dupacks := 0, tc_curseq := 0\<rparr>))
       (\<lambda>s1. Inr (reset_options (reset_counters (reset_connection s1))))"

definition full_reset_rest :: "tcp_agent \<Rightarrow> tcp_agent" where
  "full_reset_rest s =
     (let c = tc_cfg s;
          s1 = rtt_init (s\<lparr>tc_rq := rq_clear (tc_rq s)\<rparr>);
          s2 = set_rcv_nxt (-1) (s1\<lparr>tc_last_ack_sent := -1, tc_flow_remaining := -1\<rparr>)
      in s2\<lparr>tc_pipe := 0, tc_rtxbytes := 0,
             tc_TF_ACKNOW := False, tc_TF_DELACK := False, tc_TF_RCVD_TSTMP := False, tc_TF_NEEDFIN := False,
             tc_TF_NEEDCLOSE := False,
             tc_t_seqno := cf_iss c, tc_maxseq := -1, tc_irs := -1, tc_last_send_time := -1,
             tc_recent := (if cf_ts_option c then 0 else -1),
             tc_recent_age := (if cf_ts_option c then 0 else -1),
             tc_fastrecov := False, tc_closed := False, tc_close_on_empty := False,
             tc_ecn_syn_next := cf_ecn_syn c,
             tc_prob_mode := False, tc_prob_count := 0, tc_last_sqtotal := 0, tc_deadline := 0,
             tc_early_terminated := False\<rparr>)"

definition full_reset :: "tcp_agent \<Rightarrow> tcp_agent res" where
  "full_reset s = res_bind (tcp_reset (cancel_timers s)) (\<lambda>s1. Inr (full_reset_rest s1))"

definition reset :: "tcp_agent \<Rightarrow> tcp_agent res" where
  "reset s =
     (if is_sack (cf_class (tc_cfg s))
      then full_reset (s\<lparr>tc_sq := (rq_clear (tc_sq s))\<lparr>rq_rcv_nxt := -1\<rparr>, tc_h_seqno := -1\<rparr>)
      else full_reset s)"

end
