(* ===== verification/TcpOutput.thy ===== *)
theory TcpOutput
  imports TcpBase
begin

text \<open>
  The sending side of the full TCP agent (\<open>tcp/tcp-full.cc\<close>): the priority that a packet carries, the ECN
  bits it gets, \<open>sendpacket\<close>, \<open>foutput\<close>, which decides whether and what to send, and \<open>send_much\<close>, which repeats it as long
  as the window or the SACK pipe allows.
\<close>

section \<open>Priorities\<close>

definition get_num_bytes_remaining :: "tcp_agent \<Rightarrow> int" where
  "get_num_bytes_remaining s =
     (let c = cf_class (tc_cfg s); n = tc_curseq s - tc_highest_ack s in
      if c = DDTcpAgent then n - rq_total (tc_sq s)
      else if is_sack c then n - rq_total (tc_sq s) - window s * tc_maxseg s
      else n - window s * tc_maxseg s)"

definition full_unbounded_priority :: "int \<Rightarrow> int \<Rightarrow> tcp_agent \<Rightarrow> (int \<times> tcp_agent) res" where
  "full_unbounded_priority seq mseq s =
     (let mx = 100 * 1460 in
      (case cf_prio_scheme (tc_cfg s) of
         CAPPED_BYTES_SENT \<Rightarrow> Inr (if seq - tc_startseq s > mx then mx else seq - tc_startseq s, s)
       | REMAINING_SIZE \<Rightarrow> Inr (mseq - seq, s)
       | LAZY_REMAINING_SIZE \<Rightarrow> Inr (if tc_signal_on_empty s then mseq - seq else get_lowest_priority, s)
       | LAZY_REMAINING_SIZE_BYTES_SENT \<Rightarrow>
           Inr (if tc_signal_on_empty s then mseq - seq else get_lowest_priority + seq - tc_startseq s, s)
       | FLOW_SIZE \<Rightarrow> Inr (mseq - tc_startseq s, s)
       | BYTES_SENT \<Rightarrow> Inr (seq - tc_startseq s, s)
       | BATCHED_REMAINING_SIZE \<Rightarrow>
           (let s1 = (if seq \<ge> tc_seq_bound s
                      then s\<lparr>tc_seq_bound := tc_maxseq s,
                             tc_last_prio := (if mseq - seq + 10 < 0 then 0 else mseq - seq + 10)\<rparr>
                      else s)
            in Inr (tc_last_prio s1, s1))
       | UNKNOWN \<Rightarrow> Inl Abort))"

definition sack_remaining :: "int \<Rightarrow> tcp_agent \<Rightarrow> int" where
  "sack_remaining mseq s =
     (let r = mseq - tc_highest_ack s - rq_total (tc_sq s) + 10 in if r < 0 then 0 else r)"

definition sack_unbounded_priority :: "int \<Rightarrow> int \<Rightarrow> tcp_agent \<Rightarrow> (int \<times> tcp_agent) res" where
  "sack_unbounded_priority seq mseq s =
     (let mx = 100 * 1460 in
      (case cf_prio_scheme (tc_cfg s) of
         CAPPED_BYTES_SENT \<Rightarrow> Inr (if seq - tc_startseq s > mx then mx else seq - tc_startseq s, s)
       | REMAINING_SIZE \<Rightarrow> Inr (sack_remaining mseq s, s)
       | LAZY_REMAINING_SIZE_BYTES_SENT \<Rightarrow>
           Inr (if \<not> tc_signal_on_empty s then get_lowest_priority + seq - tc_startseq s else sack_remaining mseq s, s)
       | LAZY_REMAINING_SIZE \<Rightarrow>
           Inr (if \<not> tc_signal_on_empty s then get_lowest_priority else sack_remaining mseq s, s)
       | FLOW_SIZE \<Rightarrow> Inr (mseq - tc_startseq s, s)
       | BYTES_SENT \<Rightarrow> Inr (seq - tc_startseq s, s)
       | BATCHED_REMAINING_SIZE \<Rightarrow>
           (let s1 = (if tc_highest_ack s \<ge> tc_seq_bound s
                      then s\<lparr>tc_seq_bound := tc_maxseq s, tc_last_prio := sack_remaining mseq s\<rparr>
                      else s)
            in Inr (tc_last_prio s1, s1))
       | UNKNOWN \<Rightarrow> Inl Abort))"

definition calc_unbounded_no_deadline_priority :: "int \<Rightarrow> int \<Rightarrow> tcp_agent \<Rightarrow> (int \<times> tcp_agent) res" where
  "calc_unbounded_no_deadline_priority seq mseq s =
     (let c = cf_class (tc_cfg s) in
      if c = DDTcpAgent then
        (if cf_prio_scheme (tc_cfg s) \<noteq> UNKNOWN then Inr (get_lowest_priority, s)
         else sack_unbounded_priority seq mseq s)
      else if is_sack c then sack_unbounded_priority seq mseq s
      else full_unbounded_priority seq mseq s)"

text \<open>The first class \<open>i\<close> from 1 on whose limit is not exceeded, less one.\<close>

definition into_bounded_priority :: "full_cfg \<Rightarrow> int \<Rightarrow> int" where
  "into_bounded_priority c prio =
     (let n = cf_prio_num c in
      if n \<noteq> 2 \<and> n \<noteq> 4 \<and> n \<noteq> 8 then 0
      else (case find (\<lambda>i. prio \<le> cf_prio_cap c ! nat (i * 8 sdiv n - 1)) [1..n - 1] of
              Some i \<Rightarrow> i - 1
            | None \<Rightarrow> n - 1))"

definition calc_no_deadline_priority :: "int \<Rightarrow> int \<Rightarrow> tcp_agent \<Rightarrow> (int \<times> tcp_agent) res" where
  "calc_no_deadline_priority seq mseq s =
     res_bind (calc_unbounded_no_deadline_priority seq mseq s) (\<lambda>(prio, s1).
       Inr (if cf_prio_num (tc_cfg s1) = 0 then prio else into_bounded_priority (tc_cfg s1) prio, s1))"

definition piasPrio :: "int \<Rightarrow> tcp_agent \<Rightarrow> int \<times> tcp_agent" where
  "piasPrio bytes_sent s =
     (if cf_enable_pias (tc_cfg s) \<and> tc_pias_prio_num s \<ge> 1 then
        let n = min (tc_pias_prio_num s) 8;
            i = (case find (\<lambda>i. bytes_sent \<le> cf_pias_thresh (tc_cfg s) ! nat i) [0..n - 2] of
                   Some i \<Rightarrow> i | None \<Rightarrow> n - 1)
        in (i, s\<lparr>tc_pias_prio_num := n\<rparr>)
      else (0, s))"

definition calc_pias_priority :: "int \<Rightarrow> int \<Rightarrow> tcp_agent \<Rightarrow> int \<times> tcp_agent" where
  "calc_pias_priority seqno datalen s = (if datalen > 0 then piasPrio (seqno - tc_startseq s) s else (0, s))"

definition get_expiration_time_us :: "tcp_agent \<Rightarrow> int" where
  "get_expiration_time_us s = tc_deadline s + trunc (tc_start_time s * 10 ^ 6)"

definition calc_deadline_priority :: "tcp_agent \<Rightarrow> int" where
  "calc_deadline_priority s =
     (let tleft_us = tc_deadline s - trunc ((tc_now s - tc_start_time s) * 10 ^ 6) in
      if tleft_us < 0 \<or>
         of_int (get_num_bytes_remaining s) * 8 / (of_int (cf_link_rate (tc_cfg s)) * 10 ^ 3) > (of_int tleft_us :: real)
      then get_lowest_priority
      else get_expiration_time_us s)"

section \<open>ECN bits of outgoing packets\<close>

definition is_some_syn :: "int \<Rightarrow> bool" where
  "is_some_syn pflags = contains_all pflags TH_SYN"

definition is_syn_ack :: "int \<Rightarrow> bool" where
  "is_syn_ack pflags = contains_all pflags (TH_SYN OR TH_ACK)"

definition is_syn :: "int \<Rightarrow> bool" where
  "is_syn pflags = (is_some_syn pflags \<and> \<not> is_syn_ack pflags)"

definition need_to_attach_cong_action :: "bool \<Rightarrow> tcp_agent \<Rightarrow> bool" where
  "need_to_attach_cong_action is_retransmit s =
     (tc_cong_action s \<and> (\<not> is_retransmit \<or> cf_SetCWRonRetransmit (tc_cfg s)))"

definition set_ce_if_needed :: "int \<Rightarrow> tcp_agent \<Rightarrow> int" where
  "set_ce_if_needed pflags s =
     (if cf_ecn (tc_cfg s) \<and> tc_ect s \<and> need_ce_echo (tc_recv_tracker s) then pflags OR TH_ECE else pflags)"

definition modify_pflags_on_foutput :: "int \<Rightarrow> bool \<Rightarrow> tcp_agent \<Rightarrow> int \<times> tcp_agent" where
  "modify_pflags_on_foutput pflags is_retransmit s =
     (if \<not> cf_ecn (tc_cfg s) then (pflags, s)
      else
        let (pflags1, s1) =
          (if is_some_syn pflags then
             (if is_syn pflags then (pflags OR TH_ECE OR TH_CWR, s)
              else if is_syn_ack pflags then ((pflags OR TH_ECE) AND NOT TH_CWR, s)
              else (pflags, s))
           else if tc_ect s \<and> need_to_attach_cong_action is_retransmit s
           then (pflags OR TH_CWR, s\<lparr>tc_cong_action := False\<rparr>)
           else (pflags, s))
        in (set_ce_if_needed pflags1 s1, s1))"

definition get_next_packet_ect :: "bool \<Rightarrow> bool \<Rightarrow> tcp_agent \<Rightarrow> bool" where
  "get_next_packet_ect has_data syn_ack s =
     (if always_report_ect (send_tracker s) then tc_ect s
      else if \<not> cf_ecn (tc_cfg s) then False
      else if has_data \<or> (cf_ecn_syn (tc_cfg s) \<and> tc_ecn_syn_next s \<and> syn_ack) then tc_ect s
      else False)"

definition copy_to_hdr_flags :: "int \<Rightarrow> tcp_agent \<Rightarrow> hdr_flags \<Rightarrow> hdr_flags" where
  "copy_to_hdr_flags pflags s fh =
     (if contains_all pflags TH_ECE then ce_set_packet_echo (recv_tracker_kind s) (tc_recv_tracker s) fh
      else fh\<lparr>fl_ecnecho := False\<rparr>)\<lparr>fl_cong_action := contains_all pflags TH_CWR\<rparr>"

definition inform_pacer_if_needed :: "bool \<Rightarrow> hdr_ip \<Rightarrow> tcp_agent \<Rightarrow> hdr_ip \<times> tcp_agent" where
  "inform_pacer_if_needed has_data iph s =
     (if \<not> has_data then (iph, s)
      else (iph\<lparr>ip_gotecnecho := tc_informpacer s\<rparr>, s\<lparr>tc_informpacer := False\<rparr>))"

definition on_sendpacket :: "int \<Rightarrow> packet \<Rightarrow> bool \<Rightarrow> tcp_agent \<Rightarrow> packet \<times> tcp_agent" where
  "on_sendpacket pflags p has_data s =
     (let fh = (pk_flags p)\<lparr>fl_ect := get_next_packet_ect has_data (is_syn_ack pflags) s\<rparr>;
          fh1 = copy_to_hdr_flags (set_ce_if_needed pflags s) s fh;
          (iph, s1) = inform_pacer_if_needed has_data (pk_ip p) s
      in (p\<lparr>pk_flags := fh1, pk_ip := iph\<rparr>, s1))"

section \<open>Building and sending a packet\<close>

definition headersize :: "tcp_agent \<Rightarrow> int" where
  "headersize s = cf_tcpip_base_hdr_size (tc_cfg s) + (if cf_ts_option (tc_cfg s) then cf_ts_option_size (tc_cfg s) else 0)"

definition hdrsize :: "int \<Rightarrow> tcp_agent \<Rightarrow> int" where
  "hdrsize nsackblocks s =
     headersize s + (if nsackblocks > 0 then nsackblocks * cf_sack_block_size (tc_cfg s) + cf_sack_option_size (tc_cfg s)
                     else 0)"

definition outflags :: "TcpState \<Rightarrow> int" where
  "outflags st =
     (case st of CLOSED \<Rightarrow> TH_ACK | LISTEN \<Rightarrow> 0 | SYN_SENT \<Rightarrow> TH_SYN | SYN_RECEIVED \<Rightarrow> TH_SYN OR TH_ACK
      | ESTABLISHED \<Rightarrow> TH_ACK | CLOSE_WAIT \<Rightarrow> TH_ACK | FIN_WAIT_1 \<Rightarrow> TH_FIN OR TH_ACK
      | CLOSING \<Rightarrow> TH_FIN OR TH_ACK | LAST_ACK \<Rightarrow> TH_FIN OR TH_ACK | FIN_WAIT_2 \<Rightarrow> TH_ACK)"

definition full_build_options :: "tcp_agent \<Rightarrow> hdr_tcp \<Rightarrow> int \<times> hdr_tcp" where
  "full_build_options s h =
     (if cf_ts_option (tc_cfg s)
      then (cf_ts_option_size (tc_cfg s), h\<lparr>tcp_ts := tc_now s, tcp_ts_echo := tc_recent s\<rparr>)
      else (0, h\<lparr>tcp_ts := -1, tcp_ts_echo := -1\<rparr>))"

definition build_options :: "tcp_agent \<Rightarrow> hdr_tcp \<Rightarrow> int \<times> hdr_tcp" where
  "build_options s h =
     (if is_sack (cf_class (tc_cfg s)) then
        (case full_build_options s h of (opts, h1) \<Rightarrow>
           if \<not> rq_empty (tc_rq s) then
             let blks = gensack (tc_rq s) (cf_max_sack_blocks (tc_cfg s))
             in (opts + int (length blks) * cf_sack_block_size (tc_cfg s) + cf_sack_option_size (tc_cfg s),
                 h1\<lparr>tcp_sack_area := blks\<rparr>)
           else (opts, h1\<lparr>tcp_sack_area := []\<rparr>))
      else full_build_options s h)"

definition allocpkt :: "tcp_agent \<Rightarrow> packet \<times> tcp_agent" where
  "allocpkt s =
     ((packet_init (tc_npkts s))
        \<lparr>pk_size := cf_size (tc_cfg s),
         pk_ip := hdr_ip0\<lparr>ip_saddr := cf_addr (tc_cfg s), ip_daddr := cf_daddr (tc_cfg s), ip_fid := tc_fid s,
                          ip_prio := cf_prio (tc_cfg s)\<rparr>\<rparr>,
      s\<lparr>tc_npkts := tc_npkts s + 1\<rparr>)"

definition packet_priority :: "int \<Rightarrow> int \<Rightarrow> int \<Rightarrow> tcp_agent \<Rightarrow> (int \<times> tcp_agent) res" where
  "packet_priority seqno datalen prio s =
     (if cf_enable_pias (tc_cfg s) then Inr (calc_pias_priority seqno datalen s)
      else if datalen > 0 then
        (if tc_deadline s \<noteq> 0 \<and> cf_use_deadline (tc_cfg s) then Inr (calc_deadline_priority s, s)
         else calc_no_deadline_priority seqno
           (if cf_use_true_remaining_size (tc_cfg s) \<and> cf_true_flow_size (tc_cfg s) \<ge> 0
            then tc_startseq s + cf_true_flow_size (tc_cfg s) else tc_curseq s) s)
      else Inr (prio, s))"

definition sendpacket :: "int \<Rightarrow> int \<Rightarrow> int \<Rightarrow> int \<Rightarrow> TcpXmissionReason \<Rightarrow> tcp_agent \<Rightarrow> tcp_agent res" where
  "sendpacket seqno ackno pflags datalen reason s =
     (let (p, s1) = allocpkt s;
          (optlen, h) = build_options s1 ((pk_tcp p)\<lparr>tcp_seqno := seqno, tcp_ackno := ackno, tcp_flags := pflags,
             tcp_reason := reason, tcp_sack_area := []\<rparr>);
          hlen = cf_tcpip_base_hdr_size (tc_cfg s1) + optlen;
          (p1, s2) = on_sendpacket pflags (p\<lparr>pk_tcp := h\<lparr>tcp_hlen := hlen\<rparr>\<rparr>) (datalen > 0) s1;
          p2 = p1\<lparr>pk_size := datalen + hlen\<rparr>;
          s3 = (if datalen \<le> 0 then s2\<lparr>tc_nackpack := tc_nackpack s2 + 1\<rparr>
                else s2\<lparr>tc_ndatapack := tc_ndatapack s2 + 1, tc_ndatabytes := tc_ndatabytes s2 + datalen,
                        tc_last_send_time := tc_now s2\<rparr>);
          s4 = (if reason = TIMEOUT \<or> reason = DUPACK \<or> reason = SACK
                then s3\<lparr>tc_nrexmitpack := tc_nrexmitpack s3 + 1, tc_nrexmitbytes := tc_nrexmitbytes s3 + datalen\<rparr>
                else s3);
          s5 = s4\<lparr>tc_last_ack_sent := ackno\<rparr>
      in res_bind (packet_priority seqno datalen (ip_prio (pk_ip p2)) s5) (\<lambda>(prio, s6).
           Inr (upcall (Sent (p2\<lparr>pk_ip := (pk_ip p2)\<lparr>ip_prio := prio\<rparr>\<rparr>)) s6)))"

section \<open>Deciding what to send\<close>

definition need_send :: "tcp_agent \<Rightarrow> bool" where
  "need_send s =
     (if cf_class (tc_cfg s) = DDTcpAgent \<and> tc_deadline s \<noteq> 0 \<and>
         of_int (tc_deadline s) / 10 ^ 6 - (tc_now s - tc_start_time s) < 0
      then False
      else tc_TF_ACKNOW s \<or> tc_rcv_nxt s - tc_last_ack_sent s > 0)"

definition idle_restart :: "tcp_agent \<Rightarrow> bool" where
  "idle_restart s =
     (if tc_last_send_time s < 0 then False
      else
        let c = tc_cfg s; tao = tc_now s - tc_last_send_time s;
            tao1 = (if \<not> cf_ts_option c then
                      let tickoff = fmod (tc_last_send_time s + tc_boot_time s) (cf_tcp_tick c)
                      in of_int (trunc ((tao + tickoff) / cf_tcp_tick c)) * cf_tcp_tick c
                    else tao)
        in tao1 > tc_t_rtxcur s)"

definition TCP_MAXSEQ :: int where "TCP_MAXSEQ = 1073741824"

definition probe_window :: "tcp_agent \<Rightarrow> int" where
  "probe_window s = (let win = window s * tc_maxseg s in if tc_prob_mode s \<and> win > 1 then 1 else win)"

text \<open>The bytes buffered from \<open>highest_ack_\<close> on, and the length of the segment at \<open>seqno\<close>.\<close>

definition fo_buffered :: "tcp_agent \<Rightarrow> int" where
  "fo_buffered s =
     (if tc_infinite_send s then TCP_MAXSEQ
      else if tc_highest_ack s < 0 then tc_curseq s - cf_iss (tc_cfg s)
      else tc_curseq s - tc_highest_ack s + 1)"

definition fo_datalen :: "int \<Rightarrow> tcp_agent \<Rightarrow> int" where
  "fo_datalen seqno s =
     (let syn = (seqno = cf_iss (tc_cfg s));
          off = (if tc_highest_ack s < 0 then seqno - cf_iss (tc_cfg s) else seqno - tc_highest_ack s);
          datalen = (if syn \<and> \<not> cf_data_on_syn (tc_cfg s) then 0
                     else if tc_pipectrl s then fo_buffered s - off
                     else min (fo_buffered s) (probe_window s) - off)
      in if datalen < 0 then 0 else if datalen > tc_maxseg s then tc_maxseg s else datalen)"

text \<open>The part of \<open>foutput\<close> before the decision: the signal that the buffer is empty, the restart after an idle
  period, the notice that the buffer empties, and the header flags.\<close>

definition bufferempty :: "tcp_agent \<Rightarrow> tcp_agent" where
  "bufferempty s = upcall DoneData (s\<lparr>tc_signal_on_empty := False\<rparr>)"

definition fo_signal :: "bool \<Rightarrow> tcp_agent \<Rightarrow> tcp_agent" where
  "fo_signal syn s = (if tc_signal_on_empty s \<and> fo_buffered s = 0 \<and> \<not> syn then bufferempty s else s)"

definition fo_restart :: "bool \<Rightarrow> int \<Rightarrow> tcp_agent \<Rightarrow> tcp_agent" where
  "fo_restart quiet datalen s =
     (if cf_slow_start_restart (tc_cfg s) \<and> quiet \<and> datalen > 0 \<and> idle_restart s then slowdown {CWND_INIT} s else s)"

definition fo_emptying :: "int \<Rightarrow> bool \<Rightarrow> int \<Rightarrow> tcp_agent \<Rightarrow> bool" where
  "fo_emptying seqno syn datalen s =
     (\<not> tc_infinite_send s \<and> (seqno + datalen > tc_curseq s \<or> (syn \<and> datalen = 0)))"

definition fo_notice :: "bool \<Rightarrow> bool \<Rightarrow> tcp_agent \<Rightarrow> tcp_agent" where
  "fo_notice syn quiet s =
     (if \<not> syn then
        let s1 = upcall Idle s in (if tc_close_on_empty s1 \<and> quiet then s1\<lparr>tc_TF_NEEDCLOSE := True\<rparr> else s1)
      else s)"

definition fo_pflags :: "bool \<Rightarrow> bool \<Rightarrow> int \<Rightarrow> tcp_agent \<Rightarrow> int" where
  "fo_pflags emptying syn datalen s =
     (let pflags = (if emptying then outflags (tc_state s) OR TH_PUSH else outflags (tc_state s) AND NOT TH_FIN)
      in if tc_infinite_send s \<and> syn \<and> datalen = 0 then pflags OR TH_PUSH else pflags)"

definition fo_prepare :: "int \<Rightarrow> int \<Rightarrow> tcp_agent \<Rightarrow> int \<times> bool \<times> tcp_agent" where
  "fo_prepare seqno datalen s =
     (let syn = (seqno = cf_iss (tc_cfg s));
          quiet = (tc_highest_ack s = tc_maxseq s);
          s1 = fo_restart quiet datalen (fo_signal syn s);
          emptying = fo_emptying seqno syn datalen s1;
          s2 = (if emptying then fo_notice syn quiet s1 else s1)
      in (fo_pflags emptying syn datalen s2, emptying, s2))"

definition fo_wants_send :: "bool \<Rightarrow> bool \<Rightarrow> int \<Rightarrow> bool \<Rightarrow> int \<Rightarrow> tcp_agent \<Rightarrow> bool" where
  "fo_wants_send is_retransmit quiet datalen emptying pflags s =
     ((datalen > 0 \<and>
        (datalen = tc_maxseg s \<or>
         ((quiet \<or> cf_nodelay (tc_cfg s)) \<and> emptying) \<or>
         is_retransmit \<or>
         of_int datalen \<ge> cf_wnd (tc_cfg s) * of_int (tc_maxseg s) / 2 \<or>
         (datalen = 1 \<and> tc_prob_mode s))) \<or>
      need_send s \<or>
      tc_TF_ACKNOW s \<or> tc_TF_NEEDCLOSE s \<or>
      contains_any pflags (TH_SYN OR TH_FIN))"

text \<open>From the label \<open>send\<close> on: the FIN of \<open>close_on_empty_\<close>, the bookkeeping after the packet has been sent, and
  the retransmission timer.\<close>

definition fo_closing :: "tcp_agent \<Rightarrow> bool" where
  "fo_closing s = (tc_TF_NEEDCLOSE s \<and> tc_state s \<le> ESTABLISHED \<and> tc_state s \<noteq> CLOSED)"

definition fo_close :: "tcp_agent \<Rightarrow> tcp_agent" where
  "fo_close s = s\<lparr>tc_TF_NEEDCLOSE := False, tc_state := (if fo_closing s then FIN_WAIT_1 else tc_state s),
     tc_last_eof_time := None\<rparr>"

definition fo_sent :: "int \<Rightarrow> int \<Rightarrow> bool \<Rightarrow> tcp_agent \<Rightarrow> tcp_agent" where
  "fo_sent seqno reliable is_retransmit s =
     (let highest = seqno + reliable;
          s1 = s\<lparr>tc_TF_ACKNOW := False, tc_TF_DELACK := False,
                 tc_delack_timer := timer_force_cancel (tc_delack_timer s)\<rparr>;
          s2 = (if tc_cong_action s1 \<and> reliable > 0 \<and> \<not> is_retransmit then s1\<lparr>tc_cong_action := False\<rparr> else s1);
          s3 = s2\<lparr>tc_ecnhat_send := sender_on_foutput (send_tracker s2) highest (tc_ecnhat_send s2)\<rparr>
      in if highest > tc_maxseq s3 then
           let s4 = s3\<lparr>tc_maxseq := highest\<rparr>
           in (if \<not> cf_ts_option (tc_cfg s4) \<and> \<not> tc_rtt_active s4
               then s4\<lparr>tc_rtt_active := True, tc_rtt_seq := seqno, tc_rtt_ts := tc_now s4\<rparr> else s4)
         else s3)"

definition fo_arm :: "int \<Rightarrow> tcp_agent \<Rightarrow> tcp_agent res" where
  "fo_arm reliable s = (if tm_status (tc_rtx_timer s) \<noteq> PENDING \<and> reliable \<noteq> 0 then set_rtx_timer s else Inr s)"

definition fo_send :: "int \<Rightarrow> TcpXmissionReason \<Rightarrow> int \<Rightarrow> bool \<Rightarrow> int \<Rightarrow> tcp_agent \<Rightarrow> (int \<times> tcp_agent) res" where
  "fo_send seqno reason datalen is_retransmit pflags s =
     (let syn = contains_all pflags TH_SYN;
          fin = contains_all pflags TH_FIN;
          (pflags1, s1) = modify_pflags_on_foutput pflags is_retransmit s;
          pflags2 = (if datalen > 0 \<and> tc_cong_action s1 \<and> \<not> is_retransmit then pflags1 OR TH_CWR else pflags1);
          pflags3 = (if fo_closing s1 then pflags2 OR TH_FIN else pflags2);
          reliable = datalen + of_bool syn + of_bool (fin \<or> fo_closing s1)
      in res_bind (sendpacket seqno (tc_rcv_nxt s1) pflags3 datalen reason (fo_close s1)) (\<lambda>s2.
           res_bind (fo_arm reliable (fo_sent seqno reliable is_retransmit s2)) (\<lambda>s3. Inr (reliable, s3))))"

text \<open>\<open>FullTcpAgent::foutput\<close>, and the override of \<open>DDTcpAgent\<close>, which forgets a deadline that cannot be met.\<close>

definition segment_size :: "tcp_agent \<Rightarrow> int" where
  "segment_size s = (if tc_maxseg s = 0 then cf_size (tc_cfg s) else tc_maxseg s)"

definition with_segsize :: "tcp_agent \<Rightarrow> tcp_agent" where
  "with_segsize s = s\<lparr>tc_maxseg := segment_size s\<rparr>"

definition full_foutput :: "int \<Rightarrow> TcpXmissionReason \<Rightarrow> tcp_agent \<Rightarrow> (int \<times> tcp_agent) res" where
  "full_foutput seqno reason s0 =
     (let s = with_segsize s0;
          is_retransmit = (seqno < tc_maxseq s);
          quiet = (tc_highest_ack s = tc_maxseq s);
          datalen = fo_datalen seqno s;
          (pflags, emptying, s1) = fo_prepare seqno datalen s
      in if fo_wants_send is_retransmit quiet datalen emptying pflags s1
         then fo_send seqno reason datalen is_retransmit pflags s1
         else Inr (0, s1))"

definition dd_hopeless :: "tcp_agent \<Rightarrow> bool" where
  "dd_hopeless s =
     (tc_deadline s \<noteq> 0 \<and>
      of_int (tc_deadline s) / 10 ^ 6 - (tc_now s - tc_start_time s)
        - of_int (tc_curseq s - tc_maxseq s) * 8 / (of_int (cf_link_rate (tc_cfg s)) * 10 ^ 9) < 0)"

definition foutput :: "int \<Rightarrow> TcpXmissionReason \<Rightarrow> tcp_agent \<Rightarrow> (int \<times> tcp_agent) res" where
  "foutput seqno reason s =
     full_foutput seqno reason
       (if cf_class (tc_cfg s) = DDTcpAgent \<and> dd_hopeless s then s\<lparr>tc_deadline := 0\<rparr> else s)"

section \<open>Sending as much as is allowed\<close>

definition sent :: "int \<Rightarrow> int \<Rightarrow> tcp_agent \<Rightarrow> tcp_agent" where
  "sent seq amt s =
     (let s1 = (if is_sack (cf_class (tc_cfg s)) \<and> seq = tc_h_seqno s then s\<lparr>tc_h_seqno := tc_h_seqno s + amt\<rparr> else s);
          s2 = (if seq = tc_t_seqno s1 then s1\<lparr>tc_t_seqno := tc_t_seqno s1 + amt\<rparr> else s1);
          s3 = s2\<lparr>tc_pipe := tc_pipe s2 + amt\<rparr>
      in if seq < tc_maxseq s3 then s3\<lparr>tc_rtxbytes := tc_rtxbytes s3 + amt\<rparr> else s3)"

definition full_send_allowed :: "int \<Rightarrow> tcp_agent \<Rightarrow> bool" where
  "full_send_allowed seq s =
     (let win = probe_window s;
          topwin = (if tc_curseq s > tc_highest_ack s + win \<or> tc_infinite_send s
                    then tc_highest_ack s + win else tc_curseq s)
      in seq < topwin)"

definition send_allowed :: "int \<Rightarrow> tcp_agent \<Rightarrow> bool" where
  "send_allowed seq s =
     (if \<not> is_sack (cf_class (tc_cfg s)) \<or> \<not> tc_pipectrl s then full_send_allowed seq s
      else if seq \<ge> tc_highest_ack s + trunc (cf_wnd (tc_cfg s)) * tc_maxseg s then False
      else if tc_state s \<noteq> ESTABLISHED \<and> seq > tc_curseq s then False
      else tc_pipe s < trunc (tc_cwnd s) * tc_maxseg s)"

text \<open>The loop of \<open>SackFullTcpAgent::nxt_tseq\<close> over the holes. A round that goes on has passed at
  least one sequence number, so there are no more rounds than sequence numbers up to the last block.\<close>

definition hole_ready :: "full_cfg \<Rightarrow> int \<Rightarrow> int \<Rightarrow> bool" where
  "hole_ready c fcnt fbytes =
     (let m = cf_sack_rtx_threshmode c; ct = fcnt \<ge> cf_sack_rtx_cthresh c; bt = fbytes \<ge> cf_sack_rtx_bthresh c in
      m = 0 \<or> (m = 1 \<and> ct) \<or> (m = 2 \<and> bt) \<or> (m = 3 \<and> (ct \<or> bt)) \<or> (m = 4 \<and> ct \<and> bt))"

primrec hole_loop :: "nat \<Rightarrow> int \<Rightarrow> tcp_agent \<Rightarrow> (int \<times> tcp_agent) res" where
  "hole_loop 0 seq0 s = Inl Diverges"
| "hole_loop (Suc n) seq0 s =
     (case nexthole seq0 (tc_sq s) of ((seq, fcnt, fbytes), sq) \<Rightarrow>
        let s1 = s\<lparr>tc_sq := sq\<rparr> in
        if seq > 0 then
          (if hole_ready (tc_cfg s1) fcnt fbytes
           then Inr (seq, if seq > tc_h_seqno s1 then s1\<lparr>tc_h_seqno := seq\<rparr> else s1)
           else if fcnt \<le> 0 then Inr (tc_t_seqno s1, s1)
           else hole_loop n (if cf_prob_cap (tc_cfg s1) \<noteq> 0 then seq + 1 else seq + tc_maxseg s1) s1)
        else Inr (tc_t_seqno s1, s1))"

definition hole_rounds :: "int \<Rightarrow> rq \<Rightarrow> nat" where
  "hole_rounds seq q = nat (Max (set ((seq - 1) # map sg_start (rq_fifo q) @ map sg_end (rq_fifo q))) - seq + 1) + 1"

definition nxt_tseq :: "tcp_agent \<Rightarrow> (int \<times> tcp_agent) res" where
  "nxt_tseq s =
     (if is_sack (cf_class (tc_cfg s)) \<and> tc_highest_ack s < tc_recover s
      then hole_loop (hole_rounds (tc_h_seqno s) (tc_sq s)) (tc_h_seqno s) s
      else Inr (tc_t_seqno s, s))"

text \<open>The loop of \<open>send_much\<close>. A round that goes on has sent at least one sequence number below the
  advertised window, which bounds the rounds.\<close>

primrec send_loop :: "nat \<Rightarrow> bool \<Rightarrow> TcpXmissionReason \<Rightarrow> int \<Rightarrow> int \<Rightarrow> tcp_agent \<Rightarrow> tcp_agent res" where
  "send_loop 0 force reason maxburst npackets s = Inl Diverges"
| "send_loop (Suc n) force reason maxburst npackets s =
     res_bind (nxt_tseq s) (\<lambda>(seq, s1).
       if \<not> force \<and> \<not> send_allowed seq s1 then Inr s1
       else if \<not> force \<and> cf_overhead (tc_cfg s1) \<noteq> 0 \<and> tm_status (tc_delsnd_timer s1) \<noteq> PENDING then
         (case random_uniform (cf_overhead (tc_cfg s1)) s1 of (r, s2) \<Rightarrow>
            Inr (s2\<lparr>tc_delsnd_timer := timer_resched (tc_now s2) r (tc_delsnd_timer s2)\<rparr>))
       else
         res_bind (foutput seq reason s1) (\<lambda>(amt, s2).
           if amt \<le> 0 then Inr s2
           else
             let amt1 = (if contains_all (outflags (tc_state s2)) TH_FIN then amt - 1 else amt);
                 s3 = sent seq amt1 s2
             in if contains_any (outflags (tc_state s3)) (TH_SYN OR TH_FIN) \<or>
                   (maxburst \<noteq> 0 \<and> npackets + 1 \<ge> maxburst) then Inr s3
                else send_loop n False reason maxburst (npackets + 1) s3))"

definition send_rounds :: "tcp_agent \<Rightarrow> nat" where
  "send_rounds s =
     (let top = tc_highest_ack s + trunc (cf_wnd (tc_cfg s)) * segment_size s
      in nat (top - tc_t_seqno s) + nat (top - tc_h_seqno s) + 2)"

definition send_much :: "bool \<Rightarrow> TcpXmissionReason \<Rightarrow> int \<Rightarrow> tcp_agent \<Rightarrow> tcp_agent res" where
  "send_much force reason maxburst s =
     (if \<not> force \<and> tm_status (tc_delsnd_timer s) = PENDING then Inr s
      else send_loop (send_rounds s) force reason maxburst 0 s)"

end
