(* ===== verification/TcpInput.thy ===== *)
theory TcpInput
  imports TcpOutput
begin

text \<open>
  The reactions of the full TCP agent to acknowledgements, congestion marks and timeouts (\<open>tcp/tcp-full.cc\<close>, and
  \<open>EcnProcessor\<close> of \<open>tcp/tcp.cc\<close>): everything that \<open>recv\<close> and the timers call, per class.
\<close>

section \<open>Reactions to congestion marks\<close>

text \<open>The virtual method \<open>slowdown\<close> of the agent is the argument \<open>slow\<close>.\<close>

definition ecn_slowdown :: "(TcpSlowdownFlag set \<Rightarrow> tcp_agent \<Rightarrow> tcp_agent) \<Rightarrow> tcp_agent \<Rightarrow> tcp_agent" where
  "ecn_slowdown slow s =
     (case send_tracker s of
        NormalSender \<Rightarrow> slow {CWND_HALF, SSTHRESH_HALF} s
      | TcpFriendlyEcnhatSender \<Rightarrow>
          (let t = tc_ecnhat_send s; a = eh_alpha t
           in slow {CWND_ECNHAT, SSTHRESH_ECNHAT}
                (s\<lparr>tc_ecnhat_send := t\<lparr>eh_target_wnd := tc_cwnd s,
                     eh_tcp_friendly_increase := (if a = 0 then 0 else 1.5 / (2 / a - 0.5))\<rparr>\<rparr>))
      | _ \<Rightarrow> slow {CWND_ECNHAT, SSTHRESH_ECNHAT} s)"

text \<open>\<open>EcnProcessor::ecn\<close>: at most one reaction per window of data.\<close>

definition ecn :: "(TcpSlowdownFlag set \<Rightarrow> tcp_agent \<Rightarrow> tcp_agent) \<Rightarrow> int \<Rightarrow> tcp_agent \<Rightarrow> tcp_agent res" where
  "ecn slow seqno s =
     (if seqno > tc_recover s \<or> tc_last_cwnd_action s = CWA_TIMEOUT then
        let s1 = s\<lparr>tc_recover := tc_maxseq s, tc_last_cwnd_action := CWA_ECN\<rparr>
        in res_bind
             (if tc_cwnd s1 \<le> 1 then
                (if tc_ecn_backoff s1 then rtt_backoff s1 else Inr (s1\<lparr>tc_ecn_backoff := True\<rparr>))
              else Inr (s1\<lparr>tc_ecn_backoff := False\<rparr>))
             (\<lambda>s2. let s3 = ecn_slowdown slow s2 in Inr (s3\<lparr>tc_necnresponses := tc_necnresponses s3 + 1\<rparr>))
      else Inr s)"

definition tracker_on_receive :: "packet \<Rightarrow> tcp_agent \<Rightarrow> tcp_agent" where
  "tracker_on_receive p s =
     (if send_tracker s = NormalSender then s
      else (case update_ecnhat_alpha (is_ecn_active p s) (tcp_ackno (pk_tcp p)) (tc_highest_ack s)
                   (cf_size (tc_cfg s)) (tc_ecnhat_send s) of
              (t, beta) \<Rightarrow> s\<lparr>tc_ecnhat_send := t, tc_ecnhat_beta := (if beta then 1 else tc_ecnhat_beta s)\<rparr>))"

definition ecn_on_receive :: "packet \<Rightarrow> tcp_agent \<Rightarrow> tcp_agent" where
  "ecn_on_receive p s =
     (let s1 = tracker_on_receive p s
      in if \<not> is_some_syn (tcp_flags (pk_tcp p)) \<and> is_ecn_active p s1 then s1\<lparr>tc_informpacer := True\<rparr> else s1)"

definition update_state_new_packet :: "packet \<Rightarrow> bool \<Rightarrow> tcp_agent \<Rightarrow> tcp_agent" where
  "update_state_new_packet p has_data s =
     (if cf_ecn (tc_cfg s)
      then s\<lparr>tc_recv_tracker := on_new_packet (recv_tracker_kind s) p has_data (tc_recv_tracker s)\<rparr> else s)"

definition on_receive_pure_incoming :: "tcp_agent \<Rightarrow> tcp_agent res" where
  "on_receive_pure_incoming s =
     (if has_pending (recv_tracker_kind s) (tc_recv_tracker s) \<and> tc_rcv_nxt s - tc_last_ack_sent s > 0 then
        res_bind (send_much True NORMAL (tc_maxburst s)
            (s\<lparr>tc_TF_ACKNOW := True, tc_recv_tracker := flip_ce (tc_recv_tracker s)\<rparr>))
          (\<lambda>s1. Inr (s1\<lparr>tc_recv_tracker := flip_ce (tc_recv_tracker s1)\<rparr>))
      else Inr s)"

definition on_receive_syn_ack_pre :: "hdr_flags \<Rightarrow> tcp_agent \<Rightarrow> (EcnDecision \<times> tcp_agent) res" where
  "on_receive_syn_ack_pre fh s =
     (if cf_ecn (tc_cfg s) \<and> fl_ecnecho fh \<and> \<not> fl_cong_action fh \<and> cf_ecn_syn_wait (tc_cfg s) = RETRY \<and> fl_ce fh then
        res_bind (set_rtx_timer s) (\<lambda>s1.
          res_bind (sendpacket (tc_t_seqno s1) (tc_rcv_nxt s1) (TH_ACK OR TH_ECE) 0 NORMAL s1)
            (\<lambda>s2. Inr (CONGESTION_DROP, s2)))
      else Inr (NO_CONGESTION, s))"

definition retry_syn_ack :: "tcp_agent \<Rightarrow> tcp_agent res" where
  "retry_syn_ack s =
     res_bind (foutput (cf_iss (tc_cfg s)) NORMAL ((cancel_rtx_timer s)\<lparr>tc_ecn_syn_next := False\<rparr>))
       (\<lambda>(_, s1). Inr (s1\<lparr>tc_wnd_init_option := 1, tc_wnd_init := 1\<rparr>))"

definition on_receive_syn_ack_ack :: "hdr_flags \<Rightarrow> tcp_agent \<Rightarrow> (EcnDecision \<times> tcp_agent) res" where
  "on_receive_syn_ack_ack fh s =
     (if cf_ecn (tc_cfg s) \<and> tc_ect s \<and> cf_ecn_syn (tc_cfg s) \<and> fl_ecnecho fh then
        (case cf_ecn_syn_wait (tc_cfg s) of
           RETRY \<Rightarrow> res_bind (retry_syn_ack s) (\<lambda>s1. Inr (CONGESTION_DROP, s1))
         | WAIT \<Rightarrow> Inr (CONGESTION, s\<lparr>tc_cwnd := 1, tc_use_rtt := True\<rparr>)
         | WINDOW_OF_ONE \<Rightarrow> Inr (CONGESTION, s\<lparr>tc_cwnd := 2\<rparr>))
      else Inr (NO_CONGESTION, s))"

definition on_receive_syn :: "hdr_flags \<Rightarrow> tcp_agent \<Rightarrow> tcp_agent" where
  "on_receive_syn fh s =
     (if cf_ecn (tc_cfg s) \<and> fl_ecnecho fh \<and> fl_cong_action fh then s\<lparr>tc_ect := True\<rparr> else s)"

definition on_receive_syn_ack :: "hdr_flags \<Rightarrow> tcp_agent \<Rightarrow> tcp_agent" where
  "on_receive_syn_ack fh s =
     (if \<not> cf_ecn (tc_cfg s) then s
      else
        let s1 = s\<lparr>tc_recv_tracker := on_syn_ack fh (tc_recv_tracker s)\<rparr>
        in if fl_ecnecho fh \<and> \<not> fl_cong_action fh then s1\<lparr>tc_ect := True\<rparr> else s1)"

definition ecn_on_receive_ack :: "packet \<Rightarrow> int \<Rightarrow> tcp_agent \<Rightarrow> tcp_agent res" where
  "ecn_on_receive_ack p tiflags s =
     (if is_ecn_active p s \<and> \<not> is_some_syn tiflags then
        res_bind (ecn slowdown (tc_highest_ack s) s) (\<lambda>s1. if tc_cwnd s1 < 1 then set_rtx_timer s1 else Inr s1)
      else Inr s)"

definition can_reset_rto_backoff_tcp :: "packet \<Rightarrow> tcp_agent \<Rightarrow> bool" where
  "can_reset_rto_backoff_tcp p s = (\<not> tc_ect s \<or> \<not> tc_ecn_backoff s \<or> \<not> is_ecn_active p s)"

definition can_open_cwnd :: "packet \<Rightarrow> tcp_agent \<Rightarrow> bool" where
  "can_open_cwnd p s =
     ((\<not> tc_ect s \<or> \<not> is_ecn_active p s \<or> (cf_old_ecn (tc_cfg s) \<and> tc_ecn_burst s))
      \<or> (tc_ecn_burst s \<and> \<not> cf_old_ecn (tc_cfg s)))"

definition on_receive_newack :: "packet \<Rightarrow> tcp_agent \<Rightarrow> tcp_agent" where
  "on_receive_newack p s = (if tc_ect s then s\<lparr>tc_ecn_burst := is_ecn_active p s\<rparr> else s)"

section \<open>Acknowledgements\<close>

text \<open>The three parts of \<open>newack\<close>: the retransmission timer, the new \<open>highest_ack_\<close>, and the sample of the round
  trip time.\<close>

definition newack_timer :: "int \<Rightarrow> tcp_agent \<Rightarrow> tcp_agent res" where
  "newack_timer ackno s =
     (if ackno = tc_maxseq s then Inr (cancel_rtx_timer s)
      else if ackno > tc_highest_ack s then set_rtx_timer s else Inr s)"

definition newack_advance :: "int \<Rightarrow> tcp_agent \<Rightarrow> tcp_agent" where
  "newack_advance ackno s =
     (let s1 = (if ackno > tc_highest_ack s
                then s\<lparr>tc_prev_highest_ack := tc_highest_ack s, tc_highest_ack := ackno\<rparr> else s)
      in if tc_t_seqno s1 < tc_highest_ack s1 then s1\<lparr>tc_t_seqno := tc_highest_ack s1\<rparr> else s1)"

definition newack_sample :: "packet \<Rightarrow> tcp_agent \<Rightarrow> tcp_agent" where
  "newack_sample p s =
     (let h = pk_tcp p;
          s1 = (if cf_ts_option (tc_cfg s) then
                  let s' = rtt_update (tc_now s - tcp_ts_echo h) (s\<lparr>tc_recent_age := tc_now s, tc_recent := tcp_ts h\<rparr>)
                  in (if cf_ts_resetRTO (tc_cfg s') \<and> can_reset_rto_backoff_tcp p s'
                      then s'\<lparr>tc_t_backoff := 1\<rparr> else s')
                else if tc_rtt_active s \<and> tcp_ackno h > tc_rtt_seq s then
                  rtt_update (tc_now s - tc_rtt_ts s) (s\<lparr>tc_rtt_active := False\<rparr>)
                else s)
      in if can_reset_rto_backoff_tcp p s1 then s1\<lparr>tc_t_backoff := 1, tc_ecn_backoff := False\<rparr> else s1)"

definition newack :: "packet \<Rightarrow> tcp_agent \<Rightarrow> tcp_agent res" where
  "newack p s =
     res_bind (newack_timer (tcp_ackno (pk_tcp p)) (s\<lparr>tc_prob_mode := False, tc_prob_count := 0\<rparr>)) (\<lambda>s1.
       let s2 = newack_advance (tcp_ackno (pk_tcp p)) s1
       in Inr (if fl_no_ts (pk_flags p) then s2 else newack_sample p s2))"

definition pack :: "packet \<Rightarrow> tcp_agent \<Rightarrow> bool" where
  "pack p s = (tc_fastrecov s \<and> tcp_ackno (pk_tcp p) \<ge> tc_highest_ack s \<and> tcp_ackno (pk_tcp p) < tc_recover s)"

definition fast_retransmit :: "int \<Rightarrow> tcp_agent \<Rightarrow> (int \<times> tcp_agent) res" where
  "fast_retransmit seq s = foutput seq DUPACK (s\<lparr>tc_recover := tc_maxseq s, tc_last_cwnd_action := CWA_DUPACK\<rparr>)"

definition full_pack_action :: "tcp_agent \<Rightarrow> tcp_agent" where
  "full_pack_action s =
     (let s1 = (if cf_reno_fastrecov (tc_cfg s) \<and> tc_fastrecov s \<and> tc_cwnd s > of_int (tc_ssthresh s)
                then s\<lparr>tc_cwnd := of_int (tc_ssthresh s)\<rparr> else s)
      in s1\<lparr>tc_fastrecov := False, tc_dupacks := 0\<rparr>)"

text \<open>What both actions of the SACK agent do to the SACK queue and \<open>h_seqno_\<close>.\<close>

definition sack_clear_acked :: "tcp_agent \<Rightarrow> tcp_agent" where
  "sack_clear_acked s =
     (if \<not> rq_empty (tc_sq s) \<and> tc_sack_min s < tc_highest_ack s
      then s\<lparr>tc_sq := snd (cleartonxt ((tc_sq s)\<lparr>rq_rcv_nxt := tc_highest_ack s\<rparr>))\<rparr> else s)"

definition sack_advance_h_seqno :: "tcp_agent \<Rightarrow> tcp_agent" where
  "sack_advance_h_seqno s = (if tc_h_seqno s < tc_highest_ack s then s\<lparr>tc_h_seqno := tc_highest_ack s\<rparr> else s)"

definition pack_action :: "tcp_agent \<Rightarrow> tcp_agent res" where
  "pack_action s =
     (if cf_class (tc_cfg s) = NewRenoFullTcpAgent then
        res_bind (fast_retransmit (tc_highest_ack s) s) (\<lambda>(_, s1).
          let s2 = s1\<lparr>tc_cwnd := of_int (tc_ssthresh s1)\<rparr>
          in Inr (if tc_save_maxburst s2 < 0
                  then s2\<lparr>tc_save_maxburst := tc_maxburst s2, tc_maxburst := cf_recov_maxburst (tc_cfg s2)\<rparr> else s2))
      else if is_sack (cf_class (tc_cfg s)) then
        (let s1 = sack_clear_acked s in Inr (sack_advance_h_seqno (s1\<lparr>tc_pipe := tc_pipe s1 - tc_maxseg s1\<rparr>)))
      else Inr (full_pack_action s))"

definition ack_action :: "tcp_agent \<Rightarrow> tcp_agent" where
  "ack_action s =
     (if cf_class (tc_cfg s) = NewRenoFullTcpAgent then
        full_pack_action (if tc_save_maxburst s \<ge> 0 then s\<lparr>tc_maxburst := tc_save_maxburst s, tc_save_maxburst := -1\<rparr> else s)
      else if is_sack (cf_class (tc_cfg s)) then
        sack_advance_h_seqno ((sack_clear_acked (s\<lparr>tc_fastrecov := False, tc_pipectrl := False\<rparr>))\<lparr>tc_dupacks := 0\<rparr>)
      else full_pack_action s)"

fun sack_add_blocks :: "bool \<Rightarrow> (int \<times> int) list \<Rightarrow> rq \<Rightarrow> rq res" where
  "sack_add_blocks fin [] q = Inr q"
| "sack_add_blocks fin ((l, r) # bs) q =
     (if \<not> fin \<and> l \<ge> r then sack_add_blocks fin bs q
      else res_bind (rq_add l r 0 0 q) (\<lambda>(_, q1). sack_add_blocks fin bs q1))"

definition process_sack :: "hdr_tcp \<Rightarrow> tcp_agent \<Rightarrow> tcp_agent res" where
  "process_sack h s =
     (if \<not> is_sack (cf_class (tc_cfg s)) then Inr s
      else
        let s1 = s\<lparr>tc_last_sqtotal := rq_total (tc_sq s)\<rparr>
        in if cf_max_sack_blocks (tc_cfg s1) \<le> 0 then Inr s1
           else res_bind (sack_add_blocks (contains_all (tcp_flags h) TH_FIN) (tcp_sack_area h) (tc_sq s1))
                  (\<lambda>q. Inr (s1\<lparr>tc_sq := q, tc_cur_sqtotal := rq_total q\<rparr>)))"

section \<open>Duplicate acknowledgements\<close>

text \<open>The three versions of \<open>dupack_action\<close>, each with the part after its label as a definition of its own.\<close>

definition full_reno_action :: "tcp_agent \<Rightarrow> tcp_agent res" where
  "full_reno_action s =
     (let s1 = cancel_rtx_timer (slowdown {SSTHRESH_HALF, CWND_HALF} s);
          s2 = s1\<lparr>tc_rtt_active := False, tc_recover := tc_maxseq s1\<rparr>
      in res_bind (fast_retransmit (tc_highest_ack s2) s2) (\<lambda>(_, s3).
           Inr (s3\<lparr>tc_cwnd := of_int (tc_ssthresh s3) + of_int (tc_dupacks s3)\<rparr>)))"

definition ecn_reno_action :: "tcp_agent \<Rightarrow> tcp_agent res" where
  "ecn_reno_action s =
     (let s1 = (cancel_rtx_timer (slowdown {CWND_HALF} s))\<lparr>tc_rtt_active := False\<rparr>
      in res_bind (fast_retransmit (tc_highest_ack s1) s1) (\<lambda>(_, s2). Inr s2))"

definition full_dupack_action :: "tcp_agent \<Rightarrow> tcp_agent res" where
  "full_dupack_action s =
     (let c = tc_cfg s; recovered = (tc_highest_ack s > tc_recover s);
          s1 = s\<lparr>tc_fastrecov := True, tc_rtxbytes := 0\<rparr>
      in if recovered \<or> (\<not> cf_bug_fix c \<and> \<not> cf_ecn c) \<or> tc_last_cwnd_action s1 = CWA_DUPACK \<or> tc_highest_ack s1 = 0
         then full_reno_action s1
         else if cf_ecn c \<and> tc_last_cwnd_action s1 = CWA_ECN then ecn_reno_action s1
         else if cf_bug_fix c then Inr s1
         else full_reno_action s1)"

definition tahoe_restart :: "TcpSlowdownFlag set \<Rightarrow> tcp_agent \<Rightarrow> tcp_agent res" where
  "tahoe_restart how s =
     res_bind (set_rtx_timer (slowdown how (s\<lparr>tc_last_cwnd_action := CWA_DUPACK\<rparr>))) (\<lambda>s1.
       Inr (s1\<lparr>tc_rtt_active := False, tc_t_seqno := tc_highest_ack s1\<rparr>))"

definition full_tahoe_action :: "tcp_agent \<Rightarrow> tcp_agent res" where
  "full_tahoe_action s =
     res_bind (tahoe_restart {SSTHRESH_HALF, CWND_ONE} (s\<lparr>tc_recover := tc_maxseq s\<rparr>)) (send_much False NORMAL 0)"

definition tahoe_dupack_action :: "tcp_agent \<Rightarrow> tcp_agent res" where
  "tahoe_dupack_action s =
     (let c = tc_cfg s; recovered = (tc_highest_ack s > tc_recover s);
          s1 = s\<lparr>tc_fastrecov := True, tc_rtxbytes := 0\<rparr>
      in if recovered \<or> (\<not> cf_bug_fix c \<and> \<not> cf_ecn c) \<or> tc_highest_ack s1 = 0 then full_tahoe_action s1
         else if cf_ecn c \<and> tc_last_cwnd_action s1 = CWA_ECN then tahoe_restart {CWND_ONE} s1
         else if cf_bug_fix c then Inr s1
         else full_tahoe_action s1)"

text \<open>The fast retransmission that starts the recovery by the SACK pipe.\<close>

definition sack_recover :: "tcp_agent \<Rightarrow> tcp_agent res" where
  "sack_recover s =
     res_bind (fast_retransmit (tc_highest_ack s) s) (\<lambda>(amt, s1).
       send_much False DUPACK (tc_maxburst s1) (s1\<lparr>tc_pipectrl := True, tc_h_seqno := tc_highest_ack s1 + amt\<rparr>))"

definition full_sack_action :: "tcp_agent \<Rightarrow> tcp_agent res" where
  "full_sack_action s =
     (let s1 = cancel_rtx_timer (slowdown {SSTHRESH_HALF, CWND_HALF} s)
      in sack_recover (s1\<lparr>tc_rtt_active := False, tc_pipectrl := True, tc_recover := tc_maxseq s1\<rparr>))"

definition ecn_sack_action :: "tcp_agent \<Rightarrow> tcp_agent res" where
  "ecn_sack_action s =
     (let s1 = s\<lparr>tc_last_cwnd_action := CWA_DUPACK\<rparr>;
          s2 = (if should_slowdown_on_dup_ack (send_tracker s1) then slowdown {SSTHRESH_HALF, CWND_HALF} s1 else s1)
      in sack_recover ((cancel_rtx_timer s2)\<lparr>tc_rtt_active := False\<rparr>))"

definition sack_dupack_action :: "tcp_agent \<Rightarrow> tcp_agent res" where
  "sack_dupack_action s =
     (let c = tc_cfg s; recovered = (tc_highest_ack s > tc_recover s);
          s1 = s\<lparr>tc_fastrecov := True, tc_rtxbytes := 0,
                 tc_pipe := tc_maxseq s - tc_highest_ack s - rq_total (tc_sq s)\<rparr>
      in if recovered \<or> (\<not> cf_bug_fix c \<and> \<not> cf_ecn c) then full_sack_action s1
         else if cf_ecn c \<and> tc_last_cwnd_action s1 = CWA_ECN then ecn_sack_action s1
         else if cf_bug_fix c then Inr s1
         else full_sack_action s1)"

definition dupack_action :: "tcp_agent \<Rightarrow> tcp_agent res" where
  "dupack_action s =
     (if cf_class (tc_cfg s) = TahoeFullTcpAgent then tahoe_dupack_action s
      else if is_sack (cf_class (tc_cfg s)) then sack_dupack_action s
      else full_dupack_action s)"

section \<open>Timeouts\<close>

definition full_timeout_action :: "tcp_agent \<Rightarrow> tcp_agent res" where
  "full_timeout_action s =
     (let s1 = s\<lparr>tc_recover := tc_maxseq s\<rparr>;
          s2 = (if tc_cwnd s1 < 1 then s1\<lparr>tc_cwnd := 1\<rparr> else s1);
          s3 = (if tc_last_cwnd_action s2 = CWA_ECN then slowdown {CWND_ONE} s2
                else (slowdown {SSTHRESH_HALF, CWND_RESTART} s2)\<lparr>tc_last_cwnd_action := CWA_TIMEOUT\<rparr>)
      in res_bind (reset_rtx_timer s3) (\<lambda>s4.
           let s5 = s4\<lparr>tc_t_seqno := (if tc_highest_ack s4 < 0 then cf_iss (tc_cfg s4) else tc_highest_ack s4)\<rparr>
           in Inr (s5\<lparr>tc_ecnhat_send := sender_on_timeout (send_tracker s5) (tc_t_seqno s5) (tc_ecnhat_send s5),
                      tc_fastrecov := False, tc_dupacks := 0\<rparr>)))"

definition sack_timeout_action :: "tcp_agent \<Rightarrow> tcp_agent res" where
  "sack_timeout_action s =
     res_bind (full_timeout_action s) (\<lambda>s1.
       Inr (if cf_clear_on_timeout (tc_cfg s1)
            then s1\<lparr>tc_sq := (rq_clear (tc_sq s1))\<lparr>rq_rcv_nxt := tc_highest_ack s1\<rparr>\<rparr> else s1))"

definition min_timeout_action :: "tcp_agent \<Rightarrow> tcp_agent res" where
  "min_timeout_action s =
     (let s1 = (if cf_prob_cap (tc_cfg s) \<noteq> 0 then
                  s\<lparr>tc_prob_count := tc_prob_count s + 1,
                    tc_prob_mode := (tc_prob_count s + 1 = cf_prob_cap (tc_cfg s) \<or> tc_prob_mode s),
                    tc_h_seqno := tc_highest_ack s\<rparr>
                else s)
      in sack_timeout_action s1)"

definition timeout_action :: "tcp_agent \<Rightarrow> tcp_agent res" where
  "timeout_action s =
     (if cf_class (tc_cfg s) = MinTcpAgent then min_timeout_action s
      else if is_sack (cf_class (tc_cfg s)) then sack_timeout_action s
      else full_timeout_action s)"

datatype timer_no = TCP_TIMER_RTX | TCP_TIMER_DELSND | TCP_TIMER_DELACK | TCP_TIMER_OTHER

definition timeout :: "timer_no \<Rightarrow> tcp_agent \<Rightarrow> tcp_agent res" where
  "timeout tno s =
     (if tc_state s = LISTEN then Inr s
      else
        (case tno of
           TCP_TIMER_RTX \<Rightarrow>
             res_bind (timeout_action (s\<lparr>tc_nrexmit := tc_nrexmit s + 1\<rparr>)) (\<lambda>s1. send_much True TIMEOUT (tc_maxburst s1) s1)
         | TCP_TIMER_DELSND \<Rightarrow> send_much True TIMEOUT (tc_maxburst s) s
         | TCP_TIMER_DELACK \<Rightarrow>
             if tc_TF_DELACK s then send_much True NORMAL 0 (s\<lparr>tc_TF_DELACK := False, tc_TF_ACKNOW := True\<rparr>) else Inr s
         | TCP_TIMER_OTHER \<Rightarrow> Inr s))"

text \<open>A timer of the agent expires: \<open>TimerHandler::handle\<close> around \<open>expire\<close>, which calls \<open>timeout\<close>.\<close>

definition expire_rtx :: "tcp_agent \<Rightarrow> tcp_agent res" where
  "expire_rtx s = res_bind (timer_handle_begin (tc_rtx_timer s)) (\<lambda>t.
     res_bind (timeout TCP_TIMER_RTX (s\<lparr>tc_rtx_timer := t\<rparr>)) (\<lambda>s1.
       Inr (s1\<lparr>tc_rtx_timer := timer_handle_end (tc_rtx_timer s1)\<rparr>)))"

definition expire_delsnd :: "tcp_agent \<Rightarrow> tcp_agent res" where
  "expire_delsnd s = res_bind (timer_handle_begin (tc_delsnd_timer s)) (\<lambda>t.
     res_bind (timeout TCP_TIMER_DELSND (s\<lparr>tc_delsnd_timer := t\<rparr>)) (\<lambda>s1.
       Inr (s1\<lparr>tc_delsnd_timer := timer_handle_end (tc_delsnd_timer s1)\<rparr>)))"

definition expire_delack :: "tcp_agent \<Rightarrow> tcp_agent res" where
  "expire_delack s = res_bind (timer_handle_begin (tc_delack_timer s)) (\<lambda>t.
     res_bind (timeout TCP_TIMER_DELACK (s\<lparr>tc_delack_timer := t\<rparr>)) (\<lambda>s1.
       Inr (s1\<lparr>tc_delack_timer := timer_handle_end (tc_delack_timer s1)\<rparr>)))"

section \<open>Calls of the application\<close>

definition connect :: "tcp_agent \<Rightarrow> tcp_agent res" where
  "connect s =
     (let iss = cf_iss (tc_cfg s) in
      res_bind (foutput iss NORMAL (s\<lparr>tc_state := SYN_SENT\<rparr>)) (\<lambda>(amt, s1). Inr (sent iss amt s1)))"

definition listen :: "tcp_agent \<Rightarrow> tcp_agent" where
  "listen s = s\<lparr>tc_state := LISTEN\<rparr>"

definition usrclosed :: "tcp_agent \<Rightarrow> tcp_agent res" where
  "usrclosed s0 =
     (let s = s0\<lparr>tc_curseq := tc_maxseq s0 - 1, tc_infinite_send := False\<rparr>;
          sendfin = (\<lambda>s1. send_much True NORMAL (tc_maxburst s1) (s1\<lparr>tc_TF_NEEDFIN := True\<rparr>))
      in if tc_state s = CLOSED \<or> tc_state s = LISTEN then Inr (upcall Done ((cancel_timers s)\<lparr>tc_state := CLOSED\<rparr>))
         else if tc_state s = SYN_SENT then sendfin (s\<lparr>tc_state := CLOSED\<rparr>)
         else if tc_state s = LAST_ACK then sendfin s
         else if tc_state s = SYN_RECEIVED \<or> tc_state s = ESTABLISHED then sendfin (s\<lparr>tc_state := FIN_WAIT_1\<rparr>)
         else if tc_state s = CLOSE_WAIT then sendfin (s\<lparr>tc_state := LAST_ACK\<rparr>)
         else Inr s)"

definition soft_reset :: "tcp_agent \<Rightarrow> tcp_agent res" where
  "soft_reset s =
     res_bind (initial_window s) (\<lambda>w.
       let s1 = s\<lparr>tc_cwnd := w, tc_start_time := tc_now s, tc_early_terminated := False, tc_seq_bound := -1\<rparr>;
           iss = cf_iss (tc_cfg s1);
           s2 = (if tc_state s1 = CLOSED \<or> tc_state s1 = LISTEN
                 then s1\<lparr>tc_deadline := cf_nominal_deadline (tc_cfg s1), tc_startseq := iss\<rparr>
                 else if tc_state s1 = ESTABLISHED \<or> tc_state s1 = SYN_SENT \<or> tc_state s1 = SYN_RECEIVED
                 then s1\<lparr>tc_startseq := (if tc_curseq s1 < iss then iss else tc_curseq s1)\<rparr>
                 else s1)
       in Inr (s2\<lparr>tc_ndatabytes := 0\<rparr>))"

definition advance_bytes :: "int \<Rightarrow> tcp_agent \<Rightarrow> tcp_agent res" where
  "advance_bytes nb s =
     res_bind
       (if tc_state s = CLOSED \<or> tc_state s = LISTEN
        then res_bind (reset s) (\<lambda>s1. connect (s1\<lparr>tc_curseq := cf_iss (tc_cfg s1) + nb\<rparr>))
        else if tc_state s = ESTABLISHED \<or> tc_state s = SYN_SENT \<or> tc_state s = SYN_RECEIVED
        then (let iss = cf_iss (tc_cfg s)
              in Inr (s\<lparr>tc_curseq := (if tc_curseq s < iss then iss else tc_curseq s) + nb\<rparr>))
        else Inr s)
       (\<lambda>s1. if tc_state s1 = ESTABLISHED
             then send_much (cf_rtx_on_eof (tc_cfg s1) \<and> tc_signal_on_empty s1) NORMAL (tc_maxburst s1) s1
             else Inr s1)"

definition advanceby :: "int \<Rightarrow> tcp_agent \<Rightarrow> tcp_agent res" where
  "advanceby np s = advance_bytes (np * tc_maxseg s) s"

datatype msg_flags = NO_FLAGS | MSG_EOF | DAT_EOF | DAT_NEW

text \<open>What \<open>sendmsg\<close> does on the flag \<open>DAT_EOF\<close>.\<close>

definition mark_eof :: "tcp_agent \<Rightarrow> tcp_agent res" where
  "mark_eof s =
     (let s1 = s\<lparr>tc_signal_on_empty := True\<rparr>;
          s2 = (if cf_rtx_on_eof (tc_cfg s1) then
                  s1\<lparr>tc_last_eof_time := (if tc_state s1 = ESTABLISHED then Some (tc_now s1) else tc_last_eof_time s1),
                     tc_t_seqno := (if tc_highest_ack s1 < 0 then cf_iss (tc_cfg s1) else tc_highest_ack s1)\<rparr>
                else s1);
          s3 = (if cf_eof_minrto (tc_cfg s2) \<ge> 0 then s2\<lparr>tc_minrto := cf_eof_minrto (tc_cfg s2)\<rparr> else s2)
      in if cf_reset_window_on_eof (tc_cfg s3) then
           res_bind (initial_window s3) (\<lambda>w.
             set_rtx_timer (s3\<lparr>tc_cwnd := max w (tc_cwnd s3), tc_prob_mode := False, tc_prob_count := 0\<rparr>))
         else Inr s3)"

definition sendmsg :: "int \<Rightarrow> msg_flags \<Rightarrow> tcp_agent \<Rightarrow> tcp_agent res" where
  "sendmsg nbytes flags s =
     res_bind
       (case flags of
          NO_FLAGS \<Rightarrow> Inr s
        | MSG_EOF \<Rightarrow> Inr (s\<lparr>tc_close_on_empty := True\<rparr>)
        | DAT_EOF \<Rightarrow> mark_eof s
        | DAT_NEW \<Rightarrow>
            soft_reset (if cf_no_eof_minrto (tc_cfg s) \<ge> 0 then s\<lparr>tc_minrto := cf_no_eof_minrto (tc_cfg s)\<rparr> else s))
       (\<lambda>s1. if nbytes = -1 then advance_bytes 0 (s1\<lparr>tc_infinite_send := True\<rparr>) else advance_bytes nbytes s1)"

end
