(* ===== verification/TcpSend.thy ===== *)
theory TcpSend
  imports TcpInput
begin

text \<open>
  What the sending side does: \<open>foutput\<close> sends at most one segment, within the data and the window, and \<open>send_much\<close> ends.
\<close>

section \<open>What sending leaves alone\<close>

text \<open>The part of the state that no operation of the sending side changes, \<open>maxseg_\<close> apart, which the first
  segment may set.\<close>

text \<open>The bytes that have been handed to the application, and the packets that have been sent, according to a log.\<close>

definition received_in :: "upcall list \<Rightarrow> int" where
  "received_in us = sum_list (map (\<lambda>u. case u of RecvBytes n \<Rightarrow> n | _ \<Rightarrow> 0) us)"

lemma received_in_simps [simp]:
  "received_in [] = 0" "received_in (us @ vs) = received_in us + received_in vs" "received_in (Sent p # us) = received_in us"
  "received_in (Idle # us) = received_in us" "received_in (RecvBytes n # us) = n + received_in us"
  "received_in (DoneData # us) = received_in us" "received_in (Done # us) = received_in us"
  by (simp_all add: received_in_def)

definition kept ::
  "tcp_agent \<Rightarrow> (full_cfg \<times> time \<times> int \<times> int \<times> int \<times> int) \<times> (rq \<times> rq \<times> bool \<times> bool \<times> TcpState) \<times> int \<times> int \<times> int \<times> bool \<times> bool \<times> int" where
  "kept s = ((tc_cfg s, tc_now s, tc_highest_ack s, tc_t_seqno s, tc_h_seqno s, tc_curseq s),
     (tc_rq s, tc_sq s, tc_infinite_send s, tc_pipectrl s, tc_last_state s),
     tc_irs s, tc_recover s, tc_fid s, tc_TF_NEEDFIN s, tc_fastrecov s, received_in (tc_log s))"

lemma keptD:
  assumes "kept s' = kept s"
  shows "tc_cfg s' = tc_cfg s" "tc_now s' = tc_now s" "tc_highest_ack s' = tc_highest_ack s" "tc_t_seqno s' = tc_t_seqno s"
    "tc_h_seqno s' = tc_h_seqno s" "tc_curseq s' = tc_curseq s" "tc_rq s' = tc_rq s" "tc_sq s' = tc_sq s"
    "tc_infinite_send s' = tc_infinite_send s" "tc_pipectrl s' = tc_pipectrl s" "tc_last_state s' = tc_last_state s"
    "tc_irs s' = tc_irs s" "tc_recover s' = tc_recover s" "tc_fid s' = tc_fid s" "tc_TF_NEEDFIN s' = tc_TF_NEEDFIN s"
    "tc_fastrecov s' = tc_fastrecov s" "received_in (tc_log s') = received_in (tc_log s)"
  using assms by (simp_all add: kept_def)

text \<open>The same with the segment size, the highest sequence number sent and the state of the connection.\<close>

definition kept_conn where
  "kept_conn s = (kept s, tc_maxseg s, tc_maxseq s, tc_state s)"

lemma kept_conn_iff:
  "kept_conn s' = kept_conn s \<longleftrightarrow>
   kept s' = kept s \<and> tc_maxseg s' = tc_maxseg s \<and> tc_maxseq s' = tc_maxseq s \<and> tc_state s' = tc_state s"
  by (simp add: kept_conn_def)

lemma kept_conn_update [simp]:
  "kept_conn (s\<lparr>tc_draws := x_draws\<rparr>) = kept_conn s"
  "kept_conn (s\<lparr>tc_npkts := x_npkts\<rparr>) = kept_conn s"
  "kept_conn (s\<lparr>tc_boot_time := x_boot_time\<rparr>) = kept_conn s"
  "kept_conn (s\<lparr>tc_wnd_init := x_wnd_init\<rparr>) = kept_conn s"
  "kept_conn (s\<lparr>tc_wnd_restart := x_wnd_restart\<rparr>) = kept_conn s"
  "kept_conn (s\<lparr>tc_wnd_init_option := x_wnd_init_option\<rparr>) = kept_conn s"
  "kept_conn (s\<lparr>tc_decrease_num := x_decrease_num\<rparr>) = kept_conn s"
  "kept_conn (s\<lparr>tc_increase_num := x_increase_num\<rparr>) = kept_conn s"
  "kept_conn (s\<lparr>tc_dupacks := x_dupacks\<rparr>) = kept_conn s"
  "kept_conn (s\<lparr>tc_cwnd := x_cwnd\<rparr>) = kept_conn s"
  "kept_conn (s\<lparr>tc_ssthresh := x_ssthresh\<rparr>) = kept_conn s"
  "kept_conn (s\<lparr>tc_last_ack := x_last_ack\<rparr>) = kept_conn s"
  "kept_conn (s\<lparr>tc_last_cwnd_action := x_last_cwnd_action\<rparr>) = kept_conn s"
  "kept_conn (s\<lparr>tc_count := x_count\<rparr>) = kept_conn s"
  "kept_conn (s\<lparr>tc_rtt_active := x_rtt_active\<rparr>) = kept_conn s"
  "kept_conn (s\<lparr>tc_rtt_seq := x_rtt_seq\<rparr>) = kept_conn s"
  "kept_conn (s\<lparr>tc_rtt_ts := x_rtt_ts\<rparr>) = kept_conn s"
  "kept_conn (s\<lparr>tc_lastreset := x_lastreset\<rparr>) = kept_conn s"
  "kept_conn (s\<lparr>tc_t_rtt := x_t_rtt\<rparr>) = kept_conn s"
  "kept_conn (s\<lparr>tc_t_srtt := x_t_srtt\<rparr>) = kept_conn s"
  "kept_conn (s\<lparr>tc_t_rttvar := x_t_rttvar\<rparr>) = kept_conn s"
  "kept_conn (s\<lparr>tc_t_backoff := x_t_backoff\<rparr>) = kept_conn s"
  "kept_conn (s\<lparr>tc_t_rtxcur := x_t_rtxcur\<rparr>) = kept_conn s"
  "kept_conn (s\<lparr>tc_minrto := x_minrto\<rparr>) = kept_conn s"
  "kept_conn (s\<lparr>tc_rtx_timer := x_rtx_timer\<rparr>) = kept_conn s"
  "kept_conn (s\<lparr>tc_delsnd_timer := x_delsnd_timer\<rparr>) = kept_conn s"
  "kept_conn (s\<lparr>tc_burstsnd_timer := x_burstsnd_timer\<rparr>) = kept_conn s"
  "kept_conn (s\<lparr>tc_syn := x_syn\<rparr>) = kept_conn s"
  "kept_conn (s\<lparr>tc_syn_connects := x_syn_connects\<rparr>) = kept_conn s"
  "kept_conn (s\<lparr>tc_frto := x_frto\<rparr>) = kept_conn s"
  "kept_conn (s\<lparr>tc_maxburst := x_maxburst\<rparr>) = kept_conn s"
  "kept_conn (s\<lparr>tc_awnd := x_awnd\<rparr>) = kept_conn s"
  "kept_conn (s\<lparr>tc_first_decrease := x_first_decrease\<rparr>) = kept_conn s"
  "kept_conn (s\<lparr>tc_fcnt := x_fcnt\<rparr>) = kept_conn s"
  "kept_conn (s\<lparr>tc_ndatapack := x_ndatapack\<rparr>) = kept_conn s"
  "kept_conn (s\<lparr>tc_ndatabytes := x_ndatabytes\<rparr>) = kept_conn s"
  "kept_conn (s\<lparr>tc_nackpack := x_nackpack\<rparr>) = kept_conn s"
  "kept_conn (s\<lparr>tc_nrexmit := x_nrexmit\<rparr>) = kept_conn s"
  "kept_conn (s\<lparr>tc_nrexmitpack := x_nrexmitpack\<rparr>) = kept_conn s"
  "kept_conn (s\<lparr>tc_nrexmitbytes := x_nrexmitbytes\<rparr>) = kept_conn s"
  "kept_conn (s\<lparr>tc_ncwndcuts := x_ncwndcuts\<rparr>) = kept_conn s"
  "kept_conn (s\<lparr>tc_ncwndcuts1 := x_ncwndcuts1\<rparr>) = kept_conn s"
  "kept_conn (s\<lparr>tc_lldct_w_c := x_lldct_w_c\<rparr>) = kept_conn s"
  "kept_conn (s\<lparr>tc_hstcp := x_hstcp\<rparr>) = kept_conn s"
  "kept_conn (s\<lparr>tc_q := x_q\<rparr>) = kept_conn s"
  "kept_conn (s\<lparr>tc_W_used := x_W_used\<rparr>) = kept_conn s"
  "kept_conn (s\<lparr>tc_prev_highest_ack := x_prev_highest_ack\<rparr>) = kept_conn s"
  "kept_conn (s\<lparr>tc_ect := x_ect\<rparr>) = kept_conn s"
  "kept_conn (s\<lparr>tc_ecn_backoff := x_ecn_backoff\<rparr>) = kept_conn s"
  "kept_conn (s\<lparr>tc_ecnhat_beta := x_ecnhat_beta\<rparr>) = kept_conn s"
  "kept_conn (s\<lparr>tc_ecn_burst := x_ecn_burst\<rparr>) = kept_conn s"
  "kept_conn (s\<lparr>tc_cong_action := x_cong_action\<rparr>) = kept_conn s"
  "kept_conn (s\<lparr>tc_use_rtt := x_use_rtt\<rparr>) = kept_conn s"
  "kept_conn (s\<lparr>tc_necnresponses := x_necnresponses\<rparr>) = kept_conn s"
  "kept_conn (s\<lparr>tc_ecn_syn_next := x_ecn_syn_next\<rparr>) = kept_conn s"
  "kept_conn (s\<lparr>tc_informpacer := x_informpacer\<rparr>) = kept_conn s"
  "kept_conn (s\<lparr>tc_recv_tracker := x_recv_tracker\<rparr>) = kept_conn s"
  "kept_conn (s\<lparr>tc_ecnhat_send := x_ecnhat_send\<rparr>) = kept_conn s"
  "kept_conn (s\<lparr>tc_pias_prio_num := x_pias_prio_num\<rparr>) = kept_conn s"
  "kept_conn (s\<lparr>tc_startseq := x_startseq\<rparr>) = kept_conn s"
  "kept_conn (s\<lparr>tc_last_prio := x_last_prio\<rparr>) = kept_conn s"
  "kept_conn (s\<lparr>tc_seq_bound := x_seq_bound\<rparr>) = kept_conn s"
  "kept_conn (s\<lparr>tc_prob_count := x_prob_count\<rparr>) = kept_conn s"
  "kept_conn (s\<lparr>tc_prob_mode := x_prob_mode\<rparr>) = kept_conn s"
  "kept_conn (s\<lparr>tc_last_sqtotal := x_last_sqtotal\<rparr>) = kept_conn s"
  "kept_conn (s\<lparr>tc_cur_sqtotal := x_cur_sqtotal\<rparr>) = kept_conn s"
  "kept_conn (s\<lparr>tc_deadline := x_deadline\<rparr>) = kept_conn s"
  "kept_conn (s\<lparr>tc_start_time := x_start_time\<rparr>) = kept_conn s"
  "kept_conn (s\<lparr>tc_early_terminated := x_early_terminated\<rparr>) = kept_conn s"
  "kept_conn (s\<lparr>tc_closed := x_closed\<rparr>) = kept_conn s"
  "kept_conn (s\<lparr>tc_pipe := x_pipe\<rparr>) = kept_conn s"
  "kept_conn (s\<lparr>tc_rtxbytes := x_rtxbytes\<rparr>) = kept_conn s"
  "kept_conn (s\<lparr>tc_last_send_time := x_last_send_time\<rparr>) = kept_conn s"
  "kept_conn (s\<lparr>tc_flow_remaining := x_flow_remaining\<rparr>) = kept_conn s"
  "kept_conn (s\<lparr>tc_last_eof_time := x_last_eof_time\<rparr>) = kept_conn s"
  "kept_conn (s\<lparr>tc_close_on_empty := x_close_on_empty\<rparr>) = kept_conn s"
  "kept_conn (s\<lparr>tc_signal_on_empty := x_signal_on_empty\<rparr>) = kept_conn s"
  "kept_conn (s\<lparr>tc_tcprexmtthresh := x_tcprexmtthresh\<rparr>) = kept_conn s"
  "kept_conn (s\<lparr>tc_delack_timer := x_delack_timer\<rparr>) = kept_conn s"
  "kept_conn (s\<lparr>tc_TF_ACKNOW := x_TF_ACKNOW\<rparr>) = kept_conn s"
  "kept_conn (s\<lparr>tc_TF_DELACK := x_TF_DELACK\<rparr>) = kept_conn s"
  "kept_conn (s\<lparr>tc_TF_RCVD_TSTMP := x_TF_RCVD_TSTMP\<rparr>) = kept_conn s"
  "kept_conn (s\<lparr>tc_TF_NEEDCLOSE := x_TF_NEEDCLOSE\<rparr>) = kept_conn s"
  "kept_conn (s\<lparr>tc_last_ack_sent := x_last_ack_sent\<rparr>) = kept_conn s"
  "kept_conn (s\<lparr>tc_recent := x_recent\<rparr>) = kept_conn s"
  "kept_conn (s\<lparr>tc_recent_age := x_recent_age\<rparr>) = kept_conn s"
  "kept_conn (s\<lparr>tc_save_maxburst := x_save_maxburst\<rparr>) = kept_conn s"
  by (simp_all add: kept_conn_def kept_def)

lemma kept_update [simp]:
  "kept (s\<lparr>tc_maxseq := x_maxseq\<rparr>) = kept s"
  "kept (s\<lparr>tc_maxseg := x_maxseg\<rparr>) = kept s"
  "kept (s\<lparr>tc_state := x_state\<rparr>) = kept s"
  by (simp_all add: kept_def)

lemma kept_conn_if: "kept_conn a = k \<Longrightarrow> kept_conn b = k \<Longrightarrow> kept_conn (if P then a else b) = k"
  by simp

lemma slowdown_windows_kept: "slowdown_windows w0 wd s = (w, s') \<Longrightarrow> kept_conn s' = kept_conn s"
  by (auto simp: slowdown_windows_def Let_def split: if_splits)

lemma slowdown_by_kept [simp]: "kept_conn (slowdown_by w wd b how s) = kept_conn s"
  by (cases "slowdown_windows w wd s") (auto simp: slowdown_by_def Let_def dest: slowdown_windows_kept)

lemma count_cut_kept [simp]: "kept_conn (count_cut how s) = kept_conn s"
  by (simp add: count_cut_def Let_def)

lemma slowdown_kept [simp]: "kept_conn (slowdown how s) = kept_conn s"
  by (simp add: slowdown_def tcp_slowdown_def Let_def)

lemma rtt_timeout_kept: "rtt_timeout s = Inr (t, s') \<Longrightarrow> kept_conn s' = kept_conn s"
  by (auto dest: rtt_timeout_state)

lemma set_rtx_timer_kept: "set_rtx_timer s = Inr s' \<Longrightarrow> kept_conn s' = kept_conn s \<and> tc_log s' = tc_log s"
  by (auto dest!: set_rtx_timer_state)

lemma upcall_kept [simp]:
  "kept_conn (upcall (Sent p) s) = kept_conn s" "kept_conn (upcall Idle s) = kept_conn s"
  "kept_conn (upcall DoneData s) = kept_conn s" "kept_conn (upcall Done s) = kept_conn s"
  by (simp_all add: upcall_def kept_conn_def kept_def)

lemma unbounded_priority_state:
  assumes "calc_unbounded_no_deadline_priority seq m s = Inr (r, s')"
  shows "s' = s\<lparr>tc_seq_bound := tc_seq_bound s', tc_last_prio := tc_last_prio s'\<rparr>"
proof -
  have f: "s' = s\<lparr>tc_seq_bound := tc_seq_bound s', tc_last_prio := tc_last_prio s'\<rparr>"
    if "full_unbounded_priority seq m s = Inr (r, s')"
    using that by (cases "cf_prio_scheme (tc_cfg s)") (auto simp: full_unbounded_priority_def Let_def split: if_split_asm)
  have g: "s' = s\<lparr>tc_seq_bound := tc_seq_bound s', tc_last_prio := tc_last_prio s'\<rparr>"
    if "sack_unbounded_priority seq m s = Inr (r, s')"
    using that by (cases "cf_prio_scheme (tc_cfg s)") (auto simp: sack_unbounded_priority_def Let_def split: if_split_asm)
  show ?thesis
    using assms f g unfolding calc_unbounded_no_deadline_priority_def Let_def
    by (simp only: split: if_split_asm) auto
qed

lemma priority_state:
  assumes "packet_priority seqno datalen prio s = Inr (r, s')"
  shows "s' = s\<lparr>tc_seq_bound := tc_seq_bound s', tc_last_prio := tc_last_prio s', tc_pias_prio_num := tc_pias_prio_num s'\<rparr>"
proof -
  have n: "s' = s\<lparr>tc_seq_bound := tc_seq_bound s', tc_last_prio := tc_last_prio s', tc_pias_prio_num := tc_pias_prio_num s'\<rparr>"
    if "calc_no_deadline_priority seq m s = Inr (r, s')" for seq m
  proof -
    from that obtain q where "calc_unbounded_no_deadline_priority seq m s = Inr (q, s')"
      by (auto simp: calc_no_deadline_priority_def res_bind_Inr_iff)
    from unbounded_priority_state [OF this] obtain a b where "s' = s\<lparr>tc_seq_bound := a, tc_last_prio := b\<rparr>" by blast
    then show ?thesis by simp
  qed
  have p: "s' = s\<lparr>tc_seq_bound := tc_seq_bound s', tc_last_prio := tc_last_prio s', tc_pias_prio_num := tc_pias_prio_num s'\<rparr>"
    if "calc_pias_priority seqno datalen s = (r, s')"
    using that by (auto simp: calc_pias_priority_def piasPrio_def Let_def split: if_split_asm)
  show ?thesis using assms n p unfolding packet_priority_def by (simp only: split: if_split_asm) auto
qed

lemma priority_kept: "packet_priority seqno datalen prio s = Inr (r, s') \<Longrightarrow> kept_conn s' = kept_conn s"
  by (drule priority_state, erule ssubst) simp

section \<open>One packet\<close>

text \<open>A packet with the given header fields and payload.\<close>

definition segment_is :: "int \<Rightarrow> int \<Rightarrow> int \<Rightarrow> int \<Rightarrow> TcpXmissionReason \<Rightarrow> packet \<Rightarrow> bool" where
  "segment_is seqno ackno pflags datalen reason p \<longleftrightarrow>
     tcp_seqno (pk_tcp p) = seqno \<and> tcp_ackno (pk_tcp p) = ackno \<and> tcp_flags (pk_tcp p) = pflags \<and>
     tcp_reason (pk_tcp p) = reason \<and> pk_size p = datalen + tcp_hlen (pk_tcp p)"

lemma build_options_keeps:
  "build_options s h = (n, h') \<Longrightarrow> tcp_seqno h' = tcp_seqno h \<and> tcp_ackno h' = tcp_ackno h \<and> tcp_flags h' = tcp_flags h \<and>
     tcp_reason h' = tcp_reason h"
  by (auto simp: build_options_def full_build_options_def Let_def split: if_splits)

lemma on_sendpacket_keeps:
  "on_sendpacket pflags p b s = (p', s') \<Longrightarrow> pk_tcp p' = pk_tcp p \<and> kept_conn s' = kept_conn s \<and> tc_log s' = tc_log s"
  by (auto simp: on_sendpacket_def inform_pacer_if_needed_def Let_def split: if_splits)

lemma priority_log: "packet_priority seqno datalen prio s = Inr (r, s') \<Longrightarrow>
    tc_log s' = tc_log s \<and> tc_last_ack_sent s' = tc_last_ack_sent s"
  by (drule priority_state, erule ssubst) simp

lemma sendpacket_sends:
  assumes "sendpacket seqno ackno pflags datalen reason s = Inr s'"
  shows "kept_conn s' = kept_conn s" "tc_last_ack_sent s' = ackno"
    "\<exists>p. tc_log s' = tc_log s @ [Sent p] \<and> segment_is seqno ackno pflags datalen reason p"
proof -
  obtain p s1 where a: "allocpkt s = (p, s1)" "kept_conn s1 = kept_conn s" "tc_log s1 = tc_log s"
    by (simp add: allocpkt_def)
  obtain n h where b: "build_options s1 ((pk_tcp p)\<lparr>tcp_seqno := seqno, tcp_ackno := ackno, tcp_flags := pflags,
             tcp_reason := reason, tcp_sack_area := []\<rparr>) = (n, h)" by fastforce
  note h = build_options_keeps [OF b]
  let ?hlen = "cf_tcpip_base_hdr_size (tc_cfg s1) + n"
  obtain p1 s2 where c: "on_sendpacket pflags (p\<lparr>pk_tcp := h\<lparr>tcp_hlen := ?hlen\<rparr>\<rparr>) (datalen > 0) s1 = (p1, s2)" by fastforce
  note p1 = on_sendpacket_keeps [OF c]
  let ?s3 = "if datalen \<le> 0 then s2\<lparr>tc_nackpack := tc_nackpack s2 + 1\<rparr>
     else s2\<lparr>tc_ndatapack := tc_ndatapack s2 + 1, tc_ndatabytes := tc_ndatabytes s2 + datalen, tc_last_send_time := tc_now s2\<rparr>"
  let ?s4 = "if reason = TIMEOUT \<or> reason = DUPACK \<or> reason = SACK
     then ?s3\<lparr>tc_nrexmitpack := tc_nrexmitpack ?s3 + 1, tc_nrexmitbytes := tc_nrexmitbytes ?s3 + datalen\<rparr> else ?s3"
  let ?s5 = "?s4\<lparr>tc_last_ack_sent := ackno\<rparr>"
  have k: "kept_conn ?s5 = kept_conn s" "tc_log ?s5 = tc_log s" "tc_last_ack_sent ?s5 = ackno" using p1 a by simp_all
  from assms a(1) b c obtain r s6 where
    r: "packet_priority seqno datalen (ip_prio (pk_ip p1)) ?s5 = Inr (r, s6)"
    and s': "s' = upcall (Sent (p1\<lparr>pk_size := datalen + ?hlen, pk_ip := (pk_ip p1)\<lparr>ip_prio := r\<rparr>\<rparr>)) s6"
    unfolding sendpacket_def Let_def by (auto simp: res_bind_Inr_iff)
  show "kept_conn s' = kept_conn s" using priority_kept [OF r] k s' by simp
  show "tc_last_ack_sent s' = ackno" using priority_log [OF r] k s' by (simp add: upcall_def)
  show "\<exists>p. tc_log s' = tc_log s @ [Sent p] \<and> segment_is seqno ackno pflags datalen reason p"
    using priority_log [OF r] k(2) s' p1 h by (auto simp: upcall_def segment_is_def)
qed

section \<open>The length of a segment\<close>

lemma fo_datalen_bounds: "0 \<le> tc_maxseg s \<Longrightarrow> 0 \<le> fo_datalen seqno s \<and> fo_datalen seqno s \<le> tc_maxseg s"
  by (auto simp: fo_datalen_def Let_def)

lemma fo_stages_kept [simp]:
  "kept_conn (fo_signal syn s) = kept_conn s"
  "kept_conn (fo_restart quiet datalen s) = kept_conn s"
  "kept_conn (fo_notice syn quiet s) = kept_conn s"
  by (simp_all add: fo_signal_def bufferempty_def fo_restart_def fo_notice_def Let_def)

lemma fo_prepare_kept:
  "fo_prepare seqno datalen s = (pflags, emptying, s') \<Longrightarrow> kept_conn s' = kept_conn s"
  by (auto simp: fo_prepare_def Let_def split: if_splits)

lemma modify_pflags_kept:
  "modify_pflags_on_foutput pflags r s = (f, s') \<Longrightarrow> kept_conn s' = kept_conn s \<and> tc_log s' = tc_log s \<and>
     tc_TF_NEEDCLOSE s' = tc_TF_NEEDCLOSE s"
  by (auto simp: modify_pflags_on_foutput_def Let_def split: if_splits prod.splits)

lemma fo_close_kept [simp]:
  "kept (fo_close s) = kept s" "tc_maxseg (fo_close s) = tc_maxseg s" "tc_maxseq (fo_close s) = tc_maxseq s"
  "tc_log (fo_close s) = tc_log s" "tc_state (fo_close s) = (if fo_closing s then FIN_WAIT_1 else tc_state s)"
  by (simp_all add: fo_close_def kept_def)

lemma fo_sent_kept [simp]:
  "kept (fo_sent seqno reliable r s) = kept s"
  "tc_maxseg (fo_sent seqno reliable r s) = tc_maxseg s"
  "tc_state (fo_sent seqno reliable r s) = tc_state s"
  "tc_maxseq (fo_sent seqno reliable r s) = max (tc_maxseq s) (seqno + reliable)"
  "tc_log (fo_sent seqno reliable r s) = tc_log s"
  by (auto simp: fo_sent_def Let_def kept_def max_def)

lemma fo_arm_kept: "fo_arm reliable s = Inr s' \<Longrightarrow> kept_conn s' = kept_conn s \<and> tc_log s' = tc_log s"
  by (auto simp: fo_arm_def dest: set_rtx_timer_kept split: if_splits)

lemma kept_same: "kept s' = kept s \<Longrightarrow> tc_rcv_nxt s' = tc_rcv_nxt s"
  by (drule keptD(7)) simp

text \<open>What has been sent is the segment at \<open>seqno\<close>, and the state of the sender moves with it.\<close>

lemma fo_send_sends:
  assumes "fo_send seqno reason datalen r pflags s = Inr (amt, s')"
  shows "kept s' = kept s" "tc_maxseg s' = tc_maxseg s"
    "amt = datalen + of_bool (contains_all pflags TH_SYN) + of_bool (contains_all pflags TH_FIN \<or> fo_closing s)"
    "tc_maxseq s' = max (tc_maxseq s) (seqno + amt)"
    "tc_state s' = (if fo_closing s then FIN_WAIT_1 else tc_state s)"
    "\<exists>p flags. tc_log s' = tc_log s @ [Sent p] \<and> segment_is seqno (tc_rcv_nxt s) flags datalen reason p"
proof -
  obtain f s1 where f: "modify_pflags_on_foutput pflags r s = (f, s1)" by fastforce
  note k = modify_pflags_kept [OF f]
  have cl: "fo_closing s1 = fo_closing s" using k by (simp add: fo_closing_def kept_conn_iff)
  let ?rel = "datalen + of_bool (contains_all pflags TH_SYN) + of_bool (contains_all pflags TH_FIN \<or> fo_closing s)"
  from assms f cl obtain pf s2 s3 where
    a: "sendpacket seqno (tc_rcv_nxt s1) pf datalen reason (fo_close s1) = Inr s2"
    "fo_arm ?rel (fo_sent seqno ?rel r s2) = Inr s3" "amt = ?rel" "s' = s3"
    unfolding fo_send_def Let_def by (auto simp: res_bind_Inr_iff)
  note p = sendpacket_sends [OF a(1)] and t = fo_arm_kept [OF a(2), THEN conjunct1]
    and l = fo_arm_kept [OF a(2), THEN conjunct2]
  show "kept s' = kept s" "tc_maxseg s' = tc_maxseg s" using t p(1) k a(4) by (simp_all add: kept_conn_iff)
  show "amt = ?rel" by (rule a(3))
  show "tc_maxseq s' = max (tc_maxseq s) (seqno + amt)" using t p(1) k a(3,4) by (simp add: kept_conn_iff)
  show "tc_state s' = (if fo_closing s then FIN_WAIT_1 else tc_state s)"
    using t p(1) k a(4) cl by (simp add: kept_conn_iff)
  have "tc_rcv_nxt s1 = tc_rcv_nxt s" using k by (intro kept_same) (simp add: kept_conn_iff)
  with p(3) l k a(4) show "\<exists>p flags. tc_log s' = tc_log s @ [Sent p] \<and> segment_is seqno (tc_rcv_nxt s) flags datalen reason p"
    by auto
qed

section \<open>One call of foutput\<close>

definition sent_in :: "upcall list \<Rightarrow> packet list" where
  "sent_in us = concat (map (\<lambda>u. case u of Sent p \<Rightarrow> [p] | _ \<Rightarrow> []) us)"

lemma sent_in_simps [simp]:
  "sent_in [] = []" "sent_in (us @ vs) = sent_in us @ sent_in vs" "sent_in (Sent p # us) = p # sent_in us"
  "sent_in (Idle # us) = sent_in us" "sent_in (RecvBytes n # us) = sent_in us" "sent_in (DoneData # us) = sent_in us"
  "sent_in (Done # us) = sent_in us"
  by (simp_all add: sent_in_def)

lemma slowdown_windows_log: "slowdown_windows w0 wd s = (w, s') \<Longrightarrow> tc_log s' = tc_log s \<and> tc_TF_NEEDCLOSE s' = tc_TF_NEEDCLOSE s"
  by (auto simp: slowdown_windows_def Let_def split: if_splits)

lemma slowdown_log [simp]: "tc_log (slowdown how s) = tc_log s" "tc_TF_NEEDCLOSE (slowdown how s) = tc_TF_NEEDCLOSE s"
proof -
  have "tc_log (slowdown_by w wd b how t) = tc_log t \<and> tc_TF_NEEDCLOSE (slowdown_by w wd b how t) = tc_TF_NEEDCLOSE t" for w wd b t
    by (cases "slowdown_windows w wd t") (auto simp: slowdown_by_def Let_def dest: slowdown_windows_log)
  then show "tc_log (slowdown how s) = tc_log s" "tc_TF_NEEDCLOSE (slowdown how s) = tc_TF_NEEDCLOSE s"
    by (simp_all add: slowdown_def tcp_slowdown_def count_cut_def Let_def)
qed

lemma fo_stages_sent [simp]:
  "sent_in (tc_log (fo_signal syn s)) = sent_in (tc_log s)"
  "sent_in (tc_log (fo_restart quiet datalen s)) = sent_in (tc_log s)"
  "sent_in (tc_log (fo_notice syn quiet s)) = sent_in (tc_log s)"
  by (simp_all add: fo_signal_def bufferempty_def fo_restart_def fo_notice_def upcall_def Let_def)

lemma fo_prepare_sent:
  "fo_prepare seqno datalen s = (pflags, emptying, s') \<Longrightarrow> sent_in (tc_log s') = sent_in (tc_log s)"
  by (auto simp: fo_prepare_def Let_def split: if_split_asm)

lemma with_segsize_simps [simp]:
  "kept (with_segsize s) = kept s" "tc_maxseg (with_segsize s) = segment_size s" "tc_maxseq (with_segsize s) = tc_maxseq s"
  "tc_state (with_segsize s) = tc_state s" "tc_log (with_segsize s) = tc_log s"
  "tc_highest_ack (with_segsize s) = tc_highest_ack s"
  by (simp_all add: with_segsize_def)

lemma full_foutput_unfold:
  "full_foutput seqno reason s =
    (case fo_prepare seqno (fo_datalen seqno (with_segsize s)) (with_segsize s) of (pflags, emptying, s1) \<Rightarrow>
       if fo_wants_send (seqno < tc_maxseq s) (tc_highest_ack s = tc_maxseq s) (fo_datalen seqno (with_segsize s)) emptying
            pflags s1
       then fo_send seqno reason (fo_datalen seqno (with_segsize s)) (seqno < tc_maxseq s) pflags s1 else Inr (0, s1))"
  unfolding full_foutput_def Let_def with_segsize_simps by (rule refl)

text \<open>The FIN of \<open>close_on_empty_\<close> may close the connection.\<close>

definition close_edge :: "TcpState \<Rightarrow> TcpState \<Rightarrow> bool" where
  "close_edge a b \<longleftrightarrow> b = a \<or> (b = FIN_WAIT_1 \<and> a \<le> ESTABLISHED \<and> a \<noteq> CLOSED)"

text \<open>Either nothing is sent, or one segment.\<close>

lemma full_foutput_cases:
  assumes "full_foutput seqno reason s = Inr (amt, s')"
  defines "n \<equiv> fo_datalen seqno (with_segsize s)"
  shows "kept s' = kept s \<and> tc_maxseg s' = segment_size s \<and>
    ((amt = 0 \<and> tc_maxseq s' = tc_maxseq s \<and> tc_state s' = tc_state s \<and> sent_in (tc_log s') = sent_in (tc_log s)) \<or>
     (\<exists>p flags syn fin. amt = n + of_bool syn + of_bool fin \<and> tc_maxseq s' = max (tc_maxseq s) (seqno + amt) \<and>
       close_edge (tc_state s) (tc_state s') \<and>
       sent_in (tc_log s') = sent_in (tc_log s) @ [p] \<and> segment_is seqno (tc_rcv_nxt s) flags n reason p))"
proof -
  obtain pflags emptying s1 where p: "fo_prepare seqno n (with_segsize s) = (pflags, emptying, s1)"
    by (metis prod_cases3)
  note k = fo_prepare_kept [OF p, unfolded kept_conn_iff with_segsize_simps] and l = fo_prepare_sent [OF p]
  have f: "(if fo_wants_send (seqno < tc_maxseq s) (tc_highest_ack s = tc_maxseq s) n emptying pflags s1
       then fo_send seqno reason n (seqno < tc_maxseq s) pflags s1 else Inr (0, s1)) = Inr (amt, s')"
    using assms(1) p unfolding full_foutput_unfold n_def by simp
  show ?thesis
  proof (cases "fo_wants_send (seqno < tc_maxseq s) (tc_highest_ack s = tc_maxseq s) n emptying pflags s1")
    case True
    with f have "fo_send seqno reason n (seqno < tc_maxseq s) pflags s1 = Inr (amt, s')" by simp
    note F = fo_send_sends [OF this]
    have "tc_rcv_nxt s1 = tc_rcv_nxt s" using k by (intro kept_same) simp
    with F(6) l obtain p flags where P: "sent_in (tc_log s') = sent_in (tc_log s) @ [p]"
      "segment_is seqno (tc_rcv_nxt s) flags n reason p" by auto
    have "kept s' = kept s" "tc_maxseg s' = segment_size s" "tc_maxseq s' = max (tc_maxseq s) (seqno + amt)"
      "close_edge (tc_state s) (tc_state s')" using F(1,2,4,5) k by (auto simp: close_edge_def fo_closing_def)
    with F(3) P show ?thesis by blast
  next
    case False
    with f k l show ?thesis by auto
  qed
qed

lemma deadline_irrelevant [simp]:
  "segment_size (s\<lparr>tc_deadline := d\<rparr>) = segment_size s"
  "with_segsize (s\<lparr>tc_deadline := d\<rparr>) = (with_segsize s)\<lparr>tc_deadline := d\<rparr>"
  "fo_buffered (s\<lparr>tc_deadline := d\<rparr>) = fo_buffered s"
  "window (s\<lparr>tc_deadline := d\<rparr>) = window s"
  "kept (s\<lparr>tc_deadline := d\<rparr>) = kept s"
  by (simp_all add: segment_size_def with_segsize_def fo_buffered_def window_def force_wnd_def kept_def)

lemma fo_datalen_deadline [simp]: "fo_datalen seqno (s\<lparr>tc_deadline := d\<rparr>) = fo_datalen seqno s"
  by (simp add: fo_datalen_def probe_window_def Let_def cong: if_cong)

lemma foutput_cases:
  assumes "foutput seqno reason s = Inr (amt, s')"
  defines "n \<equiv> fo_datalen seqno (with_segsize s)"
  shows "kept s' = kept s \<and> tc_maxseg s' = segment_size s \<and>
    ((amt = 0 \<and> tc_maxseq s' = tc_maxseq s \<and> tc_state s' = tc_state s \<and> sent_in (tc_log s') = sent_in (tc_log s)) \<or>
     (\<exists>p flags syn fin. amt = n + of_bool syn + of_bool fin \<and> tc_maxseq s' = max (tc_maxseq s) (seqno + amt) \<and>
       close_edge (tc_state s) (tc_state s') \<and>
       sent_in (tc_log s') = sent_in (tc_log s) @ [p] \<and> segment_is seqno (tc_rcv_nxt s) flags n reason p))"
proof -
  define t where "t = (if cf_class (tc_cfg s) = DDTcpAgent \<and> dd_hopeless s then s\<lparr>tc_deadline := 0\<rparr> else s)"
  have "full_foutput seqno reason t = Inr (amt, s')"
    using assms(1) unfolding foutput_def t_def .
  note F = full_foutput_cases [OF this]
  have t: "kept t = kept s" "tc_maxseq t = tc_maxseq s" "tc_state t = tc_state s" "tc_log t = tc_log s"
    "segment_size t = segment_size s" "fo_datalen seqno (with_segsize t) = n" "tc_rcv_nxt t = tc_rcv_nxt s"
    unfolding n_def t_def by simp_all
  from F show ?thesis unfolding t .
qed

lemma segsize_idem: "segment_size s \<noteq> 0 \<Longrightarrow> tc_maxseg s' = segment_size s \<Longrightarrow> segment_size s' = segment_size s"
  by (simp add: segment_size_def split: if_split_asm)

section \<open>The loops end\<close>

text \<open>Sending fails only where the source aborts.\<close>

lemma set_rtx_timer_error: "set_rtx_timer s = Inl e \<Longrightarrow> e = Abort"
  by (auto simp: set_rtx_timer_def rtt_timeout_def res_bind_Inl_iff Let_def split: if_split_asm)

lemma unbounded_priority_error: "calc_unbounded_no_deadline_priority seq m s = Inl e \<Longrightarrow> e = Abort"
  by (cases "cf_prio_scheme (tc_cfg s)")
    (auto simp: calc_unbounded_no_deadline_priority_def full_unbounded_priority_def sack_unbounded_priority_def Let_def
      split: if_split_asm)

lemma sendpacket_error: "sendpacket seqno ackno pflags datalen reason s = Inl e \<Longrightarrow> e = Abort"
proof -
  have "packet_priority seqno datalen prio t = Inl e \<Longrightarrow> e = Abort" for prio t
    by (auto simp: packet_priority_def calc_no_deadline_priority_def res_bind_Inl_iff
        dest: unbounded_priority_error split: if_split_asm)
  then show "sendpacket seqno ackno pflags datalen reason s = Inl e \<Longrightarrow> e = Abort"
    unfolding sendpacket_def Let_def by (auto simp: res_bind_Inl_iff split: prod.splits)
qed

lemma foutput_error: "foutput seqno reason s = Inl e \<Longrightarrow> e = Abort"
proof -
  have "fo_send seqno reason n r pflags t = Inl e \<Longrightarrow> e = Abort" for n r pflags t
    unfolding fo_send_def Let_def
    by (auto simp: res_bind_Inl_iff fo_arm_def dest: sendpacket_error set_rtx_timer_error split: prod.splits if_split_asm)
  then show "foutput seqno reason s = Inl e \<Longrightarrow> e = Abort"
    unfolding foutput_def full_foutput_def Let_def by (auto split: prod.splits if_split_asm)
qed

lemma window_le: "window s \<le> trunc (cf_wnd (tc_cfg s))"
proof (cases "tc_frto s = 2")
  case True
  have "force_wnd 2 s \<le> trunc (cf_wnd (tc_cfg s))" if "of_int (force_wnd 2 s) < cf_wnd (tc_cfg s)"
    using trunc_mono [of "of_int (force_wnd 2 s)" "cf_wnd (tc_cfg s)"] that by simp
  with True show ?thesis by (simp add: window_def)
qed (simp add: window_def trunc_mono)

lemma probe_window_le: "0 \<le> tc_maxseg s \<Longrightarrow> probe_window s \<le> trunc (cf_wnd (tc_cfg s)) * tc_maxseg s"
  using mult_right_mono [OF window_le, of "tc_maxseg s" s] by (auto simp: probe_window_def Let_def)

text \<open>Nothing is sent beyond the advertised window without force.\<close>

definition top_seq :: "tcp_agent \<Rightarrow> int" where
  "top_seq s = tc_highest_ack s + trunc (cf_wnd (tc_cfg s)) * segment_size s"

lemma send_allowed_below_top:
  assumes "send_allowed seq s" "0 < tc_maxseg s"
  shows "seq < top_seq s"
proof -
  have "full_send_allowed seq s \<Longrightarrow> seq < tc_highest_ack s + trunc (cf_wnd (tc_cfg s)) * tc_maxseg s"
    using probe_window_le [of s] assms(2) by (auto simp: full_send_allowed_def Let_def split: if_split_asm)
  with assms show ?thesis by (auto simp: send_allowed_def top_seq_def segment_size_def split: if_split_asm)
qed

text \<open>A hole is not below the number it is searched from, and there is none beyond the last block.\<close>

lemma nexthole_loop_ge:
  "nexthole_loop seq ps = (r, c, b) \<Longrightarrow> r = -1 \<or>
     (seq \<le> r \<and> (0 < c \<longrightarrow> (\<exists>p \<in> set ps. seq \<le> sg_start p \<or> seq \<le> sg_end p)))"
  by (induction seq ps rule: nexthole_loop.induct) (auto split: if_split_asm prod.splits)

lemma hole_loop_returns:
  assumes "0 < tc_maxseg s"
  shows "hole_rounds seq (tc_sq s) \<le> n \<Longrightarrow> tc_h_seqno s \<le> seq \<Longrightarrow>
    \<exists>r h q. hole_loop n seq s = Inr (r, s\<lparr>tc_sq := q, tc_h_seqno := h\<rparr>) \<and> rq_fifo q = rq_fifo (tc_sq s) \<and>
      tc_h_seqno s \<le> h \<and> (r = tc_t_seqno s \<or> r = h)"
  using assms
proof (induction n arbitrary: seq s)
  case 0
  then show ?case by (simp add: hole_rounds_def)
next
  case (Suc n)
  obtain r c b q where nh: "nexthole seq (tc_sq s) = ((r, c, b), q)"
    by (cases "nexthole seq (tc_sq s)") auto
  then have q: "rq_fifo q = rq_fifo (tc_sq s)" and nl: "nexthole_loop seq (rq_fifo (tc_sq s)) = (r, c, b)"
    by (auto simp: nexthole_def Let_def)
  let ?s1 = "s\<lparr>tc_sq := q\<rparr>" and ?seq1 = "if cf_prob_cap (tc_cfg s) \<noteq> 0 then r + 1 else r + tc_maxseg s"
  have stop: ?case if "hole_loop (Suc n) seq s = Inr (tc_t_seqno s, ?s1)"
    using that q by (intro exI [of _ "tc_t_seqno s"] exI [of _ "tc_h_seqno s"] exI [of _ q]) simp
  consider "\<not> r > 0" | "r > 0" "hole_ready (tc_cfg s) c b" | "r > 0" "\<not> hole_ready (tc_cfg s) c b" "c \<le> 0"
    | "r > 0" "\<not> hole_ready (tc_cfg s) c b" "c > 0" by linarith
  then show ?case
  proof cases
    case 1
    with nh show ?thesis by (intro stop) (simp add: Let_def)
  next
    case 3
    with nh show ?thesis by (intro stop) (simp add: Let_def)
  next
    case 2
    with nh nexthole_loop_ge [OF nl] Suc.prems(2) q show ?thesis
      by (intro exI [of _ r] exI [of _ r] exI [of _ q]) (auto simp: Let_def)
  next
    case 4
    let ?B = "Max (set ((seq - 1) # map sg_start (rq_fifo (tc_sq s)) @ map sg_end (rq_fifo (tc_sq s))))"
    from nexthole_loop_ge [OF nl] 4 obtain p where p: "seq \<le> r" "p \<in> set (rq_fifo (tc_sq s))" "seq \<le> sg_start p \<or> seq \<le> sg_end p"
      by auto
    have lt: "seq < ?seq1" using p(1) Suc.prems(3) by auto
    have mx: "Max (set ((?seq1 - 1) # map sg_start (rq_fifo q) @ map sg_end (rq_fifo q))) \<le> max (?seq1 - 1) ?B"
      unfolding q by (intro Max.boundedI) (auto intro!: Max_ge simp: le_max_iff_disj)
    have "sg_start p \<le> ?B" "sg_end p \<le> ?B" using p(2) by (auto intro!: Max_ge)
    then have B: "seq \<le> ?B" using p(3) by linarith
    have "nat (m - seq1 + 1) + 1 \<le> n" if "m \<le> max (seq1 - 1) B" "seq \<le> B" "seq < seq1" "nat (B - seq + 1) + 1 \<le> Suc n"
      for m seq1 B :: int using that by (cases "seq1 - 1 \<le> B") auto
    from this [OF mx B lt] have "hole_rounds ?seq1 q \<le> n" using Suc.prems(1) unfolding hole_rounds_def by blast
    with Suc.IH [of ?seq1 ?s1] Suc.prems(2,3) lt q obtain r' h q' where
      ih: "hole_loop n ?seq1 ?s1 = Inr (r', s\<lparr>tc_sq := q', tc_h_seqno := h\<rparr>)" "rq_fifo q' = rq_fifo (tc_sq s)"
      "tc_h_seqno s \<le> h" "r' = tc_t_seqno s \<or> r' = h" by auto
    have "hole_loop (Suc n) seq s = hole_loop n ?seq1 ?s1" using nh 4 by (simp add: Let_def)
    with ih show ?thesis by (simp only:) blast
  qed
qed

lemma nxt_tseq_returns:
  assumes "0 < tc_maxseg s"
  shows "\<exists>r h q. nxt_tseq s = Inr (r, s\<lparr>tc_sq := q, tc_h_seqno := h\<rparr>) \<and> rq_fifo q = rq_fifo (tc_sq s) \<and>
    tc_h_seqno s \<le> h \<and> (r = tc_t_seqno s \<or> (r = h \<and> is_sack (cf_class (tc_cfg s))))"
proof (cases "is_sack (cf_class (tc_cfg s)) \<and> tc_highest_ack s < tc_recover s")
  case True
  from hole_loop_returns [OF assms order_refl order_refl] obtain r h q where
    "hole_loop (hole_rounds (tc_h_seqno s) (tc_sq s)) (tc_h_seqno s) s = Inr (r, s\<lparr>tc_sq := q, tc_h_seqno := h\<rparr>)"
    "rq_fifo q = rq_fifo (tc_sq s)" "tc_h_seqno s \<le> h" "r = tc_t_seqno s \<or> r = h" by blast
  moreover have "nxt_tseq s = hole_loop (hole_rounds (tc_h_seqno s) (tc_sq s)) (tc_h_seqno s) s"
    using True by (simp add: nxt_tseq_def)
  ultimately show ?thesis using True by fastforce
next
  case False
  then have "nxt_tseq s = Inr (tc_t_seqno s, s\<lparr>tc_sq := tc_sq s, tc_h_seqno := tc_h_seqno s\<rparr>)"
    unfolding nxt_tseq_def by auto
  then show ?thesis by blast
qed

lemma sent_moves:
  "tc_t_seqno (sent seq amt s) = (if seq = tc_t_seqno s then tc_t_seqno s + amt else tc_t_seqno s)"
  "tc_h_seqno (sent seq amt s) =
    (if is_sack (cf_class (tc_cfg s)) \<and> seq = tc_h_seqno s then tc_h_seqno s + amt else tc_h_seqno s)"
  "tc_highest_ack (sent seq amt s) = tc_highest_ack s" "tc_cfg (sent seq amt s) = tc_cfg s"
  "tc_maxseg (sent seq amt s) = tc_maxseg s" "tc_maxseq (sent seq amt s) = tc_maxseq s"
  "tc_state (sent seq amt s) = tc_state s" "tc_log (sent seq amt s) = tc_log s"
  "tc_rq (sent seq amt s) = tc_rq s" "tc_sq (sent seq amt s) = tc_sq s" "tc_fid (sent seq amt s) = tc_fid s"
  by (auto simp: sent_def Let_def)

text \<open>What is left to send below the advertised window, by both pointers of the sender.\<close>

definition to_send :: "tcp_agent \<Rightarrow> nat" where
  "to_send s = nat (top_seq s - tc_t_seqno s) + nat (top_seq s - tc_h_seqno s)"

lemma round_progress:
  assumes "nxt_tseq s = Inr (seq, s1)" "foutput seq reason s1 = Inr (amt, s2)" "0 < amt" "0 < tc_maxseg s"
  shows "0 < tc_maxseg (sent seq amt s2)" "to_send (sent seq amt s2) \<le> to_send s"
    "seq < top_seq s \<Longrightarrow> to_send (sent seq amt s2) < to_send s"
proof -
  from nxt_tseq_returns [OF assms(4)] assms(1) obtain h q where
    n: "s1 = s\<lparr>tc_sq := q, tc_h_seqno := h\<rparr>" "tc_h_seqno s \<le> h"
       "seq = tc_t_seqno s \<or> (seq = h \<and> is_sack (cf_class (tc_cfg s)))" by auto
  have m: "segment_size s1 = tc_maxseg s" "segment_size s = tc_maxseg s" using assms(4) n(1) by (simp_all add: segment_size_def)
  have "kept s2 = kept s1 \<and> tc_maxseg s2 = segment_size s1" using foutput_cases [OF assms(2)] by blast
  note k = keptD [OF conjunct1 [OF this]] and g = conjunct2 [OF this]
  have s2: "tc_maxseg s2 = tc_maxseg s" using g m by simp
  show "0 < tc_maxseg (sent seq amt s2)" using g m assms(4) by (simp add: sent_moves)
  have t: "top_seq (sent seq amt s2) = top_seq s"
    using k(1,3) n(1) s2 by (simp add: top_seq_def segment_size_def sent_moves)
  have f: "tc_t_seqno s2 = tc_t_seqno s" "tc_h_seqno s2 = h" "tc_cfg s2 = tc_cfg s" using k(1,4,5) n(1) by simp_all
  show "to_send (sent seq amt s2) \<le> to_send s"
    unfolding to_send_def t sent_moves f using n(2) assms(3) by auto
  show "to_send (sent seq amt s2) < to_send s" if "seq < top_seq s"
    unfolding to_send_def t sent_moves f using n(2,3) assms(3) that by auto
qed

lemma send_loop_returns:
  "0 < tc_maxseg s \<Longrightarrow> to_send s + (if force then 2 else 1) \<le> n \<Longrightarrow>
   send_loop n force reason maxburst npackets s = Inl e \<Longrightarrow> e = Abort"
proof (induction n arbitrary: force npackets s)
  case (Suc n)
  from nxt_tseq_returns [OF Suc.prems(1)] obtain seq s1 where
    n: "nxt_tseq s = Inr (seq, s1)" "tc_cfg s1 = tc_cfg s" "tc_maxseg s1 = tc_maxseg s" "tc_highest_ack s1 = tc_highest_ack s"
    by auto
  show ?case
  proof (cases "foutput seq reason s1")
    case (Inl e')
    with foutput_error [OF Inl] Suc.prems(3) n(1) show ?thesis by (auto simp: random_uniform_def split: if_split_asm)
  next
    case (Inr r)
    then obtain amt s2 where o: "foutput seq reason s1 = Inr (amt, s2)" by (cases r) auto
    define fin where "fin = contains_all (outflags (tc_state s2)) TH_FIN"
    show ?thesis
    proof (cases "(force \<or> send_allowed seq s1) \<and> 0 < amt \<and> \<not> fin")
      case True
      have "to_send (sent seq amt s2) + 1 \<le> n"
      proof (cases force)
        case True
        with round_progress(2) [OF n(1) o _ Suc.prems(1)] Suc.prems(2) \<open>_ \<and> 0 < amt \<and> _\<close> show ?thesis by simp
      next
        case False
        have "top_seq s1 = top_seq s" using n(2-4) by (simp add: top_seq_def segment_size_def)
        with send_allowed_below_top [of seq s1] False True n(3) Suc.prems(1) have "seq < top_seq s" by simp
        with round_progress(3) [OF n(1) o _ Suc.prems(1)] Suc.prems(2) True False show ?thesis by simp
      qed
      with Suc.IH [of "sent seq amt s2" False "npackets + 1"] round_progress(1) [OF n(1) o _ Suc.prems(1)] True
        Suc.prems(3) n(1) o fin_def
      show ?thesis by (auto simp: random_uniform_def Let_def split: if_split_asm)
    next
      case False
      have "contains_any (outflags (tc_state t)) (TH_SYN OR TH_FIN)" if "contains_all (outflags (tc_state t)) TH_FIN" for t
        using that by (cases "tc_state t") (simp_all add: outflags_def contains_all_def contains_any_def TH_defs)
      with False Suc.prems(3) n(1) o fin_def show ?thesis
        by (auto simp: random_uniform_def Let_def sent_moves split: if_split_asm)
    qed
  qed
qed (simp split: if_split_asm)

text \<open>C17: \<open>send_much\<close> always returns. For every state of the agent with a positive segment size, whatever the window, the SACK
  scoreboard, the mode and the burst limit, its loop (and the loop over the holes of the scoreboard inside it)
  ends within the rounds that the definition allows, so the only failures are the aborts of the source for an unknown priority scheme and a
  negative timeout. A round that goes on has moved one of the two send pointers towards the advertised window.\<close>

theorem send_much_returns:
  assumes "0 < tc_maxseg s"
  shows "(\<exists>s'. send_much force reason maxburst s = Inr s') \<or> send_much force reason maxburst s = Inl Abort"
proof -
  have "to_send s + (if force then 2 else 1) \<le> send_rounds s"
    by (simp add: to_send_def send_rounds_def top_seq_def Let_def)
  note r = send_loop_returns [OF assms this]
  show ?thesis
  proof (cases "send_much force reason maxburst s")
    case (Inl e)
    with r show ?thesis by (auto simp: send_much_def split: if_split_asm)
  qed simp
qed

theorem send_much_returns_witness:
  "0 < tc_maxseg (new_agent (default_cfg SackFullTcpAgent)) \<and>
   ((\<exists>s'. send_much True NORMAL 0 (new_agent (default_cfg SackFullTcpAgent)) = Inr s') \<or>
    send_much True NORMAL 0 (new_agent (default_cfg SackFullTcpAgent)) = Inl Abort)"
proof -
  have "0 < tc_maxseg (new_agent (default_cfg SackFullTcpAgent))" by (simp add: new_agent_def)
  with send_much_returns [OF this] show ?thesis by blast
qed

section \<open>Properties of a segment\<close>

text \<open>The sequence number from which the window counts.\<close>

definition snd_una :: "tcp_agent \<Rightarrow> int" where
  "snd_una s = (if tc_highest_ack s < 0 then cf_iss (tc_cfg s) else tc_highest_ack s)"

lemma fo_datalen_within:
  assumes "0 < fo_datalen seqno s" "0 < tc_maxseg s"
  shows "seqno + fo_datalen seqno s \<le> snd_una s + fo_buffered s"
    "\<not> tc_pipectrl s \<Longrightarrow> seqno + fo_datalen seqno s \<le> snd_una s + window s * tc_maxseg s"
proof -
  have p: "probe_window s \<le> window s * tc_maxseg s" by (simp add: probe_window_def Let_def)
  show "seqno + fo_datalen seqno s \<le> snd_una s + fo_buffered s"
    using assms by (auto simp: fo_datalen_def snd_una_def Let_def split: if_split_asm)
  show "\<not> tc_pipectrl s \<Longrightarrow> seqno + fo_datalen seqno s \<le> snd_una s + window s * tc_maxseg s"
    using assms p by (auto simp: fo_datalen_def snd_una_def Let_def split: if_split_asm)
qed

text \<open>C18: one call of \<open>foutput\<close> sends nothing, or exactly one segment, the one that starts at the given sequence number and
  acknowledges everything received in sequence. Its payload is at most a segment long, does not
  reach beyond the data of the application nor, unless the SACK pipe is in control, beyond the window; the
  returned amount is the payload plus one for a SYN and one for a FIN, and \<open>maxseq_\<close> moves up to the end of what has been sent.\<close>

theorem foutput_one_segment:
  assumes "foutput seqno reason s = Inr (amt, s')" "0 < tc_maxseg s"
  shows "(sent_in (tc_log s') = sent_in (tc_log s) \<and> amt = 0 \<and> tc_maxseq s' = tc_maxseq s) \<or>
    (\<exists>p flags n. sent_in (tc_log s') = sent_in (tc_log s) @ [p] \<and> segment_is seqno (tc_rcv_nxt s) flags n reason p \<and>
       0 \<le> n \<and> n \<le> tc_maxseg s \<and> n \<le> amt \<and> amt \<le> n + 2 \<and> tc_maxseq s' = max (tc_maxseq s) (seqno + amt) \<and>
       (0 < n \<longrightarrow> seqno + n \<le> snd_una s + fo_buffered s) \<and>
       (0 < n \<and> \<not> tc_pipectrl s \<longrightarrow> seqno + n \<le> snd_una s + window s * tc_maxseg s))"
proof -
  have w: "with_segsize s = s" using assms(2) by (simp add: with_segsize_def segment_size_def)
  let ?n = "fo_datalen seqno s"
  have b: "0 \<le> ?n" "?n \<le> tc_maxseg s" using fo_datalen_bounds [of s seqno] assms(2) by simp_all
  from foutput_cases [OF assms(1), unfolded w] consider
    "amt = 0" "tc_maxseq s' = tc_maxseq s" "sent_in (tc_log s') = sent_in (tc_log s)"
    | p flags syn fin where "amt = ?n + of_bool syn + of_bool fin" "tc_maxseq s' = max (tc_maxseq s) (seqno + amt)"
      "sent_in (tc_log s') = sent_in (tc_log s) @ [p]" "segment_is seqno (tc_rcv_nxt s) flags ?n reason p" by blast
  then show ?thesis
  proof cases
    case (2 p flags syn fin)
    with b fo_datalen_within [of seqno s] assms(2) show ?thesis
      by (intro disjI2 exI [of _ p] exI [of _ flags] exI [of _ ?n]) auto
  qed simp
qed

definition syn_sent_agent :: tcp_agent where
  "syn_sent_agent = (new_agent (default_cfg SackFullTcpAgent))
     \<lparr>tc_state := SYN_SENT, tc_curseq := 3000, tc_maxseq := -1, tc_highest_ack := -1\<rparr>"

text \<open>The equations that evaluate the sending side on a concrete state.\<close>

lemmas eval_output = foutput_def full_foutput_def with_segsize_def segment_size_def dd_hopeless_def fo_prepare_def fo_signal_def
  fo_restart_def fo_emptying_def fo_notice_def fo_pflags_def fo_datalen_def fo_buffered_def probe_window_def window_def
  fo_wants_send_def outflags_def contains_any_def contains_all_def TH_defs fo_send_def modify_pflags_on_foutput_def
  fo_closing_def fo_close_def sendpacket_def allocpkt_def packet_init_defs build_options_def full_build_options_def
  is_sack_def rq_empty_def rq_init_def on_sendpacket_def get_next_packet_ect_def send_tracker_def always_report_ect_def
  set_ce_if_needed_def copy_to_hdr_flags_def inform_pacer_if_needed_def packet_priority_def upcall_def fo_sent_def
  fo_arm_def set_rtx_timer_def rtt_timeout_def rto_backed_off_def timer_force_cancel_def timer_resched_def timer_init_def
  sender_on_foutput_def is_syn_ack_def is_some_syn_def is_syn_def less_eq_TcpState_def less_TcpState_def need_send_def

lemma syn_sent_foutput: "\<exists>s'. foutput 0 NORMAL syn_sent_agent = Inr (1, s')"
  by (simp add: syn_sent_agent_def new_agent_def default_cfg_def eval_output)

theorem foutput_one_segment_witness:
  "0 < tc_maxseg syn_sent_agent \<and>
   (\<exists>s' p flags n. foutput 0 NORMAL syn_sent_agent = Inr (1, s') \<and>
     sent_in (tc_log s') = sent_in (tc_log syn_sent_agent) @ [p] \<and>
     segment_is 0 (tc_rcv_nxt syn_sent_agent) flags n NORMAL p \<and> tc_maxseq s' = max (tc_maxseq syn_sent_agent) (0 + 1))"
proof -
  have m: "0 < tc_maxseg syn_sent_agent" by (simp add: syn_sent_agent_def new_agent_def)
  from syn_sent_foutput obtain s' where s': "foutput 0 NORMAL syn_sent_agent = Inr (1, s')" ..
  from foutput_one_segment [OF s' m] m s' show ?thesis by auto
qed

end
