(* ===== verification/TcpSender.thy ===== *)
theory TcpSender
  imports TcpSend
begin

text \<open>
  The one-way TCP senders: \<open>TcpAgent\<close> (Tahoe, \<open>tcp/tcp.cc\<close>), \<open>RenoTcpAgent\<close> (\<open>tcp/tcp-reno.cc\<close>) and \<open>NewRenoTcpAgent\<close>
  (\<open>tcp/tcp-newreno.cc\<close>). They number packets instead of bytes, and a \<open>TcpSink\<close> acknowledges them.

  The members of \<open>TcpAgent\<close> that the full agent inherits are those of \<open>sd_tcp\<close>, a record of the full agent whose class
  is \<open>FullTcpAgent\<close>, since that overrides nothing that is used here, and whose members of the subclasses are unused. The other members
  are fields of \<open>sender\<close>. The definitions of \<open>TcpBase\<close> and \<open>TcpInput\<close> that model methods of \<open>TcpAgent\<close> are used as they are. Quick-Start
  (\<open>WITH_QS\<close>) is not compiled in; tracing and the header field \<open>last_rtt\<close>, which only monitors read, are left out. The member \<open>dupwnd_\<close> is unsigned and stays far below \<open>2\<^sup>3\<^sup>2\<close>.
\<close>

datatype sender_class = TcpAgent | RenoTcpAgent | NewRenoTcpAgent

record sender_cfg =
  ow_class :: sender_class
  ow_max_connects :: int
  ow_useHeaders :: bool
  ow_wnd_th :: real
  ow_numdupacks :: int
  ow_timerfix :: bool
  ow_frto_enabled :: bool
  ow_sfrto_enabled :: bool
  ow_spurious_response :: int
  ow_bugfix_ss :: bool
  ow_bugfix_ts :: bool
  ow_bugfix_ack :: bool
  ow_less_careful :: bool
  ow_exitFastRetrans :: bool
  ow_noFastRetrans :: bool
  ow_singledup :: bool
  ow_aggressive_maxburst :: bool
  ow_eln :: bool
  ow_eln_rxmit_thresh :: int
  ow_newreno_changes :: int
  ow_newreno_changes1 :: bool
  ow_partial_window_deflation :: bool
  ow_exit_recovery_fix :: bool
  ow_int_of_inf :: int

record sender =
  sd_cfg :: sender_cfg
  sd_tcp :: tcp_agent
  sd_firstsent :: time
  sd_ts_peer :: time
  sd_ts_echo :: time
  sd_tss :: "time list option"
  sd_tss_size :: int
  sd_pipe_prev :: int
  sd_eln_last_rxmit :: int
  sd_dupwnd :: int
  sd_acked :: int
  sd_new_ssthresh :: int
  sd_basertt :: time
  sd_ack2 :: time
  sd_ack3 :: time
  sd_firstpartial :: bool

definition on_tcp :: "(tcp_agent \<Rightarrow> tcp_agent) \<Rightarrow> sender \<Rightarrow> sender" where
  "on_tcp f s = s\<lparr>sd_tcp := f (sd_tcp s)\<rparr>"

definition on_tcp_res :: "(tcp_agent \<Rightarrow> tcp_agent res) \<Rightarrow> sender \<Rightarrow> sender res" where
  "on_tcp_res f s = res_bind (f (sd_tcp s)) (\<lambda>a. Inr (s\<lparr>sd_tcp := a\<rparr>))"

definition is_reno :: "sender \<Rightarrow> bool" where
  "is_reno s = (ow_class (sd_cfg s) \<noteq> TcpAgent)"

section \<open>Windows\<close>

definition sd_window :: "sender \<Rightarrow> int" where
  "sd_window s =
     (let a = sd_tcp s in
      if is_reno s then
        let win = (if tc_frto a = 2 then force_wnd 2 a else trunc (tc_cwnd a) + sd_dupwnd s)
        in if win > trunc (cf_wnd (tc_cfg a)) then trunc (cf_wnd (tc_cfg a)) else win
      else window a)"

definition sd_windowd :: "sender \<Rightarrow> real" where
  "sd_windowd s =
     (let a = sd_tcp s in
      if is_reno s then
        let win = tc_cwnd a + of_int (sd_dupwnd s) in if win > cf_wnd (tc_cfg a) then cf_wnd (tc_cfg a) else win
      else windowd a)"

definition sd_slowdown :: "TcpSlowdownFlag set \<Rightarrow> sender \<Rightarrow> sender" where
  "sd_slowdown how s = on_tcp (tcp_slowdown (sd_window s) (sd_windowd s) how) s"

definition network_limited :: "sender \<Rightarrow> bool" where
  "network_limited s = (tc_t_seqno (sd_tcp s) > tc_prev_highest_ack (sd_tcp s) + sd_window s)"

section \<open>Congestion marks\<close>

definition sd_ecn :: "int \<Rightarrow> sender \<Rightarrow> sender res" where
  "sd_ecn seqno s = on_tcp_res (ecn (\<lambda>how a. sd_tcp (sd_slowdown how (s\<lparr>sd_tcp := a\<rparr>))) seqno) s"

definition sd_ecn_on_receive :: "packet \<Rightarrow> sender \<Rightarrow> sender res" where
  "sd_ecn_on_receive p s =
     (case ow_class (sd_cfg s) of
        TcpAgent \<Rightarrow>
          if cf_ecn (tc_cfg (sd_tcp s)) \<and> is_ecn_active p (sd_tcp s) then sd_ecn (tcp_seqno (pk_tcp p)) s else Inr s
      | RenoTcpAgent \<Rightarrow>
          if fl_ecnecho (pk_flags p) \<and> cf_ecn (tc_cfg (sd_tcp s)) then sd_ecn (tcp_seqno (pk_tcp p)) s else Inr s
      | NewRenoTcpAgent \<Rightarrow>
          let s1 = on_tcp (tracker_on_receive p) s
          in if fl_ecnecho (pk_flags p) \<and> cf_ecn (tc_cfg (sd_tcp s1)) then sd_ecn (tcp_seqno (pk_tcp p)) s1 else Inr s1)"

definition sd_can_open_cwnd :: "packet \<Rightarrow> tcp_agent \<Rightarrow> bool" where
  "sd_can_open_cwnd p a = (\<not> tc_ect a \<or> \<not> is_ecn_active p a \<or> (cf_old_ecn (tc_cfg a) \<and> tc_ecn_burst a))"

definition sd_ecn_newack :: "packet \<Rightarrow> tcp_agent \<Rightarrow> tcp_agent" where
  "sd_ecn_newack p a =
     (if tc_ect a
      then a\<lparr>tc_ecn_backoff := (is_ecn_active p a \<and> tc_ecn_backoff a), tc_ecn_burst := is_ecn_active p a\<rparr>
      else if is_ecn_active p a \<and> \<not> fl_cong_action (pk_flags p) then a\<lparr>tc_ect := True\<rparr> else a)"

definition sd_ecn_output :: "bool \<Rightarrow> packet \<Rightarrow> tcp_agent \<Rightarrow> packet \<times> tcp_agent" where
  "sd_ecn_output is_retransmit p a =
     (let f = (if cf_ecn (tc_cfg a) then (pk_flags p)\<lparr>fl_ect := True\<rparr> else pk_flags p) in
      if need_to_attach_cong_action is_retransmit a
      then (p\<lparr>pk_flags := f\<lparr>fl_cong_action := True\<rparr>\<rparr>, a\<lparr>tc_cong_action := False\<rparr>)
      else (p\<lparr>pk_flags := f\<rparr>, a))"

definition sd_ecn_output_syn :: "packet \<Rightarrow> tcp_agent \<Rightarrow> packet" where
  "sd_ecn_output_syn p a =
     (if cf_ecn (tc_cfg a) then p\<lparr>pk_flags := (pk_flags p)\<lparr>fl_ecnecho := True, fl_ect := False\<rparr>\<rparr> else p)"

section \<open>The table of timestamps\<close>

definition tss_get :: "int \<Rightarrow> time list \<Rightarrow> time res" where
  "tss_get i xs = (if 0 \<le> i \<and> nat i < length xs then Inr (xs ! nat i) else Inl OutOfBounds)"

definition tss_set :: "int \<Rightarrow> time \<Rightarrow> time list \<Rightarrow> time list res" where
  "tss_set i t xs = (if 0 \<le> i \<and> nat i < length xs then Inr (xs[nat i := t]) else Inl OutOfBounds)"

fun tss_copy :: "int list \<Rightarrow> int \<Rightarrow> time list \<Rightarrow> time list \<Rightarrow> time list res" where
  "tss_copy [] n old new = Inr new"
| "tss_copy (i # is) n old new =
     res_bind (tss_get (i smod n) old) (\<lambda>t.
       res_bind (tss_set (i smod (n * 2)) t new) (tss_copy is n old))"

definition grow_tss :: "sender \<Rightarrow> sender res" where
  "grow_tss s =
     (let n = sd_tss_size s; h = tc_highest_ack (sd_tcp s) in
      case sd_tss s of
        None \<Rightarrow> Inl NullDeref
      | Some xs \<Rightarrow> res_bind (tss_copy [h..h + n - 1] n xs (replicate (nat (n * 2)) 0))
          (\<lambda>ys. Inr (s\<lparr>sd_tss := Some ys, sd_tss_size := n * 2\<rparr>)))"

definition store_ts :: "int \<Rightarrow> sender \<Rightarrow> sender res" where
  "store_ts seqno s =
     (let fix_ts = ow_bugfix_ts (sd_cfg s);
          s1 = (if fix_ts \<and> sd_tss s = None then s\<lparr>sd_tss := Some (replicate (nat (sd_tss_size s)) 0)\<rparr> else s)
      in res_bind
           (if fix_ts \<and> of_int (seqno - tc_highest_ack (sd_tcp s1)) > of_int (sd_tss_size s1) * (0.9 :: real)
            then grow_tss s1 else Inr s1)
           (\<lambda>s2. case sd_tss s2 of
              None \<Rightarrow> Inr s2
            | Some xs \<Rightarrow> res_bind (tss_set (seqno smod sd_tss_size s2) (tc_now (sd_tcp s2)) xs)
                (\<lambda>ys. Inr (s2\<lparr>sd_tss := Some ys\<rparr>))))"

section \<open>Sending a packet\<close>

definition ow_headersize :: "tcp_agent \<Rightarrow> int" where
  "ow_headersize a = cf_tcpip_base_hdr_size (tc_cfg a) + (if cf_ts_option (tc_cfg a) then cf_ts_option_size (tc_cfg a) else 0)"

text \<open>The packet, up to the test for the first packet of a connection.\<close>

definition output_packet :: "int \<Rightarrow> TcpXmissionReason \<Rightarrow> time \<Rightarrow> tcp_agent \<Rightarrow> packet \<times> tcp_agent" where
  "output_packet seqno reason ts_peer a =
     (let (p, a1) = allocpkt a
      in sd_ecn_output (seqno < tc_maxseq a1)
           (p\<lparr>pk_tcp := (pk_tcp p)\<lparr>tcp_seqno := seqno, tcp_ts := tc_now a1, tcp_ts_echo := ts_peer, tcp_reason := reason\<rparr>\<rparr>) a1)"

text \<open>The end of \<open>output\<close>: the packet \<open>p\<close> is sent, with \<open>databytes\<close> bytes of data.\<close>

definition note_sent :: "int \<Rightarrow> int \<Rightarrow> tcp_agent \<Rightarrow> tcp_agent" where
  "note_sent seqno databytes a =
     (if seqno > tc_maxseq a then
        let a1 = a\<lparr>tc_maxseq := seqno\<rparr>
        in if tc_rtt_active a1 then a1
           else if seqno > tc_rtt_seq a1 then a1\<lparr>tc_rtt_active := True, tc_rtt_seq := seqno, tc_rtt_ts := tc_now a1\<rparr>
           else a1\<lparr>tc_rtt_active := True\<rparr>
      else a\<lparr>tc_nrexmitpack := tc_nrexmitpack a + 1, tc_nrexmitbytes := tc_nrexmitbytes a + databytes\<rparr>)"

definition emit :: "int \<Rightarrow> int \<Rightarrow> packet \<Rightarrow> tcp_agent \<Rightarrow> tcp_agent res" where
  "emit seqno databytes p a =
     (let force = (tc_highest_ack a = tc_maxseq a);
          a1 = upcall (Sent p) (a\<lparr>tc_ndatapack := tc_ndatapack a + 1, tc_ndatabytes := tc_ndatabytes a + databytes\<rparr>);
          a2 = (if seqno = tc_curseq a1 \<and> seqno > tc_maxseq a1 then upcall Idle a1 else a1);
          a3 = note_sent seqno databytes a2
      in if tm_status (tc_rtx_timer a3) \<noteq> PENDING \<or> force then set_rtx_timer a3 else Inr a3)"

definition output_syn :: "int \<Rightarrow> packet \<Rightarrow> tcp_agent \<Rightarrow> tcp_agent res" where
  "output_syn max_connects p a =
     (let databytes = pk_size p in
      if tc_syn a then
        let a1 = a\<lparr>tc_curseq := tc_curseq a + 1, tc_syn_connects := tc_syn_connects a + 1\<rparr>
        in if max_connects > 0 \<and> tc_syn_connects a1 > max_connects
           then Inr (a1\<lparr>tc_curseq := 0, tc_rtx_timer := timer_resched (tc_now a1) 10000 (tc_rtx_timer a1)\<rparr>)
           else emit 0 0 (sd_ecn_output_syn (p\<lparr>pk_size := cf_tcpip_base_hdr_size (tc_cfg a)\<rparr>) a1) a1
      else emit 0 databytes (sd_ecn_output_syn p a) a)"

definition ow_output :: "int \<Rightarrow> TcpXmissionReason \<Rightarrow> sender \<Rightarrow> sender res" where
  "ow_output seqno reason s =
     res_bind (store_ts seqno s) (\<lambda>s1.
       case output_packet seqno reason (sd_ts_peer s1) (sd_tcp s1) of (p, a) \<Rightarrow>
         res_bind
           (if seqno = 0 then output_syn (ow_max_connects (sd_cfg s1)) p a
            else emit seqno (pk_size p)
              (if ow_useHeaders (sd_cfg s1) then p\<lparr>pk_size := pk_size p + ow_headersize a\<rparr> else p) a)
           (\<lambda>a1. Inr (s1\<lparr>sd_tcp := a1\<rparr>)))"

section \<open>Quiescence\<close>

text \<open>The sender that was idle or had too little data for a while reduces its window. A division by a retransmission timeout of
  less than a tick traps.\<close>

definition ticks_now :: "tcp_agent \<Rightarrow> int" where
  "ticks_now a = trunc (tc_now a / cf_tcp_tick (tc_cfg a) + 0.5)"

definition set_q :: "(qoption \<Rightarrow> qoption) \<Rightarrow> sender \<Rightarrow> sender" where
  "set_q f = on_tcp (\<lambda>a. a\<lparr>tc_q := f (tc_q a)\<rparr>)"

definition use_window :: "int \<Rightarrow> sender \<Rightarrow> sender" where
  "use_window w = on_tcp (\<lambda>a. a\<lparr>tc_W_used := w\<rparr>)"

definition note_used :: "sender \<Rightarrow> sender" where
  "note_used s =
     (let tmp = tc_t_seqno (sd_tcp s) - tc_highest_ack (sd_tcp s)
      in if tmp > tc_W_used (sd_tcp s) then use_window tmp s else s)"

definition idle_slowdown :: "nat \<Rightarrow> sender \<Rightarrow> sender" where
  "idle_slowdown n s = (sd_slowdown {CWND_HALF_WITH_MIN, TCP_IDLE} ^^ n) (sd_slowdown {SSTHRESH_THREE_QUATER, TCP_IDLE} s)"

definition limited_slowdown :: "sender \<Rightarrow> sender" where
  "limited_slowdown s = sd_slowdown {CWND_HALF_WAY, TCP_IDLE} (sd_slowdown {SSTHRESH_THREE_QUATER, TCP_IDLE} s)"

definition qoption_idle :: "int \<Rightarrow> int \<Rightarrow> sender \<Rightarrow> sender res" where
  "qoption_idle tcp_now rto s =
     (let last = q_T_last (tc_q (sd_tcp s)) in
      if tcp_now - last \<ge> rto then
        if rto = 0 then Inl DivideByZero
        else Inr (use_window 0 (set_q (\<lambda>q. q\<lparr>q_T_prev := tcp_now\<rparr>) (idle_slowdown (nat ((tcp_now - last) sdiv rto)) s)))
      else Inr s)"

definition qoption_limited :: "int \<Rightarrow> int \<Rightarrow> sender \<Rightarrow> sender" where
  "qoption_limited tcp_now rto s =
     (let a = sd_tcp s; restart = (\<lambda>s. use_window 0 (set_q (\<lambda>q. q\<lparr>q_T_prev := tcp_now\<rparr>) s)) in
      if tc_t_seqno a = tc_highest_ack a + sd_window s then restart s
      else if tc_t_seqno a = tc_curseq a - 1 then
        let s1 = note_used s
        in if tcp_now - q_T_prev (tc_q (sd_tcp s1)) \<ge> rto then restart (limited_slowdown s1) else s1
      else s)"

definition rtt_counting_idle :: "int \<Rightarrow> int \<Rightarrow> sender \<Rightarrow> sender" where
  "rtt_counting_idle tcp_now rtt s =
     (let q = tc_q (sd_tcp s) in
      if tcp_now - q_T_last q \<ge> 2 * rtt then
        let RTTs = (tcp_now - q_T_last q) * q_RTT_goodcount q sdiv (rtt * 2) - q_Backoffs q;
            s1 = set_q (\<lambda>q. q\<lparr>q_Backoffs := 0\<rparr>) s
        in if RTTs > 0
           then use_window 0 (set_q (\<lambda>q. q\<lparr>q_RTT_prev := q_RTT_count q\<rparr>) (idle_slowdown (nat RTTs) s1))
           else s1
      else s)"

definition rtt_counting_round :: "int \<Rightarrow> int \<Rightarrow> qoption \<Rightarrow> qoption" where
  "rtt_counting_round tcp_now rtt q =
     (let q1 = q\<lparr>q_T_last := tcp_now\<rparr> in
      if tcp_now - q_T_start q1 \<ge> 2 * rtt then
        let q2 = (if q_RTT_count q1 > q_RTT_goodcount q1 \<or> q_F_full q1 = 1
                  then q1\<lparr>q_RTT_goodcount := (if q_RTT_count q1 < 1 then 1 else q_RTT_count q1)\<rparr> else q1)
        in q2\<lparr>q_RTT_prev := q_RTT_prev q2 - q_RTT_count q2, q_RTT_count := 0, q_T_start := tcp_now, q_F_full := 0\<rparr>
      else q1)"

definition rtt_counting_limited :: "sender \<Rightarrow> sender" where
  "rtt_counting_limited s =
     (let a = sd_tcp s in
      if tc_t_seqno a = tc_highest_ack a + sd_window s
      then use_window 0 (set_q (\<lambda>q. q\<lparr>q_F_full := 1, q_RTT_prev := q_RTT_count q\<rparr>) s)
      else if tc_t_seqno a = tc_curseq a - 1 then
        let s1 = note_used s; q = tc_q (sd_tcp s1)
        in if q_RTT_count q - q_RTT_prev q \<ge> 2
           then use_window 0 (set_q (\<lambda>q. q\<lparr>q_RTT_prev := q_RTT_count q, q_Backoffs := q_Backoffs q + 1\<rparr>) (limited_slowdown s1))
           else s1
      else s)"

definition rtt_counting :: "sender \<Rightarrow> sender" where
  "rtt_counting s =
     (let a = sd_tcp s;
          rtt0 = drop_bit (cf_T_SRTT_BITS (tc_cfg a)) (tc_t_srtt a);
          rtt = (if rtt0 < 1 then 1 else rtt0);
          s1 = rtt_counting_limited (set_q (rtt_counting_round (ticks_now a) rtt) (rtt_counting_idle (ticks_now a) rtt s))
      in if q_F_counting (tc_q (sd_tcp s1)) = 0
         then set_q (\<lambda>q. q\<lparr>q_W_timed := tc_t_seqno (sd_tcp s1), q_F_counting := 1\<rparr>) s1 else s1)"

definition process_qoption_after_send :: "sender \<Rightarrow> sender res" where
  "process_qoption_after_send s =
     (let a = sd_tcp s; tcp_now = ticks_now a; rto = trunc (tc_t_rtxcur a / cf_tcp_tick (tc_cfg a)) in
      if \<not> cf_EnblRTTCtr (tc_cfg a) then
        res_bind (qoption_idle tcp_now rto s) (\<lambda>s1.
          Inr (qoption_limited tcp_now rto (set_q (\<lambda>q. q\<lparr>q_T_last := tcp_now\<rparr>) s1)))
      else Inr (rtt_counting s))"

definition process_qoption_after_ack :: "int \<Rightarrow> sender \<Rightarrow> sender" where
  "process_qoption_after_ack seqno s =
     (let q = tc_q (sd_tcp s) in
      if q_F_counting q = 1 then
        if seqno \<ge> q_W_timed q then set_q (\<lambda>q. q\<lparr>q_RTT_count := q_RTT_count q + 1, q_F_counting := 0\<rparr>) s
        else if tc_dupacks (sd_tcp s) = ow_numdupacks (sd_cfg s) then set_q (\<lambda>q. q\<lparr>q_RTT_count := q_RTT_count q + 1\<rparr>) s
        else s
      else s)"

section \<open>Sending as much as the window allows\<close>

definition next_seqno :: "sender \<Rightarrow> sender" where
  "next_seqno = on_tcp (\<lambda>a. a\<lparr>tc_t_seqno := tc_t_seqno a + 1\<rparr>)"

text \<open>One packet at \<open>t_seqno_\<close>, as \<open>send_much\<close> and \<open>send_one\<close> send it.\<close>

definition output_next :: "TcpXmissionReason \<Rightarrow> sender \<Rightarrow> sender res" where
  "output_next reason s =
     res_bind (ow_output (tc_t_seqno (sd_tcp s)) reason s) (\<lambda>s1.
       res_bind (if cf_QOption (tc_cfg (sd_tcp s1)) then process_qoption_after_send s1 else Inr s1) (\<lambda>s2. Inr (next_seqno s2)))"

definition may_send :: "sender \<Rightarrow> bool" where
  "may_send s =
     (tc_t_seqno (sd_tcp s) \<le> tc_highest_ack (sd_tcp s) + sd_window s \<and> tc_t_seqno (sd_tcp s) < tc_curseq (sd_tcp s))"

primrec ow_send_loop :: "nat \<Rightarrow> bool \<Rightarrow> TcpXmissionReason \<Rightarrow> int \<Rightarrow> int \<Rightarrow> sender \<Rightarrow> sender res" where
  "ow_send_loop 0 force reason maxburst npackets s = Inl Diverges"
| "ow_send_loop (Suc n) force reason maxburst npackets s =
     (if \<not> may_send s then Inr s
      else if cf_overhead (tc_cfg (sd_tcp s)) = 0 \<or> force then
        res_bind (output_next reason s) (\<lambda>s1.
          if maxburst \<noteq> 0 \<and> npackets + 1 = maxburst then Inr s1
          else ow_send_loop n force reason maxburst (npackets + 1) s1)
      else if tm_status (tc_delsnd_timer (sd_tcp s)) \<noteq> PENDING then
        Inr (on_tcp (\<lambda>a. case random_uniform (cf_overhead (tc_cfg a)) a of (r, a1) \<Rightarrow>
               a1\<lparr>tc_delsnd_timer := timer_resched (tc_now a1) r (tc_delsnd_timer a1)\<rparr>) s)
      else if maxburst \<noteq> 0 \<and> npackets = maxburst then Inr s
      else ow_send_loop n force reason maxburst npackets s)"

text \<open>Every round sends a packet and moves \<open>t_seqno_\<close> on towards \<open>curseq_\<close>; only the SYN moves \<open>curseq_\<close> too.\<close>

definition ow_send_rounds :: "sender \<Rightarrow> nat" where
  "ow_send_rounds s = nat (tc_curseq (sd_tcp s) - tc_t_seqno (sd_tcp s)) + 2"

definition ow_send_much :: "bool \<Rightarrow> TcpXmissionReason \<Rightarrow> int \<Rightarrow> sender \<Rightarrow> sender res" where
  "ow_send_much force reason maxburst s =
     (if \<not> force \<and> tm_status (tc_delsnd_timer (sd_tcp s)) = PENDING then Inr s
      else
        let s1 = (if tc_t_seqno (sd_tcp s) = 0 then s\<lparr>sd_firstsent := tc_now (sd_tcp s)\<rparr> else s)
        in if tm_status (tc_burstsnd_timer (sd_tcp s1)) = PENDING then Inr s1
           else ow_send_loop (ow_send_rounds s1) force reason maxburst 0 s1)"

definition send_one :: "sender \<Rightarrow> sender res" where
  "send_one s =
     (let a = sd_tcp s; t = of_int (tc_t_seqno a) :: real; h = of_int (tc_highest_ack a) in
      if t \<le> h + cf_wnd (tc_cfg a) \<and> tc_t_seqno a < tc_curseq a \<and> t \<le> h + tc_cwnd a + of_int (tc_dupacks a)
      then output_next NORMAL s else Inr s)"

definition ow_sendmsg :: "int \<Rightarrow> sender \<Rightarrow> sender res" where
  "ow_sendmsg nbytes s =
     (let a = sd_tcp s; sz = cf_size (tc_cfg a) in
      if nbytes = -1 \<and> tc_curseq a \<le> 2 ^ 30 then ow_send_much False NORMAL (tc_maxburst a) (s\<lparr>sd_tcp := a\<lparr>tc_curseq := 2 ^ 30\<rparr>\<rparr>)
      else if sz = 0 then Inl DivideByZero
      else ow_send_much False NORMAL (tc_maxburst a)
        (s\<lparr>sd_tcp := a\<lparr>tc_curseq := tc_curseq a + nbytes sdiv sz + (if nbytes smod sz \<noteq> 0 then 1 else 0)\<rparr>\<rparr>))"

definition ow_advanceby :: "int \<Rightarrow> sender \<Rightarrow> sender res" where
  "ow_advanceby delta s =
     (let a = (sd_tcp s)\<lparr>tc_curseq := tc_curseq (sd_tcp s) + delta\<rparr>
      in ow_send_much False NORMAL (tc_maxburst a) (s\<lparr>sd_tcp := (if delta > 0 then a\<lparr>tc_closed := False\<rparr> else a)\<rparr>))"

text \<open>The command \<open>advance\<close>.\<close>

definition ow_advance :: "int \<Rightarrow> sender \<Rightarrow> sender res" where
  "ow_advance newseq s =
     (let a = sd_tcp s
      in if newseq > tc_maxseq a then ow_advanceby (newseq - tc_curseq a) s else ow_advanceby (tc_maxseq a - tc_curseq a) s)"

section \<open>The retransmission timer\<close>

definition ow_reset_rtx_timer :: "bool \<Rightarrow> bool \<Rightarrow> tcp_agent \<Rightarrow> tcp_agent res" where
  "ow_reset_rtx_timer is_mild backoff a =
     res_bind (if backoff then rtt_backoff a else Inr a) (\<lambda>a1.
       res_bind (set_rtx_timer a1) (\<lambda>a2.
         Inr ((if is_mild then a2 else a2\<lparr>tc_t_seqno := tc_highest_ack a2 + 1\<rparr>)\<lparr>tc_rtt_active := False\<rparr>)))"

definition newtimer :: "packet \<Rightarrow> tcp_agent \<Rightarrow> tcp_agent res" where
  "newtimer p a =
     (let seqno = tcp_seqno (pk_tcp p) in
      if tc_t_seqno a > seqno \<or> seqno < tc_maxseq a \<or> tc_cwnd a < 1 then set_rtx_timer a else Inr (cancel_rtx_timer a))"

section \<open>Acknowledgements\<close>

text \<open>The samples of the round trip time in \<open>newack\<close>.\<close>

definition ow_newack_sample :: "packet \<Rightarrow> tcp_agent \<Rightarrow> tcp_agent" where
  "ow_newack_sample p a =
     (let seqno = tcp_seqno (pk_tcp p); ts_opt = cf_ts_option (tc_cfg a);
          unback = (\<lambda>a. if can_reset_rto_backoff_tcp p a then a\<lparr>tc_t_backoff := 1, tc_ecn_backoff := False\<rparr> else a);
          a1 = (if ts_opt then
                  let a' = rtt_update (tc_now a - tcp_ts_echo (pk_tcp p)) a in if cf_ts_resetRTO (tc_cfg a') then unback a' else a'
                else a)
      in if tc_rtt_active a1 \<and> seqno \<ge> tc_rtt_seq a1 then
           let a2 = (unback a1)\<lparr>tc_rtt_active := False\<rparr>
           in if ts_opt then a2 else rtt_update (tc_now a2 - tc_rtt_ts a2) a2
         else a1)"

definition ow_newack_advance :: "int \<Rightarrow> tcp_agent \<Rightarrow> tcp_agent" where
  "ow_newack_advance seqno a =
     (let a1 = a\<lparr>tc_dupacks := 0, tc_last_ack := seqno, tc_prev_highest_ack := tc_highest_ack a, tc_highest_ack := seqno\<rparr>
      in if tc_t_seqno a1 < seqno + 1 then a1\<lparr>tc_t_seqno := seqno + 1\<rparr> else a1)"

definition ow_newack :: "packet \<Rightarrow> sender \<Rightarrow> sender res" where
  "ow_newack p s =
     (let c = sd_cfg s in
      res_bind (if \<not> ow_timerfix c then newtimer p (sd_tcp s) else Inr (sd_tcp s)) (\<lambda>a1.
        let a2 = ow_newack_advance (tcp_seqno (pk_tcp p)) a1;
            no_ts = fl_no_ts (pk_flags p);
            a3 = (if no_ts then a2 else ow_newack_sample p a2);
            s1 = (if \<not> no_ts \<and> cf_ts_option (tc_cfg a2) then s\<lparr>sd_ts_echo := tcp_ts_echo (pk_tcp p)\<rparr> else s)
        in res_bind (if ow_timerfix c then newtimer p a3 else Inr a3) (\<lambda>a4.
             Inr (s1\<lparr>sd_tcp := a4\<lparr>tc_awnd := tc_awnd a4 * (1 - ow_wnd_th c) + ow_wnd_th c * tc_cwnd a4\<rparr>\<rparr>))))"

definition spurious_timeout :: "sender \<Rightarrow> sender" where
  "spurious_timeout s =
     (let a = sd_tcp s; r = ow_spurious_response (sd_cfg s);
          cwnd = (if r = 2 then of_int (tc_ssthresh a) else if r = 3 then 1
                  else of_int (tc_t_seqno a - tc_prev_highest_ack a))
      in s\<lparr>sd_tcp := a\<lparr>tc_frto := 0, tc_cwnd := cwnd, tc_ssthresh := sd_pipe_prev s, tc_recover := tc_highest_ack a - 1\<rparr>\<rparr>)"

text \<open>F-RTO after a new acknowledgement.\<close>

definition frto_newack :: "sender \<Rightarrow> sender" where
  "frto_newack s =
     (let a = sd_tcp s in
      if tc_frto a = 1 then
        if of_int (tc_recover a + 1) \<ge> of_int (tc_highest_ack a) + cf_wnd (tc_cfg a) \<or> tc_recover a + 1 \<ge> tc_curseq a
        then s\<lparr>sd_tcp := a\<lparr>tc_frto := 0\<rparr>\<rparr>
        else if tc_highest_ack a = tc_recover a then s\<lparr>sd_tcp := a\<lparr>tc_frto := 0\<rparr>\<rparr>
        else s\<lparr>sd_tcp := a\<lparr>tc_t_seqno := tc_recover a + 1, tc_frto := 2\<rparr>\<rparr>
      else if tc_frto a = 2 then spurious_timeout s
      else s)"

definition check_done :: "tcp_agent \<Rightarrow> tcp_agent" where
  "check_done a =
     (let a1 = (if tc_highest_ack a \<ge> tc_curseq a - 1 \<and> \<not> tc_closed a then upcall Done (a\<lparr>tc_closed := True\<rparr>) else a)
      in if cf_QOption (tc_cfg a1) \<and> tc_curseq a1 = tc_highest_ack a1 + 1 then cancel_rtx_timer a1 else a1)"

definition recv_newack_helper :: "packet \<Rightarrow> sender \<Rightarrow> sender res" where
  "recv_newack_helper p s =
     res_bind (ow_newack p s) (\<lambda>s1.
       res_bind (if sd_can_open_cwnd p (sd_tcp s1) \<and> (\<not> cf_control_increase (tc_cfg (sd_tcp s1)) \<or> network_limited s1)
                 then on_tcp_res opencwnd s1 else Inr s1) (\<lambda>s2.
         Inr (frto_newack (on_tcp (\<lambda>a. check_done (sd_ecn_newack p a)) s2))))"

definition recv_frto_helper :: "packet \<Rightarrow> tcp_agent \<Rightarrow> tcp_agent" where
  "recv_frto_helper p a =
     (if tcp_seqno (pk_tcp p) = tc_last_ack a \<and> tc_frto a \<noteq> 0
      then a\<lparr>tc_t_seqno := tc_highest_ack a + 1, tc_cwnd := of_int (tc_frto a), tc_frto := 0, tc_dupacks := -1\<rparr> else a)"

definition initial_growth :: "sender \<Rightarrow> sender res" where
  "initial_growth s =
     (let a = sd_tcp s in
      if tc_last_ack a = 0 \<and> cf_delay_growth (tc_cfg a)
      then res_bind (initial_window a) (\<lambda>w. Inr (s\<lparr>sd_tcp := a\<lparr>tc_cwnd := w\<rparr>\<rparr>)) else Inr s)"

definition count_dupack :: "sender \<Rightarrow> sender" where
  "count_dupack = on_tcp (\<lambda>a. a\<lparr>tc_dupacks := tc_dupacks a + 1\<rparr>)"

definition tcp_eln :: "packet \<Rightarrow> sender \<Rightarrow> sender res" where
  "tcp_eln p s =
     (let s1 = count_dupack s; a = sd_tcp s1 in
      if tc_dupacks a = ow_eln_rxmit_thresh (sd_cfg s1) \<and> tcp_seqno (pk_tcp p) > sd_eln_last_rxmit s1
      then res_bind (ow_output (tc_last_ack a + 1) DUPACK s1) (\<lambda>s2. Inr (s2\<lparr>sd_eln_last_rxmit := tc_last_ack (sd_tcp s2) + 1\<rparr>))
      else ow_send_much False NORMAL (tc_maxburst a) s1)"

section \<open>Duplicate acknowledgements\<close>

text \<open>The action of Tahoe: without \<open>WITH_QS\<close> the window is not reduced, because the call of \<open>slowdown\<close> stands inside of the conditional
  compilation.\<close>

definition tahoe_action :: "sender \<Rightarrow> sender res" where
  "tahoe_action s = on_tcp_res (\<lambda>a. ow_reset_rtx_timer False False (a\<lparr>tc_recover := tc_maxseq a\<rparr>)) s"

definition ow_tahoe_dupack :: "sender \<Rightarrow> sender res" where
  "ow_tahoe_dupack s =
     (let a = sd_tcp s; c = tc_cfg a in
      if tc_highest_ack a > tc_recover a \<or> (\<not> cf_bug_fix c \<and> \<not> cf_ecn c) \<or> (ow_bugfix_ss (sd_cfg s) \<and> tc_highest_ack a = 0)
      then tahoe_action s
      else if cf_ecn c \<and> tc_last_cwnd_action a = CWA_ECN then
        on_tcp_res (ow_reset_rtx_timer False False) (sd_slowdown {CWND_ONE} (s\<lparr>sd_tcp := a\<lparr>tc_last_cwnd_action := CWA_DUPACK\<rparr>\<rparr>))
      else if cf_bug_fix c then Inr s
      else tahoe_action s)"

text \<open>What Reno and NewReno do when a duplicate acknowledgement follows a congestion mark.\<close>

definition retransmit_lost :: "sender \<Rightarrow> sender res" where
  "retransmit_lost s =
     res_bind (ow_output (tc_last_ack (sd_tcp s) + 1) DUPACK s) (\<lambda>s1. Inr (s1\<lparr>sd_dupwnd := ow_numdupacks (sd_cfg s1)\<rparr>))"

definition reno_action :: "sender \<Rightarrow> sender res" where
  "reno_action s =
     res_bind (on_tcp_res (ow_reset_rtx_timer True False)
         (sd_slowdown {SSTHRESH_HALF, CWND_HALF}
           (on_tcp (\<lambda>a. a\<lparr>tc_recover := tc_maxseq a, tc_last_cwnd_action := CWA_DUPACK\<rparr>) s)))
       retransmit_lost"

definition reno_dupack :: "sender \<Rightarrow> sender res" where
  "reno_dupack s =
     (let a = sd_tcp s; c = tc_cfg a in
      if tc_highest_ack a > tc_recover a \<or> (\<not> cf_bug_fix c \<and> \<not> cf_ecn c) \<or> tc_last_cwnd_action a = CWA_DUPACK \<or>
         (ow_bugfix_ss (sd_cfg s) \<and> tc_highest_ack a = 0)
      then reno_action s
      else if cf_ecn c \<and> tc_last_cwnd_action a = CWA_ECN then
        res_bind (on_tcp_res (ow_reset_rtx_timer True False) (s\<lparr>sd_tcp := a\<lparr>tc_last_cwnd_action := CWA_DUPACK\<rparr>\<rparr>)) retransmit_lost
      else if cf_bug_fix c then Inr s
      else reno_action s)"

text \<open>The action of NewReno: without \<open>WITH_QS\<close> nothing is sent and the window is not reduced.\<close>

definition newreno_action :: "sender \<Rightarrow> sender res" where
  "newreno_action s = on_tcp_res (\<lambda>a. ow_reset_rtx_timer True False (a\<lparr>tc_recover := tc_maxseq a\<rparr>)) s"

definition newreno_heuristics :: "sender \<Rightarrow> sender res" where
  "newreno_heuristics s =
     (let a = sd_tcp s; c = sd_cfg s;
          by_ack = (if ow_bugfix_ack c \<and> tc_cwnd a > 1 \<and> tc_highest_ack a - tc_prev_highest_ack a \<le> ow_numdupacks c
                    then newreno_action s else Inr s)
      in if ow_bugfix_ts c then
           case sd_tss s of
             None \<Rightarrow> Inl NullDeref
           | Some xs \<Rightarrow> res_bind (tss_get (tc_highest_ack a smod sd_tss_size s) xs)
               (\<lambda>t. if t = sd_ts_echo s then newreno_action s else by_ack)
         else by_ack)"

definition newreno_dupack :: "sender \<Rightarrow> sender res" where
  "newreno_dupack s =
     (let a = sd_tcp s; c = tc_cfg a in
      if tc_highest_ack a > tc_recover a \<or> (\<not> cf_bug_fix c \<and> \<not> cf_ecn c) \<or> (ow_bugfix_ss (sd_cfg s) \<and> tc_highest_ack a = 0)
      then newreno_action s
      else if cf_bug_fix c \<and> ow_less_careful (sd_cfg s) \<and> tc_highest_ack a = tc_recover a then newreno_action s
      else if cf_ecn c \<and> tc_last_cwnd_action a = CWA_ECN then
        res_bind (on_tcp_res (ow_reset_rtx_timer True False) (s\<lparr>sd_tcp := a\<lparr>tc_last_cwnd_action := CWA_DUPACK\<rparr>\<rparr>)) (\<lambda>s1.
          retransmit_lost (if should_slowdown_on_dup_ack (send_tracker (sd_tcp s1))
                           then sd_slowdown {SSTHRESH_HALF, CWND_HALF} s1 else s1))
      else if cf_bug_fix c then newreno_heuristics s
      else newreno_action s)"

definition ow_dupack_action :: "sender \<Rightarrow> sender res" where
  "ow_dupack_action s =
     (case ow_class (sd_cfg s) of TcpAgent \<Rightarrow> ow_tahoe_dupack s | RenoTcpAgent \<Rightarrow> reno_dupack s | NewRenoTcpAgent \<Rightarrow> newreno_dupack s)"

section \<open>Receiving acknowledgements\<close>

definition deflate_window :: "packet \<Rightarrow> sender \<Rightarrow> sender" where
  "deflate_window p s =
     (let seqno = tcp_seqno (pk_tcp p); a = sd_tcp s;
          deflate = (if seqno > tc_last_ack a then seqno - tc_last_ack a else 0);
          cwnd = (if sd_dupwnd s > deflate then tc_cwnd a else tc_cwnd a - of_int (deflate - sd_dupwnd s))
      in s\<lparr>sd_dupwnd := (if sd_dupwnd s > deflate then sd_dupwnd s - (deflate - 1) else 1),
           sd_tcp := a\<lparr>tc_cwnd := (if cwnd < 1 then 1 else cwnd)\<rparr>\<rparr>)"

definition partial_advance :: "int \<Rightarrow> tcp_agent \<Rightarrow> tcp_agent" where
  "partial_advance seqno a =
     (let a1 = a\<lparr>tc_last_ack := seqno, tc_highest_ack := seqno\<rparr>;
          a2 = (if tc_t_seqno a1 < seqno + 1 then a1\<lparr>tc_t_seqno := seqno + 1\<rparr> else a1)
      in if tc_rtt_active a2 \<and> seqno \<ge> tc_rtt_seq a2 then a2\<lparr>tc_rtt_active := False, tc_t_backoff := 1\<rparr> else a2)"

definition partialnewack :: "packet \<Rightarrow> sender \<Rightarrow> sender" where
  "partialnewack p s =
     on_tcp (partial_advance (tcp_seqno (pk_tcp p))) (if ow_partial_window_deflation (sd_cfg s) then deflate_window p s else s)"

definition partialnewack_helper :: "packet \<Rightarrow> sender \<Rightarrow> sender res" where
  "partialnewack_helper p s =
     res_bind (if \<not> ow_newreno_changes1 (sd_cfg s) \<or> \<not> sd_firstpartial s
               then on_tcp_res (newtimer p) (s\<lparr>sd_firstpartial := True\<rparr>) else Inr s) (\<lambda>s1.
       let s2 = partialnewack p s1 in ow_output (tc_last_ack (sd_tcp s2) + 1) NORMAL s2)"

text \<open>The estimate of \<open>ssthresh_\<close> from the first acknowledgements. The conversion of an infinity or a NaN to \<open>int\<close> has no defined value:
  it is the parameter \<open>ow_int_of_inf\<close>.\<close>

definition newreno_estimate :: "sender \<Rightarrow> sender" where
  "newreno_estimate s =
     (let n = sd_acked s + 1; s1 = s\<lparr>sd_acked := n\<rparr>; now = tc_now (sd_tcp s) in
      if n = 1 then s1\<lparr>sd_basertt := now - sd_firstsent s\<rparr>
      else if n = 2 then s1\<lparr>sd_ack2 := now\<rparr>
      else if n = 3 then
        let sz = of_int (cf_size (tc_cfg (sd_tcp s))) :: real;
            est = (if now = sd_ack2 s \<or> sz = 0 then ow_int_of_inf (sd_cfg s)
                   else trunc (sd_basertt s * (sz / (now - sd_ack2 s)) / sz));
            s2 = s1\<lparr>sd_ack3 := now, sd_new_ssthresh := est\<rparr>
        in if ow_newreno_changes (sd_cfg s) > 0 \<and> est < tc_ssthresh (sd_tcp s) then on_tcp (\<lambda>a. a\<lparr>tc_ssthresh := est\<rparr>) s2 else s2
      else s1)"

text \<open>The start of \<open>recv\<close>, for an acknowledgement that is not from before the last reset.\<close>

definition ow_recv_begin :: "packet \<Rightarrow> sender \<Rightarrow> sender res" where
  "ow_recv_begin p s =
     res_bind (sd_ecn_on_receive p (on_tcp (\<lambda>a. a\<lparr>tc_nackpack := tc_nackpack a + 1\<rparr>) (s\<lparr>sd_ts_peer := tcp_ts (pk_tcp p)\<rparr>)))
       (\<lambda>s1. Inr (on_tcp (recv_frto_helper p) s1))"

definition dup_or_limited :: "sender \<Rightarrow> sender res" where
  "dup_or_limited s = (if tc_dupacks (sd_tcp s) < ow_numdupacks (sd_cfg s) \<and> ow_singledup (sd_cfg s) then send_one s else Inr s)"

definition in_fast_recovery :: "sender \<Rightarrow> bool" where
  "in_fast_recovery s =
     (tc_dupacks (sd_tcp s) > ow_numdupacks (sd_cfg s) \<and>
      (\<not> ow_exitFastRetrans (sd_cfg s) \<or> tc_last_cwnd_action (sd_tcp s) = CWA_DUPACK))"

definition tahoe_ack :: "packet \<Rightarrow> sender \<Rightarrow> sender res" where
  "tahoe_ack p s =
     (if tcp_seqno (pk_tcp p) > tc_last_ack (sd_tcp s) then res_bind (recv_newack_helper p s) initial_growth
      else if tcp_seqno (pk_tcp p) = tc_last_ack (sd_tcp s) then
        let s1 = count_dupack s
        in if tc_dupacks (sd_tcp s1) = ow_numdupacks (sd_cfg s1) \<and> \<not> ow_noFastRetrans (sd_cfg s1) then ow_dupack_action s1
           else dup_or_limited s1
      else Inr s)"

definition reno_fast_retransmit :: "sender \<Rightarrow> sender res" where
  "reno_fast_retransmit s =
     res_bind (ow_dupack_action s) (\<lambda>s1.
       Inr (if ow_exitFastRetrans (sd_cfg s1) then s1 else s1\<lparr>sd_dupwnd := ow_numdupacks (sd_cfg s1)\<rparr>))"

definition reno_ack :: "packet \<Rightarrow> sender \<Rightarrow> sender res" where
  "reno_ack p s =
     (if tcp_seqno (pk_tcp p) > tc_last_ack (sd_tcp s) then
        let a = sd_tcp s;
            a1 = (if tc_last_cwnd_action a = CWA_DUPACK then a\<lparr>tc_last_cwnd_action := CWA_EXITED\<rparr> else a)
        in res_bind (recv_newack_helper p (s\<lparr>sd_tcp := a1, sd_dupwnd := 0\<rparr>)) initial_growth
      else if tcp_seqno (pk_tcp p) = tc_last_ack (sd_tcp s) then
        let s1 = count_dupack s
        in if tc_dupacks (sd_tcp s1) = ow_numdupacks (sd_cfg s1) then reno_fast_retransmit s1
           else if in_fast_recovery s1 then Inr (s1\<lparr>sd_dupwnd := sd_dupwnd s1 + 1\<rparr>)
           else dup_or_limited s1
      else Inr s)"

definition newreno_exit_recovery :: "packet \<Rightarrow> sender \<Rightarrow> sender" where
  "newreno_exit_recovery p s =
     (if sd_dupwnd s > 0 then
        let a = sd_tcp s;
            a1 = (if tc_last_cwnd_action a = CWA_DUPACK then a\<lparr>tc_last_cwnd_action := CWA_EXITED\<rparr> else a);
            outstanding = tc_maxseq a1 - tcp_seqno (pk_tcp p) + 1;
            a2 = (if ow_exit_recovery_fix (sd_cfg s)
                  then a1\<lparr>tc_cwnd := of_int (if tc_ssthresh a1 < outstanding then tc_ssthresh a1 else outstanding)\<rparr> else a1)
        in s\<lparr>sd_dupwnd := 0, sd_tcp := a2\<rparr>
      else s)"

definition newreno_ack :: "packet \<Rightarrow> sender \<Rightarrow> sender res" where
  "newreno_ack p s =
     (let seqno = tcp_seqno (pk_tcp p) in
      if seqno > tc_last_ack (sd_tcp s) then
        if seqno \<ge> tc_recover (sd_tcp s) \<or> tc_last_cwnd_action (sd_tcp s) \<noteq> CWA_DUPACK
        then res_bind (recv_newack_helper p ((newreno_exit_recovery p s)\<lparr>sd_firstpartial := False\<rparr>)) initial_growth
        else partialnewack_helper p (if ow_partial_window_deflation (sd_cfg s) then s else s\<lparr>sd_dupwnd := 0\<rparr>)
      else if seqno = tc_last_ack (sd_tcp s) then
        let s1 = count_dupack s
        in if tc_dupacks (sd_tcp s1) = ow_numdupacks (sd_cfg s1) then reno_fast_retransmit s1
           else if in_fast_recovery s1 then
             let s2 = s1\<lparr>sd_dupwnd := sd_dupwnd s1 + 1\<rparr>
             in if ow_newreno_changes (sd_cfg s2) > 0 \<and> tc_dupacks (sd_tcp s2) smod 2 = 1
                then ow_output (tc_t_seqno (sd_tcp s2)) NORMAL (next_seqno s2) else Inr s2
           else dup_or_limited s1
      else Inr s)"

text \<open>The end of \<open>recv\<close>: more data is sent.\<close>

definition ow_recv_end :: "packet \<Rightarrow> sender \<Rightarrow> sender res" where
  "ow_recv_end p s =
     (let a = sd_tcp s; n = ow_numdupacks (sd_cfg s) in
      if tcp_seqno (pk_tcp p) \<ge> tc_last_ack a \<or> ow_aggressive_maxburst (sd_cfg s) then
        case ow_class (sd_cfg s) of
          TcpAgent \<Rightarrow> ow_send_much False NORMAL (tc_maxburst a) s
        | RenoTcpAgent \<Rightarrow> if tc_dupacks a = 0 \<or> tc_dupacks a > n - 1 then ow_send_much False NORMAL (tc_maxburst a) s else Inr s
        | NewRenoTcpAgent \<Rightarrow>
            if tc_dupacks a = 0 then ow_send_much False NORMAL (tc_maxburst a) s
            else if tc_dupacks a > n - 1 \<and> ow_newreno_changes (sd_cfg s) = 0 then ow_send_much False NORMAL 2 s
            else Inr s
      else Inr s)"

definition ow_ack :: "packet \<Rightarrow> sender \<Rightarrow> sender res" where
  "ow_ack p s =
     (case ow_class (sd_cfg s) of
        TcpAgent \<Rightarrow> res_bind (tahoe_ack p s) (\<lambda>s1.
          Inr (if cf_QOption (tc_cfg (sd_tcp s1)) \<and> cf_EnblRTTCtr (tc_cfg (sd_tcp s1))
               then process_qoption_after_ack (tcp_seqno (pk_tcp p)) s1 else s1))
      | RenoTcpAgent \<Rightarrow> reno_ack p s
      | NewRenoTcpAgent \<Rightarrow> newreno_ack p s)"

definition ow_recv :: "packet \<Rightarrow> sender \<Rightarrow> sender res" where
  "ow_recv p s0 =
     (let s = (if ow_class (sd_cfg s0) = NewRenoTcpAgent then newreno_estimate s0 else s0) in
      if tcp_ts (pk_tcp p) < tc_lastreset (sd_tcp s) then Inr s
      else res_bind (ow_recv_begin p s) (\<lambda>s1.
        if tcp_seqno (pk_tcp p) = tc_last_ack (sd_tcp s1) \<and> fl_eln (pk_flags p) \<and> ow_eln (sd_cfg s1) then tcp_eln p s1
        else res_bind (ow_ack p s1) (ow_recv_end p)))"

section \<open>Timeouts\<close>

definition first_dropped :: "sender \<Rightarrow> tcp_agent \<Rightarrow> tcp_agent" where
  "first_dropped s a =
     (if tc_highest_ack a = -1 \<and> tc_wnd_init_option a = 2 then a\<lparr>tc_wnd_init_option := 1\<rparr>
      else if tc_highest_ack a = -1 \<and> tc_wnd_init_option a = 1 \<and> tc_wnd_init a > 1 \<and> ow_bugfix_ss (sd_cfg s) then a\<lparr>tc_wnd_init := 1\<rparr>
      else a)"

definition timeout_slowdown :: "sender \<Rightarrow> sender" where
  "timeout_slowdown s0 =
     (let s = on_tcp (\<lambda>a. first_dropped s0 (a\<lparr>tc_recover := tc_maxseq a\<rparr>)) s0;
          a = sd_tcp s; c = sd_cfg s;
          frto = (\<lambda>s. if ow_frto_enabled c \<or> ow_sfrto_enabled c then on_tcp (\<lambda>a. a\<lparr>tc_frto := 1\<rparr>) s else s)
      in if tc_highest_ack a = tc_maxseq a \<and> cf_restart_bugfix (tc_cfg a) then sd_slowdown {CWND_ONE, NO_OUTSTANDING_DATA} s
         else if tc_highest_ack a < tc_recover a \<and> tc_last_cwnd_action a = CWA_ECN then frto (sd_slowdown {CWND_ONE} s)
         else frto (sd_slowdown {SSTHRESH_HALF, CWND_RESTART}
           (s\<lparr>sd_tcp := a\<lparr>tc_nrexmit := tc_nrexmit a + 1, tc_last_cwnd_action := CWA_TIMEOUT\<rparr>\<rparr>)))"

definition timeout_rtx :: "sender \<Rightarrow> sender res" where
  "timeout_rtx s =
     (let s1 = on_tcp (\<lambda>a. a\<lparr>tc_frto := 0\<rparr>) s;
          w = sd_window s1;
          s2 = s1\<lparr>sd_pipe_prev := (if w > tc_ssthresh (sd_tcp s1) then w else tc_ssthresh (sd_tcp s1))\<rparr>;
          s3 = on_tcp (\<lambda>a. if tc_cwnd a < 1 then a\<lparr>tc_cwnd := 1\<rparr> else a) s2;
          a3 = sd_tcp s3; idle = (tc_highest_ack a3 = tc_maxseq a3);
          s4 = (if idle \<and> \<not> cf_slow_start_restart (tc_cfg a3) then s3 else timeout_slowdown s3)
      in res_bind (on_tcp_res (ow_reset_rtx_timer False (\<not> (idle \<and> cf_restart_bugfix (tc_cfg a3)))) s4) (\<lambda>s5.
           ow_send_much False TIMEOUT (tc_maxburst (sd_tcp s5)) (on_tcp (\<lambda>a. a\<lparr>tc_last_cwnd_action := CWA_TIMEOUT\<rparr>) s5)))"

definition ow_timeout_rtx :: "sender \<Rightarrow> sender res" where
  "ow_timeout_rtx s =
     (if is_reno s then
        timeout_rtx ((on_tcp (\<lambda>a. let a1 = a\<lparr>tc_dupacks := 0\<rparr> in if cf_bug_fix (tc_cfg a1) then a1\<lparr>tc_recover := tc_maxseq a1\<rparr> else a1) s)
          \<lparr>sd_dupwnd := 0\<rparr>)
      else timeout_rtx s)"

text \<open>\<open>timeout_nonrtx\<close> of the delayed send timer; the burst send timer has no action and nothing in these classes sets it.\<close>

definition timeout_delsnd :: "sender \<Rightarrow> sender res" where
  "timeout_delsnd s = ow_send_much True TIMEOUT (tc_maxburst (sd_tcp s)) s"

text \<open>The expiry of a timer: \<open>TimerHandler::handle\<close> around \<open>expire\<close>.\<close>

definition ow_expire_rtx :: "sender \<Rightarrow> sender res" where
  "ow_expire_rtx s =
     res_bind (timer_handle_begin (tc_rtx_timer (sd_tcp s))) (\<lambda>t.
       res_bind (ow_timeout_rtx (on_tcp (\<lambda>a. a\<lparr>tc_rtx_timer := t\<rparr>) s)) (\<lambda>s1.
         Inr (on_tcp (\<lambda>a. a\<lparr>tc_rtx_timer := timer_handle_end (tc_rtx_timer a)\<rparr>) s1)))"

definition ow_expire_delsnd :: "sender \<Rightarrow> sender res" where
  "ow_expire_delsnd s =
     res_bind (timer_handle_begin (tc_delsnd_timer (sd_tcp s))) (\<lambda>t.
       res_bind (timeout_delsnd (on_tcp (\<lambda>a. a\<lparr>tc_delsnd_timer := t\<rparr>) s)) (\<lambda>s1.
         Inr (on_tcp (\<lambda>a. a\<lparr>tc_delsnd_timer := timer_handle_end (tc_delsnd_timer a)\<rparr>) s1)))"

text \<open>The command \<open>persist\<close>: the parameters of another connection are taken over.\<close>

definition ow_persist :: "tcp_agent \<Rightarrow> tcp_agent \<Rightarrow> tcp_agent" where
  "ow_persist other a = a\<lparr>tc_cwnd := tc_cwnd other, tc_awnd := tc_awnd other, tc_ssthresh := tc_ssthresh other, tc_t_rtt := tc_t_rtt other,
     tc_t_srtt := tc_t_srtt other, tc_t_rttvar := tc_t_rttvar other, tc_t_backoff := tc_t_backoff other\<rparr>"

section \<open>New objects and resetting\<close>

text \<open>The member \<open>eln_last_rxmit_\<close> is never initialised: its first value is the argument \<open>eln\<close>.\<close>

definition new_sender :: "int \<Rightarrow> sender_cfg \<Rightarrow> full_cfg \<Rightarrow> sender" where
  "new_sender eln c cc = \<lparr>sd_cfg = c, sd_tcp = (new_agent cc)\<lparr>tc_rtt_seq := -1, tc_first_decrease := True, tc_prev_highest_ack := -10\<rparr>,
     sd_firstsent = 0, sd_ts_peer = 0, sd_ts_echo = 0, sd_tss = None, sd_tss_size = 100, sd_pipe_prev = 0, sd_eln_last_rxmit = eln,
     sd_dupwnd = 0, sd_acked = 0, sd_new_ssthresh = 0, sd_basertt = 0, sd_ack2 = 0, sd_ack3 = 0, sd_firstpartial = False\<rparr>"

definition ow_set_initial_window :: "tcp_agent \<Rightarrow> tcp_agent res" where
  "ow_set_initial_window a =
     (if tc_syn a \<and> cf_delay_growth (tc_cfg a) then Inr (a\<lparr>tc_cwnd := 1, tc_syn_connects := 0\<rparr>)
      else res_bind (initial_window a) (\<lambda>w. Inr (a\<lparr>tc_cwnd := w\<rparr>)))"

definition ow_reset :: "sender \<Rightarrow> sender res" where
  "ow_reset s =
     on_tcp_res (\<lambda>a. res_bind (ow_set_initial_window ((rtt_init a)\<lparr>tc_rtt_seq := -1, tc_dupacks := 0, tc_curseq := 0\<rparr>))
       (\<lambda>a1. Inr (reset_options (reset_counters (reset_connection a1))))) s"

end
