(* ===== verification/TcpSenderInv.thy ===== *)
theory TcpSenderInv
  imports TcpSender
begin

text \<open>
  What the one-way senders of \<open>TcpSender\<close> keep. The \<open>core\<close> of an agent holds the sequence numbers, the packets sent and the state of the timers;
  \<open>sender_inv\<close> is the invariant, and \<open>keeps s s'\<close> says that an operation kept it, sent only what the invariant allows and acknowledged nothing. Sending
  in all its forms and the reactions to congestion marks and duplicate acknowledgements are shown to succeed and to keep it.
\<close>

section \<open>Operations that succeed\<close>

definition succeeds :: "'a res \<Rightarrow> ('a \<Rightarrow> bool) \<Rightarrow> bool" where
  "succeeds r P = (\<exists>x. r = Inr x \<and> P x)"

lemma succeeds_simps [simp]:
  "succeeds (Inr x) P = P x"
  "succeeds (Inl e) P = False"
  "succeeds (res_bind m f) P = succeeds m (\<lambda>x. succeeds (f x) P)"
  by (auto simp: succeeds_def res_bind_Inr_iff)

lemma succeeds_mono: "succeeds r P \<Longrightarrow> (\<And>x. P x \<Longrightarrow> Q x) \<Longrightarrow> succeeds r Q"
  by (auto simp: succeeds_def)

lemma succeeds_on_tcp_res [simp]:
  "succeeds (on_tcp_res f s) P = succeeds (f (sd_tcp s)) (\<lambda>a. P (s\<lparr>sd_tcp := a\<rparr>))"
  by (simp add: on_tcp_res_def)

section \<open>What a sender keeps\<close>

text \<open>Everything of the agent that the statements below speak of, but for the estimator of the round trip time.\<close>

record core_view =
  co_cfg :: full_cfg
  co_syn :: bool
  co_lastreset :: time
  co_now :: time
  co_minrto :: real
  co_init_option :: int
  co_sent :: "packet list"
  co_t :: int
  co_cur :: int
  co_max :: int
  co_ack :: int
  co_last :: int
  co_rtx :: bool
  co_delsnd :: bool
  co_burst :: bool

definition core :: "tcp_agent \<Rightarrow> core_view" where
  "core a = \<lparr>co_cfg = tc_cfg a, co_syn = tc_syn a, co_lastreset = tc_lastreset a, co_now = tc_now a, co_minrto = tc_minrto a,
     co_init_option = tc_wnd_init_option a, co_sent = sent_in (tc_log a), co_t = tc_t_seqno a, co_cur = tc_curseq a,
     co_max = tc_maxseq a, co_ack = tc_highest_ack a, co_last = tc_last_ack a, co_rtx = (tm_status (tc_rtx_timer a) = PENDING),
     co_delsnd = (tm_status (tc_delsnd_timer a) = PENDING), co_burst = (tm_status (tc_burstsnd_timer a) = PENDING)\<rparr>"

lemma core_sel:
  "co_cfg (core a) = tc_cfg a" "co_syn (core a) = tc_syn a" "co_lastreset (core a) = tc_lastreset a" "co_now (core a) = tc_now a"
  "co_minrto (core a) = tc_minrto a" "co_init_option (core a) = tc_wnd_init_option a" "co_sent (core a) = sent_in (tc_log a)"
  "co_t (core a) = tc_t_seqno a" "co_cur (core a) = tc_curseq a" "co_max (core a) = tc_maxseq a" "co_ack (core a) = tc_highest_ack a"
  "co_last (core a) = tc_last_ack a" "co_rtx (core a) = (tm_status (tc_rtx_timer a) = PENDING)"
  "co_delsnd (core a) = (tm_status (tc_delsnd_timer a) = PENDING)" "co_burst (core a) = (tm_status (tc_burstsnd_timer a) = PENDING)"
  by (simp_all add: core_def)

text \<open>Reading the fields of the agent from the view.\<close>

lemmas core_get = core_sel [symmetric]

lemma core_set [simp]:
  "core (a\<lparr>tc_t_seqno := x_t\<rparr>) = (core a)\<lparr>co_t := x_t\<rparr>" "core (a\<lparr>tc_curseq := x_c\<rparr>) = (core a)\<lparr>co_cur := x_c\<rparr>"
  "core (a\<lparr>tc_maxseq := x_m\<rparr>) = (core a)\<lparr>co_max := x_m\<rparr>" "core (a\<lparr>tc_highest_ack := x_h\<rparr>) = (core a)\<lparr>co_ack := x_h\<rparr>"
  "core (a\<lparr>tc_last_ack := x_l\<rparr>) = (core a)\<lparr>co_last := x_l\<rparr>"
  "core (a\<lparr>tc_rtx_timer := x_r\<rparr>) = (core a)\<lparr>co_rtx := (tm_status x_r = PENDING)\<rparr>"
  "core (a\<lparr>tc_delsnd_timer := x_d\<rparr>) = (core a)\<lparr>co_delsnd := (tm_status x_d = PENDING)\<rparr>"
  "core (a\<lparr>tc_wnd_init_option := x_o\<rparr>) = (core a)\<lparr>co_init_option := x_o\<rparr>"
  "core (upcall (Sent p) a) = (core a)\<lparr>co_sent := co_sent (core a) @ [p]\<rparr>"
  by (simp_all add: core_def upcall_def)

lemma core_unchanged [simp]:
  "core (a\<lparr>tc_cwnd := x_cwnd\<rparr>) = core a" "core (a\<lparr>tc_ssthresh := x_ssthresh\<rparr>) = core a"
  "core (a\<lparr>tc_dupacks := x_dupacks\<rparr>) = core a" "core (a\<lparr>tc_last_cwnd_action := x_last_cwnd_action\<rparr>) = core a"
  "core (a\<lparr>tc_count := x_count\<rparr>) = core a" "core (a\<lparr>tc_rtt_active := x_rtt_active\<rparr>) = core a"
  "core (a\<lparr>tc_rtt_seq := x_rtt_seq\<rparr>) = core a" "core (a\<lparr>tc_rtt_ts := x_rtt_ts\<rparr>) = core a"
  "core (a\<lparr>tc_t_rtt := x_t_rtt\<rparr>) = core a" "core (a\<lparr>tc_syn_connects := x_syn_connects\<rparr>) = core a"
  "core (a\<lparr>tc_frto := x_frto\<rparr>) = core a" "core (a\<lparr>tc_awnd := x_awnd\<rparr>) = core a"
  "core (a\<lparr>tc_first_decrease := x_first_decrease\<rparr>) = core a" "core (a\<lparr>tc_fcnt := x_fcnt\<rparr>) = core a"
  "core (a\<lparr>tc_ndatapack := x_ndatapack\<rparr>) = core a" "core (a\<lparr>tc_ndatabytes := x_ndatabytes\<rparr>) = core a"
  "core (a\<lparr>tc_nackpack := x_nackpack\<rparr>) = core a" "core (a\<lparr>tc_nrexmit := x_nrexmit\<rparr>) = core a"
  "core (a\<lparr>tc_nrexmitpack := x_nrexmitpack\<rparr>) = core a" "core (a\<lparr>tc_nrexmitbytes := x_nrexmitbytes\<rparr>) = core a"
  "core (a\<lparr>tc_ncwndcuts := x_ncwndcuts\<rparr>) = core a" "core (a\<lparr>tc_ncwndcuts1 := x_ncwndcuts1\<rparr>) = core a"
  "core (a\<lparr>tc_lldct_w_c := x_lldct_w_c\<rparr>) = core a" "core (a\<lparr>tc_hstcp := x_hstcp\<rparr>) = core a"
  "core (a\<lparr>tc_q := x_q\<rparr>) = core a" "core (a\<lparr>tc_W_used := x_W_used\<rparr>) = core a"
  "core (a\<lparr>tc_prev_highest_ack := x_prev_highest_ack\<rparr>) = core a" "core (a\<lparr>tc_ect := x_ect\<rparr>) = core a"
  "core (a\<lparr>tc_ecn_backoff := x_ecn_backoff\<rparr>) = core a" "core (a\<lparr>tc_ecnhat_beta := x_ecnhat_beta\<rparr>) = core a"
  "core (a\<lparr>tc_ecn_burst := x_ecn_burst\<rparr>) = core a" "core (a\<lparr>tc_cong_action := x_cong_action\<rparr>) = core a"
  "core (a\<lparr>tc_use_rtt := x_use_rtt\<rparr>) = core a" "core (a\<lparr>tc_necnresponses := x_necnresponses\<rparr>) = core a"
  "core (a\<lparr>tc_ecnhat_send := x_ecnhat_send\<rparr>) = core a" "core (a\<lparr>tc_closed := x_closed\<rparr>) = core a"
  "core (a\<lparr>tc_npkts := x_npkts\<rparr>) = core a" "core (a\<lparr>tc_draws := x_draws\<rparr>) = core a"
  "core (a\<lparr>tc_decrease_num := x_decrease_num\<rparr>) = core a" "core (a\<lparr>tc_increase_num := x_increase_num\<rparr>) = core a"
  "core (a\<lparr>tc_wnd_init := x_wnd_init\<rparr>) = core a" "core (a\<lparr>tc_recover := x_recover\<rparr>) = core a"
  "core (a\<lparr>tc_t_srtt := x_t_srtt\<rparr>) = core a" "core (a\<lparr>tc_t_rttvar := x_t_rttvar\<rparr>) = core a"
  "core (a\<lparr>tc_t_backoff := x_t_backoff\<rparr>) = core a" "core (a\<lparr>tc_t_rtxcur := x_t_rtxcur\<rparr>) = core a"
  "core (upcall Idle a) = core a" "core (upcall Done a) = core a"
  by (simp_all add: core_def upcall_def)

text \<open>The estimator of the round trip time.\<close>

definition rtt_ok :: "tcp_agent \<Rightarrow> bool" where
  "rtt_ok a \<longleftrightarrow> 0 \<le> tc_t_srtt a \<and> 0 \<le> tc_t_rttvar a \<and> 0 \<le> tc_t_rtxcur a \<and> 0 \<le> tc_t_backoff a"

definition clock_ok :: "tcp_agent \<Rightarrow> bool" where
  "clock_ok a \<longleftrightarrow> 0 < cf_tcp_tick (tc_cfg a) \<and> 0 \<le> cf_maxrto (tc_cfg a) \<and> 0 \<le> tc_minrto a \<and> cf_class (tc_cfg a) = FullTcpAgent"

lemma clock_ok_core: "core a = core b \<Longrightarrow> clock_ok a = clock_ok b"
  by (simp add: clock_ok_def core_get)

lemma rtt_ok_update [simp]:
  "rtt_ok (a\<lparr>tc_cwnd := x_cwnd\<rparr>) = rtt_ok a" "rtt_ok (a\<lparr>tc_ssthresh := x_ssthresh\<rparr>) = rtt_ok a"
  "rtt_ok (a\<lparr>tc_dupacks := x_dupacks\<rparr>) = rtt_ok a" "rtt_ok (a\<lparr>tc_last_cwnd_action := x_last_cwnd_action\<rparr>) = rtt_ok a"
  "rtt_ok (a\<lparr>tc_count := x_count\<rparr>) = rtt_ok a" "rtt_ok (a\<lparr>tc_rtt_active := x_rtt_active\<rparr>) = rtt_ok a"
  "rtt_ok (a\<lparr>tc_rtt_seq := x_rtt_seq\<rparr>) = rtt_ok a" "rtt_ok (a\<lparr>tc_rtt_ts := x_rtt_ts\<rparr>) = rtt_ok a"
  "rtt_ok (a\<lparr>tc_t_rtt := x_t_rtt\<rparr>) = rtt_ok a" "rtt_ok (a\<lparr>tc_syn_connects := x_syn_connects\<rparr>) = rtt_ok a"
  "rtt_ok (a\<lparr>tc_frto := x_frto\<rparr>) = rtt_ok a" "rtt_ok (a\<lparr>tc_awnd := x_awnd\<rparr>) = rtt_ok a"
  "rtt_ok (a\<lparr>tc_first_decrease := x_first_decrease\<rparr>) = rtt_ok a" "rtt_ok (a\<lparr>tc_fcnt := x_fcnt\<rparr>) = rtt_ok a"
  "rtt_ok (a\<lparr>tc_ndatapack := x_ndatapack\<rparr>) = rtt_ok a" "rtt_ok (a\<lparr>tc_ndatabytes := x_ndatabytes\<rparr>) = rtt_ok a"
  "rtt_ok (a\<lparr>tc_nackpack := x_nackpack\<rparr>) = rtt_ok a" "rtt_ok (a\<lparr>tc_nrexmit := x_nrexmit\<rparr>) = rtt_ok a"
  "rtt_ok (a\<lparr>tc_nrexmitpack := x_nrexmitpack\<rparr>) = rtt_ok a" "rtt_ok (a\<lparr>tc_nrexmitbytes := x_nrexmitbytes\<rparr>) = rtt_ok a"
  "rtt_ok (a\<lparr>tc_ncwndcuts := x_ncwndcuts\<rparr>) = rtt_ok a" "rtt_ok (a\<lparr>tc_ncwndcuts1 := x_ncwndcuts1\<rparr>) = rtt_ok a"
  "rtt_ok (a\<lparr>tc_lldct_w_c := x_lldct_w_c\<rparr>) = rtt_ok a" "rtt_ok (a\<lparr>tc_hstcp := x_hstcp\<rparr>) = rtt_ok a"
  "rtt_ok (a\<lparr>tc_q := x_q\<rparr>) = rtt_ok a" "rtt_ok (a\<lparr>tc_W_used := x_W_used\<rparr>) = rtt_ok a"
  "rtt_ok (a\<lparr>tc_prev_highest_ack := x_prev_highest_ack\<rparr>) = rtt_ok a" "rtt_ok (a\<lparr>tc_ect := x_ect\<rparr>) = rtt_ok a"
  "rtt_ok (a\<lparr>tc_ecn_backoff := x_ecn_backoff\<rparr>) = rtt_ok a" "rtt_ok (a\<lparr>tc_ecnhat_beta := x_ecnhat_beta\<rparr>) = rtt_ok a"
  "rtt_ok (a\<lparr>tc_ecn_burst := x_ecn_burst\<rparr>) = rtt_ok a" "rtt_ok (a\<lparr>tc_cong_action := x_cong_action\<rparr>) = rtt_ok a"
  "rtt_ok (a\<lparr>tc_use_rtt := x_use_rtt\<rparr>) = rtt_ok a" "rtt_ok (a\<lparr>tc_necnresponses := x_necnresponses\<rparr>) = rtt_ok a"
  "rtt_ok (a\<lparr>tc_ecnhat_send := x_ecnhat_send\<rparr>) = rtt_ok a" "rtt_ok (a\<lparr>tc_closed := x_closed\<rparr>) = rtt_ok a"
  "rtt_ok (a\<lparr>tc_npkts := x_npkts\<rparr>) = rtt_ok a" "rtt_ok (a\<lparr>tc_draws := x_draws\<rparr>) = rtt_ok a"
  "rtt_ok (a\<lparr>tc_decrease_num := x_decrease_num\<rparr>) = rtt_ok a" "rtt_ok (a\<lparr>tc_increase_num := x_increase_num\<rparr>) = rtt_ok a"
  "rtt_ok (a\<lparr>tc_wnd_init := x_wnd_init\<rparr>) = rtt_ok a" "rtt_ok (a\<lparr>tc_recover := x_recover\<rparr>) = rtt_ok a"
  "rtt_ok (a\<lparr>tc_rtx_timer := x_rtx_timer\<rparr>) = rtt_ok a" "rtt_ok (a\<lparr>tc_delsnd_timer := x_delsnd_timer\<rparr>) = rtt_ok a"
  "rtt_ok (a\<lparr>tc_t_seqno := x_t_seqno\<rparr>) = rtt_ok a" "rtt_ok (a\<lparr>tc_curseq := x_curseq\<rparr>) = rtt_ok a"
  "rtt_ok (a\<lparr>tc_maxseq := x_maxseq\<rparr>) = rtt_ok a" "rtt_ok (a\<lparr>tc_highest_ack := x_highest_ack\<rparr>) = rtt_ok a"
  "rtt_ok (a\<lparr>tc_last_ack := x_last_ack\<rparr>) = rtt_ok a" "rtt_ok (a\<lparr>tc_wnd_init_option := x_wnd_init_option\<rparr>) = rtt_ok a"
  "rtt_ok (a\<lparr>tc_log := x_log\<rparr>) = rtt_ok a" "rtt_ok (upcall u a) = rtt_ok a"
  by (simp_all add: rtt_ok_def upcall_def)

definition wind :: "tcp_agent \<Rightarrow> int \<times> real \<times> int" where
  "wind a = (tc_recover a, tc_cwnd a, tc_frto a)"

lemma wind_update [simp]:
  "wind (a\<lparr>tc_ssthresh := x_ssthresh\<rparr>) = wind a" "wind (a\<lparr>tc_dupacks := x_dupacks\<rparr>) = wind a"
  "wind (a\<lparr>tc_last_cwnd_action := x_last_cwnd_action\<rparr>) = wind a" "wind (a\<lparr>tc_count := x_count\<rparr>) = wind a"
  "wind (a\<lparr>tc_rtt_active := x_rtt_active\<rparr>) = wind a" "wind (a\<lparr>tc_rtt_seq := x_rtt_seq\<rparr>) = wind a"
  "wind (a\<lparr>tc_rtt_ts := x_rtt_ts\<rparr>) = wind a" "wind (a\<lparr>tc_t_rtt := x_t_rtt\<rparr>) = wind a"
  "wind (a\<lparr>tc_syn_connects := x_syn_connects\<rparr>) = wind a" "wind (a\<lparr>tc_awnd := x_awnd\<rparr>) = wind a"
  "wind (a\<lparr>tc_first_decrease := x_first_decrease\<rparr>) = wind a" "wind (a\<lparr>tc_fcnt := x_fcnt\<rparr>) = wind a"
  "wind (a\<lparr>tc_ndatapack := x_ndatapack\<rparr>) = wind a" "wind (a\<lparr>tc_ndatabytes := x_ndatabytes\<rparr>) = wind a"
  "wind (a\<lparr>tc_nackpack := x_nackpack\<rparr>) = wind a" "wind (a\<lparr>tc_nrexmit := x_nrexmit\<rparr>) = wind a"
  "wind (a\<lparr>tc_nrexmitpack := x_nrexmitpack\<rparr>) = wind a" "wind (a\<lparr>tc_nrexmitbytes := x_nrexmitbytes\<rparr>) = wind a"
  "wind (a\<lparr>tc_ncwndcuts := x_ncwndcuts\<rparr>) = wind a" "wind (a\<lparr>tc_ncwndcuts1 := x_ncwndcuts1\<rparr>) = wind a"
  "wind (a\<lparr>tc_lldct_w_c := x_lldct_w_c\<rparr>) = wind a" "wind (a\<lparr>tc_hstcp := x_hstcp\<rparr>) = wind a"
  "wind (a\<lparr>tc_q := x_q\<rparr>) = wind a" "wind (a\<lparr>tc_W_used := x_W_used\<rparr>) = wind a"
  "wind (a\<lparr>tc_prev_highest_ack := x_prev_highest_ack\<rparr>) = wind a" "wind (a\<lparr>tc_ect := x_ect\<rparr>) = wind a"
  "wind (a\<lparr>tc_ecn_backoff := x_ecn_backoff\<rparr>) = wind a" "wind (a\<lparr>tc_ecnhat_beta := x_ecnhat_beta\<rparr>) = wind a"
  "wind (a\<lparr>tc_ecn_burst := x_ecn_burst\<rparr>) = wind a" "wind (a\<lparr>tc_cong_action := x_cong_action\<rparr>) = wind a"
  "wind (a\<lparr>tc_use_rtt := x_use_rtt\<rparr>) = wind a" "wind (a\<lparr>tc_necnresponses := x_necnresponses\<rparr>) = wind a"
  "wind (a\<lparr>tc_ecnhat_send := x_ecnhat_send\<rparr>) = wind a" "wind (a\<lparr>tc_closed := x_closed\<rparr>) = wind a"
  "wind (a\<lparr>tc_npkts := x_npkts\<rparr>) = wind a" "wind (a\<lparr>tc_draws := x_draws\<rparr>) = wind a"
  "wind (a\<lparr>tc_decrease_num := x_decrease_num\<rparr>) = wind a" "wind (a\<lparr>tc_increase_num := x_increase_num\<rparr>) = wind a"
  "wind (a\<lparr>tc_wnd_init := x_wnd_init\<rparr>) = wind a" "wind (a\<lparr>tc_t_srtt := x_t_srtt\<rparr>) = wind a"
  "wind (a\<lparr>tc_t_rttvar := x_t_rttvar\<rparr>) = wind a" "wind (a\<lparr>tc_t_backoff := x_t_backoff\<rparr>) = wind a"
  "wind (a\<lparr>tc_t_rtxcur := x_t_rtxcur\<rparr>) = wind a" "wind (a\<lparr>tc_rtx_timer := x_rtx_timer\<rparr>) = wind a"
  "wind (a\<lparr>tc_delsnd_timer := x_delsnd_timer\<rparr>) = wind a" "wind (a\<lparr>tc_t_seqno := x_t_seqno\<rparr>) = wind a"
  "wind (a\<lparr>tc_curseq := x_curseq\<rparr>) = wind a" "wind (a\<lparr>tc_maxseq := x_maxseq\<rparr>) = wind a"
  "wind (a\<lparr>tc_highest_ack := x_highest_ack\<rparr>) = wind a" "wind (a\<lparr>tc_last_ack := x_last_ack\<rparr>) = wind a"
  "wind (a\<lparr>tc_wnd_init_option := x_wnd_init_option\<rparr>) = wind a" "wind (a\<lparr>tc_log := x_log\<rparr>) = wind a"
  "wind (upcall u a) = wind a"
  by (simp_all add: wind_def upcall_def)

lemma rtt_timeout_ok:
  "rtt_ok a \<Longrightarrow> clock_ok a \<Longrightarrow> succeeds (rtt_timeout a) (\<lambda>(t, a'). a' = a\<lparr>tc_use_rtt := False\<rparr>)"
proof -
  assume a: "rtt_ok a" "clock_ok a"
  then have "0 \<le> rto_backed_off a" by (auto simp: rto_backed_off_def rtt_ok_def clock_ok_def Let_def)
  with a show ?thesis by (simp add: rtt_timeout_def Let_def clock_ok_def)
qed

definition armed :: "tcp_agent \<Rightarrow> tcp_agent \<Rightarrow> bool" where
  "armed a a' \<longleftrightarrow> (\<exists>b t. a' = a\<lparr>tc_use_rtt := b, tc_rtx_timer := t\<rparr> \<and> tm_status t = PENDING)"

lemma set_rtx_timer_ok: "rtt_ok a \<Longrightarrow> clock_ok a \<Longrightarrow> succeeds (set_rtx_timer a) (armed a)"
  unfolding set_rtx_timer_def succeeds_simps
proof (erule (1) succeeds_mono [OF rtt_timeout_ok], clarify)
  show "succeeds (Inr ((a\<lparr>tc_use_rtt := False\<rparr>)\<lparr>tc_rtx_timer := timer_resched (tc_now (a\<lparr>tc_use_rtt := False\<rparr>)) t
      (tc_rtx_timer (a\<lparr>tc_use_rtt := False\<rparr>))\<rparr>)) (armed a)" for t
    unfolding succeeds_simps armed_def by (intro exI conjI, rule refl) (simp add: timer_resched_def)
qed

lemma clobber_ok: "rtt_ok a \<Longrightarrow> rtt_ok (clobber_srtt a) \<and> core (clobber_srtt a) = core a \<and> wind (clobber_srtt a) = wind a"
  by (simp add: clobber_srtt_def rtt_ok_def)

lemma rtt_backoff_ok: "rtt_ok a \<Longrightarrow> clock_ok a \<Longrightarrow> succeeds (rtt_backoff a) (\<lambda>a'. rtt_ok a' \<and> core a' = core a \<and> wind a' = wind a)"
proof -
  assume a: "rtt_ok a" "clock_ok a"
  have "succeeds (may_double a) (\<lambda>(d, a'). a' = a \<or> a' = a\<lparr>tc_use_rtt := False\<rparr>)"
    using rtt_timeout_ok [OF a] by (auto simp: may_double_def succeeds_def)
  then show ?thesis unfolding rtt_backoff_def succeeds_simps
  proof (rule succeeds_mono, clarify)
    fix d a' assume "a' = a \<or> a' = a\<lparr>tc_use_rtt := False\<rparr>"
    then have "rtt_ok a'" "core a' = core a" "wind a' = wind a" using a by auto
    then show "succeeds (Inr (clobber_srtt (if d then a'\<lparr>tc_t_backoff := push_bit 1 (tc_t_backoff a')\<rparr> else a')))
        (\<lambda>a'. rtt_ok a' \<and> core a' = core a \<and> wind a' = wind a)"
      using clobber_ok [of a'] clobber_ok [of "a'\<lparr>tc_t_backoff := push_bit 1 (tc_t_backoff a')\<rparr>"]
      by (simp add: rtt_ok_def push_bit_eq_mult)
  qed
qed

lemma rtt_update_ok: "0 < cf_tcp_tick (tc_cfg a) \<Longrightarrow> 0 \<le> tc_t_backoff a \<Longrightarrow> rtt_ok (rtt_update tao a) \<and> core (rtt_update tao a) = core a"
  by (auto simp: rtt_update_def rtt_ok_def Let_def push_bit_eq_mult)

lemma slowdown_windows_core: "slowdown_windows w wd a = (r, a') \<Longrightarrow> a' = a\<lparr>tc_decrease_num := tc_decrease_num a'\<rparr>"
  by (auto simp: slowdown_windows_def Let_def split: if_splits)

lemma slowdown_by_core:
  "core (slowdown_by w wd b how a) = core a \<and> rtt_ok (slowdown_by w wd b how a) = rtt_ok a \<and>
   1 \<le> tc_cwnd (slowdown_by w wd b how a) \<and> tc_frto (slowdown_by w wd b how a) = tc_frto a \<and> tc_recover (slowdown_by w wd b how a) = tc_recover a"
proof (cases "slowdown_windows w wd a")
  case (Pair r a')
  from slowdown_windows_core [OF Pair] obtain d where "a' = a\<lparr>tc_decrease_num := d\<rparr>" by blast
  with Pair show ?thesis by (cases r) (simp add: slowdown_by_def Let_def)
qed

lemma count_cut_core:
  "core (count_cut how a) = core a" "rtt_ok (count_cut how a) = rtt_ok a" "tc_frto (count_cut how a) = tc_frto a" "tc_recover (count_cut how a) = tc_recover a"
  by (simp_all add: count_cut_def Let_def)

lemma tcp_slowdown_core:
  "core (tcp_slowdown w wd how a) = core a" "rtt_ok (tcp_slowdown w wd how a) = rtt_ok a"
  "1 \<le> tc_cwnd (tcp_slowdown w wd how a)" "tc_frto (tcp_slowdown w wd how a) = tc_frto a"
  "tc_recover (tcp_slowdown w wd how a) = tc_recover a"
  by (simp_all add: tcp_slowdown_def slowdown_by_core count_cut_core Let_def)

lemma cwnd_steps_core [simp]:
  "core (accumulate f a) = core a" "rtt_ok (accumulate f a) = rtt_ok a"
  "core (cwnd_add_limited i a) = core a" "rtt_ok (cwnd_add_limited i a) = rtt_ok a"
  "tc_recover (accumulate f a) = tc_recover a" "tc_recover (cwnd_add_limited i a) = tc_recover a"
  by (simp_all add: accumulate_def cwnd_add_limited_def Let_def)

lemma opencwnd_linear_ok:
  assumes "cf_wnd_option (tc_cfg a) \<in> {0, 1, 2, 3, 4, 5, 6, 8}"
  shows "succeeds (opencwnd_linear a) (\<lambda>a'. core a' = core a \<and> rtt_ok a' = rtt_ok a \<and> tc_recover a' = tc_recover a)"
proof -
  have m: "is_opencwnd_adjustment_enabled a \<Longrightarrow>
      succeeds (opencwnd_multiplier a) (\<lambda>(m, a'). core a' = core a \<and> rtt_ok a' = rtt_ok a \<and> tc_recover a' = tc_recover a)"
    by (auto simp: is_opencwnd_adjustment_enabled_def opencwnd_multiplier_def sender_opencwnd_enabled_def Let_def)
  have i: "increase_param a = (i, a') \<Longrightarrow> core a' = core a \<and> rtt_ok a' = rtt_ok a \<and> tc_recover a' = tc_recover a" for i a'
    by (auto simp: increase_param_def Let_def split: if_split_asm)
  show ?thesis
  proof (cases "cf_wnd_option (tc_cfg a) = 1 \<and> is_opencwnd_adjustment_enabled a")
    case True
    then show ?thesis unfolding opencwnd_linear_def Let_def using m
      by (simp, elim succeeds_mono) auto
  next
    case False
    then show ?thesis using assms i
      by (cases "increase_param a") (auto simp: opencwnd_linear_def Let_def)
  qed
qed

lemma opencwnd_ok:
  assumes "cf_wnd_option (tc_cfg a) \<in> {0, 1, 2, 3, 4, 5, 6, 8}"
  shows "succeeds (opencwnd a) (\<lambda>a'. core a' = core a \<and> rtt_ok a' = rtt_ok a \<and> tc_recover a' = tc_recover a)"
proof (cases "tc_cwnd a < of_int (tc_ssthresh a)")
  case True
  then show ?thesis by (simp add: opencwnd_def Let_def)
next
  case False
  let ?b = "if cf_lldct (tc_cfg a) then a\<lparr>tc_lldct_w_c := lldct_weight a, tc_increase_num := lldct_weight a / cf_lldct_w_max (tc_cfg a)\<rparr> else a"
  have b: "core ?b = core a" "rtt_ok ?b = rtt_ok a" "tc_recover ?b = tc_recover a" "cf_wnd_option (tc_cfg ?b) = cf_wnd_option (tc_cfg a)" by simp_all
  have "succeeds (opencwnd_linear ?b) (\<lambda>a'. core a' = core a \<and> rtt_ok a' = rtt_ok a \<and> tc_recover a' = tc_recover a)"
    using opencwnd_linear_ok [of ?b] assms b by simp
  then show ?thesis unfolding opencwnd_def succeeds_simps Let_def if_not_P [OF False] by (rule succeeds_mono) simp
qed


section \<open>Sending a packet\<close>

lemma armed_core: "armed a a' \<Longrightarrow> core a' = (core a)\<lparr>co_rtx := True\<rparr> \<and> rtt_ok a' = rtt_ok a \<and> wind a' = wind a"
  by (auto simp: armed_def wind_def)

text \<open>What a packet that is sent changes: it is logged, \<open>maxseq_\<close> grows, and the retransmission timer runs.\<close>

definition with_sent :: "int \<Rightarrow> packet \<Rightarrow> core_view \<Rightarrow> core_view" where
  "with_sent seqno p v = v\<lparr>co_sent := co_sent v @ [p], co_max := max (co_max v) seqno, co_rtx := True\<rparr>"

lemma note_sent_core: "core (note_sent seqno n a) = (core a)\<lparr>co_max := max (co_max (core a)) seqno\<rparr>"
  by (auto simp: note_sent_def Let_def core_sel max_def core_def)

lemma note_sent_rtt: "rtt_ok (note_sent seqno n a) = rtt_ok a" "wind (note_sent seqno n a) = wind a"
  by (simp_all add: note_sent_def Let_def wind_def)

lemma emit_ok:
  assumes "rtt_ok a" "clock_ok a"
  shows "succeeds (emit seqno n p a) (\<lambda>a'. core a' = with_sent seqno p (core a) \<and> rtt_ok a' \<and> wind a' = wind a)"
proof -
  define a1 where "a1 = upcall (Sent p) (a\<lparr>tc_ndatapack := tc_ndatapack a + 1, tc_ndatabytes := tc_ndatabytes a + n\<rparr>)"
  define a2 where "a2 = (if seqno = tc_curseq a1 \<and> seqno > tc_maxseq a1 then upcall Idle a1 else a1)"
  define a3 where "a3 = note_sent seqno n a2"
  have "core a2 = (core a)\<lparr>co_sent := co_sent (core a) @ [p]\<rparr>" "rtt_ok a2" "wind a2 = wind a"
    using assms(1) by (simp_all add: a2_def a1_def)
  then have c: "core a3 = (core a)\<lparr>co_sent := co_sent (core a) @ [p], co_max := max (co_max (core a)) seqno\<rparr>" and r: "rtt_ok a3" "wind a3 = wind a"
    by (simp_all add: a3_def note_sent_core note_sent_rtt)
  have k: "clock_ok a3" using assms(2) c by (simp add: clock_ok_def core_get)
  have e: "emit seqno n p a = (if tm_status (tc_rtx_timer a3) \<noteq> PENDING \<or> tc_highest_ack a = tc_maxseq a then set_rtx_timer a3 else Inr a3)"
    by (simp add: emit_def Let_def a3_def a2_def a1_def)
  show ?thesis
  proof (cases "tm_status (tc_rtx_timer a3) \<noteq> PENDING \<or> tc_highest_ack a = tc_maxseq a")
    case True
    show ?thesis unfolding e if_P [OF True]
      by (rule succeeds_mono [OF set_rtx_timer_ok [OF r(1) k]], drule armed_core) (simp add: c r with_sent_def)
  next
    case False
    then have "co_rtx (core a3)" by (simp add: core_sel)
    then have "co_rtx (core a)" using c by simp
    then have "core a3 = with_sent seqno p (core a)" using c by (simp add: with_sent_def)
    with r show ?thesis unfolding e if_not_P [OF False] by simp
  qed
qed

section \<open>The invariant of a sender\<close>

definition sender_cfg_ok :: "sender_cfg \<Rightarrow> full_cfg \<Rightarrow> bool" where
  "sender_cfg_ok c cc \<longleftrightarrow>
     \<not> ow_bugfix_ts c \<and> cf_class cc = FullTcpAgent \<and> \<not> cf_QOption cc \<and> cf_wnd_option cc \<in> {0, 1, 2, 3, 4, 5, 6, 8} \<and>
     0 < cf_tcp_tick cc \<and> 0 \<le> cf_maxrto cc \<and> 0 < cf_size cc \<and> 0 < cf_tcpip_base_hdr_size cc \<and> 0 \<le> cf_ts_option_size cc"

text \<open>The size of the packet with a given number.\<close>

definition wire_size :: "sender_cfg \<Rightarrow> full_cfg \<Rightarrow> bool \<Rightarrow> int \<Rightarrow> int" where
  "wire_size c cc syn i =
     (if i = 0 then (if syn then cf_tcpip_base_hdr_size cc else cf_size cc)
      else cf_size cc + (if ow_useHeaders c
        then cf_tcpip_base_hdr_size cc + (if cf_ts_option cc then cf_ts_option_size cc else 0) else 0))"

definition data_ok :: "sender_cfg \<Rightarrow> full_cfg \<Rightarrow> bool \<Rightarrow> int \<Rightarrow> packet \<Rightarrow> bool" where
  "data_ok c cc syn m p \<longleftrightarrow> 0 \<le> tcp_seqno (pk_tcp p) \<and> tcp_seqno (pk_tcp p) \<le> m \<and>
     pk_size p = wire_size c cc syn (tcp_seqno (pk_tcp p)) \<and> 0 \<le> tcp_ts (pk_tcp p)"

lemma data_ok_mono: "data_ok c cc syn m p \<Longrightarrow> m \<le> m' \<Longrightarrow> data_ok c cc syn m' p"
  by (simp add: data_ok_def)

definition core_ok :: "sender_cfg \<Rightarrow> core_view \<Rightarrow> bool" where
  "core_ok c v \<longleftrightarrow>
     sender_cfg_ok c (co_cfg v) \<and> 0 \<le> co_minrto v \<and> 0 \<le> co_now v \<and> co_init_option v \<in> {1, 2} \<and>
     co_last v = co_ack v \<and> -1 \<le> co_ack v \<and> co_ack v \<le> co_max v \<and> 0 \<le> co_t v \<and> \<not> co_burst v \<and>
     (cf_overhead (co_cfg v) = 0 \<longrightarrow> \<not> co_delsnd v) \<and> (\<forall>p \<in> set (co_sent v). data_ok c (co_cfg v) (co_syn v) (co_max v) p)"

definition sender_inv :: "sender \<Rightarrow> bool" where
  "sender_inv s \<longleftrightarrow> core_ok (sd_cfg s) (core (sd_tcp s)) \<and> sd_tss s = None \<and> rtt_ok (sd_tcp s) \<and> -1 \<le> tc_recover (sd_tcp s)"

text \<open>The retransmission timer runs while packets are outstanding.\<close>

definition guarded :: "core_view \<Rightarrow> bool" where
  "guarded v \<longleftrightarrow> (co_ack v < co_max v \<longrightarrow> co_rtx v)"

text \<open>What no operation changes, and what can only grow.\<close>

definition grows :: "core_view \<Rightarrow> core_view \<Rightarrow> bool" where
  "grows v v' \<longleftrightarrow> co_cfg v' = co_cfg v \<and> co_syn v' = co_syn v \<and> co_lastreset v' = co_lastreset v \<and> co_now v' = co_now v \<and>
     co_max v \<le> co_max v' \<and> (\<exists>ps. co_sent v' = co_sent v @ ps)"

definition follows :: "sender \<Rightarrow> sender \<Rightarrow> bool" where
  "follows s s' \<longleftrightarrow> sender_inv s' \<and> sd_cfg s' = sd_cfg s \<and> grows (core (sd_tcp s)) (core (sd_tcp s'))"

definition keeps :: "sender \<Rightarrow> sender \<Rightarrow> bool" where
  "keeps s s' \<longleftrightarrow> follows s s' \<and> co_ack (core (sd_tcp s')) = co_ack (core (sd_tcp s)) \<and>
     (guarded (core (sd_tcp s)) \<longrightarrow> guarded (core (sd_tcp s')))"

lemma grows_refl [simp]: "grows v v"
  by (simp add: grows_def)

lemma grows_trans: "grows u v \<Longrightarrow> grows v w \<Longrightarrow> grows u w"
  by (auto simp: grows_def)

lemma keeps_refl: "sender_inv s \<Longrightarrow> keeps s s"
  by (simp add: keeps_def follows_def)

lemma follows_trans: "follows s t \<Longrightarrow> follows t u \<Longrightarrow> follows s u"
  by (auto simp: follows_def intro: grows_trans)

lemma keeps_trans [trans]: "keeps s t \<Longrightarrow> keeps t u \<Longrightarrow> keeps s u"
  by (auto simp: keeps_def intro: follows_trans)

lemma keeps_inv: "keeps s s' \<Longrightarrow> sender_inv s'"
  by (simp add: keeps_def follows_def)

text \<open>An operation that leaves the core of the agent alone keeps the invariant.\<close>

lemma keeps_core:
  assumes "sender_inv s" "core (sd_tcp s') = core (sd_tcp s)" "sd_cfg s' = sd_cfg s" "sd_tss s' = sd_tss s" "rtt_ok (sd_tcp s')"
    "-1 \<le> tc_recover (sd_tcp s')"
  shows "keeps s s'"
  using assms by (simp add: keeps_def follows_def sender_inv_def)

lemma sender_inv_clock: "sender_inv s \<Longrightarrow> clock_ok (sd_tcp s)"
  by (simp add: sender_inv_def core_ok_def clock_ok_def sender_cfg_ok_def core_get)

section \<open>Sending one packet\<close>

lemma output_packet_ok:
  assumes "output_packet seqno reason ts a = (p, a')"
  shows "core a' = core a \<and> rtt_ok a' = rtt_ok a \<and> wind a' = wind a \<and> tcp_seqno (pk_tcp p) = seqno \<and> tcp_ts (pk_tcp p) = tc_now a \<and>
    pk_size p = cf_size (tc_cfg a)"
  using assms by (auto simp: output_packet_def sd_ecn_output_def allocpkt_def Let_def wind_def split: if_split_asm)

lemma sd_ecn_output_syn_simps [simp]:
  "pk_tcp (sd_ecn_output_syn p a) = pk_tcp p" "pk_size (sd_ecn_output_syn p a) = pk_size p"
  by (simp_all add: sd_ecn_output_syn_def)

lemma core_ok_sent:
  assumes "core_ok c v" "0 \<le> seqno" "tcp_seqno (pk_tcp p) = seqno" "tcp_ts (pk_tcp p) = co_now v" "pk_size p = wire_size c (co_cfg v) (co_syn v) seqno"
  shows "core_ok c ((with_sent seqno p v)\<lparr>co_cur := n\<rparr>)"
proof -
  have "data_ok c (co_cfg v) (co_syn v) (max (co_max v) seqno) p" using assms by (simp add: data_ok_def core_ok_def)
  moreover have "\<forall>q \<in> set (co_sent v). data_ok c (co_cfg v) (co_syn v) (max (co_max v) seqno) q"
    using assms(1) by (auto simp: core_ok_def intro: data_ok_mono)
  ultimately show ?thesis using assms(1) by (simp add: core_ok_def with_sent_def le_max_iff_disj)
qed

definition sends_at :: "int \<Rightarrow> sender \<Rightarrow> sender \<Rightarrow> bool" where
  "sends_at seqno s s' \<longleftrightarrow> (let v = core (sd_tcp s); v' = core (sd_tcp s') in
     keeps s s' \<and> co_rtx v' \<and> co_t v' = co_t v \<and> wind (sd_tcp s') = wind (sd_tcp s) \<and> sd_dupwnd s' = sd_dupwnd s \<and>
     (seqno \<noteq> 0 \<longrightarrow> co_cur v' = co_cur v) \<and> (co_cur v' \<le> co_cur v + 1 \<or> co_cur v' = 0) \<and>
     (seqno \<noteq> 0 \<or> ow_max_connects (sd_cfg s) \<le> 0 \<longrightarrow> co_cur v \<le> co_cur v' \<and> (\<exists>p. co_sent v' = co_sent v @ [p] \<and> tcp_seqno (pk_tcp p) = seqno)))"

lemma sends_atI:
  assumes "sender_inv s" "0 \<le> seqno" "core a' = (with_sent seqno p (core (sd_tcp s)))\<lparr>co_cur := n\<rparr>" "rtt_ok a'" "wind a' = wind (sd_tcp s)"
    "tcp_seqno (pk_tcp p) = seqno" "tcp_ts (pk_tcp p) = tc_now (sd_tcp s)" "pk_size p = wire_size (sd_cfg s) (tc_cfg (sd_tcp s)) (tc_syn (sd_tcp s)) seqno"
    "n = co_cur (core (sd_tcp s)) \<or> (n = co_cur (core (sd_tcp s)) + 1 \<and> seqno = 0)"
  shows "sends_at seqno s (s\<lparr>sd_tcp := a'\<rparr>)"
proof -
  have "core_ok (sd_cfg s) (core a')"
    unfolding assms(3) by (rule core_ok_sent) (use assms in \<open>auto simp: sender_inv_def core_sel\<close>)
  moreover have "-1 \<le> tc_recover a'" using assms(1,5) by (simp add: wind_def sender_inv_def)
  ultimately show ?thesis using assms
    by (auto simp: sends_at_def keeps_def follows_def grows_def sender_inv_def guarded_def with_sent_def)
qed

lemma output_syn_ok:
  assumes "sender_inv s" "core a = core (sd_tcp s)" "rtt_ok a" "wind a = wind (sd_tcp s)"
    "tcp_seqno (pk_tcp p) = 0" "tcp_ts (pk_tcp p) = tc_now (sd_tcp s)" "pk_size p = cf_size (tc_cfg (sd_tcp s))"
  shows "succeeds (output_syn (ow_max_connects (sd_cfg s)) p a) (\<lambda>a'. sends_at 0 s (s\<lparr>sd_tcp := a'\<rparr>))"
proof -
  let ?a1 = "a\<lparr>tc_curseq := tc_curseq a + 1, tc_syn_connects := tc_syn_connects a + 1\<rparr>"
  have k: "clock_ok a" "clock_ok ?a1" using clock_ok_core [OF assms(2)] sender_inv_clock [OF assms(1)] by (simp_all add: clock_ok_def)
  have c: "tc_cfg a = tc_cfg (sd_tcp s)" "tc_syn a = tc_syn (sd_tcp s)" "tc_curseq a = co_cur (core (sd_tcp s))"
    using assms(2) by (simp_all add: core_get)
  consider "tc_syn a" "ow_max_connects (sd_cfg s) > 0" "tc_syn_connects ?a1 > ow_max_connects (sd_cfg s)"
    | "tc_syn a" "\<not> (ow_max_connects (sd_cfg s) > 0 \<and> tc_syn_connects ?a1 > ow_max_connects (sd_cfg s))" | "\<not> tc_syn a" by auto
  then show ?thesis
  proof cases
    case 1
    let ?a2 = "?a1\<lparr>tc_curseq := 0, tc_rtx_timer := timer_resched (tc_now ?a1) 10000 (tc_rtx_timer ?a1)\<rparr>"
    have v: "core ?a2 = (core (sd_tcp s))\<lparr>co_cur := 0, co_rtx := True\<rparr>" using assms(2) by (simp add: timer_resched_def)
    have wr: "tc_recover a = tc_recover (sd_tcp s)" using assms(4) by (simp add: wind_def)
    have w: "wind ?a2 = wind (sd_tcp s)" "tc_recover ?a2 = tc_recover (sd_tcp s)" "rtt_ok ?a2" using assms(3,4) by (simp_all add: wind_def)
    have "sends_at 0 s (s\<lparr>sd_tcp := ?a2\<rparr>)" using assms(1) 1(2)
      unfolding sends_at_def Let_def keeps_def follows_def sender_inv_def sender.simps v w(1,2)
      by (simp add: grows_def core_ok_def guarded_def assms(2-4) wr timer_resched_def)
    with 1 show ?thesis by (simp add: output_syn_def Let_def)
  next
    case 2
    let ?p = "sd_ecn_output_syn (p\<lparr>pk_size := cf_tcpip_base_hdr_size (tc_cfg a)\<rparr>) ?a1"
    have r: "rtt_ok ?a1" using assms(3) by simp
    have "succeeds (emit 0 0 ?p ?a1) (\<lambda>a'. sends_at 0 s (s\<lparr>sd_tcp := a'\<rparr>))"
    proof (rule succeeds_mono [OF emit_ok [OF r k(2)]], elim conjE)
      fix a' assume a': "core a' = with_sent 0 ?p (core ?a1)" "rtt_ok a'" "wind a' = wind ?a1"
      show "sends_at 0 s (s\<lparr>sd_tcp := a'\<rparr>)"
        by (rule sends_atI [of s 0 a' "tc_curseq a + 1" ?p])
          (use assms a' c 2(1) in \<open>simp_all add: with_sent_def wire_size_def\<close>)
    qed
    with 2 show ?thesis unfolding output_syn_def Let_def by (simp only: if_True if_False simp_thms)
  next
    case 3
    have "succeeds (emit 0 (pk_size p) (sd_ecn_output_syn p a) a) (\<lambda>a'. sends_at 0 s (s\<lparr>sd_tcp := a'\<rparr>))"
    proof (rule succeeds_mono [OF emit_ok [OF assms(3) k(1)]], elim conjE)
      fix a' assume a': "core a' = with_sent 0 (sd_ecn_output_syn p a) (core a)" "rtt_ok a'" "wind a' = wind a"
      show "sends_at 0 s (s\<lparr>sd_tcp := a'\<rparr>)"
        by (rule sends_atI [of s 0 a' "tc_curseq a" "sd_ecn_output_syn p a"])
          (use assms a' c 3 in \<open>simp_all add: with_sent_def wire_size_def\<close>)
    qed
    with 3 show ?thesis by (simp add: output_syn_def Let_def)
  qed
qed

lemma output_ok:
  assumes "sender_inv s" "0 \<le> seqno"
  shows "succeeds (ow_output seqno reason s) (sends_at seqno s)"
proof -
  let ?a = "sd_tcp s"
  have t: "store_ts seqno s = Inr s" using assms(1) by (simp add: store_ts_def sender_inv_def core_ok_def sender_cfg_ok_def Let_def)
  obtain p a where pa: "output_packet seqno reason (sd_ts_peer s) ?a = (p, a)" by (cases "output_packet seqno reason (sd_ts_peer s) ?a")
  note o = output_packet_ok [OF pa]
  have r: "rtt_ok a" "clock_ok a" using o assms(1) sender_inv_clock [OF assms(1)] clock_ok_core [of a ?a] by (auto simp: sender_inv_def)
  show ?thesis
  proof (cases "seqno = 0")
    case False
    let ?q = "if ow_useHeaders (sd_cfg s) then p\<lparr>pk_size := pk_size p + ow_headersize a\<rparr> else p"
    have c: "tc_cfg a = tc_cfg ?a" using o by (simp add: core_get)
    have "succeeds (emit seqno (pk_size p) ?q a) (\<lambda>a'. sends_at seqno s (s\<lparr>sd_tcp := a'\<rparr>))"
    proof (rule succeeds_mono [OF emit_ok [OF r]], elim conjE)
      fix a' assume a': "core a' = with_sent seqno ?q (core a)" "rtt_ok a'" "wind a' = wind a"
      show "sends_at seqno s (s\<lparr>sd_tcp := a'\<rparr>)"
        by (rule sends_atI [of s seqno a' "co_cur (core ?a)" ?q])
          (use assms o a' c False in \<open>simp_all add: with_sent_def wire_size_def ow_headersize_def\<close>)
    qed
    with False show ?thesis by (simp add: ow_output_def t pa)
  next
    case True
    then show ?thesis using output_syn_ok [OF assms(1), of a p] o r t pa by (simp add: ow_output_def)
  qed
qed


section \<open>Sending as much as the window allows\<close>

lemma keeps_move:
  assumes "sender_inv s" "core (sd_tcp s') = (core (sd_tcp s))\<lparr>co_t := t, co_cur := n, co_init_option := k, co_rtx := r, co_delsnd := d\<rparr>"
    "rtt_ok (sd_tcp s')" "-1 \<le> tc_recover (sd_tcp s')" "sd_cfg s' = sd_cfg s" "sd_tss s' = sd_tss s"
    "0 \<le> t" "k \<in> {1, 2}" "co_rtx (core (sd_tcp s)) \<longrightarrow> r" "cf_overhead (tc_cfg (sd_tcp s)) = 0 \<longrightarrow> \<not> d"
  shows "keeps s s'"
  using assms by (simp add: keeps_def follows_def sender_inv_def grows_def core_ok_def guarded_def core_get)

definition sends_next :: "sender \<Rightarrow> sender \<Rightarrow> bool" where
  "sends_next s s' \<longleftrightarrow> (\<exists>s1. sends_at (co_t (core (sd_tcp s))) s s1 \<and> s' = next_seqno s1)"

lemma sends_next_keeps:
  assumes "sends_next s s'"
  shows "keeps s s'" "co_rtx (core (sd_tcp s'))" "co_t (core (sd_tcp s')) = co_t (core (sd_tcp s)) + 1"
proof -
  from assms obtain s1 where s1: "sends_at (co_t (core (sd_tcp s))) s s1" and s': "s' = next_seqno s1" by (auto simp: sends_next_def)
  then have k: "keeps s s1" "co_rtx (core (sd_tcp s1))" "co_t (core (sd_tcp s1)) = co_t (core (sd_tcp s))" by (simp_all add: sends_at_def Let_def)
  have c: "core (sd_tcp s') = (core (sd_tcp s1))\<lparr>co_t := co_t (core (sd_tcp s1)) + 1\<rparr>" by (simp add: s' next_seqno_def on_tcp_def core_sel)
  have "sender_inv s1" using keeps_inv [OF k(1)] .
  then have "keeps s1 s'" using keeps_move [of s1 s', where t = "co_t (core (sd_tcp s1)) + 1" and n = "co_cur (core (sd_tcp s1))"
      and k = "co_init_option (core (sd_tcp s1))" and r = "co_rtx (core (sd_tcp s1))" and d = "co_delsnd (core (sd_tcp s1))"] c
    by (simp add: s' next_seqno_def on_tcp_def sender_inv_def core_ok_def core_get del: core_set)
  with k show "keeps s s'" by (blast intro: keeps_trans)
  show "co_rtx (core (sd_tcp s'))" "co_t (core (sd_tcp s')) = co_t (core (sd_tcp s)) + 1" using c k by simp_all
qed

lemma output_next_ok: "sender_inv s \<Longrightarrow> succeeds (output_next reason s) (sends_next s)"
proof -
  assume i: "sender_inv s"
  then have "0 \<le> tc_t_seqno (sd_tcp s)" by (simp add: sender_inv_def core_ok_def core_sel)
  from output_ok [OF i this, of reason] show ?thesis
    unfolding output_next_def succeeds_simps
  proof (rule succeeds_mono)
    fix s1 assume s1: "sends_at (tc_t_seqno (sd_tcp s)) s s1"
    then have "sender_inv s1" by (auto simp: sends_at_def Let_def keeps_inv)
    then have "\<not> cf_QOption (tc_cfg (sd_tcp s1))" by (simp add: sender_inv_def core_ok_def sender_cfg_ok_def core_sel)
    then show "succeeds (if cf_QOption (tc_cfg (sd_tcp s1)) then process_qoption_after_send s1 else Inr s1) (\<lambda>s2. sends_next s (next_seqno s2))"
      using s1 by (auto simp: sends_next_def core_sel)
  qed
qed

text \<open>A bound for the rounds that are left.\<close>

definition send_left :: "core_view \<Rightarrow> nat" where
  "send_left v = nat (co_cur v - co_t v) + (if co_t v = 0 then 1 else 0)"

lemma send_left_less:
  assumes "sender_inv s" "may_send s" "sends_next s s'"
  shows "send_left (core (sd_tcp s')) < send_left (core (sd_tcp s))"
proof -
  from assms(3) obtain s0 where s0: "sends_at (co_t (core (sd_tcp s))) s s0" "s' = next_seqno s0" by (auto simp: sends_next_def)
  have cur: "co_cur (core (sd_tcp s')) = co_cur (core (sd_tcp s0))" by (simp add: s0(2) next_seqno_def on_tcp_def)
  have "co_t (core (sd_tcp s)) < co_cur (core (sd_tcp s))" "0 \<le> co_t (core (sd_tcp s))"
    using assms(1,2) by (simp_all add: may_send_def sender_inv_def core_ok_def core_get)
  then show ?thesis using s0(1) sends_next_keeps(3) [OF assms(3)] unfolding send_left_def cur by (auto simp: sends_at_def Let_def split: if_split_asm)
qed

lemma send_loop_ok:
  assumes "sender_inv s" "send_left (core (sd_tcp s)) < n" "force \<or> cf_overhead (tc_cfg (sd_tcp s)) = 0 \<or> \<not> co_delsnd (core (sd_tcp s))"
  shows "succeeds (ow_send_loop n force reason mb np s) (keeps s)"
  using assms
proof (induction n arbitrary: s np)
  case (Suc n)
  show ?case
  proof (cases "may_send s")
    case False
    then show ?thesis using keeps_refl [OF Suc.prems(1)] by simp
  next
    case True
    show ?thesis
    proof (cases "cf_overhead (tc_cfg (sd_tcp s)) = 0 \<or> force")
      case o: True
      have "succeeds (if mb \<noteq> 0 \<and> np + 1 = mb then Inr s1 else ow_send_loop n force reason mb (np + 1) s1) (keeps s)" if s1: "sends_next s s1" for s1
      proof -
        note k = sends_next_keeps(1) [OF s1]
        have "send_left (core (sd_tcp s1)) < n" using send_left_less [OF Suc.prems(1) True s1] Suc.prems(2) by simp
        moreover have "force \<or> cf_overhead (tc_cfg (sd_tcp s1)) = 0 \<or> \<not> co_delsnd (core (sd_tcp s1))"
          using o k by (auto simp: keeps_def follows_def grows_def core_get)
        ultimately have "succeeds (ow_send_loop n force reason mb (np + 1) s1) (keeps s1)" using Suc.IH [OF keeps_inv [OF k]] by blast
        then have "succeeds (ow_send_loop n force reason mb (np + 1) s1) (keeps s)" by (rule succeeds_mono) (rule keeps_trans [OF k])
        then show ?thesis using k by simp
      qed
      then show ?thesis using True o by (simp add: succeeds_mono [OF output_next_ok [OF Suc.prems(1)]])
    next
      case o: False
      then have d: "tm_status (tc_delsnd_timer (sd_tcp s)) \<noteq> PENDING" using Suc.prems(3) by (simp add: core_sel)
      let ?s = "on_tcp (\<lambda>a. case random_uniform (cf_overhead (tc_cfg a)) a of (r, a1) \<Rightarrow>
               a1\<lparr>tc_delsnd_timer := timer_resched (tc_now a1) r (tc_delsnd_timer a1)\<rparr>) s"
      have "keeps s ?s"
        by (rule keeps_move [where t = "co_t (core (sd_tcp s))" and n = "co_cur (core (sd_tcp s))"
            and k = "co_init_option (core (sd_tcp s))" and r = "co_rtx (core (sd_tcp s))" and d = True])
          (use Suc.prems(1) o in \<open>auto simp: on_tcp_def random_uniform_def timer_resched_def sender_inv_def core_ok_def\<close>)
      with True o d show ?thesis by simp
    qed
  qed
qed simp

lemma send_much_ok:
  assumes "sender_inv s"
  shows "succeeds (ow_send_much force reason mb s) (keeps s)"
proof (cases "\<not> force \<and> tm_status (tc_delsnd_timer (sd_tcp s)) = PENDING")
  case True
  then show ?thesis using keeps_refl [OF assms] by (simp add: ow_send_much_def)
next
  case False
  let ?s = "if tc_t_seqno (sd_tcp s) = 0 then s\<lparr>sd_firstsent := tc_now (sd_tcp s)\<rparr> else s"
  have k: "keeps s ?s" by (rule keeps_core [OF assms]) (use assms in \<open>auto simp: sender_inv_def\<close>)
  have e: "core (sd_tcp ?s) = core (sd_tcp s)" "tc_cfg (sd_tcp ?s) = tc_cfg (sd_tcp s)" by simp_all
  have "succeeds (ow_send_loop (ow_send_rounds ?s) force reason mb 0 ?s) (keeps ?s)"
    by (rule send_loop_ok [OF keeps_inv [OF k]]) (use False in \<open>auto simp: ow_send_rounds_def send_left_def e core_sel\<close>)
  then have "succeeds (ow_send_loop (ow_send_rounds ?s) force reason mb 0 ?s) (keeps s)" by (rule succeeds_mono) (rule keeps_trans [OF k])
  with False k show ?thesis unfolding ow_send_much_def Let_def by (simp only: if_False simp_thms) simp
qed


text \<open>What is sent first.\<close>

definition sent_first :: "sender \<Rightarrow> sender \<Rightarrow> bool" where
  "sent_first s s' \<longleftrightarrow> (\<exists>p ps. co_sent (core (sd_tcp s')) = co_sent (core (sd_tcp s)) @ p # ps \<and> tcp_seqno (pk_tcp p) = co_t (core (sd_tcp s)))"

lemma sends_next_first:
  assumes "sends_next s s'" "ow_max_connects (sd_cfg s) \<le> 0" "keeps s' s''"
  shows "sent_first s s''"
proof -
  from assms(1) obtain s1 where s1: "sends_at (co_t (core (sd_tcp s))) s s1" "s' = next_seqno s1" by (auto simp: sends_next_def)
  then obtain p where p: "co_sent (core (sd_tcp s')) = co_sent (core (sd_tcp s)) @ [p]" "tcp_seqno (pk_tcp p) = co_t (core (sd_tcp s))"
    using assms(2) by (auto simp: sends_at_def Let_def next_seqno_def on_tcp_def)
  from assms(3) obtain ps where "co_sent (core (sd_tcp s'')) = co_sent (core (sd_tcp s')) @ ps" by (auto simp: keeps_def follows_def grows_def)
  with p show ?thesis by (auto simp: sent_first_def)
qed

lemma sd_window_firstsent [simp]: "sd_window (s\<lparr>sd_firstsent := x\<rparr>) = sd_window s"
  by (simp add: sd_window_def is_reno_def Let_def)

lemma send_much_first:
  assumes "sender_inv s" "cf_overhead (tc_cfg (sd_tcp s)) = 0" "may_send s" "ow_max_connects (sd_cfg s) \<le> 0"
  shows "succeeds (ow_send_much force reason mb s) (sent_first s)"
proof -
  let ?s = "if tc_t_seqno (sd_tcp s) = 0 then s\<lparr>sd_firstsent := tc_now (sd_tcp s)\<rparr> else s"
  have k: "keeps s ?s" by (rule keeps_core [OF assms(1)]) (use assms(1) in \<open>auto simp: sender_inv_def\<close>)
  note i = keeps_inv [OF k]
  have e: "core (sd_tcp ?s) = core (sd_tcp s)" "tc_cfg (sd_tcp ?s) = tc_cfg (sd_tcp s)" "sd_cfg ?s = sd_cfg s" by simp_all
  have m: "may_send ?s" using assms(3) by (simp add: may_send_def)
  have "ow_send_rounds ?s = Suc (nat (co_cur (core (sd_tcp s)) - co_t (core (sd_tcp s))) + 1)" by (simp add: ow_send_rounds_def core_sel)
  then obtain n where n: "ow_send_rounds ?s = Suc n" "send_left (core (sd_tcp ?s)) \<le> n" by (simp add: send_left_def)
  have t: "tm_status (tc_delsnd_timer (sd_tcp s)) \<noteq> PENDING" "tm_status (tc_burstsnd_timer (sd_tcp ?s)) \<noteq> PENDING"
    using assms(1,2) by (simp_all add: sender_inv_def core_ok_def core_sel)
  have "succeeds (if mb \<noteq> 0 \<and> 0 + 1 = mb then Inr s1 else ow_send_loop n force reason mb (0 + 1) s1) (sent_first s)" if s1: "sends_next ?s s1" for s1
  proof -
    note k1 = sends_next_keeps(1) [OF s1]
    have l: "send_left (core (sd_tcp s1)) < n" using send_left_less [OF i m s1] n(2) by linarith
    have f: "sent_first s s'" if "keeps s1 s'" for s'
      using sends_next_first [OF s1 _ that] assms(4) unfolding sent_first_def e by blast
    have o: "cf_overhead (tc_cfg (sd_tcp s1)) = 0" using k1 assms(2) by (simp add: keeps_def follows_def grows_def core_get)
    have "succeeds (ow_send_loop n force reason mb (0 + 1) s1) (keeps s1)" by (rule send_loop_ok [OF keeps_inv [OF k1] l]) (simp add: o)
    from succeeds_mono [OF this f] f [OF keeps_refl [OF keeps_inv [OF k1]]] show ?thesis by simp
  qed
  then have "succeeds (output_next reason ?s) (\<lambda>s1. succeeds (if mb \<noteq> 0 \<and> 0 + 1 = mb then Inr s1 else ow_send_loop n force reason mb (0 + 1) s1) (sent_first s))"
    by (rule succeeds_mono [OF output_next_ok [OF i]])
  then have "succeeds (ow_send_loop (Suc n) force reason mb 0 ?s) (sent_first s)"
    using m assms(2) unfolding ow_send_loop.simps by (simp only: e simp_thms if_True if_False succeeds_simps)
  then show ?thesis unfolding ow_send_much_def Let_def n(1) using t by (simp only: simp_thms if_False)
qed

section \<open>Reactions that change no sequence number\<close>

lemma sd_slowdown_simps [simp]:
  "sd_cfg (sd_slowdown how s) = sd_cfg s" "sd_tss (sd_slowdown how s) = sd_tss s" "sd_dupwnd (sd_slowdown how s) = sd_dupwnd s"
  "core (sd_tcp (sd_slowdown how s)) = core (sd_tcp s)" "rtt_ok (sd_tcp (sd_slowdown how s)) = rtt_ok (sd_tcp s)"
  "1 \<le> tc_cwnd (sd_tcp (sd_slowdown how s))" "tc_frto (sd_tcp (sd_slowdown how s)) = tc_frto (sd_tcp s)"
  "tc_recover (sd_tcp (sd_slowdown how s)) = tc_recover (sd_tcp s)"
  by (simp_all add: sd_slowdown_def on_tcp_def tcp_slowdown_core)

lemma slowdown_keeps: "sender_inv s \<Longrightarrow> keeps s (sd_slowdown how s)"
  by (rule keeps_core) (simp_all add: sender_inv_def)

lemma sender_inv_max: "sender_inv s \<Longrightarrow> -1 \<le> tc_maxseq (sd_tcp s)"
  by (simp add: sender_inv_def core_ok_def core_sel)

lemma ecn_ok:
  assumes "rtt_ok a" "clock_ok a" "-1 \<le> tc_maxseq a" "-1 \<le> tc_recover a"
    and slow: "\<And>how b. core (slow how b) = core b \<and> rtt_ok (slow how b) = rtt_ok b \<and> tc_recover (slow how b) = tc_recover b"
  shows "succeeds (ecn slow n a) (\<lambda>a'. core a' = core a \<and> rtt_ok a' \<and> -1 \<le> tc_recover a')"
proof -
  let ?a1 = "a\<lparr>tc_recover := tc_maxseq a, tc_last_cwnd_action := CWA_ECN\<rparr>"
  have e: "core (ecn_slowdown slow b) = core b \<and> rtt_ok (ecn_slowdown slow b) = rtt_ok b \<and> tc_recover (ecn_slowdown slow b) = tc_recover b" for b
    by (simp add: ecn_slowdown_def slow Let_def split: send_kind.split)
  have "clock_ok ?a1" using assms(2) by (simp add: clock_ok_def)
  then have "succeeds (rtt_backoff ?a1) (\<lambda>a'. rtt_ok a' \<and> core a' = core a \<and> tc_recover a' = tc_maxseq a)"
    using succeeds_mono [OF rtt_backoff_ok [of ?a1]] assms(1) by (simp add: wind_def)
  then have "succeeds (if tc_cwnd ?a1 \<le> 1 then (if tc_ecn_backoff ?a1 then rtt_backoff ?a1 else Inr (?a1\<lparr>tc_ecn_backoff := True\<rparr>))
      else Inr (?a1\<lparr>tc_ecn_backoff := False\<rparr>)) (\<lambda>a'. rtt_ok a' \<and> core a' = core a \<and> tc_recover a' = tc_maxseq a)"
    using assms(1) by simp
  then show ?thesis unfolding ecn_def Let_def succeeds_simps using assms(1,3,4) e
    by (cases "n > tc_recover a \<or> tc_last_cwnd_action a = CWA_TIMEOUT") (auto elim!: succeeds_mono)
qed

lemma sd_ecn_ok: "sender_inv s \<Longrightarrow> succeeds (sd_ecn n s) (keeps s)"
  unfolding sd_ecn_def succeeds_on_tcp_res
  by (rule succeeds_mono [OF ecn_ok])
    (auto simp: sender_inv_clock sender_inv_max sender_inv_def intro!: keeps_core)

lemma tracker_core [simp]:
  "core (tracker_on_receive p a) = core a" "rtt_ok (tracker_on_receive p a) = rtt_ok a" "tc_recover (tracker_on_receive p a) = tc_recover a"
  by (simp_all add: tracker_on_receive_def split: prod.split)

lemma ecn_on_receive_ok: "sender_inv s \<Longrightarrow> succeeds (sd_ecn_on_receive p s) (keeps s)"
proof -
  assume i: "sender_inv s"
  have k: "keeps s (on_tcp (tracker_on_receive p) s)"
    by (rule keeps_core [OF i]) (use i in \<open>simp_all add: on_tcp_def sender_inv_def\<close>)
  show ?thesis
    using sd_ecn_ok [OF i] succeeds_mono [OF sd_ecn_ok [OF keeps_inv [OF k]] keeps_trans [OF k]] k keeps_refl [OF i]
    by (simp add: sd_ecn_on_receive_def Let_def split: sender_class.split)
qed

lemma recv_begin_ok: "sender_inv s \<Longrightarrow> succeeds (ow_recv_begin p s) (keeps s)"
proof -
  assume i: "sender_inv s"
  let ?s = "on_tcp (\<lambda>a. a\<lparr>tc_nackpack := tc_nackpack a + 1\<rparr>) (s\<lparr>sd_ts_peer := tcp_ts (pk_tcp p)\<rparr>)"
  have k: "keeps s ?s" by (rule keeps_core [OF i]) (use i in \<open>simp_all add: on_tcp_def sender_inv_def\<close>)
  have f: "keeps s' (on_tcp (recv_frto_helper p) s')" if i': "sender_inv s'" for s'
  proof (cases "tcp_seqno (pk_tcp p) = tc_last_ack (sd_tcp s') \<and> tc_frto (sd_tcp s') \<noteq> 0")
    case True
    show ?thesis
      by (rule keeps_move [OF i', where t = "co_ack (core (sd_tcp s')) + 1" and n = "co_cur (core (sd_tcp s'))"
            and k = "co_init_option (core (sd_tcp s'))" and r = "co_rtx (core (sd_tcp s'))" and d = "co_delsnd (core (sd_tcp s'))"])
        (use i' True in \<open>simp_all add: on_tcp_def recv_frto_helper_def sender_inv_def core_ok_def core_get\<close>)
  next
    case False
    then show ?thesis using keeps_refl [OF i'] by (simp add: on_tcp_def recv_frto_helper_def if_not_P [OF False])
  qed
  show ?thesis unfolding ow_recv_begin_def succeeds_simps
    by (rule succeeds_mono [OF ecn_on_receive_ok [OF keeps_inv [OF k]]]) (blast intro: keeps_trans [OF k] keeps_trans f keeps_inv)
qed

lemma reset_rtx_timer_ok:
  assumes "rtt_ok a" "clock_ok a"
  shows "succeeds (ow_reset_rtx_timer mild backoff a)
    (\<lambda>a'. core a' = (core a)\<lparr>co_rtx := True, co_t := (if mild then co_t (core a) else co_ack (core a) + 1)\<rparr> \<and> rtt_ok a' \<and> wind a' = wind a)"
proof -
  have "succeeds (if backoff then rtt_backoff a else Inr a) (\<lambda>a'. rtt_ok a' \<and> core a' = core a \<and> wind a' = wind a)"
    using rtt_backoff_ok [OF assms] assms by simp
  then show ?thesis unfolding ow_reset_rtx_timer_def succeeds_simps
  proof (rule succeeds_mono)
    fix a1 assume a1: "rtt_ok a1 \<and> core a1 = core a \<and> wind a1 = wind a"
    then have "clock_ok a1" using assms(2) clock_ok_core by blast
    then show "succeeds (set_rtx_timer a1) (\<lambda>a2. core ((if mild then a2 else a2\<lparr>tc_t_seqno := tc_highest_ack a2 + 1\<rparr>)\<lparr>tc_rtt_active := False\<rparr>) =
        (core a)\<lparr>co_rtx := True, co_t := (if mild then co_t (core a) else co_ack (core a) + 1)\<rparr> \<and>
        rtt_ok ((if mild then a2 else a2\<lparr>tc_t_seqno := tc_highest_ack a2 + 1\<rparr>)\<lparr>tc_rtt_active := False\<rparr>) \<and>
        wind ((if mild then a2 else a2\<lparr>tc_t_seqno := tc_highest_ack a2 + 1\<rparr>)\<lparr>tc_rtt_active := False\<rparr>) = wind a)"
      using succeeds_mono [OF set_rtx_timer_ok [of a1]] a1 armed_core [of a1] by (auto simp: core_get)
  qed
qed

lemma reset_rtx_keeps:
  assumes "sender_inv s"
  shows "succeeds (on_tcp_res (ow_reset_rtx_timer mild backoff) s)
    (\<lambda>s'. keeps s s' \<and> co_rtx (core (sd_tcp s')) \<and> wind (sd_tcp s') = wind (sd_tcp s) \<and> sd_dupwnd s' = sd_dupwnd s \<and> co_cur (core (sd_tcp s')) = co_cur (core (sd_tcp s)) \<and>
      co_sent (core (sd_tcp s')) = co_sent (core (sd_tcp s)) \<and> (\<not> mild \<longrightarrow> co_t (core (sd_tcp s')) = co_ack (core (sd_tcp s)) + 1))"
  unfolding succeeds_on_tcp_res
proof (rule succeeds_mono [OF reset_rtx_timer_ok], goal_cases)
  case (3 a)
  let ?s = "s\<lparr>sd_tcp := a\<rparr>"
  have w: "tc_recover a = tc_recover (sd_tcp s)" using 3 by (simp add: wind_def)
  have "keeps s ?s"
    by (rule keeps_move [OF assms, where t = "if mild then co_t (core (sd_tcp s)) else co_ack (core (sd_tcp s)) + 1" and n = "co_cur (core (sd_tcp s))"
          and k = "co_init_option (core (sd_tcp s))" and r = True and d = "co_delsnd (core (sd_tcp s))"])
      (use assms 3 w in \<open>simp_all add: sender_inv_def core_ok_def core_get\<close>)
  with 3 show ?case by simp
qed (use assms in \<open>simp_all add: sender_inv_clock sender_inv_def\<close>)

section \<open>Duplicate acknowledgements\<close>

text \<open>Updates of the agent that leave its core alone, with a new recovery point.\<close>

lemma keeps_on_tcp:
  assumes "sender_inv s" "core (f (sd_tcp s)) = core (sd_tcp s)" "rtt_ok (f (sd_tcp s))" "-1 \<le> tc_recover (f (sd_tcp s))"
  shows "keeps s (on_tcp f s)"
  by (rule keeps_core [OF assms(1)]) (use assms in \<open>simp_all add: on_tcp_def\<close>)

lemma recover_keeps: "sender_inv s \<Longrightarrow> keeps s (on_tcp (\<lambda>a. a\<lparr>tc_recover := tc_maxseq a\<rparr>) s)"
  using sender_inv_max [of s] by (intro keeps_on_tcp) (simp_all add: sender_inv_def)

lemma sender_inv_last: "sender_inv s \<Longrightarrow> 0 \<le> tc_last_ack (sd_tcp s) + 1 \<and> tc_last_ack (sd_tcp s) = tc_highest_ack (sd_tcp s)"
  by (simp add: sender_inv_def core_ok_def core_sel)

lemma keeps_then: "keeps s t \<Longrightarrow> succeeds r (keeps t) \<Longrightarrow> succeeds r (keeps s)"
  by (erule succeeds_mono) (rule keeps_trans)

lemma dupwnd_keeps: "sender_inv s \<Longrightarrow> keeps s (s\<lparr>sd_dupwnd := n\<rparr>)"
  by (rule keeps_core) (simp_all add: sender_inv_def)

lemma action_keeps: "sender_inv s \<Longrightarrow> succeeds (on_tcp_res (\<lambda>a. ow_reset_rtx_timer mild False (a\<lparr>tc_recover := tc_maxseq a\<rparr>)) s) (keeps s)"
proof -
  assume i: "sender_inv s"
  let ?s = "on_tcp (\<lambda>a. a\<lparr>tc_recover := tc_maxseq a\<rparr>) s"
  note k = recover_keeps [OF i]
  have "succeeds (on_tcp_res (ow_reset_rtx_timer mild False) ?s) (keeps s)"
    by (rule succeeds_mono [OF reset_rtx_keeps [OF keeps_inv [OF k]]]) (blast intro: keeps_trans [OF k])
  then show ?thesis by (simp add: on_tcp_def)
qed

lemma retransmit_lost_ok: "sender_inv s \<Longrightarrow> succeeds (retransmit_lost s) (keeps s)"
proof -
  assume i: "sender_inv s"
  have "keeps s (s'\<lparr>sd_dupwnd := n\<rparr>)" if "sends_at (tc_last_ack (sd_tcp s) + 1) s s'" for s' n
  proof -
    from that have k: "keeps s s'" by (simp add: sends_at_def Let_def)
    from keeps_trans [OF k dupwnd_keeps [OF keeps_inv [OF k]]] show ?thesis .
  qed
  then show ?thesis unfolding retransmit_lost_def succeeds_simps
    using succeeds_mono [OF output_ok [OF i, of "tc_last_ack (sd_tcp s) + 1" DUPACK]] sender_inv_last [OF i] by simp
qed

lemma mild_then_retransmit:
  assumes "sender_inv s" "\<And>s'. keeps s s' \<Longrightarrow> keeps s (f s')"
  shows "succeeds (res_bind (on_tcp_res (ow_reset_rtx_timer True False) s) (\<lambda>s1. retransmit_lost (f s1))) (keeps s)"
  unfolding succeeds_simps
proof (rule succeeds_mono [OF reset_rtx_keeps [OF assms(1)]], elim conjE)
  fix s1 assume "keeps s s1"
  then have "keeps s (f s1)" by (rule assms(2))
  then show "succeeds (retransmit_lost (f s1)) (keeps s)" using keeps_then retransmit_lost_ok keeps_inv by blast
qed

lemma cwnd_action_keeps: "sender_inv s \<Longrightarrow> keeps s (s\<lparr>sd_tcp := (sd_tcp s)\<lparr>tc_last_cwnd_action := x\<rparr>\<rparr>)"
  by (rule keeps_core) (simp_all add: sender_inv_def)

lemma reno_action_ok: "sender_inv s \<Longrightarrow> succeeds (reno_action s) (keeps s)"
proof -
  assume i: "sender_inv s"
  let ?s = "on_tcp (\<lambda>a. a\<lparr>tc_recover := tc_maxseq a, tc_last_cwnd_action := CWA_DUPACK\<rparr>) s"
  have k1: "keeps s ?s" by (rule keeps_on_tcp [OF i]) (use i sender_inv_max [OF i] in \<open>simp_all add: sender_inv_def\<close>)
  then have k: "keeps s (sd_slowdown {SSTHRESH_HALF, CWND_HALF} ?s)" by (rule keeps_trans) (rule slowdown_keeps [OF keeps_inv [OF k1]])
  show ?thesis unfolding reno_action_def
    using keeps_then [OF k mild_then_retransmit [OF keeps_inv [OF k], of "\<lambda>s. s"]] by simp
qed

lemma tahoe_dupack_ok: "sender_inv s \<Longrightarrow> succeeds (ow_tahoe_dupack s) (keeps s)"
proof -
  assume i: "sender_inv s"
  let ?s = "s\<lparr>sd_tcp := (sd_tcp s)\<lparr>tc_last_cwnd_action := CWA_DUPACK\<rparr>\<rparr>"
  have k: "keeps s (sd_slowdown {CWND_ONE} ?s)"
    using keeps_trans [OF cwnd_action_keeps [OF i] slowdown_keeps [OF keeps_inv [OF cwnd_action_keeps [OF i]]]] .
  have "succeeds (on_tcp_res (ow_reset_rtx_timer False False) (sd_slowdown {CWND_ONE} ?s)) (keeps s)"
    by (rule succeeds_mono [OF reset_rtx_keeps [OF keeps_inv [OF k]]]) (blast intro: keeps_trans [OF k])
  then show ?thesis using action_keeps [OF i, of False] keeps_refl [OF i] by (simp add: ow_tahoe_dupack_def tahoe_action_def Let_def del: succeeds_on_tcp_res)
qed

lemma ecn_dupack_ok:
  assumes "sender_inv s" "\<And>s'. sender_inv s' \<Longrightarrow> keeps s' (f s')"
  shows "succeeds (res_bind (on_tcp_res (ow_reset_rtx_timer True False) (s\<lparr>sd_tcp := (sd_tcp s)\<lparr>tc_last_cwnd_action := CWA_DUPACK\<rparr>\<rparr>))
    (\<lambda>s1. retransmit_lost (f s1))) (keeps s)"
  by (rule keeps_then [OF cwnd_action_keeps [OF assms(1)] mild_then_retransmit])
    (use assms cwnd_action_keeps [OF assms(1)] in \<open>blast intro: keeps_inv keeps_trans\<close>)+

lemma reno_dupack_ok: "sender_inv s \<Longrightarrow> succeeds (reno_dupack s) (keeps s)"
  using reno_action_ok [of s] keeps_refl [of s] ecn_dupack_ok [of s "\<lambda>s. s", OF _ keeps_refl]
  by (simp add: reno_dupack_def Let_def del: succeeds_simps succeeds_on_tcp_res) simp

lemma newreno_dupack_ok: "sender_inv s \<Longrightarrow> succeeds (newreno_dupack s) (keeps s)"
proof -
  assume i: "sender_inv s"
  let ?f = "\<lambda>s1. if should_slowdown_on_dup_ack (send_tracker (sd_tcp s1)) then sd_slowdown {SSTHRESH_HALF, CWND_HALF} s1 else s1"
  have "keeps s' (?f s')" if "sender_inv s'" for s' using slowdown_keeps [OF that] keeps_refl [OF that] by simp
  then have e: "succeeds (res_bind (on_tcp_res (ow_reset_rtx_timer True False) (s\<lparr>sd_tcp := (sd_tcp s)\<lparr>tc_last_cwnd_action := CWA_DUPACK\<rparr>\<rparr>))
    (\<lambda>s1. retransmit_lost (?f s1))) (keeps s)" by (rule ecn_dupack_ok [OF i])
  have a: "succeeds (newreno_action s) (keeps s)" using action_keeps [OF i, of True] by (simp add: newreno_action_def)
  have "\<not> ow_bugfix_ts (sd_cfg s)" using i by (simp add: sender_inv_def core_ok_def sender_cfg_ok_def)
  then have h: "succeeds (newreno_heuristics s) (keeps s)" using a keeps_refl [OF i] by (simp add: newreno_heuristics_def Let_def)
  show ?thesis unfolding newreno_dupack_def Let_def using a h e by (simp del: succeeds_simps succeeds_on_tcp_res)
qed

lemma dupack_action_ok: "sender_inv s \<Longrightarrow> succeeds (ow_dupack_action s) (keeps s)"
  by (simp add: ow_dupack_action_def tahoe_dupack_ok reno_dupack_ok newreno_dupack_ok split: sender_class.split)

end
