(* ===== verification/TcpSenderOps.thy ===== *)
theory TcpSenderOps
  imports TcpSenderInv
begin

text \<open>
  The operations of the one-way senders that take in acknowledgements, data of the application and timeouts: each succeeds and keeps the
  invariant, an acknowledgement raises \<open>highest_ack_\<close> to its number, and a timeout sends the first packet that is not acknowledged again.
\<close>

section \<open>New acknowledgements\<close>

text \<open>An acknowledgement with number \<open>n\<close> has been taken in.\<close>

definition acks :: "int \<Rightarrow> sender \<Rightarrow> sender \<Rightarrow> bool" where
  "acks n s s' \<longleftrightarrow> follows s s' \<and> co_ack (core (sd_tcp s')) = max (co_ack (core (sd_tcp s))) n \<and>
     (guarded (core (sd_tcp s)) \<longrightarrow> guarded (core (sd_tcp s')))"

lemma keeps_acks: "keeps s s' \<Longrightarrow> n \<le> co_ack (core (sd_tcp s)) \<Longrightarrow> acks n s s'"
  by (simp add: keeps_def acks_def)

lemma acks_keeps: "acks n s t \<Longrightarrow> keeps t u \<Longrightarrow> acks n s u"
  by (auto simp: keeps_def acks_def intro: follows_trans)

lemma keeps_then_acks: "keeps s t \<Longrightarrow> acks n t u \<Longrightarrow> acks n s u"
  by (auto simp: keeps_def acks_def intro: follows_trans)

lemma acks_inv: "acks n s s' \<Longrightarrow> sender_inv s'"
  by (simp add: acks_def follows_def)

lemma acksI:
  assumes "sender_inv s" "core (sd_tcp s') = (core (sd_tcp s))\<lparr>co_ack := n, co_last := n, co_t := t, co_rtx := r\<rparr>"
    "rtt_ok (sd_tcp s')" "-1 \<le> tc_recover (sd_tcp s')" "sd_cfg s' = sd_cfg s" "sd_tss s' = sd_tss s"
    "co_ack (core (sd_tcp s)) < n" "n \<le> co_max (core (sd_tcp s))" "0 \<le> t"
    "r \<or> (r = co_rtx (core (sd_tcp s))) \<or> co_max (core (sd_tcp s)) \<le> n"
  shows "acks n s s'"
  using assms by (auto simp: acks_def follows_def sender_inv_def grows_def core_ok_def guarded_def max_def)

lemma newtimer_ok:
  assumes "rtt_ok a" "clock_ok a"
  shows "succeeds (newtimer p a) (\<lambda>a'. \<exists>r. core a' = (core a)\<lparr>co_rtx := r\<rparr> \<and> rtt_ok a' \<and> wind a' = wind a \<and>
    (r \<or> co_max (core a) \<le> tcp_seqno (pk_tcp p)))"
proof (cases "tc_t_seqno a > tcp_seqno (pk_tcp p) \<or> tcp_seqno (pk_tcp p) < tc_maxseq a \<or> tc_cwnd a < 1")
  case True
  have "succeeds (set_rtx_timer a) (\<lambda>a'. \<exists>r. core a' = (core a)\<lparr>co_rtx := r\<rparr> \<and> rtt_ok a' \<and> wind a' = wind a \<and>
      (r \<or> co_max (core a) \<le> tcp_seqno (pk_tcp p)))"
    by (rule succeeds_mono [OF set_rtx_timer_ok [OF assms]], drule armed_core) (use assms in \<open>auto intro!: exI [of _ True]\<close>)
  with True show ?thesis by (simp add: newtimer_def Let_def)
next
  case False
  let ?a = "cancel_rtx_timer a"
  have "core ?a = (core a)\<lparr>co_rtx := (tm_status (timer_force_cancel (tc_rtx_timer a)) = PENDING)\<rparr> \<and> rtt_ok ?a \<and> wind ?a = wind a"
    using assms(1) by (simp add: cancel_rtx_timer_def)
  with False show ?thesis unfolding newtimer_def Let_def if_not_P [OF False] succeeds_simps
    by (intro exI [of _ "tm_status (timer_force_cancel (tc_rtx_timer a)) = PENDING"]) (simp add: core_sel)
qed

lemma rtt_update_recover: "tc_recover (rtt_update t a) = tc_recover a"
  by (simp add: rtt_update_def Let_def split: prod.splits)

lemma rtt_update_keeps:
  assumes "clock_ok a" "rtt_ok a"
  shows "core (rtt_update t a) = core a" "rtt_ok (rtt_update t a)" "clock_ok (rtt_update t a)"
proof -
  show c: "core (rtt_update t a) = core a" "rtt_ok (rtt_update t a)" using assms rtt_update_ok [of a t] by (simp_all add: clock_ok_def rtt_ok_def)
  show "clock_ok (rtt_update t a)" using clock_ok_core [OF c(1)] assms(1) by simp
qed

lemma rtt_ok_unback: "rtt_ok a \<Longrightarrow> rtt_ok (a\<lparr>tc_t_backoff := 1\<rparr>)"
  by (simp add: rtt_ok_def)

lemma clock_ok_update [simp]:
  "clock_ok (a\<lparr>tc_t_backoff := x1\<rparr>) = clock_ok a" "clock_ok (a\<lparr>tc_ecn_backoff := x2\<rparr>) = clock_ok a" "clock_ok (a\<lparr>tc_rtt_active := x3\<rparr>) = clock_ok a"
  by (simp_all add: clock_ok_def)

lemma newack_sample_ok:
  assumes "rtt_ok a" "clock_ok a"
  shows "core (ow_newack_sample p a) = core a \<and> rtt_ok (ow_newack_sample p a) \<and> tc_recover (ow_newack_sample p a) = tc_recover a"
proof -
  define un where "un = (\<lambda>a :: tcp_agent. if can_reset_rto_backoff_tcp p a then a\<lparr>tc_t_backoff := 1, tc_ecn_backoff := False\<rparr> else a)"
  have un: "core (un b) = core b \<and> rtt_ok (un b) \<and> clock_ok (un b) \<and> tc_recover (un b) = tc_recover b" if "rtt_ok b" "clock_ok b" for b
    using that by (simp add: un_def rtt_ok_unback)
  define a1 where "a1 = (if cf_ts_option (tc_cfg a) then
    let a' = rtt_update (tc_now a - tcp_ts_echo (pk_tcp p)) a in if cf_ts_resetRTO (tc_cfg a') then un a' else a' else a)"
  have a1: "core a1 = core a \<and> rtt_ok a1 \<and> clock_ok a1 \<and> tc_recover a1 = tc_recover a"
    using assms un rtt_update_keeps [OF assms(2,1)] by (simp add: a1_def Let_def rtt_update_recover)
  let ?a2 = "(un a1)\<lparr>tc_rtt_active := False\<rparr>"
  have a2: "core ?a2 = core a" "rtt_ok ?a2" "clock_ok ?a2" "tc_recover ?a2 = tc_recover a" using a1 un [of a1] by simp_all
  have "ow_newack_sample p a = (if tc_rtt_active a1 \<and> tcp_seqno (pk_tcp p) \<ge> tc_rtt_seq a1 then
      (if cf_ts_option (tc_cfg a) then ?a2 else rtt_update (tc_now ?a2 - tc_rtt_ts ?a2) ?a2) else a1)"
    unfolding ow_newack_sample_def Let_def a1_def un_def by simp
  then show ?thesis using a1 a2 rtt_update_keeps [OF a2(3,2)] by (simp add: rtt_update_recover)
qed

lemma newack_advance_core:
  "core (ow_newack_advance n a) = (core a)\<lparr>co_ack := n, co_last := n, co_t := (if co_t (core a) < n + 1 then n + 1 else co_t (core a))\<rparr>"
  "rtt_ok (ow_newack_advance n a) = rtt_ok a" "tc_recover (ow_newack_advance n a) = tc_recover a"
  by (simp_all add: ow_newack_advance_def Let_def core_sel)

lemma newack_middle:
  fixes a :: tcp_agent and p :: packet
  assumes "rtt_ok a" "clock_ok a"
  defines "b \<equiv> ow_newack_advance (tcp_seqno (pk_tcp p)) a"
  defines "c \<equiv> if fl_no_ts (pk_flags p) then b else ow_newack_sample p b"
  shows "core c = (core a)\<lparr>co_ack := tcp_seqno (pk_tcp p), co_last := tcp_seqno (pk_tcp p),
      co_t := (if co_t (core a) < tcp_seqno (pk_tcp p) + 1 then tcp_seqno (pk_tcp p) + 1 else co_t (core a))\<rparr>"
    "rtt_ok c" "clock_ok c" "tc_recover c = tc_recover a"
proof -
  have b: "core b = (core a)\<lparr>co_ack := tcp_seqno (pk_tcp p), co_last := tcp_seqno (pk_tcp p),
      co_t := (if co_t (core a) < tcp_seqno (pk_tcp p) + 1 then tcp_seqno (pk_tcp p) + 1 else co_t (core a))\<rparr>" "rtt_ok b" "tc_recover b = tc_recover a"
    using assms(1) by (simp_all add: b_def newack_advance_core)
  have k: "clock_ok b" using assms(2) b(1) by (simp add: clock_ok_def core_get)
  have s: "core c = core b" "rtt_ok c" "tc_recover c = tc_recover b" using newack_sample_ok [OF b(2) k, of p] b by (simp_all add: c_def)
  with b show "core c = (core a)\<lparr>co_ack := tcp_seqno (pk_tcp p), co_last := tcp_seqno (pk_tcp p),
      co_t := (if co_t (core a) < tcp_seqno (pk_tcp p) + 1 then tcp_seqno (pk_tcp p) + 1 else co_t (core a))\<rparr>"
    "rtt_ok c" "tc_recover c = tc_recover a" by simp_all
  show "clock_ok c" using clock_ok_core [OF s(1)] k by simp
qed

lemma newack_ok:
  assumes "sender_inv s" "co_ack (core (sd_tcp s)) < tcp_seqno (pk_tcp p)" "tcp_seqno (pk_tcp p) \<le> co_max (core (sd_tcp s))"
  shows "succeeds (ow_newack p s) (acks (tcp_seqno (pk_tcp p)) s)"
proof -
  let ?n = "tcp_seqno (pk_tcp p)" and ?a = "sd_tcp s"
  let ?t = "if co_t (core ?a) < ?n + 1 then ?n + 1 else co_t (core ?a)"
  define mid where "mid = (\<lambda>a. if fl_no_ts (pk_flags p) then ow_newack_advance ?n a else ow_newack_sample p (ow_newack_advance ?n a))"
  have ok: "rtt_ok ?a" "clock_ok ?a" "-1 \<le> tc_recover ?a" "0 \<le> ?t"
    using assms(1) sender_inv_clock [OF assms(1)] by (auto simp: sender_inv_def core_ok_def)
  have fin: "acks ?n s s'" if "core (sd_tcp s') = (core ?a)\<lparr>co_ack := ?n, co_last := ?n, co_t := ?t, co_rtx := r\<rparr>" "rtt_ok (sd_tcp s')"
      "tc_recover (sd_tcp s') = tc_recover ?a" "sd_cfg s' = sd_cfg s" "sd_tss s' = sd_tss s" "r \<or> co_max (core ?a) \<le> ?n" for s' r
    by (rule acksI [OF assms(1) that(1)]) (use assms that ok in auto)
  have e: "ow_newack p s = res_bind (if \<not> ow_timerfix (sd_cfg s) then newtimer p ?a else Inr ?a) (\<lambda>a1.
      res_bind (if ow_timerfix (sd_cfg s) then newtimer p (mid a1) else Inr (mid a1)) (\<lambda>a4.
        Inr ((if \<not> fl_no_ts (pk_flags p) \<and> cf_ts_option (tc_cfg (ow_newack_advance ?n a1)) then s\<lparr>sd_ts_echo := tcp_ts_echo (pk_tcp p)\<rparr> else s)
          \<lparr>sd_tcp := a4\<lparr>tc_awnd := tc_awnd a4 * (1 - ow_wnd_th (sd_cfg s)) + ow_wnd_th (sd_cfg s) * tc_cwnd a4\<rparr>\<rparr>)))"
    by (simp add: ow_newack_def Let_def mid_def)
  show ?thesis
  proof (cases "ow_timerfix (sd_cfg s)")
    case True
    have m: "core (mid ?a) = (core ?a)\<lparr>co_ack := ?n, co_last := ?n, co_t := ?t\<rparr>" "rtt_ok (mid ?a)" "clock_ok (mid ?a)" "tc_recover (mid ?a) = tc_recover ?a"
      unfolding mid_def by (rule newack_middle [OF ok(1,2)])+
    have "acks ?n s (x\<lparr>sd_tcp := a4\<lparr>tc_awnd := w\<rparr>\<rparr>)"
      if "\<exists>r. core a4 = (core (mid ?a))\<lparr>co_rtx := r\<rparr> \<and> rtt_ok a4 \<and> wind a4 = wind (mid ?a) \<and> (r \<or> co_max (core (mid ?a)) \<le> ?n)"
        "sd_cfg x = sd_cfg s" "sd_tss x = sd_tss s" for a4 x w
    proof -
      from that obtain r where "core a4 = (core (mid ?a))\<lparr>co_rtx := r\<rparr>" "rtt_ok a4" "wind a4 = wind (mid ?a)" "r \<or> co_max (core (mid ?a)) \<le> ?n" by blast
      then show ?thesis by (intro fin [where r = r]) (use m that(2,3) in \<open>simp_all add: wind_def\<close>)
    qed
    then show ?thesis unfolding e succeeds_simps using True
      by (simp only: not_True_eq_False if_False if_True succeeds_simps) (rule succeeds_mono [OF newtimer_ok [OF m(2,3), of p]], simp)
  next
    case False
    have "acks ?n s (x\<lparr>sd_tcp := (mid a1)\<lparr>tc_awnd := w\<rparr>\<rparr>)"
      if a1: "core a1 = (core ?a)\<lparr>co_rtx := r\<rparr>" "rtt_ok a1" "wind a1 = wind ?a" "r \<or> co_max (core ?a) \<le> ?n"
        and x: "sd_cfg x = sd_cfg s" "sd_tss x = sd_tss s" for a1 r x w
    proof -
      have k: "clock_ok a1" using ok(2) a1(1) by (simp add: clock_ok_def core_get)
      have m: "core (mid a1) = (core a1)\<lparr>co_ack := ?n, co_last := ?n, co_t := (if co_t (core a1) < ?n + 1 then ?n + 1 else co_t (core a1))\<rparr>"
          "rtt_ok (mid a1)" "tc_recover (mid a1) = tc_recover a1"
        unfolding mid_def by (rule newack_middle [OF a1(2) k])+
      show ?thesis by (rule fin [where r = r]) (use m a1 x in \<open>auto simp: wind_def\<close>)
    qed
    then show ?thesis unfolding e succeeds_simps using False
      by (simp, intro succeeds_mono [OF newtimer_ok [OF ok(1,2), of p]]) auto
  qed
qed

lemma acks_then: "acks n s t \<Longrightarrow> succeeds r (keeps t) \<Longrightarrow> succeeds r (acks n s)"
  by (erule succeeds_mono) (rule acks_keeps)

lemma keeps_acks_then: "keeps s t \<Longrightarrow> succeeds r (acks n t) \<Longrightarrow> succeeds r (acks n s)"
  by (erule succeeds_mono) (rule keeps_then_acks)

lemma frto_newack_keeps:
  assumes "sender_inv s" "0 \<le> tc_highest_ack (sd_tcp s)"
  shows "keeps s (frto_newack s)"
proof -
  have m: "keeps s (s\<lparr>sd_tcp := (sd_tcp s)\<lparr>tc_t_seqno := tc_recover (sd_tcp s) + 1, tc_frto := 2\<rparr>\<rparr>)"
    by (rule keeps_move [OF assms(1), where t = "tc_recover (sd_tcp s) + 1" and n = "co_cur (core (sd_tcp s))"
          and k = "co_init_option (core (sd_tcp s))" and r = "co_rtx (core (sd_tcp s))" and d = "co_delsnd (core (sd_tcp s))"])
      (use assms in \<open>simp_all add: sender_inv_def core_ok_def core_get\<close>)
  have z: "keeps s (s\<lparr>sd_tcp := (sd_tcp s)\<lparr>tc_frto := 0\<rparr>\<rparr>)" by (rule keeps_core [OF assms(1)]) (use assms in \<open>simp_all add: sender_inv_def\<close>)
  have p: "keeps s (spurious_timeout s)" by (rule keeps_core [OF assms(1)]) (use assms in \<open>simp_all add: spurious_timeout_def Let_def sender_inv_def\<close>)
  show ?thesis unfolding frto_newack_def Let_def using m z p keeps_refl [OF assms(1)] by (simp only: if_split) simp
qed

lemma check_done_core:
  "\<not> cf_QOption (tc_cfg a) \<Longrightarrow> core (check_done a) = core a \<and> rtt_ok (check_done a) = rtt_ok a \<and> tc_recover (check_done a) = tc_recover a"
  by (simp add: check_done_def Let_def upcall_def) (simp add: core_def)

lemma sd_ecn_newack_core:
  "core (sd_ecn_newack p a) = core a" "rtt_ok (sd_ecn_newack p a) = rtt_ok a" "tc_recover (sd_ecn_newack p a) = tc_recover a"
  "tc_cfg (sd_ecn_newack p a) = tc_cfg a"
  by (simp_all add: sd_ecn_newack_def)

lemma sender_inv_cfg: "sender_inv s \<Longrightarrow> sender_cfg_ok (sd_cfg s) (tc_cfg (sd_tcp s))"
  by (simp add: sender_inv_def core_ok_def core_sel)

lemma opencwnd_keeps:
  "sender_inv s \<Longrightarrow> succeeds (on_tcp_res opencwnd s) (\<lambda>s'. core (sd_tcp s') = core (sd_tcp s) \<and> rtt_ok (sd_tcp s') \<and>
     tc_recover (sd_tcp s') = tc_recover (sd_tcp s) \<and> sd_cfg s' = sd_cfg s \<and> sd_tss s' = sd_tss s)"
  using succeeds_mono [OF opencwnd_ok [of "sd_tcp s"]] sender_inv_cfg [of s] by (simp add: sender_cfg_ok_def sender_inv_def)

lemma newack_helper_ok:
  assumes "sender_inv s" "co_ack (core (sd_tcp s)) < tcp_seqno (pk_tcp p)" "tcp_seqno (pk_tcp p) \<le> co_max (core (sd_tcp s))"
  shows "succeeds (recv_newack_helper p s) (acks (tcp_seqno (pk_tcp p)) s)"
  unfolding recv_newack_helper_def succeeds_simps
proof (rule succeeds_mono [OF newack_ok [OF assms]])
  fix s1 assume s1: "acks (tcp_seqno (pk_tcp p)) s s1"
  then have i1: "sender_inv s1" by (rule acks_inv)
  have h1: "0 \<le> co_ack (core (sd_tcp s1))" using s1 assms(1,2) by (simp add: acks_def sender_inv_def core_ok_def)
  have "keeps s1 (frto_newack (on_tcp (\<lambda>a. check_done (sd_ecn_newack p a)) s2))"
    if "core (sd_tcp s2) = core (sd_tcp s1) \<and> rtt_ok (sd_tcp s2) \<and> tc_recover (sd_tcp s2) = tc_recover (sd_tcp s1) \<and> sd_cfg s2 = sd_cfg s1 \<and> sd_tss s2 = sd_tss s1" for s2
  proof -
    let ?s3 = "on_tcp (\<lambda>a. check_done (sd_ecn_newack p a)) s2"
    have k2: "keeps s1 s2" by (rule keeps_core [OF i1]) (use that i1 in \<open>simp_all add: sender_inv_def\<close>)
    then have i2: "sender_inv s2" by (rule keeps_inv)
    have "\<not> cf_QOption (tc_cfg (sd_ecn_newack p (sd_tcp s2)))" using sender_inv_cfg [OF i2] by (simp add: sd_ecn_newack_core sender_cfg_ok_def)
    note c = check_done_core [OF this]
    have "keeps s2 ?s3" by (rule keeps_on_tcp [OF i2]) (use c i2 in \<open>simp_all add: sd_ecn_newack_core sender_inv_def\<close>)
    then have k3: "keeps s1 ?s3" by (rule keeps_trans [OF k2])
    have "0 \<le> tc_highest_ack (sd_tcp ?s3)" using k3 h1 by (simp add: keeps_def core_get)
    from keeps_trans [OF k3 frto_newack_keeps [OF keeps_inv [OF k3] this]] show ?thesis .
  qed
  then have "succeeds (if sd_can_open_cwnd p (sd_tcp s1) \<and> (\<not> cf_control_increase (tc_cfg (sd_tcp s1)) \<or> network_limited s1)
      then on_tcp_res opencwnd s1 else Inr s1) (\<lambda>s2. keeps s1 (frto_newack (on_tcp (\<lambda>a. check_done (sd_ecn_newack p a)) s2)))"
    using succeeds_mono [OF opencwnd_keeps [OF i1]] i1 by (simp add: sender_inv_def del: succeeds_on_tcp_res)
  then show "succeeds (if sd_can_open_cwnd p (sd_tcp s1) \<and> (\<not> cf_control_increase (tc_cfg (sd_tcp s1)) \<or> network_limited s1)
      then on_tcp_res opencwnd s1 else Inr s1) (\<lambda>s2. acks (tcp_seqno (pk_tcp p)) s (frto_newack (on_tcp (\<lambda>a. check_done (sd_ecn_newack p a)) s2)))"
    by (rule succeeds_mono) (rule acks_keeps [OF s1])
qed

lemma initial_growth_ok: "sender_inv s \<Longrightarrow> succeeds (initial_growth s) (keeps s)"
proof -
  assume i: "sender_inv s"
  then have "tc_wnd_init_option (sd_tcp s) = 1 \<or> tc_wnd_init_option (sd_tcp s) = 2" by (simp add: sender_inv_def core_ok_def core_sel)
  then have w: "succeeds (initial_window (sd_tcp s)) (\<lambda>_. True)" by (auto simp: initial_window_def)
  have "keeps s (s\<lparr>sd_tcp := (sd_tcp s)\<lparr>tc_cwnd := x\<rparr>\<rparr>)" for x by (rule keeps_core [OF i]) (use i in \<open>simp_all add: sender_inv_def\<close>)
  then show ?thesis using succeeds_mono [OF w] keeps_refl [OF i] by (simp add: initial_growth_def Let_def)
qed


section \<open>Receiving an acknowledgement\<close>

lemma partial_advance_core:
  "core (partial_advance n a) = (core a)\<lparr>co_ack := n, co_last := n, co_t := (if co_t (core a) < n + 1 then n + 1 else co_t (core a))\<rparr>"
  "rtt_ok a \<Longrightarrow> rtt_ok (partial_advance n a)" "tc_recover (partial_advance n a) = tc_recover a"
  by (simp_all add: partial_advance_def Let_def core_sel rtt_ok_unback)

lemma deflate_window_core:
  "core (sd_tcp (deflate_window p s)) = core (sd_tcp s)" "rtt_ok (sd_tcp (deflate_window p s)) = rtt_ok (sd_tcp s)"
  "tc_recover (sd_tcp (deflate_window p s)) = tc_recover (sd_tcp s)" "sd_cfg (deflate_window p s) = sd_cfg s" "sd_tss (deflate_window p s) = sd_tss s"
  by (simp_all add: deflate_window_def Let_def)

lemma partialnewack_core:
  fixes p s
  defines "n \<equiv> tcp_seqno (pk_tcp p)" and "v \<equiv> core (sd_tcp s)"
  shows "core (sd_tcp (partialnewack p s)) = v\<lparr>co_ack := n, co_last := n, co_t := (if co_t v < n + 1 then n + 1 else co_t v)\<rparr>"
    "rtt_ok (sd_tcp s) \<Longrightarrow> rtt_ok (sd_tcp (partialnewack p s))" "tc_recover (sd_tcp (partialnewack p s)) = tc_recover (sd_tcp s)"
    "sd_cfg (partialnewack p s) = sd_cfg s" "sd_tss (partialnewack p s) = sd_tss s"
  by (simp_all add: partialnewack_def on_tcp_def partial_advance_core deflate_window_core n_def v_def)

lemma partialnewack_helper_ok:
  assumes "sender_inv s" "co_ack (core (sd_tcp s)) < tcp_seqno (pk_tcp p)" "tcp_seqno (pk_tcp p) \<le> co_max (core (sd_tcp s))"
  shows "succeeds (partialnewack_helper p s) (acks (tcp_seqno (pk_tcp p)) s)"
proof -
  let ?n = "tcp_seqno (pk_tcp p)" and ?v = "core (sd_tcp s)"
  have ok: "rtt_ok (sd_tcp s)" "clock_ok (sd_tcp s)" "-1 \<le> tc_recover (sd_tcp s)" "-1 \<le> co_ack ?v" "0 \<le> co_t ?v"
    using assms(1) sender_inv_clock [OF assms(1)] by (auto simp: sender_inv_def core_ok_def)
  have go: "succeeds (ow_output (tc_last_ack (sd_tcp (partialnewack p s1)) + 1) NORMAL (partialnewack p s1)) (acks ?n s)"
    if s1: "core (sd_tcp s1) = ?v\<lparr>co_rtx := r\<rparr>" "rtt_ok (sd_tcp s1)" "wind (sd_tcp s1) = wind (sd_tcp s)" "sd_cfg s1 = sd_cfg s" "sd_tss s1 = sd_tss s"
      "r \<or> r = co_rtx ?v \<or> co_max ?v \<le> ?n" for s1 r
  proof -
    have a: "acks ?n s (partialnewack p s1)"
      by (rule acksI [OF assms(1), where t = "if co_t ?v < ?n + 1 then ?n + 1 else co_t ?v" and r = r])
        (use s1 assms ok in \<open>auto simp: partialnewack_core wind_def\<close>)
    have "0 \<le> tc_last_ack (sd_tcp (partialnewack p s1)) + 1" using sender_inv_last [OF acks_inv [OF a]] by simp
    from succeeds_mono [OF output_ok [OF acks_inv [OF a] this]] acks_keeps [OF a] show ?thesis by (auto simp: sends_at_def Let_def)
  qed
  show ?thesis
  proof (cases "\<not> ow_newreno_changes1 (sd_cfg s) \<or> \<not> sd_firstpartial s")
    case True
    have "succeeds (newtimer p (sd_tcp s)) (\<lambda>a. succeeds (ow_output (tc_last_ack (sd_tcp (partialnewack p (s\<lparr>sd_firstpartial := True, sd_tcp := a\<rparr>))) + 1)
        NORMAL (partialnewack p (s\<lparr>sd_firstpartial := True, sd_tcp := a\<rparr>))) (acks ?n s))"
      by (rule succeeds_mono [OF newtimer_ok [OF ok(1,2), of p]], elim exE conjE, rule go) auto
    then show ?thesis unfolding partialnewack_helper_def Let_def succeeds_simps if_P [OF True] by simp
  next
    case False
    have "succeeds (ow_output (tc_last_ack (sd_tcp (partialnewack p s)) + 1) NORMAL (partialnewack p s)) (acks ?n s)"
      by (rule go [where r = "co_rtx ?v"]) (use ok in auto)
    then show ?thesis unfolding partialnewack_helper_def Let_def succeeds_simps if_not_P [OF False] by simp
  qed
qed

lemma output_keeps: "sender_inv s \<Longrightarrow> 0 \<le> n \<Longrightarrow> succeeds (ow_output n reason s) (keeps s)"
  by (erule (1) succeeds_mono [OF output_ok]) (simp add: sends_at_def Let_def)

lemma output_next_keeps: "sender_inv s \<Longrightarrow> succeeds (output_next reason s) (keeps s)"
  by (erule succeeds_mono [OF output_next_ok]) (rule sends_next_keeps)

lemma dup_or_limited_ok: "sender_inv s \<Longrightarrow> succeeds (dup_or_limited s) (keeps s)"
  by (simp add: dup_or_limited_def send_one_def Let_def output_next_keeps keeps_refl)

lemma count_dupack_keeps: "sender_inv s \<Longrightarrow> keeps s (count_dupack s)"
  unfolding count_dupack_def by (rule keeps_on_tcp) (simp_all add: sender_inv_def)

lemma next_seqno_keeps: "sender_inv s \<Longrightarrow> keeps s (next_seqno s)"
  by (rule keeps_move [where t = "co_t (core (sd_tcp s)) + 1" and n = "co_cur (core (sd_tcp s))"
        and k = "co_init_option (core (sd_tcp s))" and r = "co_rtx (core (sd_tcp s))" and d = "co_delsnd (core (sd_tcp s))"])
    (simp_all add: next_seqno_def on_tcp_def core_sel sender_inv_def core_ok_def)

lemma fast_retransmit_ok: "sender_inv s \<Longrightarrow> succeeds (reno_fast_retransmit s) (keeps s)"
  unfolding reno_fast_retransmit_def succeeds_simps
proof (erule succeeds_mono [OF dupack_action_ok])
  fix s1 assume k: "keeps s s1"
  from keeps_trans [OF k dupwnd_keeps [OF keeps_inv [OF k]]] k
  show "keeps s (if ow_exitFastRetrans (sd_cfg s1) then s1 else s1\<lparr>sd_dupwnd := ow_numdupacks (sd_cfg s1)\<rparr>)" by simp
qed

lemma sender_inv_ack: "sender_inv s \<Longrightarrow> tc_last_ack (sd_tcp s) = co_ack (core (sd_tcp s))"
  by (simp add: sender_inv_def core_ok_def core_sel)

text \<open>The three ways a packet is taken in by \<open>recv\<close>.\<close>

lemma by_order:
  assumes "sender_inv s" "tcp_seqno (pk_tcp p) \<le> co_max (core (sd_tcp s))"
    and new: "co_ack (core (sd_tcp s)) < tcp_seqno (pk_tcp p) \<Longrightarrow> succeeds f (acks (tcp_seqno (pk_tcp p)) s)"
    and dup: "succeeds g (keeps s)"
  shows "succeeds (if tcp_seqno (pk_tcp p) > tc_last_ack (sd_tcp s) then f
      else if tcp_seqno (pk_tcp p) = tc_last_ack (sd_tcp s) then g else Inr s) (acks (tcp_seqno (pk_tcp p)) s)"
proof -
  note l = sender_inv_ack [OF assms(1)]
  consider "tcp_seqno (pk_tcp p) > tc_last_ack (sd_tcp s)" | "tcp_seqno (pk_tcp p) = tc_last_ack (sd_tcp s)" | "tcp_seqno (pk_tcp p) < tc_last_ack (sd_tcp s)"
    by linarith
  then show ?thesis
  proof cases
    case 1
    then show ?thesis using new l by simp
  next
    case 2
    then have "succeeds g (acks (tcp_seqno (pk_tcp p)) s)" using dup l by (auto elim!: succeeds_mono intro: keeps_acks)
    with 2 show ?thesis by simp
  next
    case 3
    then show ?thesis using keeps_acks [OF keeps_refl [OF assms(1)]] l by simp
  qed
qed

lemma newack_then_growth:
  assumes k: "keeps s t" and "co_ack (core (sd_tcp s)) < tcp_seqno (pk_tcp p)" "tcp_seqno (pk_tcp p) \<le> co_max (core (sd_tcp s))"
  shows "succeeds (res_bind (recv_newack_helper p t) initial_growth) (acks (tcp_seqno (pk_tcp p)) s)"
proof -
  have "succeeds (recv_newack_helper p t) (acks (tcp_seqno (pk_tcp p)) t)"
    by (rule newack_helper_ok [OF keeps_inv [OF k]]) (use assms in \<open>auto simp: keeps_def follows_def grows_def\<close>)
  then show ?thesis unfolding succeeds_simps
    by (rule succeeds_mono) (blast intro: keeps_acks_then [OF k] acks_then initial_growth_ok acks_inv)
qed

lemma tahoe_ack_ok:
  assumes "sender_inv s" "tcp_seqno (pk_tcp p) \<le> co_max (core (sd_tcp s))"
  shows "succeeds (tahoe_ack p s) (acks (tcp_seqno (pk_tcp p)) s)"
  unfolding tahoe_ack_def Let_def
proof (rule by_order [OF assms])
  note k = count_dupack_keeps [OF assms(1)]
  show "succeeds (if tc_dupacks (sd_tcp (count_dupack s)) = ow_numdupacks (sd_cfg (count_dupack s)) \<and> \<not> ow_noFastRetrans (sd_cfg (count_dupack s))
      then ow_dupack_action (count_dupack s) else dup_or_limited (count_dupack s)) (keeps s)"
    using keeps_then [OF k dupack_action_ok [OF keeps_inv [OF k]]] keeps_then [OF k dup_or_limited_ok [OF keeps_inv [OF k]]] by simp
qed (rule newack_then_growth [OF keeps_refl [OF assms(1)] _ assms(2)])

lemma reno_ack_ok:
  assumes "sender_inv s" "tcp_seqno (pk_tcp p) \<le> co_max (core (sd_tcp s))"
  shows "succeeds (reno_ack p s) (acks (tcp_seqno (pk_tcp p)) s)"
  unfolding reno_ack_def Let_def
proof (rule by_order [OF assms], rule newack_then_growth [OF _ _ assms(2)])
  let ?s = "count_dupack s"
  note k = count_dupack_keeps [OF assms(1)]
  note i = keeps_inv [OF k]
  show "succeeds (if tc_dupacks (sd_tcp ?s) = ow_numdupacks (sd_cfg ?s) then reno_fast_retransmit ?s
      else if in_fast_recovery ?s then Inr (?s\<lparr>sd_dupwnd := sd_dupwnd ?s + 1\<rparr>) else dup_or_limited ?s) (keeps s)"
    using keeps_then [OF k fast_retransmit_ok [OF i]] keeps_then [OF k dup_or_limited_ok [OF i]] keeps_trans [OF k dupwnd_keeps [OF i]] by simp
  show "keeps s (s\<lparr>sd_tcp := if tc_last_cwnd_action (sd_tcp s) = CWA_DUPACK then (sd_tcp s)\<lparr>tc_last_cwnd_action := CWA_EXITED\<rparr> else sd_tcp s, sd_dupwnd := 0\<rparr>)"
    by (rule keeps_core [OF assms(1)]) (use assms(1) in \<open>simp_all add: sender_inv_def\<close>)
qed

lemma newreno_ack_ok:
  assumes "sender_inv s" "tcp_seqno (pk_tcp p) \<le> co_max (core (sd_tcp s))"
  shows "succeeds (newreno_ack p s) (acks (tcp_seqno (pk_tcp p)) s)"
  unfolding newreno_ack_def Let_def
proof (rule by_order [OF assms])
  let ?s = "count_dupack s"
  note k = count_dupack_keeps [OF assms(1)]
  note i = keeps_inv [OF k]
  let ?s2 = "?s\<lparr>sd_dupwnd := sd_dupwnd ?s + 1\<rparr>"
  have k2: "keeps s ?s2" by (rule keeps_trans [OF k dupwnd_keeps [OF i]])
  have k3: "keeps s (next_seqno ?s2)" by (rule keeps_trans [OF k2 next_seqno_keeps [OF keeps_inv [OF k2]]])
  have "0 \<le> tc_t_seqno (sd_tcp ?s2)" using keeps_inv [OF k2] by (simp add: sender_inv_def core_ok_def core_sel)
  from keeps_then [OF k3 output_keeps [OF keeps_inv [OF k3] this]]
  show "succeeds (if tc_dupacks (sd_tcp ?s) = ow_numdupacks (sd_cfg ?s) then reno_fast_retransmit ?s
      else if in_fast_recovery ?s then
        if ow_newreno_changes (sd_cfg ?s2) > 0 \<and> tc_dupacks (sd_tcp ?s2) smod 2 = 1
        then ow_output (tc_t_seqno (sd_tcp ?s2)) NORMAL (next_seqno ?s2) else Inr ?s2
      else dup_or_limited ?s) (keeps s)"
    using keeps_then [OF k fast_retransmit_ok [OF i]] keeps_then [OF k dup_or_limited_ok [OF i]] k2 by simp
next
  assume new: "co_ack (core (sd_tcp s)) < tcp_seqno (pk_tcp p)"
  let ?s = "(newreno_exit_recovery p s)\<lparr>sd_firstpartial := False\<rparr>"
  have k: "keeps s ?s"
    by (rule keeps_core [OF assms(1)]) (use assms(1) in \<open>simp_all add: newreno_exit_recovery_def Let_def sender_inv_def\<close>)
  let ?t = "if ow_partial_window_deflation (sd_cfg s) then s else s\<lparr>sd_dupwnd := 0\<rparr>"
  have t: "keeps s ?t" using keeps_refl [OF assms(1)] dupwnd_keeps [OF assms(1)] by simp
  have "succeeds (partialnewack_helper p ?t) (acks (tcp_seqno (pk_tcp p)) ?t)"
    by (rule partialnewack_helper_ok [OF keeps_inv [OF t]]) (use new assms(2) in auto)
  from keeps_acks_then [OF t this] newack_then_growth [OF k new assms(2)]
  show "succeeds (if tcp_seqno (pk_tcp p) \<ge> tc_recover (sd_tcp s) \<or> tc_last_cwnd_action (sd_tcp s) \<noteq> CWA_DUPACK
      then res_bind (recv_newack_helper p ?s) initial_growth else partialnewack_helper p ?t) (acks (tcp_seqno (pk_tcp p)) s)"
    by (simp only: split: if_split) simp
qed

lemma ow_ack_ok:
  assumes "sender_inv s" "tcp_seqno (pk_tcp p) \<le> co_max (core (sd_tcp s))"
  shows "succeeds (ow_ack p s) (acks (tcp_seqno (pk_tcp p)) s)"
proof -
  have "acks (tcp_seqno (pk_tcp p)) s (if cf_QOption (tc_cfg (sd_tcp s1)) \<and> cf_EnblRTTCtr (tc_cfg (sd_tcp s1))
      then process_qoption_after_ack (tcp_seqno (pk_tcp p)) s1 else s1)" if "acks (tcp_seqno (pk_tcp p)) s s1" for s1
    using that sender_inv_cfg [OF acks_inv [OF that]] by (simp add: sender_cfg_ok_def)
  then show ?thesis
  proof (cases "ow_class (sd_cfg s)")
    case TcpAgent
    show ?thesis unfolding ow_ack_def TcpAgent sender_class.case succeeds_simps
      by (rule succeeds_mono [OF tahoe_ack_ok [OF assms]]) fact
  qed (use reno_ack_ok [OF assms] newreno_ack_ok [OF assms] in \<open>simp_all add: ow_ack_def\<close>)
qed

lemma recv_end_ok: "sender_inv s \<Longrightarrow> succeeds (ow_recv_end p s) (keeps s)"
  using send_much_ok [of s] keeps_refl [of s] by (simp add: ow_recv_end_def Let_def split: sender_class.split)

lemma tcp_eln_ok: "sender_inv s \<Longrightarrow> succeeds (tcp_eln p s) (keeps s)"
proof -
  assume i: "sender_inv s"
  note k = count_dupack_keeps [OF i]
  have e: "keeps s (s'\<lparr>sd_eln_last_rxmit := n\<rparr>)" if "keeps s s'" for s' n
    by (rule keeps_trans [OF that keeps_core [OF keeps_inv [OF that]]]) (use keeps_inv [OF that] in \<open>simp_all add: sender_inv_def\<close>)
  have "0 \<le> tc_last_ack (sd_tcp (count_dupack s)) + 1" using sender_inv_last [OF keeps_inv [OF k]] by simp
  note o = keeps_then [OF k output_keeps [OF keeps_inv [OF k] this, of DUPACK]]
  show ?thesis unfolding tcp_eln_def Let_def
    using succeeds_mono [OF o e] keeps_then [OF k send_much_ok [OF keeps_inv [OF k]]] by simp
qed

lemma newreno_estimate_keeps: "sender_inv s \<Longrightarrow> keeps s (newreno_estimate s)"
  by (rule keeps_core) (simp_all add: newreno_estimate_def on_tcp_def Let_def sender_inv_def)

text \<open>An acknowledgement of a packet that was sent.\<close>

lemma ow_recv_ok:
  assumes "sender_inv s" "tcp_seqno (pk_tcp p) \<le> co_max (core (sd_tcp s))"
  shows "succeeds (ow_recv p s) (\<lambda>s'. if tcp_ts (pk_tcp p) < tc_lastreset (sd_tcp s) then keeps s s' else acks (tcp_seqno (pk_tcp p)) s s')"
proof -
  let ?n = "tcp_seqno (pk_tcp p)"
  define s0 where "s0 = (if ow_class (sd_cfg s) = NewRenoTcpAgent then newreno_estimate s else s)"
  have k0: "keeps s s0" using keeps_refl [OF assms(1)] newreno_estimate_keeps [OF assms(1)] by (simp add: s0_def)
  then have l: "tc_lastreset (sd_tcp s0) = tc_lastreset (sd_tcp s)" by (simp add: keeps_def follows_def grows_def core_get)
  have "succeeds (ow_recv_begin p s0) (\<lambda>s1. succeeds (if ?n = tc_last_ack (sd_tcp s1) \<and> fl_eln (pk_flags p) \<and> ow_eln (sd_cfg s1)
      then tcp_eln p s1 else res_bind (ow_ack p s1) (ow_recv_end p)) (acks ?n s))"
  proof (rule succeeds_mono [OF recv_begin_ok [OF keeps_inv [OF k0]]])
    fix s1 assume "keeps s0 s1"
    then have k1: "keeps s s1" by (rule keeps_trans [OF k0])
    note i1 = keeps_inv [OF k1]
    have m: "?n \<le> co_max (core (sd_tcp s1))" using k1 assms(2) by (simp add: keeps_def follows_def grows_def)
    have "succeeds (res_bind (ow_ack p s1) (ow_recv_end p)) (acks ?n s1)" unfolding succeeds_simps
      by (rule succeeds_mono [OF ow_ack_ok [OF i1 m]]) (blast intro: acks_then recv_end_ok acks_inv)
    then have a: "succeeds (res_bind (ow_ack p s1) (ow_recv_end p)) (acks ?n s)" by (rule keeps_acks_then [OF k1])
    have e: "succeeds (tcp_eln p s1) (acks ?n s)" if "?n = tc_last_ack (sd_tcp s1)"
      by (rule keeps_acks_then [OF k1 succeeds_mono [OF tcp_eln_ok [OF i1] keeps_acks]]) (use that sender_inv_ack [OF i1] in auto)
    show "succeeds (if ?n = tc_last_ack (sd_tcp s1) \<and> fl_eln (pk_flags p) \<and> ow_eln (sd_cfg s1)
      then tcp_eln p s1 else res_bind (ow_ack p s1) (ow_recv_end p)) (acks ?n s)"
    proof (cases "?n = tc_last_ack (sd_tcp s1) \<and> fl_eln (pk_flags p) \<and> ow_eln (sd_cfg s1)")
      case True
      then show ?thesis unfolding if_P [OF True] by (intro e) blast
    next
      case False
      show ?thesis unfolding if_not_P [OF False] by (rule a)
    qed
  qed
  then show ?thesis using k0 l by (simp add: ow_recv_def Let_def s0_def [symmetric] del: succeeds_simps(3)) simp
qed

section \<open>The application\<close>

lemma curseq_keeps: "sender_inv s \<Longrightarrow> keeps s (s\<lparr>sd_tcp := (sd_tcp s)\<lparr>tc_curseq := n, tc_closed := b\<rparr>\<rparr>)"
  by (rule keeps_move [where t = "co_t (core (sd_tcp s))" and n = n
        and k = "co_init_option (core (sd_tcp s))" and r = "co_rtx (core (sd_tcp s))" and d = "co_delsnd (core (sd_tcp s))"])
    (simp_all add: core_sel sender_inv_def core_ok_def)

lemma sendmsg_ok: "sender_inv s \<Longrightarrow> succeeds (ow_sendmsg nbytes s) (keeps s)"
proof -
  assume i: "sender_inv s"
  have k: "keeps s (s\<lparr>sd_tcp := (sd_tcp s)\<lparr>tc_curseq := n\<rparr>\<rparr>)" for n using curseq_keeps [OF i, where n = n and b = "tc_closed (sd_tcp s)"] by simp
  have "cf_size (tc_cfg (sd_tcp s)) \<noteq> 0" using sender_inv_cfg [OF i] by (simp add: sender_cfg_ok_def)
  then show ?thesis using keeps_then [OF k send_much_ok [OF keeps_inv [OF k]]] by (simp add: ow_sendmsg_def Let_def)
qed

lemma advanceby_ok: "sender_inv s \<Longrightarrow> succeeds (ow_advanceby n s) (keeps s)"
proof -
  assume i: "sender_inv s"
  have k: "keeps s (s\<lparr>sd_tcp := (sd_tcp s)\<lparr>tc_curseq := n\<rparr>\<rparr>)" for n using curseq_keeps [OF i, where n = n and b = "tc_closed (sd_tcp s)"] by simp
  show ?thesis
    using keeps_then [OF k send_much_ok [OF keeps_inv [OF k]]]
      keeps_then [OF curseq_keeps [OF i] send_much_ok [OF keeps_inv [OF curseq_keeps [OF i]]]] by (simp add: ow_advanceby_def Let_def)
qed

lemma ow_advance_ok: "sender_inv s \<Longrightarrow> succeeds (ow_advance n s) (keeps s)"
  by (simp add: ow_advance_def Let_def advanceby_ok)

section \<open>Timeouts\<close>

lemma first_dropped_core:
  assumes "tc_wnd_init_option a \<in> {1, 2}"
  shows "\<exists>k \<in> {1, 2}. core (first_dropped s a) = (core a)\<lparr>co_init_option := k\<rparr>" "rtt_ok (first_dropped s a) = rtt_ok a"
    "wind (first_dropped s a) = wind a"
proof -
  have "core a = (core a)\<lparr>co_init_option := tc_wnd_init_option a\<rparr>" by (simp add: core_get)
  then show "\<exists>k \<in> {1, 2}. core (first_dropped s a) = (core a)\<lparr>co_init_option := k\<rparr>"
    using assms by (auto simp: first_dropped_def core_def)
qed (simp_all add: first_dropped_def)

text \<open>The window after a timeout.\<close>

definition restarted :: "sender \<Rightarrow> sender \<Rightarrow> bool" where
  "restarted s s' \<longleftrightarrow> (\<exists>k \<in> {1, 2}. core (sd_tcp s') = (core (sd_tcp s))\<lparr>co_init_option := k\<rparr>) \<and> rtt_ok (sd_tcp s') \<and>
     -1 \<le> tc_recover (sd_tcp s') \<and> sd_cfg s' = sd_cfg s \<and> sd_tss s' = sd_tss s \<and> sd_dupwnd s' = sd_dupwnd s \<and>
     1 \<le> tc_cwnd (sd_tcp s') \<and> tc_frto (sd_tcp s') \<noteq> 2"

lemma restarted_keeps: "sender_inv s \<Longrightarrow> restarted s s' \<Longrightarrow> keeps s s'"
  unfolding restarted_def
  by (elim bexE conjE, rule keeps_move [where t = "co_t (core (sd_tcp s))" and n = "co_cur (core (sd_tcp s))" and r = "co_rtx (core (sd_tcp s))" and d = "co_delsnd (core (sd_tcp s))"])
    (auto simp: sender_inv_def core_ok_def core_get)

lemma timeout_slowdown_ok:
  assumes "sender_inv s" "tc_frto (sd_tcp s) = 0"
  shows "restarted s (timeout_slowdown s)"
proof -
  let ?s = "on_tcp (\<lambda>a. first_dropped s (a\<lparr>tc_recover := tc_maxseq a\<rparr>)) s"
  let ?a = "(sd_tcp s)\<lparr>tc_recover := tc_maxseq (sd_tcp s)\<rparr>"
  have o: "tc_wnd_init_option ?a \<in> {1, 2}" using assms(1) by (simp add: sender_inv_def core_ok_def core_sel)
  note f = first_dropped_core [OF o, of s]
  have s: "\<exists>k \<in> {1, 2}. core (sd_tcp ?s) = (core (sd_tcp s))\<lparr>co_init_option := k\<rparr>" "rtt_ok (sd_tcp ?s)" "-1 \<le> tc_recover (sd_tcp ?s)" "tc_frto (sd_tcp ?s) = 0"
      "sd_cfg ?s = sd_cfg s" "sd_tss ?s = sd_tss s" "sd_dupwnd ?s = sd_dupwnd s"
    using f assms sender_inv_max [OF assms(1)] by (simp_all add: on_tcp_def wind_def sender_inv_def)
  have r: "restarted s t" if "core (sd_tcp t) = core (sd_tcp ?s)" "rtt_ok (sd_tcp t) = rtt_ok (sd_tcp ?s)" "tc_recover (sd_tcp t) = tc_recover (sd_tcp ?s)"
      "sd_cfg t = sd_cfg ?s" "sd_tss t = sd_tss ?s" "sd_dupwnd t = sd_dupwnd ?s" "1 \<le> tc_cwnd (sd_tcp t)" "tc_frto (sd_tcp t) \<noteq> 2" for t
    using that s unfolding restarted_def by simp
  show ?thesis unfolding timeout_slowdown_def Let_def
    by (rule r; use s(4) in \<open>simp add: on_tcp_def\<close>)
qed

lemma succeeds_conj: "succeeds r P \<Longrightarrow> succeeds r Q \<Longrightarrow> succeeds r (\<lambda>x. P x \<and> Q x)"
  by (auto simp: succeeds_def)

lemma window_restarted:
  assumes "1 \<le> tc_cwnd (sd_tcp s)" "tc_frto (sd_tcp s) \<noteq> 2" "1 \<le> cf_wnd (tc_cfg (sd_tcp s))" "sd_dupwnd s = 0 \<or> \<not> is_reno s"
  shows "1 \<le> sd_window s"
proof -
  have "1 \<le> trunc (tc_cwnd (sd_tcp s))" "1 \<le> trunc (cf_wnd (tc_cfg (sd_tcp s)))"
    using trunc_mono [OF assms(1)] trunc_mono [OF assms(3)] by simp_all
  with assms show ?thesis by (auto simp: sd_window_def window_def Let_def)
qed

text \<open>When the first packet that is not acknowledged can be sent again.\<close>

definition can_resend :: "sender \<Rightarrow> bool" where
  "can_resend s \<longleftrightarrow> cf_overhead (tc_cfg (sd_tcp s)) = 0 \<and> ow_max_connects (sd_cfg s) \<le> 0 \<and> 1 \<le> cf_wnd (tc_cfg (sd_tcp s)) \<and>
     co_ack (core (sd_tcp s)) + 1 < co_cur (core (sd_tcp s))"

definition resends :: "sender \<Rightarrow> sender \<Rightarrow> bool" where
  "resends s s' \<longleftrightarrow> (\<exists>p ps. co_sent (core (sd_tcp s')) = co_sent (core (sd_tcp s)) @ p # ps \<and> tcp_seqno (pk_tcp p) = co_ack (core (sd_tcp s)) + 1)"

lemma send_much_resends:
  assumes "sender_inv s" "co_rtx (core (sd_tcp s))" "co_t (core (sd_tcp s)) = co_ack (core (sd_tcp s)) + 1"
    "1 \<le> tc_cwnd (sd_tcp s)" "tc_frto (sd_tcp s) \<noteq> 2" "sd_dupwnd s = 0 \<or> \<not> is_reno s"
  shows "succeeds (ow_send_much False reason mb s) (\<lambda>s'. keeps s s' \<and> guarded (core (sd_tcp s')) \<and> (can_resend s \<longrightarrow> resends s s'))"
proof -
  have g: "guarded (core (sd_tcp s))" using assms(2) by (simp add: guarded_def)
  have k: "succeeds (ow_send_much False reason mb s) (\<lambda>s'. keeps s s' \<and> guarded (core (sd_tcp s')))"
    by (rule succeeds_mono [OF send_much_ok [OF assms(1)]]) (use g in \<open>simp add: keeps_def\<close>)
  show ?thesis
  proof (cases "can_resend s")
    case True
    then have "may_send s" using window_restarted [OF assms(4,5) _ assms(6)] assms(3) by (simp add: may_send_def can_resend_def core_get)
    then have "succeeds (ow_send_much False reason mb s) (sent_first s)" using send_much_first [OF assms(1)] True by (simp add: can_resend_def)
    from succeeds_conj [OF k this] show ?thesis by (rule succeeds_mono) (simp add: sent_first_def resends_def assms(3))
  qed (use k in simp)
qed

lemma timeout_rtx_ok:
  assumes "sender_inv s" "sd_dupwnd s = 0 \<or> \<not> is_reno s"
  shows "succeeds (timeout_rtx s) (\<lambda>s'. keeps s s' \<and> guarded (core (sd_tcp s')) \<and> (can_resend s \<longrightarrow> resends s s'))"
proof -
  define s3 where "s3 = (let s1 = on_tcp (\<lambda>a. a\<lparr>tc_frto := 0\<rparr>) s; w = sd_window s1;
      s2 = s1\<lparr>sd_pipe_prev := (if w > tc_ssthresh (sd_tcp s1) then w else tc_ssthresh (sd_tcp s1))\<rparr>
    in on_tcp (\<lambda>a. if tc_cwnd a < 1 then a\<lparr>tc_cwnd := 1\<rparr> else a) s2)"
  let ?idle = "tc_highest_ack (sd_tcp s3) = tc_maxseq (sd_tcp s3)"
  define s4 where "s4 = (if ?idle \<and> \<not> cf_slow_start_restart (tc_cfg (sd_tcp s3)) then s3 else timeout_slowdown s3)"
  have 3: "core (sd_tcp s3) = core (sd_tcp s)" "rtt_ok (sd_tcp s3)" "tc_recover (sd_tcp s3) = tc_recover (sd_tcp s)" "sd_cfg s3 = sd_cfg s" "sd_tss s3 = sd_tss s"
      "sd_dupwnd s3 = sd_dupwnd s" "tc_frto (sd_tcp s3) = 0" "1 \<le> tc_cwnd (sd_tcp s3)"
    using assms(1) by (simp_all add: s3_def on_tcp_def Let_def sender_inv_def)
  have k3: "keeps s s3" by (rule keeps_core [OF assms(1)]) (use 3 assms(1) in \<open>simp_all add: sender_inv_def\<close>)
  have o: "co_init_option (core (sd_tcp s3)) \<in> {1, 2}" using assms(1) 3 by (simp add: sender_inv_def core_ok_def)
  have "restarted s3 s3" unfolding restarted_def using 3 o assms(1) by (auto simp: sender_inv_def intro!: bexI [of _ "co_init_option (core (sd_tcp s3))"])
  then have r: "restarted s3 s4" using timeout_slowdown_ok [OF keeps_inv [OF k3] 3(7)] by (simp add: s4_def)
  have k4: "keeps s s4" by (rule keeps_trans [OF k3 restarted_keeps [OF keeps_inv [OF k3] r]])
  have e: "timeout_rtx s = res_bind (on_tcp_res (ow_reset_rtx_timer False (\<not> (?idle \<and> cf_restart_bugfix (tc_cfg (sd_tcp s3))))) s4) (\<lambda>s5.
      ow_send_much False TIMEOUT (tc_maxburst (sd_tcp s5)) (on_tcp (\<lambda>a. a\<lparr>tc_last_cwnd_action := CWA_TIMEOUT\<rparr>) s5))"
    by (simp add: timeout_rtx_def Let_def s4_def s3_def)
  show ?thesis unfolding e succeeds_simps(3)
  proof (rule succeeds_mono [OF reset_rtx_keeps [OF keeps_inv [OF k4]]], elim conjE)
    fix s5 assume 5: "keeps s4 s5" "co_rtx (core (sd_tcp s5))" "wind (sd_tcp s5) = wind (sd_tcp s4)" "sd_dupwnd s5 = sd_dupwnd s4"
      "co_cur (core (sd_tcp s5)) = co_cur (core (sd_tcp s4))" "co_sent (core (sd_tcp s5)) = co_sent (core (sd_tcp s4))" "\<not> False \<longrightarrow> co_t (core (sd_tcp s5)) = co_ack (core (sd_tcp s4)) + 1"
    let ?s = "on_tcp (\<lambda>a. a\<lparr>tc_last_cwnd_action := CWA_TIMEOUT\<rparr>) s5"
    have k5: "keeps s s5" by (rule keeps_trans [OF k4 5(1)])
    have i5: "sender_inv s5" by (rule keeps_inv [OF k5])
    have k6: "keeps s5 ?s" by (rule keeps_on_tcp [OF i5]) (use i5 in \<open>simp_all add: sender_inv_def\<close>)
    have q: "core (sd_tcp ?s) = core (sd_tcp s5)" "wind (sd_tcp ?s) = wind (sd_tcp s5)" "sd_dupwnd ?s = sd_dupwnd s" "is_reno ?s = is_reno s" "sd_cfg ?s = sd_cfg s5"
      using 5(4) r 3 k5 by (simp_all add: on_tcp_def restarted_def is_reno_def keeps_def follows_def)
    have w: "1 \<le> tc_cwnd (sd_tcp ?s)" "tc_frto (sd_tcp ?s) \<noteq> 2" using q(2) 5(3) r by (auto simp: wind_def restarted_def)
    have v: "co_ack (core (sd_tcp s4)) = co_ack (core (sd_tcp s5))" "co_ack (core (sd_tcp s5)) = co_ack (core (sd_tcp s))" "co_cur (core (sd_tcp s5)) = co_cur (core (sd_tcp s))"
      "co_cfg (core (sd_tcp s5)) = co_cfg (core (sd_tcp s))" "sd_cfg s5 = sd_cfg s" "co_sent (core (sd_tcp s5)) = co_sent (core (sd_tcp s))"
      using 5 k5 r 3(1) by (auto simp: keeps_def restarted_def follows_def grows_def)
    have c: "can_resend s \<longrightarrow> can_resend ?s" using v q by (simp add: can_resend_def core_get)
    have "succeeds (ow_send_much False TIMEOUT (tc_maxburst (sd_tcp s5)) ?s)
        (\<lambda>s'. keeps ?s s' \<and> guarded (core (sd_tcp s')) \<and> (can_resend ?s \<longrightarrow> resends ?s s'))"
      by (rule send_much_resends [OF keeps_inv [OF k6]]) (use q w 5 v assms(2) in auto)
    moreover have "keeps s s' \<and> guarded (core (sd_tcp s')) \<and> (can_resend s \<longrightarrow> resends s s')"
      if "keeps ?s s' \<and> guarded (core (sd_tcp s')) \<and> (can_resend ?s \<longrightarrow> resends ?s s')" for s'
      using that c v q keeps_trans [OF keeps_trans [OF k5 k6]] by (auto simp: resends_def)
    ultimately show "succeeds (ow_send_much False TIMEOUT (tc_maxburst (sd_tcp s5)) ?s)
        (\<lambda>s'. keeps s s' \<and> guarded (core (sd_tcp s')) \<and> (can_resend s \<longrightarrow> resends s s'))" by (rule succeeds_mono)
  qed
qed


section \<open>Expiring timers and resetting\<close>

lemma timeout_ok:
  assumes "sender_inv s"
  shows "succeeds (ow_timeout_rtx s) (\<lambda>s'. keeps s s' \<and> guarded (core (sd_tcp s')) \<and> (can_resend s \<longrightarrow> resends s s'))"
proof (cases "is_reno s")
  case True
  define t where "t = (on_tcp (\<lambda>a. let a1 = a\<lparr>tc_dupacks := 0\<rparr> in if cf_bug_fix (tc_cfg a1) then a1\<lparr>tc_recover := tc_maxseq a1\<rparr> else a1) s)\<lparr>sd_dupwnd := 0\<rparr>"
  have c: "core (sd_tcp t) = core (sd_tcp s)" "sd_cfg t = sd_cfg s" "tc_cfg (sd_tcp t) = tc_cfg (sd_tcp s)" "sd_dupwnd t = 0"
    by (simp_all add: t_def on_tcp_def Let_def)
  have k: "keeps s t"
    by (rule keeps_core [OF assms]) (use assms sender_inv_max [OF assms] in \<open>simp_all add: t_def on_tcp_def Let_def sender_inv_def\<close>)
  have "succeeds (timeout_rtx t) (\<lambda>s'. keeps t s' \<and> guarded (core (sd_tcp s')) \<and> (can_resend t \<longrightarrow> resends t s'))"
    by (rule timeout_rtx_ok [OF keeps_inv [OF k]]) (simp add: c)
  then have "succeeds (timeout_rtx t) (\<lambda>s'. keeps s s' \<and> guarded (core (sd_tcp s')) \<and> (can_resend s \<longrightarrow> resends s s'))"
    by (rule succeeds_mono) (use keeps_trans [OF k] in \<open>auto simp: can_resend_def resends_def c\<close>)
  with True show ?thesis unfolding ow_timeout_rtx_def t_def [symmetric] by simp
next
  case False
  then show ?thesis using timeout_rtx_ok [OF assms] by (simp add: ow_timeout_rtx_def)
qed

text \<open>The end of \<open>TimerHandler::handle\<close> changes nothing that matters.\<close>

lemma handle_end_keeps:
  assumes "sender_inv s"
  shows "keeps s (on_tcp (\<lambda>a. a\<lparr>tc_rtx_timer := timer_handle_end (tc_rtx_timer a)\<rparr>) s)"
    "keeps s (on_tcp (\<lambda>a. a\<lparr>tc_delsnd_timer := timer_handle_end (tc_delsnd_timer a)\<rparr>) s)"
proof -
  have t: "(tm_status (timer_handle_end t) = PENDING) = (tm_status t = PENDING)" for t by (simp add: timer_handle_end_def)
  show "keeps s (on_tcp (\<lambda>a. a\<lparr>tc_rtx_timer := timer_handle_end (tc_rtx_timer a)\<rparr>) s)"
    "keeps s (on_tcp (\<lambda>a. a\<lparr>tc_delsnd_timer := timer_handle_end (tc_delsnd_timer a)\<rparr>) s)"
    by (rule keeps_on_tcp [OF assms]; use assms in \<open>simp add: t core_get sender_inv_def\<close>)+
qed

lemma expire_rtx_ok:
  assumes "sender_inv s" "co_rtx (core (sd_tcp s))"
  shows "succeeds (ow_expire_rtx s) (\<lambda>s'. keeps s s' \<and> guarded (core (sd_tcp s')) \<and> (can_resend s \<longrightarrow> resends s s'))"
proof -
  let ?t = "(tc_rtx_timer (sd_tcp s))\<lparr>tm_status := HANDLING\<rparr>"
  let ?s = "on_tcp (\<lambda>a. a\<lparr>tc_rtx_timer := ?t\<rparr>) s"
  have c: "core (sd_tcp ?s) = (core (sd_tcp s))\<lparr>co_rtx := False\<rparr>" by (simp add: on_tcp_def)
  have i: "sender_inv ?s" using assms(1) by (simp add: sender_inv_def c core_ok_def) (simp add: on_tcp_def)
  have k: "keeps s s'" if "keeps ?s s'" "guarded (core (sd_tcp s'))" for s'
    using that by (simp add: keeps_def follows_def grows_def c) (simp add: on_tcp_def)
  have "succeeds (ow_timeout_rtx ?s) (\<lambda>s'. keeps s s' \<and> guarded (core (sd_tcp s')) \<and> (can_resend s \<longrightarrow> resends s s'))"
    by (rule succeeds_mono [OF timeout_ok [OF i]]) (use k in \<open>auto simp: can_resend_def resends_def c\<close>, auto simp: on_tcp_def)
  moreover have "keeps s t \<and> guarded (core (sd_tcp t)) \<and> (can_resend s \<longrightarrow> resends s t)"
    if "keeps s s' \<and> guarded (core (sd_tcp s')) \<and> (can_resend s \<longrightarrow> resends s s')" "keeps s' t" for s' t
    using that keeps_trans [of s s' t] by (fastforce simp: keeps_def resends_def follows_def grows_def)
  ultimately have "succeeds (ow_timeout_rtx ?s) (\<lambda>s'. let t = on_tcp (\<lambda>a. a\<lparr>tc_rtx_timer := timer_handle_end (tc_rtx_timer a)\<rparr>) s' in
      keeps s t \<and> guarded (core (sd_tcp t)) \<and> (can_resend s \<longrightarrow> resends s t))"
    unfolding Let_def by (elim succeeds_mono) (blast intro: handle_end_keeps keeps_inv)
  then show ?thesis using assms(2) by (simp add: ow_expire_rtx_def timer_handle_begin_def core_sel Let_def)
qed

lemma expire_delsnd_ok:
  assumes "sender_inv s" "co_delsnd (core (sd_tcp s))"
  shows "succeeds (ow_expire_delsnd s) (keeps s)"
proof -
  let ?t = "(tc_delsnd_timer (sd_tcp s))\<lparr>tm_status := HANDLING\<rparr>"
  let ?s = "on_tcp (\<lambda>a. a\<lparr>tc_delsnd_timer := ?t\<rparr>) s"
  have k: "keeps s ?s"
    by (rule keeps_move [OF assms(1), where t = "co_t (core (sd_tcp s))" and n = "co_cur (core (sd_tcp s))" and k = "co_init_option (core (sd_tcp s))"
          and r = "co_rtx (core (sd_tcp s))" and d = False]) (use assms in \<open>simp_all add: on_tcp_def sender_inv_def core_ok_def\<close>)
  have "succeeds (timeout_delsnd ?s) (\<lambda>s'. keeps s (on_tcp (\<lambda>a. a\<lparr>tc_delsnd_timer := timer_handle_end (tc_delsnd_timer a)\<rparr>) s'))"
    unfolding timeout_delsnd_def
    by (rule succeeds_mono [OF send_much_ok [OF keeps_inv [OF k]]]) (blast intro: handle_end_keeps keeps_inv keeps_trans k)
  then show ?thesis using assms(2) by (simp add: ow_expire_delsnd_def timer_handle_begin_def core_sel)
qed

end
