(* ===== verification/Acker.thy ===== *)
theory Acker
  imports Packet
begin

text \<open>
  The receive window of the one-way TCP sinks: classes \<open>Acker\<close>, \<open>SackStack\<close> and \<open>Sacker\<close> of \<open>tcp/tcp-sink.h\<close> and
  \<open>tcp/tcp-sink.cc\<close>. Packets are numbered; \<open>seen_\<close> is a ring buffer, indexed by the packet number modulo its size (a power of two),
  that holds the size of each packet received beyond \<open>next_\<close>, and grows when a packet is too far ahead.

  It is shown that \<open>update\<close> computes the first missing packet, the bytes that can be delivered and whether a packet is a
  duplicate, and that the blocks built by \<open>append_ack\<close> hold packets that have been received only.
\<close>

unbundle bit_operations_syntax

section \<open>Acker\<close>

record acker =
  ak_next :: int
  ak_maxseen :: int
  ak_wndmask :: int
  ak_ecn_unacked :: int
  ak_seen :: "int list"
  ak_ts_to_echo :: time
  ak_is_dup :: bool
  ak_last_ack_sent :: int

definition MWS :: int where "MWS = 64"

definition acker_init :: acker where
  "acker_init = \<lparr>ak_next = 0, ak_maxseen = 0, ak_wndmask = MWS - 1, ak_ecn_unacked = 0, ak_seen = replicate (nat MWS) 0,
     ak_ts_to_echo = 0, ak_is_dup = False, ak_last_ack_sent = 0\<rparr>"

definition acker_reset :: "acker \<Rightarrow> acker" where
  "acker_reset a = a\<lparr>ak_next := 0, ak_maxseen := 0, ak_seen := replicate (nat (ak_wndmask a + 1)) 0\<rparr>"

text \<open>\<open>seen_[i & wndmask_]\<close>, read and written.\<close>

definition slot :: "int \<Rightarrow> int \<Rightarrow> nat" where
  "slot wndmask i = nat (i AND wndmask)"

definition seen_at :: "acker \<Rightarrow> int \<Rightarrow> int" where
  "seen_at a i = ak_seen a ! slot (ak_wndmask a) i"

definition set_seen :: "int \<Rightarrow> int \<Rightarrow> acker \<Rightarrow> acker" where
  "set_seen i n a = a\<lparr>ak_seen := (ak_seen a)[slot (ak_wndmask a) i := n]\<rparr>"

definition resize_buffers :: "int \<Rightarrow> acker \<Rightarrow> acker" where
  "resize_buffers sz a =
     (let new_wndmask = sz - 1;
          new_seen = foldl (\<lambda>ns i. ns[slot new_wndmask i := seen_at a i]) (replicate (nat sz) 0) [ak_next a..ak_maxseen a + 1]
      in a\<lparr>ak_seen := new_seen, ak_wndmask := new_wndmask\<rparr>)"

definition update_ts :: "int \<Rightarrow> time \<Rightarrow> bool \<Rightarrow> acker \<Rightarrow> acker" where
  "update_ts seqno ts rfc1323 a =
     (if rfc1323 \<and> seqno = ak_last_ack_sent a + 1 then a\<lparr>ak_ts_to_echo := ts\<rparr>
      else if ts \<ge> ak_ts_to_echo a \<and> seqno \<le> ak_last_ack_sent a + 1 then a\<lparr>ak_ts_to_echo := ts\<rparr>
      else a)"

text \<open>The loops of \<open>update\<close>, with a number of rounds that suffices: the window grows by at least one in each round of the first, and
  one slot is always empty in the second.\<close>

fun resize_loop :: "nat \<Rightarrow> int \<Rightarrow> acker \<Rightarrow> acker res" where
  "resize_loop 0 seq a = Inl Diverges"
| "resize_loop (Suc n) seq a =
     (if seq + 1 - ak_next a \<ge> ak_wndmask a then resize_loop n seq (resize_buffers ((ak_wndmask a + 1) * 2) a) else Inr a)"

fun deliver_loop :: "nat \<Rightarrow> acker \<Rightarrow> int \<Rightarrow> int \<Rightarrow> (int \<times> int) res" where
  "deliver_loop 0 a numToDeliver next = Inl Diverges"
| "deliver_loop (Suc n) a numToDeliver next =
     (if seen_at a next \<noteq> 0 then deliver_loop n a (numToDeliver + seen_at a next) (next + 1) else Inr (numToDeliver, next))"

declare resize_loop.simps [simp del] deliver_loop.simps [simp del]

definition mark_highest :: "int \<Rightarrow> int \<Rightarrow> acker \<Rightarrow> acker" where
  "mark_highest seq numBytes a =
     (let a1 = foldl (\<lambda>a i. set_seen i 0 a) a [ak_maxseen a + 1..seq - 1];
          a2 = set_seen seq numBytes (a1\<lparr>ak_maxseen := seq\<rparr>)
      in set_seen (seq + 1) 0 a2)"

definition acker_update :: "int \<Rightarrow> int \<Rightarrow> acker \<Rightarrow> (int \<times> acker) res" where
  "acker_update seq numBytes a =
     res_bind (resize_loop (nat (seq + 1 - ak_next a) + 2) seq (a\<lparr>ak_is_dup := False\<rparr>)) (\<lambda>a1.
       let just_marked_as_seen = (seq > ak_maxseen a1);
           a2 = (if just_marked_as_seen then mark_highest seq numBytes a1 else a1);
           a3 = (if seq < ak_next a2 then a2\<lparr>ak_is_dup := True\<rparr> else a2)
       in if seq \<ge> ak_next a3 \<and> seq \<le> ak_maxseen a3 then
            let a4 = (if seen_at a3 seq \<noteq> 0 \<and> \<not> just_marked_as_seen then a3\<lparr>ak_is_dup := True\<rparr> else a3);
                a5 = set_seen seq numBytes a4
            in res_bind (deliver_loop (length (ak_seen a5) + 1) a5 0 (ak_next a5)) (\<lambda>(numToDeliver, next).
                 Inr (numToDeliver, a5\<lparr>ak_next := next\<rparr>))
          else Inr (0, a3))"

definition Seqno :: "acker \<Rightarrow> int" where
  "Seqno a = ak_next a - 1"

section \<open>SackStack and Sacker\<close>

record sackstack =
  sf_size :: int
  sf_cnt :: int
  sf_SFE :: "(int \<times> int) list"

definition sf_new :: "int \<Rightarrow> sackstack" where
  "sf_new sz = \<lparr>sf_size = sz, sf_cnt = 0, sf_SFE = replicate (nat sz) (-1, -1)\<rparr>"

text \<open>Reading and writing an entry is an error outside the array.\<close>

definition sf_get :: "int \<Rightarrow> (int \<times> int) list \<Rightarrow> (int \<times> int) res" where
  "sf_get i es = (if 0 \<le> i \<and> i < int (length es) then Inr (es ! nat i) else Inl OutOfBounds)"

definition sf_set :: "int \<Rightarrow> int \<times> int \<Rightarrow> (int \<times> int) list \<Rightarrow> (int \<times> int) list res" where
  "sf_set i e es = (if 0 \<le> i \<and> i < int (length es) then Inr (es[nat i := e]) else Inl OutOfBounds)"

fun sf_copies :: "(int \<times> int) list \<Rightarrow> (int \<times> int) list \<Rightarrow> (int \<times> int) list res" where
  "sf_copies [] es = Inr es"
| "sf_copies ((i, j) # ijs) es = res_bind (sf_get j es) (\<lambda>e. res_bind (sf_set i e es) (sf_copies ijs))"

fun sf_clear :: "nat \<Rightarrow> (int \<times> int) list \<Rightarrow> (int \<times> int) list res" where
  "sf_clear 0 es = Inr es"
| "sf_clear (Suc n) es = res_bind (sf_clear n es) (sf_set (int n) (-1, -1))"

definition sf_reset :: "sackstack \<Rightarrow> sackstack res" where
  "sf_reset s = res_bind (sf_clear (nat (sf_cnt s)) (sf_SFE s)) (\<lambda>es. Inr (s\<lparr>sf_SFE := es, sf_cnt := 0\<rparr>))"

text \<open>\<open>push()\<close> moves the entries down by one, \<open>pop(k)\<close> moves those below entry \<open>k\<close> up.\<close>

definition sf_push :: "sackstack \<Rightarrow> sackstack res" where
  "sf_push s =
     (let cnt = (if sf_cnt s \<ge> sf_size s then sf_size s - 1 else sf_cnt s)
      in res_bind (sf_copies (map (\<lambda>i. (i + 1, i)) (rev [0..cnt - 1])) (sf_SFE s)) (\<lambda>es.
           Inr (s\<lparr>sf_SFE := es, sf_cnt := cnt + 1\<rparr>)))"

definition sf_pop :: "int \<Rightarrow> sackstack \<Rightarrow> sackstack res" where
  "sf_pop k s =
     res_bind (sf_copies (map (\<lambda>i. (i, i + 1)) [k..sf_cnt s - 2]) (sf_SFE s)) (\<lambda>es.
       res_bind (sf_set (max k (sf_cnt s - 1)) (-1, -1) es) (\<lambda>es1.
         Inr (s\<lparr>sf_SFE := es1, sf_cnt := sf_cnt s - 1\<rparr>)))"

record sacker =
  sk_base_nblocks :: int
  sk_sf :: sackstack

definition NSA :: int where "NSA = 3"

definition sacker_configure :: "int \<Rightarrow> sacker" where
  "sacker_configure nblocks = (let n = (if nblocks > NSA then NSA else nblocks) in \<lparr>sk_base_nblocks = n, sk_sf = sf_new n\<rparr>)"

text \<open>\<open>Sacker::trace\<close>, run when the number of blocks is changed, makes a new stack.\<close>

definition sacker_trace :: "int \<Rightarrow> sacker \<Rightarrow> sacker" where
  "sacker_trace nblocks s = (let n = (if nblocks > NSA then NSA else nblocks) in s\<lparr>sk_base_nblocks := n, sk_sf := sf_new n\<rparr>)"

text \<open>The loops of \<open>append_ack\<close> that look for a hole to the right and to the left.\<close>

definition hole_right :: "acker \<Rightarrow> int \<Rightarrow> int" where
  "hole_right a old_seqno =
     (case find (\<lambda>i. seen_at a i = 0) [old_seqno..ak_maxseen a] of Some i \<Rightarrow> i | None \<Rightarrow> ak_maxseen a + 1)"

definition hole_left :: "acker \<Rightarrow> int \<Rightarrow> int" where
  "hole_left a sack_right =
     (case find (\<lambda>i. seen_at a i = 0) (rev [Seqno a + 1..sack_right - 1]) of Some i \<Rightarrow> i + 1 | None \<Rightarrow> -1)"

text \<open>The loop over the older blocks: \<open>k\<close> is the entry looked at and \<open>sack_index\<close> the number of blocks written. Each round writes a block or
  removes an entry.\<close>

fun old_blocks ::
  "nat \<Rightarrow> acker \<Rightarrow> int \<Rightarrow> int \<times> int \<Rightarrow> int \<Rightarrow> (int \<times> int) list \<Rightarrow> sackstack \<Rightarrow> ((int \<times> int) list \<times> sackstack) res" where
  "old_blocks 0 a nblocks recent k blocks s = Inl Diverges"
| "old_blocks (Suc n) a nblocks recent k blocks s =
     (if int (length blocks) < nblocks then
        res_bind (sf_get k (sf_SFE s)) (\<lambda>(sack_left, sack_right).
          if sack_left < 0 \<or> sack_right < 0 \<or> sack_right > ak_maxseen a + 1 then Inr (blocks, s)
          else if fst recent \<le> sack_left \<and> snd recent \<ge> sack_right then
            res_bind (sf_pop k s) (old_blocks n a nblocks recent k blocks)
          else old_blocks n a nblocks recent (k + 1) (blocks @ [(sack_left, sack_right)]) s)
      else Inr (blocks, s))"

declare old_blocks.simps [simp del]

definition sack_blocks ::
  "acker \<Rightarrow> int \<Rightarrow> int \<Rightarrow> (int \<times> int) list \<Rightarrow> sackstack \<Rightarrow> ((int \<times> int) list \<times> sackstack) res" where
  "sack_blocks a nblocks old_seqno blocks s =
     (let sack_right = hole_right a old_seqno;
          sack_left = (if old_seqno \<le> Seqno a then 0 else hole_left a sack_right);
          blocks1 = (if old_seqno \<le> Seqno a then blocks else blocks @ [(sack_left, sack_right)])
      in res_bind (old_blocks (nat nblocks + length (sf_SFE s) + 2) a nblocks (sack_left, sack_right) 0 blocks1 s) (\<lambda>(blocks2, s1).
           if old_seqno > Seqno a then
             res_bind (sf_push s1) (\<lambda>s2.
               res_bind (sf_set 0 (sack_left, sack_right) (sf_SFE s2)) (\<lambda>es. Inr (blocks2, s2\<lparr>sf_SFE := es\<rparr>)))
           else Inr (blocks2, s1)))"

definition append_ack :: "bool \<Rightarrow> acker \<Rightarrow> int \<Rightarrow> sacker \<Rightarrow> ((int \<times> int) list \<times> sacker) res" where
  "append_ack dsacks a old_seqno k =
     (if old_seqno < 0 then Inr ([], k)
      else if Seqno a \<ge> ak_maxseen a \<and> sf_cnt (sk_sf k) \<noteq> 0 then
        res_bind (sf_reset (sk_sf k)) (\<lambda>s. Inr ([], k\<lparr>sk_sf := s\<rparr>))
      else if (Seqno a < ak_maxseen a \<or> ak_is_dup a) \<and> sk_base_nblocks k > 0 then
        (let blocks = (if dsacks \<and> ak_is_dup a then [(old_seqno, old_seqno + 1)] else [])
         in if int (length blocks) \<ge> sk_base_nblocks k then Inr (blocks, k)
            else res_bind (sack_blocks a (sk_base_nblocks k) old_seqno blocks (sk_sf k)) (\<lambda>(blocks1, s).
                   Inr (blocks1, k\<lparr>sk_sf := s\<rparr>)))
      else Inr ([], k))"

section \<open>The ring buffer\<close>

text \<open>\<open>R\<close> is the set of packets received and \<open>sz\<close> their sizes.\<close>

definition window_ok :: "(int \<Rightarrow> int) \<Rightarrow> int set \<Rightarrow> acker \<Rightarrow> bool" where
  "window_ok sz R a \<longleftrightarrow> (\<exists>k. ak_wndmask a + 1 = 2 ^ k) \<and> length (ak_seen a) = nat (ak_wndmask a + 1) \<and>
     0 \<le> ak_next a \<and> ak_next a \<le> ak_maxseen a + 1 \<and> 0 \<le> ak_maxseen a \<and> ak_maxseen a + 1 - ak_next a \<le> ak_wndmask a \<and>
     (\<forall>i \<in> {ak_next a..ak_maxseen a + 1}. seen_at a i = (if i \<in> R then sz i else 0)) \<and>
     {0..<ak_next a} \<subseteq> R \<and> R \<subseteq> {0..ak_maxseen a} \<and> (\<forall>i. 0 < sz i)"

definition acker_inv :: "(int \<Rightarrow> int) \<Rightarrow> int set \<Rightarrow> acker \<Rightarrow> bool" where
  "acker_inv sz R a \<longleftrightarrow> window_ok sz R a \<and> ak_next a \<notin> R"

lemma slot_mod:
  assumes "m + 1 = 2 ^ k"
  shows "slot m i = nat (i mod (m + 1))"
proof -
  have "m = 2 ^ k - 1" using assms by simp
  then show ?thesis using take_bit_eq_mask [of k i] by (simp add: slot_def take_bit_eq_mod mask_eq_exp_minus_1)
qed

lemma slot_less: "m + 1 = 2 ^ k \<Longrightarrow> slot m i < nat (m + 1)"
  by (simp add: slot_mod nat_less_iff)

lemma slot_inj:
  assumes m: "m + 1 = 2 ^ k" and w: "i \<in> {n..n + m}" "j \<in> {n..n + m}" and e: "slot m i = slot m j"
  shows "i = j"
proof -
  have pos: "0 < m + 1" unfolding m by simp
  from e have "i mod (m + 1) = j mod (m + 1)" using pos by (simp add: slot_mod [OF m] eq_nat_nat_iff)
  then have "(m + 1) dvd (i - j)" by (simp add: mod_eq_dvd_iff)
  moreover have "\<bar>i - j\<bar> < m + 1" using w by auto
  ultimately show ?thesis using dvd_imp_le_int [of "i - j" "m + 1"] by auto
qed

text \<open>A window of at most \<open>wndmask_ + 1\<close> packets has its slots for itself.\<close>

lemma seen_set_seen:
  assumes "ak_wndmask a + 1 = 2 ^ k" "length (ak_seen a) = nat (ak_wndmask a + 1)" "i \<in> {n..n + ak_wndmask a}" "j \<in> {n..n + ak_wndmask a}"
  shows "seen_at (set_seen i x a) j = (if i = j then x else seen_at a j)"
proof (cases "i = j")
  case True
  then show ?thesis using slot_less [OF assms(1)] assms(2) by (simp add: seen_at_def set_seen_def)
next
  case False
  then have "slot (ak_wndmask a) i \<noteq> slot (ak_wndmask a) j" using slot_inj [OF assms(1,3,4)] by blast
  with False show ?thesis by (simp add: seen_at_def set_seen_def)
qed

lemma set_seen_simps [simp]:
  "ak_wndmask (set_seen i x a) = ak_wndmask a" "ak_next (set_seen i x a) = ak_next a" "ak_maxseen (set_seen i x a) = ak_maxseen a"
  "length (ak_seen (set_seen i x a)) = length (ak_seen a)" "ak_is_dup (set_seen i x a) = ak_is_dup a"
  by (simp_all add: set_seen_def)

lemma seen_at_simps [simp]:
  "seen_at (a\<lparr>ak_maxseen := m\<rparr>) i = seen_at a i" "seen_at (a\<lparr>ak_is_dup := d\<rparr>) i = seen_at a i" "seen_at (a\<lparr>ak_next := n\<rparr>) i = seen_at a i"
  by (simp_all add: seen_at_def)

lemma foldl_update_nth:
  assumes "distinct (map f is)" "\<forall>i \<in> set is. f i < length xs"
  shows "length (foldl (\<lambda>ns i. ns[f i := g i]) xs is) = length xs \<and>
    (\<forall>j \<in> set is. foldl (\<lambda>ns i. ns[f i := g i]) xs is ! f j = g j)"
  using assms
proof (induction "is" rule: rev_induct)
  case (snoc i "is")
  then show ?case by (auto simp: nth_list_update)
qed simp

text \<open>A larger buffer holds the same window.\<close>

lemma resize_inv:
  assumes i: "window_ok sz R a"
  shows "window_ok sz R (resize_buffers ((ak_wndmask a + 1) * 2) a)"
proof -
  let ?m = "(ak_wndmask a + 1) * 2 - 1" and ?w = "[ak_next a..ak_maxseen a + 1]"
  let ?a = "resize_buffers ((ak_wndmask a + 1) * 2) a"
  from i obtain k where k: "ak_wndmask a + 1 = 2 ^ k" by (auto simp: window_ok_def)
  then have m: "?m + 1 = 2 ^ Suc k" by simp
  have pos: "0 < ak_wndmask a + 1" unfolding k by simp
  have win: "x \<in> {ak_next a..ak_next a + ?m}" if "x \<in> set ?w" for x using that i pos by (auto simp: window_ok_def)
  have "inj_on (slot ?m) (set ?w)" by (rule inj_onI) (rule slot_inj [OF m win win])
  then have d: "distinct (map (slot ?m) ?w)" by (simp add: distinct_map)
  have "\<forall>j \<in> set ?w. slot ?m j < length (replicate (nat ((ak_wndmask a + 1) * 2)) (0::int))"
    using slot_less [OF m] unfolding diff_add_cancel by simp
  from foldl_update_nth [OF d this, of "seen_at a"] have f: "ak_wndmask ?a = ?m" "ak_next ?a = ak_next a" "ak_maxseen ?a = ak_maxseen a"
    "length (ak_seen ?a) = nat (?m + 1)" "\<forall>j \<in> set ?w. seen_at ?a j = seen_at a j"
    by (simp_all add: resize_buffers_def Let_def seen_at_def)
  have "\<forall>j \<in> {ak_next a..ak_maxseen a + 1}. seen_at ?a j = (if j \<in> R then sz j else 0)" using f(5) i by (simp add: window_ok_def)
  then show ?thesis using i m pos f(4) unfolding window_ok_def f(1-3) by (auto intro: exI [of _ "Suc k"])
qed

lemma resize_loop_ok:
  "window_ok sz R a \<Longrightarrow> max 0 (seq + 2 - ak_next a - ak_wndmask a) < int n \<Longrightarrow>
   \<exists>a'. resize_loop n seq a = Inr a' \<and> window_ok sz R a' \<and> seq + 1 - ak_next a' < ak_wndmask a' \<and> ak_next a' = ak_next a \<and>
     ak_maxseen a' = ak_maxseen a \<and> ak_is_dup a' = ak_is_dup a"
proof (induction n arbitrary: a)
  case (Suc n)
  show ?case
  proof (cases "seq + 1 - ak_next a \<ge> ak_wndmask a")
    case True
    let ?a = "resize_buffers ((ak_wndmask a + 1) * 2) a"
    have s: "ak_next ?a = ak_next a" "ak_wndmask ?a = (ak_wndmask a + 1) * 2 - 1" "ak_maxseen ?a = ak_maxseen a" "ak_is_dup ?a = ak_is_dup a"
      by (simp_all add: resize_buffers_def Let_def)
    have "0 \<le> ak_wndmask a" using Suc.prems(1) by (auto simp: window_ok_def)
    then have "max 0 (seq + 2 - ak_next ?a - ak_wndmask ?a) < int n" using Suc.prems(2) True unfolding s(1,2) max_less_iff_conj by simp
    from Suc.IH [OF resize_inv [OF Suc.prems(1)] this] True s show ?thesis by (simp add: resize_loop.simps)
  next
    case False
    with Suc.prems(1) show ?thesis by (auto simp: resize_loop.simps)
  qed
qed simp

text \<open>Clearing the slots beyond the highest packet seen so far.\<close>

lemma clear_slots:
  assumes "ak_wndmask a + 1 = 2 ^ k" "length (ak_seen a) = nat (ak_wndmask a + 1)" "set is \<subseteq> {n..n + ak_wndmask a}"
  defines "b \<equiv> foldl (\<lambda>a i. set_seen i 0 a) a is"
  shows "ak_wndmask b = ak_wndmask a \<and> ak_next b = ak_next a \<and> ak_maxseen b = ak_maxseen a \<and> ak_is_dup b = ak_is_dup a \<and>
    length (ak_seen b) = length (ak_seen a) \<and>
    (\<forall>j \<in> {n..n + ak_wndmask a}. seen_at b j = (if j \<in> set is then 0 else seen_at a j))"
  using assms(3) unfolding b_def
proof (induction "is" rule: rev_induct)
  case (snoc i "is")
  let ?b = "foldl (\<lambda>a i. set_seen i 0 a) a is"
  have b: "ak_wndmask ?b = ak_wndmask a" "length (ak_seen ?b) = length (ak_seen a)"
    "\<forall>j \<in> {n..n + ak_wndmask a}. seen_at ?b j = (if j \<in> set is then 0 else seen_at a j)" using snoc by auto
  have "seen_at (set_seen i 0 ?b) j = (if i = j then 0 else seen_at ?b j)" if "j \<in> {n..n + ak_wndmask a}" for j
    by (rule seen_set_seen [of _ k _ n]) (use assms(1,2) b(1,2) that snoc.prems in auto)
  with snoc b show ?case by auto
qed simp

lemma mark_highest_ok:
  assumes i: "window_ok sz R a" and s: "ak_maxseen a < seq" "seq + 1 - ak_next a < ak_wndmask a"
  shows "window_ok sz (insert seq R) (mark_highest seq (sz seq) a) \<and> ak_next (mark_highest seq (sz seq) a) = ak_next a \<and>
    ak_maxseen (mark_highest seq (sz seq) a) = seq \<and> ak_is_dup (mark_highest seq (sz seq) a) = ak_is_dup a"
proof -
  from i obtain k where k: "ak_wndmask a + 1 = 2 ^ k" "length (ak_seen a) = nat (ak_wndmask a + 1)" by (auto simp: window_ok_def)
  let ?is = "[ak_maxseen a + 1..seq - 1]" and ?W = "{ak_next a..ak_next a + ak_wndmask a}"
  have w: "set ?is \<subseteq> ?W" "{ak_next a..seq + 1} \<subseteq> ?W" using i s by (auto simp: window_ok_def)
  define b where "b = (foldl (\<lambda>a i. set_seen i 0 a) a ?is)\<lparr>ak_maxseen := seq\<rparr>"
  have b: "ak_wndmask b = ak_wndmask a" "ak_next b = ak_next a" "ak_maxseen b = seq" "ak_is_dup b = ak_is_dup a"
    "length (ak_seen b) = nat (ak_wndmask b + 1)" "\<forall>j \<in> ?W. seen_at b j = (if j \<in> set ?is then 0 else seen_at a j)"
    using clear_slots [OF k w(1)] k(2) by (auto simp: b_def)
  let ?c = "set_seen (seq + 1) 0 (set_seen seq (sz seq) b)"
  have c: "mark_highest seq (sz seq) a = ?c" by (simp add: mark_highest_def Let_def b_def)
  have sW: "seq \<in> ?W" "seq + 1 \<in> ?W" using w(2) i s(1) by (auto simp: window_ok_def)
  have "seen_at ?c j = (if j \<in> insert seq R then sz j else 0)" if j: "j \<in> {ak_next a..seq + 1}" for j
  proof -
    have jW: "j \<in> ?W" using j w(2) by blast
    have "seen_at (set_seen seq (sz seq) b) j = (if seq = j then sz seq else seen_at b j)"
      by (rule seen_set_seen [of b k _ "ak_next a"]) (use k(1) b(1,5) jW sW in auto)
    moreover have "seen_at ?c j = (if seq + 1 = j then 0 else seen_at (set_seen seq (sz seq) b) j)"
      by (rule seen_set_seen [of _ k _ "ak_next a"]) (use k(1) b(1,5) jW sW in auto)
    moreover have "seen_at b j = (if j \<le> ak_maxseen a \<and> j \<in> R then sz j else 0)" if "j \<noteq> seq" "j \<noteq> seq + 1"
    proof -
      have "j < seq" using that j by simp
      then show ?thesis using b(6) jW j i by (auto simp: window_ok_def)
    qed
    ultimately show ?thesis using i s(1) by (auto simp: window_ok_def)
  qed
  then have "window_ok sz (insert seq R) ?c" using i s k b(1-3,5) unfolding window_ok_def by auto
  then show ?thesis unfolding c using b by simp
qed

lemma set_seen_ok:
  assumes i: "window_ok sz R a" and s: "ak_next a \<le> seq" "seq \<le> ak_maxseen a"
  shows "window_ok sz (insert seq R) (set_seen seq (sz seq) a)"
proof -
  from i obtain k where k: "ak_wndmask a + 1 = 2 ^ k" "length (ak_seen a) = nat (ak_wndmask a + 1)" by (auto simp: window_ok_def)
  have "seen_at (set_seen seq (sz seq) a) j = (if seq = j then sz seq else seen_at a j)" if "j \<in> {ak_next a..ak_maxseen a + 1}" for j
    by (rule seen_set_seen [OF k, of _ "ak_next a"]) (use that s i in \<open>auto simp: window_ok_def\<close>)
  then show ?thesis using i s by (auto simp: window_ok_def)
qed

lemma deliver_loop_ok:
  "window_ok sz R a \<Longrightarrow> ak_maxseen a + 1 - n < int f \<Longrightarrow> ak_next a \<le> n \<Longrightarrow> n \<le> ak_maxseen a + 1 \<Longrightarrow>
   \<exists>n'. deliver_loop f a acc n = Inr (acc + (\<Sum>i \<in> {n..<n'}. sz i), n') \<and> n \<le> n' \<and> n' \<le> ak_maxseen a + 1 \<and> n' \<notin> R \<and> {n..<n'} \<subseteq> R"
proof (induction f arbitrary: n acc)
  case (Suc f)
  have s: "seen_at a n = (if n \<in> R then sz n else 0)" and p: "0 < sz n" using Suc.prems by (auto simp: window_ok_def)
  show ?case
  proof (cases "n \<in> R")
    case True
    then have "n \<le> ak_maxseen a" using Suc.prems(1) by (auto simp: window_ok_def)
    with Suc.prems have "\<exists>n'. deliver_loop f a (acc + sz n) (n + 1) = Inr (acc + sz n + (\<Sum>i \<in> {n + 1..<n'}. sz i), n') \<and> n + 1 \<le> n' \<and>
        n' \<le> ak_maxseen a + 1 \<and> n' \<notin> R \<and> {n + 1..<n'} \<subseteq> R" by (intro Suc.IH) auto
    then obtain n' where n': "deliver_loop f a (acc + sz n) (n + 1) = Inr (acc + sz n + (\<Sum>i \<in> {n + 1..<n'}. sz i), n')" "n + 1 \<le> n'"
      "n' \<le> ak_maxseen a + 1" "n' \<notin> R" "{n + 1..<n'} \<subseteq> R" by blast
    have e: "{n..<n'} = insert n {n + 1..<n'}" using n'(2) by auto
    then have "(\<Sum>i \<in> {n..<n'}. sz i) = sz n + (\<Sum>i \<in> {n + 1..<n'}. sz i)" by simp
    moreover have "{n..<n'} \<subseteq> R" using e n'(5) True by simp
    ultimately show ?thesis using n' s p True by (intro exI [of _ n']) (simp add: deliver_loop.simps)
  next
    case False
    with s Suc.prems show ?thesis by (intro exI [of _ n]) (simp add: deliver_loop.simps)
  qed
qed simp

text \<open>A packet is received.\<close>

lemma acker_update_ok:
  assumes i: "acker_inv sz R a" and s: "0 \<le> seq"
  shows "\<exists>a'. acker_update seq (sz seq) a = Inr (\<Sum>i \<in> {ak_next a..<ak_next a'}. sz i, a') \<and> acker_inv sz (insert seq R) a' \<and>
    ak_next a \<le> ak_next a' \<and> ak_is_dup a' = (seq \<in> R)"
proof -
  have w: "window_ok sz R a" and nx: "ak_next a \<notin> R" using i by (simp_all add: acker_inv_def)
  have w0: "window_ok sz R (a\<lparr>ak_is_dup := False\<rparr>)" using w by (simp add: window_ok_def seen_at_def)
  have "0 \<le> ak_wndmask a" using w by (auto simp: window_ok_def)
  then have "max 0 (seq + 2 - ak_next (a\<lparr>ak_is_dup := False\<rparr>) - ak_wndmask (a\<lparr>ak_is_dup := False\<rparr>)) < int (nat (seq + 1 - ak_next a) + 2)" by simp
  from resize_loop_ok [OF w0 this] obtain a1 where
    a1: "resize_loop (nat (seq + 1 - ak_next a) + 2) seq (a\<lparr>ak_is_dup := False\<rparr>) = Inr a1" "window_ok sz R a1"
      "seq + 1 - ak_next a1 < ak_wndmask a1" "ak_next a1 = ak_next a" "ak_maxseen a1 = ak_maxseen a" "\<not> ak_is_dup a1" by auto
  let ?new = "seq > ak_maxseen a1"
  define a2 where "a2 = (if ?new then mark_highest seq (sz seq) a1 else a1)"
  define R2 where "R2 = (if ?new then insert seq R else R)"
  have a2: "window_ok sz R2 a2" "ak_next a2 = ak_next a" "\<not> ak_is_dup a2" "seq \<le> ak_maxseen a2"
    using mark_highest_ok [OF a1(2) _ a1(3)] a1(2,4,6) by (auto simp: a2_def R2_def)
  show ?thesis
  proof (cases "seq < ak_next a")
    case True
    then have "seq \<in> R" using w s by (auto simp: window_ok_def)
    moreover have "\<not> ?new" using True w a1(5) by (auto simp: window_ok_def)
    ultimately show ?thesis using True a1 nx
      by (intro exI [of _ "a1\<lparr>ak_is_dup := True\<rparr>"]) (simp add: acker_update_def acker_inv_def window_ok_def seen_at_def insert_absorb)
  next
    case False
    define a4 where "a4 = (if seen_at a2 seq \<noteq> 0 \<and> \<not> ?new then a2\<lparr>ak_is_dup := True\<rparr> else a2)"
    have a4: "window_ok sz R2 a4" "ak_next a4 = ak_next a" "seq \<le> ak_maxseen a4"
      using a2 by (simp_all add: a4_def window_ok_def seen_at_def)
    have "seen_at a2 seq = (if seq \<in> R2 then sz seq else 0)" "0 < sz seq" using a2(1,2,4) False by (auto simp: window_ok_def)
    moreover have "seq \<notin> R" if ?new using that w a1(5) by (auto simp: window_ok_def)
    ultimately have dup: "ak_is_dup a4 = (seq \<in> R)" using a2(3) by (auto simp: a4_def R2_def)
    let ?a5 = "set_seen seq (sz seq) a4"
    have "window_ok sz (insert seq R2) ?a5" using a4 False by (intro set_seen_ok) auto
    then have a5: "window_ok sz (insert seq R) ?a5" by (auto simp: R2_def split: if_split_asm)
    have "ak_maxseen ?a5 + 1 - ak_next a < int (length (ak_seen ?a5) + 1)" "ak_next ?a5 \<le> ak_next a" "ak_next a \<le> ak_maxseen ?a5 + 1"
      using a5 a4(2) by (auto simp: window_ok_def)
    from deliver_loop_ok [OF a5 this, of 0] obtain n where
      n: "deliver_loop (length (ak_seen ?a5) + 1) ?a5 0 (ak_next a) = Inr (\<Sum>i \<in> {ak_next a..<n}. sz i, n)" "ak_next a \<le> n"
        "n \<le> ak_maxseen ?a5 + 1" "n \<notin> insert seq R" "{ak_next a..<n} \<subseteq> insert seq R" by auto
    have "{0..<n} = {0..<ak_next a} \<union> {ak_next a..<n}" using n(2) w by (auto simp: window_ok_def)
    then have "{0..<n} \<subseteq> insert seq R" using n(5) w by (auto simp: window_ok_def)
    then have inv: "acker_inv sz (insert seq R) (?a5\<lparr>ak_next := n\<rparr>)"
      using a5 n(2-4) a4(2) w by (auto simp: acker_inv_def window_ok_def seen_at_def)
    have a3: "(if seq < ak_next a2 then a2\<lparr>ak_is_dup := True\<rparr> else a2) = a2" using False a2(2) by simp
    have "acker_update seq (sz seq) a = Inr (\<Sum>i \<in> {ak_next a..<n}. sz i, ?a5\<lparr>ak_next := n\<rparr>)"
      unfolding acker_update_def a1(1) res_bind_simps Let_def a2_def [symmetric] a3 a4_def [symmetric]
      using False n(1) a2(2,4) a4(2) by simp
    with inv n(2) dup show ?thesis by (intro exI [of _ "?a5\<lparr>ak_next := n\<rparr>"]) simp
  qed
qed

section \<open>Selective acknowledgements\<close>

definition entries_ok :: "int set \<Rightarrow> (int \<times> int) list \<Rightarrow> bool" where
  "entries_ok R es \<longleftrightarrow> (\<forall>e \<in> set es. fst e < 0 \<or> snd e < 0 \<or> {fst e..<snd e} \<subseteq> R)"

definition blocks_ok :: "int set \<Rightarrow> (int \<times> int) list \<Rightarrow> bool" where
  "blocks_ok R bs \<longleftrightarrow> (\<forall>b \<in> set bs. {fst b..<snd b} \<subseteq> R)"

definition stack_ok :: "int set \<Rightarrow> int \<Rightarrow> sackstack \<Rightarrow> bool" where
  "stack_ok R n s \<longleftrightarrow> sf_size s = n \<and> length (sf_SFE s) = nat n \<and> sf_cnt s \<le> max 0 n \<and> entries_ok R (sf_SFE s)"

lemma sf_copies_ok:
  "\<forall>x \<in> set ijs. 0 \<le> fst x \<and> fst x < int (length es) \<and> 0 \<le> snd x \<and> snd x < int (length es) \<Longrightarrow>
   \<exists>es'. sf_copies ijs es = Inr es' \<and> length es' = length es \<and> set es' \<subseteq> set es"
proof (induction ijs arbitrary: es)
  case (Cons x ijs)
  obtain i j where x: "x = (i, j)" by (cases x)
  let ?es = "es[nat i := es ! nat j]"
  have r: "0 \<le> i" "i < int (length es)" "0 \<le> j" "j < int (length es)" using Cons.prems x by auto
  then have s: "set ?es \<subseteq> set es" using set_update_subset_insert [of es "nat i" "es ! nat j"] nth_mem [of "nat j" es] by auto
  have "\<exists>es'. sf_copies ijs ?es = Inr es' \<and> length es' = length ?es \<and> set es' \<subseteq> set ?es" using Cons.prems by (intro Cons.IH) simp
  then show ?case using r s x by (auto simp: sf_get_def sf_set_def)
qed simp

lemma entries_ok_subset: "entries_ok R es \<Longrightarrow> set es' \<subseteq> set es \<Longrightarrow> entries_ok R es'"
  by (auto simp: entries_ok_def)

lemma entries_ok_update: "entries_ok R es \<Longrightarrow> fst e < 0 \<or> snd e < 0 \<or> {fst e..<snd e} \<subseteq> R \<Longrightarrow> entries_ok R (es[i := e])"
  using set_update_subset_insert [of es i e] unfolding entries_ok_def by blast

lemma sf_pop_ok:
  assumes s: "stack_ok R n s" and k: "0 \<le> k" "k < n"
  shows "\<exists>s'. sf_pop k s = Inr s' \<and> stack_ok R n s' \<and> sf_cnt s' = sf_cnt s - 1 \<and> (sf_cnt s \<le> k \<longrightarrow> sf_SFE s' ! nat k = (-1, -1))"
proof -
  have l: "length (sf_SFE s) = nat n" "sf_cnt s \<le> n" using s k by (auto simp: stack_ok_def)
  have "\<forall>x \<in> set (map (\<lambda>i. (i, i + 1)) [k..sf_cnt s - 2]). 0 \<le> fst x \<and> fst x < int (length (sf_SFE s)) \<and> 0 \<le> snd x \<and> snd x < int (length (sf_SFE s))"
    using l k by auto
  from sf_copies_ok [OF this] obtain es where
    es: "sf_copies (map (\<lambda>i. (i, i + 1)) [k..sf_cnt s - 2]) (sf_SFE s) = Inr es" "length es = nat n" "set es \<subseteq> set (sf_SFE s)" using l by auto
  let ?i = "max k (sf_cnt s - 1)"
  have i: "0 \<le> ?i" "?i < int (length es)" using es(2) k l(2) by auto
  have "entries_ok R es" using s entries_ok_subset [OF _ es(3)] by (simp add: stack_ok_def)
  then have "entries_ok R (es[nat ?i := (-1, -1)])" by (rule entries_ok_update) simp
  with i es s k show ?thesis by (auto simp: sf_pop_def sf_set_def stack_ok_def nth_list_update max_def)
qed

lemma sf_push_ok:
  assumes s: "stack_ok R n s" and n: "0 < n"
  shows "\<exists>s'. sf_push s = Inr s' \<and> stack_ok R n s'"
proof -
  let ?c = "if sf_cnt s \<ge> sf_size s then sf_size s - 1 else sf_cnt s"
  have l: "length (sf_SFE s) = nat n" "?c \<le> n - 1" using s n by (auto simp: stack_ok_def)
  have "\<forall>x \<in> set (map (\<lambda>i. (i + 1, i)) (rev [0..?c - 1])). 0 \<le> fst x \<and> fst x < int (length (sf_SFE s)) \<and> 0 \<le> snd x \<and> snd x < int (length (sf_SFE s))"
    using l n by auto
  from sf_copies_ok [OF this] obtain es where
    es: "sf_copies (map (\<lambda>i. (i + 1, i)) (rev [0..?c - 1])) (sf_SFE s) = Inr es" "length es = nat n" "set es \<subseteq> set (sf_SFE s)" using l by auto
  have "entries_ok R es" using s entries_ok_subset [OF _ es(3)] by (simp add: stack_ok_def)
  then have "stack_ok R n (s\<lparr>sf_SFE := es, sf_cnt := ?c + 1\<rparr>)" using s es(2) l(2) n by (simp add: stack_ok_def)
  then show ?thesis using es(1) by (simp add: sf_push_def Let_def)
qed

lemma sf_clear_ok:
  "n \<le> length es \<Longrightarrow> entries_ok R es \<Longrightarrow> \<exists>es'. sf_clear n es = Inr es' \<and> length es' = length es \<and> entries_ok R es'"
proof (induction n)
  case (Suc n)
  then obtain es' where "sf_clear n es = Inr es'" "length es' = length es" "entries_ok R es'" by auto
  with Suc.prems(1) entries_ok_update [of R es' "(-1, -1)" n] show ?case by (simp add: sf_set_def)
qed simp

lemma sf_reset_ok:
  assumes "stack_ok R n s"
  shows "\<exists>s'. sf_reset s = Inr s' \<and> stack_ok R n s'"
proof -
  have "nat (sf_cnt s) \<le> length (sf_SFE s)" "entries_ok R (sf_SFE s)" using assms by (auto simp: stack_ok_def)
  from sf_clear_ok [OF this] assms show ?thesis by (auto simp: sf_reset_def stack_ok_def)
qed

lemma old_blocks_ok:
  "stack_ok R n s \<Longrightarrow> blocks_ok R bs \<Longrightarrow> 0 \<le> k \<Longrightarrow> k \<le> int (length bs) \<Longrightarrow> int (length bs) \<le> n \<Longrightarrow>
   nat (sf_cnt s - k) + nat (n - int (length bs)) + 1 < f \<Longrightarrow>
   \<exists>bs' s'. old_blocks f a n recent k bs s = Inr (bs', s') \<and> stack_ok R n s' \<and> blocks_ok R bs' \<and> set bs \<subseteq> set bs' \<and> int (length bs') \<le> n"
proof (induction f arbitrary: s bs k)
  case (Suc f)
  show ?case
  proof (cases "int (length bs) < n")
    case False
    with Suc.prems show ?thesis by (simp add: old_blocks.simps)
  next
    case True
    then have k: "k < n" "nat k < length (sf_SFE s)" using Suc.prems(1,3,4) by (auto simp: stack_ok_def)
    obtain l r where e: "sf_SFE s ! nat k = (l, r)" by (cases "sf_SFE s ! nat k")
    have g: "sf_get k (sf_SFE s) = Inr (l, r)" using k(2) Suc.prems(3) e by (simp add: sf_get_def)
    consider (stop) "l < 0 \<or> r < 0 \<or> r > ak_maxseen a + 1"
      | (covered) "\<not> (l < 0 \<or> r < 0 \<or> r > ak_maxseen a + 1)" "fst recent \<le> l \<and> snd recent \<ge> r"
      | (keep) "\<not> (l < 0 \<or> r < 0 \<or> r > ak_maxseen a + 1)" "\<not> (fst recent \<le> l \<and> snd recent \<ge> r)" by blast
    then show ?thesis
    proof cases
      case stop
      with True g Suc.prems show ?thesis by (simp add: old_blocks.simps)
    next
      case covered
      from sf_pop_ok [OF Suc.prems(1,3) k(1)] obtain s' where
        p: "sf_pop k s = Inr s'" "stack_ok R n s'" "sf_cnt s' = sf_cnt s - 1" "sf_cnt s \<le> k \<longrightarrow> sf_SFE s' ! nat k = (-1, -1)" by blast
      have o: "old_blocks (Suc f) a n recent k bs s = old_blocks f a n recent k bs s'"
        using True g covered p(1) by (simp add: old_blocks.simps)
      show ?thesis
      proof (cases "sf_cnt s \<le> k")
        case True
        have "f \<noteq> 0" using Suc.prems(6) \<open>int (length bs) < n\<close> by auto
        then obtain f' where f': "f = Suc f'" by (cases f) auto
        have "sf_get k (sf_SFE s') = Inr (-1, -1)" using p(2,4) True k(1) Suc.prems(3) by (simp add: sf_get_def stack_ok_def)
        then have "old_blocks f a n recent k bs s' = Inr (bs, s')" using \<open>int (length bs) < n\<close> f' by (simp add: old_blocks.simps)
        with o p(2) Suc.prems(2,5) show ?thesis by simp
      next
        case False
        then have "nat (sf_cnt s' - k) + nat (n - int (length bs)) + 1 < f" using Suc.prems(6) p(3) by auto
        from Suc.IH [OF p(2) Suc.prems(2-5) this] o show ?thesis by simp
      qed
    next
      case keep
      have "(l, r) \<in> set (sf_SFE s)" using e k(2) nth_mem by fastforce
      then have "blocks_ok R (bs @ [(l, r)])" using Suc.prems(1,2) keep(1) by (force simp: blocks_ok_def stack_ok_def entries_ok_def)
      moreover have "nat (sf_cnt s - (k + 1)) + nat (n - int (length (bs @ [(l, r)]))) + 1 < f" using Suc.prems(6) True by auto
      ultimately have "\<exists>bs' s'. old_blocks f a n recent (k + 1) (bs @ [(l, r)]) s = Inr (bs', s') \<and> stack_ok R n s' \<and> blocks_ok R bs' \<and>
          set (bs @ [(l, r)]) \<subseteq> set bs' \<and> int (length bs') \<le> n"
        using Suc.prems(1,3,4) True by (intro Suc.IH) auto
      moreover have "old_blocks (Suc f) a n recent k bs s = old_blocks f a n recent (k + 1) (bs @ [(l, r)]) s"
        using True g keep by (auto simp: old_blocks.simps)
      ultimately show ?thesis by auto
    qed
  qed
qed simp

text \<open>The block around a packet beyond the first missing one.\<close>

lemma find_first:
  "find P xs = Some x \<Longrightarrow> sorted_wrt Q xs \<Longrightarrow> x \<in> set xs \<and> P x \<and> (\<forall>y \<in> set xs. \<not> P y \<or> y = x \<or> Q x y)"
  by (induction xs) (auto split: if_split_asm)

lemma seen_iff:
  assumes "acker_inv sz R a" "ak_next a \<le> i" "i \<le> ak_maxseen a"
  shows "seen_at a i = 0 \<longleftrightarrow> i \<notin> R"
proof -
  have "\<forall>i \<in> {ak_next a..ak_maxseen a + 1}. seen_at a i = (if i \<in> R then sz i else 0)" "\<forall>i. 0 < sz i"
    using assms(1) unfolding acker_inv_def window_ok_def by blast+
  from bspec [OF this(1), of i] spec [OF this(2), of i] assms(2,3) show ?thesis by simp
qed

lemma hole_right_ok:
  assumes i: "acker_inv sz R a" and o: "old \<in> R" "ak_next a \<le> old"
  shows "old < hole_right a old \<and> hole_right a old \<le> ak_maxseen a + 1 \<and> {old..<hole_right a old} \<subseteq> R"
proof -
  note s = seen_iff [OF i]
  have m: "old \<le> ak_maxseen a" using i o(1) by (auto simp: acker_inv_def window_ok_def)
  show ?thesis
  proof (cases "find (\<lambda>i. seen_at a i = 0) [old..ak_maxseen a]")
    case None
    then have "j \<in> R" if "j \<in> {old..ak_maxseen a}" for j using s [of j] o(2) that by (simp add: find_None_iff)
    with None m show ?thesis by (auto simp: hole_right_def)
  next
    case (Some j)
    from find_first [OF Some, of "(<)"] have j: "j \<in> {old..ak_maxseen a}" "seen_at a j = 0"
      "\<forall>y \<in> {old..ak_maxseen a}. seen_at a y \<noteq> 0 \<or> y = j \<or> j < y" by auto
    have "y \<in> R" if "y \<in> {old..<j}" for y using bspec [OF j(3), of y] s [of y] that j(1) o(2) by simp
    then have "{old..<j} \<subseteq> R" by blast
    moreover have "old \<noteq> j" using s [of j] j o by auto
    ultimately show ?thesis using j(1) Some by (auto simp: hole_right_def)
  qed
qed

lemma hole_left_ok:
  assumes i: "acker_inv sz R a" and r: "{old..<r} \<subseteq> R" "old \<in> R" "old < r" "r \<le> ak_maxseen a + 1" "ak_next a \<le> old"
  shows "hole_left a r \<le> old \<and> {hole_left a r..<r} \<subseteq> R"
proof -
  note s = seen_iff [OF i]
  have n: "ak_next a \<notin> R" using i by (simp add: acker_inv_def)
  have w: "set (rev [Seqno a + 1..r - 1]) = {ak_next a..<r}" by (auto simp: Seqno_def)
  have "\<exists>x \<in> set (rev [Seqno a + 1..r - 1]). seen_at a x = 0" unfolding w using s [of "ak_next a"] n r by (intro bexI [of _ "ak_next a"]) auto
  then obtain j where j: "find (\<lambda>i. seen_at a i = 0) (rev [Seqno a + 1..r - 1]) = Some j"
    by (meson find_None_iff option.exhaust)
  have "sorted_wrt (\<lambda>x y. y < x) (rev [Seqno a + 1..r - 1])" by (simp add: sorted_wrt_rev)
  from find_first [OF j this] have f: "j \<in> {ak_next a..<r}" "seen_at a j = 0" "\<forall>y \<in> {ak_next a..<r}. seen_at a y \<noteq> 0 \<or> y = j \<or> y < j"
    unfolding w by auto
  have "{j + 1..<r} \<subseteq> R"
  proof
    fix y assume "y \<in> {j + 1..<r}"
    then show "y \<in> R" using bspec [OF f(3), of y] s [of y] f(1) r(4) by simp
  qed
  moreover have "j \<notin> R" using f(1,2) s [of j] r(4) by simp
  then have "j \<notin> {old..<r}" using r(1) by blast
  then have "j < old" using f(1) by simp
  ultimately show ?thesis using j by (simp add: hole_left_def)
qed

lemma sack_blocks_ok:
  assumes i: "acker_inv sz R a" and o: "0 \<le> old" "old \<in> R" and s: "stack_ok R n s" and n: "int (length bs) < n" and b: "blocks_ok R bs"
  shows "\<exists>bs' s'. sack_blocks a n old bs s = Inr (bs', s') \<and> stack_ok R n s' \<and> blocks_ok R bs' \<and> int (length bs') \<le> n \<and>
    (Seqno a < old \<longrightarrow> (\<exists>x \<in> set bs'. old \<in> {fst x..<snd x}))"
proof -
  let ?r = "hole_right a old"
  let ?l = "if old \<le> Seqno a then 0 else hole_left a ?r"
  let ?bs = "if old \<le> Seqno a then bs else bs @ [(?l, ?r)]"
  have lr: "?l \<le> old \<and> old < ?r \<and> {?l..<?r} \<subseteq> R" if "Seqno a < old"
  proof -
    have "ak_next a \<le> old" using that by (simp add: Seqno_def)
    with hole_right_ok [OF i o(2)] hole_left_ok [OF i _ o(2)] that show ?thesis by simp
  qed
  have b1: "blocks_ok R ?bs" "int (length ?bs) \<le> n" using b n lr by (auto simp: blocks_ok_def)
  have "nat (sf_cnt s - 0) + nat (n - int (length ?bs)) + 1 < nat n + length (sf_SFE s) + 2" using s n by (auto simp: stack_ok_def)
  from old_blocks_ok [OF s b1(1) _ _ b1(2) this, of a "(?l, ?r)"] obtain bs2 s2 where
    2: "old_blocks (nat n + length (sf_SFE s) + 2) a n (?l, ?r) 0 ?bs s = Inr (bs2, s2)" "stack_ok R n s2" "blocks_ok R bs2" "set ?bs \<subseteq> set bs2"
      "int (length bs2) \<le> n" by auto
  show ?thesis
  proof (cases "Seqno a < old")
    case False
    with 2 show ?thesis by (simp add: sack_blocks_def Let_def)
  next
    case True
    from sf_push_ok [OF 2(2)] n obtain s3 where s3: "sf_push s2 = Inr s3" "stack_ok R n s3" by auto
    have "stack_ok R n (s3\<lparr>sf_SFE := (sf_SFE s3)[0 := (?l, ?r)]\<rparr>)"
      using s3(2) lr [OF True] entries_ok_update [of R "sf_SFE s3" "(?l, ?r)" 0] by (simp add: stack_ok_def)
    moreover have "sf_set 0 (?l, ?r) (sf_SFE s3) = Inr ((sf_SFE s3)[0 := (?l, ?r)])" using s3(2) n by (simp add: sf_set_def stack_ok_def)
    moreover have "\<exists>x \<in> set bs2. old \<in> {fst x..<snd x}" using lr [OF True] 2(4) True by (intro bexI [of _ "(?l, ?r)"]) auto
    ultimately show ?thesis using 2 s3(1) True by (simp add: sack_blocks_def Let_def)
  qed
qed

definition sacker_ok :: "int set \<Rightarrow> sacker \<Rightarrow> bool" where
  "sacker_ok R k \<longleftrightarrow> stack_ok R (sk_base_nblocks k) (sk_sf k)"

lemma sacker_ok_mono: "sacker_ok R k \<Longrightarrow> R \<subseteq> R' \<Longrightarrow> sacker_ok R' k"
  unfolding sacker_ok_def stack_ok_def entries_ok_def by blast

lemma append_ack_ok:
  assumes i: "acker_inv sz R a" and o: "0 \<le> old" "old \<in> R" and k: "sacker_ok R k"
  shows "\<exists>bs k'. append_ack dsacks a old k = Inr (bs, k') \<and> sacker_ok R k' \<and> sk_base_nblocks k' = sk_base_nblocks k \<and> blocks_ok R bs \<and>
    int (length bs) \<le> max 0 (sk_base_nblocks k) \<and>
    (Seqno a < old \<and> (if dsacks \<and> ak_is_dup a then 1 else 0) < sk_base_nblocks k \<longrightarrow> (\<exists>x \<in> set bs. old \<in> {fst x..<snd x}))"
proof -
  let ?bs = "if dsacks \<and> ak_is_dup a then [(old, old + 1)] else []"
  have m: "Seqno a < ak_maxseen a" if "Seqno a < old" using i o(2) that by (auto simp: acker_inv_def window_ok_def Seqno_def)
  have b: "blocks_ok R ?bs" using o(2) by (auto simp: blocks_ok_def)
  have so: "stack_ok R (sk_base_nblocks k) (sk_sf k)" using k by (simp add: sacker_ok_def)
  consider (reset) "Seqno a \<ge> ak_maxseen a \<and> sf_cnt (sk_sf k) \<noteq> 0"
    | (full) "\<not> (Seqno a \<ge> ak_maxseen a \<and> sf_cnt (sk_sf k) \<noteq> 0)" "(Seqno a < ak_maxseen a \<or> ak_is_dup a) \<and> sk_base_nblocks k > 0"
        "int (length ?bs) \<ge> sk_base_nblocks k"
    | (blocks) "\<not> (Seqno a \<ge> ak_maxseen a \<and> sf_cnt (sk_sf k) \<noteq> 0)" "(Seqno a < ak_maxseen a \<or> ak_is_dup a) \<and> sk_base_nblocks k > 0"
        "int (length ?bs) < sk_base_nblocks k"
    | (none) "\<not> (Seqno a \<ge> ak_maxseen a \<and> sf_cnt (sk_sf k) \<noteq> 0)" "\<not> ((Seqno a < ak_maxseen a \<or> ak_is_dup a) \<and> sk_base_nblocks k > 0)"
    by linarith
  then show ?thesis
  proof cases
    case reset
    with sf_reset_ok [OF so] o(1) k m show ?thesis by (auto simp: append_ack_def sacker_ok_def blocks_ok_def)
  next
    case full
    with o(1) k b show ?thesis by (auto simp: append_ack_def Let_def sacker_ok_def split: if_split_asm)
  next
    case blocks
    from sack_blocks_ok [OF i o so blocks(3) b] obtain bs' s' where
      s: "sack_blocks a (sk_base_nblocks k) old ?bs (sk_sf k) = Inr (bs', s')" "stack_ok R (sk_base_nblocks k) s'" "blocks_ok R bs'"
        "int (length bs') \<le> sk_base_nblocks k" "Seqno a < old \<longrightarrow> (\<exists>x \<in> set bs'. old \<in> {fst x..<snd x})" by blast
    have "append_ack dsacks a old k = Inr (bs', k\<lparr>sk_sf := s'\<rparr>)"
      using o(1) blocks s(1) unfolding append_ack_def Let_def by (simp only: if_False if_True not_less simp_thms) simp
    with s show ?thesis by (simp add: sacker_ok_def)
  next
    case none
    have "append_ack dsacks a old k = Inr ([], k)" using o(1) none unfolding append_ack_def by (simp only: if_False not_less simp_thms) simp
    with k m none show ?thesis by (auto simp: blocks_ok_def)
  qed
qed

end
