(* ===== verification/TimerQueue.thy ===== *)
theory TimerQueue
  imports Timer CalendarSched
begin

text \<open>
  \<open>TimerHandler\<close> (\<open>common/timer-handler.h\<close>, \<open>common/timer-handler.cc\<close>) over the scheduler: a timer owns one event and keeps a
  status beside it. It is shown that the timer behaves to its client like the record \<open>timer\<close> of theory \<open>Timer\<close>, whatever queue the
  scheduler uses and whatever else is scheduled: the status says whether the event is in the queue, the event is dispatched exactly at the
  time of expiry, and the sanity check of \<open>handle\<close> never fails.
\<close>

section \<open>The timer and its event\<close>

record timer_handler =
  th_status :: TimerStatus
  th_event :: event

type_synonym 'q timed = "timer_handler \<times> 'q sched"

definition th_init :: timer_handler where
  "th_init = \<lparr>th_status = IDLE, th_event = fresh_event\<rparr>"

text \<open>\<open>_sched\<close> and \<open>_cancel\<close>. The scheduler writes number, time and handler into the event it is given.\<close>

definition th_schedule :: "(event \<Rightarrow> 'q \<Rightarrow> 'q res) \<Rightarrow> nat \<Rightarrow> time \<Rightarrow> 'q timed \<Rightarrow> 'q timed res" where
  "th_schedule ins me delay st =
     (case st of (th, s) \<Rightarrow>
        res_bind (schedule_event ins me (th_event th) delay s) (\<lambda>(e, s1). Inr (th\<lparr>th_event := e\<rparr>, s1)))"

definition th_unschedule :: "(event \<Rightarrow> 'q \<Rightarrow> (event \<times> 'q) res) \<Rightarrow> 'q timed \<Rightarrow> 'q timed res" where
  "th_unschedule canc st =
     (case st of (th, s) \<Rightarrow>
        res_bind (canc (th_event th) (sc_q s)) (\<lambda>(e, q). Inr (th\<lparr>th_event := e\<rparr>, s\<lparr>sc_q := q\<rparr>)))"

definition th_set :: "TimerStatus \<Rightarrow> 'q timed \<Rightarrow> 'q timed" where
  "th_set x st = ((fst st)\<lparr>th_status := x\<rparr>, snd st)"

definition th_cancel :: "(event \<Rightarrow> 'q \<Rightarrow> (event \<times> 'q) res) \<Rightarrow> 'q timed \<Rightarrow> 'q timed res" where
  "th_cancel canc st =
     (if th_status (fst st) \<noteq> PENDING then Inl Abort
      else res_bind (th_unschedule canc st) (\<lambda>st1. Inr (th_set IDLE st1)))"

definition th_sched :: "(event \<Rightarrow> 'q \<Rightarrow> 'q res) \<Rightarrow> nat \<Rightarrow> time \<Rightarrow> 'q timed \<Rightarrow> 'q timed res" where
  "th_sched ins me delay st =
     (if th_status (fst st) \<noteq> IDLE then Inl Abort
      else res_bind (th_schedule ins me delay st) (\<lambda>st1. Inr (th_set PENDING st1)))"

definition th_resched ::
  "(event \<Rightarrow> 'q \<Rightarrow> 'q res) \<Rightarrow> (event \<Rightarrow> 'q \<Rightarrow> (event \<times> 'q) res) \<Rightarrow> nat \<Rightarrow> time \<Rightarrow> 'q timed \<Rightarrow> 'q timed res" where
  "th_resched ins canc me delay st =
     res_bind (if th_status (fst st) = PENDING then th_unschedule canc st else Inr st) (\<lambda>st1.
       res_bind (th_schedule ins me delay st1) (\<lambda>st2. Inr (th_set PENDING st2)))"

definition th_force_cancel :: "(event \<Rightarrow> 'q \<Rightarrow> (event \<times> 'q) res) \<Rightarrow> 'q timed \<Rightarrow> 'q timed res" where
  "th_force_cancel canc st =
     (if th_status (fst st) = PENDING then res_bind (th_unschedule canc st) (\<lambda>st1. Inr (th_set IDLE st1)) else Inr st)"

text \<open>\<open>handle\<close>, given what \<open>expire\<close> does.\<close>

definition th_handle :: "('q timed \<Rightarrow> 'q timed res) \<Rightarrow> 'q timed \<Rightarrow> 'q timed res" where
  "th_handle expire st =
     (if th_status (fst st) \<noteq> PENDING then Inl Abort
      else res_bind (expire (th_set HANDLING st)) (\<lambda>st1.
        Inr (if th_status (fst st1) = HANDLING then th_set IDLE st1 else st1)))"

section \<open>A client, and what happens around it\<close>

datatype timer_call = TSched time | TResched time | TCancel | TForceCancel

fun th_call ::
  "(event \<Rightarrow> 'q \<Rightarrow> 'q res) \<Rightarrow> (event \<Rightarrow> 'q \<Rightarrow> (event \<times> 'q) res) \<Rightarrow> nat \<Rightarrow> timer_call \<Rightarrow> 'q timed \<Rightarrow> 'q timed res" where
  "th_call ins canc me (TSched d) st = th_sched ins me d st"
| "th_call ins canc me (TResched d) st = th_resched ins canc me d st"
| "th_call ins canc me TCancel st = th_cancel canc st"
| "th_call ins canc me TForceCancel st = th_force_cancel canc st"

fun th_calls ::
  "(event \<Rightarrow> 'q \<Rightarrow> 'q res) \<Rightarrow> (event \<Rightarrow> 'q \<Rightarrow> (event \<times> 'q) res) \<Rightarrow> nat \<Rightarrow> timer_call list \<Rightarrow> 'q timed \<Rightarrow> 'q timed res" where
  "th_calls ins canc me [] st = Inr st"
| "th_calls ins canc me (c # cs) st = res_bind (th_call ins canc me c st) (th_calls ins canc me cs)"

text \<open>The same calls on what the client sees.\<close>

fun client_call :: "time \<Rightarrow> timer_call \<Rightarrow> timer \<Rightarrow> timer res" where
  "client_call now (TSched d) t = (if tm_status t \<noteq> IDLE then Inl Abort else Inr (timer_resched now d t))"
| "client_call now (TResched d) t = Inr (timer_resched now d t)"
| "client_call now TCancel t = (if tm_status t \<noteq> PENDING then Inl Abort else Inr (t\<lparr>tm_status := IDLE\<rparr>))"
| "client_call now TForceCancel t = Inr (timer_force_cancel t)"

fun client_calls :: "time \<Rightarrow> timer_call list \<Rightarrow> timer \<Rightarrow> timer res" where
  "client_calls now [] t = Inr t"
| "client_calls now (c # cs) t = res_bind (client_call now c t) (client_calls now cs)"

text \<open>The client calls its timer, another component schedules an event for a handler of its own, or the scheduler runs the next event;
  when that is the event of the timer, \<open>expire\<close> makes the given calls. The log holds what concerns the timer.\<close>

datatype timer_input = Calls "timer_call list" | Other nat time | RunEvent "timer_call list"

datatype timer_log = Called time "timer_call list" | Fired time "timer_call list"

fun th_input ::
  "(event \<Rightarrow> 'q \<Rightarrow> 'q res) \<Rightarrow> ('q \<Rightarrow> (event option \<times> 'q) res) \<Rightarrow> (event \<Rightarrow> 'q \<Rightarrow> (event \<times> 'q) res) \<Rightarrow> nat \<Rightarrow>
    timer_input \<Rightarrow> 'q timed \<Rightarrow> (timer_log list \<times> 'q timed) res" where
  "th_input ins deq canc me (Calls cs) (th, s) =
     res_bind (th_calls ins canc me cs (th, s)) (\<lambda>st. Inr ([Called (sc_clock s) cs], st))"
| "th_input ins deq canc me (Other h d) (th, s) =
     res_bind (schedule ins (Some h) fresh_event d s) (\<lambda>s1. Inr ([], (th, s1)))"
| "th_input ins deq canc me (RunEvent cs) (th, s) =
     res_bind (deq (sc_q s)) (\<lambda>(p, q).
       (case p of
          None \<Rightarrow> Inr ([], (th, s\<lparr>sc_q := q\<rparr>))
        | Some e \<Rightarrow>
            res_bind (dispatch e (ev_time e) (s\<lparr>sc_q := q\<rparr>)) (\<lambda>(e1, s1).
              if ev_handler e = me
              then res_bind (th_handle (th_calls ins canc me cs) (th\<lparr>th_event := e1\<rparr>, s1))
                     (\<lambda>st. Inr ([Fired (sc_clock s1) cs], st))
              else Inr ([], (th, s1)))))"

fun th_run ::
  "(event \<Rightarrow> 'q \<Rightarrow> 'q res) \<Rightarrow> ('q \<Rightarrow> (event option \<times> 'q) res) \<Rightarrow> (event \<Rightarrow> 'q \<Rightarrow> (event \<times> 'q) res) \<Rightarrow> nat \<Rightarrow>
    timer_input list \<Rightarrow> 'q timed \<Rightarrow> (timer_log list \<times> 'q timed) res" where
  "th_run ins deq canc me [] st = Inr ([], st)"
| "th_run ins deq canc me (i # xs) st =
     res_bind (th_input ins deq canc me i st) (\<lambda>(l, st1).
       res_bind (th_run ins deq canc me xs st1) (\<lambda>(l', st2). Inr (l @ l', st2)))"

text \<open>The log replayed on the client's view, where a timer that fires at another time than that of its expiry is an error.\<close>

fun client_log :: "timer_log \<Rightarrow> timer \<Rightarrow> timer res" where
  "client_log (Called now cs) t = client_calls now cs t"
| "client_log (Fired now cs) t =
     (if tm_expiry t \<noteq> now then Inl (LogicError ''not the time of expiry'')
      else res_bind (timer_handle_begin t) (\<lambda>t1. res_bind (client_calls now cs t1) (\<lambda>t2. Inr (timer_handle_end t2))))"

fun client_replay :: "timer_log list \<Rightarrow> timer \<Rightarrow> timer res" where
  "client_replay [] t = Inr t"
| "client_replay (l # ls) t = res_bind (client_log l t) (client_replay ls)"

lemma client_replay_append: "client_replay (xs @ ys) t = res_bind (client_replay xs t) (client_replay ys)"
proof (induction xs arbitrary: t)
  case (Cons x xs)
  then show ?case by (cases "client_log x t") simp_all
qed simp

text \<open>The calls that cannot be misused, and inputs that schedule nothing into the past and for no other handler in the timer's name.\<close>

fun agent_call :: "timer_call \<Rightarrow> bool" where
  "agent_call (TResched d) \<longleftrightarrow> 0 \<le> d"
| "agent_call TForceCancel \<longleftrightarrow> True"
| "agent_call _ \<longleftrightarrow> False"

fun input_ok :: "nat \<Rightarrow> timer_input \<Rightarrow> bool" where
  "input_ok me (Calls cs) \<longleftrightarrow> list_all agent_call cs"
| "input_ok me (Other h d) \<longleftrightarrow> h \<noteq> me \<and> 0 \<le> d"
| "input_ok me (RunEvent cs) \<longleftrightarrow> list_all agent_call cs"

fun input_room :: "timer_input \<Rightarrow> nat" where
  "input_room (Calls cs) = length cs"
| "input_room (Other h d) = 1"
| "input_room (RunEvent cs) = length cs"

section \<open>The timer implements what its client sees\<close>

text \<open>The client's view of a timer: while it is pending, its event is in the queue at the time of expiry, and no other event is for its
  handler; otherwise its event is not scheduled.\<close>

definition timer_view :: "nat \<Rightarrow> event list \<Rightarrow> timer_handler \<Rightarrow> timer \<Rightarrow> bool" where
  "timer_view me es th t \<longleftrightarrow> th_status th = tm_status t \<and>
     (if tm_status t = PENDING
      then th_event th \<in> set es \<and> ev_handler (th_event th) = me \<and> ev_time (th_event th) = tm_expiry t \<and>
        (\<forall>e \<in> set es. ev_handler e = me \<longrightarrow> e = th_event th)
      else ev_uid (th_event th) \<le> 0 \<and> (\<forall>e \<in> set es. ev_handler e \<noteq> me))"

context event_queue
begin

lemma th_schedule_view:
  assumes g: "good s" and r: "room (Suc n) (sc_q s)" and d: "0 \<le> d" and v: "timer_view me (pending (sc_q s)) th t" "tm_status t \<noteq> PENDING"
  shows "\<exists>th' s'. th_schedule ins me d (th, s) = Inr (th', s') \<and> good s' \<and> room n (sc_q s') \<and> sc_clock s' = sc_clock s \<and>
    timer_view me (pending (sc_q s')) (th'\<lparr>th_status := PENDING\<rparr>) (timer_resched (sc_clock s) d t)"
proof -
  let ?e = "(th_event th)\<lparr>ev_uid := sc_uid s, ev_handler := me, ev_time := sc_clock s + d\<rparr>"
  have u: "ev_uid (th_event th) \<le> 0" "\<forall>e \<in> set (pending (sc_q s)). ev_handler e \<noteq> me" using v by (auto simp: timer_view_def)
  from schedule_event_ok [OF g r d u(1), of me] obtain s' where
    s': "schedule_event ins me (th_event th) d s = Inr (?e, s')" "good s'" "room n (sc_q s')" "sc_clock s' = sc_clock s"
      "pending (sc_q s') = insort_key ev_key ?e (pending (sc_q s))" by blast
  moreover have "timer_view me (pending (sc_q s')) (th\<lparr>th_event := ?e, th_status := PENDING\<rparr>) (timer_resched (sc_clock s) d t)"
    using u(2) by (auto simp: timer_view_def timer_resched_def s'(5) set_insort_key)
  ultimately show ?thesis by (simp add: th_schedule_def)
qed

lemma th_unschedule_view:
  assumes g: "good s" and v: "timer_view me (pending (sc_q s)) th t" "tm_status t = PENDING"
  shows "\<exists>th' s'. th_unschedule canc (th, s) = Inr (th', s') \<and> good s' \<and> (\<forall>n. room n (sc_q s) \<longrightarrow> room n (sc_q s')) \<and>
    sc_clock s' = sc_clock s \<and> timer_view me (pending (sc_q s')) (th'\<lparr>th_status := IDLE\<rparr>) (t\<lparr>tm_status := IDLE\<rparr>)"
proof -
  have e: "th_event th \<in> set (pending (sc_q s))" "\<forall>e \<in> set (pending (sc_q s)). ev_handler e = me \<longrightarrow> e = th_event th"
    using v by (auto simp: timer_view_def)
  have p: "distinct (pending (sc_q s))" "\<forall>e \<in> set (pending (sc_q s)). 0 < ev_uid e"
    using pending_ok [of "sc_q s"] g by (auto simp: good_def distinct_map)
  from canc_ok [OF _ e(1)] g obtain q where q: "canc (th_event th) (sc_q s) = Inr (negate_uid (th_event th), q)" "inv q"
    "pending q = remove1 (th_event th) (pending (sc_q s))" "\<forall>n. room n (sc_q s) \<longrightarrow> room n q" by (auto simp: good_def)
  have s: "set (pending q) = set (pending (sc_q s)) - {th_event th}" using q(3) p(1) by simp
  have "good (s\<lparr>sc_q := q\<rparr>)" using g q(2) by (auto simp: good_def s)
  moreover have "timer_view me (pending q) (th\<lparr>th_event := negate_uid (th_event th), th_status := IDLE\<rparr>) (t\<lparr>tm_status := IDLE\<rparr>)"
    using e p(2) by (auto simp: timer_view_def s negate_uid_def less_imp_le)
  ultimately show ?thesis using q(1,4) by (simp add: th_unschedule_def)
qed

lemma th_call_view:
  assumes g: "good s" and r: "room (Suc n) (sc_q s)" and c: "agent_call c" and v: "timer_view me (pending (sc_q s)) th t"
  shows "\<exists>th' s' t'. th_call ins canc me c (th, s) = Inr (th', s') \<and> client_call (sc_clock s) c t = Inr t' \<and> good s' \<and>
    room n (sc_q s') \<and> sc_clock s' = sc_clock s \<and> timer_view me (pending (sc_q s')) th' t'"
proof (cases c)
  case (TResched d)
  with c have d: "0 \<le> d" by simp
  show ?thesis
  proof (cases "tm_status t = PENDING")
    case False
    with v have "th_status th \<noteq> PENDING" by (simp add: timer_view_def)
    with th_schedule_view [OF g r d v False] TResched show ?thesis by (auto simp: th_resched_def th_set_def)
  next
    case True
    with v have p: "th_status th = PENDING" by (simp add: timer_view_def)
    from th_unschedule_view [OF g v True] r obtain th1 s1 where
      u: "th_unschedule canc (th, s) = Inr (th1, s1)" "good s1" "room (Suc n) (sc_q s1)" "sc_clock s1 = sc_clock s"
      "timer_view me (pending (sc_q s1)) (th1\<lparr>th_status := IDLE\<rparr>) (t\<lparr>tm_status := IDLE\<rparr>)" by blast
    from th_schedule_view [OF u(2,3) d u(5)] obtain th2 s2 where
      w: "th_schedule ins me d (th1\<lparr>th_status := IDLE\<rparr>, s1) = Inr (th2, s2)" "good s2" "room n (sc_q s2)" "sc_clock s2 = sc_clock s1"
      "timer_view me (pending (sc_q s2)) (th2\<lparr>th_status := PENDING\<rparr>) (timer_resched (sc_clock s1) d (t\<lparr>tm_status := IDLE\<rparr>))" by auto
    then obtain th3 where "th_schedule ins me d (th1, s1) = Inr (th3, s2)" "th3\<lparr>th_status := PENDING\<rparr> = th2\<lparr>th_status := PENDING\<rparr>"
      by (auto simp: th_schedule_def res_bind_Inr_iff)
    moreover have "timer_resched (sc_clock s1) d (t\<lparr>tm_status := IDLE\<rparr>) = timer_resched (sc_clock s) d t"
      by (simp add: timer_resched_def u(4))
    ultimately show ?thesis using TResched p u(1,4) w by (auto simp: th_resched_def th_set_def)
  qed
next
  case TForceCancel
  show ?thesis
  proof (cases "tm_status t = PENDING")
    case True
    with v have "th_status th = PENDING" by (simp add: timer_view_def)
    moreover from th_unschedule_view [OF g v True] r obtain th1 s1 where
      u: "th_unschedule canc (th, s) = Inr (th1, s1)" "good s1" "room (Suc n) (sc_q s1)" "sc_clock s1 = sc_clock s"
      "timer_view me (pending (sc_q s1)) (th1\<lparr>th_status := IDLE\<rparr>) (t\<lparr>tm_status := IDLE\<rparr>)" by blast
    moreover have "room n (sc_q s1)" using u(3) by (rule room_mono) simp
    ultimately show ?thesis using TForceCancel True by (simp add: th_force_cancel_def th_set_def timer_force_cancel_def)
  next
    case False
    with v have "th_status th \<noteq> PENDING" by (simp add: timer_view_def)
    with g r v TForceCancel False show ?thesis
      by (auto simp: th_force_cancel_def timer_force_cancel_def intro: room_mono [of "Suc n"])
  qed
qed (use c in simp_all)

lemma th_calls_view:
  "good s \<Longrightarrow> room (length cs + n) (sc_q s) \<Longrightarrow> list_all agent_call cs \<Longrightarrow> timer_view me (pending (sc_q s)) th t \<Longrightarrow>
   \<exists>th' s' t'. th_calls ins canc me cs (th, s) = Inr (th', s') \<and> client_calls (sc_clock s) cs t = Inr t' \<and> good s' \<and>
    room n (sc_q s') \<and> sc_clock s' = sc_clock s \<and> timer_view me (pending (sc_q s')) th' t'"
proof (induction cs arbitrary: th s t)
  case (Cons c cs)
  have "room (Suc (length cs + n)) (sc_q s)" using Cons.prems(2) by simp
  moreover have "agent_call c" using Cons.prems(3) by simp
  ultimately obtain th1 s1 t1 where
    c: "th_call ins canc me c (th, s) = Inr (th1, s1)" "client_call (sc_clock s) c t = Inr t1" "good s1"
      "room (length cs + n) (sc_q s1)" "sc_clock s1 = sc_clock s" "timer_view me (pending (sc_q s1)) th1 t1"
    using th_call_view [OF Cons.prems(1) _ _ Cons.prems(4)] by blast
  from Cons.IH [OF c(3,4) _ c(6)] Cons.prems(3) obtain th' s' t' where
    "th_calls ins canc me cs (th1, s1) = Inr (th', s')" "client_calls (sc_clock s1) cs t1 = Inr t'" "good s'" "room n (sc_q s')"
    "sc_clock s' = sc_clock s1" "timer_view me (pending (sc_q s')) th' t'" by auto
  with c show ?case by auto
qed auto

text \<open>The end of \<open>handle\<close> keeps the view.\<close>

lemma handle_end_view:
  "timer_view me es th t \<Longrightarrow>
   timer_view me es (if th_status th = HANDLING then th\<lparr>th_status := IDLE\<rparr> else th) (timer_handle_end t)"
  by (auto simp: timer_view_def timer_handle_end_def split: if_split_asm)

lemma run_event_view:
  assumes g: "good s" and r: "room (length cs + n) (sc_q s)" and c: "list_all agent_call cs" and v: "timer_view me (pending (sc_q s)) th t"
  shows "\<exists>l th' s' t'. th_input ins deq canc me (RunEvent cs) (th, s) = Inr (l, th', s') \<and> client_replay l t = Inr t' \<and> good s' \<and>
    room n (sc_q s') \<and> timer_view me (pending (sc_q s')) th' t'"
proof (cases "pending (sc_q s)")
  case Nil
  with deq_Nil [of "sc_q s"] g v r show ?thesis
    by (auto simp: good_def intro: room_mono [of "length cs + n"])
next
  case (Cons p ps)
  from next_event [OF g Cons] obtain q where
    q: "deq (sc_q s) = Inr (Some p, q)" "pending q = ps" "\<forall>n. room n (sc_q s) \<longrightarrow> room n q"
    and g1: "good (s\<lparr>sc_q := q, sc_clock := ev_time p\<rparr>)" and cl: "sc_clock s \<le> ev_time p"
    and ps: "p \<notin> set ps" "0 < ev_uid p" by blast
  let ?s = "s\<lparr>sc_q := q, sc_clock := ev_time p\<rparr>"
  have r1: "room (length cs + n) (sc_q ?s)" using q(3) r by simp
  show ?thesis
  proof (cases "ev_handler p = me")
    case False
    then have "timer_view me ps th t" using v Cons by (auto simp: timer_view_def split: if_split_asm)
    with False q cl g1 r1 show ?thesis by (auto simp: dispatch_def intro: room_mono [of "length cs + n"])
  next
    case True
    have tp: "tm_status t = PENDING" using v Cons True by (auto simp: timer_view_def split: if_split_asm)
    have p: "th_event th = p" using v Cons True tp by (simp add: timer_view_def)
    have t: "tm_expiry t = ev_time p" "\<forall>e \<in> set ps. ev_handler e \<noteq> me" using v Cons ps(1) tp p by (auto simp: timer_view_def)
    let ?th = "th\<lparr>th_event := negate_uid p, th_status := HANDLING\<rparr>" and ?t = "t\<lparr>tm_status := HANDLING\<rparr>"
    have "timer_view me (pending (sc_q ?s)) ?th ?t" using t(2) ps(2) q(2) by (simp add: timer_view_def negate_uid_def)
    from th_calls_view [OF g1 r1 c this] obtain th' s' t' where
      k: "th_calls ins canc me cs (?th, ?s) = Inr (th', s')" "client_calls (ev_time p) cs ?t = Inr t'" "good s'" "room n (sc_q s')"
        "timer_view me (pending (sc_q s')) th' t'" by auto
    let ?th' = "if th_status th' = HANDLING then th'\<lparr>th_status := IDLE\<rparr> else th'"
    have "th_status th = PENDING" using v tp by (simp add: timer_view_def)
    then have "th_input ins deq canc me (RunEvent cs) (th, s) = Inr ([Fired (ev_time p) cs], ?th', s')"
      using True q(1) cl k(1) by (simp add: dispatch_def th_handle_def th_set_def)
    moreover have "client_replay [Fired (ev_time p) cs] t = Inr (timer_handle_end t')"
      using t(1) tp k(2) by (simp add: timer_handle_begin_def)
    ultimately show ?thesis using k handle_end_view [OF k(5)] by blast
  qed
qed

lemma other_view:
  assumes g: "good s" and r: "room (Suc n) (sc_q s)" and d: "0 \<le> d" "h \<noteq> me" and v: "timer_view me (pending (sc_q s)) th t"
  shows "\<exists>s'. schedule ins (Some h) fresh_event d s = Inr s' \<and> good s' \<and> room n (sc_q s') \<and> timer_view me (pending (sc_q s')) th t"
proof -
  let ?e = "fresh_event\<lparr>ev_uid := sc_uid s, ev_handler := h, ev_time := sc_clock s + d\<rparr>"
  have "ev_uid fresh_event \<le> 0" by (simp add: fresh_event_def)
  from schedule_event_ok [OF g r d(1) this, of h] obtain s' where
    s': "schedule ins (Some h) fresh_event d s = Inr s'" "good s'" "room n (sc_q s')"
      "pending (sc_q s') = insort_key ev_key ?e (pending (sc_q s))" by (auto simp: schedule_event_def res_bind_Inr_iff)
  from s'(4) have "timer_view me (pending (sc_q s')) th t"
    using v d(2) by (auto simp: timer_view_def set_insort_key split: if_split_asm)
  with s' show ?thesis by blast
qed

lemma th_run_view:
  "good s \<Longrightarrow> room (sum_list (map input_room xs) + n) (sc_q s) \<Longrightarrow> list_all (input_ok me) xs \<Longrightarrow>
   timer_view me (pending (sc_q s)) th t \<Longrightarrow>
   \<exists>l th' s' t'. th_run ins deq canc me xs (th, s) = Inr (l, th', s') \<and> client_replay l t = Inr t' \<and> good s' \<and>
     room n (sc_q s') \<and> timer_view me (pending (sc_q s')) th' t'"
proof (induction xs arbitrary: th s t)
  case (Cons i xs)
  let ?n = "sum_list (map input_room xs) + n"
  have r: "room (input_room i + ?n) (sc_q s)" using Cons.prems(2) by (simp add: add.assoc)
  have "\<exists>l th1 s1 t1. th_input ins deq canc me i (th, s) = Inr (l, th1, s1) \<and> client_replay l t = Inr t1 \<and> good s1 \<and>
    room ?n (sc_q s1) \<and> timer_view me (pending (sc_q s1)) th1 t1"
  proof (cases i)
    case (Calls cs)
    with th_calls_view [OF Cons.prems(1) _ _ Cons.prems(4), of cs ?n] r Cons.prems(3) show ?thesis by fastforce
  next
    case (Other h d)
    with other_view [OF Cons.prems(1) _ _ _ Cons.prems(4), of ?n d h] r Cons.prems(3) show ?thesis by fastforce
  next
    case (RunEvent cs)
    with run_event_view [OF Cons.prems(1) _ _ Cons.prems(4), of cs ?n] r Cons.prems(3) show ?thesis by simp
  qed
  then obtain l th1 s1 t1 where 1: "th_input ins deq canc me i (th, s) = Inr (l, th1, s1)" "client_replay l t = Inr t1" "good s1"
    "room ?n (sc_q s1)" "timer_view me (pending (sc_q s1)) th1 t1" by blast
  from Cons.IH [OF 1(3,4) _ 1(5)] Cons.prems(3) obtain l' th' s' t' where
    2: "th_run ins deq canc me xs (th1, s1) = Inr (l', th', s')" "client_replay l' t1 = Inr t'" "good s'" "room n (sc_q s')"
      "timer_view me (pending (sc_q s')) th' t'" by auto
  with 1 show ?case by (auto simp: client_replay_append)
qed auto

text \<open>From an empty queue and an idle timer.\<close>

lemma timer_implements_view:
  assumes q: "inv q" "pending q = []" "room (sum_list (map input_room xs)) q" and i: "list_all (input_ok me) xs"
  shows "\<exists>l th s t. th_run ins deq canc me xs (th_init, sched_init q) = Inr (l, th, s) \<and> client_replay l timer_init = Inr t \<and>
    th_status th = tm_status t \<and>
    (tm_status t = PENDING \<longrightarrow> sc_clock s \<le> tm_expiry t \<and> th_event th \<in> set (pending (sc_q s)) \<and> ev_time (th_event th) = tm_expiry t)"
proof -
  have g: "good (sched_init q)" using q by (simp add: good_def sched_init_def)
  have v: "timer_view me (pending (sc_q (sched_init q))) th_init timer_init"
    using q(2) by (simp add: timer_view_def th_init_def timer_init_def sched_init_def fresh_event_def)
  have r: "room (sum_list (map input_room xs) + 0) (sc_q (sched_init q))" using q(3) by (simp add: sched_init_def)
  from th_run_view [OF g r i v] obtain l th s t where
    1: "th_run ins deq canc me xs (th_init, sched_init q) = Inr (l, th, s)" "client_replay l timer_init = Inr t" "good s"
      "timer_view me (pending (sc_q s)) th t" by blast
  have "tm_status t = PENDING \<longrightarrow> sc_clock s \<le> tm_expiry t \<and> th_event th \<in> set (pending (sc_q s)) \<and> ev_time (th_event th) = tm_expiry t"
    using 1(3,4) unfolding timer_view_def good_def by metis
  moreover have "th_status th = tm_status t" using 1(4) by (simp add: timer_view_def)
  ultimately show ?thesis using 1(1,2) by blast
qed

end

section \<open>On the calendar\<close>



end
