(* ===== verification/TcpSink.thy ===== *)
theory TcpSink
  imports Acker TimerQueue
begin

text \<open>
  The one-way TCP receivers of \<open>tcp/tcp-sink.cc\<close>: \<open>TcpSink\<close>, which acknowledges every packet, and \<open>DelAckSink\<close>, which delays the
  acknowledgement of packets in sequence, each with an \<open>Acker\<close> or a \<open>Sacker\<close>. The acknowledgements given to \<open>send\<close> and the calls of
  \<open>recvBytes\<close> are logged. QuickStart (\<open>WITH_QS\<close>) is not compiled in, and \<open>add_to_ack\<close> is empty in these classes.
\<close>

record sink =
  sn_acker :: acker
  sn_sacker :: "sacker option"
  sn_ts_echo_bugfix :: bool
  sn_ts_echo_rfc1323 :: bool
  sn_generate_dsacks :: bool
  sn_RFC2581_immediate_ack :: bool
  sn_ecn_syn :: bool
  sn_ecnhat :: bool
  sn_size :: int
  sn_here :: int
  sn_dst :: int
  sn_prio :: int
  sn_bytes :: int
  sn_save :: "packet option"
  sn_lastreset :: time
  sn_interval :: time
  sn_timer :: timer
  sn_sent :: "packet list"
  sn_delivered :: "int list"

text \<open>\<open>Agent::allocpkt\<close>, with the number of the acknowledgement as the address of the packet.\<close>

definition sink_allocpkt :: "sink \<Rightarrow> packet" where
  "sink_allocpkt s = (packet_init (length (sn_sent s)))\<lparr>pk_size := sn_size s,
     pk_ip := hdr_ip0\<lparr>ip_saddr := sn_here s, ip_daddr := sn_dst s, ip_prio := sn_prio s\<rparr>\<rparr>"

section \<open>Acknowledging\<close>

text \<open>The echo of congestion marks: \<open>opf\<close> are the flags of the packet, \<open>sf\<close> those of the delayed packet, if any.\<close>

definition ack_ecn_unacked :: "hdr_flags \<Rightarrow> hdr_flags option \<Rightarrow> int \<Rightarrow> int" where
  "ack_ecn_unacked opf sf unacked =
     (let u1 = (if (case sf of None \<Rightarrow> False | Some f \<Rightarrow> fl_cong_action f) \<or> fl_cong_action opf then 0 else unacked)
      in if (case sf of None \<Rightarrow> False | Some f \<Rightarrow> fl_ect f \<and> fl_ce f) \<or> (fl_ect opf \<and> fl_ce opf) then 1 else u1)"

definition ack_flags :: "bool \<Rightarrow> bool \<Rightarrow> int \<Rightarrow> hdr_flags \<Rightarrow> hdr_flags option \<Rightarrow> hdr_flags \<Rightarrow> hdr_flags" where
  "ack_flags ecnhat ecn_syn unacked opf sf nf =
     (let nf1 =
        (if (case sf of None \<Rightarrow> False | Some f \<Rightarrow> fl_ect f) \<or> fl_ect opf then
           if ecnhat
           then nf\<lparr>fl_ecnecho := (case sf of None \<Rightarrow> False | Some f \<Rightarrow> fl_ect f \<and> fl_ce f) \<or> (fl_ect opf \<and> fl_ce opf)\<rparr>
           else nf\<lparr>fl_ecnecho := (unacked \<noteq> 0)\<rparr>
         else nf)
      in if (\<not> fl_ect opf \<and> fl_ecnecho opf) \<or> (case sf of None \<Rightarrow> False | Some f \<Rightarrow> \<not> fl_ect f \<and> fl_ecnecho f)
         then if ecn_syn then nf1\<lparr>fl_ecnecho := True, fl_ect := True\<rparr> else nf1\<lparr>fl_ecnecho := True\<rparr>
         else nf1)"

text \<open>The virtual \<open>append_ack\<close> does nothing for an \<open>Acker\<close>.\<close>

definition sink_append :: "int \<Rightarrow> sink \<Rightarrow> ((int \<times> int) list \<times> sink) res" where
  "sink_append old_seqno s =
     (case sn_sacker s of
        None \<Rightarrow> Inr ([], s)
      | Some k \<Rightarrow> res_bind (append_ack (sn_generate_dsacks s) (sn_acker s) old_seqno k) (\<lambda>(bs, k1). Inr (bs, s\<lparr>sn_sacker := Some k1\<rparr>)))"

definition sink_ack :: "time \<Rightarrow> packet \<Rightarrow> sink \<Rightarrow> sink res" where
  "sink_ack now opkt s =
     (let npkt = sink_allocpkt s;
          otcp = pk_tcp opkt;
          ts_echo = (if sn_ts_echo_bugfix s then ak_ts_to_echo (sn_acker s) else tcp_ts otcp);
          ntcp = (pk_tcp npkt)\<lparr>tcp_seqno := Seqno (sn_acker s), tcp_ts := now, tcp_ts_echo := ts_echo\<rparr>;
          sf = map_option pk_flags (sn_save s);
          unacked = ack_ecn_unacked (pk_flags opkt) sf (ak_ecn_unacked (sn_acker s));
          s1 = s\<lparr>sn_acker := (sn_acker s)\<lparr>ak_ecn_unacked := unacked\<rparr>\<rparr>;
          nf = ack_flags (sn_ecnhat s) (sn_ecn_syn s) unacked (pk_flags opkt) sf (pk_flags npkt)
      in res_bind (sink_append (tcp_seqno otcp) s1) (\<lambda>(bs, s2).
           let p = npkt\<lparr>pk_size := pk_size npkt + int (length bs) * 8, pk_ip := (pk_ip npkt)\<lparr>ip_fid := ip_fid (pk_ip opkt)\<rparr>,
                 pk_flags := nf, pk_tcp := ntcp\<lparr>tcp_sack_area := bs\<rparr>\<rparr>
           in Inr (s2\<lparr>sn_acker := (sn_acker s2)\<lparr>ak_last_ack_sent := tcp_seqno ntcp\<rparr>, sn_sent := sn_sent s2 @ [p]\<rparr>)))"

section \<open>Receiving\<close>

text \<open>What both classes do with a packet that is not from before the last reset.\<close>

definition sink_accept :: "packet \<Rightarrow> sink \<Rightarrow> sink res" where
  "sink_accept p s =
     (let h = pk_tcp p; a = update_ts (tcp_seqno h) (tcp_ts h) (sn_ts_echo_rfc1323 s) (sn_acker s) in
      res_bind (acker_update (tcp_seqno h) (pk_size p) a) (\<lambda>(numToDeliver, a1).
        let s1 = s\<lparr>sn_acker := a1\<rparr> in
        Inr (if numToDeliver \<noteq> 0
             then s1\<lparr>sn_bytes := sn_bytes s1 + numToDeliver, sn_delivered := sn_delivered s1 @ [numToDeliver]\<rparr>
             else s1)))"

definition sink_recv :: "time \<Rightarrow> packet \<Rightarrow> sink \<Rightarrow> sink res" where
  "sink_recv now p s =
     (if tcp_ts (pk_tcp p) < sn_lastreset s then Inr s else res_bind (sink_accept p s) (sink_ack now p))"

text \<open>\<open>reset\<close> of the acker is not virtual: the \<open>SackStack\<close> of a \<open>Sacker\<close> is not reset.\<close>

definition sink_reset :: "time \<Rightarrow> sink \<Rightarrow> sink" where
  "sink_reset now s = s\<lparr>sn_acker := acker_reset (sn_acker s), sn_save := None, sn_lastreset := now\<rparr>"

section \<open>Delayed acknowledgements\<close>

definition delack_cancel :: "time \<Rightarrow> sink \<Rightarrow> sink res" where
  "delack_cancel now s =
     (if tm_status (sn_timer s) = PENDING
      then res_bind (client_call now TCancel (sn_timer s)) (\<lambda>t. Inr (s\<lparr>sn_timer := t\<rparr>)) else Inr s)"

definition delack_reset :: "time \<Rightarrow> sink \<Rightarrow> sink res" where
  "delack_reset now s = res_bind (delack_cancel now s) (\<lambda>s1. Inr (sink_reset now s1))"

definition delack_recv :: "time \<Rightarrow> packet \<Rightarrow> sink \<Rightarrow> sink res" where
  "delack_recv now p s =
     (if tcp_ts (pk_tcp p) < sn_lastreset s then Inr s
      else res_bind (sink_accept p s) (\<lambda>s1.
        if tm_status (sn_timer s1) \<noteq> PENDING \<and> tcp_seqno (pk_tcp p) = Seqno (sn_acker s1) \<and>
           \<not> (sn_RFC2581_immediate_ack s1 \<and> tcp_seqno (pk_tcp p) < ak_maxseen (sn_acker s1))
        then Inr (s1\<lparr>sn_save := Some p, sn_timer := timer_resched now (sn_interval s1) (sn_timer s1)\<rparr>)
        else
          res_bind (delack_cancel now s1) (\<lambda>s2.
            res_bind (sink_ack now p s2) (\<lambda>s3. Inr (s3\<lparr>sn_save := None\<rparr>)))))"

definition delack_timeout :: "time \<Rightarrow> sink \<Rightarrow> sink res" where
  "delack_timeout now s =
     (case sn_save s of
        None \<Rightarrow> Inr s
      | Some p \<Rightarrow> res_bind (sink_ack now p s) (\<lambda>s1. Inr (s1\<lparr>sn_save := None\<rparr>)))"

text \<open>The expiry of the timer: \<open>TimerHandler::handle\<close> around \<open>DelayTimer::expire\<close>.\<close>

definition delack_expire :: "time \<Rightarrow> sink \<Rightarrow> sink res" where
  "delack_expire now s =
     res_bind (timer_handle_begin (sn_timer s)) (\<lambda>t.
       res_bind (delack_timeout now (s\<lparr>sn_timer := t\<rparr>)) (\<lambda>s1. Inr (s1\<lparr>sn_timer := timer_handle_end (sn_timer s1)\<rparr>)))"

section \<open>What a sink has received\<close>

definition nblocks :: "sink \<Rightarrow> int option" where
  "nblocks s = map_option sk_base_nblocks (sn_sacker s)"

definition sacks_ok :: "int set \<Rightarrow> sink \<Rightarrow> bool" where
  "sacks_ok R s \<longleftrightarrow> (\<forall>k. sn_sacker s = Some k \<longrightarrow> sacker_ok R k)"

definition sink_inv :: "(int \<Rightarrow> int) \<Rightarrow> int set \<Rightarrow> sink \<Rightarrow> bool" where
  "sink_inv sz R s \<longleftrightarrow> acker_inv sz R (sn_acker s) \<and> sacks_ok R s \<and>
     (\<forall>p \<in> set (sn_sent s). blocks_ok R (tcp_sack_area (pk_tcp p)))"

text \<open>The packet \<open>p\<close> acknowledges what has been received up to now: \<open>seqno\<close> is the last packet before the first missing one.\<close>

definition acknowledges :: "int set \<Rightarrow> packet \<Rightarrow> bool" where
  "acknowledges R p \<longleftrightarrow> {0..tcp_seqno (pk_tcp p)} \<subseteq> R \<and> tcp_seqno (pk_tcp p) + 1 \<notin> R \<and> - 1 \<le> tcp_seqno (pk_tcp p)"

text \<open>What a sink sends in one step: acknowledgements of what has been received up to now; if there is none, the timer will send one.\<close>

definition answers :: "time \<Rightarrow> int set \<Rightarrow> sink \<Rightarrow> sink \<Rightarrow> bool" where
  "answers now R s s' \<longleftrightarrow> sn_lastreset s' = sn_lastreset s \<and> (\<exists>qs. sn_sent s' = sn_sent s @ qs \<and>
     (\<forall>q \<in> set qs. acknowledges R q \<and> tcp_ts (pk_tcp q) = now) \<and> (qs = [] \<longrightarrow> tm_status (sn_timer s') = PENDING))"

lemma acker_inv_ts [simp]:
  "acker_inv sz R (a\<lparr>ak_ts_to_echo := t\<rparr>) = acker_inv sz R a" "acker_inv sz R (a\<lparr>ak_ecn_unacked := u\<rparr>) = acker_inv sz R a"
  "acker_inv sz R (a\<lparr>ak_last_ack_sent := n\<rparr>) = acker_inv sz R a"
  by (simp_all add: acker_inv_def window_ok_def seen_at_def)

lemma update_ts_ok: "acker_inv sz R a \<Longrightarrow> acker_inv sz R (update_ts n t b a) \<and> ak_next (update_ts n t b a) = ak_next a"
  by (simp add: update_ts_def)

text \<open>Blocks for the packet just acknowledged: with room for one, they report a packet beyond the first missing one.\<close>

definition reports :: "sink \<Rightarrow> int \<Rightarrow> packet \<Rightarrow> bool" where
  "reports s old p \<longleftrightarrow> (\<forall>k. sn_sacker s = Some k \<and> Seqno (sn_acker s) < old \<and>
     (if sn_generate_dsacks s \<and> ak_is_dup (sn_acker s) then 1 else 0) < sk_base_nblocks k \<longrightarrow>
     (\<exists>x \<in> set (tcp_sack_area (pk_tcp p)). old \<in> {fst x..<snd x}))"

lemma sink_ack_ok:
  assumes i: "sink_inv sz R s" and o: "0 \<le> tcp_seqno (pk_tcp p)" "tcp_seqno (pk_tcp p) \<in> R"
  shows "\<exists>q s'. sink_ack now p s = Inr s' \<and> sink_inv sz R s' \<and> sn_sent s' = sn_sent s @ [q] \<and> acknowledges R q \<and>
    tcp_seqno (pk_tcp q) = Seqno (sn_acker s) \<and> reports s (tcp_seqno (pk_tcp p)) q \<and> sn_bytes s' = sn_bytes s \<and> sn_timer s' = sn_timer s \<and> sn_lastreset s' = sn_lastreset s \<and>
    ak_next (sn_acker s') = ak_next (sn_acker s) \<and> sn_save s' = sn_save s \<and> nblocks s' = nblocks s \<and> tcp_ts (pk_tcp q) = now"
proof -
  let ?u = "ack_ecn_unacked (pk_flags p) (map_option pk_flags (sn_save s)) (ak_ecn_unacked (sn_acker s))"
  let ?s1 = "s\<lparr>sn_acker := (sn_acker s)\<lparr>ak_ecn_unacked := ?u\<rparr>\<rparr>" and ?old = "tcp_seqno (pk_tcp p)"
  have a: "acker_inv sz R (sn_acker s)" and k: "sacks_ok R s" using i by (simp_all add: sink_inv_def)
  have q: "Seqno (sn_acker ?s1) = Seqno (sn_acker s)" by (simp add: Seqno_def)
  have "\<exists>bs k'. sink_append ?old ?s1 = Inr (bs, ?s1\<lparr>sn_sacker := k'\<rparr>) \<and> blocks_ok R bs \<and> sacks_ok R (?s1\<lparr>sn_sacker := k'\<rparr>) \<and>
      map_option sk_base_nblocks k' = nblocks s \<and> (\<forall>q. tcp_sack_area (pk_tcp q) = bs \<longrightarrow> reports s ?old q)"
  proof (cases "sn_sacker s")
    case None
    then show ?thesis by (intro exI [of _ "[]"] exI [of _ None]) (simp add: sink_append_def blocks_ok_def sacks_ok_def reports_def nblocks_def)
  next
    case (Some c)
    have "acker_inv sz R (sn_acker ?s1)" "sacker_ok R c" using a k Some by (simp_all add: sacks_ok_def)
    from append_ack_ok [OF this(1) o this(2), of "sn_generate_dsacks s"] obtain bs c' where
      "append_ack (sn_generate_dsacks s) (sn_acker ?s1) ?old c = Inr (bs, c')" "sacker_ok R c'" "sk_base_nblocks c' = sk_base_nblocks c" "blocks_ok R bs"
      "Seqno (sn_acker ?s1) < ?old \<and> (if sn_generate_dsacks s \<and> ak_is_dup (sn_acker ?s1) then 1 else 0) < sk_base_nblocks c \<longrightarrow>
        (\<exists>x \<in> set bs. ?old \<in> {fst x..<snd x})" by blast
    then show ?thesis using Some q
      by (intro exI [of _ bs] exI [of _ "Some c'"]) (simp add: sink_append_def sacks_ok_def reports_def nblocks_def)
  qed
  then obtain bs k' where b: "sink_append ?old ?s1 = Inr (bs, ?s1\<lparr>sn_sacker := k'\<rparr>)" "blocks_ok R bs" "sacks_ok R (?s1\<lparr>sn_sacker := k'\<rparr>)"
    "map_option sk_base_nblocks k' = nblocks s" "\<forall>q. tcp_sack_area (pk_tcp q) = bs \<longrightarrow> reports s ?old q" by blast
  have n: "{0..Seqno (sn_acker s)} \<subseteq> R" "Seqno (sn_acker s) + 1 \<notin> R" "- 1 \<le> Seqno (sn_acker s)"
    using a by (auto simp: acker_inv_def window_ok_def Seqno_def)
  from b(1) obtain q s' where s': "sink_ack now p s = Inr s'" "sn_sent s' = sn_sent s @ [q]" "tcp_sack_area (pk_tcp q) = bs"
    "tcp_seqno (pk_tcp q) = Seqno (sn_acker s)" "sn_acker s' = (sn_acker s)\<lparr>ak_ecn_unacked := ?u, ak_last_ack_sent := Seqno (sn_acker s)\<rparr>"
    "sn_sacker s' = k'" "sn_bytes s' = sn_bytes s" "sn_timer s' = sn_timer s" "sn_lastreset s' = sn_lastreset s" "sn_save s' = sn_save s"
    "tcp_ts (pk_tcp q) = now" by (simp add: sink_ack_def Let_def)
  have "sink_inv sz R s'" using i b(2,3) s'(2,3,5,6) by (auto simp: sink_inv_def sacks_ok_def)
  moreover have "acknowledges R q" using n s'(4) by (simp add: acknowledges_def)
  ultimately show ?thesis using s' b(4,5) by (intro exI [of _ q] exI [of _ s']) (simp add: nblocks_def)
qed

lemma sacks_ok_mono: "sacks_ok R s \<Longrightarrow> R \<subseteq> R' \<Longrightarrow> sacks_ok R' s"
  using sacker_ok_mono by (auto simp: sacks_ok_def)

lemma sink_accept_ok:
  assumes i: "sink_inv sz R s" and p: "0 \<le> tcp_seqno (pk_tcp p)" "pk_size p = sz (tcp_seqno (pk_tcp p))"
  shows "\<exists>s'. sink_accept p s = Inr s' \<and> sink_inv sz (insert (tcp_seqno (pk_tcp p)) R) s' \<and> sn_sent s' = sn_sent s \<and>
    sn_bytes s' = sn_bytes s + (\<Sum>i \<in> {ak_next (sn_acker s)..<ak_next (sn_acker s')}. sz i) \<and>
    ak_next (sn_acker s) \<le> ak_next (sn_acker s') \<and> sn_timer s' = sn_timer s \<and> sn_lastreset s' = sn_lastreset s \<and> sn_save s' = sn_save s \<and>
    nblocks s' = nblocks s"
proof -
  let ?n = "tcp_seqno (pk_tcp p)"
  let ?a = "update_ts ?n (tcp_ts (pk_tcp p)) (sn_ts_echo_rfc1323 s) (sn_acker s)"
  have a: "acker_inv sz R ?a" "ak_next ?a = ak_next (sn_acker s)" using i update_ts_ok by (auto simp: sink_inv_def)
  from acker_update_ok [OF a(1) p(1)] obtain a' where
    a': "acker_update ?n (pk_size p) ?a = Inr (\<Sum>i \<in> {ak_next (sn_acker s)..<ak_next a'}. sz i, a')" "acker_inv sz (insert ?n R) a'"
      "ak_next (sn_acker s) \<le> ak_next a'" unfolding a(2) p(2) by blast
  have "sacks_ok (insert ?n R) s" using i sacks_ok_mono [of R s "insert ?n R"] by (simp add: sink_inv_def subset_insertI)
  moreover have "\<forall>q \<in> set (sn_sent s). blocks_ok (insert ?n R) (tcp_sack_area (pk_tcp q))"
    using i by (auto simp: sink_inv_def blocks_ok_def)
  ultimately show ?thesis using a' by (auto simp: sink_accept_def Let_def sink_inv_def sacks_ok_def nblocks_def)
qed

section \<open>Runs\<close>

definition fresh_sink :: "sink \<Rightarrow> bool" where
  "fresh_sink s \<longleftrightarrow> sn_acker s = acker_init \<and> (case sn_sacker s of None \<Rightarrow> True | Some k \<Rightarrow> k = sacker_configure (sk_base_nblocks k)) \<and>
     sn_sent s = [] \<and> sn_save s = None \<and> sn_bytes s = 0 \<and> sn_timer s = timer_init"

lemma fresh_sink_inv:
  assumes f: "fresh_sink s" and z: "\<forall>i. 0 < sz i"
  shows "sink_inv sz {} s \<and> ak_next (sn_acker s) = 0"
proof -
  have "slot 63 i < 64" for i using slot_less [of 63 6 i] by simp
  then have "acker_inv sz {} acker_init" using z
    by (auto simp: acker_inv_def window_ok_def acker_init_def MWS_def seen_at_def intro: exI [of _ 6])
  moreover have "sacker_ok {} (sacker_configure n)" for n
    by (auto simp: sacker_ok_def stack_ok_def sacker_configure_def sf_new_def Let_def entries_ok_def)
  ultimately show ?thesis using f by (auto simp: fresh_sink_def sink_inv_def sacks_ok_def acker_init_def split: option.splits) metis
qed

text \<open>Packets as a sender makes them: numbered from 0, the size of each given by its number, and sent after the last reset.\<close>

definition valid_packet :: "(int \<Rightarrow> int) \<Rightarrow> sink \<Rightarrow> packet \<Rightarrow> bool" where
  "valid_packet sz s p \<longleftrightarrow> 0 \<le> tcp_seqno (pk_tcp p) \<and> pk_size p = sz (tcp_seqno (pk_tcp p)) \<and> sn_lastreset s \<le> tcp_ts (pk_tcp p)"

abbreviation seq_of :: "packet \<Rightarrow> int" where
  "seq_of p \<equiv> tcp_seqno (pk_tcp p)"

fun sink_run :: "(time \<times> packet) list \<Rightarrow> sink \<Rightarrow> sink res" where
  "sink_run [] s = Inr s"
| "sink_run ((t, p) # ps) s = res_bind (sink_recv t p s) (sink_run ps)"

lemma sum_split_at:
  assumes "0 \<le> a" "a \<le> (b::int)"
  shows "(\<Sum>i \<in> {0..<b}. f i) = (\<Sum>i \<in> {0..<a}. f i) + (\<Sum>i \<in> {a..<b}. f i)"
proof -
  have "{0..<b} = {0..<a} \<union> {a..<b}" using assms by auto
  then show ?thesis by (simp add: sum.union_disjoint)
qed

lemma sink_recv_ok:
  assumes i: "sink_inv sz R s" and v: "valid_packet sz s p" and b: "sn_bytes s = (\<Sum>i \<in> {0..<ak_next (sn_acker s)}. sz i)"
  shows "\<exists>q s'. sink_recv t p s = Inr s' \<and> sink_inv sz (insert (seq_of p) R) s' \<and> sn_sent s' = sn_sent s @ [q] \<and>
    acknowledges (insert (seq_of p) R) q \<and> sn_bytes s' = (\<Sum>i \<in> {0..<ak_next (sn_acker s')}. sz i) \<and> sn_lastreset s' = sn_lastreset s \<and>
    nblocks s' = nblocks s \<and> sn_timer s' = sn_timer s \<and> tcp_ts (pk_tcp q) = t \<and>
    (\<forall>n. nblocks s = Some n \<and> 2 \<le> n \<and> tcp_seqno (pk_tcp q) < seq_of p \<longrightarrow> (\<exists>x \<in> set (tcp_sack_area (pk_tcp q)). seq_of p \<in> {fst x..<snd x}))"
proof -
  have p: "0 \<le> seq_of p" "pk_size p = sz (seq_of p)" "sn_lastreset s \<le> tcp_ts (pk_tcp p)" using v by (simp_all add: valid_packet_def)
  from sink_accept_ok [OF i p(1,2)] obtain s1 where
    1: "sink_accept p s = Inr s1" "sink_inv sz (insert (seq_of p) R) s1" "sn_sent s1 = sn_sent s"
      "sn_bytes s1 = sn_bytes s + (\<Sum>i \<in> {ak_next (sn_acker s)..<ak_next (sn_acker s1)}. sz i)" "ak_next (sn_acker s) \<le> ak_next (sn_acker s1)"
      "sn_lastreset s1 = sn_lastreset s" "nblocks s1 = nblocks s" "sn_timer s1 = sn_timer s" by blast
  have m: "seq_of p \<in> insert (seq_of p) R" by simp
  from sink_ack_ok [OF 1(2) p(1) m, of t] obtain q s' where
    2: "sink_ack t p s1 = Inr s'" "sink_inv sz (insert (seq_of p) R) s'" "sn_sent s' = sn_sent s1 @ [q]" "acknowledges (insert (seq_of p) R) q"
      "tcp_seqno (pk_tcp q) = Seqno (sn_acker s1)" "reports s1 (seq_of p) q" "sn_bytes s' = sn_bytes s1" "sn_lastreset s' = sn_lastreset s1" "ak_next (sn_acker s') = ak_next (sn_acker s1)"
      "nblocks s' = nblocks s1" "sn_timer s' = sn_timer s1" "tcp_ts (pk_tcp q) = t" by blast
  have "0 \<le> ak_next (sn_acker s)" using i by (auto simp: sink_inv_def acker_inv_def window_ok_def)
  then have "(\<Sum>i \<in> {0..<ak_next (sn_acker s1)}. sz i) = sn_bytes s + (\<Sum>i \<in> {ak_next (sn_acker s)..<ak_next (sn_acker s1)}. sz i)"
    using sum_split_at [OF _ 1(5), of sz] b by simp
  then have "sn_bytes s' = (\<Sum>i \<in> {0..<ak_next (sn_acker s')}. sz i)" using 1(4) 2(7,9) by simp
  moreover have "sink_recv t p s = Inr s'" using 1(1) 2(1) p(3) by (simp add: sink_recv_def)
  moreover have "\<exists>x \<in> set (tcp_sack_area (pk_tcp q)). seq_of p \<in> {fst x..<snd x}"
    if "nblocks s = Some n" "2 \<le> n" "tcp_seqno (pk_tcp q) < seq_of p" for n
  proof -
    from that(1) 1(7) obtain k where k: "sn_sacker s1 = Some k" "sk_base_nblocks k = n" by (auto simp: nblocks_def)
    have "(if sn_generate_dsacks s1 \<and> ak_is_dup (sn_acker s1) then 1 else 0) < n" using that(2) by simp
    then show ?thesis using spec [OF 2(6) [unfolded reports_def], of k] 2(5) k that(3) by simp
  qed
  ultimately show ?thesis using 1(3,6,7,8) 2(2,3,4,8,10,11,12) by (intro exI [of _ q] exI [of _ s']) simp
qed

lemma sink_run_ok:
  "sink_inv sz R s \<Longrightarrow> \<forall>(t, p) \<in> set ps. valid_packet sz s p \<Longrightarrow> sn_bytes s = (\<Sum>i \<in> {0..<ak_next (sn_acker s)}. sz i) \<Longrightarrow>
   \<exists>s'. sink_run ps s = Inr s' \<and> sink_inv sz (R \<union> (\<lambda>x. seq_of (snd x)) ` set ps) s' \<and> length (sn_sent s') = length (sn_sent s) + length ps \<and>
     sn_bytes s' = (\<Sum>i \<in> {0..<ak_next (sn_acker s')}. sz i) \<and>
     (ps \<noteq> [] \<longrightarrow> acknowledges (R \<union> (\<lambda>x. seq_of (snd x)) ` set ps) (last (sn_sent s')) \<and>
       (\<forall>n. nblocks s = Some n \<and> 2 \<le> n \<and> tcp_seqno (pk_tcp (last (sn_sent s'))) < seq_of (snd (last ps)) \<longrightarrow>
         (\<exists>x \<in> set (tcp_sack_area (pk_tcp (last (sn_sent s')))). seq_of (snd (last ps)) \<in> {fst x..<snd x})))"
proof (induction ps arbitrary: R s)
  case (Cons x ps)
  obtain t p where x: "x = (t, p)" by (cases x)
  have "valid_packet sz s p" using Cons.prems(2) x by simp
  from sink_recv_ok [OF Cons.prems(1) this Cons.prems(3), of t] obtain q s1 where
    1: "sink_recv t p s = Inr s1" "sink_inv sz (insert (seq_of p) R) s1" "sn_sent s1 = sn_sent s @ [q]" "acknowledges (insert (seq_of p) R) q"
      "sn_bytes s1 = (\<Sum>i \<in> {0..<ak_next (sn_acker s1)}. sz i)" "sn_lastreset s1 = sn_lastreset s" "nblocks s1 = nblocks s"
      "\<forall>n. nblocks s = Some n \<and> 2 \<le> n \<and> tcp_seqno (pk_tcp q) < seq_of p \<longrightarrow> (\<exists>x \<in> set (tcp_sack_area (pk_tcp q)). seq_of p \<in> {fst x..<snd x})"
    by blast
  have "\<forall>(t, p) \<in> set ps. valid_packet sz s1 p" using Cons.prems(2) 1(6) by (auto simp: valid_packet_def)
  from Cons.IH [OF 1(2) this 1(5)] obtain s' where
    2: "sink_run ps s1 = Inr s'" "sink_inv sz (insert (seq_of p) R \<union> (\<lambda>x. seq_of (snd x)) ` set ps) s'"
      "length (sn_sent s') = length (sn_sent s1) + length ps" "sn_bytes s' = (\<Sum>i \<in> {0..<ak_next (sn_acker s')}. sz i)"
      "ps \<noteq> [] \<longrightarrow> acknowledges (insert (seq_of p) R \<union> (\<lambda>x. seq_of (snd x)) ` set ps) (last (sn_sent s')) \<and>
        (\<forall>n. nblocks s1 = Some n \<and> 2 \<le> n \<and> tcp_seqno (pk_tcp (last (sn_sent s'))) < seq_of (snd (last ps)) \<longrightarrow>
         (\<exists>x \<in> set (tcp_sack_area (pk_tcp (last (sn_sent s')))). seq_of (snd (last ps)) \<in> {fst x..<snd x}))" by blast
  have R: "insert (seq_of p) R \<union> (\<lambda>x. seq_of (snd x)) ` set ps = R \<union> (\<lambda>x. seq_of (snd x)) ` set (x # ps)" using x by auto
  show ?case
  proof (cases "ps = []")
    case True
    with 1 2(1) x show ?thesis by (intro exI [of _ s1]) auto
  next
    case False
    with 1(1,3,7) 2 x show ?thesis unfolding R [symmetric] by (intro exI [of _ s']) simp
  qed
qed auto

text \<open>C8: a one-way TCP sink (\<open>TcpSink\<close>) with a plain or a selective acker receives any sequence of packets, in any order and with
  repetitions, however far ahead of the first missing one. Nothing fails and no loop runs forever. Each packet is acknowledged once; the
  acknowledgement names the last packet before the first missing one; the bytes delivered are exactly those of the packets before it. Every
  block of selective acknowledgement holds received packets only, and with two blocks or more one of them holds the packet that was just
  received beyond the first missing one. As this holds for every sequence, it holds after each packet.\<close>

theorem sink_acknowledges_received:
  assumes "fresh_sink s" "\<forall>i. 0 < sz i" "\<forall>(t, p) \<in> set ps. valid_packet sz s p"
  shows "\<exists>s' n R. R = (\<lambda>(t, p). tcp_seqno (pk_tcp p)) ` set ps \<and> sink_run ps s = Inr s' \<and> length (sn_sent s') = length ps \<and> 0 \<le> n \<and> {0..<n} \<subseteq> R \<and> n \<notin> R \<and>
    sn_bytes s' = (\<Sum>i \<in> {0..<n}. sz i) \<and> (ps \<noteq> [] \<longrightarrow> tcp_seqno (pk_tcp (last (sn_sent s'))) = n - 1) \<and>
    (\<forall>q \<in> set (sn_sent s'). \<forall>(l, r) \<in> set (tcp_sack_area (pk_tcp q)). {l..<r} \<subseteq> R) \<and>
    (\<forall>k. ps \<noteq> [] \<and> sn_sacker s = Some k \<and> 2 \<le> sk_base_nblocks k \<and> n - 1 < tcp_seqno (pk_tcp (snd (last ps))) \<longrightarrow>
      (\<exists>(l, r) \<in> set (tcp_sack_area (pk_tcp (last (sn_sent s')))). tcp_seqno (pk_tcp (snd (last ps))) \<in> {l..<r}))"
proof -
  define R where "R = (\<lambda>(t, p). tcp_seqno (pk_tcp p)) ` set ps"
  have R: "{} \<union> (\<lambda>x. seq_of (snd x)) ` set ps = R" by (auto simp: R_def case_prod_unfold)
  from fresh_sink_inv [OF assms(1,2)] have i: "sink_inv sz {} s" "ak_next (sn_acker s) = 0" by auto
  then have "sn_bytes s = (\<Sum>i \<in> {0..<ak_next (sn_acker s)}. sz i)" using assms(1) by (simp add: fresh_sink_def)
  from sink_run_ok [OF i(1) assms(3) this] obtain s' where
    s': "sink_run ps s = Inr s'" "sink_inv sz R s'" "length (sn_sent s') = length ps" "sn_bytes s' = (\<Sum>i \<in> {0..<ak_next (sn_acker s')}. sz i)"
      "ps \<noteq> [] \<longrightarrow> acknowledges R (last (sn_sent s'))"
      "ps \<noteq> [] \<longrightarrow> (\<forall>n. nblocks s = Some n \<and> 2 \<le> n \<and> tcp_seqno (pk_tcp (last (sn_sent s'))) < seq_of (snd (last ps)) \<longrightarrow>
         (\<exists>x \<in> set (tcp_sack_area (pk_tcp (last (sn_sent s')))). seq_of (snd (last ps)) \<in> {fst x..<snd x}))"
    unfolding R using assms(1) by (auto simp: fresh_sink_def)
  let ?n = "ak_next (sn_acker s')"
  have n: "0 \<le> ?n" "{0..<?n} \<subseteq> R" "?n \<notin> R" using s'(2) by (auto simp: sink_inv_def acker_inv_def window_ok_def)
  have a: "tcp_seqno (pk_tcp (last (sn_sent s'))) = ?n - 1" if "ps \<noteq> []"
  proof -
    let ?k = "tcp_seqno (pk_tcp (last (sn_sent s')))"
    have k: "{0..?k} \<subseteq> R" "?k + 1 \<notin> R" "- 1 \<le> ?k" using s'(5) that by (auto simp: acknowledges_def)
    have "?n \<notin> {0..?k}" "?k + 1 \<notin> {0..<?n}" using k n by blast+
    then show ?thesis using k(3) n(1) by auto
  qed
  have "\<forall>q \<in> set (sn_sent s'). \<forall>(l, r) \<in> set (tcp_sack_area (pk_tcp q)). {l..<r} \<subseteq> R"
    using s'(2) unfolding sink_inv_def blocks_ok_def case_prod_unfold by blast
  then show ?thesis using s'(1,3,4,6) n a by (intro exI [of _ s'] exI [of _ ?n] exI [of _ R]) (auto simp: nblocks_def case_prod_unfold R_def)
qed

definition sample_sink :: sink where
  "sample_sink = \<lparr>sn_acker = acker_init, sn_sacker = Some (sacker_configure 3), sn_ts_echo_bugfix = True, sn_ts_echo_rfc1323 = False,
     sn_generate_dsacks = False, sn_RFC2581_immediate_ack = True, sn_ecn_syn = False, sn_ecnhat = False, sn_size = 40, sn_here = 2, sn_dst = 1,
     sn_prio = 0, sn_bytes = 0, sn_save = None, sn_lastreset = 0, sn_interval = 1, sn_timer = timer_init, sn_sent = [], sn_delivered = []\<rparr>"

definition sample_data :: "int \<Rightarrow> time \<Rightarrow> packet" where
  "sample_data n t = (mk_packet 0 1000 1 0)\<lparr>pk_tcp := hdr_tcp0\<lparr>tcp_seqno := n, tcp_ts := t\<rparr>\<rparr>"

lemma sample_fresh: "fresh_sink sample_sink"
  by (simp add: fresh_sink_def sample_sink_def sacker_configure_def NSA_def)

lemma sample_valid: "valid_packet (\<lambda>_. 1000) sample_sink (sample_data n t) \<longleftrightarrow> 0 \<le> n \<and> 0 \<le> t"
  by (simp add: valid_packet_def sample_data_def sample_sink_def)

lemma sample_seq [simp]: "tcp_seqno (pk_tcp (sample_data n t)) = n"
  by (simp add: sample_data_def)

theorem sink_acknowledges_received_witness:
  "\<exists>s'. sink_run [(1, sample_data 2 0), (2, sample_data 0 0), (3, sample_data 200 0)] sample_sink = Inr s' \<and> length (sn_sent s') = 3 \<and>
    sn_bytes s' = 1000 \<and> tcp_seqno (pk_tcp (last (sn_sent s'))) = 0 \<and>
    (\<exists>(l, r) \<in> set (tcp_sack_area (pk_tcp (last (sn_sent s')))). 200 \<in> {l..<r})"
proof -
  let ?ps = "[(1 :: time, sample_data 2 0), (2, sample_data 0 0), (3, sample_data 200 0)]"
  have k: "sn_sacker sample_sink = Some (sacker_configure 3)" "sk_base_nblocks (sacker_configure 3) = 3"
    by (simp_all add: sample_sink_def sacker_configure_def NSA_def)
  have v: "\<forall>(t, p) \<in> set ?ps. valid_packet (\<lambda>_. 1000) sample_sink p" by (simp add: sample_valid)
  have "\<forall>i. 0 < (\<lambda>_. 1000 :: int) (i :: int)" by simp
  from sink_acknowledges_received [OF sample_fresh this v] obtain s' n R where
    R: "R = (\<lambda>(t, p). tcp_seqno (pk_tcp p)) ` set ?ps" and s: "sink_run ?ps sample_sink = Inr s'" "length (sn_sent s') = length ?ps"
      "0 \<le> n" "{0..<n} \<subseteq> R" "n \<notin> R" "sn_bytes s' = (\<Sum>i \<in> {0..<n}. 1000)"
      "?ps \<noteq> [] \<longrightarrow> tcp_seqno (pk_tcp (last (sn_sent s'))) = n - 1"
      "\<forall>k. ?ps \<noteq> [] \<and> sn_sacker sample_sink = Some k \<and> 2 \<le> sk_base_nblocks k \<and> n - 1 < tcp_seqno (pk_tcp (snd (last ?ps))) \<longrightarrow>
        (\<exists>(l, r) \<in> set (tcp_sack_area (pk_tcp (last (sn_sent s')))). tcp_seqno (pk_tcp (snd (last ?ps))) \<in> {l..<r})"
    by (elim exE conjE) (rule that; assumption)
  have r: "R = {2, 0, 200}" unfolding R by simp
  have "1 \<notin> R" unfolding r by simp
  then have "1 \<notin> {0..<n}" using s(4) by blast
  then have n: "n = 1" using s(3,5) unfolding r by auto
  from spec [OF s(8), of "sacker_configure 3"] k n have "\<exists>(l, r) \<in> set (tcp_sack_area (pk_tcp (last (sn_sent s')))). 200 \<in> {l..<r}" by simp
  with s(1,2,6,7) n show ?thesis by (intro exI [of _ s']) (simp del: sink_run.simps)
qed

section \<open>Delayed acknowledgements\<close>

text \<open>An input is a packet or the expiry of the delay timer, which happens only while the timer is pending.\<close>

definition delack_step :: "time \<Rightarrow> packet option \<Rightarrow> sink \<Rightarrow> sink res" where
  "delack_step now i s =
     (case i of
        Some p \<Rightarrow> delack_recv now p s
      | None \<Rightarrow> if tm_status (sn_timer s) = PENDING then delack_expire now s else Inr s)"

fun delack_run :: "(time \<times> packet option) list \<Rightarrow> sink \<Rightarrow> sink res" where
  "delack_run [] s = Inr s"
| "delack_run ((t, i) # xs) s = res_bind (delack_step t i s) (delack_run xs)"

fun data_of :: "(time \<times> packet option) list \<Rightarrow> packet list" where
  "data_of [] = []"
| "data_of ((t, Some p) # xs) = p # data_of xs"
| "data_of ((t, None) # xs) = data_of xs"

text \<open>The timer runs exactly while an acknowledgement is delayed; otherwise the last acknowledgement is for all that has been received; and there is
  at least one for every two packets.\<close>

definition delack_inv :: "(int \<Rightarrow> int) \<Rightarrow> int set \<Rightarrow> nat \<Rightarrow> sink \<Rightarrow> bool" where
  "delack_inv sz R n s \<longleftrightarrow> sink_inv sz R s \<and> sn_bytes s = (\<Sum>i \<in> {0..<ak_next (sn_acker s)}. sz i) \<and>
     (case sn_save s of
        None \<Rightarrow> tm_status (sn_timer s) = IDLE \<and> (R \<noteq> {} \<longrightarrow> sn_sent s \<noteq> [] \<and> acknowledges R (last (sn_sent s))) \<and> n \<le> 2 * length (sn_sent s)
      | Some p \<Rightarrow> tm_status (sn_timer s) = PENDING \<and> seq_of p \<in> R \<and> 0 \<le> seq_of p \<and> n \<le> 2 * length (sn_sent s) + 1)"

lemma delack_ack_ok:
  assumes i: "sink_inv sz R s" and p: "0 \<le> seq_of p" "seq_of p \<in> R" and b: "sn_bytes s = (\<Sum>i \<in> {0..<ak_next (sn_acker s)}. sz i)"
    and n: "n \<le> 2 * length (sn_sent s) + 2" and t: "timer_handle_end (sn_timer s) = t" "tm_status t = IDLE"
  shows "\<exists>s1. sink_ack now p s = Inr s1 \<and> delack_inv sz R n (s1\<lparr>sn_save := None, sn_timer := t\<rparr>) \<and> sn_timer s1 = sn_timer s \<and>
    sn_lastreset s1 = sn_lastreset s \<and> answers now R s (s1\<lparr>sn_save := None, sn_timer := t\<rparr>)"
proof -
  from sink_ack_ok [OF i p, of now] obtain q s1 where
    1: "sink_ack now p s = Inr s1" "sink_inv sz R s1" "sn_sent s1 = sn_sent s @ [q]" "acknowledges R q" "sn_bytes s1 = sn_bytes s"
      "sn_timer s1 = sn_timer s" "sn_lastreset s1 = sn_lastreset s" "ak_next (sn_acker s1) = ak_next (sn_acker s)"
      "tcp_ts (pk_tcp q) = now" by blast
  have "sink_inv sz R (s1\<lparr>sn_save := None, sn_timer := t\<rparr>)" using 1(2) by (simp add: sink_inv_def sacks_ok_def)
  with 1 b n t(2) show ?thesis by (simp add: delack_inv_def answers_def)
qed

lemma delack_recv_ok:
  assumes i: "delack_inv sz R n s" and v: "valid_packet sz s p"
  shows "\<exists>s'. delack_recv now p s = Inr s' \<and> delack_inv sz (insert (seq_of p) R) (Suc n) s' \<and> sn_lastreset s' = sn_lastreset s \<and>
    answers now (insert (seq_of p) R) s s'"
proof -
  let ?R = "insert (seq_of p) R"
  have p: "0 \<le> seq_of p" "pk_size p = sz (seq_of p)" "sn_lastreset s \<le> tcp_ts (pk_tcp p)" using v by (simp_all add: valid_packet_def)
  have si: "sink_inv sz R s" and b: "sn_bytes s = (\<Sum>i \<in> {0..<ak_next (sn_acker s)}. sz i)" using i by (simp_all add: delack_inv_def)
  from sink_accept_ok [OF si p(1,2)] obtain s1 where
    1: "sink_accept p s = Inr s1" "sink_inv sz ?R s1" "sn_sent s1 = sn_sent s"
      "sn_bytes s1 = sn_bytes s + (\<Sum>i \<in> {ak_next (sn_acker s)..<ak_next (sn_acker s1)}. sz i)" "ak_next (sn_acker s) \<le> ak_next (sn_acker s1)"
      "sn_timer s1 = sn_timer s" "sn_lastreset s1 = sn_lastreset s" "sn_save s1 = sn_save s" by blast
  have "0 \<le> ak_next (sn_acker s)" using si by (auto simp: sink_inv_def acker_inv_def window_ok_def)
  then have b1: "sn_bytes s1 = (\<Sum>i \<in> {0..<ak_next (sn_acker s1)}. sz i)" using sum_split_at [OF _ 1(5), of sz] b 1(4) by simp
  let ?delay = "tm_status (sn_timer s1) \<noteq> PENDING \<and> seq_of p = Seqno (sn_acker s1) \<and>
    \<not> (sn_RFC2581_immediate_ack s1 \<and> seq_of p < ak_maxseen (sn_acker s1))"
  show ?thesis
  proof (cases ?delay)
    case True
    let ?s = "s1\<lparr>sn_save := Some p, sn_timer := timer_resched now (sn_interval s1) (sn_timer s1)\<rparr>"
    have "delack_recv now p s = Inr ?s" using True 1(1) p(3) by (auto simp: delack_recv_def)
    moreover have "n \<le> 2 * length (sn_sent s)" using i True 1(6) by (auto simp: delack_inv_def split: option.splits)
    then have "delack_inv sz ?R (Suc n) ?s"
      using 1(2,3) b1 p(1) by (simp add: delack_inv_def sink_inv_def sacks_ok_def timer_resched_def)
    moreover have "answers now ?R s ?s" using 1(3,7) by (simp add: answers_def timer_resched_def)
    ultimately show ?thesis using 1(7) by simp
  next
    case False
    define s2 where "s2 = s1\<lparr>sn_timer := (sn_timer s1)\<lparr>tm_status := IDLE\<rparr>\<rparr>"
    have st: "tm_status (sn_timer s1) \<in> {IDLE, PENDING}" using i 1(6) by (auto simp: delack_inv_def split: option.splits)
    then have c: "delack_cancel now s1 = Inr s2" by (auto simp: delack_cancel_def s2_def)
    have n: "Suc n \<le> 2 * length (sn_sent s2) + 2" using i 1(3) by (auto simp: delack_inv_def s2_def split: option.splits)
    have "sink_inv sz ?R s2" using 1(2) by (simp add: s2_def sink_inv_def sacks_ok_def)
    from delack_ack_ok [OF this p(1) _ _ n refl, of now] b1 obtain s3 where
      3: "sink_ack now p s2 = Inr s3" "delack_inv sz ?R (Suc n) (s3\<lparr>sn_save := None, sn_timer := timer_handle_end (sn_timer s2)\<rparr>)"
        "sn_timer s3 = sn_timer s2" "sn_lastreset s3 = sn_lastreset s2"
        "answers now ?R s2 (s3\<lparr>sn_save := None, sn_timer := timer_handle_end (sn_timer s2)\<rparr>)" by (auto simp: s2_def timer_handle_end_def)
    have e: "s3\<lparr>sn_save := None, sn_timer := timer_handle_end (sn_timer s2)\<rparr> = s3\<lparr>sn_save := None\<rparr>"
      using 3(3) by (cases s3) (simp add: s2_def timer_handle_end_def)
    have "delack_recv now p s = Inr (s3\<lparr>sn_save := None\<rparr>)"
      unfolding delack_recv_def using p(3) 1(1) c 3(1) False by (simp only: if_False not_less res_bind_simps simp_thms) simp
    moreover have "answers now ?R s (s3\<lparr>sn_save := None\<rparr>)" using 3(5) [unfolded e] 1(3,7) by (simp add: s2_def answers_def)
    ultimately show ?thesis using 3(2,4) 1(7) e by (simp add: s2_def)
  qed
qed

lemma delack_expire_ok:
  assumes i: "delack_inv sz R n s" and t: "tm_status (sn_timer s) = PENDING"
  shows "\<exists>s'. delack_expire now s = Inr s' \<and> delack_inv sz R n s' \<and> sn_save s' = None \<and> sn_lastreset s' = sn_lastreset s \<and>
    answers now R s s'"
proof -
  from i t obtain p where p: "sn_save s = Some p" "seq_of p \<in> R" "0 \<le> seq_of p" "n \<le> 2 * length (sn_sent s) + 1"
    by (auto simp: delack_inv_def split: option.splits)
  let ?s = "s\<lparr>sn_timer := (sn_timer s)\<lparr>tm_status := HANDLING\<rparr>\<rparr>"
  have "sink_inv sz R ?s" using i by (simp add: delack_inv_def sink_inv_def sacks_ok_def)
  moreover have "sn_bytes ?s = (\<Sum>i \<in> {0..<ak_next (sn_acker ?s)}. sz i)" "n \<le> 2 * length (sn_sent ?s) + 2"
    "tm_status (timer_handle_end (sn_timer ?s)) = IDLE" using i p(4) by (simp_all add: delack_inv_def timer_handle_end_def)
  ultimately obtain s1 where
    1: "sink_ack now p ?s = Inr s1" "delack_inv sz R n (s1\<lparr>sn_save := None, sn_timer := timer_handle_end (sn_timer ?s)\<rparr>)"
      "sn_timer s1 = sn_timer ?s" "sn_lastreset s1 = sn_lastreset ?s"
      "answers now R ?s (s1\<lparr>sn_save := None, sn_timer := timer_handle_end (sn_timer ?s)\<rparr>)" using delack_ack_ok [OF _ p(3,2) _ _ refl, of sz ?s n now] by blast
  have "delack_expire now s = Inr (s1\<lparr>sn_save := None, sn_timer := timer_handle_end (sn_timer ?s)\<rparr>)"
    using t p(1) 1(1,3) by (simp add: delack_expire_def timer_handle_begin_def delack_timeout_def)
  with 1(2,4,5) show ?thesis by (simp add: answers_def)
qed

lemma delack_run_ok:
  "delack_inv sz R n s \<Longrightarrow> \<forall>p \<in> set (data_of xs). valid_packet sz s p \<Longrightarrow>
   \<exists>s'. delack_run xs s = Inr s' \<and> delack_inv sz (R \<union> seq_of ` set (data_of xs)) (n + length (data_of xs)) s' \<and> sn_lastreset s' = sn_lastreset s"
proof (induction xs arbitrary: R n s)
  case (Cons x xs)
  obtain t i where x: "x = (t, i)" by (cases x)
  show ?case
  proof (cases i)
    case None
    have "\<exists>s1. delack_step t i s = Inr s1 \<and> delack_inv sz R n s1 \<and> sn_lastreset s1 = sn_lastreset s"
      using delack_expire_ok [OF Cons.prems(1), of t] Cons.prems(1) None by (auto simp: delack_step_def)
    then obtain s1 where 1: "delack_step t i s = Inr s1" "delack_inv sz R n s1" "sn_lastreset s1 = sn_lastreset s" by blast
    have "\<forall>p \<in> set (data_of xs). valid_packet sz s1 p" using Cons.prems(2) x None 1(3) by (simp add: valid_packet_def)
    from Cons.IH [OF 1(2) this] 1(1,3) x None show ?thesis by simp
  next
    case (Some p)
    from delack_recv_ok [OF Cons.prems(1), of p t] Cons.prems(2) x Some obtain s1 where
      1: "delack_step t i s = Inr s1" "delack_inv sz (insert (seq_of p) R) (Suc n) s1" "sn_lastreset s1 = sn_lastreset s"
      by (auto simp: delack_step_def)
    have "\<forall>p \<in> set (data_of xs). valid_packet sz s1 p" using Cons.prems(2) x Some 1(3) by (simp add: valid_packet_def)
    from Cons.IH [OF 1(2) this] 1(1,3) x Some show ?thesis by simp
  qed
qed simp

lemma delack_run_append: "delack_run (xs @ ys) s = res_bind (delack_run xs s) (delack_run ys)"
proof (induction xs arbitrary: s)
  case (Cons x xs)
  obtain t i where x: "x = (t, i)" by (cases x)
  show ?case using Cons.IH unfolding x by (cases "delack_step t i s") simp_all
qed simp

text \<open>C16: a sink that delays acknowledgements (\<open>DelAckSink\<close>) receives any sequence of packets, interleaved in any way with the expiry of its
  timer. Nothing fails: the timer is cancelled only while it is pending, and it is pending exactly while an acknowledgement is delayed. At least every
  second packet is acknowledged, and once the timer expires, if it was running, the last acknowledgement is for all that has been received: it names
  the last packet before the first missing one, and nothing is held back. Blocks of selective acknowledgement hold received packets only.\<close>

theorem delack_acknowledges_at_last:
  assumes "fresh_sink s" "\<forall>i. 0 < sz i" "\<forall>p \<in> set (data_of xs). valid_packet sz s p"
  shows "\<exists>s' s'' R. R = (\<lambda>p. tcp_seqno (pk_tcp p)) ` set (data_of xs) \<and> delack_run xs s = Inr s' \<and>
    (sn_save s' \<noteq> None \<longleftrightarrow> tm_status (sn_timer s') = PENDING) \<and> length (data_of xs) \<le> 2 * length (sn_sent s') + 1 \<and>
    delack_run (xs @ [(t, None)]) s = Inr s'' \<and> sn_save s'' = None \<and> tm_status (sn_timer s'') = IDLE \<and>
    length (data_of xs) \<le> 2 * length (sn_sent s'') \<and> (\<forall>q \<in> set (sn_sent s''). \<forall>(l, r) \<in> set (tcp_sack_area (pk_tcp q)). {l..<r} \<subseteq> R) \<and>
    (R \<noteq> {} \<longrightarrow> (\<exists>n. tcp_seqno (pk_tcp (last (sn_sent s''))) = n \<and> - 1 \<le> n \<and> {0..n} \<subseteq> R \<and> n + 1 \<notin> R))"
proof -
  define R where "R = seq_of ` set (data_of xs)"
  from fresh_sink_inv [OF assms(1,2)] have "delack_inv sz {} 0 s"
    using assms(1) by (simp add: delack_inv_def fresh_sink_def timer_init_def)
  from delack_run_ok [OF this assms(3)] obtain s' where
    1: "delack_run xs s = Inr s'" "delack_inv sz R (length (data_of xs)) s'" by (auto simp: R_def)
  have "\<exists>s''. delack_step t None s' = Inr s'' \<and> delack_inv sz R (length (data_of xs)) s'' \<and> sn_save s'' = None"
  proof (cases "tm_status (sn_timer s') = PENDING")
    case True
    with delack_expire_ok [OF 1(2) True, of t] show ?thesis by (auto simp: delack_step_def)
  next
    case False
    with 1(2) show ?thesis by (auto simp: delack_step_def delack_inv_def split: option.splits)
  qed
  then obtain s'' where 2: "delack_step t None s' = Inr s''" "delack_inv sz R (length (data_of xs)) s''" "sn_save s'' = None" by blast
  have "delack_run (xs @ [(t, None)]) s = Inr s''" using 1(1) 2(1) by (simp add: delack_run_append)
  moreover have "(sn_save s' \<noteq> None \<longleftrightarrow> tm_status (sn_timer s') = PENDING) \<and> length (data_of xs) \<le> 2 * length (sn_sent s') + 1"
    using 1(2) by (auto simp: delack_inv_def split: option.splits)
  moreover have "tm_status (sn_timer s'') = IDLE" "length (data_of xs) \<le> 2 * length (sn_sent s'')" "R \<noteq> {} \<longrightarrow> acknowledges R (last (sn_sent s''))"
    "sink_inv sz R s''" using 2(2,3) by (simp_all add: delack_inv_def)
  moreover from this(4) have "\<forall>q \<in> set (sn_sent s''). \<forall>(l, r) \<in> set (tcp_sack_area (pk_tcp q)). {l..<r} \<subseteq> R"
    unfolding sink_inv_def blocks_ok_def case_prod_unfold by blast
  ultimately show ?thesis using 1(1) 2(3)
    by (intro exI [of _ s'] exI [of _ s''] exI [of _ R]) (simp add: R_def acknowledges_def)
qed

theorem delack_acknowledges_at_last_witness:
  "\<exists>s''. delack_run ([(1, Some (sample_data 0 0)), (2, Some (sample_data 1 0)), (3, Some (sample_data 2 0))] @ [(4, None)]) sample_sink = Inr s'' \<and>
    sn_save s'' = None \<and> 2 \<le> length (sn_sent s'') \<and> tcp_seqno (pk_tcp (last (sn_sent s''))) = 2"
proof -
  let ?xs = "[(1 :: time, Some (sample_data 0 0)), (2, Some (sample_data 1 0)), (3, Some (sample_data 2 0))]"
  have v: "\<forall>p \<in> set (data_of ?xs). valid_packet (\<lambda>_. 1000) sample_sink p" by (simp add: sample_valid)
  have "\<forall>i. 0 < (\<lambda>_. 1000 :: int) (i :: int)" by simp
  from delack_acknowledges_at_last [OF sample_fresh this v, of 4] obtain s'' R where
    R: "R = (\<lambda>p. tcp_seqno (pk_tcp p)) ` set (data_of ?xs)" and s: "delack_run (?xs @ [(4, None)]) sample_sink = Inr s''" "sn_save s'' = None"
      "length (data_of ?xs) \<le> 2 * length (sn_sent s'')"
      "R \<noteq> {} \<longrightarrow> (\<exists>n. tcp_seqno (pk_tcp (last (sn_sent s''))) = n \<and> - 1 \<le> n \<and> {0..n} \<subseteq> R \<and> n + 1 \<notin> R)"
    by (elim exE conjE) (rule that; assumption)
  have r: "R = {0, 1, 2}" unfolding R by simp
  then obtain n where n: "tcp_seqno (pk_tcp (last (sn_sent s''))) = n" "- 1 \<le> n" "{0..n} \<subseteq> R" "n + 1 \<notin> R" using s(4) by blast
  have "3 \<notin> R" unfolding r by simp
  then have "3 \<notin> {0..n}" using n(3) by blast
  then have "n = 2" using n(2,4) unfolding r by auto
  moreover have "2 \<le> length (sn_sent s'')" using s(3) by simp
  ultimately show ?thesis using s(1,2) n(1) by blast
qed


end
