(* ===== verification/TcpTransfer.thy ===== *)
theory TcpTransfer
  imports TcpSenderOps TcpSink
begin

text \<open>
  A one-way TCP connection: a sender of \<open>TcpSender\<close> and a sink of \<open>TcpSink\<close>, joined by a network that may lose, repeat, delay and reorder
  packets and acknowledgements at will. A step is one event of the simulator: a command of the application, the expiry of a timer, or the arrival of
  some packet or acknowledgement that was sent before. What the sender relies on is the locale \<open>receiver\<close>, which both classes of sinks implement.
\<close>

section \<open>Sinks behind one interface\<close>

text \<open>The virtual functions of the sinks. A \<open>TcpSink\<close> has no timer.\<close>

datatype sink_class = PlainSink | DelayingSink

fun virtual_recv :: "sink_class \<Rightarrow> time \<Rightarrow> packet \<Rightarrow> sink \<Rightarrow> sink res" where
  "virtual_recv PlainSink = sink_recv"
| "virtual_recv DelayingSink = delack_recv"

fun virtual_expire :: "sink_class \<Rightarrow> time \<Rightarrow> sink \<Rightarrow> sink res" where
  "virtual_expire PlainSink now s = Inr s"
| "virtual_expire DelayingSink now s = delack_expire now s"

fun virtual_inv :: "sink_class \<Rightarrow> (int \<Rightarrow> int) \<Rightarrow> int set \<Rightarrow> sink \<Rightarrow> bool" where
  "virtual_inv PlainSink sz R s \<longleftrightarrow>
     sink_inv sz R s \<and> sn_bytes s = (\<Sum>i \<in> {0..<ak_next (sn_acker s)}. sz i) \<and> tm_status (sn_timer s) = IDLE"
| "virtual_inv DelayingSink sz R s \<longleftrightarrow> (\<exists>n. delack_inv sz R n s)"

text \<open>The promises of a receiver, for the packets \<open>R\<close> that have arrived.\<close>

locale receiver =
  fixes recv :: "time \<Rightarrow> packet \<Rightarrow> sink \<Rightarrow> sink res"
    and expire :: "time \<Rightarrow> sink \<Rightarrow> sink res"
    and I :: "(int \<Rightarrow> int) \<Rightarrow> int set \<Rightarrow> sink \<Rightarrow> bool"
  assumes fresh: "fresh_sink s \<Longrightarrow> \<forall>i. 0 < sz i \<Longrightarrow> I sz {} s"
    and recv_answers: "I sz R s \<Longrightarrow> valid_packet sz s p \<Longrightarrow>
      \<exists>s'. recv now p s = Inr s' \<and> I sz (insert (seq_of p) R) s' \<and> answers now (insert (seq_of p) R) s s'"
    and expire_answers: "I sz R s \<Longrightarrow> tm_status (sn_timer s) = PENDING \<Longrightarrow>
      \<exists>s'. expire now s = Inr s' \<and> I sz R s' \<and> answers now R s s' \<and> tm_status (sn_timer s') = IDLE"
    and in_order: "I sz R s \<Longrightarrow> 0 \<le> ak_next (sn_acker s) \<and> {0..<ak_next (sn_acker s)} \<subseteq> R \<and> ak_next (sn_acker s) \<notin> R \<and>
      sn_bytes s = (\<Sum>i \<in> {0..<ak_next (sn_acker s)}. sz i)"

lemma sink_inv_in_order:
  "sink_inv sz R s \<Longrightarrow> 0 \<le> ak_next (sn_acker s) \<and> {0..<ak_next (sn_acker s)} \<subseteq> R \<and> ak_next (sn_acker s) \<notin> R"
  by (auto simp: sink_inv_def acker_inv_def window_ok_def)

interpretation sink: receiver "virtual_recv k" "virtual_expire k" "virtual_inv k" for k
proof
  fix sz :: "int \<Rightarrow> int" and s assume "fresh_sink s" "\<forall>i. 0 < sz i"
  then show "virtual_inv k sz {} s"
    using fresh_sink_inv [of s sz] by (cases k) (auto simp: delack_inv_def fresh_sink_def timer_init_def)
next
  fix sz R s p now assume i: "virtual_inv k sz R s" and v: "valid_packet sz s p"
  show "\<exists>s'. virtual_recv k now p s = Inr s' \<and> virtual_inv k sz (insert (seq_of p) R) s' \<and> answers now (insert (seq_of p) R) s s'"
  proof (cases k)
    case PlainSink
    from i PlainSink have "sink_inv sz R s" "sn_bytes s = (\<Sum>i \<in> {0..<ak_next (sn_acker s)}. sz i)" "tm_status (sn_timer s) = IDLE" by simp_all
    with sink_recv_ok [OF _ v, of R now] show ?thesis unfolding PlainSink answers_def by fastforce
  next
    case DelayingSink
    with i obtain n where "delack_inv sz R n s" by auto
    from delack_recv_ok [OF this v, of now] show ?thesis unfolding DelayingSink by auto
  qed
next
  fix sz R s now assume i: "virtual_inv k sz R s" and t: "tm_status (sn_timer s) = PENDING"
  from i t have k: "k = DelayingSink" by (cases k) simp_all
  with i obtain n where "delack_inv sz R n s" by auto
  from delack_expire_ok [OF this t, of now] obtain s' where
    "delack_expire now s = Inr s'" "delack_inv sz R n s'" "sn_save s' = None" "answers now R s s'" by blast
  then show "\<exists>s'. virtual_expire k now s = Inr s' \<and> virtual_inv k sz R s' \<and> answers now R s s' \<and> tm_status (sn_timer s') = IDLE"
    unfolding k by (auto simp: delack_inv_def)
next
  fix sz R s assume "virtual_inv k sz R s"
  then show "0 \<le> ak_next (sn_acker s) \<and> {0..<ak_next (sn_acker s)} \<subseteq> R \<and> ak_next (sn_acker s) \<notin> R \<and>
      sn_bytes s = (\<Sum>i \<in> {0..<ak_next (sn_acker s)}. sz i)"
    using sink_inv_in_order by (cases k) (auto simp: delack_inv_def)
qed

section \<open>The connection\<close>

text \<open>\<open>tf_arrived\<close> records the packets that have arrived at the sink.\<close>

record transfer =
  tf_sender :: sender
  tf_sink :: sink
  tf_arrived :: "packet list"

datatype transfer_event =
  AppSend int | AppAdvanceBy int | AppAdvance int | RtxExpires | DelsndExpires | SinkExpires | DataArrives packet | AckArrives packet

definition at_time :: "time \<Rightarrow> sender \<Rightarrow> sender" where
  "at_time now = on_tcp (\<lambda>a. a\<lparr>tc_now := now\<rparr>)"

definition data_sent :: "transfer \<Rightarrow> packet list" where
  "data_sent x = sent_in (tc_log (sd_tcp (tf_sender x)))"

fun transfer_enabled :: "transfer_event \<Rightarrow> transfer \<Rightarrow> bool" where
  "transfer_enabled RtxExpires x = (tm_status (tc_rtx_timer (sd_tcp (tf_sender x))) = PENDING)"
| "transfer_enabled DelsndExpires x = (tm_status (tc_delsnd_timer (sd_tcp (tf_sender x))) = PENDING)"
| "transfer_enabled SinkExpires x = (tm_status (sn_timer (tf_sink x)) = PENDING)"
| "transfer_enabled (DataArrives p) x = (p \<in> set (data_sent x))"
| "transfer_enabled (AckArrives q) x = (q \<in> set (sn_sent (tf_sink x)))"
| "transfer_enabled _ x = True"

definition sender_steps :: "(sender \<Rightarrow> sender res) \<Rightarrow> transfer \<Rightarrow> transfer res" where
  "sender_steps f x = res_bind (f (tf_sender x)) (\<lambda>s. Inr (x\<lparr>tf_sender := s\<rparr>))"

definition sink_steps :: "(sink \<Rightarrow> sink res) \<Rightarrow> transfer \<Rightarrow> transfer res" where
  "sink_steps f x = res_bind (f (tf_sink x)) (\<lambda>s. Inr (x\<lparr>tf_sink := s\<rparr>))"

fun transfer_event_step ::
  "(time \<Rightarrow> packet \<Rightarrow> sink \<Rightarrow> sink res) \<Rightarrow> (time \<Rightarrow> sink \<Rightarrow> sink res) \<Rightarrow> time \<Rightarrow> transfer_event \<Rightarrow> transfer \<Rightarrow> transfer res" where
  "transfer_event_step recv expire now (AppSend n) x = sender_steps (ow_sendmsg n) x"
| "transfer_event_step recv expire now (AppAdvanceBy n) x = sender_steps (ow_advanceby n) x"
| "transfer_event_step recv expire now (AppAdvance n) x = sender_steps (ow_advance n) x"
| "transfer_event_step recv expire now RtxExpires x = sender_steps ow_expire_rtx x"
| "transfer_event_step recv expire now DelsndExpires x = sender_steps ow_expire_delsnd x"
| "transfer_event_step recv expire now SinkExpires x = sink_steps (expire now) x"
| "transfer_event_step recv expire now (DataArrives p) x = sink_steps (recv now p) (x\<lparr>tf_arrived := tf_arrived x @ [p]\<rparr>)"
| "transfer_event_step recv expire now (AckArrives q) x = sender_steps (ow_recv q) x"

definition transfer_step ::
  "(time \<Rightarrow> packet \<Rightarrow> sink \<Rightarrow> sink res) \<Rightarrow> (time \<Rightarrow> sink \<Rightarrow> sink res) \<Rightarrow> time \<Rightarrow> transfer_event \<Rightarrow> transfer \<Rightarrow> transfer res" where
  "transfer_step recv expire now e x = transfer_event_step recv expire now e (x\<lparr>tf_sender := at_time now (tf_sender x)\<rparr>)"

definition clock :: "transfer \<Rightarrow> time" where
  "clock x = tc_now (sd_tcp (tf_sender x))"

text \<open>The states a connection can get into: both ends are fresh, and the clock never runs backwards.\<close>

inductive transfer_reaches ::
  "(time \<Rightarrow> packet \<Rightarrow> sink \<Rightarrow> sink res) \<Rightarrow> (time \<Rightarrow> sink \<Rightarrow> sink res) \<Rightarrow> sender_cfg \<Rightarrow> full_cfg \<Rightarrow> transfer \<Rightarrow> bool"
  for recv expire c cc where
  connect: "ow_reset (new_sender eln c cc) = Inr s \<Longrightarrow> fresh_sink k \<Longrightarrow> sn_lastreset k = 0 \<Longrightarrow>
    transfer_reaches recv expire c cc \<lparr>tf_sender = s, tf_sink = k, tf_arrived = []\<rparr>"
| event: "transfer_reaches recv expire c cc x \<Longrightarrow> transfer_enabled e x \<Longrightarrow> clock x \<le> now \<Longrightarrow> transfer_step recv expire now e x = Inr x' \<Longrightarrow>
    transfer_reaches recv expire c cc x'"

section \<open>A fresh sender\<close>

text \<open>What the timeouts are computed from at first.\<close>

definition initial_ok :: "full_cfg \<Rightarrow> bool" where
  "initial_ok cc \<longleftrightarrow> 0 \<le> cf_rtxcur_init cc \<and> 0 \<le> cf_srtt_init cc \<and> 0 \<le> cf_rttvar_init cc"

definition connected :: "sender_cfg \<Rightarrow> full_cfg \<Rightarrow> sender \<Rightarrow> bool" where
  "connected c cc s \<longleftrightarrow> sender_inv s \<and> guarded (core (sd_tcp s)) \<and> sd_cfg s = c \<and> co_cfg (core (sd_tcp s)) = cc \<and> co_syn (core (sd_tcp s)) \<and>
     co_lastreset (core (sd_tcp s)) = 0"

lemma set_initial_window_ok:
  "tc_wnd_init_option a \<in> {1, 2} \<Longrightarrow> succeeds (ow_set_initial_window a) (\<lambda>b. core b = core a \<and> rtt_ok b = rtt_ok a)"
  by (auto simp: ow_set_initial_window_def initial_window_def)

lemma reset_connection_core:
  "core (reset_connection a) = (core a)\<lparr>co_t := 0, co_max := -1, co_last := -1, co_ack := -1\<rparr>" "rtt_ok (reset_connection a) = rtt_ok a"
  "tc_recover (reset_connection a) = 0"
  by (simp_all add: reset_connection_def Let_def core_def rtt_ok_def)

lemma reset_counters_core:
  "core (reset_counters a) = (core a)\<lparr>co_lastreset := co_now (core a), co_rtx := False, co_delsnd := False, co_burst := False\<rparr>"
  "rtt_ok (reset_counters a) = rtt_ok a" "tc_recover (reset_counters a) = tc_recover a"
  by (simp_all add: reset_counters_def random_uniform_def cancel_timers_def timer_force_cancel_def core_def rtt_ok_def Let_def)

lemma reset_options_core:
  "core (reset_options a) = core a" "rtt_ok (reset_options a) = rtt_ok a" "tc_recover (reset_options a) = tc_recover a"
  by (simp_all add: reset_options_def Let_def)

lemma rtt_init_ok:
  assumes "initial_ok (tc_cfg a)" "0 < cf_tcp_tick (tc_cfg a)"
  shows "core (rtt_init a) = core a" "rtt_ok (rtt_init a)" "tc_wnd_init_option (rtt_init a) = tc_wnd_init_option a"
proof -
  have "0 \<le> trunc (of_int (cf_srtt_init (tc_cfg a)) / cf_tcp_tick (tc_cfg a))" "0 \<le> trunc (of_int (cf_rttvar_init (tc_cfg a)) / cf_tcp_tick (tc_cfg a))"
    using assms by (simp_all add: trunc_nonneg initial_ok_def)
  with assms(1) show "rtt_ok (rtt_init a)" by (simp add: rtt_ok_def rtt_init_def Let_def initial_ok_def)
qed (simp_all add: rtt_init_def Let_def)

lemma new_sender_core:
  "core (sd_tcp (new_sender eln c cc)) = \<lparr>co_cfg = cc, co_syn = True, co_lastreset = 0, co_now = 0, co_minrto = 0.2, co_init_option = 1, co_sent = [],
     co_t = 0, co_cur = 0, co_max = 0, co_ack = 0, co_last = 0, co_rtx = False, co_delsnd = False, co_burst = False\<rparr>"
  "sd_cfg (new_sender eln c cc) = c" "sd_tss (new_sender eln c cc) = None" "tc_wnd_init_option (sd_tcp (new_sender eln c cc)) = 1"
  by (simp_all add: new_sender_def new_agent_def core_def timer_init_def sent_in_def)

lemma ow_reset_ok:
  assumes "sender_cfg_ok c cc" "initial_ok cc"
  shows "succeeds (ow_reset (new_sender eln c cc)) (\<lambda>s. connected c cc s \<and> co_ack (core (sd_tcp s)) = -1 \<and> co_sent (core (sd_tcp s)) = [])"
proof -
  let ?s = "new_sender eln c cc" and ?done = "\<lambda>a. reset_options (reset_counters (reset_connection a))"
  let ?a = "(rtt_init (sd_tcp ?s))\<lparr>tc_rtt_seq := -1, tc_dupacks := 0, tc_curseq := 0\<rparr>"
  have cfg: "tc_cfg (sd_tcp ?s) = cc" by (simp add: core_get new_sender_core(1))
  have a: "core ?a = core (sd_tcp ?s)" "rtt_ok ?a" "tc_wnd_init_option ?a = 1"
    using rtt_init_ok [of "sd_tcp ?s"] assms by (simp_all add: cfg sender_cfg_ok_def new_sender_core)
  have "connected c cc (?s\<lparr>sd_tcp := ?done b\<rparr>) \<and> co_ack (core (?done b)) = -1 \<and> co_sent (core (?done b)) = []"
    if "core b = core ?a \<and> rtt_ok b = rtt_ok ?a" for b
    using that a assms(1) by (simp add: connected_def sender_inv_def guarded_def core_ok_def reset_options_core reset_counters_core reset_connection_core
        new_sender_core)
  then have "succeeds (ow_set_initial_window ?a) (\<lambda>b. connected c cc (?s\<lparr>sd_tcp := ?done b\<rparr>) \<and> co_ack (core (?done b)) = -1 \<and> co_sent (core (?done b)) = [])"
    by (rule succeeds_mono [OF set_initial_window_ok, rotated]) (use a in simp_all)
  then show ?thesis by (simp add: ow_reset_def)
qed

section \<open>The invariant of a connection\<close>

text \<open>What is acknowledged, here or on the way, has arrived; what has arrived was sent.\<close>

definition transfer_inv ::
  "((int \<Rightarrow> int) \<Rightarrow> int set \<Rightarrow> sink \<Rightarrow> bool) \<Rightarrow> sender_cfg \<Rightarrow> full_cfg \<Rightarrow> transfer \<Rightarrow> bool" where
  "transfer_inv I c cc x \<longleftrightarrow> (let R = seq_of ` set (tf_arrived x) in
     connected c cc (tf_sender x) \<and> I (wire_size c cc True) R (tf_sink x) \<and> sn_lastreset (tf_sink x) = 0 \<and>
     set (tf_arrived x) \<subseteq> set (data_sent x) \<and> {0..tc_highest_ack (sd_tcp (tf_sender x))} \<subseteq> R \<and>
     (\<forall>q \<in> set (sn_sent (tf_sink x)). {0..seq_of q} \<subseteq> R \<and> 0 \<le> tcp_ts (pk_tcp q)))"

lemma data_sent_core: "data_sent x = co_sent (core (sd_tcp (tf_sender x)))"
  by (simp add: data_sent_def core_get)

text \<open>The sender moves: it must not take more as acknowledged than has arrived.\<close>

lemma sender_moves:
  assumes "transfer_inv I c cc x" "follows (tf_sender x) s'" "guarded (core (sd_tcp s'))"
    "{0..co_ack (core (sd_tcp s'))} \<subseteq> seq_of ` set (tf_arrived x)"
  shows "transfer_inv I c cc (x\<lparr>tf_sender := s'\<rparr>)"
  using assms unfolding transfer_inv_def connected_def Let_def data_sent_core follows_def grows_def
  by (auto simp: core_get)

lemma sender_keeps:
  assumes "transfer_inv I c cc x" "keeps (tf_sender x) s'"
  shows "transfer_inv I c cc (x\<lparr>tf_sender := s'\<rparr>)"
  by (rule sender_moves [OF assms(1)]) (use assms in \<open>auto simp: keeps_def transfer_inv_def Let_def connected_def core_get\<close>)

lemma sender_steps_keeps:
  assumes "transfer_inv I c cc x" "succeeds (f (tf_sender x)) (keeps (tf_sender x))"
  shows "succeeds (sender_steps f x) (transfer_inv I c cc)"
  unfolding sender_steps_def succeeds_simps by (rule succeeds_mono [OF assms(2)]) (rule sender_keeps [OF assms(1)])

lemma at_time_core [simp]:
  "core (sd_tcp (at_time now s)) = (core (sd_tcp s))\<lparr>co_now := now\<rparr>" "sd_cfg (at_time now s) = sd_cfg s" "sd_tss (at_time now s) = sd_tss s"
  "rtt_ok (sd_tcp (at_time now s)) = rtt_ok (sd_tcp s)" "tc_recover (sd_tcp (at_time now s)) = tc_recover (sd_tcp s)"
  by (simp_all add: at_time_def on_tcp_def core_def rtt_ok_def)

lemma time_passes:
  assumes "transfer_inv I c cc x" "clock x \<le> now"
  shows "transfer_inv I c cc (x\<lparr>tf_sender := at_time now (tf_sender x)\<rparr>)"
proof -
  have "0 \<le> clock x" using assms(1) by (simp add: transfer_inv_def Let_def connected_def sender_inv_def core_ok_def clock_def core_get)
  with assms(2) have "0 \<le> now" by simp
  with assms(1) show ?thesis
    by (auto simp: transfer_inv_def Let_def connected_def data_sent_core sender_inv_def core_ok_def guarded_def core_get)
qed

lemma in_prefix:
  assumes "{0..n} \<subseteq> R" "R \<subseteq> {0..m}" "-1 \<le> m"
  shows "n \<le> (m :: int)"
proof (cases "0 \<le> n")
  case True
  then have "n \<in> {0..n}" by simp
  with assms show ?thesis by fastforce
qed (use assms in simp)

lemma next_missing:
  assumes "{0..h} \<subseteq> R" "h + 1 \<in> R" "n + 1 \<notin> R" "-1 \<le> (n :: int)"
  shows "h < n"
proof (rule ccontr)
  assume "\<not> h < n"
  then have "n + 1 = h + 1 \<or> n + 1 \<in> {0..h}" using assms(4) by auto
  with assms(1-3) show False by auto
qed

lemma arrived_bound:
  assumes "transfer_inv I c cc x"
  shows "seq_of ` set (tf_arrived x) \<subseteq> {0..tc_maxseq (sd_tcp (tf_sender x))}" "-1 \<le> tc_maxseq (sd_tcp (tf_sender x))"
  using assms by (auto simp: transfer_inv_def Let_def connected_def sender_inv_def core_ok_def data_ok_def data_sent_core core_get)

lemma ack_arrives:
  assumes i: "transfer_inv I c cc x" and q: "q \<in> set (sn_sent (tf_sink x))"
  shows "succeeds (ow_recv q (tf_sender x)) (\<lambda>s'. transfer_inv I c cc (x\<lparr>tf_sender := s'\<rparr>) \<and>
    tc_highest_ack (sd_tcp s') = max (tc_highest_ack (sd_tcp (tf_sender x))) (seq_of q))"
proof -
  let ?s = "tf_sender x" and ?R = "seq_of ` set (tf_arrived x)"
  have s: "sender_inv ?s" "tc_lastreset (sd_tcp ?s) = 0" "{0..tc_highest_ack (sd_tcp ?s)} \<subseteq> ?R" "guarded (core (sd_tcp ?s))"
    and a: "{0..seq_of q} \<subseteq> ?R" "0 \<le> tcp_ts (pk_tcp q)"
    using i q by (auto simp: transfer_inv_def Let_def connected_def core_get)
  have "seq_of q \<le> co_max (core (sd_tcp ?s))" using in_prefix [OF a(1) arrived_bound [OF i]] by (simp add: core_get)
  from ow_recv_ok [OF s(1) this] a(2) s(2) have "succeeds (ow_recv q ?s) (acks (seq_of q) ?s)" by simp
  then show ?thesis
  proof (rule succeeds_mono)
    fix s' assume k: "acks (seq_of q) ?s s'"
    then have "{0..co_ack (core (sd_tcp s'))} \<subseteq> ?R" using s(3) a(1) by (simp add: acks_def core_get max_def)
    with k s(4) show "transfer_inv I c cc (x\<lparr>tf_sender := s'\<rparr>) \<and> tc_highest_ack (sd_tcp s') = max (tc_highest_ack (sd_tcp ?s)) (seq_of q)"
      using sender_moves [OF i, of s'] by (simp add: acks_def core_get)
  qed
qed

lemma sent_valid:
  assumes "transfer_inv I c cc x" "p \<in> set (data_sent x)"
  shows "valid_packet (wire_size c cc True) (tf_sink x) p"
  using assms by (auto simp: transfer_inv_def Let_def connected_def sender_inv_def core_ok_def data_ok_def data_sent_core valid_packet_def)

text \<open>The sink moves.\<close>

lemma sink_moves:
  assumes i: "transfer_inv I c cc x" and R: "R = seq_of ` set ps" "set (tf_arrived x) \<subseteq> set ps" "set ps \<subseteq> set (data_sent x)"
    and s: "I (wire_size c cc True) R s'" "answers now R (tf_sink x) s'" and t: "0 \<le> now"
  shows "transfer_inv I c cc (x\<lparr>tf_arrived := ps, tf_sink := s'\<rparr>)"
proof -
  have m: "seq_of ` set (tf_arrived x) \<subseteq> R" using R by auto
  obtain qs where q: "sn_sent s' = sn_sent (tf_sink x) @ qs" "\<forall>q \<in> set qs. acknowledges R q \<and> tcp_ts (pk_tcp q) = now"
    using s(2) by (auto simp: answers_def)
  have "\<forall>q \<in> set (sn_sent s'). {0..seq_of q} \<subseteq> R \<and> 0 \<le> tcp_ts (pk_tcp q)"
    using i q t m by (auto simp: transfer_inv_def Let_def acknowledges_def subset_iff)
  moreover have "{0..tc_highest_ack (sd_tcp (tf_sender x))} \<subseteq> R" using i m by (auto simp: transfer_inv_def Let_def)
  ultimately show ?thesis using i s R by (simp add: transfer_inv_def Let_def answers_def data_sent_def)
qed

context receiver
begin

lemma data_arrives:
  assumes i: "transfer_inv I c cc x" and p: "p \<in> set (data_sent x)" and t: "0 \<le> now"
  shows "succeeds (sink_steps (recv now p) (x\<lparr>tf_arrived := tf_arrived x @ [p]\<rparr>)) (\<lambda>x'. transfer_inv I c cc x' \<and> tf_sender x' = tf_sender x \<and>
    tf_arrived x' = tf_arrived x @ [p] \<and> answers now (seq_of ` set (tf_arrived x')) (tf_sink x) (tf_sink x'))"
proof -
  let ?R = "insert (seq_of p) (seq_of ` set (tf_arrived x))"
  have "I (wire_size c cc True) (seq_of ` set (tf_arrived x)) (tf_sink x)" using i by (simp add: transfer_inv_def Let_def)
  from recv_answers [OF this sent_valid [OF i p], of now] obtain s' where
    s: "recv now p (tf_sink x) = Inr s'" "I (wire_size c cc True) ?R s'" "answers now ?R (tf_sink x) s'" by blast
  have "set (tf_arrived x) \<subseteq> set (data_sent x)" using i by (simp add: transfer_inv_def Let_def)
  then have "transfer_inv I c cc (x\<lparr>tf_arrived := tf_arrived x @ [p], tf_sink := s'\<rparr>)"
    by (intro sink_moves [OF i _ _ _ s(2,3) t]) (use p in auto)
  then show ?thesis using s by (simp add: sink_steps_def)
qed

lemma sink_expires:
  assumes i: "transfer_inv I c cc x" and p: "tm_status (sn_timer (tf_sink x)) = PENDING" and t: "0 \<le> now"
  shows "succeeds (sink_steps (expire now) x) (\<lambda>x'. transfer_inv I c cc x' \<and> tf_sender x' = tf_sender x \<and> tf_arrived x' = tf_arrived x \<and>
    answers now (seq_of ` set (tf_arrived x)) (tf_sink x) (tf_sink x') \<and> tm_status (sn_timer (tf_sink x')) = IDLE)"
proof -
  let ?R = "seq_of ` set (tf_arrived x)"
  have "I (wire_size c cc True) ?R (tf_sink x)" using i by (simp add: transfer_inv_def Let_def)
  from expire_answers [OF this p, of now] obtain s' where
    s: "expire now (tf_sink x) = Inr s'" "I (wire_size c cc True) ?R s'" "answers now ?R (tf_sink x) s'" "tm_status (sn_timer s') = IDLE" by blast
  have "set (tf_arrived x) \<subseteq> set (data_sent x)" using i by (simp add: transfer_inv_def Let_def)
  then have "transfer_inv I c cc (x\<lparr>tf_arrived := tf_arrived x, tf_sink := s'\<rparr>)"
    by (intro sink_moves [OF i refl _ _ s(2,3) t]) simp_all
  then show ?thesis using s by (simp add: sink_steps_def)
qed

lemma event_ok:
  assumes i: "transfer_inv I c cc x" and e: "transfer_enabled e x"
  shows "succeeds (transfer_event_step recv expire (clock x) e x) (transfer_inv I c cc)"
proof -
  have s: "sender_inv (tf_sender x)" using i by (simp add: transfer_inv_def Let_def connected_def)
  then have t: "0 \<le> clock x" by (simp add: sender_inv_def core_ok_def clock_def core_get)
  note k = sender_steps_keeps [OF i]
  show ?thesis
  proof (cases e)
    case RtxExpires
    then have "succeeds (ow_expire_rtx (tf_sender x)) (keeps (tf_sender x))"
      using e by (intro succeeds_mono [OF expire_rtx_ok [OF s]]) (simp_all add: core_sel)
    with RtxExpires k show ?thesis by simp
  next
    case (AckArrives q)
    with ack_arrives [OF i, of q] e show ?thesis by (auto simp: sender_steps_def elim: succeeds_mono)
  next
    case (DataArrives p)
    with data_arrives [OF i, of p "clock x"] e t show ?thesis by (auto elim: succeeds_mono)
  next
    case SinkExpires
    with sink_expires [OF i _ t] e show ?thesis by (auto elim: succeeds_mono)
  qed (use k sendmsg_ok [OF s] advanceby_ok [OF s] ow_advance_ok [OF s] expire_delsnd_ok [OF s] e in \<open>simp_all add: core_sel\<close>)
qed

lemma step_ok:
  assumes "transfer_inv I c cc x" "transfer_enabled e x" "clock x \<le> now"
  shows "succeeds (transfer_step recv expire now e x) (transfer_inv I c cc)"
proof -
  let ?x = "x\<lparr>tf_sender := at_time now (tf_sender x)\<rparr>"
  have "transfer_enabled e ?x" using assms(2) by (cases e) (simp_all add: at_time_def on_tcp_def data_sent_def)
  from event_ok [OF time_passes [OF assms(1,3)] this] show ?thesis by (simp add: transfer_step_def clock_def at_time_def on_tcp_def)
qed

lemma reaches_inv:
  assumes "transfer_reaches recv expire c cc x" "sender_cfg_ok c cc" "initial_ok cc"
  shows "transfer_inv I c cc x"
  using assms(1)
proof induction
  case (connect eln s k)
  have "connected c cc s \<and> co_ack (core (sd_tcp s)) = -1 \<and> co_sent (core (sd_tcp s)) = []"
    using ow_reset_ok [OF assms(2,3), of eln] connect(1) by simp
  moreover have "\<forall>i. 0 < wire_size c cc True i" using assms(2) by (auto simp: sender_cfg_ok_def wire_size_def)
  ultimately show ?case using fresh [OF connect(2)] connect(2,3)
    by (simp add: transfer_inv_def data_sent_core fresh_sink_def core_get)
next
  case (event x e now x')
  from step_ok [OF event(5,2,3)] event(4) show ?case by simp
qed

text \<open>A timeout sends the first packet that is not acknowledged again.\<close>

lemma timeout_resends:
  assumes i: "transfer_inv I c cc x" and t: "clock x \<le> now" and r: "can_resend (tf_sender x)"
    "tc_highest_ack (sd_tcp (tf_sender x)) < tc_maxseq (sd_tcp (tf_sender x))"
  shows "succeeds (transfer_step recv expire now RtxExpires x) (\<lambda>x'. transfer_inv I c cc x' \<and> clock x' = now \<and>
    tc_highest_ack (sd_tcp (tf_sender x')) = tc_highest_ack (sd_tcp (tf_sender x)) \<and>
    (\<exists>p \<in> set (data_sent x'). seq_of p = tc_highest_ack (sd_tcp (tf_sender x)) + 1))"
proof -
  let ?s = "at_time now (tf_sender x)"
  let ?x = "x\<lparr>tf_sender := ?s\<rparr>"
  have i': "transfer_inv I c cc ?x" by (rule time_passes [OF i t])
  then have s: "sender_inv ?s" "guarded (core (sd_tcp ?s))" by (simp_all add: transfer_inv_def Let_def connected_def)
  have "co_rtx (core (sd_tcp ?s))" using s(2) r(2) by (simp add: guarded_def core_sel)
  note e = expire_rtx_ok [OF s(1) this]
  have "can_resend ?s" using r(1) by (simp add: can_resend_def core_get)
  then have "succeeds (ow_expire_rtx ?s) (\<lambda>s'. keeps ?s s' \<and> resends ?s s')" by (intro succeeds_mono [OF e]) simp
  moreover have "transfer_inv I c cc (?x\<lparr>tf_sender := s'\<rparr>) \<and> tc_now (sd_tcp s') = now \<and>
      tc_highest_ack (sd_tcp s') = tc_highest_ack (sd_tcp (tf_sender x)) \<and>
      (\<exists>p \<in> set (co_sent (core (sd_tcp s'))). seq_of p = tc_highest_ack (sd_tcp (tf_sender x)) + 1)" if "keeps ?s s' \<and> resends ?s s'" for s'
    using that sender_keeps [OF i', of s'] by (auto simp: keeps_def follows_def grows_def resends_def core_get)
  ultimately have "succeeds (ow_expire_rtx ?s) (\<lambda>s'. transfer_inv I c cc (?x\<lparr>tf_sender := s'\<rparr>) \<and> tc_now (sd_tcp s') = now \<and>
      tc_highest_ack (sd_tcp s') = tc_highest_ack (sd_tcp (tf_sender x)) \<and>
      (\<exists>p \<in> set (co_sent (core (sd_tcp s'))). seq_of p = tc_highest_ack (sd_tcp (tf_sender x)) + 1))" by (rule succeeds_mono)
  then show ?thesis by (simp add: transfer_step_def sender_steps_def clock_def data_sent_core)
qed

text \<open>When it arrives, an acknowledgement of it is sent, at the latest when the timer of the sink expires.\<close>

lemma arrival_acked:
  assumes i: "transfer_inv I c cc x" and p: "p \<in> set (data_sent x)" "seq_of p = tc_highest_ack (sd_tcp (tf_sender x)) + 1"
    and t: "clock x \<le> now" "now \<le> later"
  shows "\<exists>x1 x2 q. transfer_step recv expire now (DataArrives p) x = Inr x1 \<and>
    (if tm_status (sn_timer (tf_sink x1)) = PENDING then transfer_step recv expire later SinkExpires x1 = Inr x2 else x2 = x1) \<and>
    transfer_inv I c cc x2 \<and> clock x2 \<le> later \<and> tc_highest_ack (sd_tcp (tf_sender x2)) = tc_highest_ack (sd_tcp (tf_sender x)) \<and>
    q \<in> set (sn_sent (tf_sink x2)) \<and> tc_highest_ack (sd_tcp (tf_sender x)) < seq_of q"
proof -
  let ?h = "tc_highest_ack (sd_tcp (tf_sender x))" and ?at = "\<lambda>now x. x\<lparr>tf_sender := at_time now (tf_sender x)\<rparr>"
  have at: "tc_highest_ack (sd_tcp (tf_sender (?at u y))) = tc_highest_ack (sd_tcp (tf_sender y))" "clock (?at u y) = u" "data_sent (?at u y) = data_sent y"
    for u y by (simp_all add: at_time_def on_tcp_def clock_def data_sent_def)
  have "0 \<le> clock x" using i by (simp add: transfer_inv_def Let_def connected_def sender_inv_def core_ok_def clock_def core_get)
  then have n: "0 \<le> now" "0 \<le> later" using t by simp_all
  have "p \<in> set (data_sent (?at now x))" using p(1) at(3) by simp
  from data_arrives [OF time_passes [OF i t(1)] this n(1)] obtain x1 where
    1: "transfer_step recv expire now (DataArrives p) x = Inr x1" "transfer_inv I c cc x1" "tf_sender x1 = tf_sender (?at now x)"
      "tf_arrived x1 = tf_arrived x @ [p]" "answers now (seq_of ` set (tf_arrived x1)) (tf_sink x) (tf_sink x1)"
    unfolding succeeds_def transfer_step_def by (auto simp: at_time_def)
  have c1: "clock x1 = now" "tc_highest_ack (sd_tcp (tf_sender x1)) = ?h" using 1(3) at unfolding clock_def by metis+
  let ?R = "seq_of ` set (tf_arrived x1)"
  have new: "?h < seq_of q" if "acknowledges ?R q" for q
    by (rule next_missing [of _ ?R]) (use that 1(2,4) c1 p(2) in \<open>auto simp: acknowledges_def transfer_inv_def Let_def\<close>)
  show ?thesis
  proof (cases "tm_status (sn_timer (tf_sink x1)) = PENDING")
    case True
    have "tm_status (sn_timer (tf_sink (?at later x1))) = PENDING" using True by simp
    from sink_expires [OF time_passes [OF 1(2)] this n(2)] c1(1) t(2) obtain x2 where
      2: "transfer_step recv expire later SinkExpires x1 = Inr x2" "transfer_inv I c cc x2" "tf_sender x2 = tf_sender (?at later x1)"
        "answers later ?R (tf_sink x1) (tf_sink x2)" "tm_status (sn_timer (tf_sink x2)) = IDLE"
      unfolding succeeds_def transfer_step_def by auto
    have c2: "clock x2 = later" "tc_highest_ack (sd_tcp (tf_sender x2)) = ?h" using 2(3) at c1(2) unfolding clock_def by metis+
    from 2(4,5) obtain q where "q \<in> set (sn_sent (tf_sink x2))" "acknowledges ?R q"
      unfolding answers_def by (metis Un_iff ex_in_conv set_append set_empty TimerStatus.distinct(1))
    with new 1(1) 2(1,2) c2 True show ?thesis by (intro exI [of _ x1] exI [of _ x2] exI [of _ q]) simp
  next
    case False
    with 1(5) obtain q where "q \<in> set (sn_sent (tf_sink x1))" "acknowledges ?R q"
      unfolding answers_def by (metis Un_iff ex_in_conv set_append set_empty)
    with new 1(1,2) c1 t(2) False show ?thesis by (intro exI [of _ x1] exI [of _ x1] exI [of _ q]) simp
  qed
qed

lemma ack_raises:
  assumes i: "transfer_inv I c cc x" and q: "q \<in> set (sn_sent (tf_sink x))" and t: "clock x \<le> now"
  shows "succeeds (transfer_step recv expire now (AckArrives q) x) (\<lambda>x'.
    tc_highest_ack (sd_tcp (tf_sender x')) = max (tc_highest_ack (sd_tcp (tf_sender x))) (seq_of q))"
proof -
  let ?x = "x\<lparr>tf_sender := at_time now (tf_sender x)\<rparr>"
  have "q \<in> set (sn_sent (tf_sink ?x))" using q by simp
  from ack_arrives [OF time_passes [OF i t] this] show ?thesis
    unfolding transfer_step_def by (simp add: sender_steps_def) (erule succeeds_mono, simp add: at_time_def on_tcp_def)
qed

end

section \<open>A concrete connection\<close>

text \<open>A NewReno sender with the defaults of \<open>tcl/lib/ns-default.tcl\<close> and a sink that delays acknowledgements.\<close>

definition default_sender_cfg :: "sender_class \<Rightarrow> sender_cfg" where
  "default_sender_cfg k = \<lparr>ow_class = k, ow_max_connects = -1, ow_useHeaders = True, ow_wnd_th = 0.002, ow_numdupacks = 3, ow_timerfix = True,
     ow_frto_enabled = False, ow_sfrto_enabled = False, ow_spurious_response = 1, ow_bugfix_ss = True, ow_bugfix_ts = False, ow_bugfix_ack = False,
     ow_less_careful = False, ow_exitFastRetrans = True, ow_noFastRetrans = False, ow_singledup = True, ow_aggressive_maxburst = True, ow_eln = False,
     ow_eln_rxmit_thresh = 1, ow_newreno_changes = 0, ow_newreno_changes1 = True, ow_partial_window_deflation = True, ow_exit_recovery_fix = False,
     ow_int_of_inf = 0\<rparr>"

lemma default_sender_ok:
  "sender_cfg_ok (default_sender_cfg k) (default_cfg FullTcpAgent)" "initial_ok (default_cfg FullTcpAgent)"
  by (simp_all add: sender_cfg_ok_def default_sender_cfg_def default_cfg_def initial_ok_def)

abbreviation sample_step :: "time \<Rightarrow> transfer_event \<Rightarrow> transfer \<Rightarrow> transfer res" where
  "sample_step \<equiv> transfer_step (virtual_recv DelayingSink) (virtual_expire DelayingSink)"

abbreviation sample_reaches :: "transfer \<Rightarrow> bool" where
  "sample_reaches \<equiv> transfer_reaches (virtual_recv DelayingSink) (virtual_expire DelayingSink) (default_sender_cfg NewRenoTcpAgent) (default_cfg FullTcpAgent)"

definition sample_sender :: sender where
  "sample_sender = (let s = new_sender 0 (default_sender_cfg NewRenoTcpAgent) (default_cfg FullTcpAgent) in
     s\<lparr>sd_tcp := (sd_tcp s)\<lparr>tc_t_rttvar := 4800, tc_t_rtxcur := 3, tc_t_backoff := 1, tc_cwnd := 1, tc_maxseq := -1, tc_last_ack := -1, tc_highest_ack := -1,
       tc_ssthresh := 20, tc_awnd := 1, tc_draws := 1\<rparr>\<rparr>)"

lemma sample_reset: "ow_reset (new_sender 0 (default_sender_cfg NewRenoTcpAgent) (default_cfg FullTcpAgent)) = Inr sample_sender"
  by (simp add: ow_reset_def on_tcp_res_def ow_set_initial_window_def rtt_init_def reset_options_def reset_counters_def reset_connection_def
      cancel_timers_def timer_force_cancel_def random_uniform_def sample_sender_def Let_def new_sender_def new_agent_def default_cfg_def timer_init_def push_bit_eq_mult)

abbreviation sample_transfer :: transfer where
  "sample_transfer \<equiv> \<lparr>tf_sender = sample_sender, tf_sink = sample_sink, tf_arrived = []\<rparr>"

lemma sample_run:
  "succeeds (sample_step 1 (AppSend 3000) sample_transfer) (\<lambda>x.
      tc_highest_ack (sd_tcp (tf_sender x)) = -1 \<and> tc_maxseq (sd_tcp (tf_sender x)) = 0 \<and> tc_curseq (sd_tcp (tf_sender x)) = 4 \<and>
      data_sent x \<noteq> [] \<and> clock x = 1)"
  by (simp add: transfer_step_def sender_steps_def ow_sendmsg_def ow_send_much_def ow_send_rounds_def may_send_def output_next_def ow_output_def store_ts_def
    output_packet_def output_syn_def emit_def note_sent_def sd_ecn_output_def sd_ecn_output_syn_def next_seqno_def sd_window_def is_reno_def at_time_def on_tcp_def sample_sender_def new_sender_def new_agent_def
    default_cfg_def default_sender_cfg_def allocpkt_def need_to_attach_cong_action_def upcall_def set_rtx_timer_def rtt_timeout_def rto_backed_off_def timer_resched_def timer_init_def
    data_sent_def clock_def sent_in_def eval_nat_numeral Let_def)

text \<open>The connection once the application has given it 3000 bytes: the first packet is on its way.\<close>

lemma sample_reached:
  "\<exists>x. sample_reaches x \<and> tc_highest_ack (sd_tcp (tf_sender x)) = -1 \<and> tc_maxseq (sd_tcp (tf_sender x)) = 0 \<and>
    tc_curseq (sd_tcp (tf_sender x)) = 4 \<and> data_sent x \<noteq> [] \<and> clock x = 1"
proof -
  have "sample_reaches sample_transfer"
    by (rule transfer_reaches.connect [OF sample_reset sample_fresh]) (simp add: sample_sink_def)
  moreover have "clock sample_transfer \<le> 1" by (simp add: clock_def sample_sender_def new_sender_def new_agent_def Let_def)
  ultimately show ?thesis using sample_run transfer_reaches.event [of _ _ _ _ sample_transfer "AppSend 3000" 1] by (fastforce simp: succeeds_def)
qed

section \<open>The properties\<close>

text \<open>C3: a one-way TCP connection, for every sender class (\<open>TcpAgent\<close>, \<open>RenoTcpAgent\<close>, \<open>NewRenoTcpAgent\<close>), both sinks (\<open>TcpSink\<close>,
  \<open>DelAckSink\<close>) and any sequence of commands of the application, timer expiries and arrivals of packets and acknowledgements sent before, however many
  are lost, repeated or reordered on the way. Let \<open>n\<close> be the first packet that has not arrived. What the sender takes as acknowledged, and what any
  acknowledgement on the way names, is before \<open>n\<close>; \<open>n\<close> is at most one beyond what was sent; the bytes delivered are exactly those of the packets
  before \<open>n\<close>; the retransmission timer runs whenever packets are outstanding; and no further event can fail: no exception, no division by zero, no
  access out of bounds and no loop that does not end.\<close>

theorem transfer_reliable:
  assumes "sender_cfg_ok c cc" "initial_ok cc" "transfer_reaches (virtual_recv k) (virtual_expire k) c cc x"
  shows "\<exists>n R. R = (\<lambda>p. tcp_seqno (pk_tcp p)) ` set (tf_arrived x) \<and> set (tf_arrived x) \<subseteq> set (data_sent x) \<and>
    tc_highest_ack (sd_tcp (tf_sender x)) < n \<and> n \<le> tc_maxseq (sd_tcp (tf_sender x)) + 1 \<and> 0 \<le> n \<and> {0..<n} \<subseteq> R \<and> n \<notin> R \<and>
    sn_bytes (tf_sink x) = (\<Sum>i \<in> {0..<n}. wire_size c cc True i) \<and> (\<forall>q \<in> set (sn_sent (tf_sink x)). tcp_seqno (pk_tcp q) < n) \<and>
    (tc_highest_ack (sd_tcp (tf_sender x)) < tc_maxseq (sd_tcp (tf_sender x)) \<longrightarrow> tm_status (tc_rtx_timer (sd_tcp (tf_sender x))) = PENDING) \<and>
    (\<forall>e now. transfer_enabled e x \<and> clock x \<le> now \<longrightarrow> (\<exists>x'. transfer_step (virtual_recv k) (virtual_expire k) now e x = Inr x'))"
proof -
  let ?R = "seq_of ` set (tf_arrived x)" and ?n = "ak_next (sn_acker (tf_sink x))" and ?a = "sd_tcp (tf_sender x)"
  have i: "transfer_inv (virtual_inv k) c cc x" by (rule sink.reaches_inv [OF assms(3,1,2)])
  then have v: "virtual_inv k (wire_size c cc True) ?R (tf_sink x)" and h: "{0..tc_highest_ack ?a} \<subseteq> ?R" and g: "guarded (core ?a)"
    and s: "set (tf_arrived x) \<subseteq> set (data_sent x)" and q: "\<forall>q \<in> set (sn_sent (tf_sink x)). {0..seq_of q} \<subseteq> ?R"
    by (simp_all add: transfer_inv_def Let_def connected_def)
  note o = sink.in_order [OF v]
  have less: "m < ?n" if "{0..m} \<subseteq> ?R" for m
  proof (rule ccontr)
    assume "\<not> m < ?n"
    then have "?n \<in> {0..m}" using o by simp
    with that o show False by blast
  qed
  have "{0..?n - 1} \<subseteq> ?R" using o by (auto simp: subset_iff)
  from in_prefix [OF this arrived_bound [OF i]] have "?n \<le> tc_maxseq ?a + 1" by simp
  moreover have "\<forall>e now. transfer_enabled e x \<and> clock x \<le> now \<longrightarrow> (\<exists>x'. transfer_step (virtual_recv k) (virtual_expire k) now e x = Inr x')"
    using sink.step_ok [OF i] by (auto simp: succeeds_def)
  moreover have "tc_highest_ack ?a < tc_maxseq ?a \<longrightarrow> tm_status (tc_rtx_timer ?a) = PENDING" using g by (simp add: guarded_def core_sel)
  ultimately show ?thesis using less [OF h] less q o s by (intro exI [of _ ?n] exI [of _ ?R]) simp
qed

theorem transfer_reliable_witness:
  "\<exists>x x' p. sample_reaches x \<and> tm_status (tc_rtx_timer (sd_tcp (tf_sender x))) = PENDING \<and> p \<in> set (data_sent x) \<and> sample_step 2 (DataArrives p) x = Inr x'"
proof -
  from sample_reached obtain x where x: "sample_reaches x" "tc_highest_ack (sd_tcp (tf_sender x)) = -1" "tc_maxseq (sd_tcp (tf_sender x)) = 0"
    "data_sent x \<noteq> []" "clock x = 1" by blast
  note r = transfer_reliable [OF default_sender_ok x(1)]
  have e: "transfer_enabled (DataArrives (hd (data_sent x))) x" "clock x \<le> 2" using x(4,5) by simp_all
  from r x(2,3) have "tm_status (tc_rtx_timer (sd_tcp (tf_sender x))) = PENDING" by (elim exE conjE) simp
  moreover from r e have "\<exists>x'. sample_step 2 (DataArrives (hd (data_sent x))) x = Inr x'" by blast
  moreover have "hd (data_sent x) \<in> set (data_sent x)" using x(4) by simp
  ultimately show ?thesis using x(1) by blast
qed



lemma reset_rtx_timer_only:
  assumes "rtt_ok a" "clock_ok a"
  shows "succeeds (ow_reset_rtx_timer mild False a) (\<lambda>b. tc_cwnd b = tc_cwnd a \<and> tc_ssthresh b = tc_ssthresh a \<and> tc_log b = tc_log a \<and>
    (mild \<longrightarrow> tc_t_seqno b = tc_t_seqno a))"
proof -
  have "succeeds (set_rtx_timer a) (armed a)" by (rule set_rtx_timer_ok [OF assms])
  then show ?thesis unfolding ow_reset_rtx_timer_def
    by (auto simp: armed_def elim!: succeeds_mono)
qed

text \<open>C34: built without Quick-Start, which is the default, the fast retransmit of \<open>TcpAgent\<close> and \<open>NewRenoTcpAgent\<close> does not reduce the window, and that of
  \<open>NewRenoTcpAgent\<close> retransmits nothing either: the calls of \<open>slowdown\<close> and \<open>output\<close> in \<open>dupack_action\<close> are compiled only with
  \<open>WITH_QS\<close>.\<close>

theorem fast_retransmit_keeps_window:
  assumes "sender_inv s" "\<not> cf_ecn (tc_cfg (sd_tcp s))" "ow_class (sd_cfg s) \<noteq> RenoTcpAgent"
  shows "\<exists>s'. ow_dupack_action s = Inr s' \<and> tc_cwnd (sd_tcp s') = tc_cwnd (sd_tcp s) \<and> tc_ssthresh (sd_tcp s') = tc_ssthresh (sd_tcp s) \<and>
    sent_in (tc_log (sd_tcp s')) = sent_in (tc_log (sd_tcp s)) \<and>
    (ow_class (sd_cfg s) = NewRenoTcpAgent \<longrightarrow> tc_t_seqno (sd_tcp s') = tc_t_seqno (sd_tcp s))"
proof -
  let ?P = "\<lambda>mild s'. tc_cwnd (sd_tcp s') = tc_cwnd (sd_tcp s) \<and> tc_ssthresh (sd_tcp s') = tc_ssthresh (sd_tcp s) \<and>
    tc_log (sd_tcp s') = tc_log (sd_tcp s) \<and> (mild \<longrightarrow> tc_t_seqno (sd_tcp s') = tc_t_seqno (sd_tcp s))"
  have c: "rtt_ok (sd_tcp s)" "clock_ok (sd_tcp s)" "\<not> ow_bugfix_ts (sd_cfg s)"
    using assms(1) sender_inv_clock [OF assms(1)] by (simp_all add: sender_inv_def core_ok_def sender_cfg_ok_def)
  then have c': "clock_ok ((sd_tcp s)\<lparr>tc_recover := m\<rparr>)" for m by (simp add: clock_ok_def)
  have t: "succeeds (tahoe_action s) (?P False)" "succeeds (newreno_action s) (?P True)"
    using reset_rtx_timer_only [OF _ c', where mild = False] reset_rtx_timer_only [OF _ c', where mild = True] c(1)
    by (simp_all add: tahoe_action_def newreno_action_def)
  have "succeeds (ow_dupack_action s) (?P (ow_class (sd_cfg s) = NewRenoTcpAgent))"
    using assms(2,3) t c(3)
    by (cases "ow_class (sd_cfg s)") (auto simp: ow_dupack_action_def ow_tahoe_dupack_def newreno_dupack_def newreno_heuristics_def Let_def)
  then show ?thesis unfolding succeeds_def by auto
qed

theorem fast_retransmit_keeps_window_witness:
  "\<exists>s'. ow_dupack_action sample_sender = Inr s' \<and> tc_cwnd (sd_tcp s') = 1 \<and> tc_ssthresh (sd_tcp s') = 20 \<and> sent_in (tc_log (sd_tcp s')) = []"
proof -
  have "sender_inv sample_sender" using ow_reset_ok [OF default_sender_ok, of 0 NewRenoTcpAgent] sample_reset by (simp add: connected_def)
  moreover have "\<not> cf_ecn (tc_cfg (sd_tcp sample_sender))" "ow_class (sd_cfg sample_sender) \<noteq> RenoTcpAgent"
    "tc_cwnd (sd_tcp sample_sender) = 1" "tc_ssthresh (sd_tcp sample_sender) = 20" "sent_in (tc_log (sd_tcp sample_sender)) = []"
    by (simp_all add: sample_sender_def new_sender_def new_agent_def default_cfg_def default_sender_cfg_def sent_in_def Let_def)
  ultimately show ?thesis using fast_retransmit_keeps_window [of sample_sender] by auto
qed

end
