(* ===== verification/TcpRecv.thy ===== *)
theory TcpRecv
  imports TcpInput
begin

text \<open>
  \<open>FullTcpAgent::recv\<close> (\<open>tcp/tcp-full.cc\<close>), one definition per stretch of its body. The local variables of the
  function are the record \<open>recv_vars\<close>; the packet is among them, since \<open>recv\<close> trims it in place. A \<open>goto\<close> is the value of
  type \<open>label\<close> with which a stretch ends.
\<close>

datatype label = Next | Goto_process_ACK | Goto_step6 | Goto_drop | Goto_dropafterack | Goto_dropwithreset | Return

record recv_vars =
  rv_pkt :: packet
  rv_datalen :: int
  rv_tiflags :: int
  rv_needoutput :: bool
  rv_dupseg :: bool

type_synonym recv_res = "(label \<times> recv_vars \<times> tcp_agent) res"

abbreviation rv_seqno :: "recv_vars \<Rightarrow> int" where
  "rv_seqno v \<equiv> tcp_seqno (pk_tcp (rv_pkt v))"

abbreviation rv_ackno :: "recv_vars \<Rightarrow> int" where
  "rv_ackno v \<equiv> tcp_ackno (pk_tcp (rv_pkt v))"

definition set_seqno :: "int \<Rightarrow> packet \<Rightarrow> packet" where
  "set_seqno n p = p\<lparr>pk_tcp := (pk_tcp p)\<lparr>tcp_seqno := n\<rparr>\<rparr>"

section \<open>Options, prediction and reassembly\<close>

definition dooptions :: "packet \<Rightarrow> tcp_agent \<Rightarrow> tcp_agent" where
  "dooptions p s =
     (if cf_ts_option (tc_cfg s) \<and> \<not> fl_no_ts (pk_flags p) \<and> \<not> tcp_ts (pk_tcp p) < 0 \<and>
         contains_all (tcp_flags (pk_tcp p)) TH_SYN
      then s\<lparr>tc_TF_RCVD_TSTMP := True, tc_recent := tcp_ts (pk_tcp p), tc_recent_age := tc_now s\<rparr>
      else s)"

definition predict_ok :: "packet \<Rightarrow> tcp_agent \<Rightarrow> bool" where
  "predict_ok p s =
     (let h = pk_tcp p in
      tc_state s = ESTABLISHED \<and>
      (contains_all (tcp_flags h) TH_ACK \<and> \<not> contains_any (tcp_flags h) (TH_SYN OR TH_FIN)) \<and>
      \<not> tc_TF_NEEDFIN s \<and>
      (\<not> cf_ts_option (tc_cfg s) \<or> fl_no_ts (pk_flags p) \<or> tcp_ts h \<ge> tc_recent s) \<and>
      tcp_seqno h = tc_rcv_nxt s \<and>
      tc_t_seqno s = tc_maxseq s \<and>
      (\<not> cf_ecn (tc_cfg s) \<or> \<not> is_ecn_active p s) \<and>
      tcp_sack_area h = [])"

definition reass :: "packet \<Rightarrow> tcp_agent \<Rightarrow> (int \<times> tcp_agent) res" where
  "reass p s =
     (let start = tcp_seqno (pk_tcp p); end = start + pk_size p - tcp_hlen (pk_tcp p);
          tiflags = tcp_flags (pk_tcp p); fillshole = (start = tc_rcv_nxt s)
      in if start = end \<and> \<not> contains_all tiflags TH_FIN then Inl Abort
         else res_bind (rq_add start end tiflags 0 (tc_rq s)) (\<lambda>(flags, q).
           let s1 = s\<lparr>tc_rq := q\<rparr>
           in if \<not> have_received_SYN (tc_state s1) \<or> \<not> fillshole then Inr (0, s1)
              else if tc_state s1 = SYN_RECEIVED \<and> end > start then Inr (0, s1)
              else (case cleartonxt (tc_rq s1) of (f, q1) \<Rightarrow> Inr (flags OR f, s1\<lparr>tc_rq := q1\<rparr>))))"

definition rcvseqinit :: "int \<Rightarrow> int \<Rightarrow> int" where
  "rcvseqinit seq dlen = seq + dlen + 1"

definition start_delack :: "tcp_agent \<Rightarrow> tcp_agent" where
  "start_delack s = s\<lparr>tc_TF_DELACK := True,
     tc_delack_timer := timer_resched (tc_now s) (cf_delack_interval (tc_cfg s)) (tc_delack_timer s)\<rparr>"

definition note_received :: "int \<Rightarrow> tcp_agent \<Rightarrow> tcp_agent" where
  "note_received n s =
     (let s1 = (if tc_flow_remaining s > 0 then s\<lparr>tc_flow_remaining := tc_flow_remaining s - n\<rparr> else s)
      in if tc_flow_remaining s1 = 0 then s1\<lparr>tc_TF_ACKNOW := True, tc_flow_remaining := -1\<rparr> else s1)"

definition record_timestamp :: "packet \<Rightarrow> tcp_agent \<Rightarrow> tcp_agent" where
  "record_timestamp p s =
     (if cf_ts_option (tc_cfg s) \<and> \<not> fl_no_ts (pk_flags p) \<and> tcp_seqno (pk_tcp p) \<le> tc_last_ack_sent s
      then s\<lparr>tc_recent_age := tc_now s, tc_recent := tcp_ts (pk_tcp p)\<rparr> else s)"

section \<open>Header prediction\<close>

text \<open>The pure acknowledgement and the segment in sequence; other segments go on to the slow path.\<close>

definition predicted_ack :: "recv_vars \<Rightarrow> tcp_agent \<Rightarrow> recv_res" where
  "predicted_ack v s =
     (if rv_ackno v > tc_highest_ack s \<and> rv_ackno v < tc_maxseq s \<and> tc_cwnd s \<ge> cf_wnd (tc_cfg s) \<and> \<not> tc_fastrecov s
      then res_bind (newack (rv_pkt v) s) (\<lambda>s1.
             res_bind (send_much False NORMAL (tc_maxburst s1) s1) (\<lambda>s2. Inr (Return, v, s2)))
      else Inr (Next, v, s))"

definition predicted_data :: "recv_vars \<Rightarrow> tcp_agent \<Rightarrow> recv_res" where
  "predicted_data v s =
     (if rv_ackno v = tc_highest_ack s \<and> rq_empty (tc_rq s) then
        res_bind (on_receive_pure_incoming s) (\<lambda>s1.
          let s2 = start_delack (set_rcv_nxt (tc_rcv_nxt s1 + rv_datalen v) s1);
              s3 = note_received (rv_datalen v) (upcall (RecvBytes (rv_datalen v)) s2)
          in if need_send s3
             then res_bind (send_much True NORMAL (tc_maxburst s3) s3) (\<lambda>s4. Inr (Return, v, s4))
             else Inr (Return, v, s3))
      else Inr (Next, v, s))"

definition recv_predicted :: "recv_vars \<Rightarrow> tcp_agent \<Rightarrow> recv_res" where
  "recv_predicted v s =
     (if cf_nopredict (tc_cfg s) \<or> \<not> predict_ok (rv_pkt v) s then Inr (Next, v, s)
      else
        let s1 = update_state_new_packet (rv_pkt v) (rv_datalen v > 0) (record_timestamp (rv_pkt v) s)
        in if rv_datalen v = 0 then predicted_ack v s1 else predicted_data v s1)"

section \<open>Connection establishment\<close>

definition trimthenstep6 :: "recv_vars \<Rightarrow> tcp_agent \<Rightarrow> label \<times> recv_vars \<times> tcp_agent" where
  "trimthenstep6 v s =
     (if contains_all (rv_tiflags v) TH_ACK then Goto_process_ACK else Goto_step6,
      v\<lparr>rv_pkt := set_seqno (rv_seqno v + 1) (rv_pkt v)\<rparr>, s)"

definition recv_listen :: "recv_vars \<Rightarrow> tcp_agent \<Rightarrow> recv_res" where
  "recv_listen v s =
     (if contains_all (rv_tiflags v) TH_ACK then Inr (Goto_dropwithreset, v, s)
      else if \<not> contains_all (rv_tiflags v) TH_SYN then Inr (Goto_drop, v, s)
      else
        let s1 = dooptions (rv_pkt v) s;
            s2 = set_rcv_nxt (rcvseqinit (rv_seqno v) (rv_datalen v))
                   (s1\<lparr>tc_irs := rv_seqno v, tc_t_seqno := cf_iss (tc_cfg s1), tc_TF_ACKNOW := True\<rparr>);
            s3 = on_receive_syn (pk_flags (rv_pkt v)) s2;
            s4 = (if tc_fid s3 = 0 then s3\<lparr>tc_fid := ip_fid (pk_ip (rv_pkt v))\<rparr> else s3)
        in Inr (trimthenstep6 v (s4\<lparr>tc_state := SYN_RECEIVED\<rparr>)))"

text \<open>A SYN with an ACK of ours, and a SYN without (a simultaneous open).\<close>

definition syn_acked :: "recv_vars \<Rightarrow> real \<Rightarrow> tcp_agent \<Rightarrow> recv_vars \<times> tcp_agent" where
  "syn_acked v w s =
     (let s1 = s\<lparr>tc_highest_ack := rv_ackno v, tc_cwnd := w\<rparr>;
          s2 = (if rv_datalen v > 0 then start_delack s1 else s1\<lparr>tc_TF_ACKNOW := True\<rparr>)
      in if tc_TF_NEEDFIN s2
         then (v\<lparr>rv_tiflags := rv_tiflags v AND NOT TH_SYN\<rparr>, s2\<lparr>tc_state := FIN_WAIT_1, tc_TF_NEEDFIN := False\<rparr>)
         else (v, s2\<lparr>tc_state := ESTABLISHED\<rparr>))"

definition recv_syn_ack :: "recv_vars \<Rightarrow> tcp_agent \<Rightarrow> recv_res" where
  "recv_syn_ack v s =
     (let s1 = on_receive_syn_ack (pk_flags (rv_pkt v)) s in
      res_bind (initial_window s1) (\<lambda>w.
        case syn_acked v w s1 of (v1, s2) \<Rightarrow>
          res_bind (sendpacket (tc_t_seqno s2) (tc_rcv_nxt s2) TH_ACK 0 NORMAL s2) (\<lambda>s3. Inr (trimthenstep6 v1 s3))))"

definition recv_simultaneous_open :: "recv_vars \<Rightarrow> tcp_agent \<Rightarrow> recv_res" where
  "recv_simultaneous_open v s =
     (let s1 = cancel_rtx_timer ((on_receive_syn (pk_flags (rv_pkt v)) s)\<lparr>tc_TF_ACKNOW := True\<rparr>)
      in Inr (trimthenstep6 v (s1\<lparr>tc_state := SYN_RECEIVED, tc_t_seqno := tc_t_seqno s1 - 1\<rparr>)))"

definition recv_syn_sent :: "recv_vars \<Rightarrow> tcp_agent \<Rightarrow> recv_res" where
  "recv_syn_sent v s =
     (let ack = contains_all (rv_tiflags v) TH_ACK in
      if ack \<and> (rv_ackno v \<le> cf_iss (tc_cfg s) \<or> rv_ackno v > tc_maxseq s) then Inr (Goto_dropwithreset, v, s)
      else if \<not> contains_all (rv_tiflags v) TH_SYN then Inr (Goto_drop, v, s)
      else
        res_bind (if ack then on_receive_syn_ack_pre (pk_flags (rv_pkt v)) s else Inr (NO_CONGESTION, s))
          (\<lambda>(d, s1).
             if d = CONGESTION_DROP then Inr (Goto_drop, v, s1)
             else
               let s2 = set_rcv_nxt (rcvseqinit (rv_seqno v) (rv_datalen v)) (s1\<lparr>tc_irs := rv_seqno v\<rparr>)
               in if ack then recv_syn_ack v s2 else recv_simultaneous_open v s2))"

section \<open>Timestamps and duplicate data\<close>

definition TCP_PAWS_IDLE :: real where "TCP_PAWS_IDLE = 24 * 24 * 60 * 60"

text \<open>Cutting a SYN off, and cutting \<open>n\<close> bytes off the front.\<close>

definition trim_syn :: "recv_vars \<Rightarrow> recv_vars" where
  "trim_syn v = v\<lparr>rv_tiflags := rv_tiflags v AND NOT TH_SYN,
     rv_pkt := (set_seqno (rv_seqno v + 1) (rv_pkt v))\<lparr>pk_size := pk_size (rv_pkt v) - 1\<rparr>\<rparr>"

definition trim_front :: "int \<Rightarrow> recv_vars \<Rightarrow> recv_vars" where
  "trim_front n v = v\<lparr>rv_pkt := (set_seqno (rv_seqno v + n) (rv_pkt v))\<lparr>pk_size := pk_size (rv_pkt v) - n\<rparr>,
     rv_datalen := rv_datalen v - n\<rparr>"

definition trim_head :: "recv_vars \<Rightarrow> tcp_agent \<Rightarrow> recv_vars \<times> tcp_agent" where
  "trim_head v s =
     (let todrop = tc_rcv_nxt s - rv_seqno v; syn = contains_all (rv_tiflags v) TH_SYN in
      if todrop > 0 \<and> (syn \<or> rv_datalen v > 0) then
        let v1 = (if syn then trim_syn v else v); todrop1 = (if syn then todrop - 1 else todrop)
        in if todrop1 > rv_datalen v1 \<or> (todrop1 = rv_datalen v1 \<and> \<not> contains_all (rv_tiflags v1) TH_FIN)
           then (trim_front (rv_datalen v1) (v1\<lparr>rv_tiflags := rv_tiflags v1 AND NOT TH_FIN, rv_dupseg := True\<rparr>),
                 s\<lparr>tc_TF_ACKNOW := True\<rparr>)
           else (trim_front todrop1 v1, s)
      else (v, s))"

definition recv_check :: "recv_vars \<Rightarrow> tcp_agent \<Rightarrow> recv_res" where
  "recv_check v s =
     (let h = pk_tcp (rv_pkt v);
          bad = (cf_ts_option (tc_cfg s) \<and> \<not> fl_no_ts (pk_flags (rv_pkt v)) \<and> tc_recent s \<noteq> 0 \<and> tcp_ts h < tc_recent s)
      in if bad \<and> \<not> tc_now s - tc_recent_age s > TCP_PAWS_IDLE then Inr (Goto_dropafterack, v, s)
         else
           let (v1, s1) = trim_head v (if bad then s\<lparr>tc_recent := 0\<rparr> else s);
               s2 = record_timestamp (rv_pkt v1) s1
           in if contains_all (rv_tiflags v1) TH_SYN then Inr (Goto_dropwithreset, v1, s2)
              else if \<not> contains_all (rv_tiflags v1) TH_ACK then Inr (Goto_drop, v1, s2)
              else Inr (Next, v1, s2))"

section \<open>Acknowledgements\<close>

definition recv_syn_received :: "recv_vars \<Rightarrow> tcp_agent \<Rightarrow> recv_res" where
  "recv_syn_received v s =
     (if rv_ackno v < tc_highest_ack s \<or> rv_ackno v > tc_maxseq s then Inr (Goto_dropwithreset, v, s)
      else
        res_bind (on_receive_syn_ack_ack (pk_flags (rv_pkt v)) s) (\<lambda>(d, s1).
          if d = CONGESTION_DROP then Inr (Goto_drop, v, s1)
          else
            res_bind (if d = NO_CONGESTION then res_bind (initial_window s1) (\<lambda>w. Inr (s1\<lparr>tc_cwnd := w\<rparr>)) else Inr s1)
              (\<lambda>s2. Inr (Next, v, if tc_TF_NEEDFIN s2 then s2\<lparr>tc_state := FIN_WAIT_1, tc_TF_NEEDFIN := False\<rparr>
                                  else s2\<lparr>tc_state := ESTABLISHED\<rparr>))))"

definition dynamic_threshold :: "tcp_agent \<Rightarrow> tcp_agent" where
  "dynamic_threshold s =
     (if cf_dynamic_dupack (tc_cfg s) > 0 then
        let t = trunc (cf_dynamic_dupack (tc_cfg s) * of_int (window s)) in s\<lparr>tc_tcprexmtthresh := (if t < 3 then 3 else t)\<rparr>
      else s)"

definition recv_dupack :: "recv_vars \<Rightarrow> tcp_agent \<Rightarrow> recv_res" where
  "recv_dupack v s =
     (if rv_datalen v = 0 \<and> (\<not> cf_dupseg_fix (tc_cfg s) \<or> \<not> rv_dupseg v) then
        let s1 = dynamic_threshold s;
            s2 = s1\<lparr>tc_dupacks := tc_dupacks s1 + 1\<rparr>
        in if tm_status (tc_rtx_timer s1) \<noteq> PENDING \<or> rv_ackno v < tc_highest_ack s1
           then Inr (Goto_step6, v, s1\<lparr>tc_dupacks := 0\<rparr>)
           else if tc_dupacks s2 = tc_tcprexmtthresh s2
           then res_bind (dupack_action s2) (\<lambda>s3. Inr (Goto_drop, v, s3))
           else if tc_dupacks s2 > tc_tcprexmtthresh s2
           then res_bind (send_much False DUPACK (tc_maxburst s2)
                  (if cf_reno_fastrecov (tc_cfg s2) then s2\<lparr>tc_cwnd := tc_cwnd s2 + 1\<rparr> else s2))
                  (\<lambda>s3. Inr (Goto_drop, v, s3))
           else Inr (Goto_step6, v, s2)
      else Inr (Goto_step6, v, if cf_dupack_reset (tc_cfg s) then s\<lparr>tc_dupacks := 0, tc_fastrecov := False\<rparr> else s))"

text \<open>From the label \<open>process_ACK\<close> to the end of the \<open>switch\<close>.\<close>

definition recv_closing :: "recv_vars \<Rightarrow> tcp_agent \<Rightarrow> recv_res" where
  "recv_closing v s =
     (let ourfinisacked = (tc_state s \<ge> FIN_WAIT_1 \<and> rv_ackno v = tc_maxseq s) in
      if ourfinisacked \<and> tc_state s = FIN_WAIT_1
      then Inr (Goto_step6, v\<lparr>rv_needoutput := False\<rparr>, cancel_timers (s\<lparr>tc_state := FIN_WAIT_2\<rparr>))
      else if ourfinisacked \<and> tc_state s = CLOSING
      then Inr (Goto_step6, v, cancel_timers (s\<lparr>tc_state := CLOSED\<rparr>))
      else if ourfinisacked \<and> tc_state s = LAST_ACK
      then res_bind (reset (upcall Done (s\<lparr>tc_state := CLOSED\<rparr>))) (\<lambda>s1. Inr (Goto_drop, v, s1))
      else Inr (Goto_step6, v, s))"

definition recv_process_ACK :: "recv_vars \<Rightarrow> tcp_agent \<Rightarrow> recv_res" where
  "recv_process_ACK v s =
     (if rv_ackno v > tc_maxseq s then Inr (Goto_dropafterack, v, s)
      else
        res_bind (newack (rv_pkt v) s) (\<lambda>s1.
          let partial = pack (rv_pkt v) s1
          in res_bind (if partial then pack_action s1 else Inr (ack_action s1)) (\<lambda>s2.
             res_bind (ecn_on_receive_ack (rv_pkt v) (rv_tiflags v) s2) (\<lambda>s3.
               let v1 = v\<lparr>rv_needoutput := (rv_needoutput v \<or> rv_ackno v = tc_maxseq s3)\<rparr>
               in if rv_ackno v = tc_highest_ack s3 + 1 then Inr (Goto_step6, v1, s3)
                  else
                    res_bind
                      (if (\<not> cf_delay_growth (tc_cfg s3) \<or> tc_rcv_nxt s3 > 0) \<and> tc_last_state s3 = ESTABLISHED \<and>
                          (\<not> partial \<or> cf_open_cwnd_on_pack (tc_cfg s3)) \<and> can_open_cwnd (rv_pkt v) s3
                       then opencwnd s3 else Inr s3)
                      (\<lambda>s4. recv_closing v1 (on_receive_newack (rv_pkt v) s4))))))"

definition recv_established :: "recv_vars \<Rightarrow> tcp_agent \<Rightarrow> recv_res" where
  "recv_established v s =
     (let s1 = update_state_new_packet (rv_pkt v) (rv_datalen v > 0) s in
      res_bind (if tc_state s1 \<ge> ESTABLISHED \<and> tcp_sack_area (pk_tcp (rv_pkt v)) \<noteq> []
                then process_sack (pk_tcp (rv_pkt v)) s1 else Inr s1)
        (\<lambda>s2.
          let s3 = (if tc_fastrecov s2 \<and> (rv_datalen v = 0 \<or> rv_ackno v > tc_highest_ack s2)
                    then s2\<lparr>tc_pipe := tc_pipe s2 - tc_maxseg s2\<rparr> else s2)
          in if rv_ackno v \<le> tc_highest_ack s3 then recv_dupack v s3 else recv_process_ACK v s3))"

definition recv_ack :: "recv_vars \<Rightarrow> tcp_agent \<Rightarrow> recv_res" where
  "recv_ack v s =
     (if tc_state s = CLOSED \<or> tc_state s = LISTEN \<or> tc_state s = SYN_SENT
      then Inl (LogicError ''Unexpected TCP state during ACK processing'')
      else if tc_state s = SYN_RECEIVED then
        res_bind (recv_syn_received v s) (\<lambda>(l, v1, s1). if l = Next then recv_established v1 s1 else Inr (l, v1, s1))
      else recv_established v s)"

section \<open>Data and FIN\<close>

text \<open>The part of step 6 that takes the data; \<open>tiflags\<close> becomes the flags that have been reached in sequence.\<close>

definition data_in_order :: "recv_vars \<Rightarrow> tcp_agent \<Rightarrow> (recv_vars \<times> tcp_agent) res" where
  "data_in_order v s =
     res_bind (on_receive_pure_incoming s) (\<lambda>s1.
       let s2 = start_delack s1;
           s3 = set_rcv_nxt (tc_rcv_nxt s2 + rv_datalen v) s2;
           s4 = (if rv_datalen v \<noteq> 0 then note_received (rv_datalen v) (upcall (RecvBytes (rv_datalen v)) s3) else s3)
       in Inr (v\<lparr>rv_tiflags := tcp_flags (pk_tcp (rv_pkt v)) AND TH_FIN, rv_needoutput := need_send s4\<rparr>, s4))"

definition data_reassembled :: "recv_vars \<Rightarrow> tcp_agent \<Rightarrow> (recv_vars \<times> tcp_agent) res" where
  "data_reassembled v s =
     res_bind (reass (rv_pkt v) s) (\<lambda>(tiflags, s1).
       let s2 = (if tc_rcv_nxt s1 > tc_rcv_nxt s
                 then note_received (rv_datalen v) (upcall (RecvBytes (tc_rcv_nxt s1 - tc_rcv_nxt s)) s1) else s1);
           s3 = s2\<lparr>tc_TF_ACKNOW := True\<rparr>
       in Inr (v\<lparr>rv_tiflags := tiflags,
                 rv_needoutput := (if contains_all tiflags TH_PUSH then need_send s3 else rv_needoutput v)\<rparr>, s3))"

definition recv_data :: "recv_vars \<Rightarrow> tcp_agent \<Rightarrow> (recv_vars \<times> tcp_agent) res" where
  "recv_data v s =
     (if (rv_datalen v > 0 \<or> contains_all (rv_tiflags v) TH_FIN) \<and> \<not> have_received_FIN (tc_state s) then
        (if rv_seqno v = tc_rcv_nxt s \<and> rq_empty (tc_rq s) then data_in_order v s else data_reassembled v s)
      else Inr (v\<lparr>rv_tiflags := rv_tiflags v AND NOT TH_FIN\<rparr>, s))"

definition recv_fin :: "recv_vars \<Rightarrow> tcp_agent \<Rightarrow> tcp_agent res" where
  "recv_fin v s =
     (if contains_all (rv_tiflags v) TH_FIN then
        let s1 = (if \<not> have_received_FIN (tc_state s)
                  then set_rcv_nxt (tc_rcv_nxt s + 1) (s\<lparr>tc_TF_ACKNOW := True\<rparr>) else s)
        in if tc_state s1 = SYN_RECEIVED \<or> tc_state s1 = ESTABLISHED then Inr (s1\<lparr>tc_state := CLOSE_WAIT\<rparr>)
           else if tc_state s1 = FIN_WAIT_1 then Inr (s1\<lparr>tc_state := CLOSING\<rparr>)
           else if tc_state s1 = FIN_WAIT_2 then Inr (cancel_timers (s1\<lparr>tc_state := CLOSED\<rparr>))
           else Inl (LogicError ''Unexpected TCP state with FIN bit set'')
      else Inr s)"

definition recv_output :: "recv_vars \<Rightarrow> tcp_agent \<Rightarrow> tcp_agent res" where
  "recv_output v s =
     res_bind (if rv_needoutput v \<or> tc_TF_ACKNOW s then send_much True NORMAL (tc_maxburst s) s
               else if tc_curseq s \<ge> tc_highest_ack s \<or> tc_infinite_send s then send_much False NORMAL (tc_maxburst s) s
               else Inr s) (\<lambda>s1.
     res_bind (if \<not> cf_halfclose (tc_cfg s1) \<and> tc_state s1 = CLOSE_WAIT \<and> tc_highest_ack s1 = tc_maxseq s1
               then usrclosed s1 else Inr s1) (\<lambda>s2.
     Inr (if tc_state s2 = CLOSED then upcall Done s2 else s2)))"

definition recv_step6 :: "recv_vars \<Rightarrow> tcp_agent \<Rightarrow> tcp_agent res" where
  "recv_step6 v s = res_bind (recv_data v s) (\<lambda>(v1, s1). res_bind (recv_fin v1 s1) (recv_output v1))"

section \<open>Dropping\<close>

definition recv_dropafterack :: "tcp_agent \<Rightarrow> tcp_agent res" where
  "recv_dropafterack s = send_much True NORMAL (tc_maxburst s) (s\<lparr>tc_TF_ACKNOW := True\<rparr>)"

definition recv_dropwithreset :: "recv_vars \<Rightarrow> tcp_agent \<Rightarrow> tcp_agent res" where
  "recv_dropwithreset v s =
     (if contains_all (rv_tiflags v) TH_ACK then sendpacket (rv_ackno v) 0 0 0 NORMAL s
      else
        let ack = rv_seqno v + rv_datalen v
        in sendpacket 0 (if contains_all (rv_tiflags v) TH_SYN then ack - 1 else ack) TH_ACK 0 NORMAL s)"

section \<open>The whole function\<close>

definition recv_end :: "label \<times> recv_vars \<times> tcp_agent \<Rightarrow> tcp_agent res" where
  "recv_end r =
     (case r of (l, v, s) \<Rightarrow>
        if l = Goto_dropafterack then recv_dropafterack s
        else if l = Goto_dropwithreset then recv_dropwithreset v s
        else if l = Goto_drop \<or> l = Return then Inr s
        else recv_step6 v s)"

text \<open>The slow path from the first \<open>switch\<close> on.\<close>

definition recv_slow :: "recv_vars \<Rightarrow> tcp_agent \<Rightarrow> tcp_agent res" where
  "recv_slow v s =
     (if tc_state s = LISTEN \<or> tc_state s = SYN_SENT then
        res_bind (if tc_state s = LISTEN then recv_listen v s else recv_syn_sent v s) (\<lambda>(l, v1, s1).
          if l = Goto_process_ACK then res_bind (recv_process_ACK v1 s1) recv_end else recv_end (l, v1, s1))
      else if tc_state s = LAST_ACK \<and> contains_all (rv_tiflags v) TH_FIN then Inr s
      else
        res_bind (recv_check v s) (\<lambda>(l, v1, s1).
          if l = Next then res_bind (recv_ack v1 s1) recv_end else recv_end (l, v1, s1)))"

definition recv_init :: "packet \<Rightarrow> recv_vars" where
  "recv_init p = \<lparr>rv_pkt = p, rv_datalen = pk_size p - tcp_hlen (pk_tcp p), rv_tiflags = tcp_flags (pk_tcp p),
     rv_needoutput = False, rv_dupseg = False\<rparr>"

definition recv :: "packet \<Rightarrow> tcp_agent \<Rightarrow> tcp_agent res" where
  "recv p s0 =
     (let s = s0\<lparr>tc_prob_mode := False, tc_prob_count := 0, tc_last_state := tc_state s0\<rparr>;
          v = recv_init p
      in if tc_state s = CLOSED \<and> contains_all (rv_tiflags v) TH_FIN then recv_dropafterack s
         else if tc_state s = CLOSED then Inr s
         else if tc_fid s \<noteq> ip_fid (pk_ip p) then Inr s
         else
           let s1 = (if tc_state s \<noteq> LISTEN then dooptions p s else s);
               s2 = ecn_on_receive p s1
           in res_bind (recv_predicted v s2) (\<lambda>(l, v1, s3).
                if l = Return then Inr s3 else recv_slow v1 s3))"

end
