(* ===== verification/TcpConn.thy ===== *)
theory TcpConn
  imports TcpSend TcpRecv
begin

text \<open>
  The connection as a state machine: what any sequence of segments, timeouts and calls of the application keeps of the agent.
\<close>

section \<open>Steps that only transmit\<close>

text \<open>A step that may send and close on an empty buffer, but acknowledges nothing and takes no data.\<close>

definition tx :: "tcp_agent \<Rightarrow> tcp_agent \<Rightarrow> bool" where
  "tx s s' \<longleftrightarrow> (tc_cfg s', tc_highest_ack s', tc_rq s', tc_fid s', tc_last_state s', received_in (tc_log s')) =
     (tc_cfg s, tc_highest_ack s, tc_rq s, tc_fid s, tc_last_state s, received_in (tc_log s)) \<and>
     tc_maxseq s \<le> tc_maxseq s' \<and> close_edge (tc_state s) (tc_state s')"

lemma tx_refl [simp]: "tx s s"
  by (simp add: tx_def close_edge_def)

lemma tx_trans [trans]: "tx s t \<Longrightarrow> tx t u \<Longrightarrow> tx s u"
  by (auto simp: tx_def close_edge_def less_eq_TcpState_def)

lemma kept_tx: "kept s' = kept s \<Longrightarrow> tc_maxseq s \<le> tc_maxseq s' \<Longrightarrow> close_edge (tc_state s) (tc_state s') \<Longrightarrow> tx s s'"
  by (auto simp: tx_def kept_def)

lemma kept_conn_tx: "kept_conn s' = kept_conn s \<Longrightarrow> tx s s'"
  by (auto simp: kept_conn_iff close_edge_def intro!: kept_tx)

lemma foutput_tx: "foutput seqno reason s = Inr (amt, s') \<Longrightarrow> tx s s'"
  by (drule foutput_cases) (auto simp: close_edge_def intro!: kept_tx)

lemma sendpacket_tx: "sendpacket seqno ackno pflags n reason s = Inr s' \<Longrightarrow> tx s s'"
  by (intro kept_conn_tx sendpacket_sends(1))

lemma set_rtx_timer_tx: "set_rtx_timer s = Inr s' \<Longrightarrow> tx s s'"
  by (intro kept_conn_tx) (simp add: set_rtx_timer_kept)

lemma hole_loop_tx: "hole_loop n seq s = Inr (r, s') \<Longrightarrow> tx s s'"
proof (induction n arbitrary: seq s)
  case (Suc n)
  have q: "tx s (s\<lparr>tc_sq := q\<rparr>)" "tx s (s\<lparr>tc_sq := q, tc_h_seqno := h\<rparr>)" for q h by (simp_all add: tx_def close_edge_def)
  from Suc.prems q Suc.IH [THEN tx_trans [OF q(1)]] show ?case
    by (auto simp: Let_def split: prod.splits if_split_asm)
qed simp

lemma nxt_tseq_tx: "nxt_tseq s = Inr (r, s') \<Longrightarrow> tx s s'"
  by (auto simp: nxt_tseq_def dest: hole_loop_tx split: if_split_asm)

lemma sent_tx: "tx s (sent seq amt s)"
  by (simp add: tx_def close_edge_def sent_moves) (simp add: sent_def Let_def)

lemma send_loop_tx: "send_loop n force reason maxburst npackets s = Inr s' \<Longrightarrow> tx s s'"
proof (induction n arbitrary: force npackets s)
  case (Suc n)
  then obtain seq s1 where n: "nxt_tseq s = Inr (seq, s1)" by (auto simp: res_bind_Inr_iff)
  have t: "tx s1 (s1\<lparr>tc_draws := d, tc_delsnd_timer := x\<rparr>)" for d x by (simp add: tx_def close_edge_def)
  have o: "tx s1 (sent seq x s2)" if "foutput seq reason s1 = Inr (a, s2)" for a x s2
    using foutput_tx [OF that] sent_tx by (rule tx_trans)
  have i: "tx s1 s'" if "foutput seq reason s1 = Inr (a, s2)"
    "send_loop n False reason maxburst k (sent seq x s2) = Inr s'" for a x k s2
    using o [OF that(1)] Suc.IH [OF that(2)] by (rule tx_trans)
  have "tx s1 s'" using Suc.prems n t o i
    by (auto simp: res_bind_Inr_iff random_uniform_def Let_def split: if_split_asm intro: foutput_tx)
  with nxt_tseq_tx [OF n] show ?case by (rule tx_trans)
qed simp

lemma send_much_tx: "send_much force reason maxburst s = Inr s' \<Longrightarrow> tx s s'"
  by (auto simp: send_much_def dest: send_loop_tx split: if_split_asm)

section \<open>The reactions only transmit\<close>

lemma slowdown_tx: "tx s (slowdown how s)"
  by (intro kept_conn_tx) simp

text \<open>Fields that a transmitting step may change at will.\<close>

lemma tx_update:
  "tx s (s\<lparr>tc_dupacks := x\<rparr>)" "tx s (s\<lparr>tc_cwnd := y\<rparr>)" "tx s (s\<lparr>tc_recover := x\<rparr>)" "tx s (s\<lparr>tc_pipe := x\<rparr>)"
  by (simp_all add: tx_def close_edge_def)

lemma rtt_backoff_tx: "rtt_backoff s = Inr s' \<Longrightarrow> tx s s'"
proof -
  assume "rtt_backoff s = Inr s'"
  then obtain b s1 where m: "may_double s = Inr (b, s1)" and
    s': "s' = clobber_srtt (if b then s1\<lparr>tc_t_backoff := push_bit 1 (tc_t_backoff s1)\<rparr> else s1)"
    by (auto simp: rtt_backoff_def res_bind_Inr_iff simp del: push_bit_Suc)
  from m have "s1 = s \<or> s1 = s\<lparr>tc_use_rtt := False\<rparr>"
    by (auto simp: may_double_def res_bind_Inr_iff dest: rtt_timeout_state split: if_split_asm)
  then have "kept_conn s1 = kept_conn s" by auto
  moreover have "kept_conn (clobber_srtt t) = kept_conn t" for t by (simp add: clobber_srtt_def)
  ultimately have "kept_conn s' = kept_conn s" unfolding s' by simp
  then show "tx s s'" by (rule kept_conn_tx)
qed

lemma reset_rtx_timer_tx: "reset_rtx_timer s = Inr s' \<Longrightarrow> tx s s'"
proof -
  assume "reset_rtx_timer s = Inr s'"
  then obtain s1 s2 where a: "s1 = s \<or> rtt_backoff s = Inr s1" "set_rtx_timer s1 = Inr s2" "s' = s2\<lparr>tc_rtt_active := False\<rparr>"
    by (auto simp: reset_rtx_timer_def res_bind_Inr_iff split: if_split_asm)
  have "tx s s1" using a(1) by (auto dest: rtt_backoff_tx)
  also have "tx s1 s2" using a(2) by (rule set_rtx_timer_tx)
  also have "tx s2 s'" unfolding a(3) by (intro kept_conn_tx) simp
  finally show ?thesis .
qed

lemma ecn_slowdown_tx: "tx s (ecn_slowdown slowdown s)"
proof -
  have "kept_conn (ecn_slowdown slowdown s) = kept_conn s" by (simp add: ecn_slowdown_def Let_def split: send_kind.splits)
  then show ?thesis by (rule kept_conn_tx)
qed

lemma ecn_tx: "ecn slowdown seqno s = Inr s' \<Longrightarrow> tx s s'"
proof (cases "seqno > tc_recover s \<or> tc_last_cwnd_action s = CWA_TIMEOUT")
  case True
  let ?s1 = "s\<lparr>tc_recover := tc_maxseq s, tc_last_cwnd_action := CWA_ECN\<rparr>"
  assume "ecn slowdown seqno s = Inr s'"
  with True obtain s2 where s2: "rtt_backoff ?s1 = Inr s2 \<or> (\<exists>b. s2 = ?s1\<lparr>tc_ecn_backoff := b\<rparr>)"
    and s': "s' = (ecn_slowdown slowdown s2)\<lparr>tc_necnresponses := tc_necnresponses (ecn_slowdown slowdown s2) + 1\<rparr>"
    by (auto simp: ecn_def Let_def res_bind_Inr_iff split: if_split_asm)
  have "tx s ?s1" by (simp add: tx_def close_edge_def)
  also have "tx ?s1 s2" using s2 by (auto dest: rtt_backoff_tx simp: tx_def close_edge_def)
  also have "tx s2 (ecn_slowdown slowdown s2)" by (rule ecn_slowdown_tx)
  also have "tx (ecn_slowdown slowdown s2) s'" unfolding s' by (intro kept_conn_tx) simp
  finally show ?thesis .
qed (simp add: ecn_def)

lemma ecn_on_receive_ack_tx: "ecn_on_receive_ack p tiflags s = Inr s' \<Longrightarrow> tx s s'"
  by (auto simp: ecn_on_receive_ack_def res_bind_Inr_iff dest: ecn_tx set_rtx_timer_tx split: if_split_asm intro: tx_trans)

lemma fast_retransmit_tx: "fast_retransmit seq s = Inr (amt, s') \<Longrightarrow> tx s s'"
proof -
  assume "fast_retransmit seq s = Inr (amt, s')"
  then have "tx (s\<lparr>tc_recover := tc_maxseq s, tc_last_cwnd_action := CWA_DUPACK\<rparr>) s'"
    unfolding fast_retransmit_def by (rule foutput_tx)
  moreover have "tx s (s\<lparr>tc_recover := tc_maxseq s, tc_last_cwnd_action := CWA_DUPACK\<rparr>)" by (simp add: tx_def close_edge_def)
  ultimately show ?thesis using tx_trans by blast
qed

lemma sack_actions_tx: "tx s (sack_clear_acked s)" "tx s (sack_advance_h_seqno s)" "tx s (full_pack_action s)"
  by (simp_all add: sack_clear_acked_def sack_advance_h_seqno_def full_pack_action_def Let_def tx_def close_edge_def)

lemma ack_action_tx: "tx s (ack_action s)"
proof -
  have a: "tx s (s\<lparr>tc_maxburst := x, tc_save_maxburst := y\<rparr>)" "tx s (s\<lparr>tc_fastrecov := b, tc_pipectrl := c\<rparr>)" for x y b c
    by (simp_all add: tx_def close_edge_def)
  have "tx s ((sack_clear_acked (s\<lparr>tc_fastrecov := False, tc_pipectrl := False\<rparr>))\<lparr>tc_dupacks := 0\<rparr>)"
    using tx_trans [OF tx_trans [OF a(2) sack_actions_tx(1)] tx_update(1)] .
  from tx_trans [OF this sack_actions_tx(2)] tx_trans [OF a(1) sack_actions_tx(3)] sack_actions_tx(3) show ?thesis
    unfolding ack_action_def by (auto split: if_split)
qed

lemma pack_action_tx: "pack_action s = Inr s' \<Longrightarrow> tx s s'"
proof -
  assume p: "pack_action s = Inr s'"
  have a: "tx t (t\<lparr>tc_cwnd := w, tc_save_maxburst := x, tc_maxburst := y\<rparr>)" for t w x y
    by (simp add: tx_def close_edge_def)
  have b: "tx s (sack_advance_h_seqno ((sack_clear_acked s)\<lparr>tc_pipe := x\<rparr>))" for x
    using tx_trans [OF tx_trans [OF sack_actions_tx(1) tx_update(4)] sack_actions_tx(2)] .
  from p b sack_actions_tx(3) show ?thesis
    unfolding pack_action_def Let_def
    by (auto simp: res_bind_Inr_iff split: if_split_asm intro: tx_trans [OF fast_retransmit_tx a] tx_trans [OF fast_retransmit_tx tx_update(2)])
qed

lemma cancel_rtx_timer_tx: "tx s (cancel_rtx_timer s)"
  by (intro kept_conn_tx) (simp add: cancel_rtx_timer_def)

lemma cancel_timers_tx: "tx s (cancel_timers s)"
  by (intro kept_conn_tx) (simp add: cancel_timers_def)

text \<open>A step that ends in another one transmits if both do.\<close>

lemma tx_upto: "tx s t \<Longrightarrow> (\<And>u. f t = Inr u \<Longrightarrow> tx t u) \<Longrightarrow> f t = Inr s' \<Longrightarrow> tx s s'"
  by (blast intro: tx_trans)

lemma slowed_tx:
  "tx s ((cancel_rtx_timer (slowdown how s))\<lparr>tc_rtt_active := b\<rparr>)"
  "tx s ((cancel_rtx_timer (slowdown how s))\<lparr>tc_rtt_active := b, tc_recover := r\<rparr>)"
  "tx s ((cancel_rtx_timer (slowdown how s))\<lparr>tc_rtt_active := b, tc_pipectrl := q, tc_recover := r\<rparr>)"
  using tx_trans [OF slowdown_tx cancel_rtx_timer_tx, of s how] by (simp_all add: tx_def)

lemma full_reno_action_tx: "full_reno_action s = Inr s' \<Longrightarrow> tx s s'"
  unfolding full_reno_action_def Let_def
  by (auto simp: res_bind_Inr_iff intro: tx_trans [OF slowed_tx(2) tx_trans [OF fast_retransmit_tx tx_update(2)]])

lemma ecn_reno_action_tx: "ecn_reno_action s = Inr s' \<Longrightarrow> tx s s'"
  unfolding ecn_reno_action_def Let_def
  by (auto simp: res_bind_Inr_iff intro: tx_trans [OF slowed_tx(1) fast_retransmit_tx])

lemma tahoe_restart_tx: "tahoe_restart how s = Inr s' \<Longrightarrow> tx s s'"
proof -
  assume "tahoe_restart how s = Inr s'"
  then obtain t where t: "set_rtx_timer (slowdown how (s\<lparr>tc_last_cwnd_action := CWA_DUPACK\<rparr>)) = Inr t"
    "s' = t\<lparr>tc_rtt_active := False, tc_t_seqno := tc_highest_ack t\<rparr>" by (auto simp: tahoe_restart_def res_bind_Inr_iff)
  have "tx s (s\<lparr>tc_last_cwnd_action := CWA_DUPACK\<rparr>)" by (simp add: tx_def close_edge_def)
  also have "tx \<dots> (slowdown how (s\<lparr>tc_last_cwnd_action := CWA_DUPACK\<rparr>))" by (rule slowdown_tx)
  also have "tx \<dots> t" using t(1) by (rule set_rtx_timer_tx)
  finally show ?thesis unfolding t(2) by (simp add: tx_def)
qed

lemma full_tahoe_action_tx: "full_tahoe_action s = Inr s' \<Longrightarrow> tx s s'"
  unfolding full_tahoe_action_def
  by (auto simp: res_bind_Inr_iff intro: tx_trans [OF tx_update(3) tx_trans [OF tahoe_restart_tx send_much_tx]])

lemma sack_recover_tx: "sack_recover s = Inr s' \<Longrightarrow> tx s s'"
proof -
  assume "sack_recover s = Inr s'"
  then obtain amt t where t: "fast_retransmit (tc_highest_ack s) s = Inr (amt, t)"
    "send_much False DUPACK (tc_maxburst t) (t\<lparr>tc_pipectrl := True, tc_h_seqno := tc_highest_ack t + amt\<rparr>) = Inr s'"
    by (auto simp: sack_recover_def res_bind_Inr_iff)
  from fast_retransmit_tx [OF t(1)] have "tx s (t\<lparr>tc_pipectrl := True, tc_h_seqno := tc_highest_ack t + amt\<rparr>)"
    by (simp add: tx_def)
  from this send_much_tx [OF t(2)] show ?thesis by (rule tx_trans)
qed

lemma full_sack_action_tx: "full_sack_action s = Inr s' \<Longrightarrow> tx s s'"
  unfolding full_sack_action_def Let_def by (rule tx_upto [OF slowed_tx(3) sack_recover_tx])

lemma ecn_sack_action_tx: "ecn_sack_action s = Inr s' \<Longrightarrow> tx s s'"
proof -
  let ?s1 = "s\<lparr>tc_last_cwnd_action := CWA_DUPACK\<rparr>"
  let ?s2 = "if should_slowdown_on_dup_ack (send_tracker ?s1) then slowdown {SSTHRESH_HALF, CWND_HALF} ?s1 else ?s1"
  have "kept_conn ((cancel_rtx_timer ?s2)\<lparr>tc_rtt_active := False\<rparr>) = kept_conn s" by (simp add: cancel_rtx_timer_def)
  then have "tx s ((cancel_rtx_timer ?s2)\<lparr>tc_rtt_active := False\<rparr>)" by (rule kept_conn_tx)
  then show "ecn_sack_action s = Inr s' \<Longrightarrow> tx s s'"
    unfolding ecn_sack_action_def Let_def by (rule tx_upto [OF _ sack_recover_tx])
qed

lemma start_recovery_tx:
  "tx s (s\<lparr>tc_fastrecov := True, tc_rtxbytes := 0\<rparr>)" "tx s (s\<lparr>tc_fastrecov := True, tc_rtxbytes := 0, tc_pipe := p\<rparr>)"
  by (simp_all add: tx_def close_edge_def)

lemmas action_tx = full_reno_action_tx ecn_reno_action_tx tahoe_restart_tx full_tahoe_action_tx full_sack_action_tx
  ecn_sack_action_tx

lemma full_dupack_action_tx: "full_dupack_action s = Inr s' \<Longrightarrow> tx s s'"
  unfolding full_dupack_action_def Let_def
  by (auto split: if_split_asm intro: start_recovery_tx tx_trans [OF start_recovery_tx(1) action_tx(1)]
      tx_trans [OF start_recovery_tx(1) action_tx(2)])

lemma tahoe_dupack_action_tx: "tahoe_dupack_action s = Inr s' \<Longrightarrow> tx s s'"
  unfolding tahoe_dupack_action_def Let_def
  by (auto split: if_split_asm intro: start_recovery_tx tx_trans [OF start_recovery_tx(1) action_tx(3)]
      tx_trans [OF start_recovery_tx(1) action_tx(4)])

lemma sack_dupack_action_tx: "sack_dupack_action s = Inr s' \<Longrightarrow> tx s s'"
  unfolding sack_dupack_action_def Let_def
  by (auto split: if_split_asm intro: start_recovery_tx tx_trans [OF start_recovery_tx(2) action_tx(5)]
      tx_trans [OF start_recovery_tx(2) action_tx(6)])

lemma dupack_action_tx: "dupack_action s = Inr s' \<Longrightarrow> tx s s'"
  by (auto simp: dupack_action_def dest: full_dupack_action_tx tahoe_dupack_action_tx sack_dupack_action_tx split: if_split_asm)

lemma full_timeout_action_tx: "full_timeout_action s = Inr s' \<Longrightarrow> tx s s'"
proof -
  assume a: "full_timeout_action s = Inr s'"
  define s2 where "s2 = (if tc_cwnd s < 1 then s\<lparr>tc_recover := tc_maxseq s, tc_cwnd := 1\<rparr> else s\<lparr>tc_recover := tc_maxseq s\<rparr>)"
  define s3 where "s3 = (if tc_last_cwnd_action s2 = CWA_ECN then slowdown {CWND_ONE} s2
    else (slowdown {SSTHRESH_HALF, CWND_RESTART} s2)\<lparr>tc_last_cwnd_action := CWA_TIMEOUT\<rparr>)"
  have "tx s s2" by (simp add: s2_def tx_def close_edge_def)
  also have "kept_conn s3 = kept_conn s2" by (simp add: s3_def)
  then have "tx s2 s3" by (rule kept_conn_tx)
  finally have s3: "tx s s3" .
  have eq: "(if tc_cwnd (s\<lparr>tc_recover := tc_maxseq s\<rparr>) < 1 then s\<lparr>tc_recover := tc_maxseq s\<rparr>\<lparr>tc_cwnd := 1\<rparr>
     else s\<lparr>tc_recover := tc_maxseq s\<rparr>) = s2" by (simp add: s2_def)
  from a obtain s4 where s4: "reset_rtx_timer s3 = Inr s4" and "\<exists>n t. s' = s4\<lparr>tc_t_seqno := n, tc_ecnhat_send := t, tc_fastrecov := False, tc_dupacks := 0\<rparr>"
    unfolding full_timeout_action_def Let_def eq s3_def [symmetric] res_bind_Inr_iff by blast
  then have "tx s4 s'" by (auto simp: tx_def close_edge_def)
  with s3 reset_rtx_timer_tx [OF s4] show ?thesis by (blast intro: tx_trans)
qed

lemma timeout_action_tx: "timeout_action s = Inr s' \<Longrightarrow> tx s s'"
proof -
  have k: "tx t (t\<lparr>tc_sq := q\<rparr>)" "tx t (t\<lparr>tc_prob_count := n, tc_prob_mode := b, tc_h_seqno := h\<rparr>)" for t q n b h
    by (simp_all add: tx_def close_edge_def)
  have sk: "sack_timeout_action t = Inr s' \<Longrightarrow> tx t s'" for t
    by (auto simp: sack_timeout_action_def res_bind_Inr_iff dest!: full_timeout_action_tx intro: tx_trans [OF _ k(1)])
  have "min_timeout_action s = Inr s' \<Longrightarrow> tx s s'"
    by (auto simp: min_timeout_action_def dest!: sk intro: tx_trans [OF k(2)] split: if_split_asm)
  with sk full_timeout_action_tx show "timeout_action s = Inr s' \<Longrightarrow> tx s s'"
    by (auto simp: timeout_action_def split: if_split_asm)
qed

lemma timeout_tx: "timeout tno s = Inr s' \<Longrightarrow> tx s s'"
proof -
  have k: "tx s (s\<lparr>tc_nrexmit := n\<rparr>)" "tx s (s\<lparr>tc_TF_DELACK := b, tc_TF_ACKNOW := c\<rparr>)" for n b c
    by (simp_all add: tx_def close_edge_def)
  show "timeout tno s = Inr s' \<Longrightarrow> tx s s'"
    by (cases tno) (auto simp: timeout_def res_bind_Inr_iff split: if_split_asm dest: send_much_tx
        intro: tx_trans [OF tx_trans [OF k(1) timeout_action_tx] send_much_tx] tx_trans [OF k(2) send_much_tx])
qed

lemma accumulate_kept [simp]: "kept_conn (accumulate f s) = kept_conn s"
  by (simp add: accumulate_def)

lemma cwnd_add_limited_kept [simp]: "kept_conn (cwnd_add_limited i s) = kept_conn s"
  by (simp add: cwnd_add_limited_def Let_def)

lemma opencwnd_multiplier_kept: "opencwnd_multiplier s = Inr (m, s') \<Longrightarrow> kept_conn s' = kept_conn s"
  by (auto simp: opencwnd_multiplier_def Let_def split: if_split_asm)

lemma increase_param_kept: "increase_param s = (i, s') \<Longrightarrow> kept_conn s' = kept_conn s"
  unfolding increase_param_def Let_def by (simp split: if_split_asm) auto

lemma opencwnd_linear_kept: "opencwnd_linear s = Inr s' \<Longrightarrow> kept_conn s' = kept_conn s"
proof -
  have a: "kept_conn s' = kept_conn s" if "res_bind (opencwnd_multiplier s) (\<lambda>(m, s1). Inr (cwnd_add_limited (f m s1) s1)) = Inr s'" for f
    using that by (auto simp: res_bind_Inr_iff dest: opencwnd_multiplier_kept)
  have b: "kept_conn s' = kept_conn s" if "(case increase_param s of (inc, s1) \<Rightarrow> Inr (cwnd_add_limited inc s1)) = (Inr s' :: tcp_agent res)"
    using that by (auto split: prod.splits dest: increase_param_kept)
  show "opencwnd_linear s = Inr s' \<Longrightarrow> kept_conn s' = kept_conn s"
    unfolding opencwnd_linear_def Let_def using a b by (simp only: split: if_split_asm) auto
qed

lemma opencwnd_tx: "opencwnd s = Inr s' \<Longrightarrow> tx s s'"
proof -
  assume "opencwnd s = Inr s'"
  then obtain s1 where "(if tc_cwnd s < of_int (tc_ssthresh s) then
          Inr (if cf_ecnhat_enable_beta (tc_cfg s) then s\<lparr>tc_cwnd := tc_cwnd s + tc_ecnhat_beta s / tc_cwnd s\<rparr>
               else s\<lparr>tc_cwnd := tc_cwnd s + 1\<rparr>)
        else opencwnd_linear
            (if cf_lldct (tc_cfg s)
             then s\<lparr>tc_lldct_w_c := lldct_weight s, tc_increase_num := lldct_weight s / cf_lldct_w_max (tc_cfg s)\<rparr>
             else s)) = Inr s1" and "s' = s1 \<or> (\<exists>m. s' = s1\<lparr>tc_cwnd := m\<rparr>)"
    unfolding opencwnd_def res_bind_Inr_iff Let_def by (auto split: if_split_asm)
  then have "kept_conn s1 = kept_conn s" "kept_conn s' = kept_conn s1"
    by (auto split: if_split_asm dest!: opencwnd_linear_kept)
  then show ?thesis by (intro kept_conn_tx) simp
qed

end
