(* ===== verification/TcpDiagram.thy ===== *)
theory TcpDiagram
  imports TcpConn
begin

text \<open>
  The connection as a state machine: which transitions of the connection a received segment can cause, and what any
  sequence of segments, timeouts and calls of the application keeps of the agent.
\<close>

section \<open>The state diagram\<close>

text \<open>The transitions by acknowledgements and by the FIN of \<open>close_on_empty_\<close>, those that a FIN or a SYN of the
  peer causes, and the close that \<open>recv\<close> does on its own.\<close>

inductive ack_edge :: "TcpState \<Rightarrow> TcpState \<Rightarrow> bool" where
  syn_acked: "ack_edge SYN_RECEIVED ESTABLISHED"
| close_syn_sent: "ack_edge SYN_SENT FIN_WAIT_1"
| close_syn_received: "ack_edge SYN_RECEIVED FIN_WAIT_1"
| close_established: "ack_edge ESTABLISHED FIN_WAIT_1"
| fin_acked: "ack_edge FIN_WAIT_1 FIN_WAIT_2"
| closing_acked: "ack_edge CLOSING CLOSED"

inductive recv_edge :: "TcpState \<Rightarrow> TcpState \<Rightarrow> bool" where
  ack: "ack_edge a b \<Longrightarrow> recv_edge a b"
| syn: "recv_edge LISTEN SYN_RECEIVED"
| syn_ack: "recv_edge SYN_SENT ESTABLISHED"
| simultaneous_open: "recv_edge SYN_SENT SYN_RECEIVED"
| fin_syn_received: "recv_edge SYN_RECEIVED CLOSE_WAIT"
| fin: "recv_edge ESTABLISHED CLOSE_WAIT"
| fin_closing: "recv_edge FIN_WAIT_1 CLOSING"
| fin_last: "recv_edge FIN_WAIT_2 CLOSED"
| close: "recv_edge CLOSE_WAIT LAST_ACK"
| last_acked: "recv_edge LAST_ACK CLOSED"

inductive_simps ack_edge_iff: "ack_edge a b"
inductive_simps recv_edge_iff: "recv_edge a b"

text \<open>The transitions as steps of the closure.\<close>

lemma recv_edge_steps:
  "recv_edge\<^sup>*\<^sup>* LISTEN SYN_RECEIVED" "recv_edge\<^sup>*\<^sup>* SYN_SENT ESTABLISHED" "recv_edge\<^sup>*\<^sup>* SYN_SENT SYN_RECEIVED"
  "recv_edge\<^sup>*\<^sup>* SYN_RECEIVED CLOSE_WAIT" "recv_edge\<^sup>*\<^sup>* ESTABLISHED CLOSE_WAIT" "recv_edge\<^sup>*\<^sup>* FIN_WAIT_1 CLOSING"
  "recv_edge\<^sup>*\<^sup>* FIN_WAIT_2 CLOSED" "recv_edge\<^sup>*\<^sup>* CLOSE_WAIT LAST_ACK" "recv_edge\<^sup>*\<^sup>* LAST_ACK CLOSED"
  "recv_edge\<^sup>*\<^sup>* SYN_SENT FIN_WAIT_1"
  by (intro r_into_rtranclp recv_edge.intros ack_edge.intros)+

lemma close_edge_ack: "close_edge a b \<Longrightarrow> a \<noteq> LISTEN \<Longrightarrow> ack_edge\<^sup>*\<^sup>* a b"
  unfolding close_edge_def less_eq_TcpState_def
  by (cases a) (auto intro: ack_edge.intros)

lemma ack_edges_recv: "ack_edge\<^sup>*\<^sup>* a b \<Longrightarrow> recv_edge\<^sup>*\<^sup>* a b"
  by (erule rtranclp.induct) (auto intro: recv_edge.ack rtranclp.rtrancl_into_rtrancl)

lemma not_listen: "recv_edge\<^sup>*\<^sup>* a b \<Longrightarrow> a \<noteq> LISTEN \<Longrightarrow> b \<noteq> LISTEN"
  by (induction rule: rtranclp.induct) (auto simp: recv_edge_iff ack_edge_iff)

section \<open>Steps of the receiving side\<close>

text \<open>Every acknowledgement is one of something sent.\<close>

definition acks_sent :: "tcp_agent \<Rightarrow> bool" where
  "acks_sent s = (tc_highest_ack s \<le> tc_maxseq s)"

text \<open>A step that acknowledges and transmits, but takes no data.\<close>

definition ax :: "tcp_agent \<Rightarrow> tcp_agent \<Rightarrow> bool" where
  "ax s s' \<longleftrightarrow> (tc_cfg s', tc_rq s', tc_fid s', received_in (tc_log s')) = (tc_cfg s, tc_rq s, tc_fid s, received_in (tc_log s)) \<and>
     tc_maxseq s \<le> tc_maxseq s' \<and> (acks_sent s \<longrightarrow> acks_sent s') \<and>
     (tc_state s \<noteq> LISTEN \<longrightarrow> ack_edge\<^sup>*\<^sup>* (tc_state s) (tc_state s'))"

text \<open>Any step on a segment.\<close>

definition rx :: "tcp_agent \<Rightarrow> tcp_agent \<Rightarrow> bool" where
  "rx s s' \<longleftrightarrow> tc_cfg s' = tc_cfg s \<and> (acks_sent s \<longrightarrow> acks_sent s') \<and>
     (tc_state s \<noteq> LISTEN \<longrightarrow> recv_edge\<^sup>*\<^sup>* (tc_state s) (tc_state s'))"

lemma ax_refl [simp]: "ax s s"
  by (simp add: ax_def)

lemma rx_refl [simp]: "rx s s"
  by (simp add: rx_def)

lemma ax_trans [trans]: "ax s t \<Longrightarrow> ax t u \<Longrightarrow> ax s u"
  unfolding ax_def using not_listen [OF ack_edges_recv] by (auto intro: rtranclp_trans)

lemma rx_trans [trans]: "rx s t \<Longrightarrow> rx t u \<Longrightarrow> rx s u"
  unfolding rx_def using not_listen by (auto intro: rtranclp_trans)

lemma tx_ax: "tx s s' \<Longrightarrow> ax s s'"
  by (auto simp: tx_def ax_def acks_sent_def close_edge_ack)

lemma ax_rx: "ax s s' \<Longrightarrow> rx s s'"
  by (auto simp: ax_def rx_def ack_edges_recv)

lemma tx_rx: "tx s s' \<Longrightarrow> rx s s'"
  by (intro ax_rx tx_ax)

lemma kept_conn_ax: "kept_conn s' = kept_conn s \<Longrightarrow> ax s s'"
  by (intro tx_ax kept_conn_tx)

lemma rtt_update_kept [simp]: "kept_conn (rtt_update tao s) = kept_conn s"
  unfolding rtt_update_def Let_def by (simp split: prod.split)

lemma newack_sample_kept [simp]: "kept_conn (newack_sample p s) = kept_conn s"
  by (simp add: newack_sample_def Let_def)

lemma newack_advance_simps [simp]:
  "tc_highest_ack (newack_advance a s) = max (tc_highest_ack s) a" "tc_state (newack_advance a s) = tc_state s"
  "tc_maxseq (newack_advance a s) = tc_maxseq s" "tc_cfg (newack_advance a s) = tc_cfg s"
  "tc_rq (newack_advance a s) = tc_rq s" "tc_fid (newack_advance a s) = tc_fid s" "tc_log (newack_advance a s) = tc_log s"
  by (simp_all add: newack_advance_def Let_def)

lemma newack_ax:
  assumes "newack p s = Inr s'" "tcp_ackno (pk_tcp p) \<le> tc_maxseq s"
  shows "ax s s'" "tc_state s' = tc_state s" "tc_highest_ack s' = max (tc_highest_ack s) (tcp_ackno (pk_tcp p))"
proof -
  let ?a = "tcp_ackno (pk_tcp p)"
  from assms(1) obtain s1 where s1: "newack_timer ?a (s\<lparr>tc_prob_mode := False, tc_prob_count := 0\<rparr>) = Inr s1"
    and s': "s' = (if fl_no_ts (pk_flags p) then newack_advance ?a s1 else newack_sample p (newack_advance ?a s1))"
    by (auto simp: newack_def res_bind_Inr_iff Let_def)
  have k: "kept_conn s1 = kept_conn s"
    using s1 by (auto simp: newack_timer_def cancel_rtx_timer_def dest: set_rtx_timer_kept split: if_split_asm)
  then have q: "kept_conn s' = kept_conn (newack_advance ?a s1)" unfolding s' by simp
  have a: "ax s (newack_advance ?a s1)" using k assms(2) keptD [of s1 s] by (simp add: ax_def acks_sent_def kept_conn_iff)
  show "ax s s'" by (rule ax_trans [OF a kept_conn_ax [OF q]])
  show "tc_state s' = tc_state s" "tc_highest_ack s' = max (tc_highest_ack s) ?a"
    using q k keptD(3) [of s' "newack_advance ?a s1"] keptD(3) [of s1 s] by (simp_all add: kept_conn_iff)
qed

lemma ax_update [simp]:
  "ax s (s\<lparr>tc_pipe := x\<rparr>)" "ax s (s\<lparr>tc_dupacks := d, tc_fastrecov := b\<rparr>)" "ax s (s\<lparr>tc_dupacks := d\<rparr>)"
  "ax s (s\<lparr>tc_last_sqtotal := n\<rparr>)" "ax s (s\<lparr>tc_last_sqtotal := n, tc_sq := q, tc_cur_sqtotal := m\<rparr>)"
  "ax s (s\<lparr>tc_recv_tracker := t\<rparr>)" "ax s (s\<lparr>tc_cwnd := w\<rparr>)"
  by (simp_all add: ax_def acks_sent_def)

lemma process_sack_ax: "process_sack h s = Inr s' \<Longrightarrow> ax s s'"
  by (auto simp: process_sack_def Let_def res_bind_Inr_iff split: if_split_asm)

lemma update_state_new_packet_ax: "ax s (update_state_new_packet p b s)"
  by (simp add: update_state_new_packet_def)

lemma dynamic_threshold_ax: "ax s (dynamic_threshold s)"
  by (intro kept_conn_ax) (simp add: dynamic_threshold_def Let_def)

lemma recv_dupack_ax:
  assumes "recv_dupack v s = Inr (l, v', s')"
  shows "ax s s'" "v' = v" "l = Goto_step6 \<or> (l = Goto_drop \<and> rv_datalen v = 0)"
proof -
  let ?s1 = "dynamic_threshold s"
  have d: "ax s (?s1\<lparr>tc_dupacks := d\<rparr>)" for d using dynamic_threshold_ax ax_update(3) by (rule ax_trans)
  have w: "ax s (?s1\<lparr>tc_dupacks := d, tc_cwnd := x\<rparr>)" for d x using d ax_update(7) by (rule ax_trans)
  note n = ax_trans [OF d tx_ax [OF dupack_action_tx]] ax_trans [OF d tx_ax [OF send_much_tx]] ax_trans [OF w tx_ax [OF send_much_tx]]
  show "ax s s'" "v' = v" "l = Goto_step6 \<or> (l = Goto_drop \<and> rv_datalen v = 0)" using assms
    unfolding recv_dupack_def Let_def
    by (auto simp: res_bind_Inr_iff d split: if_split_asm intro: n)
qed

lemma set_initial_window_kept: "set_initial_window s = Inr s' \<Longrightarrow> kept_conn s' = kept_conn s"
  by (auto simp: set_initial_window_def Let_def res_bind_Inr_iff split: if_split_asm)

lemma reset_stages [simp]:
  "tc_cfg (rtt_init s) = tc_cfg s" "tc_state (rtt_init s) = tc_state s" "tc_maxseq (rtt_init s) = tc_maxseq s"
  "tc_highest_ack (rtt_init s) = tc_highest_ack s" "tc_log (rtt_init s) = tc_log s"
  "tc_cfg (reset_connection s) = tc_cfg s" "tc_state (reset_connection s) = tc_state s"
  "tc_highest_ack (reset_connection s) = -1" "tc_maxseq (reset_connection s) = -1"
  by (simp_all add: rtt_init_def reset_connection_def Let_def)

lemma reset_kept [simp]: "kept_conn (reset_options s) = kept_conn s" "kept_conn (reset_counters s) = kept_conn s"
  "kept_conn (cancel_timers s) = kept_conn s"
  by (simp_all add: reset_options_def reset_counters_def random_uniform_def cancel_timers_def Let_def)

lemma reset_rx:
  assumes "reset s = Inr s'"
  shows "rx s s'" "tc_state s' = tc_state s"
proof -
  define s0 where "s0 = cancel_timers (if is_sack (cf_class (tc_cfg s))
    then s\<lparr>tc_sq := (rq_clear (tc_sq s))\<lparr>rq_rcv_nxt := -1\<rparr>, tc_h_seqno := -1\<rparr> else s)"
  have s0: "tc_cfg s0 = tc_cfg s" "tc_state s0 = tc_state s" by (simp_all add: s0_def cancel_timers_def)
  from assms have "full_reset (if is_sack (cf_class (tc_cfg s))
    then s\<lparr>tc_sq := (rq_clear (tc_sq s))\<lparr>rq_rcv_nxt := -1\<rparr>, tc_h_seqno := -1\<rparr> else s) = Inr s'"
    by (simp add: reset_def split: if_split_asm)
  then obtain s1 where s1: "set_initial_window ((rtt_init s0)\<lparr>tc_rtt_seq := -1, tc_dupacks := 0, tc_curseq := 0\<rparr>) = Inr s1"
    and s': "s' = full_reset_rest (reset_options (reset_counters (reset_connection s1)))"
    by (auto simp: full_reset_def tcp_reset_def s0_def res_bind_Inr_iff)
  let ?s2 = "reset_options (reset_counters (reset_connection s1))"
  have "kept_conn s1 = kept_conn ((rtt_init s0)\<lparr>tc_rtt_seq := -1, tc_dupacks := 0, tc_curseq := 0\<rparr>)"
    by (rule set_initial_window_kept [OF s1])
  then have 1: "tc_cfg s1 = tc_cfg s" "tc_state s1 = tc_state s"
    using keptD(1) [of s1 "(rtt_init s0)\<lparr>tc_rtt_seq := -1, tc_dupacks := 0, tc_curseq := 0\<rparr>"] s0
    by (simp_all add: kept_conn_iff)
  have "kept_conn ?s2 = kept_conn (reset_connection s1)" by simp
  then have 2: "tc_cfg ?s2 = tc_cfg s" "tc_state ?s2 = tc_state s" "tc_highest_ack ?s2 = -1"
    using 1 keptD(1,3) [of ?s2 "reset_connection s1"] by (simp_all add: kept_conn_iff del: reset_kept)
  show "rx s s'" "tc_state s' = tc_state s"
    using 2 unfolding s' full_reset_rest_def Let_def set_rcv_nxt_def by (simp_all add: rx_def acks_sent_def)
qed

section \<open>Acknowledgements\<close>

text \<open>The parts of the segment that are fixed after trimming.\<close>

definition same_segment :: "recv_vars \<Rightarrow> recv_vars \<Rightarrow> bool" where
  "same_segment v v' \<longleftrightarrow> rv_pkt v' = rv_pkt v \<and> rv_datalen v' = rv_datalen v \<and> rv_tiflags v' = rv_tiflags v"

lemma same_segment_refl [simp]: "same_segment v v"
  by (simp add: same_segment_def)

lemma ax_state:
  "tc_state s = FIN_WAIT_1 \<Longrightarrow> ax s (cancel_timers (s\<lparr>tc_state := FIN_WAIT_2\<rparr>))"
  "tc_state s = CLOSING \<Longrightarrow> ax s (cancel_timers (s\<lparr>tc_state := CLOSED\<rparr>))"
  by (auto simp: ax_def cancel_timers_def acks_sent_def intro: ack_edge.intros)

lemma recv_closing_rx:
  assumes "recv_closing v s = Inr (l, v', s')"
  shows "rx s s'" "tc_state s \<noteq> LAST_ACK \<Longrightarrow> ax s s' \<and> l = Goto_step6" "same_segment v v'"
    "l = Goto_step6 \<or> l = Goto_drop"
proof -
  have "rx s (upcall Done (s\<lparr>tc_state := CLOSED\<rparr>))" if "tc_state s = LAST_ACK"
    using that by (auto simp: rx_def acks_sent_def upcall_def intro: recv_edge_steps)
  note r = rx_trans [OF this reset_rx(1)]
  show "rx s s'" "tc_state s \<noteq> LAST_ACK \<Longrightarrow> ax s s' \<and> l = Goto_step6" "same_segment v v'" "l = Goto_step6 \<or> l = Goto_drop"
    using assms unfolding recv_closing_def Let_def
    by (auto simp: res_bind_Inr_iff same_segment_def split: if_split_asm intro: r ax_state ax_rx)
qed

lemma not_last: "ack_edge\<^sup>*\<^sup>* a b \<Longrightarrow> a \<noteq> LAST_ACK \<Longrightarrow> b \<noteq> LAST_ACK"
  by (induction rule: rtranclp.induct) (auto simp: ack_edge_iff)

lemma ax_not_last: "ax s s' \<Longrightarrow> tc_state s \<noteq> LISTEN \<Longrightarrow> tc_state s \<noteq> LAST_ACK \<Longrightarrow> tc_state s' \<noteq> LAST_ACK"
  using not_last by (auto simp: ax_def)

lemma on_receive_newack_ax: "ax s (on_receive_newack p s)"
  by (intro kept_conn_ax) (simp add: on_receive_newack_def)

lemma recv_process_ACK_ax:
  assumes "recv_process_ACK v s = Inr (l, v', s')"
  shows "rx s s'" "same_segment v v'"
    "l = Goto_step6 \<or> l = Goto_drop \<or> (l = Goto_dropafterack \<and> rv_ackno v > tc_maxseq s)"
    "tc_state s \<noteq> LISTEN \<Longrightarrow> tc_state s \<noteq> LAST_ACK \<Longrightarrow> ax s s' \<and> l \<noteq> Goto_drop"
proof -
  let ?Q = "rx s s' \<and> same_segment v v' \<and> (l = Goto_step6 \<or> l = Goto_drop \<or> (l = Goto_dropafterack \<and> rv_ackno v > tc_maxseq s)) \<and>
    (tc_state s \<noteq> LISTEN \<longrightarrow> tc_state s \<noteq> LAST_ACK \<longrightarrow> ax s s' \<and> l \<noteq> Goto_drop)"
  have ?Q
  proof (cases "rv_ackno v > tc_maxseq s")
    case True
    with assms show ?thesis by (simp add: recv_process_ACK_def)
  next
    case False
    with assms obtain s1 s2 s3 where
      1: "newack (rv_pkt v) s = Inr s1" and
      2: "(if pack (rv_pkt v) s1 then pack_action s1 else Inr (ack_action s1)) = Inr s2" and
      3: "ecn_on_receive_ack (rv_pkt v) (rv_tiflags v) s2 = Inr s3" and
      r: "(let v1 = v\<lparr>rv_needoutput := (rv_needoutput v \<or> rv_ackno v = tc_maxseq s3)\<rparr>
           in if rv_ackno v = tc_highest_ack s3 + 1 then Inr (Goto_step6, v1, s3)
              else res_bind
                  (if (\<not> cf_delay_growth (tc_cfg s3) \<or> tc_rcv_nxt s3 > 0) \<and> tc_last_state s3 = ESTABLISHED \<and>
                      (\<not> pack (rv_pkt v) s1 \<or> cf_open_cwnd_on_pack (tc_cfg s3)) \<and> can_open_cwnd (rv_pkt v) s3
                   then opencwnd s3 else Inr s3)
                  (\<lambda>s4. recv_closing v1 (on_receive_newack (rv_pkt v) s4))) = Inr (l, v', s')"
      unfolding recv_process_ACK_def by (auto simp: Let_def res_bind_Inr_iff)
    have "ax s s1" using newack_ax(1) [OF 1] False by simp
    also have "tx s1 s2" using 2 ack_action_tx by (auto dest: pack_action_tx split: if_split_asm)
    then have "ax s1 s2" by (rule tx_ax)
    also have "ax s2 s3" using ecn_on_receive_ack_tx [OF 3] by (rule tx_ax)
    finally have 3: "ax s s3" .
    let ?v1 = "v\<lparr>rv_needoutput := (rv_needoutput v \<or> rv_ackno v = tc_maxseq s3)\<rparr>"
    have v1: "same_segment v v'" if "same_segment ?v1 v'" using that by (simp add: same_segment_def)
    show ?thesis
    proof (cases "rv_ackno v = tc_highest_ack s3 + 1")
      case True
      with r 3 ax_rx [OF 3] show ?thesis by (auto simp: same_segment_def)
    next
      case False
      with r obtain s4 where 4: "s4 = s3 \<or> opencwnd s3 = Inr s4"
        "recv_closing ?v1 (on_receive_newack (rv_pkt v) s4) = Inr (l, v', s')"
        by (auto simp: Let_def res_bind_Inr_iff split: if_split_asm)
      let ?s5 = "on_receive_newack (rv_pkt v) s4"
      have "ax s3 s4" using 4(1) opencwnd_tx [THEN tx_ax] by auto
      from ax_trans [OF ax_trans [OF 3 this] on_receive_newack_ax] have 5: "ax s ?s5" .
      note c = recv_closing_rx [OF 4(2)]
      show ?thesis using rx_trans [OF ax_rx [OF 5] c(1)] c(2-4) v1 ax_not_last [OF 5] ax_trans [OF 5, of s'] by blast
    qed
  qed
  then show "rx s s'" "same_segment v v'"
    "l = Goto_step6 \<or> l = Goto_drop \<or> (l = Goto_dropafterack \<and> rv_ackno v > tc_maxseq s)"
    "tc_state s \<noteq> LISTEN \<Longrightarrow> tc_state s \<noteq> LAST_ACK \<Longrightarrow> ax s s' \<and> l \<noteq> Goto_drop" by auto
qed

lemma recv_established_ax:
  assumes "recv_established v s = Inr (l, v', s')"
  shows "rx s s'" "same_segment v v'"
    "l = Goto_step6 \<or> l = Goto_drop \<or> (l = Goto_dropafterack \<and> rv_ackno v > tc_maxseq s)"
    "tc_state s \<noteq> LISTEN \<Longrightarrow> tc_state s \<noteq> LAST_ACK \<Longrightarrow> ax s s' \<and> (l = Goto_drop \<longrightarrow> rv_datalen v = 0)"
proof -
  let ?s1 = "update_state_new_packet (rv_pkt v) (rv_datalen v > 0) s"
  have k: "kept_conn ?s1 = kept_conn s" by (simp add: update_state_new_packet_def)
  from assms obtain s2 where s2: "(if tc_state ?s1 \<ge> ESTABLISHED \<and> tcp_sack_area (pk_tcp (rv_pkt v)) \<noteq> []
        then process_sack (pk_tcp (rv_pkt v)) ?s1 else Inr ?s1) = Inr s2"
    and r: "(let s3 = (if tc_fastrecov s2 \<and> (rv_datalen v = 0 \<or> rv_ackno v > tc_highest_ack s2)
                    then s2\<lparr>tc_pipe := tc_pipe s2 - tc_maxseg s2\<rparr> else s2)
          in if rv_ackno v \<le> tc_highest_ack s3 then recv_dupack v s3 else recv_process_ACK v s3) = Inr (l, v', s')"
    unfolding recv_established_def by (auto simp: Let_def res_bind_Inr_iff)
  define s3 where "s3 = (if tc_fastrecov s2 \<and> (rv_datalen v = 0 \<or> rv_ackno v > tc_highest_ack s2)
                    then s2\<lparr>tc_pipe := tc_pipe s2 - tc_maxseg s2\<rparr> else s2)"
  have m: "tc_maxseq s3 = tc_maxseq s" using s2 k
    by (auto simp: s3_def process_sack_def Let_def res_bind_Inr_iff kept_conn_iff split: if_split_asm)
  have st: "tc_state s3 = tc_state s" using s2 k
    by (auto simp: s3_def process_sack_def Let_def res_bind_Inr_iff kept_conn_iff split: if_split_asm)
  have "ax s ?s1" by (rule update_state_new_packet_ax)
  also have "ax ?s1 s2" using s2 by (auto dest: process_sack_ax split: if_split_asm)
  also have "ax s2 s3" by (simp add: s3_def)
  finally have 3: "ax s s3" .
  note t = rx_trans [OF ax_rx [OF 3]] ax_trans [OF 3]
  show "rx s s'" "same_segment v v'"
    "l = Goto_step6 \<or> l = Goto_drop \<or> (l = Goto_dropafterack \<and> rv_ackno v > tc_maxseq s)"
    "tc_state s \<noteq> LISTEN \<Longrightarrow> tc_state s \<noteq> LAST_ACK \<Longrightarrow> ax s s' \<and> (l = Goto_drop \<longrightarrow> rv_datalen v = 0)"
    using r [unfolded Let_def, folded s3_def] m st
    by (auto dest: recv_dupack_ax recv_process_ACK_ax intro: t ax_rx split: if_split_asm)
qed

lemma established_ax:
  "tc_state s = SYN_RECEIVED \<Longrightarrow> ax s (s\<lparr>tc_state := FIN_WAIT_1, tc_TF_NEEDFIN := False\<rparr>)"
  "tc_state s = SYN_RECEIVED \<Longrightarrow> ax s (s\<lparr>tc_state := ESTABLISHED\<rparr>)"
  by (auto simp: ax_def acks_sent_def intro: ack_edge.intros)

lemma retry_syn_ack_tx: "retry_syn_ack s = Inr s' \<Longrightarrow> tx s s'"
proof -
  assume "retry_syn_ack s = Inr s'"
  then obtain amt s1 where f: "foutput (cf_iss (tc_cfg s)) NORMAL ((cancel_rtx_timer s)\<lparr>tc_ecn_syn_next := False\<rparr>) = Inr (amt, s1)"
    and s': "s' = s1\<lparr>tc_wnd_init_option := 1, tc_wnd_init := 1\<rparr>" by (auto simp: retry_syn_ack_def res_bind_Inr_iff)
  have "tx s ((cancel_rtx_timer s)\<lparr>tc_ecn_syn_next := False\<rparr>)" by (intro kept_conn_tx) (simp add: cancel_rtx_timer_def)
  also note foutput_tx [OF f]
  also have "tx s1 s'" unfolding s' by (intro kept_conn_tx) simp
  finally show ?thesis .
qed

lemma on_receive_syn_ack_ack_tx:
  "on_receive_syn_ack_ack fh s = Inr (d, s') \<Longrightarrow> tx s s' \<and> (d \<noteq> CONGESTION_DROP \<longrightarrow> tc_state s' = tc_state s)"
  by (auto simp: on_receive_syn_ack_ack_def res_bind_Inr_iff tx_def close_edge_def
      dest: retry_syn_ack_tx split: if_split_asm EcnSynAckAction.splits)

lemma recv_syn_received_ax:
  assumes "recv_syn_received v s = Inr (l, v', s')" "tc_state s = SYN_RECEIVED"
  shows "ax s s'" "v' = v" "l = Next \<or> l = Goto_drop \<or> l = Goto_dropwithreset"
    "l = Next \<Longrightarrow> tc_state s' = ESTABLISHED \<or> tc_state s' = FIN_WAIT_1"
proof -
  let ?Q = "ax s s' \<and> v' = v \<and> (l = Next \<or> l = Goto_drop \<or> l = Goto_dropwithreset) \<and>
     (l = Next \<longrightarrow> tc_state s' = ESTABLISHED \<or> tc_state s' = FIN_WAIT_1)"
  have ?Q
  proof (cases "rv_ackno v < tc_highest_ack s \<or> rv_ackno v > tc_maxseq s")
    case False
    with assms(1) obtain d s1 where 1: "on_receive_syn_ack_ack (pk_flags (rv_pkt v)) s = Inr (d, s1)"
      and r: "(if d = CONGESTION_DROP then Inr (Goto_drop, v, s1)
          else res_bind (if d = NO_CONGESTION then res_bind (initial_window s1) (\<lambda>w. Inr (s1\<lparr>tc_cwnd := w\<rparr>)) else Inr s1)
              (\<lambda>s2. Inr (Next, v, if tc_TF_NEEDFIN s2 then s2\<lparr>tc_state := FIN_WAIT_1, tc_TF_NEEDFIN := False\<rparr>
                                  else s2\<lparr>tc_state := ESTABLISHED\<rparr>))) = Inr (l, v', s')"
      by (auto simp: recv_syn_received_def res_bind_Inr_iff)
    note t = on_receive_syn_ack_ack_tx [OF 1]
    show ?thesis
    proof (cases "d = CONGESTION_DROP")
      case True
      with r t tx_ax [of s s1] show ?thesis by auto
    next
      case False
      with r obtain s2 where
        q: "(if d = NO_CONGESTION then res_bind (initial_window s1) (\<lambda>w. Inr (s1\<lparr>tc_cwnd := w\<rparr>)) else Inr s1) = Inr s2"
        "Inr (Next, v, if tc_TF_NEEDFIN s2 then s2\<lparr>tc_state := FIN_WAIT_1, tc_TF_NEEDFIN := False\<rparr> else s2\<lparr>tc_state := ESTABLISHED\<rparr>)
         = (Inr (l, v', s') :: recv_res)"
        unfolding if_not_P [OF False] res_bind_Inr_iff by blast
      have s2a: "s2 = s1 \<or> (\<exists>w. s2 = s1\<lparr>tc_cwnd := w\<rparr>)"
        using q(1) by (auto simp: res_bind_Inr_iff split: if_split_asm)
      have s2b: "l = Next" "v' = v"
        "s' = (if tc_TF_NEEDFIN s2 then s2\<lparr>tc_state := FIN_WAIT_1, tc_TF_NEEDFIN := False\<rparr> else s2\<lparr>tc_state := ESTABLISHED\<rparr>)"
        using q(2) by simp_all
      note s2 = s2a s2b
      have "ax s s1" "tc_state s1 = SYN_RECEIVED" using t False assms(2) by (simp_all add: tx_ax)
      then have "ax s s2" "tc_state s2 = SYN_RECEIVED" using s2(1) ax_trans [OF \<open>ax s s1\<close> ax_update(7)] by auto
      then have "ax s (s2\<lparr>tc_state := FIN_WAIT_1, tc_TF_NEEDFIN := False\<rparr>)" "ax s (s2\<lparr>tc_state := ESTABLISHED\<rparr>)"
        using established_ax [of s2] by (blast intro: ax_trans)+
      with s2(2-4) show ?thesis by simp
    qed
  qed (use assms in \<open>auto simp: recv_syn_received_def\<close>)
  then show "ax s s'" "v' = v" "l = Next \<or> l = Goto_drop \<or> l = Goto_dropwithreset"
    "l = Next \<Longrightarrow> tc_state s' = ESTABLISHED \<or> tc_state s' = FIN_WAIT_1" by auto
qed

lemma recv_ack_ax:
  assumes "recv_ack v s = Inr (l, v', s')"
  shows "rx s s'" "same_segment v v'"
    "tc_state s \<noteq> SYN_RECEIVED \<Longrightarrow> l = Goto_step6 \<or> l = Goto_drop \<or> (l = Goto_dropafterack \<and> rv_ackno v > tc_maxseq s)"
    "tc_state s \<noteq> SYN_RECEIVED \<Longrightarrow> tc_state s \<noteq> LAST_ACK \<Longrightarrow> ax s s' \<and> (l = Goto_drop \<longrightarrow> rv_datalen v = 0)"
    "tc_state s \<noteq> CLOSED" "tc_state s \<noteq> LISTEN"
proof -
  show st: "tc_state s \<noteq> CLOSED" "tc_state s \<noteq> LISTEN" using assms by (auto simp: recv_ack_def)
  have "rx s s' \<and> same_segment v v'"
  proof (cases "tc_state s = SYN_RECEIVED")
    case True
    with assms obtain l1 v1 s1 where 1: "recv_syn_received v s = Inr (l1, v1, s1)"
      "(if l1 = Next then recv_established v1 s1 else Inr (l1, v1, s1)) = Inr (l, v', s')"
      by (auto simp: recv_ack_def res_bind_Inr_iff)
    note a = recv_syn_received_ax [OF 1(1) True]
    show ?thesis using 1(2) a(1,2) rx_trans [OF ax_rx [OF a(1)]] recv_established_ax(1,2) [of v1 s1 l v' s']
      by (auto simp: ax_rx split: if_split_asm)
  next
    case False
    with assms st have "recv_established v s = Inr (l, v', s')" by (auto simp: recv_ack_def split: if_split_asm)
    from recv_established_ax [OF this] show ?thesis by auto
  qed
  then show "rx s s'" "same_segment v v'" by auto
  assume "tc_state s \<noteq> SYN_RECEIVED"
  with assms st have e: "recv_established v s = Inr (l, v', s')" by (auto simp: recv_ack_def split: if_split_asm)
  show "l = Goto_step6 \<or> l = Goto_drop \<or> (l = Goto_dropafterack \<and> rv_ackno v > tc_maxseq s)"
    "tc_state s \<noteq> LAST_ACK \<Longrightarrow> ax s s' \<and> (l = Goto_drop \<longrightarrow> rv_datalen v = 0)"
    using recv_established_ax [OF e] st by auto
qed

section \<open>Data\<close>

text \<open>A step that takes the next \<open>n\<close> bytes in sequence and gives them to the application.\<close>

definition took :: "int \<Rightarrow> tcp_agent \<Rightarrow> tcp_agent \<Rightarrow> bool" where
  "took n s s' \<longleftrightarrow> (tc_cfg s', tc_rq s', tc_fid s', received_in (tc_log s')) =
       (tc_cfg s, (tc_rq s)\<lparr>rq_rcv_nxt := tc_rcv_nxt s + n\<rparr>, tc_fid s, received_in (tc_log s) + n) \<and>
     tc_maxseq s \<le> tc_maxseq s' \<and> (acks_sent s \<longrightarrow> acks_sent s') \<and>
     (tc_state s \<noteq> LISTEN \<longrightarrow> ack_edge\<^sup>*\<^sup>* (tc_state s) (tc_state s'))"

lemma ax_took: "ax s t \<Longrightarrow> took n t u \<Longrightarrow> took n s u"
  unfolding ax_def took_def using not_listen [OF ack_edges_recv] by (auto intro: rtranclp_trans)

lemma took_ax: "took n s t \<Longrightarrow> ax t u \<Longrightarrow> took n s u"
  unfolding ax_def took_def using not_listen [OF ack_edges_recv] by (auto intro: rtranclp_trans)

lemma took_rx: "took n s s' \<Longrightarrow> rx s s'"
  by (auto simp: took_def rx_def ack_edges_recv)

lemma start_delack_kept [simp]: "kept_conn (start_delack s) = kept_conn s"
  by (simp add: start_delack_def)

lemma note_received_kept [simp]: "kept_conn (note_received n s) = kept_conn s"
  by (simp add: note_received_def Let_def)

lemma took_bytes: "took n s (upcall (RecvBytes n) (set_rcv_nxt (tc_rcv_nxt s + n) s))"
  by (simp add: took_def upcall_def set_rcv_nxt_def acks_sent_def)

lemma took_nothing: "took 0 s (set_rcv_nxt (tc_rcv_nxt s + 0) s)"
  by (simp add: took_def set_rcv_nxt_def acks_sent_def)

lemma record_timestamp_kept [simp]: "kept_conn (record_timestamp p s) = kept_conn s"
  by (simp add: record_timestamp_def)

lemma update_state_kept [simp]: "kept_conn (update_state_new_packet p b s) = kept_conn s"
  by (simp add: update_state_new_packet_def)

lemma on_receive_pure_incoming_tx: "on_receive_pure_incoming s = Inr s' \<Longrightarrow> tx s s'"
proof -
  let ?s1 = "s\<lparr>tc_TF_ACKNOW := True, tc_recv_tracker := flip_ce (tc_recv_tracker s)\<rparr>"
  have "tx s ?s1" by (intro kept_conn_tx) simp
  note t = tx_trans [OF this send_much_tx]
  have u: "tx t (t\<lparr>tc_recv_tracker := x\<rparr>)" for t x by (intro kept_conn_tx) simp
  show "on_receive_pure_incoming s = Inr s' \<Longrightarrow> tx s s'"
    unfolding on_receive_pure_incoming_def by (auto simp: res_bind_Inr_iff split: if_split_asm intro: tx_trans [OF t u])
qed

lemma predicted_ack_cases:
  assumes "predicted_ack v s = Inr (l, v', s')"
  shows "v' = v" "(l = Next \<and> s' = s) \<or> (l = Return \<and> ax s s')"
proof -
  have "ax s s'" if "newack (rv_pkt v) s = Inr s1" "rv_ackno v < tc_maxseq s" "send_much False NORMAL (tc_maxburst s1) s1 = Inr s'" for s1
    using newack_ax(1) [OF that(1)] that(2) send_much_tx [OF that(3)] by (auto intro: ax_trans tx_ax)
  with assms show "v' = v" "(l = Next \<and> s' = s) \<or> (l = Return \<and> ax s s')"
    by (auto simp: predicted_ack_def res_bind_Inr_iff split: if_split_asm)
qed

lemma predicted_data_cases:
  assumes "predicted_data v s = Inr (l, v', s')"
  shows "v' = v" "(l = Next \<and> s' = s) \<or> (l = Return \<and> rq_empty (tc_rq s) \<and> took (rv_datalen v) s s')"
proof -
  have u: "upcall x (start_delack t) = start_delack (upcall x t)" for x t by (simp add: upcall_def start_delack_def)
  have t: "took (rv_datalen v) s (note_received (rv_datalen v)
      (upcall (RecvBytes (rv_datalen v)) (start_delack (set_rcv_nxt (tc_rcv_nxt s1 + rv_datalen v) s1))))"
    if "on_receive_pure_incoming s = Inr s1" for s1
    unfolding u by (rule took_ax [OF ax_took [OF tx_ax [OF on_receive_pure_incoming_tx [OF that]] took_bytes] kept_conn_ax]) simp
  from assms t show "v' = v" "(l = Next \<and> s' = s) \<or> (l = Return \<and> rq_empty (tc_rq s) \<and> took (rv_datalen v) s s')"
    by (auto simp: predicted_data_def res_bind_Inr_iff Let_def split: if_split_asm intro: took_ax [OF _ tx_ax [OF send_much_tx]])
qed

lemma recv_predicted_cases:
  assumes "recv_predicted v s = Inr (l, v', s')"
  shows "v' = v" "(l = Next \<and> kept_conn s' = kept_conn s) \<or> (l = Return \<and> rv_datalen v = 0 \<and> ax s s') \<or>
    (l = Return \<and> rv_datalen v \<noteq> 0 \<and> rv_seqno v = tc_rcv_nxt s \<and> rq_empty (tc_rq s) \<and> took (rv_datalen v) s s')"
proof -
  let ?s1 = "update_state_new_packet (rv_pkt v) (rv_datalen v > 0) (record_timestamp (rv_pkt v) s)"
  have k: "kept_conn ?s1 = kept_conn s" by simp
  then have a: "ax s ?s1" by (rule kept_conn_ax)
  have rq: "tc_rq ?s1 = tc_rq s" using k keptD(7) [of ?s1 s] by (simp only: kept_conn_iff)
  have seq: "predict_ok (rv_pkt v) s \<Longrightarrow> rv_seqno v = tc_rcv_nxt s" by (simp add: predict_ok_def Let_def)
  consider "l = Next" "v' = v" "s' = s" | "rv_datalen v = 0" "predicted_ack v ?s1 = Inr (l, v', s')"
    | "rv_datalen v \<noteq> 0" "predict_ok (rv_pkt v) s" "predicted_data v ?s1 = Inr (l, v', s')"
    using assms unfolding recv_predicted_def Let_def by (auto split: if_split_asm)
  then have "v' = v \<and> ((l = Next \<and> kept_conn s' = kept_conn s) \<or> (l = Return \<and> rv_datalen v = 0 \<and> ax s s') \<or>
    (l = Return \<and> rv_datalen v \<noteq> 0 \<and> rv_seqno v = tc_rcv_nxt s \<and> rq_empty (tc_rq s) \<and> took (rv_datalen v) s s'))"
  proof cases
    case 2
    from predicted_ack_cases [OF this(2)] 2(1) k ax_trans [OF a] show ?thesis by auto
  next
    case 3
    from predicted_data_cases [OF this(3)] 3(1) seq [OF 3(2)] k rq ax_took [OF a] show ?thesis by auto
  qed simp
  then show "v' = v" "(l = Next \<and> kept_conn s' = kept_conn s) \<or> (l = Return \<and> rv_datalen v = 0 \<and> ax s s') \<or>
    (l = Return \<and> rv_datalen v \<noteq> 0 \<and> rv_seqno v = tc_rcv_nxt s \<and> rq_empty (tc_rq s) \<and> took (rv_datalen v) s s')"
    by blast+
qed

text \<open>The data that is not next in sequence goes through the reassembly queue.\<close>

lemma reass_state: "reass p s = Inr (f, s') \<Longrightarrow> \<exists>q. s' = s\<lparr>tc_rq := q\<rparr>"
  by (auto simp: reass_def Let_def res_bind_Inr_iff split: if_split_asm prod.splits)

lemma data_in_order_took: "data_in_order v s = Inr (v', s') \<Longrightarrow> took (rv_datalen v) s s'"
proof -
  have u: "set_rcv_nxt n (start_delack t) = start_delack (set_rcv_nxt n t)" "upcall x (start_delack t) = start_delack (upcall x t)" for x t n
    by (simp_all add: upcall_def start_delack_def set_rcv_nxt_def)
  have c: "tc_rcv_nxt (start_delack t) = tc_rcv_nxt t" for t by (simp add: start_delack_def)
  have "took (rv_datalen v) s (if rv_datalen v \<noteq> 0 then note_received (rv_datalen v) (upcall (RecvBytes (rv_datalen v))
      (set_rcv_nxt (tc_rcv_nxt (start_delack s1) + rv_datalen v) (start_delack s1)))
      else set_rcv_nxt (tc_rcv_nxt (start_delack s1) + rv_datalen v) (start_delack s1))"
    if "on_receive_pure_incoming s = Inr s1" for s1
  proof -
    note a = tx_ax [OF on_receive_pure_incoming_tx [OF that]]
    show ?thesis unfolding c u
      by (auto intro!: took_ax [OF ax_took [OF a took_bytes] kept_conn_ax] took_ax [OF ax_took [OF a took_nothing, simplified] kept_conn_ax])
  qed
  then show "data_in_order v s = Inr (v', s') \<Longrightarrow> took (rv_datalen v) s s'"
    by (auto simp: data_in_order_def res_bind_Inr_iff Let_def)
qed

lemma data_reassembled_state:
  assumes "data_reassembled v s = Inr (v', s')"
  obtains f q where "reass (rv_pkt v) s = Inr (f, s\<lparr>tc_rq := q\<rparr>)" "tc_rq s' = q" "rv_tiflags v' = f"
    "(tc_cfg s', tc_fid s', tc_maxseq s', tc_highest_ack s', tc_state s') = (tc_cfg s, tc_fid s, tc_maxseq s, tc_highest_ack s, tc_state s)"
    "received_in (tc_log s') = received_in (tc_log s) + max 0 (rq_rcv_nxt q - tc_rcv_nxt s)"
proof -
  from assms obtain f s1 where r: "reass (rv_pkt v) s = Inr (f, s1)" by (auto simp: data_reassembled_def res_bind_Inr_iff)
  then obtain q where s1: "s1 = s\<lparr>tc_rq := q\<rparr>" using reass_state by blast
  let ?s2 = "if rq_rcv_nxt q > tc_rcv_nxt s then note_received (rv_datalen v) (upcall (RecvBytes (rq_rcv_nxt q - tc_rcv_nxt s)) s1) else s1"
  have v: "rv_tiflags v' = f" and s': "s' = ?s2\<lparr>tc_TF_ACKNOW := True\<rparr>" using assms r s1
    by (auto simp: data_reassembled_def res_bind_Inr_iff Let_def)
  have "tc_rq s' = q" "(tc_cfg s', tc_fid s', tc_maxseq s', tc_highest_ack s', tc_state s') = (tc_cfg s, tc_fid s, tc_maxseq s, tc_highest_ack s, tc_state s)"
    "received_in (tc_log s') = received_in (tc_log s) + max 0 (rq_rcv_nxt q - tc_rcv_nxt s)"
    unfolding s' s1 by (auto simp: note_received_def upcall_def Let_def)
  with r s1 v show thesis by (intro that) auto
qed

lemma recv_data_rx: "recv_data v s = Inr (v', s') \<Longrightarrow> rx s s'"
  by (auto simp: recv_data_def rx_def acks_sent_def dest!: data_in_order_took took_rx elim!: data_reassembled_state split: if_split_asm)

lemma cancel_timers_simps [simp]:
  "tc_cfg (cancel_timers s) = tc_cfg s" "tc_state (cancel_timers s) = tc_state s" "tc_maxseq (cancel_timers s) = tc_maxseq s"
  "tc_highest_ack (cancel_timers s) = tc_highest_ack s" "tc_rq (cancel_timers s) = tc_rq s" "tc_log (cancel_timers s) = tc_log s"
  "tc_fid (cancel_timers s) = tc_fid s"
  by (simp_all add: cancel_timers_def)

lemma recv_fin_rx: "recv_fin v s = Inr s' \<Longrightarrow> rx s s'"
  by (auto simp: recv_fin_def Let_def rx_def acks_sent_def set_rcv_nxt_def intro: recv_edge_steps split: if_split_asm)

lemma usrclosed_wait_rx: "usrclosed s = Inr s' \<Longrightarrow> tc_state s = CLOSE_WAIT \<Longrightarrow> rx s s'"
proof -
  assume a: "usrclosed s = Inr s'" "tc_state s = CLOSE_WAIT"
  let ?s1 = "s\<lparr>tc_curseq := tc_maxseq s - 1, tc_infinite_send := False, tc_state := LAST_ACK, tc_TF_NEEDFIN := True\<rparr>"
  have "rx s ?s1" using a(2) by (auto simp: rx_def acks_sent_def intro: recv_edge_steps)
  moreover have "send_much True NORMAL (tc_maxburst s) ?s1 = Inr s'" using a by (simp add: usrclosed_def Let_def)
  ultimately show ?thesis by (blast intro: rx_trans tx_rx send_much_tx)
qed

lemma recv_output_rx: "recv_output v s = Inr s' \<Longrightarrow> rx s s'"
proof -
  assume "recv_output v s = Inr s'"
  then obtain s1 s2 where 1: "(if rv_needoutput v \<or> tc_TF_ACKNOW s then send_much True NORMAL (tc_maxburst s) s
               else if tc_curseq s \<ge> tc_highest_ack s \<or> tc_infinite_send s then send_much False NORMAL (tc_maxburst s) s
               else Inr s) = Inr s1"
    and 2: "(if \<not> cf_halfclose (tc_cfg s1) \<and> tc_state s1 = CLOSE_WAIT \<and> tc_highest_ack s1 = tc_maxseq s1
               then usrclosed s1 else Inr s1) = Inr s2" and s': "s' = (if tc_state s2 = CLOSED then upcall Done s2 else s2)"
    by (auto simp: recv_output_def res_bind_Inr_iff)
  have "rx s s1" using 1 by (auto dest: send_much_tx intro: tx_rx split: if_split_asm)
  also have "rx s1 s2" using 2 by (auto intro: usrclosed_wait_rx split: if_split_asm)
  also have "kept_conn s' = kept_conn s2" unfolding s' by simp
  then have "rx s2 s'" by (intro ax_rx kept_conn_ax)
  finally show ?thesis .
qed

lemma recv_step6_rx: "recv_step6 v s = Inr s' \<Longrightarrow> rx s s'"
  by (auto simp: recv_step6_def res_bind_Inr_iff dest!: recv_data_rx recv_fin_rx recv_output_rx intro: rx_trans)

lemma recv_dropafterack_tx: "recv_dropafterack s = Inr s' \<Longrightarrow> tx s s'"
proof -
  have "tx s (s\<lparr>tc_TF_ACKNOW := True\<rparr>)" by (intro kept_conn_tx) simp
  then show "recv_dropafterack s = Inr s' \<Longrightarrow> tx s s'"
    unfolding recv_dropafterack_def by (blast intro: tx_trans send_much_tx)
qed

lemma recv_dropwithreset_kept: "recv_dropwithreset v s = Inr s' \<Longrightarrow> kept_conn s' = kept_conn s"
  by (auto simp: recv_dropwithreset_def Let_def dest: sendpacket_sends(1) split: if_split_asm)

lemma recv_end_rx: "recv_end (l, v, s) = Inr s' \<Longrightarrow> rx s s'"
  by (auto simp: recv_end_def dest: recv_dropafterack_tx [THEN tx_rx] recv_dropwithreset_kept [THEN kept_conn_ax, THEN ax_rx]
      recv_step6_rx split: if_split_asm)

section \<open>Connection establishment\<close>

lemma on_receive_syn_kept [simp]: "kept_conn (on_receive_syn fh s) = kept_conn s" "kept_conn (on_receive_syn_ack fh s) = kept_conn s"
  by (simp_all add: on_receive_syn_def on_receive_syn_ack_def Let_def)

lemma dooptions_kept [simp]: "kept_conn (dooptions p s) = kept_conn s"
  by (simp add: dooptions_def)

lemma ecn_on_receive_kept [simp]: "kept_conn (ecn_on_receive p s) = kept_conn s"
  by (auto simp: ecn_on_receive_def tracker_on_receive_def Let_def split: prod.split)

text \<open>A received segment without the exception for \<open>LISTEN\<close>.\<close>

definition fx :: "tcp_agent \<Rightarrow> tcp_agent \<Rightarrow> bool" where
  "fx s s' \<longleftrightarrow> tc_cfg s' = tc_cfg s \<and> (acks_sent s \<longrightarrow> acks_sent s') \<and> recv_edge\<^sup>*\<^sup>* (tc_state s) (tc_state s')"

lemma fx_rx: "fx s t \<Longrightarrow> rx t u \<Longrightarrow> tc_state t \<noteq> LISTEN \<Longrightarrow> fx s u"
  unfolding fx_def rx_def by (auto intro: rtranclp_trans)

lemma kept_conn_fx: "kept_conn s' = kept_conn s \<Longrightarrow> fx s s'"
  using keptD(1,3) [of s' s] by (auto simp: fx_def acks_sent_def kept_conn_iff)

lemma rx_fx: "rx s s' \<Longrightarrow> tc_state s \<noteq> LISTEN \<Longrightarrow> fx s s'"
  by (simp add: fx_def rx_def)

lemma kept_conn_fx_trans: "kept_conn t = kept_conn s \<Longrightarrow> fx t u \<Longrightarrow> fx s u"
  using keptD(1,3) [of t s] by (auto simp: fx_def acks_sent_def kept_conn_iff)

lemma recv_listen_fx:
  assumes "recv_listen v s = Inr (l, v', s')" "tc_state s = LISTEN"
  shows "fx s s'" "(s' = s \<and> (l = Goto_drop \<or> l = Goto_dropwithreset)) \<or> (tc_state s' = SYN_RECEIVED \<and> (l = Goto_step6 \<or> l = Goto_process_ACK))"
proof -
  let ?s1 = "dooptions (rv_pkt v) s"
  let ?s2 = "set_rcv_nxt (rcvseqinit (rv_seqno v) (rv_datalen v))
                   (?s1\<lparr>tc_irs := rv_seqno v, tc_t_seqno := cf_iss (tc_cfg ?s1), tc_TF_ACKNOW := True\<rparr>)"
  let ?s3 = "on_receive_syn (pk_flags (rv_pkt v)) ?s2"
  have f: "tc_cfg ?s3 = tc_cfg s" "tc_highest_ack ?s3 = tc_highest_ack s" "tc_maxseq ?s3 = tc_maxseq s"
    by (simp_all add: dooptions_def on_receive_syn_def set_rcv_nxt_def)
  note e = recv_edge_steps(1)
  from assms f e show "fx s s'" "(s' = s \<and> (l = Goto_drop \<or> l = Goto_dropwithreset)) \<or>
      (tc_state s' = SYN_RECEIVED \<and> (l = Goto_step6 \<or> l = Goto_process_ACK))"
    unfolding recv_listen_def Let_def trimthenstep6_def by (auto simp: fx_def acks_sent_def split: if_split_asm)
qed

lemma on_receive_syn_ack_pre_kept: "on_receive_syn_ack_pre fh s = Inr (d, s') \<Longrightarrow> kept_conn s' = kept_conn s"
proof -
  have "kept_conn s' = kept_conn s" if "set_rtx_timer s = Inr s1" "sendpacket a b c n r s1 = Inr s'" for s1 a b c n r
    using set_rtx_timer_kept [OF that(1)] sendpacket_sends(1) [OF that(2)] by simp
  then show "on_receive_syn_ack_pre fh s = Inr (d, s') \<Longrightarrow> kept_conn s' = kept_conn s"
    by (auto simp: on_receive_syn_ack_pre_def res_bind_Inr_iff split: if_split_asm)
qed

lemma syn_acked_rx:
  "syn_acked v w s = (v', s') \<Longrightarrow> tc_state s = SYN_SENT \<Longrightarrow> rv_ackno v \<le> tc_maxseq s \<Longrightarrow> rx s s'"
  unfolding syn_acked_def Let_def
  by (auto simp: rx_def acks_sent_def start_delack_def intro: recv_edge_steps split: if_split_asm)

lemma recv_syn_ack_rx:
  assumes "recv_syn_ack v s = Inr (l, v', s')" "tc_state s = SYN_SENT" "rv_ackno v \<le> tc_maxseq s"
  shows "rx s s'"
proof -
  let ?s1 = "on_receive_syn_ack (pk_flags (rv_pkt v)) s"
  from assms(1) obtain w where w: "(case syn_acked v w ?s1 of (v1, s2) \<Rightarrow>
      res_bind (sendpacket (tc_t_seqno s2) (tc_rcv_nxt s2) TH_ACK 0 NORMAL s2) (\<lambda>s3. Inr (trimthenstep6 v1 s3))) = Inr (l, v', s')"
    unfolding recv_syn_ack_def Let_def res_bind_Inr_iff by blast
  obtain v1 s2 where 2: "syn_acked v w ?s1 = (v1, s2)" by fastforce
  with w have 3: "sendpacket (tc_t_seqno s2) (tc_rcv_nxt s2) TH_ACK 0 NORMAL s2 = Inr s'"
    by (auto simp: res_bind_Inr_iff trimthenstep6_def)
  have f: "tc_state ?s1 = SYN_SENT" "tc_maxseq ?s1 = tc_maxseq s"
    using assms(2) by (simp_all add: on_receive_syn_ack_def Let_def)
  have "kept_conn ?s1 = kept_conn s" by simp
  then have "rx s ?s1" by (intro ax_rx kept_conn_ax)
  also have "rx ?s1 s2" using syn_acked_rx [OF 2] f assms(3) by simp
  also have "rx s2 s'" using sendpacket_sends(1) [OF 3] by (intro ax_rx kept_conn_ax)
  finally show ?thesis .
qed

lemma recv_simultaneous_open_rx:
  "recv_simultaneous_open v s = Inr (l, v', s') \<Longrightarrow> tc_state s = SYN_SENT \<Longrightarrow> rx s s'"
  by (auto simp: recv_simultaneous_open_def trimthenstep6_def rx_def acks_sent_def cancel_rtx_timer_def on_receive_syn_def
      intro: recv_edge_steps)

lemma recv_syn_sent_rx:
  assumes "recv_syn_sent v s = Inr (l, v', s')" "tc_state s = SYN_SENT"
  shows "rx s s'"
proof -
  let ?ack = "contains_all (rv_tiflags v) TH_ACK"
  show ?thesis
  proof (cases "?ack \<and> (rv_ackno v \<le> cf_iss (tc_cfg s) \<or> rv_ackno v > tc_maxseq s) \<or> \<not> contains_all (rv_tiflags v) TH_SYN")
    case True
    with assms(1) show ?thesis by (auto simp: recv_syn_sent_def Let_def split: if_split_asm)
  next
    case False
    with assms(1) obtain d s1 where
      1: "(if ?ack then on_receive_syn_ack_pre (pk_flags (rv_pkt v)) s else Inr (NO_CONGESTION, s)) = Inr (d, s1)" and
      r: "(if d = CONGESTION_DROP then Inr (Goto_drop, v, s1)
             else
               let s2 = set_rcv_nxt (rcvseqinit (rv_seqno v) (rv_datalen v)) (s1\<lparr>tc_irs := rv_seqno v\<rparr>)
               in if ?ack then recv_syn_ack v s2 else recv_simultaneous_open v s2) = Inr (l, v', s')"
      unfolding recv_syn_sent_def by (auto simp: res_bind_Inr_iff Let_def split: if_split_asm)
    let ?s2 = "set_rcv_nxt (rcvseqinit (rv_seqno v) (rv_datalen v)) (s1\<lparr>tc_irs := rv_seqno v\<rparr>)"
    have k: "kept_conn s1 = kept_conn s" using 1 by (auto dest: on_receive_syn_ack_pre_kept split: if_split_asm)
    then have s1: "rx s s1" by (intro ax_rx kept_conn_ax)
    also have "rx s1 ?s2" by (simp add: rx_def acks_sent_def set_rcv_nxt_def)
    finally have s2: "rx s ?s2" .
    have f: "tc_state ?s2 = SYN_SENT" "tc_maxseq ?s2 = tc_maxseq s" using k assms(2) by (simp_all add: set_rcv_nxt_def kept_conn_iff)
    consider "s' = s1" | "recv_syn_ack v ?s2 = Inr (l, v', s')" "rv_ackno v \<le> tc_maxseq s" | "recv_simultaneous_open v ?s2 = Inr (l, v', s')"
      using r [unfolded Let_def] False by (auto split: if_split_asm)
    then show ?thesis
      using s1 f recv_syn_ack_rx [of v ?s2 l v' s', THEN rx_trans [OF s2]] recv_simultaneous_open_rx [of v ?s2 l v' s', THEN rx_trans [OF s2]]
      by cases simp_all
  qed
qed

lemma trim_head_kept: "kept_conn (snd (trim_head v s)) = kept_conn s"
  by (simp add: trim_head_def Let_def)

lemma recv_check_kept:
  assumes "recv_check v s = Inr (l, v', s')"
  shows "kept_conn s' = kept_conn s" "l = Next \<or> l = Goto_drop \<or> l = Goto_dropafterack \<or> l = Goto_dropwithreset"
proof -
  have t: "trim_head v s1 = (v2, s2) \<Longrightarrow> kept_conn s2 = kept_conn s1" for v2 s1 s2 using trim_head_kept [of v s1] by simp
  show "kept_conn s' = kept_conn s" "l = Next \<or> l = Goto_drop \<or> l = Goto_dropafterack \<or> l = Goto_dropwithreset"
    using assms unfolding recv_check_def Let_def by (auto dest!: t split: if_split_asm prod.splits)
qed

lemma recv_slow_fx: "recv_slow v s = Inr s' \<Longrightarrow> fx s s'"
proof -
  assume r: "recv_slow v s = Inr s'"
  have e: "rx s1 s'" if "(if l = Goto_process_ACK then res_bind (recv_process_ACK v1 s1) recv_end else recv_end (l, v1, s1)) = Inr s'" for l v1 s1
    using that by (auto simp: res_bind_Inr_iff dest: recv_end_rx intro: rx_trans [OF recv_process_ACK_ax(1) recv_end_rx] split: if_split_asm)
  consider "tc_state s = LISTEN" | "tc_state s = SYN_SENT" | "tc_state s = LAST_ACK" "contains_all (rv_tiflags v) TH_FIN" |
    "tc_state s \<noteq> LISTEN" "tc_state s \<noteq> SYN_SENT" "\<not> (tc_state s = LAST_ACK \<and> contains_all (rv_tiflags v) TH_FIN)" by blast
  then show ?thesis
  proof cases
    case 1
    with r obtain l v1 s1 where 2: "recv_listen v s = Inr (l, v1, s1)"
      "(if l = Goto_process_ACK then res_bind (recv_process_ACK v1 s1) recv_end else recv_end (l, v1, s1)) = Inr s'"
      by (auto simp: recv_slow_def res_bind_Inr_iff)
    from recv_listen_fx [OF 2(1) 1] 2(2) e [OF 2(2)] show ?thesis
      by (auto simp: recv_end_def split: if_split_asm intro: kept_conn_fx recv_dropwithreset_kept fx_rx)
  next
    case 2
    with r obtain l v1 s1 where 3: "recv_syn_sent v s = Inr (l, v1, s1)"
      "(if l = Goto_process_ACK then res_bind (recv_process_ACK v1 s1) recv_end else recv_end (l, v1, s1)) = Inr s'"
      by (auto simp: recv_slow_def res_bind_Inr_iff)
    from rx_trans [OF recv_syn_sent_rx [OF 3(1) 2] e [OF 3(2)]] 2 show ?thesis by (simp add: rx_fx)
  next
    case 3
    with r show ?thesis by (simp add: recv_slow_def fx_def)
  next
    case 4
    with r obtain l v1 s1 where c: "recv_check v s = Inr (l, v1, s1)"
      "(if l = Next then res_bind (recv_ack v1 s1) recv_end else recv_end (l, v1, s1)) = Inr s'"
      by (auto simp: recv_slow_def res_bind_Inr_iff)
    have "rx s s1" using recv_check_kept(1) [OF c(1)] by (intro ax_rx kept_conn_ax)
    moreover have "rx s1 s'" using c(2) by (auto simp: res_bind_Inr_iff dest: recv_end_rx intro: rx_trans [OF recv_ack_ax(1) recv_end_rx] split: if_split_asm)
    ultimately show ?thesis using 4(1) by (blast intro: rx_fx rx_trans)
  qed
qed

lemma recv_predicted_return: "recv_predicted v s = Inr (Return, v', s') \<Longrightarrow> tc_state s = ESTABLISHED"
  by (auto simp: recv_predicted_def predict_ok_def Let_def split: if_split_asm)

lemma recv_paths_fx:
  assumes "recv_predicted v s = Inr (l, v1, s1)" "(if l = Return then Inr s1 else recv_slow v1 s1) = Inr s'"
  shows "fx s s'"
proof (cases "l = Return")
  case True
  with assms recv_predicted_return show ?thesis
    using recv_predicted_cases(2) [OF assms(1)] by (auto intro: rx_fx ax_rx took_rx)
next
  case False
  with assms(2) have "recv_slow v1 s1 = Inr s'" by simp
  from recv_slow_fx [OF this] False recv_predicted_cases(2) [OF assms(1)] show ?thesis by (auto intro: kept_conn_fx_trans)
qed

lemma recv_fx: "recv p s = Inr s' \<Longrightarrow> fx s s'"
proof -
  assume r: "recv p s = Inr s'"
  let ?s = "s\<lparr>tc_prob_mode := False, tc_prob_count := 0, tc_last_state := tc_state s\<rparr>"
  let ?s1 = "if tc_state ?s \<noteq> LISTEN then dooptions p ?s else ?s"
  let ?s2 = "ecn_on_receive p ?s1"
  have k2: "kept_conn ?s2 = kept_conn ?s" by simp
  have f: "fx s u" if "fx ?s u" for u using that by (simp add: fx_def acks_sent_def)
  consider "tc_state s = CLOSED" "recv_dropafterack ?s = Inr s'" | "s' = ?s" |
    l v1 s3 where "recv_predicted (recv_init p) ?s2 = Inr (l, v1, s3)" "(if l = Return then Inr s3 else recv_slow v1 s3) = Inr s'"
    using r unfolding recv_def Let_def by (auto simp: res_bind_Inr_iff split: if_split_asm)
  then have "fx ?s s'"
  proof cases
    case 1
    from recv_dropafterack_tx [OF 1(2)] 1(1) show ?thesis by (intro rx_fx tx_rx) auto
  next
    case 3
    from recv_paths_fx [OF 3] have "fx ?s2 s'" .
    with k2 show ?thesis by (rule kept_conn_fx_trans)
  qed (simp add: fx_def)
  then show ?thesis by (rule f)
qed

section \<open>Reachable agents\<close>

text \<open>What the simulator and the application can do with an agent. Time passes between the steps.\<close>

inductive tcp_step :: "tcp_agent \<Rightarrow> tcp_agent \<Rightarrow> bool" where
  recv: "recv p s = Inr s' \<Longrightarrow> tcp_step s s'"
| rtx: "expire_rtx s = Inr s' \<Longrightarrow> tcp_step s s'"
| delsnd: "expire_delsnd s = Inr s' \<Longrightarrow> tcp_step s s'"
| delack: "expire_delack s = Inr s' \<Longrightarrow> tcp_step s s'"
| sendmsg: "sendmsg n flags s = Inr s' \<Longrightarrow> tcp_step s s'"
| advance: "advanceby n s = Inr s' \<Longrightarrow> tcp_step s s'"
| close: "usrclosed s = Inr s' \<Longrightarrow> tcp_step s s'"
| listen: "tcp_step s (TcpInput.listen s)"
| reset: "TcpBase.reset s = Inr s' \<Longrightarrow> tcp_step s s'"
| clock: "tc_now s \<le> t \<Longrightarrow> tcp_step s (s\<lparr>tc_now := t\<rparr>)"

text \<open>What every step keeps.\<close>

definition steady :: "tcp_agent \<Rightarrow> tcp_agent \<Rightarrow> bool" where
  "steady s s' \<longleftrightarrow> tc_cfg s' = tc_cfg s \<and> (acks_sent s \<longrightarrow> acks_sent s')"

lemma steady_refl [simp]: "steady s s"
  by (simp add: steady_def)

lemma steady_trans [trans]: "steady s t \<Longrightarrow> steady t u \<Longrightarrow> steady s u"
  by (simp add: steady_def)

lemma rx_steady: "rx s s' \<Longrightarrow> steady s s'"
  by (simp add: rx_def steady_def)

lemma tx_steady: "tx s s' \<Longrightarrow> steady s s'"
  by (intro rx_steady tx_rx)

lemma kept_conn_steady: "kept_conn s' = kept_conn s \<Longrightarrow> steady s s'"
  by (intro tx_steady kept_conn_tx)

lemma connect_steady: "connect s = Inr s' \<Longrightarrow> steady s s'"
proof -
  assume "connect s = Inr s'"
  then obtain amt s1 where f: "foutput (cf_iss (tc_cfg s)) NORMAL (s\<lparr>tc_state := SYN_SENT\<rparr>) = Inr (amt, s1)"
    "s' = sent (cf_iss (tc_cfg s)) amt s1" by (auto simp: connect_def res_bind_Inr_iff Let_def)
  have "steady s (s\<lparr>tc_state := SYN_SENT\<rparr>)" by (simp add: steady_def acks_sent_def)
  also have "steady \<dots> s1" using foutput_tx [OF f(1)] by (rule tx_steady)
  also have "steady s1 s'" unfolding f(2) using sent_tx by (rule tx_steady)
  finally show ?thesis .
qed

lemma advance_bytes_steady: "advance_bytes nb s = Inr s' \<Longrightarrow> steady s s'"
proof -
  assume "advance_bytes nb s = Inr s'"
  then obtain s1 where 1: "(if tc_state s = CLOSED \<or> tc_state s = LISTEN
        then res_bind (reset s) (\<lambda>s1. connect (s1\<lparr>tc_curseq := cf_iss (tc_cfg s1) + nb\<rparr>))
        else if tc_state s = ESTABLISHED \<or> tc_state s = SYN_SENT \<or> tc_state s = SYN_RECEIVED
        then (let iss = cf_iss (tc_cfg s)
              in Inr (s\<lparr>tc_curseq := (if tc_curseq s < iss then iss else tc_curseq s) + nb\<rparr>))
        else Inr s) = Inr s1"
    and 2: "s' = s1 \<or> (\<exists>b m. send_much b NORMAL m s1 = Inr s')"
    unfolding advance_bytes_def res_bind_Inr_iff by (auto split: if_split_asm)
  have c: "steady t (t\<lparr>tc_curseq := n\<rparr>)" for t n by (simp add: steady_def acks_sent_def)
  have "steady s s1" using 1 c
    by (auto simp: Let_def res_bind_Inr_iff split: if_split_asm
        intro: steady_trans [OF rx_steady [OF reset_rx(1)] steady_trans [OF c connect_steady]])
  moreover have "steady s1 s'" using 2 by (auto intro: tx_steady send_much_tx)
  ultimately show ?thesis by (rule steady_trans)
qed

lemma soft_reset_steady: "soft_reset s = Inr s' \<Longrightarrow> steady s s'"
  by (auto simp: soft_reset_def Let_def res_bind_Inr_iff steady_def acks_sent_def)

lemma mark_eof_steady: "mark_eof s = Inr s' \<Longrightarrow> steady s s'"
proof -
  have t: "steady s s'" if "set_rtx_timer t = Inr s'" "steady s t" for t
    using that(2) set_rtx_timer_tx [OF that(1), THEN tx_steady] by (rule steady_trans)
  show "mark_eof s = Inr s' \<Longrightarrow> steady s s'"
    by (auto simp: mark_eof_def Let_def res_bind_Inr_iff steady_def acks_sent_def split: if_split_asm dest!: t)
qed

lemma sendmsg_steady: "sendmsg n flags s = Inr s' \<Longrightarrow> steady s s'"
proof -
  assume "sendmsg n flags s = Inr s'"
  then obtain s1 where 1: "(case flags of NO_FLAGS \<Rightarrow> Inr s | MSG_EOF \<Rightarrow> Inr (s\<lparr>tc_close_on_empty := True\<rparr>)
        | DAT_EOF \<Rightarrow> mark_eof s
        | DAT_NEW \<Rightarrow> soft_reset (if cf_no_eof_minrto (tc_cfg s) \<ge> 0 then s\<lparr>tc_minrto := cf_no_eof_minrto (tc_cfg s)\<rparr> else s)) = Inr s1"
    and 2: "advance_bytes 0 (s1\<lparr>tc_infinite_send := True\<rparr>) = Inr s' \<or> advance_bytes n s1 = Inr s'"
    by (auto simp: sendmsg_def res_bind_Inr_iff split: if_split_asm)
  have u: "steady t (t\<lparr>tc_infinite_send := b\<rparr>)" "steady t (t\<lparr>tc_close_on_empty := b\<rparr>)" "steady t (t\<lparr>tc_minrto := x\<rparr>)" for t b x
    by (simp_all add: steady_def acks_sent_def)
  have "steady s s1" using 1 u by (cases flags) (auto dest: mark_eof_steady intro: soft_reset_steady steady_trans [OF u(3) soft_reset_steady] split: if_split_asm)
  also have "steady s1 s'" using 2 by (auto intro: advance_bytes_steady steady_trans [OF u(1) advance_bytes_steady])
  finally show ?thesis .
qed

lemma usrclosed_steady: "usrclosed s = Inr s' \<Longrightarrow> steady s s'"
proof -
  assume a: "usrclosed s = Inr s'"
  have "steady s t" if "tc_cfg t = tc_cfg s" "tc_highest_ack t = tc_highest_ack s" "tc_maxseq t = tc_maxseq s" for t
    using that by (simp add: steady_def acks_sent_def)
  note u = this and v = steady_trans [OF this tx_steady [OF send_much_tx]]
  show ?thesis using a unfolding usrclosed_def Let_def
    by (auto split: if_split_asm intro!: u elim!: v [rotated 3] simp: upcall_def)
qed

lemma expire_steady:
  "expire_rtx s = Inr s' \<Longrightarrow> steady s s'" "expire_delsnd s = Inr s' \<Longrightarrow> steady s s'" "expire_delack s = Inr s' \<Longrightarrow> steady s s'"
proof -
  have u: "steady t (t\<lparr>tc_rtx_timer := x\<rparr>)" "steady t (t\<lparr>tc_delsnd_timer := x\<rparr>)" "steady t (t\<lparr>tc_delack_timer := x\<rparr>)" for t x
    by (simp_all add: steady_def acks_sent_def)
  note v = u [THEN steady_trans, OF steady_trans [OF tx_steady [OF timeout_tx]], OF _ u(1)]
     u [THEN steady_trans, OF steady_trans [OF tx_steady [OF timeout_tx]], OF _ u(2)]
     u [THEN steady_trans, OF steady_trans [OF tx_steady [OF timeout_tx]], OF _ u(3)]
  show "expire_rtx s = Inr s' \<Longrightarrow> steady s s'" "expire_delsnd s = Inr s' \<Longrightarrow> steady s s'" "expire_delack s = Inr s' \<Longrightarrow> steady s s'"
    by (auto simp: expire_rtx_def expire_delsnd_def expire_delack_def res_bind_Inr_iff intro: v)
qed

lemma recv_steady: "recv p s = Inr s' \<Longrightarrow> steady s s'"
  by (drule recv_fx) (simp add: fx_def steady_def)

lemma tcp_step_steady: "tcp_step s s' \<Longrightarrow> steady s s'"
proof (induction rule: tcp_step.induct)
  case (advance n s s')
  then show ?case unfolding advanceby_def by (rule advance_bytes_steady)
next
  case (clock s t)
  then show ?case by (simp add: steady_def acks_sent_def)
qed (simp_all add: recv_steady expire_steady sendmsg_steady usrclosed_steady rx_steady [OF reset_rx(1)],
     simp add: TcpInput.listen_def steady_def acks_sent_def)

text \<open>C2: Whatever segments arrive, whatever timers expire and whatever the application asks for, in any order, the agent
  never takes an acknowledgement of something it has not sent: \<open>highest_ack_\<close> stays at or below \<open>maxseq_\<close>, and no
  operation changes the configuration.\<close>

theorem acked_was_sent: "tcp_step\<^sup>*\<^sup>* (new_agent c) s \<Longrightarrow> tc_highest_ack s \<le> tc_maxseq s \<and> tc_cfg s = c"
proof -
  assume "tcp_step\<^sup>*\<^sup>* (new_agent c) s"
  then have "steady (new_agent c) s" by induction (auto intro: steady_trans tcp_step_steady)
  then show ?thesis by (simp add: steady_def acks_sent_def new_agent_def)
qed

theorem acked_was_sent_witness:
  "tc_highest_ack ((TcpInput.listen (new_agent (default_cfg SackFullTcpAgent)))\<lparr>tc_now := 2\<rparr>) \<le>
   tc_maxseq ((TcpInput.listen (new_agent (default_cfg SackFullTcpAgent)))\<lparr>tc_now := 2\<rparr>)"
proof -
  let ?s = "new_agent (default_cfg SackFullTcpAgent)"
  have "tcp_step\<^sup>*\<^sup>* ?s (TcpInput.listen ?s)" by (rule r_into_rtranclp, rule tcp_step.listen)
  also have "tcp_step\<^sup>*\<^sup>* (TcpInput.listen ?s) ((TcpInput.listen ?s)\<lparr>tc_now := 2\<rparr>)"
    by (rule r_into_rtranclp, rule tcp_step.clock) (simp add: TcpInput.listen_def new_agent_def)
  finally show ?thesis by (rule acked_was_sent [THEN conjunct1])
qed

end
