(* ===== verification/TcpDeliver.thy ===== *)
theory TcpDeliver
  imports TcpDiagram
begin

text \<open>
  The receiver of the full TCP agent end to end: segments of data that arrive in any order, overlapping and repeated,
  with timers expiring in between, are handed to the application exactly once and in order.
\<close>

section \<open>Adding to the reassembly queue\<close>

lemma add_ahead:
  assumes J: "receiving r0 R q" and a: "rq_add s e fl 0 q = Inr (f, q')" "rq_rcv_nxt q < s" "s < e"
  shows "receiving r0 (R \<union> {s ..< e}) q' \<and> rq_rcv_nxt q' = rq_rcv_nxt q"
proof -
  let ?r = "rq_rcv_nxt q"
  have i: "rq_inv q" and R: "iv_cov (map iv_of (rq_fifo q)) = R \<inter> {?r ..}" "?r \<notin> R" "{r0 ..< ?r} \<subseteq> R" "r0 \<le> ?r"
    using J by (auto simp: receiving_def)
  have "\<forall>x \<in> set (rq_fifo q). ?r < sg_start x"
  proof
    fix x assume "x \<in> set (rq_fifo q)"
    from start_in_cov [OF _ this] i R(1,2) show "?r < sg_start x" by (cases "sg_start x = ?r") (auto simp: rq_inv_def)
  qed
  from rq_add_ok [OF i a(3) _ this, of fl 0] a have ok: "rq_inv q'"
    "iv_cov (map iv_of (rq_fifo q')) = (R \<union> {s ..< e}) \<inter> {?r ..}" "rq_rcv_nxt q' = next_expected ?r (map iv_of (rq_fifo q'))"
    unfolding add_ok_def R(1) by auto
  have "?r \<notin> iv_cov (map iv_of (rq_fifo q'))" using ok(2) R(2) a(2) by auto
  moreover have "\<forall>x \<in> set (rq_fifo q'). ?r \<le> sg_start x"
    using start_in_cov [of "rq_fifo q'"] ok(1,2) by (auto simp: rq_inv_def)
  ultimately have "rq_rcv_nxt q' = ?r"
    using ok(1) unfolding ok(3) by (cases "rq_fifo q'") (auto simp: next_expected_def iv_of_def rq_inv_def iv_inv_def)
  with ok R a(2) show ?thesis by (auto simp: receiving_def)
qed

lemma add_next:
  assumes J: "receiving r0 R q" and a: "rq_add (rq_rcv_nxt q) e fl 0 q = Inr (f, q1)" "rq_rcv_nxt q < e" "cleartonxt q1 = (g, q')"
  shows "receiving r0 (R \<union> {rq_rcv_nxt q ..< e}) q' \<and> rq_rcv_nxt q \<le> rq_rcv_nxt q'"
proof -
  have "rq_receive (rq_rcv_nxt q, e, fl) q = Inr q'" using a by (simp add: rq_receive_def)
  with receive_ok [OF J a(2), of fl] have r: "receiving r0 (R \<union> {rq_rcv_nxt q ..< e} \<inter> {r0 ..}) q'" by simp
  moreover have "{rq_rcv_nxt q ..< e} \<inter> {r0 ..} = {rq_rcv_nxt q ..< e}" using J by (auto simp: receiving_def)
  ultimately have r': "receiving r0 (R \<union> {rq_rcv_nxt q ..< e}) q'" by simp
  have b: "r0 \<le> rq_rcv_nxt q'" "rq_rcv_nxt q' \<notin> R" "{r0 ..< rq_rcv_nxt q} \<subseteq> R" using r' J by (auto simp: receiving_def)
  have "rq_rcv_nxt q \<le> rq_rcv_nxt q'"
  proof (rule ccontr)
    assume "\<not> ?thesis"
    with b(1) have "rq_rcv_nxt q' \<in> {r0 ..< rq_rcv_nxt q}" by simp
    with b(2,3) show False by blast
  qed
  with r' show ?thesis by simp
qed

lemma take_next:
  assumes "receiving r0 R q" "rq_empty q" "0 \<le> n"
  shows "receiving r0 (R \<union> {rq_rcv_nxt q ..< rq_rcv_nxt q + n}) (q\<lparr>rq_rcv_nxt := rq_rcv_nxt q + n\<rparr>)"
  using assms by (auto simp: receiving_def rq_empty_def rq_inv_def rq_book_def)

section \<open>One segment\<close>

text \<open>The states in which the peer may still send data.\<close>

definition taking_data :: "tcp_agent \<Rightarrow> bool" where
  "taking_data s \<longleftrightarrow> tc_state s \<in> {ESTABLISHED, FIN_WAIT_1, FIN_WAIT_2}"

lemma ack_edges_taking: "ack_edge\<^sup>*\<^sup>* a b \<Longrightarrow> a \<in> {ESTABLISHED, FIN_WAIT_1, FIN_WAIT_2} \<Longrightarrow> b \<in> {ESTABLISHED, FIN_WAIT_1, FIN_WAIT_2}"
  by (induction rule: rtranclp.induct) (auto simp: ack_edge_iff)

lemma closed_stays: "recv_edge\<^sup>*\<^sup>* a b \<Longrightarrow> a \<in> {CLOSE_WAIT, CLOSING, LAST_ACK, CLOSED} \<Longrightarrow> b \<in> {CLOSE_WAIT, CLOSING, LAST_ACK, CLOSED}"
  by (induction rule: rtranclp.induct) (auto simp: recv_edge_iff ack_edge_iff)

text \<open>Progress of the receiver by the bytes in \<open>B\<close>: the queue now stands for them too, and what it has advanced has been given
  to the application.\<close>

definition progress :: "int set \<Rightarrow> tcp_agent \<Rightarrow> tcp_agent \<Rightarrow> bool" where
  "progress B s s' \<longleftrightarrow> tc_cfg s' = tc_cfg s \<and> tc_fid s' = tc_fid s \<and> tc_maxseq s \<le> tc_maxseq s' \<and>
     received_in (tc_log s') - received_in (tc_log s) = tc_rcv_nxt s' - tc_rcv_nxt s \<and>
     (\<forall>r0 R. receiving r0 R (tc_rq s) \<longrightarrow> receiving r0 (R \<union> (B \<inter> {r0 ..})) (tc_rq s'))"

lemma progressD:
  "progress B s s' \<Longrightarrow> receiving r0 R (tc_rq s) \<Longrightarrow> receiving r0 (R \<union> (B \<inter> {r0 ..})) (tc_rq s')"
  "progress B s s' \<Longrightarrow> tc_cfg s' = tc_cfg s"
  by (simp_all add: progress_def)

lemma progress_refl [simp]: "progress {} s s"
  by (simp add: progress_def)

lemma progress_trans: "progress A s t \<Longrightarrow> progress B t u \<Longrightarrow> progress (A \<union> B) s u"
  unfolding progress_def by (auto simp: Int_Un_distrib2 Un_assoc [symmetric])

lemma ax_progress: "ax s s' \<Longrightarrow> progress {} s s'"
  by (simp add: ax_def progress_def)

lemma took_progress: "took n s s' \<Longrightarrow> rq_empty (tc_rq s) \<Longrightarrow> 0 \<le> n \<Longrightarrow> progress {tc_rcv_nxt s ..< tc_rcv_nxt s + n} s s'"
proof -
  assume a: "took n s s'" "rq_empty (tc_rq s)" "0 \<le> n"
  have "{tc_rcv_nxt s ..< tc_rcv_nxt s + n} \<inter> {r0 ..} = {tc_rcv_nxt s ..< tc_rcv_nxt s + n}" if "receiving r0 R (tc_rq s)" for r0 R
    using that by (auto simp: receiving_def)
  with take_next [OF _ a(2,3)] a(1) show ?thesis by (auto simp: took_def progress_def)
qed

lemma reass_progress:
  assumes r: "reass p s = Inr (f, s\<lparr>tc_rq := q\<rparr>)" and st: "taking_data s"
    and b: "tc_rcv_nxt s \<le> tcp_seqno (pk_tcp p)" "n = pk_size p - tcp_hlen (pk_tcp p)" "0 < n"
    and J: "receiving r0 R (tc_rq s)"
  shows "receiving r0 (R \<union> {tcp_seqno (pk_tcp p) ..< tcp_seqno (pk_tcp p) + n}) q" "tc_rcv_nxt s \<le> rq_rcv_nxt q"
proof -
  let ?a = "tcp_seqno (pk_tcp p)"
  have syn: "have_received_SYN (tc_state s)" "tc_state s \<noteq> SYN_RECEIVED"
    using st by (auto simp: taking_data_def have_received_SYN_def)
  have e: "?a + pk_size p - tcp_hlen (pk_tcp p) = ?a + n" using b(2) by simp
  have "\<not> (?a = ?a + n \<and> \<not> contains_all (tcp_flags (pk_tcp p)) TH_FIN)" using b(3) by simp
  from r [unfolded reass_def Let_def e if_not_P [OF this]] obtain fl q1 where
    a: "rq_add ?a (?a + n) (tcp_flags (pk_tcp p)) 0 (tc_rq s) = Inr (fl, q1)" and
    q1: "(if ?a \<noteq> tc_rcv_nxt s then Inr (0, s\<lparr>tc_rq := q1\<rparr>)
          else (case cleartonxt q1 of (f, q2) \<Rightarrow> Inr (fl OR f, s\<lparr>tc_rq := q2\<rparr>))) = (Inr (f, s\<lparr>tc_rq := q\<rparr>) :: (int \<times> tcp_agent) res)"
    using syn by (auto simp: res_bind_Inr_iff cong: if_cong)
  have inj: "q2 = q" if "s\<lparr>tc_rq := q2\<rparr> = s\<lparr>tc_rq := q\<rparr>" for q2 using arg_cong [OF that, of tc_rq] by simp
  have q: "if ?a = tc_rcv_nxt s then \<exists>g. cleartonxt q1 = (g, q) else q = q1"
    using q1 by (auto dest!: inj split: if_split_asm prod.splits)
  show "receiving r0 (R \<union> {?a ..< ?a + n}) q" "tc_rcv_nxt s \<le> rq_rcv_nxt q"
    using q add_next [OF J, of "?a + n" "tcp_flags (pk_tcp p)" fl q1 _ q] add_ahead [OF J a] a b
    by (auto split: if_split_asm)
qed

lemma recv_data_progress:
  assumes d: "recv_data v s = Inr (v', s')" and st: "taking_data s"
    and v: "rv_datalen v = pk_size (rv_pkt v) - tcp_hlen (pk_tcp (rv_pkt v))" "0 < rv_datalen v" "tc_rcv_nxt s \<le> rv_seqno v"
    and J: "receiving r1 R1 (tc_rq s)"
  shows "progress {rv_seqno v ..< rv_seqno v + rv_datalen v} s s'" "tc_state s' = tc_state s \<or> taking_data s'"
proof -
  have c: "(rv_datalen v > 0 \<or> contains_all (rv_tiflags v) TH_FIN) \<and> \<not> have_received_FIN (tc_state s)"
    using v(2) st by (auto simp: taking_data_def have_received_FIN_def)
  have "progress {rv_seqno v ..< rv_seqno v + rv_datalen v} s s' \<and> (tc_state s' = tc_state s \<or> taking_data s')"
  proof (cases "rv_seqno v = tc_rcv_nxt s \<and> rq_empty (tc_rq s)")
    case True
    with d c have "took (rv_datalen v) s s'" by (auto simp: recv_data_def intro: data_in_order_took)
    moreover from this have "taking_data s'" using st ack_edges_taking by (auto simp: took_def taking_data_def)
    ultimately show ?thesis using took_progress True v(2) by auto
  next
    case False
    with d c have "data_reassembled v s = Inr (v', s')" by (auto simp: recv_data_def)
    then obtain f q where r: "reass (rv_pkt v) s = Inr (f, s\<lparr>tc_rq := q\<rparr>)" "tc_rq s' = q"
      "(tc_cfg s', tc_fid s', tc_maxseq s', tc_highest_ack s', tc_state s') = (tc_cfg s, tc_fid s, tc_maxseq s, tc_highest_ack s, tc_state s)"
      "received_in (tc_log s') = received_in (tc_log s) + max 0 (rq_rcv_nxt q - tc_rcv_nxt s)"
      by (rule data_reassembled_state)
    note p = reass_progress [OF r(1) st v(3,1,2)]
    have "{rv_seqno v ..< rv_seqno v + rv_datalen v} \<inter> {r0 ..} = {rv_seqno v ..< rv_seqno v + rv_datalen v}"
      if "receiving r0 R (tc_rq s)" for r0 R using that v(3) by (auto simp: receiving_def)
    with p(1) p(2) [OF J] r(2-4) show ?thesis by (auto simp: progress_def)
  qed
  then show "progress {rv_seqno v ..< rv_seqno v + rv_datalen v} s s'" "tc_state s' = tc_state s \<or> taking_data s'" by auto
qed

lemma ax_taking: "ax s s' \<Longrightarrow> taking_data s \<Longrightarrow> taking_data s'"
  using ack_edges_taking by (auto simp: ax_def taking_data_def)

text \<open>The rest of step 6: without a FIN it only sends.\<close>

lemma recv_output_progress:
  assumes "recv_output v s = Inr s'" "taking_data s"
  shows "ax s s'"
proof -
  from assms(1) obtain s1 s2 where 1: "(if rv_needoutput v \<or> tc_TF_ACKNOW s then send_much True NORMAL (tc_maxburst s) s
               else if tc_curseq s \<ge> tc_highest_ack s \<or> tc_infinite_send s then send_much False NORMAL (tc_maxburst s) s
               else Inr s) = Inr s1"
    and 2: "(if \<not> cf_halfclose (tc_cfg s1) \<and> tc_state s1 = CLOSE_WAIT \<and> tc_highest_ack s1 = tc_maxseq s1
               then usrclosed s1 else Inr s1) = Inr s2" and s': "s' = (if tc_state s2 = CLOSED then upcall Done s2 else s2)"
    by (auto simp: recv_output_def res_bind_Inr_iff)
  have "tx s s1" using 1 by (auto dest: send_much_tx split: if_split_asm)
  moreover have "tc_state s1 \<noteq> CLOSE_WAIT" using ax_taking [OF tx_ax [OF \<open>tx s s1\<close>] assms(2)] by (auto simp: taking_data_def)
  moreover have "kept_conn s' = kept_conn s2" unfolding s' by simp
  ultimately show ?thesis using 2 by (auto split: if_split_asm intro: ax_trans tx_ax kept_conn_ax)
qed

text \<open>A FIN ends the taking of data.\<close>

lemma recv_fin_taking: "recv_fin v s = Inr s' \<Longrightarrow> taking_data s \<Longrightarrow> s' = s \<or> tc_state s' \<in> {CLOSE_WAIT, CLOSING, LAST_ACK, CLOSED}"
  by (auto simp: recv_fin_def Let_def split: if_split_asm)

lemma recv_step6_progress:
  assumes r: "recv_step6 v s = Inr s'" and st: "taking_data s" "taking_data s'"
    and v: "rv_datalen v = pk_size (rv_pkt v) - tcp_hlen (pk_tcp (rv_pkt v))" "0 < rv_datalen v \<longrightarrow> tc_rcv_nxt s \<le> rv_seqno v"
      "rv_datalen v = 0 \<longrightarrow> \<not> contains_all (rv_tiflags v) TH_FIN" "0 \<le> rv_datalen v"
    and J: "receiving r1 R1 (tc_rq s)"
  shows "progress {rv_seqno v ..< rv_seqno v + rv_datalen v} s s'"
proof -
  from r obtain v1 s1 s2 where 1: "recv_data v s = Inr (v1, s1)" and 2: "recv_fin v1 s1 = Inr s2" and 3: "recv_output v1 s2 = Inr s'"
    by (auto simp: recv_step6_def res_bind_Inr_iff)
  have p: "progress {rv_seqno v ..< rv_seqno v + rv_datalen v} s s1 \<and> taking_data s1"
  proof (cases "rv_datalen v = 0")
    case True
    with 1 v(3) have "s1 = s" by (simp add: recv_data_def)
    with True st show ?thesis by simp
  next
    case False
    with recv_data_progress [OF 1 st(1) v(1) _ _ J] v(2,4) st show ?thesis by (auto simp: taking_data_def)
  qed
  have "rx s2 s'" by (rule recv_output_rx [OF 3])
  then have "tc_state s2 \<notin> {CLOSE_WAIT, CLOSING, LAST_ACK, CLOSED}"
    using st(2) closed_stays [of "tc_state s2" "tc_state s'"] by (auto simp: rx_def taking_data_def)
  with recv_fin_taking [OF 2] p have "s2 = s1" by blast
  with 3 p have "ax s1 s'" by (auto intro: recv_output_progress)
  with p show ?thesis using progress_trans [OF _ ax_progress, of _ s s1 s'] by auto
qed

text \<open>A segment of data of this connection that acknowledges nothing beyond what has been sent.\<close>

definition data_segment :: "tcp_agent \<Rightarrow> packet \<Rightarrow> bool" where
  "data_segment s p \<longleftrightarrow> ip_fid (pk_ip p) = tc_fid s \<and> contains_all (tcp_flags (pk_tcp p)) TH_ACK \<and>
     \<not> contains_all (tcp_flags (pk_tcp p)) TH_SYN \<and> \<not> contains_all (tcp_flags (pk_tcp p)) TH_FIN \<and>
     tcp_hlen (pk_tcp p) < pk_size p \<and> tcp_ackno (pk_tcp p) \<le> tc_maxseq s"

definition segment_bytes :: "packet \<Rightarrow> int set" where
  "segment_bytes p = {tcp_seqno (pk_tcp p) ..< tcp_seqno (pk_tcp p) + (pk_size p - tcp_hlen (pk_tcp p))}"

text \<open>After trimming, a segment starts at or after \<open>rcv_nxt_\<close> and has lost only bytes before it.\<close>

definition trimmed :: "int \<Rightarrow> recv_vars \<Rightarrow> recv_vars \<Rightarrow> bool" where
  "trimmed r v v' \<longleftrightarrow> rv_datalen v' = pk_size (rv_pkt v') - tcp_hlen (pk_tcp (rv_pkt v')) \<and> 0 \<le> rv_datalen v' \<and>
     (0 < rv_datalen v' \<longrightarrow> r \<le> rv_seqno v') \<and> rv_ackno v' = rv_ackno v \<and>
     {rv_seqno v' ..< rv_seqno v' + rv_datalen v'} = {rv_seqno v ..< rv_seqno v + rv_datalen v} \<inter> {r ..}"

lemma contains_clear: "contains_all (f AND NOT g) h \<Longrightarrow> contains_all f h" for f :: int
  unfolding contains_all_def by (metis (no_types, lifting) and.assoc and.commute and.left_idem)

lemma trim_head_trimmed:
  assumes "trim_head v s = (v', s')" "rv_datalen v = pk_size (rv_pkt v) - tcp_hlen (pk_tcp (rv_pkt v))" "0 < rv_datalen v"
    "\<not> contains_all (rv_tiflags v) TH_SYN" "\<not> contains_all (rv_tiflags v) TH_FIN" "contains_all (rv_tiflags v) TH_ACK"
  shows "trimmed (tc_rcv_nxt s) v v'" "\<not> contains_all (rv_tiflags v') TH_SYN" "\<not> contains_all (rv_tiflags v') TH_FIN"
    "contains_all (rv_tiflags v') TH_ACK"
proof -
  have a: "contains_all (rv_tiflags v AND NOT TH_FIN) TH_ACK" using assms(6) by (simp add: contains_all_def TH_defs and.assoc)
  have n: "\<not> contains_all (rv_tiflags v AND NOT TH_FIN) TH_SYN" "\<not> contains_all (rv_tiflags v AND NOT TH_FIN) TH_FIN"
    using assms(4,5) contains_clear by blast+
  consider "v' = v" "tc_rcv_nxt s \<le> rv_seqno v" |
    "rv_seqno v < tc_rcv_nxt s" "rv_seqno v + rv_datalen v \<le> tc_rcv_nxt s"
      "v' = trim_front (rv_datalen v) (v\<lparr>rv_tiflags := rv_tiflags v AND NOT TH_FIN, rv_dupseg := True\<rparr>)" |
    "rv_seqno v < tc_rcv_nxt s" "tc_rcv_nxt s < rv_seqno v + rv_datalen v" "v' = trim_front (tc_rcv_nxt s - rv_seqno v) v"
    using assms unfolding trim_head_def Let_def by (auto split: if_split_asm)
  then show "trimmed (tc_rcv_nxt s) v v'" "\<not> contains_all (rv_tiflags v') TH_SYN" "\<not> contains_all (rv_tiflags v') TH_FIN"
    "contains_all (rv_tiflags v') TH_ACK"
    using assms(2-6) a n by (cases; auto simp: trimmed_def trim_front_def set_seqno_def)+
qed

lemma kept_conn_fields:
  "kept_conn s' = kept_conn s \<Longrightarrow> tc_cfg s' = tc_cfg s \<and> tc_rq s' = tc_rq s \<and> tc_fid s' = tc_fid s \<and> tc_maxseq s' = tc_maxseq s \<and>
     tc_state s' = tc_state s \<and> received_in (tc_log s') = received_in (tc_log s)"
  using keptD(1,7,14,17) [of s' s] by (simp add: kept_conn_iff)

lemma recv_slow_progress:
  assumes r: "recv_slow v s = Inr s'" and st: "taking_data s" "taking_data s'"
    and v: "rv_datalen v = pk_size (rv_pkt v) - tcp_hlen (pk_tcp (rv_pkt v))" "0 < rv_datalen v"
      "\<not> contains_all (rv_tiflags v) TH_SYN" "\<not> contains_all (rv_tiflags v) TH_FIN" "contains_all (rv_tiflags v) TH_ACK"
      "rv_ackno v \<le> tc_maxseq s" "\<not> cf_ts_option (tc_cfg s)"
    and J: "receiving r1 R1 (tc_rq s)"
  shows "progress ({rv_seqno v ..< rv_seqno v + rv_datalen v} \<inter> {tc_rcv_nxt s ..}) s s'"
proof -
  let ?B = "{rv_seqno v ..< rv_seqno v + rv_datalen v} \<inter> {tc_rcv_nxt s ..}"
  have n: "tc_state s \<notin> {CLOSED, LISTEN, SYN_SENT, SYN_RECEIVED, LAST_ACK}" using st(1) by (auto simp: taking_data_def)
  obtain v1 s1 where t: "trim_head v s = (v1, s1)" by fastforce
  note w = trim_head_trimmed [OF t v(1-5)]
  have "recv_check v s = Inr (Next, v1, record_timestamp (rv_pkt v1) s1)"
    using w(2,4) v(7) t by (simp add: recv_check_def Let_def)
  with r n obtain l v2 s2 where 2: "recv_ack v1 (record_timestamp (rv_pkt v1) s1) = Inr (l, v2, s2)" "recv_end (l, v2, s2) = Inr s'"
    by (auto simp: recv_slow_def res_bind_Inr_iff)
  let ?s1 = "record_timestamp (rv_pkt v1) s1"
  have k: "kept_conn ?s1 = kept_conn s" using trim_head_kept [of v s] t by simp
  note f = kept_conn_fields [OF k]
  have n1: "tc_state ?s1 \<noteq> SYN_RECEIVED" "tc_state ?s1 \<noteq> LAST_ACK" using n f by auto
  note a = recv_ack_ax(4) [OF 2(1) n1] and l = recv_ack_ax(3) [OF 2(1) n1(1)] and vv = recv_ack_ax(2) [OF 2(1)]
  have ax: "ax s s2" using kept_conn_ax [OF k] a by (blast intro: ax_trans)
  have l': "l = Goto_step6 \<or> (l = Goto_drop \<and> rv_datalen v1 = 0)" using l a w(1) v(6) f by (auto simp: trimmed_def)
  have B: "?B = {rv_seqno v2 ..< rv_seqno v2 + rv_datalen v2}" "0 \<le> rv_datalen v2" "0 < rv_datalen v2 \<longrightarrow> tc_rcv_nxt s \<le> rv_seqno v2"
    "rv_datalen v2 = pk_size (rv_pkt v2) - tcp_hlen (pk_tcp (rv_pkt v2))"
    using w(1) vv unfolding trimmed_def same_segment_def by metis+
  have q: "tc_rq s2 = tc_rq s" using ax by (simp add: ax_def)
  show ?thesis
  proof (cases "l = Goto_step6")
    case True
    with 2(2) have "recv_step6 v2 s2 = Inr s'" by (simp add: recv_end_def)
    from recv_step6_progress [OF this ax_taking [OF ax st(1)] st(2) B(4) _ _ B(2), of r1 R1] B(3) J q w(3) vv
    have "progress ?B s2 s'" unfolding B(1) by (auto simp: same_segment_def)
    from progress_trans [OF ax_progress [OF ax] this] show ?thesis by simp
  next
    case False
    with l' vv have "rv_datalen v2 = 0" "s' = s2" using 2(2) by (auto simp: same_segment_def recv_end_def)
    then have "?B = {}" "s' = s2" using B(1) by simp_all
    with ax_progress [OF ax] show ?thesis by simp
  qed
qed

lemma progress_segment:
  assumes "progress ({a ..< b} \<inter> {tc_rcv_nxt s ..}) s s'"
  shows "progress {a ..< b} s s'"
proof -
  have "R \<union> ({a ..< b} \<inter> {tc_rcv_nxt s ..} \<inter> {r0 ..}) = R \<union> ({a ..< b} \<inter> {r0 ..})" if "receiving r0 R (tc_rq s)" for r0 R
  proof -
    have "x \<in> R" if "r0 \<le> x" "\<not> tc_rcv_nxt s \<le> x" for x
      using \<open>receiving r0 R (tc_rq s)\<close> that unfolding receiving_def by (meson atLeastLessThan_iff linorder_not_le subsetD)
    then show ?thesis by auto
  qed
  with assms show ?thesis by (auto simp: progress_def)
qed

lemma recv_progress:
  assumes r: "recv p s = Inr s'" and st: "taking_data s" "taking_data s'" and d: "data_segment s p" "\<not> cf_ts_option (tc_cfg s)"
    and J: "receiving r1 R1 (tc_rq s)"
  shows "progress (segment_bytes p) s s'"
proof -
  let ?v = "recv_init p"
  define s0 where "s0 = ecn_on_receive p (dooptions p (s\<lparr>tc_prob_mode := False, tc_prob_count := 0, tc_last_state := tc_state s\<rparr>))"
  have f0: "tc_cfg s0 = tc_cfg s \<and> tc_rq s0 = tc_rq s \<and> tc_fid s0 = tc_fid s \<and> tc_maxseq s0 = tc_maxseq s \<and>
     tc_state s0 = tc_state s \<and> received_in (tc_log s0) = received_in (tc_log s)"
    using kept_conn_fields [of s0 "s\<lparr>tc_prob_mode := False, tc_prob_count := 0, tc_last_state := tc_state s\<rparr>"] by (simp add: s0_def)
  have p0: "progress {} s s0" using f0 by (simp add: progress_def)
  have v: "rv_datalen ?v = pk_size (rv_pkt ?v) - tcp_hlen (pk_tcp (rv_pkt ?v))" "0 < rv_datalen ?v" "rv_tiflags ?v = tcp_flags (pk_tcp p)"
    "rv_pkt ?v = p" "{rv_seqno ?v ..< rv_seqno ?v + rv_datalen ?v} = segment_bytes p"
    using d(1) by (auto simp: recv_init_def data_segment_def segment_bytes_def)
  have "tc_state s \<noteq> CLOSED" "tc_state s \<noteq> LISTEN" using st(1) by (auto simp: taking_data_def)
  with r d(1) obtain l v1 s1 where 1: "recv_predicted ?v s0 = Inr (l, v1, s1)" "(if l = Return then Inr s1 else recv_slow v1 s1) = Inr s'"
    by (auto simp: recv_def s0_def data_segment_def res_bind_Inr_iff)
  note c = recv_predicted_cases [OF 1(1)]
  have "progress (segment_bytes p) s0 s'"
  proof (cases "l = Return")
    case True
    with c v 1(2) have "took (rv_datalen ?v) s0 s'" "rv_seqno ?v = tc_rcv_nxt s0" "rq_empty (tc_rq s0)" by auto
    with took_progress [of "rv_datalen ?v" s0 s'] v(2,5) show ?thesis by simp
  next
    case False
    with c 1(2) have k: "kept_conn s1 = kept_conn s0" and sl: "recv_slow ?v s1 = Inr s'" by auto
    note f1 = kept_conn_fields [OF k]
    have "taking_data s1" using st(1) f0 f1 by (simp add: taking_data_def)
    from recv_slow_progress [OF sl this st(2) v(1,2), of r1 R1] d f0 f1 v(3,4) J
    have "progress ({rv_seqno ?v ..< rv_seqno ?v + rv_datalen ?v} \<inter> {tc_rcv_nxt s1 ..}) s1 s'" by (auto simp: data_segment_def)
    then have "progress (segment_bytes p) s1 s'" using progress_segment v(5) by metis
    with progress_trans [OF ax_progress [OF kept_conn_ax [OF k]]] show ?thesis by fastforce
  qed
  from progress_trans [OF p0 this] show ?thesis by simp
qed

section \<open>Any sequence of segments\<close>

datatype input = Segment packet | Rtx | Delsnd | Delack

fun receive_input :: "input \<Rightarrow> tcp_agent \<Rightarrow> tcp_agent res" where
  "receive_input (Segment p) s = recv p s"
| "receive_input Rtx s = expire_rtx s"
| "receive_input Delsnd s = expire_delsnd s"
| "receive_input Delack s = expire_delack s"

fun receive_inputs :: "input list \<Rightarrow> tcp_agent \<Rightarrow> tcp_agent res" where
  "receive_inputs [] s = Inr s"
| "receive_inputs (i # is) s = res_bind (receive_input i s) (receive_inputs is)"

definition input_bytes :: "input list \<Rightarrow> int set" where
  "input_bytes is = (\<Union>p \<in> {p. Segment p \<in> set is}. segment_bytes p)"

lemma input_bytes_simps [simp]:
  "input_bytes [] = {}" "input_bytes (Segment p # is) = segment_bytes p \<union> input_bytes is"
  "input_bytes (Rtx # is) = input_bytes is" "input_bytes (Delsnd # is) = input_bytes is" "input_bytes (Delack # is) = input_bytes is"
  by (auto simp: input_bytes_def)

lemma expire_ax:
  "expire_rtx s = Inr s' \<Longrightarrow> ax s s'" "expire_delsnd s = Inr s' \<Longrightarrow> ax s s'" "expire_delack s = Inr s' \<Longrightarrow> ax s s'"
proof -
  have u: "ax t (t\<lparr>tc_rtx_timer := x\<rparr>)" "ax t (t\<lparr>tc_delsnd_timer := x\<rparr>)" "ax t (t\<lparr>tc_delack_timer := x\<rparr>)" for t x
    by (simp_all add: ax_def acks_sent_def)
  note v = u [THEN ax_trans, OF ax_trans [OF tx_ax [OF timeout_tx]], OF _ u(1)]
     u [THEN ax_trans, OF ax_trans [OF tx_ax [OF timeout_tx]], OF _ u(2)]
     u [THEN ax_trans, OF ax_trans [OF tx_ax [OF timeout_tx]], OF _ u(3)]
  show "expire_rtx s = Inr s' \<Longrightarrow> ax s s'" "expire_delsnd s = Inr s' \<Longrightarrow> ax s s'" "expire_delack s = Inr s' \<Longrightarrow> ax s s'"
    by (auto simp: expire_rtx_def expire_delsnd_def expire_delack_def res_bind_Inr_iff intro: v)
qed

text \<open>A step after which data can still be taken started where data could be taken.\<close>

lemma input_state:
  assumes "receive_input i s = Inr s'"
  shows "tc_state s \<noteq> LISTEN \<longrightarrow> recv_edge\<^sup>*\<^sup>* (tc_state s) (tc_state s')"
proof (cases i)
  case (Segment p)
  with assms recv_fx show ?thesis by (auto simp: fx_def)
qed (use assms expire_ax in \<open>auto simp: ax_def intro!: ack_edges_recv\<close>)

lemma inputs_state: "receive_inputs is s = Inr s' \<Longrightarrow> tc_state s \<in> {CLOSE_WAIT, CLOSING, LAST_ACK, CLOSED} \<Longrightarrow>
    tc_state s' \<in> {CLOSE_WAIT, CLOSING, LAST_ACK, CLOSED}"
proof (induction "is" arbitrary: s)
  case (Cons i "is")
  then obtain s1 where 1: "receive_input i s = Inr s1" "receive_inputs is s1 = Inr s'" by (auto simp: res_bind_Inr_iff)
  have "tc_state s1 \<in> {CLOSE_WAIT, CLOSING, LAST_ACK, CLOSED}"
    by (rule closed_stays [OF _ Cons.prems(2)]) (use input_state [OF 1(1)] Cons.prems(2) in auto)
  with Cons.IH [OF 1(2)] show ?case .
qed simp

lemma recv_edges_from_taking: "recv_edge\<^sup>*\<^sup>* a b \<Longrightarrow> a \<in> {ESTABLISHED, FIN_WAIT_1, FIN_WAIT_2} \<Longrightarrow>
    b \<in> {ESTABLISHED, FIN_WAIT_1, FIN_WAIT_2, CLOSE_WAIT, CLOSING, LAST_ACK, CLOSED}"
  by (induction rule: rtranclp.induct) (auto simp: recv_edge_iff ack_edge_iff)

lemma data_segment_mono: "data_segment s p \<Longrightarrow> progress B s s' \<Longrightarrow> data_segment s' p"
  by (auto simp: data_segment_def progress_def)

lemma inputs_progress:
  "receive_inputs is s = Inr s' \<Longrightarrow> taking_data s \<Longrightarrow> taking_data s' \<Longrightarrow> \<forall>p. Segment p \<in> set is \<longrightarrow> data_segment s p \<Longrightarrow>
   \<not> cf_ts_option (tc_cfg s) \<Longrightarrow> receiving r1 R1 (tc_rq s) \<Longrightarrow> progress (input_bytes is) s s'"
proof (induction "is" arbitrary: s R1)
  case (Cons i "is")
  then obtain s1 where 1: "receive_input i s = Inr s1" "receive_inputs is s1 = Inr s'" by (auto simp: res_bind_Inr_iff)
  have "tc_state s1 \<notin> {CLOSE_WAIT, CLOSING, LAST_ACK, CLOSED}" using inputs_state [OF 1(2)] Cons.prems(3) by (auto simp: taking_data_def)
  moreover have "tc_state s1 \<in> {ESTABLISHED, FIN_WAIT_1, FIN_WAIT_2, CLOSE_WAIT, CLOSING, LAST_ACK, CLOSED}"
    using input_state [OF 1(1)] Cons.prems(2) recv_edges_from_taking [of "tc_state s" "tc_state s1"] by (auto simp: taking_data_def)
  ultimately have st: "taking_data s1" by (auto simp: taking_data_def)
  have p1: "progress (input_bytes [i]) s s1"
  proof (cases i)
    case (Segment p)
    with 1(1) Cons.prems st recv_progress [of p s s1 r1 R1] show ?thesis by simp
  qed (use 1(1) expire_ax ax_progress in auto)
  note J = progressD(1) [OF p1 Cons.prems(6)]
  have "\<forall>p. Segment p \<in> set is \<longrightarrow> data_segment s1 p" using Cons.prems(4) data_segment_mono [OF _ p1] by simp
  then have "progress (input_bytes is) s1 s'"
    using Cons.IH [OF 1(2) st Cons.prems(3) _ _ J] Cons.prems(5) progressD(2) [OF p1] by simp
  from progress_trans [OF p1 this] show ?case by (cases i) auto
qed simp

text \<open>C1: The receiver of a connection delivers a byte stream. Segments of data arrive in any order, overlapping, repeated
  and with gaps, and the timers of the agent expire in between; the connection takes data before and after. Then every byte from
  the first expected one up to \<open>rcv_nxt_\<close> has arrived, \<open>rcv_nxt_\<close> itself has not (so what the peer is told to send next is
  the first gap), and the application has been given exactly as many bytes as \<open>rcv_nxt_\<close> has advanced: none is lost and none
  is given twice.\<close>

theorem recv_delivers_in_order:
  assumes "receive_inputs is s = Inr s'" "taking_data s" "taking_data s'" "\<not> cf_ts_option (tc_cfg s)"
    "tc_rq s = rq_init r" "\<forall>p. Segment p \<in> set is \<longrightarrow> data_segment s p"
  shows "r \<le> tc_rcv_nxt s' \<and> {r ..< tc_rcv_nxt s'} \<subseteq> input_bytes is \<and> tc_rcv_nxt s' \<notin> input_bytes is \<and>
    received_in (tc_log s') - received_in (tc_log s) = tc_rcv_nxt s' - r"
proof -
  have J: "receiving r {} (tc_rq s)" unfolding assms(5) by (simp add: receiving_def rq_init_def rq_inv_def rq_book_def iv_inv_def)
  from inputs_progress [OF assms(1-3,6,4) J] have p: "progress (input_bytes is) s s'" .
  from progressD(1) [OF this J] have "receiving r (input_bytes is \<inter> {r ..}) (tc_rq s')" by simp
  with p assms(5) show ?thesis by (auto simp: receiving_def progress_def rq_init_def)
qed

text \<open>A receiver whose deadline has passed, on which two segments are evaluated.\<close>

definition established_agent :: tcp_agent where
  "established_agent = (new_agent (default_cfg DDTcpAgent))
     \<lparr>tc_state := ESTABLISHED, tc_curseq := 0, tc_maxseq := 1, tc_highest_ack := 1, tc_t_seqno := 1, tc_rq := rq_init 1,
      tc_last_ack_sent := 1, tc_cwnd := 2, tc_deadline := 1, tc_now := 1\<rparr>"

definition data_packet :: "int \<Rightarrow> int \<Rightarrow> packet" where
  "data_packet seqno n = (packet_init 0)\<lparr>pk_size := n + 40,
     pk_tcp := hdr_tcp0\<lparr>tcp_seqno := seqno, tcp_ackno := 1, tcp_hlen := 40, tcp_flags := TH_ACK\<rparr>\<rparr>"

lemmas eval_recv = recv_def recv_init_def dooptions_def ecn_on_receive_def tracker_on_receive_def is_ecn_active_def is_ecn_active_by_def recv_predicted_def
  predict_ok_def update_state_new_packet_def record_timestamp_def predicted_ack_def predicted_data_def on_receive_pure_incoming_def
  has_pending_def recv_tracker_kind_def start_delack_def set_rcv_nxt_def note_received_def

lemma established_recv:
  "\<exists>s'. receive_inputs [Segment (data_packet 1 500), Segment (data_packet 501 500)] established_agent = Inr s' \<and> taking_data s'"
  by (simp add: established_agent_def data_packet_def new_agent_def default_cfg_def eval_recv eval_output hdr_tcp0_def
      numeral_2_eq_2 taking_data_def)

theorem recv_delivers_in_order_witness:
  "\<exists>s'. receive_inputs [Segment (data_packet 1 500), Segment (data_packet 501 500)] established_agent = Inr s' \<and>
    {1 ..< tc_rcv_nxt s'} \<subseteq> {1 ..< 1001} \<and> tc_rcv_nxt s' \<notin> {1 ..< 1001} \<and>
    received_in (tc_log s') - received_in (tc_log established_agent) = tc_rcv_nxt s' - 1"
proof -
  let ?is = "[Segment (data_packet 1 500), Segment (data_packet 501 500)]"
  from established_recv obtain s' where s': "receive_inputs ?is established_agent = Inr s'" "taking_data s'" by blast
  have h: "taking_data established_agent" "\<not> cf_ts_option (tc_cfg established_agent)" "tc_rq established_agent = rq_init 1"
    by (simp_all add: established_agent_def taking_data_def new_agent_def default_cfg_def)
  have d: "\<forall>p. Segment p \<in> set ?is \<longrightarrow> data_segment established_agent p"
    by (auto simp: data_segment_def data_packet_def established_agent_def new_agent_def packet_init_defs hdr_tcp0_def TH_defs
        contains_all_def)
  have b: "input_bytes ?is = {1 ..< 1001}" by (auto simp: segment_bytes_def data_packet_def)
  from recv_delivers_in_order [OF s'(1) h(1) s'(2) h(2,3) d] show ?thesis unfolding b using s'(1) by blast
qed



end
