(* ===== verification/Double.thy ===== *)
theory Double
  imports Prelude "HOL-Library.Log_Nat"
begin

text \<open>
  The arithmetic of \<open>double\<close> where its precision matters (the random number generator): every operation rounds its exact
  result to 53 significant bits, to the nearest value and to an even last bit on a tie, as IEEE 754 prescribes. The magnitudes that
  occur lie between \<open>2^-57\<close> and \<open>2^64\<close>, far from underflow and overflow, so the exponent is not bounded.

  What the generator relies on is stated as the locale \<open>rounding\<close>, and the rounding defined here is shown to be an instance.
\<close>

lemma trunc_minus: "trunc (- x) = - trunc x"
  by (simp add: trunc_def ceiling_minus floor_minus)

section \<open>What is relied on\<close>

locale rounding =
  fixes rnd :: "real \<Rightarrow> real"
  assumes rnd_mono: "x \<le> y \<Longrightarrow> rnd x \<le> rnd y"
    and rnd_int: "\<bar>n\<bar> \<le> 2 ^ 53 \<Longrightarrow> rnd (of_int n) = of_int n"
    and rnd_minus: "rnd (- x) = - rnd x"
    and rnd_error: "\<bar>rnd x - x\<bar> \<le> \<bar>x\<bar> / 2 ^ 53"
begin

lemma rnd_nonneg: "0 \<le> x \<Longrightarrow> 0 \<le> rnd x"
  using rnd_mono [of 0 x] rnd_int [of 0] by simp

lemma rnd_nonpos: "x \<le> 0 \<Longrightarrow> rnd x \<le> 0"
  using rnd_mono [of x 0] rnd_int [of 0] by simp

text \<open>The integer part of a rounded quotient of integers below \<open>2^53\<close> is the one of the exact quotient: the error is less
  than the distance to the next integer.\<close>

lemma quotient_floor:
  assumes v: "0 \<le> v" "v < 2 ^ 53" and m: "0 < m"
  shows "trunc (rnd (of_int v / of_int m)) = v div m"
proof -
  let ?q = "of_int v / of_int m :: real"
  have "v div m \<le> v div 1" by (rule zdiv_mono2) (use v(1) m in simp_all)
  then have k: "v div m \<le> v" "0 \<le> v div m" using v(1) m by (simp_all add: pos_imp_zdiv_nonneg_iff)
  have lo: "of_int (v div m) \<le> ?q" using m floor_divide_of_int_eq [of v m, where 'a = real] by linarith
  have "v + 1 \<le> (v div m + 1) * m" using pos_mod_bound [OF m, of v] div_mult_mod_eq [of v m] unfolding ring_distribs mult_1 by linarith
  then have "(of_int (v + 1) :: real) \<le> of_int ((v div m + 1) * m)" unfolding of_int_le_iff .
  then have hi: "?q + 1 / of_int m \<le> of_int (v div m + 1)" using m by (simp add: add_divide_distrib [symmetric] pos_divide_le_eq)
  have "(of_int v :: real) < of_int (2 ^ 53)" using v(2) unfolding of_int_less_iff .
  then have "?q / 2 ^ 53 < 1 / of_int m" using m by (simp add: field_simps)
  moreover have "rnd ?q \<le> ?q + ?q / 2 ^ 53" using rnd_error [of ?q] v(1) m by (simp add: abs_le_iff)
  ultimately have "rnd ?q < of_int (v div m + 1)" using hi by linarith
  moreover have "of_int (v div m) \<le> rnd ?q" using rnd_mono [OF lo] rnd_int [of "v div m"] k v(2) by simp
  ultimately have "\<lfloor>rnd ?q\<rfloor> = v div m" by (simp add: floor_eq_iff)
  moreover have "0 \<le> rnd ?q" using v(1) m by (intro rnd_nonneg) simp
  ultimately show ?thesis by (simp add: trunc_def)
qed

lemma quotient_trunc:
  assumes "\<bar>v\<bar> < 2 ^ 53" "0 < m"
  shows "trunc (rnd (of_int v / of_int m)) = v sdiv m"
proof (cases "0 \<le> v")
  case True
  with quotient_floor [of v m] assms show ?thesis by (simp add: signed_divide_int_def sgn_if)
next
  case False
  with quotient_floor [of "- v" m] assms rnd_minus [of "- (of_int v / of_int m)"]
  have "trunc (- rnd (of_int v / of_int m)) = - v div m" by (simp add: rnd_minus)
  then show ?thesis using False assms(2) by (simp add: signed_divide_int_def sgn_if trunc_minus)
qed

end

section \<open>Rounding to 53 bits\<close>

definition round_even :: "real \<Rightarrow> int" where
  "round_even x =
     (let f = \<lfloor>x\<rfloor>; d = x - of_int f
      in if d < 1 / 2 \<or> (d = 1 / 2 \<and> even f) then f else f + 1)"

definition exponent :: "real \<Rightarrow> int" where
  "exponent x = (if 1 \<le> \<bar>x\<bar> then bitlen \<lfloor>\<bar>x\<bar>\<rfloor> - 1 else - bitlen (\<lceil>1 / \<bar>x\<bar>\<rceil> - 1))"

definition round53 :: "real \<Rightarrow> real" where
  "round53 x =
     (if x = 0 then 0 else let u = 2 powi (exponent x - 52) in of_int (round_even (x / u)) * u)"

lemma round_even_of_int [simp]: "round_even (of_int n) = n"
  by (simp add: round_even_def)

lemma round_even_error: "\<bar>of_int (round_even x) - x\<bar> \<le> 1 / 2"
  unfolding round_even_def Let_def by (cases "x - of_int \<lfloor>x\<rfloor> < 1 / 2"; simp add: abs_le_iff; linarith)

lemma round_even_mono: "x \<le> y \<Longrightarrow> round_even x \<le> round_even y"
proof -
  assume xy: "x \<le> y"
  then have f: "\<lfloor>x\<rfloor> \<le> \<lfloor>y\<rfloor>" by (rule floor_mono)
  show ?thesis
  proof (cases "\<lfloor>x\<rfloor> = \<lfloor>y\<rfloor>")
    case True
    with xy show ?thesis by (auto simp: round_even_def Let_def)
  next
    case False
    with f show ?thesis by (auto simp: round_even_def Let_def)
  qed
qed

lemma exponent_bounds:
  assumes "x \<noteq> 0"
  shows "2 powi exponent x \<le> \<bar>x\<bar> \<and> \<bar>x\<bar> < 2 powi (exponent x + 1)"
proof (cases "1 \<le> \<bar>x\<bar>")
  case True
  let ?n = "\<lfloor>\<bar>x\<bar>\<rfloor>"
  from True have n: "1 \<le> ?n" by simp
  then have "1 \<le> bitlen ?n" by (simp add: bitlen_alt_def)
  then obtain k where k: "bitlen ?n = int (k + 1)" by (metis zle_iff_zadd of_nat_1 of_nat_add add.commute)
  from bitlen_bounds [of ?n] n have b: "2 ^ k \<le> ?n" "?n + 1 \<le> 2 ^ (k + 1)" unfolding k by (simp_all add: nat_add_distrib)
  have "(of_int (2 ^ k) :: real) \<le> of_int ?n" "(of_int (?n + 1) :: real) \<le> of_int (2 ^ (k + 1))" using b unfolding of_int_le_iff by simp_all
  then have "2 ^ k \<le> \<bar>x\<bar>" "\<bar>x\<bar> < 2 ^ (k + 1)" unfolding of_int_power of_int_numeral by linarith+
  moreover have "exponent x = int k" "exponent x + 1 = int (k + 1)" using True k by (simp_all add: exponent_def)
  ultimately show ?thesis by (simp only: power_int_of_nat)
next
  case False
  let ?y = "1 / \<bar>x\<bar>" let ?n = "\<lceil>?y\<rceil> - 1"
  from False assms have y: "1 < ?y" by (simp add: field_simps)
  then have n: "1 \<le> ?n" by linarith
  then have "1 \<le> bitlen ?n" by (simp add: bitlen_alt_def)
  then obtain k where k: "bitlen ?n = int (k + 1)" by (metis zle_iff_zadd of_nat_1 of_nat_add add.commute)
  from bitlen_bounds [of ?n] n have b: "2 ^ k \<le> ?n" "?n + 1 \<le> 2 ^ (k + 1)" unfolding k by (simp_all add: nat_add_distrib)
  have "(of_int (2 ^ k) :: real) \<le> of_int ?n" "(of_int (?n + 1) :: real) \<le> of_int (2 ^ (k + 1))" using b unfolding of_int_le_iff by simp_all
  then have "2 ^ k < ?y" "?y \<le> 2 ^ (k + 1)" unfolding of_int_power of_int_numeral by linarith+
  then have "1 / 2 ^ (k + 1) \<le> \<bar>x\<bar>" "\<bar>x\<bar> < 1 / 2 ^ k" using assms by (simp_all add: field_simps)
  moreover have "exponent x = - int (k + 1)" "exponent x + 1 = - int k" using False k by (simp_all add: exponent_def)
  ultimately show ?thesis by (simp only: power_int_minus power_int_of_nat inverse_eq_divide)
qed

lemma powi_add: "(2::real) powi (a + b) = 2 powi a * 2 powi b"
  by (rule power_int_add) simp

text \<open>A number in units of its last place has 53 bits, and so has what it is rounded to.\<close>

lemma scaled_bounds:
  assumes "x \<noteq> 0"
  shows "2 ^ 52 \<le> \<bar>x / 2 powi (exponent x - 52)\<bar> \<and> \<bar>x / 2 powi (exponent x - 52)\<bar> < 2 ^ 53"
proof -
  have "2 powi exponent x = 2 ^ 52 * (2::real) powi (exponent x - 52)" "2 powi (exponent x + 1) = 2 ^ 53 * (2::real) powi (exponent x - 52)"
    using powi_add [of 52 "exponent x - 52"] powi_add [of 53 "exponent x - 52"] by (simp_all add: add.commute)
  with exponent_bounds [OF assms] show ?thesis
    by (simp add: abs_divide pos_le_divide_eq pos_divide_less_eq)
qed

lemma round53_scaled:
  assumes "x \<noteq> 0" and u: "u = 2 powi (exponent x - 52)"
  shows "round53 x = of_int (round_even (x / u)) * u" "0 < u"
  using assms by (simp_all add: round53_def Let_def)

lemma round53_error: "\<bar>round53 x - x\<bar> \<le> \<bar>x\<bar> / 2 ^ 53"
proof (cases "x = 0")
  case False
  define u :: real where "u = 2 powi (exponent x - 52)"
  note r = round53_scaled [OF False u_def]
  have "\<bar>round53 x - x\<bar> = \<bar>of_int (round_even (x / u)) - x / u\<bar> * u"
  proof -
    have "round53 x - x = (of_int (round_even (x / u)) - x / u) * u" unfolding r(1) using r(2) by (simp add: left_diff_distrib)
    then show ?thesis using r(2) by (simp only: abs_mult abs_of_pos)
  qed
  also have "\<dots> \<le> 1 / 2 * u" using r(2) round_even_error by (intro mult_right_mono) simp_all
  also have "\<dots> \<le> \<bar>x\<bar> / 2 ^ 53"
    using scaled_bounds [OF False] r(2) unfolding u_def [symmetric] by (simp add: abs_divide pos_le_divide_eq field_simps)
  finally show ?thesis .
qed (simp add: round53_def)

lemma round53_int: "\<bar>n\<bar> \<le> 2 ^ 53 \<Longrightarrow> round53 (of_int n) = of_int n"
proof -
  assume n: "\<bar>n\<bar> \<le> 2 ^ 53"
  show ?thesis
  proof (cases "n = 0")
    case False
    define x :: real where "x = of_int n"
    have x: "x \<noteq> 0" using False by (simp add: x_def)
    note r = round53_scaled [OF x refl]
    have "\<exists>k. x / 2 powi (exponent x - 52) = of_int k"
    proof (cases "exponent x \<le> 52")
      case True
      then obtain j where "52 - exponent x = int j" by (metis zero_le_imp_eq_int diff_ge_0_iff_ge)
      then have "exponent x - 52 = - int j" by simp
      then have "x / 2 powi (exponent x - 52) = of_int (n * 2 ^ j)" by (simp only:) (simp add: x_def power_int_minus field_simps)
      then show ?thesis ..
    next
      case False
      then have "(2::real) ^ 53 \<le> 2 powi exponent x" using power_int_increasing [of 53 "exponent x" "2::real"] by simp
      with exponent_bounds [OF x] n have "\<bar>n\<bar> = 2 ^ 53"
        unfolding x_def by (metis (mono_tags, lifting) dual_order.antisym of_int_abs of_int_le_numeral_power_cancel_iff order_trans numeral_power_le_of_int_cancel_iff)
      then have a: "\<bar>x\<bar> = 2 ^ 53" unfolding x_def by (metis of_int_abs of_int_numeral of_int_power)
      have "exponent x = 53" unfolding exponent_def a using bitlen_pow2 [of 1 53] by (simp add: compute_bitlen [of 1])
      with a show ?thesis by (cases "0 \<le> x") (auto intro: exI [of _ "2 ^ 52"] exI [of _ "- (2 ^ 52)"])
    qed
    then obtain k where k: "x / 2 powi (exponent x - 52) = of_int k" ..
    then have "of_int k * 2 powi (exponent x - 52) = x" using r(2) by (simp add: field_simps)
    then show ?thesis unfolding x_def [symmetric] r(1) k round_even_of_int .
  qed (simp add: round53_def)
qed

lemma round_even_minus: "round_even (- x) = - round_even x"
proof (cases "x = of_int \<lfloor>x\<rfloor>")
  case True
  then obtain n where "x = of_int n" by blast
  then show ?thesis using round_even_of_int [of "- n"] by simp
next
  case False
  then have f: "\<lfloor>- x\<rfloor> = - \<lfloor>x\<rfloor> - 1" by (simp add: floor_minus ceiling_altdef)
  show ?thesis using False unfolding round_even_def Let_def f by (auto; linarith)
qed

lemma round53_minus: "round53 (- x) = - round53 x"
  by (simp add: round53_def exponent_def Let_def round_even_minus)

lemma round53_mono_pos:
  assumes "0 < x" "x \<le> y"
  shows "round53 x \<le> round53 y"
proof -
  define u v :: real where "u = 2 powi (exponent x - 52)" and "v = 2 powi (exponent y - 52)"
  have xy: "x \<noteq> 0" "y \<noteq> 0" using assms by simp_all
  note r = round53_scaled [OF xy(1) u_def] round53_scaled [OF xy(2) v_def]
  have e: "exponent x \<le> exponent y"
  proof (rule ccontr)
    assume "\<not> ?thesis"
    then have "(2::real) powi (exponent y + 1) \<le> 2 powi exponent x" by (intro power_int_increasing) simp_all
    with exponent_bounds [OF xy(1)] exponent_bounds [OF xy(2)] assms show False by simp
  qed
  show ?thesis
  proof (cases "exponent x = exponent y")
    case True
    then have "v = u" by (simp add: u_def v_def)
    moreover have "round_even (x / u) \<le> round_even (y / u)" using assms r(2) by (intro round_even_mono divide_right_mono) simp_all
    ultimately show ?thesis unfolding r(1,3) using r(2) by (simp add: mult_right_mono)
  next
    case False
    have "round_even (x / u) \<le> 2 ^ 53"
      using round_even_mono [of "x / u" "of_int (2 ^ 53)"] scaled_bounds [OF xy(1)] assms(1) r(2) unfolding u_def [symmetric] round_even_of_int by simp
    then have "round53 x \<le> of_int (2 ^ 53) * u" unfolding r(1) using r(2) by (intro mult_right_mono) (simp_all only: of_int_le_iff)
    also have "\<dots> = of_int (2 ^ 52) * 2 powi (exponent x + 1 - 52)" using powi_add [of 1 "exponent x - 52"] by (simp add: u_def algebra_simps)
    also have "\<dots> \<le> of_int (2 ^ 52) * v" unfolding v_def using e False by (intro mult_left_mono power_int_increasing) simp_all
    also have "2 ^ 52 \<le> round_even (y / v)"
      using round_even_mono [of "of_int (2 ^ 52)" "y / v"] scaled_bounds [OF xy(2)] assms r(4) unfolding v_def [symmetric] round_even_of_int
      by simp
    then have "of_int (2 ^ 52) * v \<le> round53 y" unfolding r(3) using r(4) by (intro mult_right_mono) (simp_all only: of_int_le_iff)
    finally show ?thesis .
  qed
qed

lemma round53_sign: "0 \<le> x \<Longrightarrow> 0 \<le> round53 x"
  using round53_error [of x] unfolding abs_le_iff by simp

lemma round53_mono: "x \<le> y \<Longrightarrow> round53 x \<le> round53 y"
proof -
  assume xy: "x \<le> y"
  consider "0 < x" | "x \<le> 0" "0 \<le> y" | "y < 0" using xy by linarith
  then show ?thesis
  proof cases
    case 1
    with xy show ?thesis by (rule round53_mono_pos [rotated])
  next
    case 2
    with round53_sign [of "- x"] round53_sign [of y] show ?thesis by (simp add: round53_minus)
  next
    case 3
    with xy round53_mono_pos [of "- y" "- x"] show ?thesis by (simp add: round53_minus)
  qed
qed

interpretation ieee: rounding round53
  by unfold_locales (rule round53_mono round53_int round53_minus round53_error; assumption?)+

end
