(* ===== verification/Rng.thy ===== *)
theory Rng
  imports Double
begin
text \<open>
  The random number generator (\<open>tools/rng.cc\<close>): the combined multiple recursive generator with its streams and substreams,
  in the floating point arithmetic that the code uses. The integers of the recurrences are held in \<open>double\<close> variables; the operations
  below round as those do, and it is proved that nothing is lost.
\<close>

unbundle bit_operations_syntax

section \<open>Floating point operations\<close>

definition dmul :: "real \<Rightarrow> real \<Rightarrow> real" where "dmul x y = round53 (x * y)"
definition dadd :: "real \<Rightarrow> real \<Rightarrow> real" where "dadd x y = round53 (x + y)"
definition dsub :: "real \<Rightarrow> real \<Rightarrow> real" where "dsub x y = round53 (x - y)"
definition ddiv :: "real \<Rightarrow> real \<Rightarrow> real" where "ddiv x y = round53 (x / y)"
definition dbl :: "int \<Rightarrow> real" where "dbl n = round53 (of_int n)"

lemmas dops = dmul_def dadd_def dsub_def ddiv_def dbl_def

section \<open>Constants\<close>

definition m1 :: real where "m1 = 4294967087"
definition m2 :: real where "m2 = 4294944443"
definition norm_m1 :: real where "norm_m1 = ddiv 1 (dadd m1 1)"
definition a12 :: real where "a12 = 1403580"
definition a13n :: real where "a13n = 810728"
definition a21 :: real where "a21 = 527612"
definition a23n :: real where "a23n = 1370589"
definition two17 :: real where "two17 = 131072"
definition two53 :: real where "two53 = 9007199254740992"
definition fact24 :: real where "fact24 = 1 / 16777216"

type_synonym 'a vec3 = "'a \<times> 'a \<times> 'a"
type_synonym 'a mat3 = "'a vec3 \<times> 'a vec3 \<times> 'a vec3"

definition InvA1 :: "real mat3" where
  "InvA1 = ((184888585, 0, 1945170933), (1, 0, 0), (0, 1, 0))"
definition InvA2 :: "real mat3" where
  "InvA2 = ((0, 360363334, 4225571728), (1, 0, 0), (0, 1, 0))"
definition A1p0 :: "real mat3" where
  "A1p0 = ((0, 1, 0), (0, 0, 1), (-810728, 1403580, 0))"
definition A2p0 :: "real mat3" where
  "A2p0 = ((0, 1, 0), (0, 0, 1), (-1370589, 0, 527612))"
definition A1p76 :: "real mat3" where
  "A1p76 = ((82758667, 1871391091, 4127413238), (3672831523, 69195019, 1871391091), (3672091415, 3528743235, 69195019))"
definition A2p76 :: "real mat3" where
  "A2p76 = ((1511326704, 3759209742, 1610795712), (4292754251, 1511326704, 3889917532), (3859662829, 4292754251, 3708466080))"
definition A1p127 :: "real mat3" where
  "A1p127 = ((2427906178, 3580155704, 949770784), (226153695, 1230515664, 3580155704), (1988835001, 986791581, 1230515664))"
definition A2p127 :: "real mat3" where
  "A2p127 = ((1464411153, 277697599, 1610723613), (32183930, 1464411153, 1022607788), (2824425944, 32183930, 2093834863))"

section \<open>Modular arithmetic\<close>

definition mod_rest :: "real \<Rightarrow> real \<Rightarrow> real" where
  "mod_rest v m = (let a1 = trunc (ddiv v m) in dsub v (dmul (dbl a1) m))"

definition final_rest :: "real \<Rightarrow> real \<Rightarrow> real" where
  "final_rest v m = (let r = mod_rest v m in if r < 0 then dadd r m else r)"

definition MultModM :: "real \<Rightarrow> real \<Rightarrow> real \<Rightarrow> real \<Rightarrow> real" where
  "MultModM a s c m =
     (let v = dadd (dmul a s) c;
          v1 = (if v \<ge> two53 \<or> v \<le> - two53 then
                  let a1 = trunc (ddiv a two17);
                      a' = dsub a (dmul (dbl a1) two17);
                      w = mod_rest (dmul (dbl a1) s) m
                  in dadd (dadd (dmul w two17) (dmul a' s)) c
                else v)
      in final_rest v1 m)"

fun row_times :: "real vec3 \<Rightarrow> real vec3 \<Rightarrow> real \<Rightarrow> real" where
  "row_times (a0, a1, a2) (s0, s1, s2) m = MultModM a2 s2 (MultModM a1 s1 (MultModM a0 s0 0 m) m) m"

fun MatVecModM :: "real mat3 \<Rightarrow> real vec3 \<Rightarrow> real \<Rightarrow> real vec3" where
  "MatVecModM (r0, r1, r2) s m = (row_times r0 s m, row_times r1 s m, row_times r2 s m)"

fun transpose3 :: "'a mat3 \<Rightarrow> 'a mat3" where
  "transpose3 ((a, b, c), (d, e, f), (g, h, i)) = ((a, d, g), (b, e, h), (c, f, i))"

text \<open>Column by column: \<open>V\<close> is a column of \<open>B\<close>, and the columns of the result are those of \<open>W\<close>.\<close>

definition MatMatModM :: "real mat3 \<Rightarrow> real mat3 \<Rightarrow> real \<Rightarrow> real mat3" where
  "MatMatModM A B m =
     (case transpose3 B of (c0, c1, c2) \<Rightarrow> transpose3 (MatVecModM A c0 m, MatVecModM A c1 m, MatVecModM A c2 m))"

definition MatTwoPowModM :: "real mat3 \<Rightarrow> real \<Rightarrow> int \<Rightarrow> real mat3" where
  "MatTwoPowModM A m e = ((\<lambda>B. MatMatModM B B m) ^^ nat e) A"

definition identity3 :: "real mat3" where
  "identity3 = ((1, 0, 0), (0, 1, 0), (0, 0, 1))"

function pow_loop :: "real mat3 \<Rightarrow> real mat3 \<Rightarrow> real \<Rightarrow> int \<Rightarrow> real mat3" where
  "pow_loop W B m n =
     (if n > 0 then pow_loop (MatMatModM W W m) (if n smod 2 \<noteq> 0 then MatMatModM W B m else B) m (n sdiv 2) else B)"
  by pat_completeness auto
termination
  by (relation "measure (\<lambda>(W, B, m, n). nat n)") (auto simp: signed_divide_int_def sgn_if nat_less_eq_zless)

declare pow_loop.simps [simp del]

definition MatPowModM :: "real mat3 \<Rightarrow> real \<Rightarrow> int \<Rightarrow> real mat3" where
  "MatPowModM A m n = pow_loop A identity3 m n"


section \<open>The generator\<close>

text \<open>The arrays of six values are pairs of the vectors of the two components. \<open>next_seed_\<close> and the counter of heuristic seeds are
  static members; the time of day that \<open>gettimeofday\<close> returns at its \<open>n\<close>-th call is an argument.\<close>

type_synonym 'a state6 = "'a vec3 \<times> 'a vec3"

record rng =
  Cg :: "real state6"
  Bg :: "real state6"
  Ig :: "real state6"
  anti :: bool
  inc_prec :: bool
  rng_name :: string

record rng_pkg =
  next_seed :: "real state6"
  heuristic_sequence :: int
  tod_reads :: nat

type_synonym tod = "nat \<Rightarrow> int \<times> int"

definition U01 :: "rng \<Rightarrow> real \<times> rng" where
  "U01 r =
     (case Cg r of ((c0, c1, c2), (c3, c4, c5)) \<Rightarrow>
        let p1 = final_rest (dsub (dmul a12 c1) (dmul a13n c0)) m1;
            p2 = final_rest (dsub (dmul a21 c5) (dmul a23n c3)) m2;
            u = (if p1 > p2 then dmul (dsub p1 p2) norm_m1 else dmul (dadd (dsub p1 p2) m1) norm_m1)
        in (if anti r then dsub 1 u else u, r\<lparr>Cg := ((c1, c2, p1), (c4, c5, p2))\<rparr>))"

definition U01d :: "rng \<Rightarrow> real \<times> rng" where
  "U01d r =
     (let (u, r1) = U01 r; (v, r2) = U01 r1
      in if anti r then
           let w = dadd u (dmul (dsub v 1) fact24) in (if w < 0 then dadd w 1 else w, r2)
         else
           let w = dadd u (dmul v fact24) in (if w < 1 then w else dsub w 1, r2))"

definition rand_u01 :: "rng \<Rightarrow> real \<times> rng" where
  "rand_u01 r = (if inc_prec r then U01d r else U01 r)"

text \<open>The width of the range is an \<open>unsigned long\<close>, the sum is taken in one and converted to \<open>long\<close>.\<close>

definition rand_int :: "int \<Rightarrow> int \<Rightarrow> rng \<Rightarrow> int \<times> rng" where
  "rand_int low high r =
     (case rand_u01 r of (u, r1) \<Rightarrow>
        (signed_take_bit 63 (low + trunc (dmul (dbl ((high - low + 1) mod 2 ^ 64)) u)), r1))"

definition MAXINT :: int where "MAXINT = 2147483647"

definition rng_next :: "rng \<Rightarrow> int \<times> rng" where
  "rng_next r = rand_int 0 MAXINT r"

definition next_double :: "rng \<Rightarrow> real \<times> rng" where
  "next_double r = rand_u01 r"

definition uniform_positive_int :: "rng \<Rightarrow> int \<times> rng" where
  "uniform_positive_int r = (case rng_next r of (n, r1) \<Rightarrow> (signed_take_bit 31 n, r1))"

definition uniform_double :: "rng \<Rightarrow> real \<times> rng" where
  "uniform_double r = next_double r"

definition uniform_int :: "int \<Rightarrow> rng \<Rightarrow> (int \<times> rng) res" where
  "uniform_int k r =
     (case uniform_positive_int r of (n, r1) \<Rightarrow>
        if k mod 2 ^ 32 = 0 then Inl DivideByZero
        else Inr (signed_take_bit 31 (n mod 2 ^ 32 mod (k mod 2 ^ 32)), r1))"

definition uniform_upto :: "real \<Rightarrow> rng \<Rightarrow> real \<times> rng" where
  "uniform_upto x r = (case uniform_double r of (u, r1) \<Rightarrow> (dmul x u, r1))"

definition uniform_between :: "real \<Rightarrow> real \<Rightarrow> rng \<Rightarrow> real \<times> rng" where
  "uniform_between a b r = (case uniform_upto (dsub b a) r of (u, r1) \<Rightarrow> (dadd a u, r1))"

section \<open>Seeds, streams and substreams\<close>

definition CheckSeed :: "int state6 \<Rightarrow> int" where
  "CheckSeed seed =
     (case seed of ((s0, s1, s2), (s3, s4, s5)) \<Rightarrow>
        if dbl s0 \<ge> m1 \<or> dbl s1 \<ge> m1 \<or> dbl s2 \<ge> m1 then -1
        else if dbl s3 \<ge> m2 \<or> dbl s4 \<ge> m2 \<or> dbl s5 \<ge> m2 then -1
        else if s0 = 0 \<and> s1 = 0 \<and> s2 = 0 then -1
        else if s3 = 0 \<and> s4 = 0 \<and> s5 = 0 then -1
        else 0)"

fun vmap :: "('a \<Rightarrow> 'b) \<Rightarrow> 'a vec3 \<Rightarrow> 'b vec3" where
  "vmap f (x, y, z) = (f x, f y, f z)"

definition map6 :: "('a \<Rightarrow> 'b) \<Rightarrow> 'a state6 \<Rightarrow> 'b state6" where
  "map6 f s = (vmap f (fst s), vmap f (snd s))"

definition rng_init :: "rng_pkg \<times> rng \<Rightarrow> rng_pkg \<times> rng" where
  "rng_init st =
     (case st of (pkg, r) \<Rightarrow>
        let n = next_seed pkg
        in (pkg\<lparr>next_seed := (MatVecModM A1p127 (fst n) m1, MatVecModM A2p127 (snd n) m2)\<rparr>,
            r\<lparr>anti := False, inc_prec := False, Bg := n, Cg := n, Ig := n\<rparr>))"

definition set_package_seed :: "int state6 \<Rightarrow> rng_pkg \<Rightarrow> rng_pkg res" where
  "set_package_seed seed pkg = (if CheckSeed seed \<noteq> 0 then Inl Abort else Inr (pkg\<lparr>next_seed := map6 dbl seed\<rparr>))"

definition set_seed_vec :: "int state6 \<Rightarrow> rng \<Rightarrow> rng res" where
  "set_seed_vec seed r =
     (if CheckSeed seed \<noteq> 0 then Inl Abort
      else let s = map6 dbl seed in Inr (r\<lparr>Cg := s, Bg := s, Ig := s\<rparr>))"

definition toss :: "nat \<Rightarrow> rng \<Rightarrow> rng" where
  "toss n = (\<lambda>r. snd (rng_next r)) ^^ n"

definition heuristic_seed :: "tod \<Rightarrow> rng_pkg \<Rightarrow> int \<times> rng_pkg" where
  "heuristic_seed tod pkg =
     (case tod (tod_reads pkg) of (tv_sec, tv_usec) \<Rightarrow>
        let h = heuristic_sequence pkg + 1
        in ((tv_sec XOR tv_usec XOR push_bit 8 h) AND 0x7fffffff, pkg\<lparr>heuristic_sequence := h, tod_reads := tod_reads pkg + 1\<rparr>))"

text \<open>A seed 0 is replaced by a heuristic one, and so again when that one is 0.\<close>

partial_function (option) set_seed_long :: "tod \<Rightarrow> int \<Rightarrow> rng_pkg \<times> rng \<Rightarrow> (rng_pkg \<times> rng) res option" where
  "set_seed_long tod seed st =
     (if seed = 0 then
        (case heuristic_seed tod (fst st) of (seed1, pkg) \<Rightarrow>
           Option.bind (set_seed_long tod seed1 (pkg, snd st))
             (\<lambda>res. Some (res_bind res (\<lambda>(p, r). Inr (p, toss 128 r)))))
      else
        let s = seed mod 2 ^ 64
        in Some (res_bind (set_package_seed ((s, s, s), (s, s, s)) (fst st)) (\<lambda>pkg. Inr (rng_init (pkg, snd st)))))"

datatype RNGSources = RAW_SEED_SOURCE | PREDEF_SEED_SOURCE | HEURISTIC_SEED_SOURCE

definition predef_seeds :: "int list" where
  "predef_seeds =
     [1973272912, 188312339, 1072664641, 694388766, 2009044369, 934100682, 1972392646, 1936856304,
      1598189534, 1822174485, 1871883252, 558746720, 605846893, 1384311643, 2081634991, 1644999263,
      773370613, 358485174, 1996632795, 1000004583, 1769370802, 1895218768, 186872697, 1859168769,
      349544396, 1996610406, 222735214, 1334983095, 144443207, 720236707, 762772169, 437720306,
      939612284, 425414105, 1998078925, 981631283, 1024155645, 822780843, 701857417, 960703545,
      2101442385, 2125204119, 2041095833, 89865291, 898723423, 1859531344, 764283187, 1349341884,
      678622600, 778794064, 1319566104, 1277478588, 538474442, 683102175, 999157082, 985046914,
      722594620, 1695858027, 1700738670, 1995749838, 1147024708, 346983590, 565528207, 513791680]"

definition set_seed :: "tod \<Rightarrow> RNGSources \<Rightarrow> int \<Rightarrow> rng_pkg \<times> rng \<Rightarrow> (rng_pkg \<times> rng) res option" where
  "set_seed tod source seed st =
     (case source of
        RAW_SEED_SOURCE \<Rightarrow>
          if seed \<le> 0 \<or> seed \<ge> MAXINT then Some (Inl Abort) else set_seed_long tod seed st
      | PREDEF_SEED_SOURCE \<Rightarrow>
          if seed < 0 \<or> seed \<ge> 64 then Some (Inl Abort) else set_seed_long tod (predef_seeds ! nat seed) st
      | HEURISTIC_SEED_SOURCE \<Rightarrow>
          (case heuristic_seed tod (fst st) of (seed1, pkg) \<Rightarrow>
             Option.bind (set_seed_long tod seed1 (pkg, snd st))
               (\<lambda>res. Some (res_bind res (\<lambda>(p, r). Inr (p, toss 128 r))))))"

definition new_rng_long :: "tod \<Rightarrow> int \<Rightarrow> rng_pkg \<times> rng \<Rightarrow> (rng_pkg \<times> rng) res option" where
  "new_rng_long tod seed st =
     Option.bind (set_seed_long tod seed st) (\<lambda>res. Some (res_bind res (\<lambda>st1. Inr (rng_init st1))))"

definition new_rng_named :: "string \<Rightarrow> rng_pkg \<times> rng \<Rightarrow> rng_pkg \<times> rng" where
  "new_rng_named s st = rng_init (fst st, (snd st)\<lparr>rng_name := take 99 s\<rparr>)"

definition rng_pkg0 :: rng_pkg where
  "rng_pkg0 = \<lparr>next_seed = ((12345, 12345, 12345), (12345, 12345, 12345)), heuristic_sequence = 0, tod_reads = 0\<rparr>"

definition reset_start_stream :: "rng \<Rightarrow> rng" where
  "reset_start_stream r = r\<lparr>Bg := Ig r, Cg := Ig r\<rparr>"

definition reset_start_substream :: "rng \<Rightarrow> rng" where
  "reset_start_substream r = r\<lparr>Cg := Bg r\<rparr>"

definition reset_next_substream :: "rng \<Rightarrow> rng" where
  "reset_next_substream r =
     (let b = (MatVecModM A1p76 (fst (Bg r)) m1, MatVecModM A2p76 (snd (Bg r)) m2) in r\<lparr>Bg := b, Cg := b\<rparr>)"

definition advance_state :: "int \<Rightarrow> int \<Rightarrow> rng \<Rightarrow> rng" where
  "advance_state e c r =
     (let B1 = MatTwoPowModM (if e > 0 then A1p0 else InvA1) m1 \<bar>e\<bar>;
          B2 = MatTwoPowModM (if e > 0 then A2p0 else InvA2) m2 \<bar>e\<bar>;
          C1 = MatPowModM (if c \<ge> 0 then A1p0 else InvA1) m1 \<bar>c\<bar>;
          C2 = MatPowModM (if c \<ge> 0 then A2p0 else InvA2) m2 \<bar>c\<bar>;
          D1 = (if e \<noteq> 0 then MatMatModM B1 C1 m1 else C1);
          D2 = (if e \<noteq> 0 then MatMatModM B2 C2 m2 else C2)
      in r\<lparr>Cg := (MatVecModM D1 (fst (Cg r)) m1, MatVecModM D2 (snd (Cg r)) m2)\<rparr>)"

definition get_state :: "rng \<Rightarrow> int state6" where
  "get_state r = map6 trunc (Cg r)"

definition rng_seed :: "rng \<Rightarrow> int" where
  "rng_seed r = fst (fst (get_state r))"

definition increased_precis :: "bool \<Rightarrow> rng \<Rightarrow> rng" where
  "increased_precis incp r = r\<lparr>inc_prec := incp\<rparr>"

definition set_antithetic :: "bool \<Rightarrow> rng \<Rightarrow> rng" where
  "set_antithetic a r = r\<lparr>anti := a\<rparr>"

section \<open>The operations are exact\<close>

lemma dops_int:
  "\<bar>x * y\<bar> \<le> 2 ^ 53 \<Longrightarrow> dmul (of_int x) (of_int y) = of_int (x * y)"
  "\<bar>x + y\<bar> \<le> 2 ^ 53 \<Longrightarrow> dadd (of_int x) (of_int y) = of_int (x + y)"
  "\<bar>x - y\<bar> \<le> 2 ^ 53 \<Longrightarrow> dsub (of_int x) (of_int y) = of_int (x - y)"
  "\<bar>x\<bar> \<le> 2 ^ 53 \<Longrightarrow> dbl x = of_int x"
  unfolding dops of_int_mult [symmetric] of_int_add [symmetric] of_int_diff [symmetric] by (rule round53_int; assumption)+

lemma smod_bounds:
  fixes v m :: int
  assumes m: "0 < m"
  shows "\<bar>v smod m\<bar> < m" "\<bar>v smod m\<bar> \<le> \<bar>v\<bar>" "\<bar>v sdiv m * m\<bar> \<le> \<bar>v\<bar>" "\<bar>v sdiv m\<bar> \<le> \<bar>v\<bar>"
proof -
  have a: "\<bar>v\<bar> mod m \<le> \<bar>v\<bar>" "0 \<le> \<bar>v\<bar> mod m" "\<bar>v\<bar> mod m < m" using m by (simp_all add: zmod_le_nonneg_dividend)
  then have "\<bar>v\<bar> div m * m \<le> \<bar>v\<bar>" using div_mult_mod_eq [of "\<bar>v\<bar>" m] by linarith
  moreover have "\<bar>v\<bar> div m \<le> \<bar>v\<bar> div 1" by (rule zdiv_mono2) (use m in simp_all)
  moreover have "0 \<le> \<bar>v\<bar> div m" using m by (simp add: pos_imp_zdiv_nonneg_iff)
  ultimately show "\<bar>v smod m\<bar> < m" "\<bar>v smod m\<bar> \<le> \<bar>v\<bar>" "\<bar>v sdiv m * m\<bar> \<le> \<bar>v\<bar>" "\<bar>v sdiv m\<bar> \<le> \<bar>v\<bar>"
    using a m by (auto simp: signed_modulo_int_def signed_divide_int_def abs_mult sgn_if)
qed

lemma smod_to_mod:
  fixes v m :: int
  assumes "0 < m"
  shows "(if v smod m < 0 then v smod m + m else v smod m) = v mod m"
  using pos_mod_bound [OF assms, of v] pos_mod_sign [OF assms, of v] unfolding signed_modulo_int_eq_modulo_int
  by (cases "sgn v \<noteq> sgn m \<and> \<not> m dvd v") auto

lemma mod_rest_int:
  assumes "\<bar>v\<bar> < 2 ^ 53" "0 < m"
  shows "mod_rest (of_int v) (of_int m) = of_int (v smod m)"
proof -
  have q: "trunc (ddiv (of_int v) (of_int m)) = v sdiv m" unfolding ddiv_def by (rule ieee.quotient_trunc [OF assms])
  note b = smod_bounds [OF assms(2), of v]
  have d: "dbl (v sdiv m) = of_int (v sdiv m)" by (rule dops_int) (use b(4) assms(1) in linarith)
  have p: "dmul (of_int (v sdiv m)) (of_int m) = of_int (v sdiv m * m)" by (rule dops_int) (use b(3) assms(1) in linarith)
  have "dsub (of_int v) (of_int (v sdiv m * m)) = of_int (v - v sdiv m * m)"
    by (rule dops_int) (use b(2) assms(1) in \<open>simp only: minus_sdiv_mult_eq_smod; linarith\<close>)
  then show ?thesis unfolding mod_rest_def Let_def q d p minus_sdiv_mult_eq_smod .
qed

text \<open>The pairs of factors that occur: a small coefficient of either sign and any residue, or two residues.\<close>

definition factors :: "int \<Rightarrow> int \<Rightarrow> int \<Rightarrow> bool" where
  "factors m a s \<longleftrightarrow> \<bar>a\<bar> \<le> 1403580 \<and> \<bar>s\<bar> < m \<or> a \<in> {0 ..< m} \<and> s \<in> {0 ..< m}"

lemma final_rest_int:
  assumes "\<bar>v\<bar> < 2 ^ 53" "0 < m" "m < 2 ^ 32"
  shows "final_rest (of_int v) (of_int m) = of_int (v mod m)"
proof -
  have "dadd (of_int (v smod m)) (of_int m) = of_int (v smod m + m)"
    using smod_bounds(1) [OF assms(2), of v] assms(3) by (intro dops_int) simp
  with smod_to_mod [OF assms(2), of v] show ?thesis
    unfolding final_rest_def Let_def mod_rest_int [OF assms(1,2)] by (cases "v smod m < 0") simp_all
qed

lemma MultModM_unsplit:
  assumes "- two53 < dadd (dmul a s) c" "dadd (dmul a s) c < two53"
  shows "MultModM a s c m = final_rest (dadd (dmul a s) c) m"
  using assms by (simp add: MultModM_def Let_def)

lemma MultModM_split:
  assumes "two53 \<le> dadd (dmul a s) c" "trunc (ddiv a two17) = hi" "dsub a (dmul (dbl hi) two17) = lo"
    "mod_rest (dmul (dbl hi) s) m = w" "dadd (dadd (dmul w two17) (dmul lo s)) c = v"
  shows "MultModM a s c m = final_rest v m"
  using assms by (simp add: MultModM_def Let_def)

lemma residue_bounds:
  fixes a s c m :: int
  assumes "0 < m" "m < 2 ^ 32" "a \<in> {0 ..< m}" "s \<in> {0 ..< m}"
  shows "a div 2 ^ 17 * s < 2 ^ 47" "0 \<le> a div 2 ^ 17 * s" "a mod 2 ^ 17 * s < 2 ^ 49" "0 \<le> a mod 2 ^ 17 * s"
    "0 \<le> a div 2 ^ 17" "a div 2 ^ 17 < 2 ^ 15"
proof -
  have s: "0 \<le> s" "s \<le> 2 ^ 32 - 1" and a0: "0 \<le> a mod 2 ^ 17" "a mod 2 ^ 17 \<le> 2 ^ 17 - 1" using assms by simp_all
  have "a div 2 ^ 17 \<le> (2 ^ 32 - 1) div 2 ^ 17" by (rule zdiv_mono1) (use assms in simp_all)
  then have a1: "0 \<le> a div 2 ^ 17" "a div 2 ^ 17 \<le> 2 ^ 15 - 1" using assms(3) by (simp_all add: pos_imp_zdiv_nonneg_iff)
  show "a div 2 ^ 17 * s < 2 ^ 47" using mult_mono [OF a1(2) s(2)] s(1) by simp
  show "a mod 2 ^ 17 * s < 2 ^ 49" using mult_mono [OF a0(2) s(2)] s(1) by simp
  show "0 \<le> a div 2 ^ 17 * s" "0 \<le> a mod 2 ^ 17 * s" "0 \<le> a div 2 ^ 17" "a div 2 ^ 17 < 2 ^ 15" using a1 a0 s by simp_all
qed

text \<open>In the second form the product is taken in two parts when it does not fit 53 bits.\<close>

lemma MultModM_residues:
  assumes m: "0 < m" "m < 2 ^ 32" and a: "a \<in> {0 ..< m}" "s \<in> {0 ..< m}" "c \<in> {0 ..< m}"
  shows "MultModM (of_int a) (of_int s) (of_int c) (of_int m) = of_int ((a * s + c) mod m)"
proof (cases "a * s + c < 2 ^ 53")
  case True
  have p: "0 \<le> a * s" using a by simp
  have e: "dmul (of_int a) (of_int s) = of_int (a * s)" "dadd (of_int (a * s)) (of_int c) = of_int (a * s + c)"
    by (rule dops_int, use True p a in simp)+
  have "(of_int (a * s + c) :: real) < of_int (2 ^ 53)" "(0 :: real) \<le> of_int (a * s + c)"
    using True p a unfolding of_int_less_iff by simp_all
  then have "MultModM (of_int a) (of_int s) (of_int c) (of_int m) = final_rest (of_int (a * s + c)) (of_int m)"
    unfolding e [symmetric] by (intro MultModM_unsplit) (simp_all add: e two53_def)
  also have "\<dots> = of_int ((a * s + c) mod m)" using True p a m by (intro final_rest_int) simp_all
  finally show ?thesis .
next
  case False
  note b = residue_bounds [OF m a(1,2)]
  let ?a1 = "a div 2 ^ 17" and ?a0 = "a mod 2 ^ 17" let ?w = "?a1 * s mod m"
  have t: "two17 = of_int (2 ^ 17)" by (simp add: two17_def)
  have big: "two53 \<le> dadd (dmul (of_int a) (of_int s)) (of_int c)"
  proof -
    have z: "round53 two53 = two53" using round53_int [of "2 ^ 53"] by (simp add: two53_def)
    have "two53 \<le> dmul (of_int a) (of_int s) + of_int c"
    proof (cases "a * s \<le> 2 ^ 53")
      case True
      then have "dmul (of_int a) (of_int s) = of_int (a * s)" using a by (intro dops_int) simp
      moreover have "(of_int (2 ^ 53) :: real) \<le> of_int (a * s + c)" using False unfolding of_int_le_iff by simp
      ultimately show ?thesis by (simp add: two53_def)
    next
      case False
      then have "(of_int (2 ^ 53) :: real) \<le> of_int (a * s)" unfolding of_int_le_iff by simp
      then have "two53 \<le> of_int a * of_int s" by (simp add: two53_def)
      from round53_mono [OF this] z have "two53 \<le> dmul (of_int a) (of_int s)" by (simp add: dmul_def)
      then show ?thesis using a by simp
    qed
    from round53_mono [OF this] z show ?thesis by (simp add: dadd_def)
  qed
  have a1: "trunc (ddiv (of_int a) two17) = ?a1"
    unfolding t ddiv_def using a(1) m ieee.quotient_floor [of a "2 ^ 17"] by simp
  have d1: "dbl ?a1 = of_int ?a1" using b(5,6) by (intro dops_int) simp
  have d2: "dmul (of_int ?a1) two17 = of_int (?a1 * 2 ^ 17)" unfolding t using b(5,6) by (intro dops_int) simp
  have d3: "dsub (of_int a) (of_int (?a1 * 2 ^ 17)) = of_int ?a0"
    using a(1) dops_int(3) [of a "?a1 * 2 ^ 17"] unfolding minus_div_mult_eq_mod by simp
  have d4: "dmul (of_int ?a1) (of_int s) = of_int (?a1 * s)" using b by (intro dops_int) simp
  have w: "mod_rest (of_int (?a1 * s)) (of_int m) = of_int ?w"
    using b m mod_rest_int [of "?a1 * s" m] by (simp add: signed_modulo_int_def sgn_if)
  have wb: "0 \<le> ?w" "?w < 2 ^ 32" using m(2) pos_mod_bound [OF m(1), of "?a1 * s"] pos_mod_sign [OF m(1), of "?a1 * s"] by simp_all
  let ?v = "?w * 2 ^ 17 + ?a0 * s + c"
  have d5: "dmul (of_int ?w) two17 = of_int (?w * 2 ^ 17)" unfolding t using wb by (intro dops_int) simp
  have d6: "dmul (of_int ?a0) (of_int s) = of_int (?a0 * s)" using b by (intro dops_int) simp
  have vb: "0 \<le> ?w * 2 ^ 17" "?w * 2 ^ 17 < 2 ^ 49" using wb by simp_all
  have d7: "dadd (dadd (of_int (?w * 2 ^ 17)) (of_int (?a0 * s))) (of_int c) = of_int ?v"
    using vb b(3,4) a(3) m dops_int(2) [of "?w * 2 ^ 17" "?a0 * s"] dops_int(2) [of "?w * 2 ^ 17 + ?a0 * s" c] by simp
  have "MultModM (of_int a) (of_int s) (of_int c) (of_int m) = final_rest (of_int ?v) (of_int m)"
    by (rule MultModM_split [OF big a1, where lo = "of_int ?a0" and w = "of_int ?w"]) (simp only: d1 d2 d3, simp only: d1 d4 w, simp only: d5 d6 d7)
  also have "\<dots> = of_int (?v mod m)" using vb b a(3) m by (intro final_rest_int) simp_all
  also have "?v mod m = (?a1 * s * 2 ^ 17 + ?a0 * s + c) mod m" by (rule mod_add_cong [OF mod_add_cong [OF mod_mult_cong [OF mod_mod_trivial refl] refl] refl])
  also have "?a1 * s * 2 ^ 17 + ?a0 * s = (?a1 * 2 ^ 17 + ?a0) * s" by (simp only: distrib_right mult.assoc mult.commute [of "2 ^ 17" s])
  also have "\<dots> = a * s" by (simp only: div_mult_mod_eq)
  finally show ?thesis .
qed

lemma MultModM_small:
  assumes m: "0 < m" "m < 2 ^ 32" and a: "\<bar>a\<bar> \<le> 1403580" "\<bar>s\<bar> < m" "c \<in> {0 ..< m}"
  shows "MultModM (of_int a) (of_int s) (of_int c) (of_int m) = of_int ((a * s + c) mod m)"
proof -
  have "\<bar>a\<bar> * \<bar>s\<bar> \<le> 1403580 * 2 ^ 32" using a m by (intro mult_mono) simp_all
  then have p: "\<bar>a * s\<bar> \<le> 1403580 * 2 ^ 32" by (simp add: abs_mult)
  have v: "\<bar>a * s + c\<bar> < 2 ^ 53" using p a(3) m by (simp add: abs_le_iff abs_less_iff)
  have e: "dmul (of_int a) (of_int s) = of_int (a * s)" "dadd (of_int (a * s)) (of_int c) = of_int (a * s + c)"
    by (rule dops_int, use p v in simp)+
  have "(of_int (a * s + c) :: real) < of_int (2 ^ 53)" "(of_int (- (2 ^ 53)) :: real) < of_int (a * s + c)"
    using v unfolding of_int_less_iff by (simp_all add: abs_less_iff)
  then have "MultModM (of_int a) (of_int s) (of_int c) (of_int m) = final_rest (of_int (a * s + c)) (of_int m)"
    unfolding e [symmetric] by (intro MultModM_unsplit) (simp_all add: e two53_def)
  then show ?thesis using final_rest_int [OF v m] by simp
qed

lemma MultModM_int:
  "factors m a s \<Longrightarrow> 0 < m \<Longrightarrow> m < 2 ^ 32 \<Longrightarrow> c \<in> {0 ..< m} \<Longrightarrow>
   MultModM (of_int a) (of_int s) (of_int c) (of_int m) = of_int ((a * s + c) mod m)"
  unfolding factors_def using MultModM_small MultModM_residues by blast

section \<open>Matrices of integers\<close>

fun dot :: "int vec3 \<Rightarrow> int vec3 \<Rightarrow> int" where
  "dot (a, b, c) (x, y, z) = a * x + b * y + c * z"

fun mv :: "int mat3 \<Rightarrow> int vec3 \<Rightarrow> int vec3" where
  "mv (r0, r1, r2) s = (dot r0 s, dot r1 s, dot r2 s)"

definition mm :: "int mat3 \<Rightarrow> int mat3 \<Rightarrow> int mat3" where
  "mm A B = (case transpose3 B of (c0, c1, c2) \<Rightarrow> transpose3 (mv A c0, mv A c1, mv A c2))"

fun mmap :: "('a \<Rightarrow> 'b) \<Rightarrow> 'a mat3 \<Rightarrow> 'b mat3" where
  "mmap f (r0, r1, r2) = (vmap f r0, vmap f r1, vmap f r2)"

fun vall :: "('a \<Rightarrow> bool) \<Rightarrow> 'a vec3 \<Rightarrow> bool" where
  "vall P (x, y, z) \<longleftrightarrow> P x \<and> P y \<and> P z"

fun mall :: "('a \<Rightarrow> bool) \<Rightarrow> 'a mat3 \<Rightarrow> bool" where
  "mall P (r0, r1, r2) \<longleftrightarrow> vall P r0 \<and> vall P r1 \<and> vall P r2"

abbreviation "dvec \<equiv> vmap (of_int :: int \<Rightarrow> real)"
abbreviation "dmat \<equiv> mmap (of_int :: int \<Rightarrow> real)"
abbreviation "vmod m \<equiv> vmap (\<lambda>x. x mod m :: int)"
abbreviation "mmod m \<equiv> mmap (\<lambda>x. x mod m :: int)"

definition residues :: "int \<Rightarrow> int vec3 \<Rightarrow> bool" where
  "residues m s \<longleftrightarrow> vall (\<lambda>x. 0 \<le> x \<and> x < m) s"

definition mresidues :: "int \<Rightarrow> int mat3 \<Rightarrow> bool" where
  "mresidues m A \<longleftrightarrow> mall (\<lambda>x. 0 \<le> x \<and> x < m) A"

definition small :: "int mat3 \<Rightarrow> bool" where
  "small A \<longleftrightarrow> mall (\<lambda>x. \<bar>x\<bar> \<le> 1403580) A"

text \<open>The two moduli.\<close>

definition modulus :: "int \<Rightarrow> bool" where
  "modulus m \<longleftrightarrow> m = 4294967087 \<or> m = 4294944443"

lemma modulusD: "modulus m \<Longrightarrow> 0 < m" "modulus m \<Longrightarrow> m < 2 ^ 32" "modulus m \<Longrightarrow> 1403580 < m"
  by (auto simp: modulus_def)

lemma row_times_int:
  assumes m: "modulus m" and f: "factors m a x" "factors m b y" "factors m c z"
  shows "row_times (of_int a, of_int b, of_int c) (of_int x, of_int y, of_int z) (of_int m) = of_int ((a * x + b * y + c * z) mod m)"
proof -
  note m' = modulusD(1,2) [OF m]
  have r: "n mod m \<in> {0 ..< m}" for n using m' by simp
  have 1: "MultModM (of_int a) (of_int x) 0 (of_int m) = of_int (a * x mod m)" using MultModM_int [OF f(1) m', of 0] m' by simp
  have "row_times (of_int a, of_int b, of_int c) (of_int x, of_int y, of_int z) (of_int m)
    = of_int ((c * z + (b * y + a * x mod m) mod m) mod m)"
    by (simp only: row_times.simps 1 MultModM_int [OF f(2) m' r] MultModM_int [OF f(3) m' r])
  also have "(c * z + (b * y + a * x mod m) mod m) mod m = (a * x + b * y + c * z) mod m"
    by (simp add: mod_simps add.commute add.left_commute)
  finally show ?thesis .
qed

lemma MatVecModM_int:
  assumes "modulus m" "small A \<and> vall (\<lambda>x. \<bar>x\<bar> < m) s \<or> mresidues m A \<and> residues m s"
  shows "MatVecModM (dmat A) (dvec s) (of_int m) = dvec (vmod m (mv A s))"
proof -
  obtain a b c d e f g h i where A: "A = ((a, b, c), (d, e, f), (g, h, i))" by (cases A) auto
  obtain x y z where s: "s = (x, y, z)" by (cases s)
  have "factors m a x \<and> factors m b y \<and> factors m c z" "factors m d x \<and> factors m e y \<and> factors m f z"
    "factors m g x \<and> factors m h y \<and> factors m i z"
    using assms(2) unfolding A s factors_def small_def mresidues_def residues_def by (elim disjE; simp)+
  then show ?thesis using row_times_int [OF assms(1)] by (simp add: A s)
qed

lemma MatMatModM_int:
  assumes "modulus m" "small A \<and> mall (\<lambda>x. \<bar>x\<bar> < m) B \<or> mresidues m A \<and> mresidues m B"
  shows "MatMatModM (dmat A) (dmat B) (of_int m) = dmat (mmod m (mm A B))"
proof -
  obtain a b c d e f g h i where B: "B = ((a, b, c), (d, e, f), (g, h, i))" by (cases B) auto
  have v: "MatVecModM (dmat A) (dvec s) (of_int m) = dvec (vmod m (mv A s))" if "s = (a, d, g) \<or> s = (b, e, h) \<or> s = (c, f, i)" for s
    by (rule MatVecModM_int [OF assms(1)]) (use that assms(2) in \<open>elim disjE; simp add: B mresidues_def residues_def\<close>)
  have t: "transpose3 (dvec r0, dvec r1, dvec r2) = dmat (transpose3 (r0, r1, r2))" "mmod m (transpose3 (r0, r1, r2)) = transpose3 (vmod m r0, vmod m r1, vmod m r2)"
    for r0 r1 r2 by (cases r0; cases r1; cases r2; simp)+
  show ?thesis using v [of "(a, d, g)"] v [of "(b, e, h)"] v [of "(c, f, i)"] by (simp add: MatMatModM_def mm_def B t)
qed

end
