(* ===== verification/RngStreams.thy ===== *)
theory RngStreams
  imports Rng
begin

text \<open>
  Streams and substreams of the generator: its two components as linear steps that can be undone, the jump ahead by powers of
  the transition matrices, the tabulated powers, and what all of this means for the numbers that are drawn.
\<close>

section \<open>Powers of the transition matrices\<close>

lemma mm_assoc: "mm A (mm B C) = mm (mm A B) C"
proof -
  obtain a b c d e f g h i where A: "A = ((a, b, c), (d, e, f), (g, h, i))" by (cases A) auto
  obtain a' b' c' d' e' f' g' h' i' where B: "B = ((a', b', c'), (d', e', f'), (g', h', i'))" by (cases B) auto
  obtain a'' b'' c'' d'' e'' f'' g'' h'' i'' where C: "C = ((a'', b'', c''), (d'', e'', f''), (g'', h'', i''))" by (cases C) auto
  show ?thesis by (simp add: A B C mm_def algebra_simps)
qed

lemma mv_mm: "mv (mm A B) s = mv A (mv B s)"
proof -
  obtain a b c d e f g h i where A: "A = ((a, b, c), (d, e, f), (g, h, i))" by (cases A) auto
  obtain a' b' c' d' e' f' g' h' i' where B: "B = ((a', b', c'), (d', e', f'), (g', h', i'))" by (cases B) auto
  obtain x y z where s: "s = (x, y, z)" by (cases s)
  show ?thesis by (simp add: A B s mm_def algebra_simps)
qed

definition one3 :: "int mat3" where
  "one3 = ((1, 0, 0), (0, 1, 0), (0, 0, 1))"

lemma one3_simps [simp]: "mm one3 A = A" "mm A one3 = A" "mv one3 s = s"
  by (cases A; cases s; auto simp: one3_def mm_def)+

definition mpow :: "int mat3 \<Rightarrow> nat \<Rightarrow> int mat3" where
  "mpow A n = (mm A ^^ n) one3"

lemma mpow_simps [simp]: "mpow A 0 = one3" "mpow A (Suc n) = mm A (mpow A n)"
  by (simp_all add: mpow_def)

lemma mpow_add: "mpow A (a + b) = mm (mpow A a) (mpow A b)"
  by (induction a) (simp_all add: mm_assoc)

lemma mpow_mult: "mpow (mpow A a) b = mpow A (a * b)"
  by (induction b) (simp_all add: mpow_add)

text \<open>Reducing factors first does not change a product modulo \<open>m\<close>.\<close>

lemma mmod_idem [simp]: "mmod m (mmod m A) = mmod m A" "vmod m (vmod m s) = vmod m s"
  by (cases A; cases s; auto)+

lemma dot_mod: "dot (vmod m r) (vmod m s) mod m = dot r s mod m"
proof -
  obtain a b c x y z where "r = (a, b, c)" "s = (x, y, z)" by (cases r; cases s) auto
  then show ?thesis by (simp only: vmap.simps dot.simps) (intro mod_add_cong mod_mult_cong mod_mod_trivial)
qed

lemma vmod_mv: "vmod m (mv (mmod m A) (vmod m s)) = vmod m (mv A s)"
proof -
  obtain r0 r1 r2 where "A = (r0, r1, r2)" by (cases A)
  then show ?thesis by (simp only: mmap.simps mv.simps vmap.simps dot_mod)
qed

lemma mmod_mm: "mmod m (mm (mmod m A) (mmod m B)) = mmod m (mm A B)"
proof -
  have t: "mmod m (transpose3 (r0, r1, r2)) = transpose3 (vmod m r0, vmod m r1, vmod m r2)" for r0 r1 r2 :: "int vec3"
    by (cases r0; cases r1; cases r2) simp
  obtain c0 c1 c2 where B: "transpose3 B = (c0, c1, c2)" by (cases "transpose3 B")
  have "transpose3 (mmod m B) = (vmod m c0, vmod m c1, vmod m c2)" using B by (cases B) auto
  then show ?thesis by (simp add: mm_def B t vmod_mv)
qed

lemma mmod_mm_cong: "mmod m A = mmod m A' \<Longrightarrow> mmod m B = mmod m B' \<Longrightarrow> mmod m (mm A B) = mmod m (mm A' B')"
  using mmod_mm [of m A B] mmod_mm [of m A' B'] by simp

lemma vmod_mv_cong: "mmod m A = mmod m A' \<Longrightarrow> vmod m s = vmod m s' \<Longrightarrow> vmod m (mv A s) = vmod m (mv A' s')"
  using vmod_mv [of m A s] vmod_mv [of m A' s'] by simp

lemma mpow_cong:
  assumes "mmod m A = mmod m B"
  shows "mmod m (mpow A n) = mmod m (mpow B n)"
  by (induction n) (simp, simp only: mpow_simps mmod_mm_cong [OF assms])

lemma mresidues_mmod [simp]: "0 < m \<Longrightarrow> mresidues m (mmod m A)" "0 < m \<Longrightarrow> residues m (vmod m s)"
  by (cases A; cases s; auto simp: mresidues_def residues_def)+

lemma mmod_residues: "mresidues m A \<Longrightarrow> mmod m A = A" "residues m s \<Longrightarrow> vmod m s = s"
  by (cases A; cases s; auto simp: mresidues_def residues_def)+

lemma residues_abs: "mresidues m A \<Longrightarrow> mall (\<lambda>x. \<bar>x\<bar> < m) A"
  by (cases A) (auto simp: mresidues_def)

lemma small_abs: "small A \<Longrightarrow> modulus m \<Longrightarrow> mall (\<lambda>x. \<bar>x\<bar> < m) A"
  by (cases A) (auto simp: small_def modulus_def)

lemma MatTwoPowModM_int:
  assumes m: "modulus m" and A: "small A \<or> mresidues m A" and e: "0 < e"
  shows "MatTwoPowModM (dmat A) (of_int m) e = dmat (mmod m (mpow A (2 ^ nat e)))"
proof -
  have "((\<lambda>B. MatMatModM B B (of_int m)) ^^ Suc k) (dmat A) = dmat (mmod m (mpow A (2 ^ Suc k)))" for k
  proof (induction k)
    case 0
    have "mpow A (2 ^ Suc 0) = mm A A" by (simp add: numeral_2_eq_2)
    moreover have "MatMatModM (dmat A) (dmat A) (of_int m) = dmat (mmod m (mm A A))"
      using MatMatModM_int [OF m] A small_abs [OF _ m] by blast
    ultimately show ?case by simp
  next
    case (Suc k)
    let ?B = "mmod m (mpow A (2 ^ Suc k))"
    have "MatMatModM (dmat ?B) (dmat ?B) (of_int m) = dmat (mmod m (mm ?B ?B))"
      by (rule MatMatModM_int [OF m]) (simp add: modulusD [OF m])
    moreover have "mpow A (2 ^ Suc (Suc k)) = mm (mpow A (2 ^ Suc k)) (mpow A (2 ^ Suc k))"
      unfolding mpow_add [symmetric] by (simp add: mult_2)
    ultimately show ?case using Suc.IH by (simp add: mmod_mm del: power_Suc mpow_simps)
  qed
  from this [of "nat e - 1"] e show ?thesis by (simp add: MatTwoPowModM_def)
qed

lemma pow_loop_int:
  assumes m: "modulus m" and W: "small W \<or> mresidues m W" and B: "mresidues m B"
  shows "pow_loop (dmat W) (dmat B) (of_int m) n = dmat (mmod m (mm (mpow W (nat n)) B))"
  using W B
proof (induction "nat n" arbitrary: W B n rule: less_induct)
  case less
  show ?case
  proof (cases "n > 0")
    case False
    then show ?thesis using mmod_residues(1) [OF less.prems(2)] by (subst pow_loop.simps) simp
  next
    case True
    then obtain k where n: "n = int k" "0 < k" by (metis zero_less_imp_eq_int)
    have WW: "MatMatModM (dmat W) (dmat W) (of_int m) = dmat (mmod m (mm W W))"
      using MatMatModM_int [OF m] less.prems(1) small_abs [OF _ m] by blast
    have WB: "MatMatModM (dmat W) (dmat B) (of_int m) = dmat (mmod m (mm W B))"
      using MatMatModM_int [OF m] less.prems residues_abs by blast
    let ?W = "mmod m (mm W W)" and ?B = "if odd k then mmod m (mm W B) else B"
    have h: "n sdiv 2 = int (k div 2)" "n smod 2 \<noteq> 0 \<longleftrightarrow> odd k"
      using n by (simp_all add: signed_divide_int_def signed_modulo_int_def sgn_if zdiv_int) presburger
    have m0: "0 < m" by (rule modulusD [OF m])
    have "pow_loop (dmat W) (dmat B) (of_int m) n = pow_loop (dmat ?W) (dmat ?B) (of_int m) (int (k div 2))"
      using True by (subst pow_loop.simps) (simp add: WW WB h)
    also have "\<dots> = dmat (mmod m (mm (mpow ?W (k div 2)) ?B))"
      using less.hyps [of "int (k div 2)" ?W ?B] n less.prems(2) m0 by simp
    also have "mmod m (mm (mpow ?W (k div 2)) ?B) = mmod m (mm (mpow W k) B)"
    proof -
      have "mmod m (mpow ?W (k div 2)) = mmod m (mpow W (2 * (k div 2)))"
      proof -
        have "mm W W = mpow W 2" by (simp add: numeral_2_eq_2)
        then have "mmod m (mpow ?W (k div 2)) = mmod m (mpow (mpow W 2) (k div 2))" by (intro mpow_cong) simp
        then show ?thesis by (simp add: mpow_mult)
      qed
      moreover have "mmod m ?B = mmod m (mm (mpow W (k mod 2)) B)" by (cases "odd k") (simp_all add: odd_iff_mod_2_eq_one)
      ultimately have "mmod m (mm (mpow ?W (k div 2)) ?B) = mmod m (mm (mpow W (2 * (k div 2))) (mm (mpow W (k mod 2)) B))"
        by (rule mmod_mm_cong)
      then show ?thesis unfolding mm_assoc mpow_add [symmetric] by simp
    qed
    finally show ?thesis by (simp add: n)
  qed
qed

lemma MatPowModM_int:
  assumes "modulus m" "small A \<or> mresidues m A"
  shows "MatPowModM (dmat A) (of_int m) n = dmat (mmod m (mpow A (nat n)))"
proof -
  have "identity3 = dmat one3" by (simp add: identity3_def one3_def)
  moreover have "mresidues m one3" using assms(1) by (auto simp: one3_def mresidues_def modulus_def)
  ultimately show ?thesis using pow_loop_int [OF assms, of one3 n] by (simp add: MatPowModM_def)
qed

section \<open>Steps forward and backward\<close>

text \<open>A step that can be undone, on the states that are kept; \<open>jump\<close> makes \<open>n\<close> steps, backward when \<open>n\<close> is negative.\<close>

definition jump :: "('a \<Rightarrow> 'a) \<Rightarrow> ('a \<Rightarrow> 'a) \<Rightarrow> int \<Rightarrow> 'a \<Rightarrow> 'a" where
  "jump forward backward n s = (if n \<ge> 0 then (forward ^^ nat n) s else (backward ^^ nat (- n)) s)"

locale reversible =
  fixes forward backward :: "'a \<Rightarrow> 'a" and kept :: "'a \<Rightarrow> bool"
  assumes kept_forward: "kept s \<Longrightarrow> kept (forward s)"
    and kept_backward: "kept s \<Longrightarrow> kept (backward s)"
    and backward_forward: "kept s \<Longrightarrow> backward (forward s) = s"
    and forward_backward: "kept s \<Longrightarrow> forward (backward s) = s"
begin

lemma kept_funpow: "kept s \<Longrightarrow> kept ((forward ^^ n) s)" "kept s \<Longrightarrow> kept ((backward ^^ n) s)"
  by (induction n) (simp_all add: kept_forward kept_backward)

lemma kept_jump: "kept s \<Longrightarrow> kept (jump forward backward n s)"
  by (simp add: jump_def kept_funpow)

lemma jump_next: "kept s \<Longrightarrow> jump forward backward (n + 1) s = forward (jump forward backward n s)"
proof (cases "n \<ge> 0")
  case True
  then have "nat (n + 1) = Suc (nat n)" by simp
  with True show ?thesis by (simp add: jump_def)
next
  case False
  then have "nat (- n) = Suc (nat (- (n + 1)))" by simp
  moreover assume "kept s"
  ultimately show ?thesis using False forward_backward [OF kept_funpow(2)] by (simp add: jump_def)
qed

lemma jump_prev: "kept s \<Longrightarrow> jump forward backward (n - 1) s = backward (jump forward backward n s)"
  using jump_next [of s "n - 1"] backward_forward [OF kept_jump, of s "n - 1"] by simp

lemma jump_add: "kept s \<Longrightarrow> jump forward backward a (jump forward backward b s) = jump forward backward (a + b) s"
proof (induction a rule: int_induct [of _ 0])
  case base
  then show ?case by (simp add: jump_def)
next
  case (step1 i)
  then show ?case using jump_next [OF kept_jump, of s i b] jump_next [of s "i + b"] by (simp add: add.assoc add.commute [of 1 b])
next
  case (step2 i)
  have e: "i + b - 1 = i - 1 + b" by simp
  from step2 show ?case using jump_prev [OF kept_jump, of s i b] jump_prev [of s "i + b"] unfolding e by simp
qed

lemma jump_back: "kept s \<Longrightarrow> jump forward backward (- n) (jump forward backward n s) = s"
  by (simp add: jump_add) (simp add: jump_def)

end

text \<open>A component of the generator: one matrix step, and its inverse.\<close>

definition mat_step :: "int \<Rightarrow> int mat3 \<Rightarrow> int vec3 \<Rightarrow> int vec3" where
  "mat_step m A s = vmod m (mv A s)"

lemma mat_steps: "residues m s \<Longrightarrow> (mat_step m A ^^ n) s = vmod m (mv (mpow A n) s)"
proof (induction n)
  case (Suc n)
  then have "(mat_step m A ^^ Suc n) s = vmod m (mv A (vmod m (mv (mpow A n) s)))" by (simp add: mat_step_def [of m A "vmod m _"])
  also have "\<dots> = vmod m (mv A (mv (mpow A n) s))" by (rule vmod_mv_cong) simp_all
  finally show ?case by (simp add: mv_mm)
qed (simp add: mmod_residues)

lemma mat_step_inverse:
  assumes "mmod m (mm A B) = one3" "residues m s"
  shows "mat_step m A (mat_step m B s) = s"
proof -
  have "mat_step m A (mat_step m B s) = vmod m (mv A (mv B s))" unfolding mat_step_def by (rule vmod_mv_cong) simp_all
  also have "\<dots> = vmod m (mv (mmod m (mm A B)) (vmod m s))" unfolding vmod_mv by (simp add: mv_mm)
  finally show ?thesis using assms by (simp add: mmod_residues)
qed

definition nonzero_residues :: "int \<Rightarrow> int vec3 \<Rightarrow> bool" where
  "nonzero_residues m s \<longleftrightarrow> residues m s \<and> s \<noteq> (0, 0, 0)"

lemma mat_step_zero: "mat_step m A (0, 0, 0) = (0, 0, 0)"
  by (cases A) (auto simp: mat_step_def)

lemma mat_reversible:
  assumes "0 < m" "mmod m (mm A B) = one3" "mmod m (mm B A) = one3"
  shows "reversible (mat_step m A) (mat_step m B) (nonzero_residues m)"
proof -
  have keep: "nonzero_residues m (mat_step m A' s)" if "mmod m (mm B' A') = one3" "nonzero_residues m s" for A' B' s
    using mat_step_inverse [OF that(1), of s] mat_step_zero [of m B'] that(2) assms(1)
    by (auto simp: nonzero_residues_def mat_step_def)
  show ?thesis
    by unfold_locales
      (use keep [OF assms(3)] keep [OF assms(2)] mat_step_inverse [OF assms(2)] mat_step_inverse [OF assms(3)] in
        \<open>auto simp: nonzero_residues_def\<close>)
qed

definition M1 :: int where "M1 = 4294967087"
definition M2 :: int where "M2 = 4294944443"

definition step1 :: "int mat3" where "step1 = ((0, 1, 0), (0, 0, 1), (-810728, 1403580, 0))"
definition step2 :: "int mat3" where "step2 = ((0, 1, 0), (0, 0, 1), (-1370589, 0, 527612))"
definition back1 :: "int mat3" where "back1 = ((184888585, 0, 1945170933), (1, 0, 0), (0, 1, 0))"
definition back2 :: "int mat3" where "back2 = ((0, 360363334, 4225571728), (1, 0, 0), (0, 1, 0))"

lemmas mat_defs = step1_def step2_def back1_def back2_def

interpretation c1: reversible "mat_step M1 step1" "mat_step M1 back1" "nonzero_residues M1"
  by (rule mat_reversible) (simp_all add: M1_def mat_defs mm_def one3_def)

interpretation c2: reversible "mat_step M2 step2" "mat_step M2 back2" "nonzero_residues M2"
  by (rule mat_reversible) (simp_all add: M2_def mat_defs mm_def one3_def)

text \<open>The tabulated powers are those of the transition matrices. A power of a matrix of this form is determined by its first
  row, and squaring it by squaring that row.\<close>

fun row_shift :: "int vec3 \<Rightarrow> int vec3 \<Rightarrow> int vec3" where
  "row_shift (q, p, r) (x, y, z) = (q * z, x + p * z, y + r * z)"

definition companion :: "int vec3 \<Rightarrow> int mat3" where
  "companion k = ((0, 1, 0), (0, 0, 1), k)"

definition from_row :: "int vec3 \<Rightarrow> int vec3 \<Rightarrow> int mat3" where
  "from_row k v = (v, row_shift k v, row_shift k (row_shift k v))"

fun shift_mod :: "int \<Rightarrow> int vec3 \<Rightarrow> int vec3 \<Rightarrow> int vec3" where
  "shift_mod m (q, p, r) (x, y, z) = ((q * z) mod m, (x + p * z) mod m, (y + r * z) mod m)"

fun combine_rows :: "int \<Rightarrow> int vec3 \<Rightarrow> int vec3 \<Rightarrow> int vec3 \<Rightarrow> int vec3" where
  "combine_rows m (x, y, z) (a, b, c) (d, e, f) =
     ((x * x + y * a + z * d) mod m, (x * y + y * b + z * e) mod m, (x * z + y * c + z * f) mod m)"

fun two_rows :: "int vec3 \<Rightarrow> int \<Rightarrow> int vec3 \<Rightarrow> int vec3 \<Rightarrow> int vec3" where
  "two_rows k m v (a, b, c) = combine_rows m v (a, b, c) (shift_mod m k (a, b, c))"

fun row_square :: "int vec3 \<Rightarrow> int \<Rightarrow> int vec3 \<Rightarrow> int vec3" where
  "row_square k m (x, y, z) = two_rows k m (x, y, z) (shift_mod m k (x, y, z))"

lemma mm_companion:
  "mm (companion k) (r0, r1, r2) = (r1, r2, snd (snd (mm (companion k) (r0, r1, r2))))"
  "mm (r0, r1, r2) (companion k) = (row_shift k r0, row_shift k r1, row_shift k r2)"
  by (cases k; cases r0; cases r1; cases r2; simp add: companion_def mm_def algebra_simps)+

lemma mpow_commute: "mm A (mpow A n) = mm (mpow A n) A"
  using mpow_add [of A n 1] by simp

lemma companion_power: "mpow (companion k) n = from_row k (fst (mpow (companion k) n))"
proof -
  obtain r0 r1 r2 where p: "mpow (companion k) n = (r0, r1, r2)" by (cases "mpow (companion k) n")
  have "fst (mm (companion k) (r0, r1, r2)) = r1" "fst (snd (mm (companion k) (r0, r1, r2))) = r2" by (subst mm_companion(1), simp)+
  then have "r1 = row_shift k r0" "r2 = row_shift k r1"
    using mpow_commute [of "companion k" n] unfolding p mm_companion(2) by simp_all
  with p show ?thesis by (simp add: from_row_def)
qed

lemma row_shift_cong: "vmod m v = vmod m w \<Longrightarrow> vmod m (row_shift k v) = vmod m (row_shift k w)"
proof -
  assume a: "vmod m v = vmod m w"
  obtain q p r x y z x' y' z' where e: "k = (q, p, r)" "v = (x, y, z)" "w = (x', y', z')" by (cases k; cases v; cases w) auto
  with a have "x mod m = x' mod m" "y mod m = y' mod m" "z mod m = z' mod m" by simp_all
  then show ?thesis unfolding e by (simp only: row_shift.simps vmap.simps prod.inject) (intro conjI mod_add_cong mod_mult_cong refl)
qed

lemma from_row_cong:
  assumes "vmod m v = vmod m w"
  shows "mmod m (from_row k v) = mmod m (from_row k w)"
  by (simp only: from_row_def mmap.simps assms row_shift_cong [OF assms] row_shift_cong [OF row_shift_cong [OF assms]])

lemma shift_mod_eq: "shift_mod m k v = vmod m (row_shift k v)"
  by (cases k; cases v) simp

lemma row_square_mm: "row_square k m v = fst (mmod m (mm (from_row k v) (from_row k v)))"
proof -
  let ?w = "shift_mod m k v" let ?t = "shift_mod m k ?w"
  have r: "row_square k m v = combine_rows m v ?w ?t" by (cases v; cases ?w) simp
  have c: "combine_rows m a b c = fst (mmod m (mm (a, b, c) (a, b, c)))" for a b c by (cases a; cases b; cases c) (simp add: mm_def)
  have "vmod m ?t = vmod m (row_shift k (row_shift k v))" unfolding shift_mod_eq mmod_idem by (rule row_shift_cong) simp
  then have e: "mmod m (v, ?w, ?t) = mmod m (from_row k v)" by (simp add: from_row_def shift_mod_eq)
  show ?thesis unfolding r c using mmod_mm_cong [OF e e] by simp
qed

lemma row_square_power:
  "row_square k m (vmod m (fst (mpow (companion k) n))) = vmod m (fst (mpow (companion k) (n + n)))"
proof -
  let ?u = "fst (mpow (companion k) n)"
  have "vmod m (vmod m ?u) = vmod m ?u" by simp
  then have "mmod m (from_row k (vmod m ?u)) = mmod m (from_row k ?u)" by (rule from_row_cong)
  from mmod_mm_cong [OF this this]
  have "mmod m (mm (from_row k (vmod m ?u)) (from_row k (vmod m ?u))) = mmod m (mpow (companion k) (n + n))"
    unfolding companion_power [symmetric] mpow_add .
  then show ?thesis unfolding row_square_mm by (cases "mpow (companion k) (n + n)") simp
qed

lemma row_squares:
  "vmod m (fst (mpow (companion k) (2 ^ e))) = v \<Longrightarrow> (row_square k m ^^ d) v = vmod m (fst (mpow (companion k) (2 ^ (e + d))))"
proof (induction d)
  case (Suc d)
  then show ?case using row_square_power [of k m "2 ^ (e + d)"] by (simp add: mult_2)
qed simp

definition coeffs1 :: "int vec3" where "coeffs1 = (-810728, 1403580, 0)"
definition coeffs2 :: "int vec3" where "coeffs2 = (-1370589, 0, 527612)"

lemma row1_26: "(row_square coeffs1 M1 ^^ 26) (0, 1, 0) = (4271076381, 813410089, 3461955319)"
  by code_simp

lemma row1_51: "(row_square coeffs1 M1 ^^ 25) (4271076381, 813410089, 3461955319) = (4288926968, 3033075037, 1505732852)"
  by code_simp

lemma row1_76: "(row_square coeffs1 M1 ^^ 25) (4288926968, 3033075037, 1505732852) = (82758667, 1871391091, 4127413238)"
  by code_simp

lemma row1_102: "(row_square coeffs1 M1 ^^ 26) (82758667, 1871391091, 4127413238) = (1028861702, 4082006648, 338232527)"
  by code_simp

lemma row1_127: "(row_square coeffs1 M1 ^^ 25) (1028861702, 4082006648, 338232527) = (2427906178, 3580155704, 949770784)"
  by code_simp

lemma row2_26: "(row_square coeffs2 M2 ^^ 26) (0, 1, 0) = (2375319030, 1391532370, 3742334018)"
  by code_simp

lemma row2_51: "(row_square coeffs2 M2 ^^ 25) (2375319030, 1391532370, 3742334018) = (1185024844, 587779104, 1004942725)"
  by code_simp

lemma row2_76: "(row_square coeffs2 M2 ^^ 25) (1185024844, 587779104, 1004942725) = (1511326704, 3759209742, 1610795712)"
  by code_simp

lemma row2_102: "(row_square coeffs2 M2 ^^ 26) (1511326704, 3759209742, 1610795712) = (419134859, 2976059897, 747864206)"
  by code_simp

lemma row2_127: "(row_square coeffs2 M2 ^^ 25) (419134859, 2976059897, 747864206) = (1464411153, 277697599, 1610723613)"
  by code_simp

lemma tabulated_rows1:
  "vmod M1 (fst (mpow (companion coeffs1) (2 ^ 76))) = (82758667, 1871391091, 4127413238)"
  "vmod M1 (fst (mpow (companion coeffs1) (2 ^ 127))) = (2427906178, 3580155704, 949770784)"
proof -
  have 0: "vmod M1 (fst (mpow (companion coeffs1) (2 ^ 0))) = (0, 1, 0)" by (simp add: companion_def M1_def)
  from row_squares [OF 0, of 26] have 1: "vmod M1 (fst (mpow (companion coeffs1) (2 ^ 26))) = (4271076381, 813410089, 3461955319)" unfolding row1_26 by simp
  from row_squares [OF 1, of 25] have 2: "vmod M1 (fst (mpow (companion coeffs1) (2 ^ 51))) = (4288926968, 3033075037, 1505732852)" unfolding row1_51 by simp
  from row_squares [OF 2, of 25] show 3: "vmod M1 (fst (mpow (companion coeffs1) (2 ^ 76))) = (82758667, 1871391091, 4127413238)" unfolding row1_76 by simp
  from row_squares [OF 3, of 26] have 4: "vmod M1 (fst (mpow (companion coeffs1) (2 ^ 102))) = (1028861702, 4082006648, 338232527)" unfolding row1_102 by simp
  from row_squares [OF 4, of 25] show "vmod M1 (fst (mpow (companion coeffs1) (2 ^ 127))) = (2427906178, 3580155704, 949770784)" unfolding row1_127 by simp
qed

lemma tabulated_rows2:
  "vmod M2 (fst (mpow (companion coeffs2) (2 ^ 76))) = (1511326704, 3759209742, 1610795712)"
  "vmod M2 (fst (mpow (companion coeffs2) (2 ^ 127))) = (1464411153, 277697599, 1610723613)"
proof -
  have 0: "vmod M2 (fst (mpow (companion coeffs2) (2 ^ 0))) = (0, 1, 0)" by (simp add: companion_def M2_def)
  from row_squares [OF 0, of 26] have 1: "vmod M2 (fst (mpow (companion coeffs2) (2 ^ 26))) = (2375319030, 1391532370, 3742334018)" unfolding row2_26 by simp
  from row_squares [OF 1, of 25] have 2: "vmod M2 (fst (mpow (companion coeffs2) (2 ^ 51))) = (1185024844, 587779104, 1004942725)" unfolding row2_51 by simp
  from row_squares [OF 2, of 25] show 3: "vmod M2 (fst (mpow (companion coeffs2) (2 ^ 76))) = (1511326704, 3759209742, 1610795712)" unfolding row2_76 by simp
  from row_squares [OF 3, of 26] have 4: "vmod M2 (fst (mpow (companion coeffs2) (2 ^ 102))) = (419134859, 2976059897, 747864206)" unfolding row2_102 by simp
  from row_squares [OF 4, of 25] show "vmod M2 (fst (mpow (companion coeffs2) (2 ^ 127))) = (1464411153, 277697599, 1610723613)" unfolding row2_127 by simp
qed

lemma power_from_row:
  assumes "vmod m (fst (mpow (companion k) n)) = v"
  shows "mmod m (mpow (companion k) n) = mmod m (from_row k v)"
proof -
  let ?u = "fst (mpow (companion k) n)"
  have "vmod m ?u = vmod m v" using assms by auto
  then have "mmod m (from_row k ?u) = mmod m (from_row k v)" by (rule from_row_cong)
  then show ?thesis unfolding companion_power [symmetric] .
qed

lemma steps_companion: "step1 = companion coeffs1" "step2 = companion coeffs2"
  by (simp_all add: mat_defs companion_def coeffs1_def coeffs2_def)

lemma tables:
  "A1p76 = dmat (mmod M1 (mpow step1 (2 ^ 76)))" "A1p127 = dmat (mmod M1 (mpow step1 (2 ^ 127)))"
  "A2p76 = dmat (mmod M2 (mpow step2 (2 ^ 76)))" "A2p127 = dmat (mmod M2 (mpow step2 (2 ^ 127)))"
  "A1p0 = dmat step1" "A2p0 = dmat step2" "InvA1 = dmat back1" "InvA2 = dmat back2" "m1 = of_int M1" "m2 = of_int M2"
  unfolding steps_companion power_from_row [OF tabulated_rows1(1)] power_from_row [OF tabulated_rows1(2)]
    power_from_row [OF tabulated_rows2(1)] power_from_row [OF tabulated_rows2(2)]
  by (simp_all add: A1p76_def A2p76_def A1p127_def A2p127_def A1p0_def A2p0_def InvA1_def InvA2_def m1_def m2_def
      companion_def coeffs1_def coeffs2_def from_row_def mat_defs M1_def M2_def)

end
