(* ===== verification/RandomNumbers.thy ===== *)
theory RandomNumbers
  imports RngStreams
begin

text \<open>
  The numbers that the generator draws: every draw is one exact step of the two recurrences, jumps are draws made at once, the state
  stays valid whatever a program does with generators, and numbers and integers lie in the ranges they are asked for.
\<close>

section \<open>States of the generator\<close>

definition state_ok :: "real state6 \<Rightarrow> bool" where
  "state_ok s \<longleftrightarrow> (\<exists>x y. s = (dvec x, dvec y) \<and> nonzero_residues M1 x \<and> nonzero_residues M2 y)"

definition rng_ok :: "rng \<Rightarrow> bool" where
  "rng_ok r \<longleftrightarrow> state_ok (Cg r) \<and> state_ok (Bg r) \<and> state_ok (Ig r)"

abbreviation draws :: "nat \<Rightarrow> rng \<Rightarrow> rng" where
  "draws n r \<equiv> ((\<lambda>r. snd (U01 r)) ^^ n) r"

lemma moduli: "modulus M1" "modulus M2"
  by (simp_all add: modulus_def M1_def M2_def)

lemma MatVec_power:
  assumes "modulus m" "nonzero_residues m s"
  shows "MatVecModM (dmat (mmod m (mpow A n))) (dvec s) (of_int m) = dvec ((mat_step m A ^^ n) s)"
proof -
  have s: "residues m s" using assms(2) by (simp add: nonzero_residues_def)
  have "MatVecModM (dmat (mmod m (mpow A n))) (dvec s) (of_int m) = dvec (vmod m (mv (mmod m (mpow A n)) (vmod m s)))"
    using MatVecModM_int [OF assms(1)] modulusD(1) [OF assms(1)] s by (simp add: mmod_residues)
  then show ?thesis using mat_steps [OF s] by (simp add: vmod_mv)
qed

section \<open>Drawing a number\<close>

lemma mat_step1: "mat_step M1 step1 (x, y, z) = (x', y', z') \<longleftrightarrow> x' = y mod M1 \<and> y' = z mod M1 \<and> z' = (1403580 * y - 810728 * x) mod M1"
  by (auto simp: mat_step_def step1_def)

lemma mat_step2: "mat_step M2 step2 (x, y, z) = (x', y', z') \<longleftrightarrow> x' = y mod M2 \<and> y' = z mod M2 \<and> z' = (527612 * z - 1370589 * x) mod M2"
  by (auto simp: mat_step_def step2_def)

lemma recurrence_int:
  assumes "0 < m" "m < 2 ^ 32" "0 \<le> a" "a \<le> 1403580" "0 \<le> b" "b \<le> 1403580" "x \<in> {0 ..< m}" "y \<in> {0 ..< m}"
  shows "final_rest (dsub (dmul (of_int a) (of_int x)) (dmul (of_int b) (of_int y))) (of_int m) = of_int ((a * x - b * y) mod m)"
proof -
  have p: "0 \<le> a * x" "a * x \<le> 1403580 * 2 ^ 32" "0 \<le> b * y" "b * y \<le> 1403580 * 2 ^ 32"
    using assms mult_mono [of a 1403580 x "2 ^ 32"] mult_mono [of b 1403580 y "2 ^ 32"] by auto
  then have d: "\<bar>a * x - b * y\<bar> < 2 ^ 53" by (simp add: abs_less_iff)
  have e: "dmul (of_int a) (of_int x) = of_int (a * x)" "dmul (of_int b) (of_int y) = of_int (b * y)"
    "dsub (of_int (a * x)) (of_int (b * y)) = of_int (a * x - b * y)"
    by (rule dops_int, use p d in simp)+
  show ?thesis unfolding e by (rule final_rest_int [OF d assms(1,2)])
qed

text \<open>The combination of the two components.\<close>

definition combined :: "int \<Rightarrow> int \<Rightarrow> int" where
  "combined p q = (if p > q then p - q else p - q + M1)"

lemma combined_range: "p \<in> {0 ..< M1} \<Longrightarrow> q \<in> {0 ..< M2} \<Longrightarrow> 1 \<le> combined p q \<and> combined p q \<le> M1"
  by (auto simp: combined_def M1_def M2_def)

lemma U01_exact:
  assumes C: "Cg r = (dvec s, dvec t)" and ok: "nonzero_residues M1 s" "nonzero_residues M2 t"
  shows "\<exists>k. 1 \<le> k \<and> k \<le> M1 \<and>
    U01 r = (if anti r then dsub 1 (dmul (of_int k) norm_m1) else dmul (of_int k) norm_m1,
             r\<lparr>Cg := (dvec (mat_step M1 step1 s), dvec (mat_step M2 step2 t))\<rparr>)"
proof -
  obtain x y z x' y' z' where s: "s = (x, y, z)" and t: "t = (x', y', z')" by (cases s; cases t) auto
  have b: "x \<in> {0 ..< M1}" "y \<in> {0 ..< M1}" "z \<in> {0 ..< M1}" "x' \<in> {0 ..< M2}" "y' \<in> {0 ..< M2}" "z' \<in> {0 ..< M2}"
    using ok by (auto simp: nonzero_residues_def residues_def s t)
  let ?p = "(1403580 * y - 810728 * x) mod M1" and ?q = "(527612 * z' - 1370589 * x') mod M2"
  have p: "final_rest (dsub (dmul a12 (of_int y)) (dmul a13n (of_int x))) m1 = of_int ?p"
    using recurrence_int [of M1 1403580 810728 y x] b by (simp add: a12_def a13n_def m1_def M1_def)
  have q: "final_rest (dsub (dmul a21 (of_int z')) (dmul a23n (of_int x'))) m2 = of_int ?q"
    using recurrence_int [of M2 527612 1370589 z' x'] b by (simp add: a21_def a23n_def m2_def M2_def)
  have pq: "?p \<in> {0 ..< M1}" "?q \<in> {0 ..< M2}" by (simp_all add: M1_def M2_def)
  note k = combined_range [OF pq]
  have d: "dsub (of_int ?p) (of_int ?q) = of_int (?p - ?q)" by (rule dops_int) (use pq in \<open>simp add: M1_def M2_def\<close>)
  have d': "dadd (of_int (?p - ?q)) m1 = of_int (?p - ?q + M1)" unfolding tables
    by (rule dops_int) (use pq in \<open>simp add: M1_def M2_def\<close>)
  have n: "mat_step M1 step1 s = (y, z, ?p)" "mat_step M2 step2 t = (y', z', ?q)" using b by (simp_all add: s t mat_step1 mat_step2)
  have "U01 r = (if anti r then dsub 1 (dmul (of_int (combined ?p ?q)) norm_m1) else dmul (of_int (combined ?p ?q)) norm_m1,
             r\<lparr>Cg := (dvec (mat_step M1 step1 s), dvec (mat_step M2 step2 t))\<rparr>)"
    unfolding U01_def C n by (simp add: s t p q Let_def d d' combined_def del: of_int_diff of_int_add)
  with k show ?thesis by blast
qed

lemma draws_exact:
  assumes C: "Cg r = (dvec s, dvec t)" and ok: "nonzero_residues M1 s" "nonzero_residues M2 t"
  shows "draws n r = r\<lparr>Cg := (dvec ((mat_step M1 step1 ^^ n) s), dvec ((mat_step M2 step2 ^^ n) t))\<rparr>"
proof (induction n)
  case 0
  then show ?case using C by simp
next
  case (Suc n)
  let ?s = "(mat_step M1 step1 ^^ n) s" and ?t = "(mat_step M2 step2 ^^ n) t"
  have k: "nonzero_residues M1 ?s" "nonzero_residues M2 ?t" using ok by (simp_all add: c1.kept_funpow c2.kept_funpow)
  from U01_exact [of "r\<lparr>Cg := (dvec ?s, dvec ?t)\<rparr>", OF _ k] Suc.IH show ?case by auto
qed

text \<open>The factor \<open>norm\<close> and the number that is returned, with the errors of both roundings.\<close>

lemma rounded: "0 \<le> x \<Longrightarrow> x * (1 - 1 / 2 ^ 53) \<le> round53 x \<and> round53 x \<le> x * (1 + 1 / 2 ^ 53)"
  using round53_error [of x] unfolding abs_le_iff right_diff_distrib distrib_left by simp

lemma norm_bounds: "(1 - 1 / 2 ^ 53) / 4294967088 \<le> norm_m1" "norm_m1 \<le> (1 + 1 / 2 ^ 53) / 4294967088"
proof -
  have "dadd m1 1 = 4294967088" using dops_int(2) [of M1 1] by (simp add: m1_def M1_def)
  then have "norm_m1 = round53 (1 / 4294967088)" by (simp add: norm_m1_def ddiv_def)
  with rounded [of "1 / 4294967088"] show "(1 - 1 / 2 ^ 53) / 4294967088 \<le> norm_m1" "norm_m1 \<le> (1 + 1 / 2 ^ 53) / 4294967088"
    by simp_all
qed

lemma unit_range:
  assumes "1 \<le> k" "k \<le> M1"
  shows "1 / 2 ^ 33 \<le> dmul (of_int k) norm_m1" "dmul (of_int k) norm_m1 \<le> 1 - 1 / 2 ^ 33"
proof -
  have k: "1 \<le> (of_int k :: real)" "of_int k \<le> (4294967087 :: real)" using assms by (simp_all add: M1_def)
  have n: "0 \<le> norm_m1" using norm_bounds(1) by (simp add: order_trans [rotated])
  have lo: "(1 - 1 / 2 ^ 53) / 4294967088 \<le> of_int k * norm_m1"
    using mult_mono [OF k(1) norm_bounds(1)] k by simp
  have hi: "of_int k * norm_m1 \<le> 4294967087 * ((1 + 1 / 2 ^ 53) / 4294967088)"
    using mult_mono [OF k(2) norm_bounds(2)] n by simp
  have z: "0 \<le> of_int k * norm_m1" using k n by simp
  note r = rounded [OF z, folded dmul_def]
  have "1 / 2 ^ 33 \<le> (1 - 1 / 2 ^ 53) / 4294967088 * (1 - 1 / 2 ^ 53 :: real)" by simp
  also have "\<dots> \<le> of_int k * norm_m1 * (1 - 1 / 2 ^ 53)" by (rule mult_right_mono [OF lo]) simp
  finally show "1 / 2 ^ 33 \<le> dmul (of_int k) norm_m1" using r by linarith
  have "of_int k * norm_m1 * (1 + 1 / 2 ^ 53) \<le> 4294967087 * ((1 + 1 / 2 ^ 53) / 4294967088) * (1 + 1 / 2 ^ 53)"
    by (rule mult_right_mono [OF hi]) simp
  also have "\<dots> \<le> (1 - 1 / 2 ^ 33 :: real)" by simp
  finally show "dmul (of_int k) norm_m1 \<le> 1 - 1 / 2 ^ 33" using r by linarith
qed

lemma U01_range:
  assumes "state_ok (Cg r)"
  shows "1 / 2 ^ 34 \<le> fst (U01 r)" "fst (U01 r) \<le> 1 - 1 / 2 ^ 34"
proof -
  from assms U01_exact [of r] obtain k where k: "1 \<le> k" "k \<le> M1"
    "fst (U01 r) = (if anti r then dsub 1 (dmul (of_int k) norm_m1) else dmul (of_int k) norm_m1)"
    unfolding state_ok_def by fastforce
  note u = unit_range [OF k(1,2)]
  let ?u = "dmul (of_int k) norm_m1"
  have z: "0 \<le> 1 - ?u" using u(2) by simp
  note r = rounded [OF z, folded dsub_def]
  have "1 / 2 ^ 33 * (1 - 1 / 2 ^ 53) \<le> (1 - ?u) * (1 - 1 / 2 ^ 53)" by (rule mult_right_mono) (use u in simp_all)
  moreover have "(1 - ?u) * (1 + 1 / 2 ^ 53) \<le> (1 - 1 / 2 ^ 33) * (1 + 1 / 2 ^ 53)" by (rule mult_right_mono) (use u in simp_all)
  ultimately have "1 / 2 ^ 34 \<le> dsub 1 ?u" "dsub 1 ?u \<le> 1 - 1 / 2 ^ 34" using r by simp_all
  with k(3) u show "1 / 2 ^ 34 \<le> fst (U01 r)" "fst (U01 r) \<le> 1 - 1 / 2 ^ 34" by auto
qed

section \<open>Jumping ahead\<close>

definition offset :: "int \<Rightarrow> int \<Rightarrow> int" where
  "offset e c = (if e > 0 then 2 ^ nat e + c else if e < 0 then - (2 ^ nat (- e)) + c else c)"

abbreviation jump1 where "jump1 \<equiv> jump (mat_step M1 step1) (mat_step M1 back1)"
abbreviation jump2 where "jump2 \<equiv> jump (mat_step M2 step2) (mat_step M2 back2)"

lemma jump_power: "(mat_step m (if 0 \<le> c then A else B) ^^ nat \<bar>c\<bar>) s = jump (mat_step m A) (mat_step m B) c s"
  by (simp add: jump_def)

lemma jump_two_power:
  "e \<noteq> 0 \<Longrightarrow> (mat_step m (if 0 < e then A else B) ^^ (2 ^ nat \<bar>e\<bar>)) s = jump (mat_step m A) (mat_step m B) (offset e 0) s"
  by (auto simp: jump_def offset_def nat_power_eq)

lemma advance_component:
  fixes c e :: int
  assumes m: "modulus m" and A: "small A \<or> mresidues m A" "small B \<or> mresidues m B"
    and r: "reversible (mat_step m A) (mat_step m B) (nonzero_residues m)" and s: "nonzero_residues m s"
  defines "C \<equiv> MatPowModM (dmat (if 0 \<le> c then A else B)) (of_int m) \<bar>c\<bar>"
  shows "MatVecModM (if e \<noteq> 0 then MatMatModM (MatTwoPowModM (dmat (if 0 < e then A else B)) (of_int m) \<bar>e\<bar>) C (of_int m) else C)
    (dvec s) (of_int m) = dvec (jump (mat_step m A) (mat_step m B) (offset e c) s)"
proof -
  let ?X = "if 0 \<le> c then A else B" and ?Y = "if 0 < e then A else B" and ?J = "jump (mat_step m A) (mat_step m B)"
  let ?P = "mpow ?X (nat \<bar>c\<bar>)" and ?Q = "mpow ?Y (2 ^ nat \<bar>e\<bar>)"
  have C: "C = dmat (mmod m ?P)" unfolding C_def by (rule MatPowModM_int [OF m]) (use A in simp)
  have m0: "0 < m" by (rule modulusD [OF m])
  have c: "MatVecModM C (dvec s) (of_int m) = dvec (?J c s)" unfolding C MatVec_power [OF m s] jump_power ..
  show ?thesis
  proof (cases "e = 0")
    case True
    with c show ?thesis by (simp add: offset_def)
  next
    case False
    have E: "MatTwoPowModM (dmat ?Y) (of_int m) \<bar>e\<bar> = dmat (mmod m ?Q)" by (rule MatTwoPowModM_int [OF m]) (use A False in simp_all)
    have D: "MatMatModM (dmat (mmod m ?Q)) (dmat (mmod m ?P)) (of_int m) = dmat (mmod m (mm ?Q ?P))"
      using MatMatModM_int [OF m, of "mmod m ?Q" "mmod m ?P"] m0 by (simp only: mresidues_mmod mmod_mm simp_thms)
    have ss: "residues m s" using s by (simp add: nonzero_residues_def)
    have "MatVecModM (dmat (mmod m (mm ?Q ?P))) (dvec s) (of_int m) = dvec (vmod m (mv (mmod m (mm ?Q ?P)) (vmod m s)))"
      using MatVecModM_int [OF m] m0 ss by (simp only: mresidues_mmod mmod_residues simp_thms)
    also have "vmod m (mv (mmod m (mm ?Q ?P)) (vmod m s)) = vmod m (mv ?Q (mv ?P s))" by (simp only: vmod_mv mv_mm)
    also have "\<dots> = vmod m (mv ?Q (vmod m (mv ?P s)))" by (rule vmod_mv_cong) simp_all
    also have "\<dots> = (mat_step m ?Y ^^ (2 ^ nat \<bar>e\<bar>)) ((mat_step m ?X ^^ nat \<bar>c\<bar>) s)"
      using ss m0 by (simp only: mat_steps mresidues_mmod)
    also have "\<dots> = ?J (offset e 0) (?J c s)" unfolding jump_power jump_two_power [OF False] ..
    also have "\<dots> = ?J (offset e c) s" unfolding reversible.jump_add [OF r s] by (simp add: offset_def False)
    finally show ?thesis using False unfolding C E D by simp
  qed
qed

lemma advance_exact:
  assumes C: "Cg r = (dvec s, dvec t)" and ok: "nonzero_residues M1 s" "nonzero_residues M2 t"
  shows "advance_state e c r = r\<lparr>Cg := (dvec (jump1 (offset e c) s), dvec (jump2 (offset e c) t))\<rparr>"
proof -
  have A: "small step1 \<or> mresidues M1 step1" "small back1 \<or> mresidues M1 back1" "small step2 \<or> mresidues M2 step2" "small back2 \<or> mresidues M2 back2"
    by (simp_all add: mat_defs small_def mresidues_def M1_def M2_def)
  have i: "(if b then dmat X else dmat Y) = dmat (if b then X else Y)" for b X Y by simp
  show ?thesis
    unfolding advance_state_def Let_def C tables fst_conv snd_conv i
      advance_component [OF moduli(1) A(1,2) c1.reversible_axioms ok(1)] advance_component [OF moduli(2) A(3,4) c2.reversible_axioms ok(2)] ..
qed

lemma state_okE:
  assumes "state_ok s"
  obtains x y where "s = (dvec x, dvec y)" "nonzero_residues M1 x" "nonzero_residues M2 y"
  using assms by (auto simp: state_ok_def)

lemma state_okI: "nonzero_residues M1 x \<Longrightarrow> nonzero_residues M2 y \<Longrightarrow> state_ok (dvec x, dvec y)"
  unfolding state_ok_def by blast

lemma state_ok_draws: "state_ok (Cg r) \<Longrightarrow> state_ok (Cg (draws n r))"
  by (erule state_okE) (simp add: draws_exact state_okI c1.kept_funpow c2.kept_funpow)

lemma draws_keep: "state_ok (Cg r) \<Longrightarrow> Bg (draws n r) = Bg r \<and> Ig (draws n r) = Ig r \<and> inc_prec (draws n r) = inc_prec r \<and> anti (draws n r) = anti r"
  by (erule state_okE) (simp add: draws_exact)

text \<open>A tabulated power moves a state by that many draws.\<close>

lemma table_step:
  assumes "state_ok (Cg r)"
  shows "(MatVecModM A1p76 (fst (Cg r)) m1, MatVecModM A2p76 (snd (Cg r)) m2) = Cg (draws (2 ^ 76) r)"
    "(MatVecModM A1p127 (fst (Cg r)) m1, MatVecModM A2p127 (snd (Cg r)) m2) = Cg (draws (2 ^ 127) r)"
proof -
  from assms obtain x y where s: "Cg r = (dvec x, dvec y)" "nonzero_residues M1 x" "nonzero_residues M2 y" by (rule state_okE)
  note d = draws_exact [OF s] MatVec_power [OF moduli(1) s(2)] MatVec_power [OF moduli(2) s(3)]
  show "(MatVecModM A1p76 (fst (Cg r)) m1, MatVecModM A2p76 (snd (Cg r)) m2) = Cg (draws (2 ^ 76) r)"
    "(MatVecModM A1p127 (fst (Cg r)) m1, MatVecModM A2p127 (snd (Cg r)) m2) = Cg (draws (2 ^ 127) r)"
    unfolding tables s(1) fst_conv snd_conv d by simp_all
qed

section \<open>Properties\<close>

text \<open>C7: Jumping ahead is the same as drawing: when \<open>n = 2^e + c\<close> (or \<open>c\<close> for \<open>e = 0\<close>) is not negative, \<open>advance_state\<close> leaves
  the generator in exactly the state in which \<open>n\<close> draws would leave it, although it multiplies matrices of \<open>double\<close> values
  instead; the next substream starts \<open>2^76\<close> draws after the current one, and the streams that are created one after the other start
  \<open>2^127\<close> draws apart.\<close>

theorem rng_jumps_are_draws:
  assumes "rng_ok r" "state_ok (next_seed pkg)" "offset e c = int n"
  shows "advance_state e c r = draws n r \<and>
    reset_next_substream r = (let s = Cg (draws (2 ^ 76) (reset_start_substream r)) in r\<lparr>Bg := s, Cg := s\<rparr>) \<and>
    next_seed (fst (rng_init (pkg, r))) = Cg (draws (2 ^ 127) (snd (rng_init (pkg, r))))"
proof (intro conjI)
  from assms(1) obtain x y where s: "Cg r = (dvec x, dvec y)" "nonzero_residues M1 x" "nonzero_residues M2 y"
    unfolding rng_ok_def by (blast elim: state_okE)
  show "advance_state e c r = draws n r"
    using advance_exact [OF s, of e c] draws_exact [OF s, of n] assms(3) by (simp add: jump_def)
  from table_step(1) [of "reset_start_substream r"] assms(1)
  show "reset_next_substream r = (let s = Cg (draws (2 ^ 76) (reset_start_substream r)) in r\<lparr>Bg := s, Cg := s\<rparr>)"
    by (simp add: reset_next_substream_def reset_start_substream_def Let_def rng_ok_def)
  from table_step(2) [of "snd (rng_init (pkg, r))"] assms(2)
  show "next_seed (fst (rng_init (pkg, r))) = Cg (draws (2 ^ 127) (snd (rng_init (pkg, r))))"
    by (simp add: rng_init_def Let_def)
qed

text \<open>The default seed of the package, and the first stream created from it.\<close>

definition rng_blank :: rng where
  "rng_blank = \<lparr>Cg = ((0, 0, 0), (0, 0, 0)), Bg = ((0, 0, 0), (0, 0, 0)), Ig = ((0, 0, 0), (0, 0, 0)), anti = False, inc_prec = False, rng_name = []\<rparr>"

lemma default_seed_ok: "state_ok (next_seed rng_pkg0)"
proof -
  have "next_seed rng_pkg0 = (dvec (12345, 12345, 12345), dvec (12345, 12345, 12345))" by (simp add: rng_pkg0_def)
  then show ?thesis by (simp only:) (rule state_okI; simp add: nonzero_residues_def residues_def M1_def M2_def)
qed

lemma first_stream_ok: "rng_ok (snd (rng_init (rng_pkg0, rng_blank)))"
  using default_seed_ok by (simp add: rng_ok_def rng_init_def Let_def)

theorem rng_jumps_are_draws_witness:
  "advance_state 3 5 (snd (rng_init (rng_pkg0, rng_blank))) = draws 13 (snd (rng_init (rng_pkg0, rng_blank)))"
  using rng_jumps_are_draws [OF first_stream_ok default_seed_ok, of 3 5 13] by (simp add: offset_def)

text \<open>C24: Jumps can be undone: whatever \<open>e\<close> and \<open>c\<close> are, \<open>advance_state (-e) (-c)\<close> takes the generator back to the state it had before
  \<open>advance_state e c\<close>, exactly.\<close>

theorem rng_advance_round_trip: "rng_ok r \<Longrightarrow> advance_state (- e) (- c) (advance_state e c r) = r"
proof -
  assume "rng_ok r"
  then obtain x y where s: "Cg r = (dvec x, dvec y)" "nonzero_residues M1 x" "nonzero_residues M2 y"
    unfolding rng_ok_def by (blast elim: state_okE)
  have o: "offset (- e) (- c) = - offset e c" by (simp add: offset_def)
  show ?thesis
    using advance_exact [of "advance_state e c r" _ _ "- e" "- c", OF _ c1.kept_jump [OF s(2)] c2.kept_jump [OF s(3)]] advance_exact [OF s, of e c] s
    by (simp add: o c1.jump_back c2.jump_back)
qed

theorem rng_advance_round_trip_witness:
  "advance_state (- 100) (- 7) (advance_state 100 7 (snd (rng_init (rng_pkg0, rng_blank)))) = snd (rng_init (rng_pkg0, rng_blank))"
  by (rule rng_advance_round_trip [OF first_stream_ok])

section \<open>Every reachable state\<close>

lemma U01_draw: "state_ok (Cg r) \<Longrightarrow> snd (U01 r) = draws 1 r"
  by simp

lemma rand_u01_draws: "snd (rand_u01 r) = draws (if inc_prec r then 2 else 1) r"
proof -
  have "snd (U01d r) = snd (U01 (snd (U01 r)))" by (simp add: U01d_def Let_def split: prod.split)
  then show ?thesis by (simp add: rand_u01_def numeral_2_eq_2)
qed

lemma rng_ok_draws: "rng_ok r \<Longrightarrow> rng_ok (draws n r)"
  by (simp add: rng_ok_def state_ok_draws draws_keep)

lemma rng_ok_rand: "rng_ok r \<Longrightarrow> rng_ok (snd (rand_u01 r))"
  unfolding rand_u01_draws by (rule rng_ok_draws)

lemma rng_ok_toss: "rng_ok r \<Longrightarrow> rng_ok (toss n r)"
proof -
  have "snd (rng_next r) = snd (rand_u01 r)" for r by (simp add: rng_next_def rand_int_def split: prod.split)
  then show "rng_ok r \<Longrightarrow> rng_ok (toss n r)" by (induction n) (simp_all add: toss_def rng_ok_rand)
qed

lemma advance_ok: "rng_ok r \<Longrightarrow> rng_ok (advance_state e c r)"
proof -
  assume r: "rng_ok r"
  then obtain x y where s: "Cg r = (dvec x, dvec y)" "nonzero_residues M1 x" "nonzero_residues M2 y"
    unfolding rng_ok_def by (blast elim: state_okE)
  with advance_exact [OF s, of e c] r show ?thesis by (simp add: rng_ok_def state_okI c1.kept_jump c2.kept_jump)
qed

lemma reset_ok:
  "rng_ok r \<Longrightarrow> rng_ok (reset_start_stream r)" "rng_ok r \<Longrightarrow> rng_ok (reset_start_substream r)"
  "rng_ok r \<Longrightarrow> rng_ok (reset_next_substream r)"
proof -
  assume r: "rng_ok r"
  then show "rng_ok (reset_start_stream r)" and s: "rng_ok (reset_start_substream r)"
    by (simp_all add: rng_ok_def reset_start_stream_def reset_start_substream_def)
  from s have "state_ok (Cg (reset_start_substream r))" by (simp add: rng_ok_def)
  from state_ok_draws [OF this] table_step(1) [OF this] r show "rng_ok (reset_next_substream r)"
    by (simp add: rng_ok_def reset_next_substream_def reset_start_substream_def Let_def)
qed

lemma rng_init_ok: "state_ok (next_seed pkg) \<Longrightarrow> rng_init (pkg, r) = (pkg', r') \<Longrightarrow> rng_ok r' \<and> state_ok (next_seed pkg')"
proof -
  assume s: "state_ok (next_seed pkg)" and i: "rng_init (pkg, r) = (pkg', r')"
  from i have r: "Cg r' = next_seed pkg" "Bg r' = next_seed pkg" "Ig r' = next_seed pkg"
    "next_seed pkg' = (MatVecModM A1p127 (fst (Cg r')) m1, MatVecModM A2p127 (snd (Cg r')) m2)"
    by (auto simp: rng_init_def Let_def)
  from s r(1) have c: "state_ok (Cg r')" by simp
  from table_step(2) [OF c] state_ok_draws [OF c] r(4) have "state_ok (next_seed pkg')" by simp
  with s r show ?thesis by (simp add: rng_ok_def)
qed

text \<open>A seed that passes the check is a pair of states; seeds are \<open>unsigned long\<close>.\<close>

lemma dbl_less: "0 \<le> s \<Longrightarrow> dbl s < of_int M \<Longrightarrow> M \<le> 2 ^ 53 \<Longrightarrow> s < M \<and> dbl s = of_int s"
proof -
  assume s: "0 \<le> s" "dbl s < of_int M" "M \<le> 2 ^ 53"
  have "s < M"
  proof (rule ccontr)
    assume "\<not> ?thesis"
    then have "(of_int M :: real) \<le> of_int s" by simp
    from round53_mono [OF this] have "round53 (of_int M) \<le> dbl s" by (simp add: dbl_def)
    moreover have "(0 :: real) < of_int M" using s(1,2) round53_sign [of "of_int s"] by (simp add: dbl_def)
    ultimately show False using s(2,3) round53_int [of M] by simp
  qed
  then show ?thesis using s dops_int(4) [of s] by simp
qed

fun unsigned6 :: "int state6 \<Rightarrow> bool" where
  "unsigned6 ((s0, s1, s2), (s3, s4, s5)) \<longleftrightarrow> 0 \<le> s0 \<and> 0 \<le> s1 \<and> 0 \<le> s2 \<and> 0 \<le> s3 \<and> 0 \<le> s4 \<and> 0 \<le> s5"

lemma CheckSeed_components:
  assumes "CheckSeed ((s0, s1, s2), (s3, s4, s5)) = 0" "0 \<le> s0" "0 \<le> s1" "0 \<le> s2" "0 \<le> s3" "0 \<le> s4" "0 \<le> s5"
  shows "state_ok (map6 dbl ((s0, s1, s2), (s3, s4, s5)))"
proof -
  have b: "dbl s0 < of_int M1" "dbl s1 < of_int M1" "dbl s2 < of_int M1" "dbl s3 < of_int M2" "dbl s4 < of_int M2" "dbl s5 < of_int M2"
    and z: "(s0, s1, s2) \<noteq> (0, 0, 0)" "(s3, s4, s5) \<noteq> (0, 0, 0)"
    using assms(1) by (auto simp: CheckSeed_def tables not_le split: if_split_asm)
  have M: "M1 \<le> 2 ^ 53" "M2 \<le> 2 ^ 53" by (simp_all add: M1_def M2_def)
  note d = dbl_less [OF assms(2) b(1) M(1)] dbl_less [OF assms(3) b(2) M(1)] dbl_less [OF assms(4) b(3) M(1)]
    dbl_less [OF assms(5) b(4) M(2)] dbl_less [OF assms(6) b(5) M(2)] dbl_less [OF assms(7) b(6) M(2)]
  have "map6 dbl ((s0, s1, s2), (s3, s4, s5)) = (dvec (s0, s1, s2), dvec (s3, s4, s5))" using d by (simp add: map6_def)
  moreover have "nonzero_residues M1 (s0, s1, s2)" "nonzero_residues M2 (s3, s4, s5)"
    using d z assms(2-) by (simp_all add: nonzero_residues_def residues_def)
  ultimately show ?thesis by (simp only: state_okI)
qed

lemma CheckSeed_ok: "CheckSeed seed = 0 \<Longrightarrow> unsigned6 seed \<Longrightarrow> state_ok (map6 dbl seed)"
  using CheckSeed_components by (cases seed) auto

lemma set_package_seed_ok: "set_package_seed seed pkg = Inr pkg' \<Longrightarrow> unsigned6 seed \<Longrightarrow> state_ok (next_seed pkg')"
  by (auto simp: set_package_seed_def CheckSeed_ok split: if_split_asm)

lemma set_seed_vec_ok: "set_seed_vec seed r = Inr r' \<Longrightarrow> unsigned6 seed \<Longrightarrow> rng_ok r'"
  by (auto simp: set_seed_vec_def Let_def rng_ok_def CheckSeed_ok split: if_split_asm)

definition seeded :: "(rng_pkg \<times> rng) res \<Rightarrow> bool" where
  "seeded res \<longleftrightarrow> (\<forall>pkg r. res = Inr (pkg, r) \<longrightarrow> rng_ok r \<and> state_ok (next_seed pkg))"

lemma seeded_toss: "seeded res \<Longrightarrow> seeded (res_bind res (\<lambda>(p, r). Inr (p, toss n r)))"
  by (cases res) (auto simp: seeded_def rng_ok_toss)

lemma set_seed_long_seeded:
  assumes "set_seed_long tod seed st = Some res"
  shows "seeded res"
proof (rule set_seed_long.raw_induct [where P = "\<lambda>tod seed st res. seeded res", OF _ assms], goal_cases)
  case (1 rec tod seed st res)
  show ?case
  proof (cases "seed = 0")
    case True
    with 1(2) obtain res1 seed1 pkg where "rec tod seed1 (pkg, snd st) = Some res1"
      "res = res_bind res1 (\<lambda>(p, r). Inr (p, toss 128 r))"
      by (auto simp: bind_eq_Some_conv split: prod.splits)
    with 1(1) show ?thesis by (simp add: seeded_toss)
  next
    case False
    let ?s = "seed mod 2 ^ 64"
    from 1(2) False have "res = res_bind (set_package_seed ((?s, ?s, ?s), (?s, ?s, ?s)) (fst st)) (\<lambda>pkg. Inr (rng_init (pkg, snd st)))"
      by (simp add: Let_def)
    then show ?thesis unfolding seeded_def
      by (auto simp: res_bind_Inr_iff dest!: set_package_seed_ok dest: rng_init_ok)
  qed
qed

lemma set_seed_long_returns:
  assumes "seed \<noteq> 0 \<or> fst (heuristic_seed tod (fst st)) \<noteq> 0"
  shows "\<exists>res. set_seed_long tod seed st = Some res"
proof -
  have nz: "\<exists>res. set_seed_long tod seed st = Some res" if "seed \<noteq> 0" for seed st
    using that by (simp add: set_seed_long.simps [of tod seed] Let_def)
  show ?thesis
  proof (cases "seed = 0")
    case True
    obtain seed1 pkg where h: "heuristic_seed tod (fst st) = (seed1, pkg)" by (cases "heuristic_seed tod (fst st)")
    from nz [of seed1 "(pkg, snd st)"] assms True h obtain res where "set_seed_long tod seed1 (pkg, snd st) = Some res" by auto
    with True h show ?thesis by (simp add: set_seed_long.simps [of tod 0])
  qed (rule nz)
qed

lemma set_seed_seeded: "set_seed tod source seed st = Some res \<Longrightarrow> seeded res"
proof (cases source)
  case HEURISTIC_SEED_SOURCE
  moreover assume "set_seed tod source seed st = Some res"
  ultimately show ?thesis
    by (auto simp: set_seed_def bind_eq_Some_conv split: prod.splits intro: seeded_toss set_seed_long_seeded)
qed (auto simp: set_seed_def seeded_def [of "Inl _"] intro: set_seed_long_seeded split: if_split_asm)

text \<open>What can happen to a generator and to the package.\<close>

inductive rng_step :: "tod \<Rightarrow> rng_pkg \<times> rng \<Rightarrow> rng_pkg \<times> rng \<Rightarrow> bool" for tod where
  draw: "rng_step tod (pkg, r) (pkg, snd (rand_u01 r))"
| draw_int: "rng_step tod (pkg, r) (pkg, snd (rand_int low high r))"
| advance: "rng_step tod (pkg, r) (pkg, advance_state e c r)"
| start_stream: "rng_step tod (pkg, r) (pkg, reset_start_stream r)"
| start_substream: "rng_step tod (pkg, r) (pkg, reset_start_substream r)"
| next_substream: "rng_step tod (pkg, r) (pkg, reset_next_substream r)"
| antithetic: "rng_step tod (pkg, r) (pkg, set_antithetic a r)"
| precision: "rng_step tod (pkg, r) (pkg, increased_precis p r)"
| reseed: "set_seed tod source seed (pkg, r) = Some (Inr st) \<Longrightarrow> rng_step tod (pkg, r) st"
| seed_vec: "set_seed_vec seed r = Inr r' \<Longrightarrow> unsigned6 seed \<Longrightarrow> rng_step tod (pkg, r) (pkg, r')"
| package: "set_package_seed seed pkg = Inr pkg' \<Longrightarrow> unsigned6 seed \<Longrightarrow> rng_step tod (pkg, r) (pkg', r)"
| stream: "rng_step tod (pkg, r) (new_rng_named name (pkg, r'))"
| seeded_stream: "new_rng_long tod seed (pkg, r') = Some (Inr st) \<Longrightarrow> rng_step tod (pkg, r) st"

lemma new_rng_long_seeded: "new_rng_long tod seed st = Some (Inr (pkg, r)) \<Longrightarrow> rng_ok r \<and> state_ok (next_seed pkg)"
proof -
  assume "new_rng_long tod seed st = Some (Inr (pkg, r))"
  then obtain pkg1 r1 where s: "set_seed_long tod seed st = Some (Inr (pkg1, r1))" and i: "rng_init (pkg1, r1) = (pkg, r)"
    by (auto simp: new_rng_long_def bind_eq_Some_conv res_bind_Inr_iff)
  from set_seed_long_seeded [OF s] have "state_ok (next_seed pkg1)" by (simp add: seeded_def)
  from rng_init_ok [OF this i] show ?thesis .
qed

definition generator_ok :: "rng_pkg \<times> rng \<Rightarrow> bool" where
  "generator_ok st \<longleftrightarrow> rng_ok (snd st) \<and> state_ok (next_seed (fst st))"

lemma rng_step_ok: "rng_step tod st st' \<Longrightarrow> generator_ok st \<Longrightarrow> generator_ok st'"
proof (induction rule: rng_step.induct)
  case (draw_int pkg r low high)
  have "snd (rand_int low high r) = snd (rand_u01 r)" by (simp add: rand_int_def split: prod.split)
  with draw_int show ?case by (simp add: generator_ok_def rng_ok_rand)
next
  case (antithetic pkg r a)
  then show ?case by (simp add: generator_ok_def rng_ok_def set_antithetic_def)
next
  case (precision pkg r p)
  then show ?case by (simp add: generator_ok_def rng_ok_def increased_precis_def)
next
  case (reseed source seed pkg r st)
  from set_seed_seeded [OF reseed(1)] show ?case by (cases st) (simp add: generator_ok_def seeded_def)
next
  case (stream pkg r name r')
  then show ?case using rng_init_ok [of pkg "r'\<lparr>rng_name := take 99 name\<rparr>"]
    by (cases "rng_init (pkg, r'\<lparr>rng_name := take 99 name\<rparr>)") (simp add: generator_ok_def new_rng_named_def)
next
  case (seeded_stream seed pkg r' st r)
  then show ?case using new_rng_long_seeded by (cases st) (simp add: generator_ok_def)
qed (simp_all add: generator_ok_def rng_ok_rand advance_ok reset_ok set_seed_vec_ok set_package_seed_ok)

text \<open>C12: In every state that a program can reach by creating generators, seeding them from any source, drawing, jumping and resetting,
  the six \<open>double\<close> values of the current state, of the substream and of the stream are integers below the moduli and neither half is
  all zero, and the same holds of the seed of the next stream; and a number that is drawn (in normal precision, antithetic or not)
  lies strictly between 0 and 1, so that its logarithm and its inverse exist.\<close>

theorem rng_reachable_ok:
  assumes "(rng_step tod)\<^sup>*\<^sup>* (rng_init (rng_pkg0, r0)) (pkg, r)"
  shows "rng_ok r \<and> state_ok (next_seed pkg) \<and> (\<not> inc_prec r \<longrightarrow> 0 < fst (rand_u01 r) \<and> fst (rand_u01 r) < 1)"
proof -
  have "generator_ok (rng_init (rng_pkg0, r0))"
    using rng_init_ok [OF default_seed_ok, of r0] by (cases "rng_init (rng_pkg0, r0)") (simp add: generator_ok_def)
  with assms have ok: "generator_ok (pkg, r)" by (induction rule: rtranclp_induct) (auto intro: rng_step_ok)
  then have "state_ok (Cg r)" by (simp add: generator_ok_def rng_ok_def)
  note u = U01_range [OF this]
  have "0 < fst (U01 r)" "fst (U01 r) < 1" using less_le_trans [OF _ u(1), of 0] le_less_trans [OF u(2), of 1] by simp_all
  with ok show ?thesis by (simp add: generator_ok_def rand_u01_def)
qed

theorem rng_reachable_ok_witness:
  "rng_ok (advance_state 5 (- 2) (snd (rng_init (rng_pkg0, rng_blank)))) \<and>
   0 < fst (rand_u01 (advance_state 5 (- 2) (snd (rng_init (rng_pkg0, rng_blank)))))"
proof -
  let ?r = "snd (rng_init (rng_pkg0, rng_blank))" and ?p = "fst (rng_init (rng_pkg0, rng_blank))"
  have "rng_step (\<lambda>_. (0, 0)) (rng_init (rng_pkg0, rng_blank)) (?p, advance_state 5 (- 2) ?r)"
    using rng_step.advance [of "\<lambda>_. (0, 0)" ?p ?r 5 "- 2"] by simp
  from rng_reachable_ok [OF r_into_rtranclp, OF this] show ?thesis
    by (simp add: advance_state_def rng_init_def Let_def)
qed

text \<open>C25: \<open>rand_int\<close> returns a number of the range that it is asked for, bounds included, whatever the rounding of the product: on every
  valid state in normal precision and every range of at most \<open>2^53\<close> numbers. So \<open>next\<close> returns a number from 0 to \<open>MAXINT\<close>, and
  \<open>uniform(k)\<close> one below \<open>k\<close>.\<close>

theorem rand_int_in_range:
  assumes r: "rng_ok r" "\<not> inc_prec r" and b: "- (2 ^ 63) \<le> low" "low \<le> high" "high < 2 ^ 63" "high - low < 2 ^ 53"
    and k: "0 < k" "k < 2 ^ 31"
  shows "low \<le> fst (rand_int low high r) \<and> fst (rand_int low high r) \<le> high \<and>
    (\<exists>n r'. uniform_int k r = Inr (n, r') \<and> 0 \<le> n \<and> n < k)"
proof -
  have "state_ok (Cg r)" using r(1) by (simp add: rng_ok_def)
  note u = U01_range [OF this]
  have range: "l \<le> fst (rand_int l h r) \<and> fst (rand_int l h r) \<le> h" if b: "- (2 ^ 63) \<le> l" "l \<le> h" "h < 2 ^ 63" "h - l < 2 ^ 53" for l h
  proof -
    let ?n = "h - l + 1" and ?u = "fst (U01 r)"
    have n: "1 \<le> ?n" "?n \<le> 2 ^ 53" using b by simp_all
    have d: "dbl (?n mod 2 ^ 64) = of_int ?n" using n dops_int(4) [of ?n] by simp
    have n1: "(1 :: real) \<le> of_int ?n" using n(1) by simp
    have z: "0 \<le> of_int ?n * ?u" using n1 u(1) by (intro mult_nonneg_nonneg) (simp_all add: order_trans [rotated])
    have "of_int ?n * ?u * (1 + 1 / 2 ^ 53) \<le> of_int ?n * (1 - 1 / 2 ^ 34) * (1 + 1 / 2 ^ 53)"
      using n1 u(2) by (intro mult_right_mono mult_left_mono) simp_all
    also have "\<dots> < of_int ?n" using n1 by simp
    finally have "dmul (of_int ?n) ?u < of_int ?n" using rounded [OF z] by (simp add: dmul_def)
    moreover have "0 \<le> dmul (of_int ?n) ?u" using round53_sign [OF z] by (simp add: dmul_def)
    ultimately have t: "0 \<le> trunc (dmul (of_int ?n) ?u)" "trunc (dmul (of_int ?n) ?u) \<le> h - l" by (simp_all add: trunc_def) linarith
    have "fst (rand_int l h r) = signed_take_bit 63 (l + trunc (dmul (of_int ?n) ?u))"
      using r(2) d by (simp add: rand_int_def rand_u01_def split: prod.split)
    also have "\<dots> = l + trunc (dmul (of_int ?n) ?u)" using t b by (intro signed_take_bit_int_eq_self) simp_all
    finally show ?thesis using t by simp
  qed
  obtain n r' where e: "rng_next r = (n, r')" by (cases "rng_next r")
  with range [of 0 MAXINT] have n: "0 \<le> n" "n \<le> 2147483647" by (auto simp: rng_next_def MAXINT_def)
  have "uniform_positive_int r = (n, r')" using n by (simp add: uniform_positive_int_def e signed_take_bit_int_eq_self)
  moreover have m: "0 \<le> n mod k" "n mod k < k" using k(1) by simp_all
  moreover have "signed_take_bit 31 (n mod k) = n mod k" using m k(2) by (intro signed_take_bit_int_eq_self) simp_all
  ultimately have "uniform_int k r = Inr (n mod k, r')" using n k by (simp add: uniform_int_def)
  with range [OF b] \<open>0 \<le> n mod k\<close> \<open>n mod k < k\<close> show ?thesis by blast
qed

theorem rand_int_in_range_witness:
  "1 \<le> fst (rand_int 1 6 (snd (rng_init (rng_pkg0, rng_blank)))) \<and> fst (rand_int 1 6 (snd (rng_init (rng_pkg0, rng_blank)))) \<le> 6"
  using rand_int_in_range [OF first_stream_ok, of 1 6 10] by (simp add: rng_init_def Let_def)

end
